(* ===== verification/Prelude.thy ===== *)
theory Prelude
  imports Main "HOL-Library.Monad_Syntax" "HOL-Library.Sublist"
begin

text \<open>
  Shared foundations of the development: the collections of rewrite rules the components
  extend, the Python values and the fragments of the Python standard library that the modelled
  code calls (\<open>str.partition\<close>, \<open>str.isdigit\<close>, \<open>int\<close>, \<open>uuid.UUID\<close>), the result type for code that
  raises, and generic lemmas on lists.

  A HOL \<open>char\<close> is read as a code point below 256, so a \<open>string\<close> is a Python \<open>str\<close> over Latin-1.
  That is exactly what an HTTP header or path segment can carry into the program.
\<close>

named_theorems repo_simps \<open>characteristic equations of the repository operations\<close>
named_theorems str_simps \<open>characteristic equations of the Python string operations\<close>
named_theorems step_intros \<open>introduction rules for triples over world-passing code\<close>

section \<open>Exceptions and results\<close>

text \<open>Exceptions that the modelled code raises or lets escape. Errors of a component that carry
  data of their own have their own datatype in its theory.\<close>

datatype exn =
    ValueError
  | KeyError
  | TypeError
  | IndexError
  | ValidationError
  | InvalidEventIdError
  | CursorError
  | RunCancelledError
  | GraphRecursionError string
  | SandboxQueueTimeoutError string
  | ApiError nat string
  | MemoryStoreError
  | MemoryCapacityError
  | MemoryVersionConflictError
  | FileNotFoundError
  | OtherError string

type_synonym 'a result = "exn + 'a"

fun result_bind :: "'a result \<Rightarrow> ('a \<Rightarrow> 'b result) \<Rightarrow> 'b result" where
  "result_bind (Inl e) f = Inl e"
| "result_bind (Inr x) f = f x"

lemma result_bind_Inr_iff:
  "result_bind m f = Inr y \<longleftrightarrow> (\<exists>x. m = Inr x \<and> f x = Inr y)"
  by (cases m) auto

text \<open>A list of results: the list, or the first exception.\<close>

fun result_list :: "'a result list \<Rightarrow> 'a list result" where
  "result_list [] = Inr []"
| "result_list (x # xs) = result_bind x (\<lambda>y. result_bind (result_list xs) (\<lambda>ys. Inr (y # ys)))"

lemma result_list_Inr: "(\<And>x. x \<in> set xs \<Longrightarrow> f x = Inr (g x)) \<Longrightarrow> result_list (map f xs) = Inr (map g xs)"
  by (induction xs) auto

section \<open>Python values\<close>

text \<open>The dynamically typed values the code inspects with \<open>isinstance\<close>: JSON-like data plus the
  LangChain message objects a stream chunk carries. A dict is an association list in insertion
  order; \<open>PObj\<close> is any object of a type the code never looks for.\<close>

datatype msg_kind = AIMessage | AIMessageChunk | ToolMessage | HumanMessage | OtherMessage

datatype pyval =
    PNone
  | PBool bool
  | PInt int
  | PStr string
  | PList "pyval list"
  | PTuple "pyval list"
  | PDict "(string \<times> pyval) list"
  | PMsg message
  | PObj nat
and message =
    Message
      (msg_kind: msg_kind)
      (msg_text: string)
      (msg_kwargs: "(string \<times> pyval) list")
      (msg_calls: "tool_call list")
      (msg_usage: pyval)
      (msg_call_id: string)
      (msg_name: "string option")
      (msg_status: string)
and tool_call =
    ToolCall (tc_id: "string option") (tc_name: string) (tc_args: "(string \<times> pyval) list")

type_synonym pydict = "(string \<times> pyval) list"

text \<open>\<open>dict.get\<close> with the default \<open>None\<close>.\<close>

definition dict_get :: "pydict \<Rightarrow> string \<Rightarrow> pyval" where
  "dict_get d k = (case map_of d k of None \<Rightarrow> PNone | Some v \<Rightarrow> v)"

text \<open>\<open>isinstance(v, int)\<close> and the integer it stands for: a Python \<open>bool\<close> is an \<open>int\<close>.\<close>

fun as_python_int :: "pyval \<Rightarrow> int option" where
  "as_python_int (PInt i) = Some i"
| "as_python_int (PBool b) = Some (if b then 1 else 0)"
| "as_python_int _ = None"

section \<open>Python strings\<close>

text \<open>\<open>s.partition(c)\<close> for a one-character separator: the part before its first occurrence,
  whether it occurs, the part after it.\<close>

fun str_partition :: "char \<Rightarrow> string \<Rightarrow> string \<times> bool \<times> string" where
  "str_partition c [] = ([], False, [])"
| "str_partition c (x # xs) =
     (if x = c then ([], True, xs)
      else case str_partition c xs of (a, found, b) \<Rightarrow> (x # a, found, b))"

text \<open>The decimal digits, and the characters \<open>str.isdigit\<close> accepts: over Latin-1 these are the
  decimal digits and the three superscript digits, which \<open>int\<close> does not accept.\<close>

definition is_decimal :: "char \<Rightarrow> bool" where
  "is_decimal c \<longleftrightarrow> 48 \<le> (of_char c :: nat) \<and> (of_char c :: nat) \<le> 57"

definition is_digit_char :: "char \<Rightarrow> bool" where
  "is_digit_char c \<longleftrightarrow> is_decimal c \<or> (of_char c :: nat) \<in> {178, 179, 185}"

definition str_isdigit :: "string \<Rightarrow> bool" where
  "str_isdigit s \<longleftrightarrow> s \<noteq> [] \<and> list_all is_digit_char s"

definition dec_value :: "char \<Rightarrow> nat" where
  "dec_value c = of_char c - 48"

definition dec_nat :: "string \<Rightarrow> nat" where
  "dec_nat s = foldl (\<lambda>acc c. acc * 10 + dec_value c) 0 s"

text \<open>\<open>int(s)\<close> on a string that passed \<open>str.isdigit\<close>: \<open>ValueError\<close> when a character is not a decimal
  digit, and when there are more digits than the interpreter's conversion limit.\<close>

definition int_max_str_digits :: nat where
  "int_max_str_digits = 4300"

definition int_of_digits :: "string \<Rightarrow> nat result" where
  "int_of_digits s =
     (if s = [] \<or> \<not> list_all is_decimal s \<or> int_max_str_digits < length s then Inl ValueError
      else Inr (dec_nat s))"

text \<open>Printing a natural number in decimal, as an f-string does.\<close>

fun dec_string :: "nat \<Rightarrow> string" where
  "dec_string n =
     (if n < 10 then [char_of (48 + n)]
      else dec_string (n div 10) @ [char_of (48 + n mod 10)])"

declare dec_string.simps [simp del]

section \<open>UUIDs\<close>

text \<open>\<open>uuid.UUID(s)\<close>: drop \<open>urn:\<close> and \<open>uuid:\<close>, strip braces, drop hyphens, require 32 characters and
  read them with \<open>int(s, 16)\<close>, which itself allows surrounding blanks, a plus sign, a \<open>0x\<close> prefix
  and single underscores between digits. A \<open>UUID\<close> is its 128-bit integer.\<close>

type_synonym uuid = nat

function str_remove :: "string \<Rightarrow> string \<Rightarrow> string" where
  "str_remove pat s =
     (if pat = [] \<or> s = [] then s
      else if prefix pat s then str_remove pat (drop (length pat) s)
      else hd s # str_remove pat (tl s))"
  by pat_completeness auto
termination
  by (relation "measure (\<lambda>(pat, s). length s)") (auto simp: neq_Nil_conv)

declare str_remove.simps [simp del]

definition str_strip :: "(char \<Rightarrow> bool) \<Rightarrow> string \<Rightarrow> string" where
  "str_strip p s = rev (dropWhile p (rev (dropWhile p s)))"

definition is_ascii :: "char \<Rightarrow> bool" where
  "is_ascii c \<longleftrightarrow> (of_char c :: nat) < 128"

definition is_c_space :: "char \<Rightarrow> bool" where
  "is_c_space c \<longleftrightarrow> (of_char c :: nat) \<in> {9, 10, 11, 12, 13, 32}"

definition is_unicode_space :: "char \<Rightarrow> bool" where
  "is_unicode_space c \<longleftrightarrow> is_c_space c \<or> (of_char c :: nat) \<in> {28, 29, 30, 31, 133, 160}"

text \<open>A string with a non-ASCII character has its Unicode blanks turned into spaces first.\<close>

definition space_to_ascii :: "string \<Rightarrow> string" where
  "space_to_ascii s =
     (if list_all is_ascii s then s
      else map (\<lambda>c. if is_unicode_space c then CHR '' '' else c) s)"

definition hex_digit :: "char \<Rightarrow> nat option" where
  "hex_digit c =
     (let n = (of_char c :: nat) in
      if 48 \<le> n \<and> n \<le> 57 then Some (n - 48)
      else if 97 \<le> n \<and> n \<le> 102 then Some (n - 87)
      else if 65 \<le> n \<and> n \<le> 70 then Some (n - 55)
      else None)"

text \<open>Digits with single underscores between them; \<open>sep\<close> says whether an underscore may come next.\<close>

fun hex_digits :: "bool \<Rightarrow> nat \<Rightarrow> string \<Rightarrow> nat option" where
  "hex_digits sep acc [] = (if sep then Some acc else None)"
| "hex_digits sep acc (c # cs) =
     (if c = CHR ''_'' then (if sep then hex_digits False acc cs else None)
      else case hex_digit c of
             None \<Rightarrow> None
           | Some d \<Rightarrow> hex_digits True (acc * 16 + d) cs)"

fun hex_unprefixed :: "string \<Rightarrow> nat option" where
  "hex_unprefixed (a # x # cs) =
     (if a = CHR ''0'' \<and> (x = CHR ''x'' \<or> x = CHR ''X'')
      then hex_digits False 0 (case cs of u # us \<Rightarrow> if u = CHR ''_'' then us else cs | [] \<Rightarrow> cs)
      else hex_digits False 0 (a # x # cs))"
| "hex_unprefixed s = hex_digits False 0 s"

definition int_base16 :: "string \<Rightarrow> nat option" where
  "int_base16 s =
     (let t = str_strip is_c_space (space_to_ascii s)
      in hex_unprefixed (case t of c # cs \<Rightarrow> if c = CHR ''+'' then cs else t | [] \<Rightarrow> t))"

definition UUID :: "string \<Rightarrow> uuid option" where
  "UUID s =
     (let h = str_remove ''uuid:'' (str_remove ''urn:'' s);
          h = filter (\<lambda>c. c \<noteq> CHR ''-'') (str_strip (\<lambda>c. c = CHR ''{'' \<or> c = CHR ''}'') h)
      in if length h \<noteq> 32 then None else int_base16 h)"

text \<open>\<open>UUID.hex\<close>: 32 lower-case hexadecimal digits.\<close>

definition hex_char :: "nat \<Rightarrow> char" where
  "hex_char d = (if d < 10 then char_of (48 + d) else char_of (87 + d))"

fun hex_pad :: "nat \<Rightarrow> nat \<Rightarrow> string" where
  "hex_pad 0 n = []"
| "hex_pad (Suc k) n = hex_pad k (n div 16) @ [hex_char (n mod 16)]"

definition uuid_hex :: "uuid \<Rightarrow> string" where
  "uuid_hex u = hex_pad 32 u"

section \<open>Lemmas on strings\<close>

lemma str_partition_append [str_simps]:
  "c \<notin> set a \<Longrightarrow> str_partition c (a @ c # b) = (a, True, b)"
  by (induction a) auto

lemma str_partition_absent [str_simps]:
  "c \<notin> set s \<Longrightarrow> str_partition c s = (s, False, [])"
  by (induction s) auto

lemma str_partition_found:
  "str_partition c s = (a, True, b) \<Longrightarrow> s = a @ c # b \<and> c \<notin> set a"
  by (induction s arbitrary: a) (auto split: if_splits prod.splits)

lemma is_decimal_char_of [simp]: "n < 10 \<Longrightarrow> is_decimal (char_of (48 + n :: nat))"
  by (simp add: is_decimal_def)

lemma is_decimal_not_sep [simp]: "is_decimal c \<Longrightarrow> c \<noteq> CHR ''-''"
  by (auto simp: is_decimal_def)

lemma dec_value_char_of [simp]: "n < 10 \<Longrightarrow> dec_value (char_of (48 + n :: nat)) = n"
  by (simp add: dec_value_def)

lemma dec_nat_snoc [simp]: "dec_nat (s @ [c]) = dec_nat s * 10 + dec_value c"
  by (simp add: dec_nat_def)

lemma dec_string_ne [simp]: "dec_string n \<noteq> []"
  by (subst dec_string.simps) simp

lemma dec_string_decimal [simp]: "list_all is_decimal (dec_string n)"
proof (induction n rule: dec_string.induct)
  case (1 n)
  then show ?case by (subst dec_string.simps) (simp add: list_all_append)
qed

lemma dec_string_no_sep [simp]: "CHR ''-'' \<notin> set (dec_string n)"
  using dec_string_decimal [of n] is_decimal_not_sep by (fastforce simp: list_all_iff)

lemma dec_nat_dec_string [simp]: "dec_nat (dec_string n) = n"
proof (induction n rule: dec_string.induct)
  case (1 n)
  show ?case
  proof (cases "n < 10")
    case True
    then show ?thesis
      using dec_nat_snoc [of "[]"] by (subst dec_string.simps) (simp add: dec_nat_def)
  next
    case False
    with 1 show ?thesis by (subst dec_string.simps) simp
  qed
qed

lemma length_dec_string: "0 < k \<Longrightarrow> n < 10 ^ k \<Longrightarrow> length (dec_string n) \<le> k"
proof (induction n arbitrary: k rule: dec_string.induct)
  case (1 n)
  show ?case
  proof (cases "n < 10")
    case True
    with 1 show ?thesis by (subst dec_string.simps) simp
  next
    case False
    then obtain j where k: "k = Suc j" and j: "0 < j"
      using 1(2,3) by (cases k; cases "k = 1") auto
    have "n div 10 < 10 ^ j"
      using 1(3) k by (simp add: div_less_iff_less_mult mult.commute)
    from 1(1) [OF False j this] False k show ?thesis
      by (subst dec_string.simps) simp
  qed
qed

lemma int_of_digits_dec_string:
  "n < 10 ^ int_max_str_digits \<Longrightarrow> int_of_digits (dec_string n) = Inr n"
proof -
  assume n: "n < 10 ^ int_max_str_digits"
  have "0 < int_max_str_digits" by (simp add: int_max_str_digits_def)
  from length_dec_string [OF this n] have "\<not> int_max_str_digits < length (dec_string n)"
    by (rule leD)
  then show ?thesis by (simp add: int_of_digits_def)
qed

lemma is_decimal_is_digit: "list_all is_decimal s \<Longrightarrow> list_all is_digit_char s"
  by (auto simp: list_all_iff is_digit_char_def)

section \<open>The hexadecimal form of a UUID reads back\<close>

lemma hex_digit_hex_char [simp]: "d < 16 \<Longrightarrow> hex_digit (hex_char d) = Some d"
  by (auto simp: hex_digit_def hex_char_def Let_def)

lemma hex_char_code:
  "d < 16 \<Longrightarrow> (of_char (hex_char d) :: nat) = (if d < 10 then 48 + d else 87 + d)"
  by (simp add: hex_char_def)

lemma hex_char_neq:
  assumes "d < 16" and "(of_char c :: nat) \<notin> {48..57} \<union> {97..102}"
  shows "hex_char d \<noteq> c"
  using hex_char_code [OF assms(1)] assms by (auto split: if_splits)

lemma length_hex_pad [simp]: "length (hex_pad k n) = k"
  by (induction k arbitrary: n) auto

lemma hex_pad_chars: "c \<in> set (hex_pad k n) \<Longrightarrow> \<exists>d<16. c = hex_char d"
proof (induction k arbitrary: n)
  case (Suc k)
  have "n mod 16 < 16" by simp
  with Suc show ?case by (simp only: hex_pad.simps set_append set_simps Un_iff) blast
qed simp

lemma hex_pad_code:
  "c \<in> set (hex_pad k n) \<Longrightarrow> (of_char c :: nat) \<in> {48..57} \<union> {97..102}"
proof -
  assume "c \<in> set (hex_pad k n)"
  then obtain d where "d < 16" and "c = hex_char d" by (blast dest: hex_pad_chars)
  then have "(of_char c :: nat) = (if d < 10 then 48 + d else 87 + d)"
    by (simp only: hex_char_code)
  with \<open>d < 16\<close> show ?thesis by (cases "d < 10") simp_all
qed

lemma hex_pad_avoids:
  "(of_char c :: nat) \<notin> {48..57} \<union> {97..102} \<Longrightarrow> c \<notin> set (hex_pad k n)"
  using hex_pad_code by blast

lemma hex_digits_snoc:
  "hex_digits sep acc s = Some m \<Longrightarrow> c \<noteq> CHR ''_'' \<Longrightarrow> hex_digit c = Some d \<Longrightarrow>
   hex_digits sep acc (s @ [c]) = Some (m * 16 + d)"
  by (induction s arbitrary: sep acc) (auto split: if_splits option.splits)

lemma hex_digits_hex_pad:
  "0 < k \<Longrightarrow> n < 16 ^ k \<Longrightarrow> hex_digits False 0 (hex_pad k n) = Some n"
proof (induction k arbitrary: n)
  case (Suc k)
  have d: "hex_digit (hex_char (n mod 16)) = Some (n mod 16)" and
    u: "hex_char (n mod 16) \<noteq> CHR ''_''"
    using hex_char_neq [of "n mod 16" "CHR ''_''"] by simp_all
  show ?case
  proof (cases "k = 0")
    case True
    with Suc.prems d u show ?thesis by simp
  next
    case False
    with Suc.prems have "n div 16 < 16 ^ k" by (simp add: div_less_iff_less_mult mult.commute)
    with Suc.IH False have "hex_digits False 0 (hex_pad k (n div 16)) = Some (n div 16)" by simp
    from hex_digits_snoc [OF this u d] show ?thesis by simp
  qed
qed simp

lemma str_remove_absent: "c \<in> set pat \<Longrightarrow> c \<notin> set s \<Longrightarrow> str_remove pat s = s"
proof (induction pat s rule: str_remove.induct)
  case (1 pat s)
  have "\<not> prefix pat s" using 1(3,4) by (auto dest: set_mono_prefix)
  with 1 show ?case
    by (subst str_remove.simps) (cases s, auto)
qed

lemma str_strip_absent: "list_all (\<lambda>c. \<not> p c) s \<Longrightarrow> str_strip p s = s"
proof -
  assume a: "list_all (\<lambda>c. \<not> p c) s"
  then have "dropWhile p s = s" by (cases s) auto
  moreover from a have "dropWhile p (rev s) = rev s"
    by (cases "rev s") (auto simp: list_all_iff)
  ultimately show ?thesis by (simp add: str_strip_def)
qed

lemma int_base16_hex_pad:
  assumes "2 \<le> k" and "n < 16 ^ k"
  shows "int_base16 (hex_pad k n) = Some n"
proof -
  let ?s = "hex_pad k n"
  have ascii: "space_to_ascii ?s = ?s"
    using hex_pad_code [of _ k n] by (fastforce simp: space_to_ascii_def list_all_iff is_ascii_def)
  have "list_all (\<lambda>c. \<not> is_c_space c) ?s"
    using hex_pad_code [of _ k n] by (fastforce simp: list_all_iff is_c_space_def)
  then have strip: "str_strip is_c_space ?s = ?s" by (rule str_strip_absent)
  have avoid: "CHR ''+'' \<notin> set ?s" "CHR ''x'' \<notin> set ?s" "CHR ''X'' \<notin> set ?s"
    by (auto intro!: hex_pad_avoids)
  obtain a x cs where s: "?s = a # x # cs"
    using assms(1) length_hex_pad [of k n] by (metis Suc_le_length_iff numeral_2_eq_2)
  with avoid have "hex_unprefixed ?s = hex_digits False 0 ?s" by auto
  with hex_digits_hex_pad [of k n] assms avoid s ascii strip show ?thesis
    by (auto simp: int_base16_def)
qed

lemma UUID_uuid_hex [simp]: "u < 2 ^ 128 \<Longrightarrow> UUID (uuid_hex u) = Some u"
proof -
  assume u: "u < 2 ^ 128"
  let ?s = "uuid_hex u"
  have avoid: "CHR '':'' \<notin> set ?s" "CHR ''{'' \<notin> set ?s" "CHR ''}'' \<notin> set ?s"
      "CHR ''-'' \<notin> set ?s"
    by (auto simp: uuid_hex_def intro!: hex_pad_avoids)
  have "str_remove ''urn:'' ?s = ?s" "str_remove ''uuid:'' ?s = ?s"
    using avoid(1) by (auto intro: str_remove_absent [of "CHR '':''"])
  moreover have "str_strip (\<lambda>c. c = CHR ''{'' \<or> c = CHR ''}'') ?s = ?s"
    using avoid by (intro str_strip_absent) (auto simp: list_all_iff)
  moreover have "filter (\<lambda>c. c \<noteq> CHR ''-'') ?s = ?s"
    using avoid(4) by (intro filter_True) auto
  moreover have "int_base16 ?s = Some u"
    unfolding uuid_hex_def by (rule int_base16_hex_pad) (use u in auto)
  ultimately show ?thesis by (simp add: UUID_def uuid_hex_def)
qed

lemma uuid_hex_inj:
  assumes "u < 2 ^ 128" "v < 2 ^ 128"
  shows "uuid_hex u = uuid_hex v \<longleftrightarrow> u = v"
  by (metis UUID_uuid_hex assms option.inject)

text \<open>\<open>str(UUID)\<close>, the other common spelling: the same digits in five groups.\<close>

definition uuid_str :: "uuid \<Rightarrow> string" where
  "uuid_str u = (let h = uuid_hex u in
     take 8 h @ ''-'' @ take 4 (drop 8 h) @ ''-'' @ take 4 (drop 12 h) @ ''-'' @ take 4 (drop 16 h) @ ''-'' @ drop 20 h)"

lemma set_uuid_str: "set (uuid_str u) \<subseteq> insert (CHR ''-'') (set (uuid_hex u))"
  using set_take_subset [of 8 "uuid_hex u"] set_take_subset [of 4 "drop 8 (uuid_hex u)"] set_take_subset [of 4 "drop 12 (uuid_hex u)"]
    set_take_subset [of 4 "drop 16 (uuid_hex u)"] set_drop_subset [of 8 "uuid_hex u"] set_drop_subset [of 12 "uuid_hex u"]
    set_drop_subset [of 16 "uuid_hex u"] set_drop_subset [of 20 "uuid_hex u"]
  by (auto simp: uuid_str_def Let_def)

lemma length_uuid_str: "length (uuid_str u) = 36"
  by (simp add: uuid_str_def uuid_hex_def Let_def)

lemma uuid_str_neq_hex: "uuid_str u \<noteq> uuid_hex v"
  using length_uuid_str [of u] by (auto simp: uuid_hex_def dest: arg_cong [where f = length])

lemma filter_uuid_str: "filter (\<lambda>c. c \<noteq> CHR ''-'') (uuid_str u) = uuid_hex u"
proof -
  have no: "CHR ''-'' \<notin> set (uuid_hex u)" by (auto simp: uuid_hex_def intro!: hex_pad_avoids)
  have f: "filter (\<lambda>c. c \<noteq> CHR ''-'') xs = xs" if "set xs \<subseteq> set (uuid_hex u)" for xs
    using that no by (intro filter_True) auto
  let ?h = "uuid_hex u"
  have "filter (\<lambda>c. c \<noteq> CHR ''-'') (uuid_str u) = take 8 ?h @ take 4 (drop 8 ?h) @ take 4 (drop 12 ?h) @ take 4 (drop 16 ?h) @ drop 20 ?h"
    unfolding uuid_str_def Let_def filter_append
    by (simp add: f set_take_subset set_drop_subset order_trans [OF set_take_subset set_drop_subset])
  also have "\<dots> = ?h"
  proof -
    have "take 4 (drop 16 ?h) @ drop 20 ?h = drop 16 ?h" using append_take_drop_id [of 4 "drop 16 ?h"] by simp
    moreover have "take 4 (drop 12 ?h) @ drop 16 ?h = drop 12 ?h" using append_take_drop_id [of 4 "drop 12 ?h"] by simp
    moreover have "take 4 (drop 8 ?h) @ drop 12 ?h = drop 8 ?h" using append_take_drop_id [of 4 "drop 8 ?h"] by simp
    ultimately show ?thesis by simp
  qed
  finally show ?thesis .
qed

lemma UUID_uuid_str [simp]: "u < 2 ^ 128 \<Longrightarrow> UUID (uuid_str u) = Some u"
proof -
  assume u: "u < 2 ^ 128"
  have avoid: "CHR '':'' \<notin> set (uuid_str u)" "CHR ''{'' \<notin> set (uuid_str u)" "CHR ''}'' \<notin> set (uuid_str u)"
    using set_uuid_str [of u] by (auto simp: uuid_hex_def dest!: subsetD hex_pad_code)
  have "str_remove ''urn:'' (uuid_str u) = uuid_str u" "str_remove ''uuid:'' (uuid_str u) = uuid_str u"
    using avoid(1) by (auto intro: str_remove_absent [of "CHR '':''"])
  moreover have "str_strip (\<lambda>c. c = CHR ''{'' \<or> c = CHR ''}'') (uuid_str u) = uuid_str u"
    using avoid by (intro str_strip_absent) (auto simp: list_all_iff)
  moreover have "int_base16 (uuid_hex u) = Some u"
    unfolding uuid_hex_def by (rule int_base16_hex_pad) (use u in auto)
  ultimately show ?thesis by (simp add: UUID_def filter_uuid_str) (simp add: uuid_hex_def)
qed

end
