(* ===== verification/Event_Model.thy ===== *)
theory Event_Model
  imports Prelude
begin

text \<open>
  The event vocabulary of \<open>app/event/model.py\<close>: run states, error codes, token accounting and
  the event envelope with one payload constructor per event class. The pydantic constraints of
  the source (\<open>ge=0\<close>, \<open>min_length=1\<close>) are the validity predicates \<open>valid_tokens\<close> and
  \<open>valid_event\<close>.
\<close>

datatype EventType =
    RUN_STARTED | RUN_FINISHED | RUN_FAILED | RUN_CANCELLED | SANDBOX_QUEUED | SANDBOX_READY
  | ERROR | TOKEN | REASONING | TOOL_CALL | TOOL_RESULT | TODO_UPDATED | COMPACTION
  | SUBAGENT_STARTED | SUBAGENT_FINISHED | INTERRUPT

text \<open>The wire value of a type, as \<open>StrEnum\<close> gives it.\<close>

fun event_type_value :: "EventType \<Rightarrow> string" where
  "event_type_value RUN_STARTED = ''run.started''"
| "event_type_value RUN_FINISHED = ''run.finished''"
| "event_type_value RUN_FAILED = ''run.failed''"
| "event_type_value RUN_CANCELLED = ''run.cancelled''"
| "event_type_value SANDBOX_QUEUED = ''sandbox.queued''"
| "event_type_value SANDBOX_READY = ''sandbox.ready''"
| "event_type_value ERROR = ''error''"
| "event_type_value TOKEN = ''token''"
| "event_type_value REASONING = ''reasoning''"
| "event_type_value TOOL_CALL = ''tool_call''"
| "event_type_value TOOL_RESULT = ''tool_result''"
| "event_type_value TODO_UPDATED = ''todo.updated''"
| "event_type_value COMPACTION = ''compaction''"
| "event_type_value SUBAGENT_STARTED = ''subagent.started''"
| "event_type_value SUBAGENT_FINISHED = ''subagent.finished''"
| "event_type_value INTERRUPT = ''interrupt''"

datatype RunStatus = QUEUED | RUNNING | WAITING_APPROVAL | SUCCEEDED | FAILED | CANCELLED

datatype RunErrorCode = SANDBOX_QUEUE_TIMEOUT | INTERNAL | RECURSION_LIMIT | ORPHANED

fun error_code_value :: "RunErrorCode \<Rightarrow> string" where
  "error_code_value SANDBOX_QUEUE_TIMEOUT = ''SANDBOX_QUEUE_TIMEOUT''"
| "error_code_value INTERNAL = ''INTERNAL''"
| "error_code_value RECURSION_LIMIT = ''RECURSION_LIMIT''"
| "error_code_value ORPHANED = ''ORPHANED''"

section \<open>Token accounting\<close>

datatype TokenUsage =
  TokenUsage (input_cache_read: int) (input_uncached: int) (output_tk: int)

instantiation TokenUsage :: comm_monoid_add
begin

definition zero_TokenUsage :: TokenUsage where
  "0 = TokenUsage 0 0 0"

definition plus_TokenUsage :: "TokenUsage \<Rightarrow> TokenUsage \<Rightarrow> TokenUsage" where
  "a + b = TokenUsage (input_cache_read a + input_cache_read b)
             (input_uncached a + input_uncached b) (output_tk a + output_tk b)"

instance
  by standard (auto simp: zero_TokenUsage_def plus_TokenUsage_def intro: TokenUsage.expand)

end

text \<open>\<open>__add__\<close> of the source is the \<open>+\<close> of this instance; \<open>TokenUsage()\<close> is its zero.\<close>

definition token_usage_add :: "TokenUsage \<Rightarrow> TokenUsage \<Rightarrow> TokenUsage" where
  "token_usage_add a b = a + b"

definition valid_tokens :: "TokenUsage \<Rightarrow> bool" where
  "valid_tokens t \<longleftrightarrow> 0 \<le> input_cache_read t \<and> 0 \<le> input_uncached t \<and> 0 \<le> output_tk t"

text \<open>Constructing the pydantic model validates it.\<close>

definition mk_token_usage :: "int \<Rightarrow> int \<Rightarrow> int \<Rightarrow> TokenUsage result" where
  "mk_token_usage c u out =
     (let t = TokenUsage c u out in if valid_tokens t then Inr t else Inl ValidationError)"

section \<open>Events\<close>

datatype InterruptAction =
  InterruptAction (act_index: nat) (tool_name: string) (act_args: pydict)
    (allowed_decisions: "string list")

datatype TodoStatus = Pending | InProgress | Completed

datatype TodoItem = TodoItem (todo_content: string) (todo_status: TodoStatus)

datatype ToolStatus = ToolSuccess | ToolError

datatype EventData =
    RunStartedData string bool
  | RunFinishedData TokenUsage
  | RunFailedData RunErrorCode string bool
  | RunCancelledData TokenUsage
  | SandboxQueuedData int
  | SandboxReadyData
  | ErrorData RunErrorCode string
  | TokenData string
  | ReasoningData string
  | ToolCallData string string pydict
  | ToolResultData string string string ToolStatus
  | TodoUpdatedData "TodoItem list"
  | InterruptData "InterruptAction list"
  | CompactionData int "string option"

record Event =
  ts :: int
  ev_run_id :: string
  path :: "string list"
  data :: EventData

text \<open>The \<open>type\<close> literal of each event class.\<close>

fun data_type :: "EventData \<Rightarrow> EventType" where
  "data_type (RunStartedData _ _) = RUN_STARTED"
| "data_type (RunFinishedData _) = RUN_FINISHED"
| "data_type (RunFailedData _ _ _) = RUN_FAILED"
| "data_type (RunCancelledData _) = RUN_CANCELLED"
| "data_type (SandboxQueuedData _) = SANDBOX_QUEUED"
| "data_type SandboxReadyData = SANDBOX_READY"
| "data_type (ErrorData _ _) = ERROR"
| "data_type (TokenData _) = TOKEN"
| "data_type (ReasoningData _) = REASONING"
| "data_type (ToolCallData _ _ _) = TOOL_CALL"
| "data_type (ToolResultData _ _ _ _) = TOOL_RESULT"
| "data_type (TodoUpdatedData _) = TODO_UPDATED"
| "data_type (InterruptData _) = INTERRUPT"
| "data_type (CompactionData _ _) = COMPACTION"

definition event_type :: "Event \<Rightarrow> EventType" where
  "event_type e = data_type (data e)"

definition TERMINAL_EVENT_TYPE :: "EventType set" where
  "TERMINAL_EVENT_TYPE = {RUN_FINISHED, RUN_FAILED, RUN_CANCELLED}"

definition TERMINAL_STATUS :: "RunStatus set" where
  "TERMINAL_STATUS = {SUCCEEDED, FAILED, CANCELLED}"

definition is_terminal_event :: "Event \<Rightarrow> bool" where
  "is_terminal_event e \<longleftrightarrow> event_type e \<in> TERMINAL_EVENT_TYPE"

text \<open>The run state a terminal event announces: the two constants of the source describe the
  same thing from two sides.\<close>

fun announced_status :: "EventType \<Rightarrow> RunStatus option" where
  "announced_status RUN_FINISHED = Some SUCCEEDED"
| "announced_status RUN_FAILED = Some FAILED"
| "announced_status RUN_CANCELLED = Some CANCELLED"
| "announced_status _ = None"

lemma announced_status_terminal:
  "announced_status t = Some s \<Longrightarrow> t \<in> TERMINAL_EVENT_TYPE \<and> s \<in> TERMINAL_STATUS"
  by (cases t) (auto simp: TERMINAL_EVENT_TYPE_def TERMINAL_STATUS_def)

lemma terminal_event_announces:
  "t \<in> TERMINAL_EVENT_TYPE \<longleftrightarrow> announced_status t \<noteq> None"
  by (cases t) (auto simp: TERMINAL_EVENT_TYPE_def)

lemma event_type_value_inject: "event_type_value a = event_type_value b \<Longrightarrow> a = b"
  by (cases a; cases b; simp)

lemma valid_tokens_zero [simp]: "valid_tokens 0"
  by (simp add: valid_tokens_def zero_TokenUsage_def)

lemma valid_tokens_add [intro]: "valid_tokens a \<Longrightarrow> valid_tokens b \<Longrightarrow> valid_tokens (a + b)"
  by (simp add: valid_tokens_def plus_TokenUsage_def)

lemma token_sel_add [simp]:
  "input_cache_read (a + b) = input_cache_read a + input_cache_read b"
  "input_uncached (a + b) = input_uncached a + input_uncached b"
  "output_tk (a + b) = output_tk a + output_tk b"
  by (simp_all add: plus_TokenUsage_def)

lemma token_sel_zero [simp]:
  "input_cache_read 0 = 0" "input_uncached 0 = 0" "output_tk 0 = 0"
  by (simp_all add: zero_TokenUsage_def)

end
