(* ===== verification/Agent_Config.thy ===== *)
theory Agent_Config
  imports Event_Model
begin

text \<open>
  The configuration a run executes with (\<open>app/agent/config.py\<close>), the user snapshot frozen at
  submission (\<open>app/agent/user_context.py\<close>) and the user roles (\<open>app/user/model.py\<close>). A JSON column
  that stores one of these models is represented by the model value itself.
\<close>

datatype UserRole = ADMIN | REVIEWER | TEACHER | STUDENT

record SkillReference =
  skill_id :: string
  sk_version :: nat
  sk_name :: string

record SubagentReference =
  sub_agent_id :: string
  sub_version :: nat
  sub_name :: string

record McpReference =
  server_id :: string
  mcp_name :: string

record AgentConfig =
  system_prompt :: "string option"
  agent_id :: "string option"
  agent_version :: "nat option"
  skills :: "SkillReference list option"
  subagents :: "SubagentReference list"
  mcps :: "McpReference list"

text \<open>\<open>AgentConfig()\<close>: every field at its default.\<close>

definition default_config :: AgentConfig where
  "default_config =
     \<lparr>system_prompt = None, agent_id = None, agent_version = None, skills = None,
      subagents = [], mcps = []\<rparr>"

record AgentConfigRequest =
  rq_system_prompt :: "string option"
  rq_agent_id :: "string option"
  rq_skills :: "string list option"
  rq_subagents :: "string list"
  rq_mcps :: "string list"

definition MAX_SYSTEM_PROMPT_LENGTH :: nat where
  "MAX_SYSTEM_PROMPT_LENGTH = 4000"

text \<open>The two validators of \<open>AgentConfigRequest\<close> and its \<open>max_length\<close>, in the order pydantic runs them:
  field constraints, then the \<open>after\<close> validator of \<open>skills\<close>, then the model validator.\<close>

definition omit_an_empty_skill_list :: "string list option \<Rightarrow> string list option" where
  "omit_an_empty_skill_list v = (if v = Some [] then None else v)"

definition validate_request :: "AgentConfigRequest \<Rightarrow> AgentConfigRequest result" where
  "validate_request r =
     (if (case rq_system_prompt r of None \<Rightarrow> False | Some p \<Rightarrow> MAX_SYSTEM_PROMPT_LENGTH < length p)
      then Inl ValidationError
      else let r = r\<lparr>rq_skills := omit_an_empty_skill_list (rq_skills r)\<rparr> in
        if rq_agent_id r \<noteq> None \<and> rq_system_prompt r \<noteq> None then Inl ValidationError else Inr r)"

definition default_request :: AgentConfigRequest where
  "default_request =
     \<lparr>rq_system_prompt = None, rq_agent_id = None, rq_skills = None, rq_subagents = [], rq_mcps = []\<rparr>"

text \<open>\<open>effective_config\<close>: the stored default of a thread is validated again, an override was
  validated when the request was parsed.\<close>

definition effective_config ::
    "AgentConfigRequest option \<Rightarrow> AgentConfigRequest option \<Rightarrow> AgentConfigRequest result" where
  "effective_config thread_config override =
     (case override of
        Some r \<Rightarrow> Inr r
      | None \<Rightarrow> validate_request (case thread_config of None \<Rightarrow> default_request | Some c \<Rightarrow> c))"

record UserContext =
  uc_name :: string
  uc_role :: UserRole
  uc_dept :: string
  token_used_today :: int
  token_limit_daily :: "int option"
  active_runs :: int
  concurrent_run_limit :: int

text \<open>A validated request never names an agent and a prompt at once, and validating it again
  changes nothing.\<close>

lemma validate_request_exclusive:
  "validate_request r = Inr r' \<Longrightarrow> rq_agent_id r' = None \<or> rq_system_prompt r' = None"
  by (auto simp: validate_request_def Let_def split: if_splits)

lemma validate_request_idem:
  "validate_request r = Inr r' \<Longrightarrow> validate_request r' = Inr r'"
  by (auto simp: validate_request_def omit_an_empty_skill_list_def Let_def split: if_splits)

end
