(* ===== verification/Replay.thy ===== *)
theory Replay
  imports Event_Model
begin

text \<open>
  Replay of a finished run (\<open>app/run/replay.py\<close>): adjacent text increments of one kind and one
  path are merged, so that a whole history is returned in one response. \<open>LoggedEvent\<close> of
  \<open>app/run/log.py\<close> is declared here, since every theory about logged events needs it.
\<close>

record LoggedEvent =
  log_id :: string
  event :: Event

definition MERGEABLE_TYPE :: "EventType set" where
  "MERGEABLE_TYPE = {TOKEN, REASONING}"

definition mergeable :: "LoggedEvent \<Rightarrow> LoggedEvent \<Rightarrow> bool" where
  "mergeable previous current \<longleftrightarrow>
     event_type (event current) \<in> MERGEABLE_TYPE \<and>
     event_type (event previous) = event_type (event current) \<and>
     path (event previous) = path (event current)"

text \<open>The \<open>text\<close> of a payload that has one. \<open>head.model_copy(update=...)\<close> keeps the class of the
  head payload.\<close>

fun payload_text :: "EventData \<Rightarrow> string option" where
  "payload_text (TokenData t) = Some t"
| "payload_text (ReasoningData t) = Some t"
| "payload_text _ = None"

fun with_text :: "EventData \<Rightarrow> string \<Rightarrow> EventData" where
  "with_text (TokenData _) t = TokenData t"
| "with_text (ReasoningData _) t = ReasoningData t"
| "with_text d _ = d"

text \<open>\<open>_merge\<close>: \<open>TypeError\<close> when a payload carries no text.\<close>

definition merge :: "LoggedEvent \<Rightarrow> LoggedEvent \<Rightarrow> LoggedEvent result" where
  "merge previous current =
     (case (payload_text (data (event previous)), payload_text (data (event current))) of
        (Some head, Some tail) \<Rightarrow>
          Inr \<lparr>log_id = log_id current,
               event = (event current)\<lparr>data := with_text (data (event previous)) (head @ tail)\<rparr>\<rparr>
      | _ \<Rightarrow> Inl TypeError)"

text \<open>The loop of \<open>collapse\<close>, with the list built so far kept in reverse: \<open>collapsed[-1]\<close> is its
  head.\<close>

fun collapse_loop :: "LoggedEvent list \<Rightarrow> LoggedEvent list \<Rightarrow> LoggedEvent list result" where
  "collapse_loop acc [] = Inr (rev acc)"
| "collapse_loop acc (logged # rest) =
     (case acc of
        previous # before \<Rightarrow>
          if mergeable previous logged
          then result_bind (merge previous logged) (\<lambda>m. collapse_loop (m # before) rest)
          else collapse_loop (logged # acc) rest
      | [] \<Rightarrow> collapse_loop [logged] rest)"

definition collapse :: "LoggedEvent list \<Rightarrow> LoggedEvent list result" where
  "collapse events = collapse_loop [] events"

section \<open>What the front end renders\<close>

text \<open>The text of one kind and one path, in order: what the front end shows after it has appended
  every increment.\<close>

definition rendered :: "EventType \<Rightarrow> string list \<Rightarrow> LoggedEvent list \<Rightarrow> string" where
  "rendered k p es =
     concat (map (\<lambda>l. if event_type (event l) = k \<and> path (event l) = p
                      then (case payload_text (data (event l)) of None \<Rightarrow> [] | Some t \<Rightarrow> t)
                      else []) es)"

text \<open>The events that are not increments, which the replay must keep untouched.\<close>

definition others :: "LoggedEvent list \<Rightarrow> LoggedEvent list" where
  "others es = filter (\<lambda>l. event_type (event l) \<notin> MERGEABLE_TYPE) es"

text \<open>No two adjacent events could still be merged.\<close>

fun fully_merged :: "LoggedEvent list \<Rightarrow> bool" where
  "fully_merged (a # b # es) \<longleftrightarrow> \<not> mergeable a b \<and> fully_merged (b # es)"
| "fully_merged _ = True"

section \<open>Lemmas\<close>

lemma mergeable_type_text:
  "event_type e \<in> MERGEABLE_TYPE \<longleftrightarrow> payload_text (data e) \<noteq> None"
  by (cases "data e") (auto simp: event_type_def MERGEABLE_TYPE_def)

lemma with_text_type [simp]: "data_type (with_text d t) = data_type d"
  by (cases d) auto

lemma payload_text_with_text [simp]:
  "payload_text d \<noteq> None \<Longrightarrow> payload_text (with_text d t) = Some t"
  by (cases d) auto

text \<open>Merging two mergeable events never raises, and what it returns.\<close>

lemma merge_mergeable:
  assumes "mergeable a b"
  obtains m ta tb where "merge a b = Inr m" "log_id m = log_id b"
    "payload_text (data (event a)) = Some ta" "payload_text (data (event b)) = Some tb"
    "payload_text (data (event m)) = Some (ta @ tb)"
    "event_type (event m) = event_type (event b)" "path (event m) = path (event b)"
    "event_type (event a) = event_type (event b)" "path (event a) = path (event b)"
    "event_type (event b) \<in> MERGEABLE_TYPE"
proof -
  from assms have t: "event_type (event a) = event_type (event b)"
      "path (event a) = path (event b)" "event_type (event b) \<in> MERGEABLE_TYPE"
    by (auto simp: mergeable_def)
  with mergeable_type_text [of "event a"] mergeable_type_text [of "event b"]
  obtain ta tb where "payload_text (data (event a)) = Some ta"
      "payload_text (data (event b)) = Some tb"
    by auto
  with t that show ?thesis by (auto simp: merge_def event_type_def)
qed

lemma rendered_append [simp]: "rendered k p (xs @ ys) = rendered k p xs @ rendered k p ys"
  by (simp add: rendered_def)

lemma others_append [simp]: "others (xs @ ys) = others xs @ others ys"
  by (simp add: others_def)

lemma merge_rendered:
  "mergeable a b \<Longrightarrow> merge a b = Inr m \<Longrightarrow> rendered k p [m] = rendered k p [a, b]"
  by (erule merge_mergeable) (auto simp: rendered_def mergeable_def)

lemma merge_others:
  "mergeable a b \<Longrightarrow> merge a b = Inr m \<Longrightarrow> others [m] = [] \<and> others [a, b] = []"
  by (erule merge_mergeable) (auto simp: others_def mergeable_def)

lemma merge_left_mergeable:
  "mergeable a b \<Longrightarrow> merge a b = Inr m \<Longrightarrow> mergeable x m \<longleftrightarrow> mergeable x a"
  by (erule merge_mergeable) (auto simp: mergeable_def)

lemma fully_merged_snoc:
  "fully_merged (xs @ [a, b]) \<longleftrightarrow> fully_merged (xs @ [a]) \<and> \<not> mergeable a b"
  by (induction xs rule: fully_merged.induct) auto

lemma fully_merged_replace_last:
  "fully_merged (xs @ [a]) \<Longrightarrow> (\<And>x. mergeable x m \<longleftrightarrow> mergeable x a) \<Longrightarrow> fully_merged (xs @ [m])"
  by (induction xs rule: rev_induct) (auto simp: fully_merged_snoc)

text \<open>The loop invariant: the loop returns, and what it has built renders like what it has read.\<close>

lemma collapse_loop_correct:
  assumes "fully_merged (rev acc)"
  shows "\<exists>out. collapse_loop acc es = Inr out \<and> fully_merged out \<and>
     (\<forall>k p. rendered k p out = rendered k p (rev acc @ es)) \<and> others out = others (rev acc @ es) \<and>
     length out \<le> length acc + length es \<and>
     (es \<noteq> [] \<longrightarrow> out \<noteq> [] \<and> log_id (last out) = log_id (last es))"
  using assms
proof (induction es arbitrary: acc)
  case Nil
  then show ?case by simp
next
  case (Cons l es)
  show ?case
  proof (cases "\<exists>pr before. acc = pr # before \<and> mergeable pr l")
    case True
    then obtain pr before where acc: "acc = pr # before" and mg: "mergeable pr l" by blast
    obtain m where m: "merge pr l = Inr m" and id: "log_id m = log_id l"
      using mg by (rule merge_mergeable)
    have fm: "fully_merged (rev (m # before))"
      using Cons.prems acc merge_left_mergeable [OF mg m]
      by (auto intro: fully_merged_replace_last)
    have step: "collapse_loop acc (l # es) = collapse_loop (m # before) es"
      using acc mg m by simp
    have r: "rendered k p (rev (m # before) @ es) = rendered k p (rev acc @ l # es)" for k p
      using merge_rendered [OF mg m, of k p] acc
      by (simp add: rendered_def)
    have o: "others (rev (m # before) @ es) = others (rev acc @ l # es)"
      using merge_others [OF mg m] acc by (auto simp: others_def split: if_splits)
    from Cons.IH [OF fm] obtain out where IH: "collapse_loop (m # before) es = Inr out"
      "fully_merged out" "\<forall>k p. rendered k p out = rendered k p (rev (m # before) @ es)"
      "others out = others (rev (m # before) @ es)" "length out \<le> Suc (length before) + length es"
      "es \<noteq> [] \<longrightarrow> out \<noteq> [] \<and> log_id (last out) = log_id (last es)"
      by auto
    have "out \<noteq> [] \<and> log_id (last out) = log_id (last (l # es))"
      using IH(1,6) id by (cases es) auto
    with IH step r o acc show ?thesis by simp
  next
    case False
    have step: "collapse_loop acc (l # es) = collapse_loop (l # acc) es"
      using False by (cases acc) auto
    have fm: "fully_merged (rev (l # acc))"
      using Cons.prems False by (cases acc) (auto simp: fully_merged_snoc)
    from Cons.IH [OF fm] obtain out where IH: "collapse_loop (l # acc) es = Inr out"
      "fully_merged out" "\<forall>k p. rendered k p out = rendered k p (rev (l # acc) @ es)"
      "others out = others (rev (l # acc) @ es)" "length out \<le> Suc (length acc) + length es"
      "es \<noteq> [] \<longrightarrow> out \<noteq> [] \<and> log_id (last out) = log_id (last es)"
      by auto
    have "out \<noteq> [] \<and> log_id (last out) = log_id (last (l # es))"
      using IH(1,6) by (cases es) auto
    with IH step show ?thesis by simp
  qed
qed

text \<open>C37. Collapsing a history never raises, leaves no adjacent increments that could still be
  merged, keeps every other event in order, ends at the same cursor, and renders to exactly the
  same text for every kind of increment and every agent path.\<close>

theorem collapse_correct:
  "\<exists>out. collapse es = Inr out \<and> fully_merged out \<and>
     (\<forall>k p. rendered k p out = rendered k p es) \<and> others out = others es \<and>
     length out \<le> length es \<and> map log_id (drop (length es - 1) es) = map log_id (drop (length out - 1) out)"
proof -
  obtain out where o: "collapse_loop [] es = Inr out" "fully_merged out"
      "\<forall>k p. rendered k p out = rendered k p es" "others out = others es"
      "length out \<le> length es" "es \<noteq> [] \<longrightarrow> out \<noteq> [] \<and> log_id (last out) = log_id (last es)"
    using collapse_loop_correct [of "[]" es] by auto
  have "drop (length xs - 1) xs = (if xs = [] then [] else [last xs])" for xs :: "LoggedEvent list"
    by (cases xs rule: rev_cases) auto
  with o show ?thesis by (auto simp: collapse_def)
qed

end
