(* ===== verification/Guarded_Store.thy ===== *)
theory Guarded_Store
  imports Prelude
begin

text \<open>
  The contract that lets several processes write the state of one object without a lock: every
  write is a conditional step, it reports whether it took effect, and an object in a final state
  never changes again. The lemmas of the locale hold for any interleaving of such steps; the
  repositories of the platform are its instances.
\<close>

text \<open>Running a sequence of steps, collecting what each reported.\<close>

fun exec_ops :: "('op \<Rightarrow> 's \<Rightarrow> bool \<times> 's) \<Rightarrow> 'op list \<Rightarrow> 's \<Rightarrow> bool list \<times> 's" where
  "exec_ops step [] s = ([], s)"
| "exec_ops step (x # xs) s =
     (case step x s of (b, s1) \<Rightarrow> case exec_ops step xs s1 of (bs, s2) \<Rightarrow> (b # bs, s2))"

text \<open>The steps that reported success on an object and whose target is final.\<close>

definition winners ::
    "('op \<Rightarrow> 'k option) \<Rightarrow> ('op \<Rightarrow> 'v) \<Rightarrow> ('v \<Rightarrow> bool) \<Rightarrow> 'k \<Rightarrow> 'op list \<Rightarrow> bool list \<Rightarrow> 'op list" where
  "winners key target final k xs bs =
     map fst (filter (\<lambda>(x, b). b \<and> key x = Some k \<and> final (target x)) (zip xs bs))"

text \<open>The weakest contract that is enough: a final state stays, an object only becomes final through a step on it
  that reports so, and such a step finds it not final. Steps may touch several objects.\<close>

locale guarded_writes =
  fixes step :: "'op \<Rightarrow> 's \<Rightarrow> bool \<times> 's"
    and st :: "'s \<Rightarrow> 'k \<Rightarrow> 'v option"
    and key :: "'op \<Rightarrow> 'k option"
    and target :: "'op \<Rightarrow> 'v"
    and final :: "'v \<Rightarrow> bool"
    and wf :: "'s \<Rightarrow> bool"
  assumes wf_step: "wf s \<Longrightarrow> step x s = (b, s') \<Longrightarrow> wf s'"
    and final_kept: "wf s \<Longrightarrow> step x s = (b, s') \<Longrightarrow> st s k = Some v \<Longrightarrow> final v \<Longrightarrow>
      st s' k = Some v \<and> \<not> (b \<and> key x = Some k \<and> final (target x))"
    and live_moved: "wf s \<Longrightarrow> step x s = (b, s') \<Longrightarrow> st s k = Some v \<Longrightarrow> \<not> final v \<Longrightarrow>
      (if b \<and> key x = Some k \<and> final (target x) then st s' k = Some (target x)
       else \<exists>v'. st s' k = Some v' \<and> \<not> final v')"
begin

lemma wf_exec: "wf s \<Longrightarrow> exec_ops step xs s = (bs, s') \<Longrightarrow> wf s'"
  by (induction xs arbitrary: s bs) (auto split: prod.splits dest: wf_step)

text \<open>A final state is never left, and nobody wins against it.\<close>

lemma final_exec:
  "wf s \<Longrightarrow> st s k = Some v \<Longrightarrow> final v \<Longrightarrow> exec_ops step xs s = (bs, s') \<Longrightarrow>
   st s' k = Some v \<and> winners key target final k xs bs = []"
proof (induction xs arbitrary: s bs)
  case Nil
  then show ?case by (simp add: winners_def)
next
  case (Cons x xs)
  obtain b s1 where 1: "step x s = (b, s1)" by fastforce
  from Cons.prems(4) 1 obtain bs2 where 2: "exec_ops step xs s1 = (bs2, s')" and bs: "bs = b # bs2"
    by (auto split: prod.splits)
  have "wf s1" and k: "st s1 k = Some v" and w: "\<not> (b \<and> key x = Some k \<and> final (target x))"
    using wf_step [OF Cons.prems(1) 1] final_kept [OF Cons.prems(1) 1 Cons.prems(2,3)] by auto
  with Cons.IH [OF _ k Cons.prems(3) 2] show ?case
    by (auto simp: bs winners_def)
qed

text \<open>Whatever the interleaving, at most one step brings an object into a final state, and that
  step's target is the state the object ends in.\<close>

lemma one_winner:
  "wf s \<Longrightarrow> st s k = Some v \<Longrightarrow> \<not> final v \<Longrightarrow> exec_ops step xs s = (bs, s') \<Longrightarrow>
   (\<exists>v'. st s' k = Some v' \<and> \<not> final v' \<and> winners key target final k xs bs = []) \<or>
   (\<exists>x. winners key target final k xs bs = [x] \<and> x \<in> set xs \<and> st s' k = Some (target x) \<and>
        final (target x))"
proof (induction xs arbitrary: s v bs)
  case Nil
  then show ?case by (auto simp: winners_def)
next
  case (Cons x xs)
  obtain b s1 where 1: "step x s = (b, s1)" by fastforce
  from Cons.prems(4) 1 obtain bs2 where 2: "exec_ops step xs s1 = (bs2, s')" and bs: "bs = b # bs2"
    by (auto split: prod.splits)
  have wf1: "wf s1" using wf_step [OF Cons.prems(1) 1] .
  let ?win = "b \<and> key x = Some k \<and> final (target x)"
  have ws: "winners key target final k (x # xs) bs =
      (if ?win then [x] else []) @ winners key target final k xs bs2"
    by (simp add: bs winners_def)
  note moved = live_moved [OF Cons.prems(1) 1 Cons.prems(2,3)]
  show ?case
  proof (cases ?win)
    case True
    with moved have k1: "st s1 k = Some (target x)" by simp
    with final_exec [OF wf1 k1 _ 2] ws True show ?thesis by auto
  next
    case False
    with moved obtain v1 where k1: "st s1 k = Some v1" "\<not> final v1" by auto
    from Cons.IH [OF wf1 k1 2] ws False show ?thesis by auto
  qed
qed

end

text \<open>The usual way to meet it: a step that takes effect changes exactly the object it names.\<close>

locale guarded_store =
  fixes step :: "'op \<Rightarrow> 's \<Rightarrow> bool \<times> 's"
    and st :: "'s \<Rightarrow> 'k \<Rightarrow> 'v option"
    and key :: "'op \<Rightarrow> 'k option"
    and target :: "'op \<Rightarrow> 'v"
    and final :: "'v \<Rightarrow> bool"
    and wf :: "'s \<Rightarrow> bool"
  assumes wf_kept: "wf s \<Longrightarrow> step x s = (b, s') \<Longrightarrow> wf s'"
    and step_done: "wf s \<Longrightarrow> step x s = (True, s') \<Longrightarrow>
      \<exists>k v. key x = Some k \<and> st s k = Some v \<and> \<not> final v \<and> st s' = (st s)(k \<mapsto> target x)"
    and step_refused: "wf s \<Longrightarrow> step x s = (False, s') \<Longrightarrow> st s' = st s"
begin

lemma final_step:
  assumes "wf s" "st s k = Some v" "final v" "step x s = (b, s')"
  shows "st s' k = Some v" and "\<not> (b \<and> key x = Some k)"
proof -
  have "st s' k = Some v \<and> \<not> (b \<and> key x = Some k)"
    using step_done [of s x s'] step_refused [of s x s'] assms by (cases b) fastforce+
  then show "st s' k = Some v" and "\<not> (b \<and> key x = Some k)" by auto
qed

end

sublocale guarded_store \<subseteq> guarded_writes
proof
  fix s s' x b
  assume "wf s" "step x s = (b, s')"
  then show "wf s'" by (rule wf_kept)
next
  fix s s' x b k v
  assume a: "wf s" "step x s = (b, s')" "st s k = Some v" "final v"
  then show "st s' k = Some v \<and> \<not> (b \<and> key x = Some k \<and> final (target x))"
    using final_step [of s k v x b s'] by blast
next
  fix s s' x b k v
  assume a: "wf s" "step x s = (b, s')" "st s k = Some v" "\<not> final v"
  show "if b \<and> key x = Some k \<and> final (target x) then st s' k = Some (target x)
      else \<exists>v'. st s' k = Some v' \<and> \<not> final v'"
  proof (cases b)
    case True
    with a step_done [of s x s'] obtain k' where "key x = Some k'" "st s' = (st s)(k' \<mapsto> target x)" by auto
    with a True show ?thesis by auto
  next
    case False
    with a step_refused [of s x s'] show ?thesis by auto
  qed
qed

end
