(* ===== verification/Tables.thy ===== *)
theory Tables
  imports Prelude
begin

text \<open>
  Tables of the database. A table is the list of its rows; an \<open>UPDATE ... WHERE\<close> is one atomic step that
  rewrites the matching rows and counts them, an \<open>INSERT\<close> fails when a row it may not stand beside is there
  (primary keys and unique indexes), and a column of type \<open>timestamptz\<close> is an integer.
\<close>

type_synonym datetime = int

definition sql_update :: "('r \<Rightarrow> bool) \<Rightarrow> ('r \<Rightarrow> 'r) \<Rightarrow> 'r list \<Rightarrow> 'r list \<times> nat" where
  "sql_update p f rows = (map (\<lambda>r. if p r then f r else r) rows, length (filter p rows))"

abbreviation IntegrityError :: exn where
  "IntegrityError \<equiv> OtherError ''IntegrityError''"

definition sql_insert :: "('r \<Rightarrow> 'r \<Rightarrow> bool) \<Rightarrow> 'r \<Rightarrow> 'r list \<Rightarrow> 'r list result" where
  "sql_insert clash r rows = (if list_ex (clash r) rows then Inl IntegrityError else Inr (rows @ [r]))"

text \<open>\<open>UPDATE ... WHERE ... RETURNING\<close>: the rows as they are after the update.\<close>

definition sql_update_returning :: "('r \<Rightarrow> bool) \<Rightarrow> ('r \<Rightarrow> 'r) \<Rightarrow> 'r list \<Rightarrow> 'r list \<times> 'r list" where
  "sql_update_returning p f rows = (map (\<lambda>r. if p r then f r else r) rows, map f (filter p rows))"

text \<open>A guarded update of the row with a given key, for any table with a key \<open>pk\<close>.\<close>

lemma find_map_update:
  assumes "\<And>r. pk (f r) = pk r"
  shows "find (\<lambda>r. pk r = v) (map (\<lambda>r. if pk r = u \<and> q r then f r else r) rows) =
    map_option (\<lambda>r. if v = u \<and> q r then f r else r) (find (\<lambda>r. pk r = v) rows)"
  by (induction rows) (use assms in auto)

lemma map_pk_update:
  "(\<And>r. pk (f r) = pk r) \<Longrightarrow> map pk (map (\<lambda>r. if q r then f r else r) rows) = map pk rows"
  by (induction rows) auto

lemma count_update_pos:
  "distinct (map pk rows) \<Longrightarrow>
   0 < length (filter (\<lambda>r. pk r = u \<and> q r) rows) \<longleftrightarrow>
   (\<exists>r. find (\<lambda>r. pk r = u) rows = Some r \<and> q r)"
proof (induction rows)
  case (Cons a rows)
  show ?case
  proof (cases "pk a = u")
    case True
    with Cons.prems have "filter (\<lambda>r. pk r = u \<and> q r) rows = []"
      by (auto simp: filter_empty_conv) (metis imageI)
    with True show ?thesis by simp
  next
    case False
    with Cons show ?thesis by simp
  qed
qed simp

lemma find_key: "distinct (map pk rows) \<Longrightarrow> r \<in> set rows \<Longrightarrow> find (\<lambda>x. pk x = pk r) rows = Some r"
  by (induction rows) auto

lemma sql_update_keyed:
  assumes ok: "distinct (map pk rows)" and pk: "\<And>r. pk (f r) = pk r"
    and upd: "sql_update (\<lambda>r. pk r = u \<and> q r) f rows = (rows', n)"
  shows "map pk rows' = map pk rows"
    and "0 < n \<longleftrightarrow> (\<exists>r. find (\<lambda>r. pk r = u) rows = Some r \<and> q r)"
    and "find (\<lambda>r. pk r = v) rows' =
      (if v = u \<and> 0 < n then map_option f (find (\<lambda>r. pk r = v) rows) else find (\<lambda>r. pk r = v) rows)"
proof -
  from upd have rows: "rows' = map (\<lambda>r. if pk r = u \<and> q r then f r else r) rows"
    and n: "n = length (filter (\<lambda>r. pk r = u \<and> q r) rows)"
    by (auto simp: sql_update_def)
  show "map pk rows' = map pk rows"
    using map_pk_update [of pk f, OF pk] by (simp add: rows del: map_map)
  show c: "0 < n \<longleftrightarrow> (\<exists>r. find (\<lambda>r. pk r = u) rows = Some r \<and> q r)"
    using count_update_pos [of pk rows u q] ok by (simp add: n)
  show "find (\<lambda>r. pk r = v) rows' =
      (if v = u \<and> 0 < n then map_option f (find (\<lambda>r. pk r = v) rows) else find (\<lambda>r. pk r = v) rows)"
    using find_map_update [of pk f v u q rows, OF pk] c
    by (cases "find (\<lambda>r. pk r = v) rows") (auto simp: rows)
qed

section \<open>Inserts and keys\<close>

lemma sql_insert_Inr:
  "sql_insert clash r rows = Inr rows' \<longleftrightarrow> (\<forall>x\<in>set rows. \<not> clash r x) \<and> rows' = rows @ [r]"
  by (auto simp: sql_insert_def list_ex_iff)

lemma sql_insert_Inl: "sql_insert clash r rows = Inl e \<longleftrightarrow> e = IntegrityError \<and> (\<exists>x\<in>set rows. clash r x)"
  by (auto simp: sql_insert_def list_ex_iff)

lemma find_append: "find p (xs @ ys) = (case find p xs of None \<Rightarrow> find p ys | Some x \<Rightarrow> Some x)"
  by (induction xs) auto

lemma find_in: "find p xs = Some x \<Longrightarrow> x \<in> set xs \<and> p x"
  by (induction xs) (auto split: if_splits)

lemma find_unique:
  assumes "x \<in> set xs" "p x" "\<And>y. y \<in> set xs \<Longrightarrow> p y \<Longrightarrow> y = x"
  shows "find p xs = Some x"
proof (cases "find p xs")
  case None
  with assms(1,2) show ?thesis by (auto simp: find_None_iff)
next
  case (Some y)
  with find_in [OF Some] assms(3) [of y] show ?thesis by simp
qed

lemma filter_keyed:
  "\<lbrakk>distinct (map pk rows); \<And>r. p r \<Longrightarrow> pk r = k\<rbrakk> \<Longrightarrow>
   filter p rows = (case find p rows of None \<Rightarrow> [] | Some r \<Rightarrow> [r])"
proof (induction rows)
  case (Cons a rows)
  have "filter p rows = []" if "p a"
    using Cons.prems that by (fastforce simp: filter_empty_conv)
  with Cons.IH [OF _ Cons.prems(2)] Cons.prems(1) show ?case by auto
qed simp

lemma find_guarded:
  "distinct (map pk rows) \<Longrightarrow> find (\<lambda>r. pk r = u \<and> q r) rows =
   (case find (\<lambda>r. pk r = u) rows of None \<Rightarrow> None | Some r \<Rightarrow> if q r then Some r else None)"
proof (induction rows)
  case (Cons a rows)
  have "find (\<lambda>r. pk r = u \<and> q r) rows = None" if "pk a = u"
    using Cons.prems that by (simp add: find_None_iff image_iff) metis
  with Cons show ?case by (auto split: option.splits)
qed simp

lemma sql_update_returning_single:
  assumes "distinct (map pk rows)" "\<And>r. p r \<Longrightarrow> pk r = k" "sql_update_returning p f rows = (rows', res)"
  shows "res = (case find p rows of None \<Rightarrow> [] | Some r \<Rightarrow> [f r])"
    and "rows' = map (\<lambda>r. if p r then f r else r) rows"
  using filter_keyed [OF assms(1,2)] assms(3) by (auto simp: sql_update_returning_def split: option.splits)

end
