(* ===== verification/Run_Repository.thy ===== *)
theory Run_Repository
  imports Agent_Config Replay Guarded_Store Tables "HOL-Library.Product_Lexorder"
begin

text \<open>
  The \<open>runs\<close> table and its repository (\<open>app/run/repository.py\<close>), with the outbox rows the success
  of a run writes in the same transaction (\<open>app/memory/job.py\<close>).
\<close>

definition UNFINISHED_STATUS :: "RunStatus list" where
  "UNFINISHED_STATUS = [QUEUED, RUNNING]"

definition CANCELLABLE_STATUS :: "RunStatus list" where
  "CANCELLABLE_STATUS = [QUEUED, RUNNING, WAITING_APPROVAL]"

definition RESUMABLE_STATUS :: "RunStatus list" where
  "RESUMABLE_STATUS = [RUNNING, WAITING_APPROVAL]"

definition LIVE_STATUS :: "RunStatus list" where
  "LIVE_STATUS = [QUEUED, RUNNING, WAITING_APPROVAL]"

datatype RunStart = FIRST | RESUMED | REFUSED

record Run =
  r_id :: string
  r_thread_id :: string
  r_status :: RunStatus
  r_tokens :: TokenUsage
  r_agent_config :: AgentConfig
  r_user_context :: "UserContext option"

record RunDetail =
  d_id :: string
  d_thread_id :: string
  d_status :: RunStatus
  d_content :: "string option"
  d_tokens :: TokenUsage
  d_error_code :: "RunErrorCode option"
  d_error_message :: "string option"
  d_started_at :: datetime
  d_ended_at :: "datetime option"
  d_agent_config :: AgentConfig

record RunRecord =
  run_pk :: uuid
  thread_fk :: uuid
  content :: "string option"
  agent_config :: "AgentConfig option"
  user_context :: "UserContext option"
  user_fk :: "uuid option"
  status :: RunStatus
  error_code :: "RunErrorCode option"
  error_message :: "string option"
  tokens_cache_read :: int
  tokens_uncached :: int
  tokens_output :: int
  started_at :: datetime
  ended_at :: "datetime option"

datatype MemoryJobStatus = MJ_QUEUED | MJ_RUNNING | MJ_SUCCEEDED | MJ_FAILED | MJ_DISCARDED

record MemoryJobPayload =
  mp_thread_id :: string
  mp_user_id :: string
  mp_messages :: "(string \<times> string) list list"

record MemoryJobRecord =
  mj_run :: uuid
  mj_thread :: uuid
  mj_user :: uuid
  mj_status :: MemoryJobStatus
  mj_snapshot :: "(string \<times> string) list list"
  mj_created_at :: datetime

record Db =
  runs :: "RunRecord list"
  memory_jobs :: "MemoryJobRecord list"

section \<open>Projections of a row\<close>

definition row_tokens :: "RunRecord \<Rightarrow> TokenUsage" where
  "row_tokens r = TokenUsage (tokens_cache_read r) (tokens_uncached r) (tokens_output r)"

definition to_run :: "RunRecord \<Rightarrow> Run" where
  "to_run r =
     \<lparr>r_id = uuid_hex (run_pk r), r_thread_id = uuid_hex (thread_fk r), r_status = status r,
      r_tokens = row_tokens r,
      r_agent_config = (case agent_config r of None \<Rightarrow> default_config | Some c \<Rightarrow> c),
      r_user_context = user_context r\<rparr>"

definition to_detail :: "RunRecord \<Rightarrow> RunDetail" where
  "to_detail r =
     \<lparr>d_id = uuid_hex (run_pk r), d_thread_id = uuid_hex (thread_fk r), d_status = status r,
      d_content = content r, d_tokens = row_tokens r, d_error_code = error_code r,
      d_error_message = error_message r, d_started_at = started_at r, d_ended_at = ended_at r,
      d_agent_config = (case agent_config r of None \<Rightarrow> default_config | Some c \<Rightarrow> c)\<rparr>"

section \<open>Writes\<close>

text \<open>\<open>create\<close>: \<open>UUID(...)\<close> raises on a malformed id, the insert on a primary key that exists.\<close>

definition create ::
    "string \<Rightarrow> string \<Rightarrow> string \<Rightarrow> string option \<Rightarrow> AgentConfig option \<Rightarrow> UserContext option \<Rightarrow>
     datetime \<Rightarrow> Db \<Rightarrow> Db result" where
  "create run_id thread_id user_id c cfg uctx now db =
     (case (UUID run_id, UUID thread_id, UUID user_id) of
        (Some rid, Some tid, Some uid) \<Rightarrow>
          if rid \<in> set (map run_pk (runs db)) then Inl (OtherError ''IntegrityError'')
          else Inr (db\<lparr>runs := runs db @
            [\<lparr>run_pk = rid, thread_fk = tid, content = c, agent_config = cfg, user_context = uctx,
              user_fk = Some uid, status = QUEUED, error_code = None, error_message = None,
              tokens_cache_read = 0, tokens_uncached = 0, tokens_output = 0,
              started_at = now, ended_at = None\<rparr>]\<rparr>)
      | _ \<Rightarrow> Inl ValueError)"

text \<open>\<open>_transit_from\<close>: the conditional update every transition goes through; \<open>change\<close> is what
  \<open>values(**change)\<close> sets.\<close>

definition transit_from ::
    "string \<Rightarrow> RunStatus list \<Rightarrow> (RunRecord \<Rightarrow> RunRecord) \<Rightarrow> Db \<Rightarrow> bool \<times> Db" where
  "transit_from run_id allowed change db =
     (case UUID run_id of
        None \<Rightarrow> (False, db)
      | Some identifier \<Rightarrow>
          (case sql_update (\<lambda>r. run_pk r = identifier \<and> status r \<in> set allowed) change (runs db) of
             (rows, rowcount) \<Rightarrow> (0 < rowcount, db\<lparr>runs := rows\<rparr>)))"

definition transit :: "string \<Rightarrow> (RunRecord \<Rightarrow> RunRecord) \<Rightarrow> Db \<Rightarrow> bool \<times> Db" where
  "transit run_id change db = transit_from run_id CANCELLABLE_STATUS change db"

definition finalize :: "string \<Rightarrow> datetime \<Rightarrow> (RunRecord \<Rightarrow> RunRecord) \<Rightarrow> Db \<Rightarrow> bool \<times> Db" where
  "finalize run_id now change db = transit run_id (\<lambda>r. change (r\<lparr>ended_at := Some now\<rparr>)) db"

definition start :: "string \<Rightarrow> Db \<Rightarrow> RunStart \<times> Db" where
  "start run_id db =
     (case transit_from run_id [QUEUED] (\<lambda>r. r\<lparr>status := RUNNING\<rparr>) db of
        (True, db) \<Rightarrow> (FIRST, db)
      | (False, db) \<Rightarrow>
          (case transit_from run_id RESUMABLE_STATUS (\<lambda>r. r\<lparr>status := RUNNING\<rparr>) db of
             (True, db) \<Rightarrow> (RESUMED, db)
           | (False, db) \<Rightarrow> (REFUSED, db)))"

text \<open>Adding a usage to the three counters of a row.\<close>

definition add_tokens :: "TokenUsage \<Rightarrow> RunRecord \<Rightarrow> RunRecord" where
  "add_tokens t r =
     r\<lparr>tokens_cache_read := tokens_cache_read r + input_cache_read t,
       tokens_uncached := tokens_uncached r + input_uncached t,
       tokens_output := tokens_output r + output_tk t\<rparr>"

text \<open>\<open>succeed\<close>: the outbox row is written in the same transaction. A malformed thread or user id in
  the payload raises before the commit, so nothing is written.\<close>

definition succeed ::
    "string \<Rightarrow> TokenUsage \<Rightarrow> MemoryJobPayload option \<Rightarrow> datetime \<Rightarrow> Db \<Rightarrow> (bool \<times> Db) result" where
  "succeed run_id tokens memory_job now db =
     (case UUID run_id of
        None \<Rightarrow> Inr (False, db)
      | Some identifier \<Rightarrow>
          (case sql_update (\<lambda>r. run_pk r = identifier \<and> status r \<in> set CANCELLABLE_STATUS)
                  (\<lambda>r. (add_tokens tokens r)\<lparr>status := SUCCEEDED, ended_at := Some now\<rparr>) (runs db) of
             (rows, rowcount) \<Rightarrow>
               let changed = 0 < rowcount; db = db\<lparr>runs := rows\<rparr> in
               case memory_job of
                 None \<Rightarrow> Inr (changed, db)
               | Some mj \<Rightarrow>
                   if \<not> changed then Inr (changed, db)
                   else (case (UUID (mp_thread_id mj), UUID (mp_user_id mj)) of
                           (Some tid, Some uid) \<Rightarrow>
                             if identifier \<in> set (map mj_run (memory_jobs db))
                             then Inl (OtherError ''IntegrityError'')
                             else Inr (changed, db\<lparr>memory_jobs := memory_jobs db @
                               [\<lparr>mj_run = identifier, mj_thread = tid, mj_user = uid,
                                 mj_status = MJ_QUEUED, mj_snapshot = mp_messages mj,
                                 mj_created_at = now\<rparr>]\<rparr>)
                         | _ \<Rightarrow> Inl ValueError)))"

definition fail :: "string \<Rightarrow> RunErrorCode \<Rightarrow> string \<Rightarrow> datetime \<Rightarrow> Db \<Rightarrow> bool \<times> Db" where
  "fail run_id code msg now db =
     finalize run_id now
       (\<lambda>r. r\<lparr>status := FAILED, error_code := Some code, error_message := Some msg\<rparr>) db"

definition cancel :: "string \<Rightarrow> TokenUsage option \<Rightarrow> datetime \<Rightarrow> Db \<Rightarrow> bool \<times> Db" where
  "cancel run_id tokens now db =
     finalize run_id now
       (\<lambda>r. (case tokens of None \<Rightarrow> r | Some t \<Rightarrow> add_tokens t r)\<lparr>status := CANCELLED\<rparr>) db"

definition wait_approval :: "string \<Rightarrow> TokenUsage \<Rightarrow> Db \<Rightarrow> bool \<times> Db" where
  "wait_approval run_id tokens db =
     transit run_id (\<lambda>r. (add_tokens tokens r)\<lparr>status := WAITING_APPROVAL\<rparr>) db"

definition resume :: "string \<Rightarrow> Db \<Rightarrow> bool \<times> Db" where
  "resume run_id db =
     (case UUID run_id of
        None \<Rightarrow> (False, db)
      | Some identifier \<Rightarrow>
          (case sql_update (\<lambda>r. run_pk r = identifier \<and> status r = WAITING_APPROVAL)
                  (\<lambda>r. r\<lparr>status := QUEUED, ended_at := None\<rparr>) (runs db) of
             (rows, rowcount) \<Rightarrow> (0 < rowcount, db\<lparr>runs := rows\<rparr>)))"

section \<open>Reads\<close>

definition get :: "string \<Rightarrow> string \<Rightarrow> Db \<Rightarrow> Run option" where
  "get run_id user_id db =
     (case (UUID run_id, UUID user_id) of
        (Some identifier, Some owner) \<Rightarrow>
          (case find (\<lambda>r. run_pk r = identifier) (runs db) of
             None \<Rightarrow> None
           | Some rec \<Rightarrow> if user_fk rec \<noteq> Some owner then None else Some (to_run rec))
      | _ \<Rightarrow> None)"

text \<open>\<open>ORDER BY started_at DESC\<close>; rows of equal time keep the order of the table.\<close>

definition live_statuses :: "string list \<Rightarrow> string \<Rightarrow> Db \<Rightarrow> (string \<rightharpoonup> RunStatus)" where
  "live_statuses thread_ids user_id db =
     (let ids = List.map_filter UUID thread_ids in
      case UUID user_id of
        None \<Rightarrow> Map.empty
      | Some owner \<Rightarrow>
          if ids = [] then Map.empty
          else let found = sort_key (\<lambda>r. - started_at r)
                     (filter (\<lambda>r. thread_fk r \<in> set ids \<and> user_fk r = Some owner \<and>
                                  status r \<in> set [QUEUED, RUNNING, WAITING_APPROVAL]) (runs db))
               in foldl (\<lambda>statuses r. if statuses (uuid_hex (thread_fk r)) = None
                                      then statuses(uuid_hex (thread_fk r) \<mapsto> status r)
                                      else statuses) Map.empty found)"

definition unfinished :: "datetime option \<Rightarrow> Db \<Rightarrow> Run list" where
  "unfinished started_before db =
     map to_run (sort_key started_at
       (filter (\<lambda>r. status r \<in> set UNFINISHED_STATUS \<and>
                    (case started_before of None \<Rightarrow> True | Some t \<Rightarrow> started_at r < t)) (runs db)))"

definition live_count :: "Db \<Rightarrow> (RunStatus \<rightharpoonup> nat)" where
  "live_count db =
     (\<lambda>s. let n = length (filter (\<lambda>r. status r = s) (runs db))
          in if s \<in> set LIVE_STATUS \<and> 0 < n then Some n else None)"

section \<open>Pages of a thread's history\<close>

text \<open>\<open>split\<close> of \<open>cursor.py\<close>, and the page type. The cursor codec is an argument of the query: \<open>enc\<close>
  and \<open>dec\<close> are \<open>encode\<close> and \<open>decode\<close> of \<open>cursor.py\<close>.\<close>

definition split_page :: "'a list \<Rightarrow> nat \<Rightarrow> 'a list \<times> bool" where
  "split_page found limit = (take limit found, limit < length found)"

definition row_pos :: "RunRecord \<Rightarrow> datetime \<times> uuid" where
  "row_pos r = (started_at r, run_pk r)"

definition list_by_thread ::
    "(datetime \<times> uuid \<Rightarrow> 'c) \<Rightarrow> ('c \<Rightarrow> (datetime \<times> uuid) result) \<Rightarrow>
     string \<Rightarrow> string \<Rightarrow> 'c option \<Rightarrow> nat \<Rightarrow> Db \<Rightarrow> (RunDetail list \<times> 'c option) result" where
  "list_by_thread enc dec thread_id user_id cursor limit db =
     (case (UUID thread_id, UUID user_id) of
        (Some thread, Some owner) \<Rightarrow>
          result_bind
            (case cursor of None \<Rightarrow> Inr None | Some c \<Rightarrow> result_bind (dec c) (\<lambda>p. Inr (Some p)))
            (\<lambda>after.
               let selected = filter (\<lambda>r. thread_fk r = thread \<and> user_fk r = Some owner \<and>
                     (case after of None \<Rightarrow> True | Some p \<Rightarrow> row_pos r < p)) (runs db);
                   found = take (limit + 1) (rev (sort_key row_pos selected))
               in case split_page found limit of
                    (page, has_more) \<Rightarrow>
                      if \<not> has_more then Inr (map to_detail page, None)
                      else if page = [] then Inl IndexError
                      else Inr (map to_detail page, Some (enc (row_pos (last page)))))
      | _ \<Rightarrow> Inr ([], None))"

section \<open>One row at a time\<close>

definition run_row :: "Db \<Rightarrow> uuid \<Rightarrow> RunRecord option" where
  "run_row db u = find (\<lambda>r. run_pk r = u) (runs db)"

definition db_ok :: "Db \<Rightarrow> bool" where
  "db_ok db \<longleftrightarrow> distinct (map run_pk (runs db))"

definition row_status :: "Db \<Rightarrow> uuid \<Rightarrow> RunStatus option" where
  "row_status db u = map_option status (run_row db u)"

text \<open>What a guarded update does to every row of the \<open>runs\<close> table, in one statement.\<close>

lemma guarded_update:
  assumes ok: "db_ok db" and pk: "\<And>r. run_pk (f r) = run_pk r"
    and upd: "sql_update (\<lambda>r. run_pk r = u \<and> q r) f (runs db) = (rows, n)"
  shows "db_ok (db\<lparr>runs := rows\<rparr>)"
    and "0 < n \<longleftrightarrow> (\<exists>r. run_row db u = Some r \<and> q r)"
    and "run_row (db\<lparr>runs := rows\<rparr>) v =
      (if v = u \<and> 0 < n then map_option f (run_row db v) else run_row db v)"
proof -
  note k = sql_update_keyed [of run_pk "runs db" f u q rows n, OF _ pk upd]
  show "db_ok (db\<lparr>runs := rows\<rparr>)" using k(1) ok by (simp add: db_ok_def)
  show "0 < n \<longleftrightarrow> (\<exists>r. run_row db u = Some r \<and> q r)" using k(2) ok by (simp add: db_ok_def run_row_def)
  show "run_row (db\<lparr>runs := rows\<rparr>) v = (if v = u \<and> 0 < n then map_option f (run_row db v) else run_row db v)"
    unfolding run_row_def using k(3) [of v] ok by (simp only: db_ok_def) simp
qed

text \<open>The same, read off the repository's own transition.\<close>

lemma transit_from_spec:
  assumes ok: "db_ok db" and pk: "\<And>r. run_pk (f r) = run_pk r"
    and t: "transit_from run_id allowed f db = (b, db')"
  shows "db_ok db' \<and> memory_jobs db' = memory_jobs db \<and>
    (b \<longleftrightarrow> (\<exists>u r. UUID run_id = Some u \<and> run_row db u = Some r \<and> status r \<in> set allowed)) \<and>
    (\<forall>v. run_row db' v =
      (if UUID run_id = Some v \<and> b then map_option f (run_row db v) else run_row db v)) \<and>
    (\<not> b \<longrightarrow> db' = db)"
proof (cases "UUID run_id")
  case None
  with t ok show ?thesis by (simp add: transit_from_def)
next
  case (Some u)
  obtain rows n where upd: "sql_update (\<lambda>r. run_pk r = u \<and> status r \<in> set allowed) f (runs db) = (rows, n)"
    by (meson surj_pair)
  with t Some have b: "b = (0 < n)" and db': "db' = db\<lparr>runs := rows\<rparr>"
    by (simp_all add: transit_from_def)
  note g = guarded_update [OF ok pk upd]
  have "rows = runs db" if "n = 0"
    using upd that by (auto simp: sql_update_def filter_empty_conv intro!: map_idI)
  with g b db' Some show ?thesis by auto
qed

section \<open>The transitions as guarded steps\<close>

text \<open>The repository calls that change a run, as every process issues them.\<close>

datatype repo_op =
    OpStart string
  | OpSucceed string TokenUsage "MemoryJobPayload option" datetime
  | OpFail string RunErrorCode string datetime
  | OpCancel string "TokenUsage option" datetime
  | OpWait string TokenUsage
  | OpResume string

text \<open>One call: whether it changed the run, and the database afterwards. A call that raises rolls
  its transaction back.\<close>

fun repo_step :: "repo_op \<Rightarrow> Db \<Rightarrow> bool \<times> Db" where
  "repo_step (OpStart i) db = (case start i db of (x, db') \<Rightarrow> (x \<noteq> REFUSED, db'))"
| "repo_step (OpSucceed i t mj now) db =
     (case succeed i t mj now db of Inl _ \<Rightarrow> (False, db) | Inr r \<Rightarrow> r)"
| "repo_step (OpFail i c m now) db = fail i c m now db"
| "repo_step (OpCancel i t now) db = cancel i t now db"
| "repo_step (OpWait i t) db = wait_approval i t db"
| "repo_step (OpResume i) db = resume i db"

fun op_run :: "repo_op \<Rightarrow> string" where
  "op_run (OpStart i) = i"
| "op_run (OpSucceed i _ _ _) = i"
| "op_run (OpFail i _ _ _) = i"
| "op_run (OpCancel i _ _) = i"
| "op_run (OpWait i _) = i"
| "op_run (OpResume i) = i"

fun op_target :: "repo_op \<Rightarrow> RunStatus" where
  "op_target (OpStart _) = RUNNING"
| "op_target (OpSucceed _ _ _ _) = SUCCEEDED"
| "op_target (OpFail _ _ _ _) = FAILED"
| "op_target (OpCancel _ _ _) = CANCELLED"
| "op_target (OpWait _ _) = WAITING_APPROVAL"
| "op_target (OpResume _) = QUEUED"

fun op_tokens :: "repo_op \<Rightarrow> TokenUsage" where
  "op_tokens (OpSucceed _ t _ _) = t"
| "op_tokens (OpCancel _ (Some t) _) = t"
| "op_tokens (OpWait _ t) = t"
| "op_tokens _ = 0"

text \<open>The edges of the run state machine.\<close>

inductive run_edge :: "RunStatus \<Rightarrow> RunStatus \<Rightarrow> bool" where
  edge_start: "run_edge QUEUED RUNNING"
| edge_restart: "a \<in> set RESUMABLE_STATUS \<Longrightarrow> run_edge a RUNNING"
| edge_wait: "a \<in> set CANCELLABLE_STATUS \<Longrightarrow> run_edge a WAITING_APPROVAL"
| edge_resume: "run_edge WAITING_APPROVAL QUEUED"
| edge_finish: "a \<in> set CANCELLABLE_STATUS \<Longrightarrow> b \<in> TERMINAL_STATUS \<Longrightarrow> run_edge a b"

inductive_cases run_edgeE: "run_edge a b"

lemmas status_sets = UNFINISHED_STATUS_def CANCELLABLE_STATUS_def RESUMABLE_STATUS_def
  LIVE_STATUS_def TERMINAL_STATUS_def

lemma run_edge_live: "run_edge a b \<Longrightarrow> a \<notin> TERMINAL_STATUS"
  by (erule run_edgeE) (auto simp: status_sets)

text \<open>What one successful call does to the row it names: the state it sets, the tokens it adds.\<close>

definition op_effect :: "repo_op \<Rightarrow> RunRecord \<Rightarrow> RunRecord \<Rightarrow> bool" where
  "op_effect x r r' \<longleftrightarrow>
     run_pk r' = run_pk r \<and> run_edge (status r) (status r') \<and> status r' = op_target x \<and>
     row_tokens r' = row_tokens r + op_tokens x \<and>
     user_fk r' = user_fk r \<and> thread_fk r' = thread_fk r"

definition op_outcome :: "repo_op \<Rightarrow> Db \<Rightarrow> bool \<Rightarrow> Db \<Rightarrow> bool" where
  "op_outcome x db b db' \<longleftrightarrow> db_ok db' \<and>
     (if b then \<exists>u r r'. UUID (op_run x) = Some u \<and> run_row db u = Some r \<and> op_effect x r r' \<and>
                  run_row db' = (run_row db)(u \<mapsto> r')
      else run_row db' = run_row db)"

lemma transit_from_outcome:
  assumes ok: "db_ok db" and pk: "\<And>r. run_pk (f r) = run_pk r"
    and eff: "\<And>r. status r \<in> set allowed \<Longrightarrow> op_effect x r (f r)"
    and t: "transit_from (op_run x) allowed f db = (b, db')"
  shows "op_outcome x db b db'"
proof (cases b)
  case True
  from transit_from_spec [OF ok pk t] True
  obtain u r where u: "UUID (op_run x) = Some u" "run_row db u = Some r" "status r \<in> set allowed"
    and row: "\<And>v. run_row db' v = (if v = u then map_option f (run_row db v) else run_row db v)"
    and ok': "db_ok db'"
    by (auto split: if_splits)
  have "run_row db' = (run_row db)(u \<mapsto> f r)" using row u(2) by auto
  with u eff ok' True show ?thesis by (auto simp: op_outcome_def)
next
  case False
  with transit_from_spec [OF ok pk t] show ?thesis by (auto simp: op_outcome_def)
qed

lemma row_tokens_add [simp]:
  "row_tokens (add_tokens t r) = row_tokens r + t"
  "row_tokens (r\<lparr>status := s\<rparr>) = row_tokens r"
  "row_tokens (r\<lparr>ended_at := e\<rparr>) = row_tokens r"
  "row_tokens (r\<lparr>error_code := c\<rparr>) = row_tokens r"
  "row_tokens (r\<lparr>error_message := m\<rparr>) = row_tokens r"
  by (simp_all add: row_tokens_def add_tokens_def plus_TokenUsage_def)

lemma add_tokens_sel [simp]:
  "run_pk (add_tokens t r) = run_pk r" "status (add_tokens t r) = status r"
  "user_fk (add_tokens t r) = user_fk r" "thread_fk (add_tokens t r) = thread_fk r"
  by (simp_all add: add_tokens_def)

lemma resume_transit:
  "resume i db = transit_from i [WAITING_APPROVAL] (\<lambda>r. r\<lparr>status := QUEUED, ended_at := None\<rparr>) db"
  by (cases "UUID i") (simp_all add: resume_def transit_from_def)

lemma succeed_transit:
  assumes "succeed i t mj now db = Inr (b, db')"
  obtains db1 where
    "transit_from i CANCELLABLE_STATUS
       (\<lambda>r. (add_tokens t r)\<lparr>status := SUCCEEDED, ended_at := Some now\<rparr>) db = (b, db1)"
    "runs db' = runs db1"
  using assms
  by (auto simp: succeed_def transit_from_def Let_def split: option.splits prod.splits if_splits)

lemma op_outcome_runs: "op_outcome x db b db1 \<Longrightarrow> runs db' = runs db1 \<Longrightarrow> op_outcome x db b db'"
  by (simp add: op_outcome_def db_ok_def run_row_def fun_eq_iff cong: if_cong)

lemma start_outcome:
  assumes ok: "db_ok db" and s: "start i db = (x, db')"
  shows "op_outcome (OpStart i) db (x \<noteq> REFUSED) db'"
proof -
  let ?f = "\<lambda>r::RunRecord. r\<lparr>status := RUNNING\<rparr>"
  obtain b1 db1 where 1: "transit_from i [QUEUED] ?f db = (b1, db1)" by fastforce
  show ?thesis
  proof (cases b1)
    case True
    with 1 s have x: "x = FIRST" "db' = db1" by (auto simp: start_def)
    have "op_outcome (OpStart i) db b1 db1"
      by (rule transit_from_outcome [OF ok]) (use 1 in \<open>auto simp: op_effect_def intro: edge_start\<close>)
    with x True show ?thesis by simp
  next
    case False
    with transit_from_spec [OF ok _ 1] have db1: "db1 = db" by simp
    obtain b2 db2 where 2: "transit_from i RESUMABLE_STATUS ?f db = (b2, db2)" by fastforce
    with 1 s False db1 have x: "(x \<noteq> REFUSED) = b2" "db' = db2"
      by (auto simp: start_def split: bool.splits)
    have "op_outcome (OpStart i) db b2 db2"
      by (rule transit_from_outcome [OF ok]) (use 2 in \<open>auto simp: op_effect_def intro: edge_restart\<close>)
    with x show ?thesis by simp
  qed
qed

lemmas finalize_defs = fail_def cancel_def finalize_def wait_approval_def transit_def

text \<open>Every repository call is a guarded step of the state machine: when it reports success it has
  moved the row it names along an edge to its target and rewritten no other row; otherwise no row
  has changed.\<close>

lemma repo_step_outcome:
  assumes ok: "db_ok db" and st: "repo_step x db = (b, db')"
  shows "op_outcome x db b db'"
proof (cases x)
  case (OpStart i)
  with st ok show ?thesis by (auto split: prod.splits intro: start_outcome)
next
  case (OpSucceed i t mj now)
  show ?thesis
  proof (cases "succeed i t mj now db")
    case (Inl e)
    with st OpSucceed ok show ?thesis by (simp add: op_outcome_def)
  next
    case (Inr p)
    with st OpSucceed have "succeed i t mj now db = Inr (b, db')" by simp
    then obtain db1 where t: "transit_from i CANCELLABLE_STATUS
       (\<lambda>r. (add_tokens t r)\<lparr>status := SUCCEEDED, ended_at := Some now\<rparr>) db = (b, db1)"
      and r: "runs db' = runs db1"
      by (rule succeed_transit)
    have "op_outcome x db b db1"
      by (rule transit_from_outcome [OF ok])
        (use t OpSucceed in \<open>auto simp: op_effect_def TERMINAL_STATUS_def intro: edge_finish\<close>)
    then show ?thesis using r by (rule op_outcome_runs)
  qed
next
  case (OpFail i c m now)
  have "transit_from (op_run x) CANCELLABLE_STATUS
      (\<lambda>r. r\<lparr>ended_at := Some now, status := FAILED, error_code := Some c, error_message := Some m\<rparr>) db
      = (b, db')"
    using st OpFail by (simp add: finalize_defs)
  then show ?thesis
    by (rule transit_from_outcome [OF ok, rotated -1])
      (use OpFail in \<open>auto simp: op_effect_def TERMINAL_STATUS_def intro: edge_finish\<close>)
next
  case (OpCancel i t now)
  have "transit_from (op_run x) CANCELLABLE_STATUS
      (\<lambda>r. (case t of None \<Rightarrow> r\<lparr>ended_at := Some now\<rparr> | Some t \<Rightarrow> add_tokens t (r\<lparr>ended_at := Some now\<rparr>))
           \<lparr>status := CANCELLED\<rparr>) db = (b, db')"
    using st OpCancel by (simp add: finalize_defs)
  then show ?thesis
    by (rule transit_from_outcome [OF ok, rotated -1])
      (use OpCancel in \<open>auto simp: op_effect_def TERMINAL_STATUS_def intro: edge_finish split: option.splits\<close>)
next
  case (OpWait i t)
  have "transit_from (op_run x) CANCELLABLE_STATUS
      (\<lambda>r. (add_tokens t r)\<lparr>status := WAITING_APPROVAL\<rparr>) db = (b, db')"
    using st OpWait by (simp add: finalize_defs)
  then show ?thesis
    by (rule transit_from_outcome [OF ok, rotated -1])
      (use OpWait in \<open>auto simp: op_effect_def intro: edge_wait\<close>)
next
  case (OpResume i)
  have "transit_from (op_run x) [WAITING_APPROVAL] (\<lambda>r. r\<lparr>status := QUEUED, ended_at := None\<rparr>) db
      = (b, db')"
    using st OpResume by (simp add: resume_transit)
  then show ?thesis
    by (rule transit_from_outcome [OF ok, rotated -1])
      (use OpResume in \<open>auto simp: op_effect_def intro: edge_resume\<close>)
qed

section \<open>Many writers, one outcome\<close>

definition op_key :: "repo_op \<Rightarrow> uuid option" where
  "op_key x = UUID (op_run x)"

abbreviation status_terminal :: "RunStatus \<Rightarrow> bool" where
  "status_terminal s \<equiv> s \<in> TERMINAL_STATUS"

lemma op_outcome_status:
  assumes "op_outcome x db b db'"
  shows "if b then \<exists>u s. op_key x = Some u \<and> row_status db u = Some s \<and> run_edge s (op_target x) \<and>
                     row_status db' = (row_status db)(u \<mapsto> op_target x)
         else row_status db' = row_status db"
  using assms by (auto simp: op_outcome_def op_key_def row_status_def op_effect_def fun_eq_iff)

interpretation repo: guarded_store repo_step row_status op_key op_target status_terminal db_ok
proof
  fix db x b db'
  assume "db_ok db" "repo_step x db = (b, db')"
  then show "db_ok db'" by (auto dest: repo_step_outcome simp: op_outcome_def)
next
  fix db x db'
  assume "db_ok db" "repo_step x db = (True, db')"
  then have "op_outcome x db True db'" by (rule repo_step_outcome)
  from op_outcome_status [OF this] show "\<exists>k v. op_key x = Some k \<and> row_status db k = Some v \<and>
      \<not> status_terminal v \<and> row_status db' = (row_status db)(k \<mapsto> op_target x)"
    by (auto dest: run_edge_live)
next
  fix db x db'
  assume "db_ok db" "repo_step x db = (False, db')"
  then have "op_outcome x db False db'" by (rule repo_step_outcome)
  from op_outcome_status [OF this] show "row_status db' = row_status db" by simp
qed

text \<open>C1. Whatever sequence of repository calls the processes of the platform issue on a run that has
  not ended, at most one of them reports that it wrote an end state; if one does, the run is left
  in that call's state, and otherwise the run has still not ended.\<close>

theorem one_terminal_writer:
  assumes "db_ok db" and "row_status db u = Some s" and "s \<notin> TERMINAL_STATUS"
    and "exec_ops repo_step xs db = (bs, db')"
  shows "(\<exists>s'. row_status db' u = Some s' \<and> s' \<notin> TERMINAL_STATUS \<and>
            winners op_key op_target status_terminal u xs bs = []) \<or>
         (\<exists>x. winners op_key op_target status_terminal u xs bs = [x] \<and> x \<in> set xs \<and>
            row_status db' u = Some (op_target x) \<and> op_target x \<in> TERMINAL_STATUS)"
  using assms by (rule repo.one_winner)

text \<open>A row for the witnesses.\<close>

definition example_row :: "uuid \<Rightarrow> RunStatus \<Rightarrow> RunRecord" where
  "example_row u s =
     \<lparr>run_pk = u, thread_fk = 7, content = Some ''q'', agent_config = None, user_context = None,
      user_fk = Some 5, status = s, error_code = None, error_message = None,
      tokens_cache_read = 0, tokens_uncached = 0, tokens_output = 0, started_at = 100,
      ended_at = None\<rparr>"

definition example_db :: "RunStatus \<Rightarrow> Db" where
  "example_db s = \<lparr>runs = [example_row 1 s, example_row 2 QUEUED], memory_jobs = []\<rparr>"

text \<open>The worker succeeds at the moment the teacher stops the run, and the reaper comes last.\<close>

definition example_race :: "repo_op list" where
  "example_race =
     [OpCancel (uuid_hex 1) None 200, OpSucceed (uuid_hex 1) (TokenUsage 1 2 3) None 201,
      OpFail (uuid_hex 1) ORPHANED ''gone'' 300]"

lemma example_db_ok: "db_ok (example_db s)"
  by (simp add: db_ok_def example_db_def example_row_def)

lemma example_status: "row_status (example_db s) 1 = Some s"
  by (simp add: row_status_def run_row_def example_db_def example_row_def)

theorem one_terminal_writer_witness:
  "winners op_key op_target status_terminal 1 example_race
      (fst (exec_ops repo_step example_race (example_db RUNNING))) = [OpCancel (uuid_hex 1) None 200] \<and>
   row_status (snd (exec_ops repo_step example_race (example_db RUNNING))) 1 = Some CANCELLED"
proof -
  obtain bs db' where r: "exec_ops repo_step example_race (example_db RUNNING) = (bs, db')"
    by fastforce
  have first: "fst (repo_step (OpCancel (uuid_hex 1) None 200) (example_db RUNNING))"
    by (simp add: finalize_defs transit_from_def sql_update_def example_db_def example_row_def
        CANCELLABLE_STATUS_def)
  have "hd bs" "bs \<noteq> []"
    using r first by (auto simp: example_race_def split: prod.splits)
  then have w: "OpCancel (uuid_hex 1) None 200 \<in>
      set (winners op_key op_target status_terminal 1 example_race bs)"
    by (cases bs) (auto simp: winners_def example_race_def op_key_def TERMINAL_STATUS_def)
  have "RUNNING \<notin> TERMINAL_STATUS" by (simp add: TERMINAL_STATUS_def)
  from one_terminal_writer [OF example_db_ok example_status this r] w r show ?thesis by auto
qed

text \<open>C5. Every repository call is a guarded step of the run state machine: if it reports a change,
  the run it names existed and moved along an edge of the machine to the state the call stands
  for, with exactly the call's tokens added and its owner and thread unchanged, and no other run
  was touched; if it reports none, no run changed at all.\<close>

theorem repo_call_guarded:
  assumes "db_ok db" and "repo_step x db = (b, db')"
  shows "db_ok db' \<and>
    (if b then \<exists>u r r'. UUID (op_run x) = Some u \<and> run_row db u = Some r \<and>
       run_edge (status r) (op_target x) \<and> status r' = op_target x \<and>
       row_tokens r' = row_tokens r + op_tokens x \<and>
       user_fk r' = user_fk r \<and> thread_fk r' = thread_fk r \<and>
       run_row db' = (run_row db)(u \<mapsto> r')
     else run_row db' = run_row db)"
  using repo_step_outcome [OF assms]
  by (cases b) (fastforce simp: op_outcome_def op_effect_def)+

theorem repo_call_guarded_witness:
  "\<exists>r'. status r' = WAITING_APPROVAL \<and> row_tokens r' = TokenUsage 4 5 6 \<and>
     run_row (snd (repo_step (OpWait (uuid_hex 1) (TokenUsage 4 5 6)) (example_db RUNNING)))
       = (run_row (example_db RUNNING))(1 \<mapsto> r')"
proof -
  let ?x = "OpWait (uuid_hex 1) (TokenUsage 4 5 6)"
  obtain b db' where r: "repo_step ?x (example_db RUNNING) = (b, db')" by fastforce
  then have "b"
    by (auto simp: finalize_defs transit_from_def sql_update_def example_db_def example_row_def
        CANCELLABLE_STATUS_def)
  with repo_call_guarded [OF example_db_ok r] r show ?thesis
    by (auto simp: run_row_def example_db_def example_row_def row_tokens_def plus_TokenUsage_def
        dest!: sym [of "Some _"])
qed

section \<open>Token accounting over a whole history\<close>

text \<open>What the successful calls on a run have added up to.\<close>

definition credited :: "uuid \<Rightarrow> repo_op list \<Rightarrow> bool list \<Rightarrow> TokenUsage" where
  "credited u xs bs =
     sum_list (map (\<lambda>(x, b). if b \<and> op_key x = Some u then op_tokens x else 0) (zip xs bs))"

lemma repo_step_credit:
  assumes "db_ok db" "repo_step x db = (b, db')" "run_row db u = Some r"
  shows "\<exists>r'. run_row db' u = Some r' \<and>
    row_tokens r' = row_tokens r + (if b \<and> op_key x = Some u then op_tokens x else 0)"
  using repo_step_outcome [OF assms(1,2)] assms(3)
  by (auto simp: op_outcome_def op_effect_def op_key_def split: if_splits)

text \<open>C35. The three token counters of a run always equal what they started with plus the sum of the
  usages of exactly those calls that reported success on it, over any sequence of calls by any
  process: no usage is counted twice and none that was refused is counted.\<close>

theorem token_accounting:
  "db_ok db \<Longrightarrow> run_row db u = Some r \<Longrightarrow> exec_ops repo_step xs db = (bs, db') \<Longrightarrow>
   \<exists>r'. run_row db' u = Some r' \<and> row_tokens r' = row_tokens r + credited u xs bs"
proof (induction xs arbitrary: db r bs)
  case Nil
  then show ?case by (simp add: credited_def)
next
  case (Cons x xs)
  obtain b db1 where 1: "repo_step x db = (b, db1)" by fastforce
  from Cons.prems(3) 1 obtain bs2 where 2: "exec_ops repo_step xs db1 = (bs2, db')"
    and bs: "bs = b # bs2" by (auto split: prod.splits)
  from repo_step_credit [OF Cons.prems(1) 1 Cons.prems(2)] obtain r1 where
    r1: "run_row db1 u = Some r1"
    "row_tokens r1 = row_tokens r + (if b \<and> op_key x = Some u then op_tokens x else 0)" by blast
  have "db_ok db1" by (rule repo.wf_step [OF Cons.prems(1) 1])
  from Cons.IH [OF this r1(1) 2] r1(2) show ?case
    by (auto simp: credited_def bs add.assoc)
qed

theorem token_accounting_witness:
  "\<exists>r'. run_row (snd (exec_ops repo_step example_race (example_db RUNNING))) 1 = Some r' \<and>
     row_tokens r' = row_tokens (example_row 1 RUNNING) +
       credited 1 example_race (fst (exec_ops repo_step example_race (example_db RUNNING)))"
proof -
  have "run_row (example_db RUNNING) 1 = Some (example_row 1 RUNNING)"
    by (simp add: run_row_def example_db_def example_row_def)
  then show ?thesis by (rule token_accounting [OF example_db_ok]) simp
qed

section \<open>Reading a thread's history page by page\<close>

text \<open>A client that follows \<open>next_cursor\<close> until there is none, with fuel for the number of pages.\<close>

fun read_pages :: "('c option \<Rightarrow> ('a list \<times> 'c option) result) \<Rightarrow> nat \<Rightarrow> 'c option \<Rightarrow> 'a list list option" where
  "read_pages q 0 cursor = None"
| "read_pages q (Suc fuel) cursor =
     (case q cursor of
        Inl _ \<Rightarrow> None
      | Inr (items, None) \<Rightarrow> Some [items]
      | Inr (items, Some c) \<Rightarrow> map_option (\<lambda>ps. items # ps) (read_pages q fuel (Some c)))"

text \<open>The whole history, newest first.\<close>

definition history :: "uuid \<Rightarrow> uuid \<Rightarrow> Db \<Rightarrow> RunRecord list" where
  "history thread owner db =
     rev (sort_key row_pos (filter (\<lambda>r. thread_fk r = thread \<and> user_fk r = Some owner) (runs db)))"

lemma history_after:
  "rev (sort_key row_pos (filter (\<lambda>r. thread_fk r = t \<and> user_fk r = Some o' \<and> row_pos r < p) (runs db)))
   = filter (\<lambda>r. row_pos r < p) (history t o' db)"
proof -
  have "filter (\<lambda>r. thread_fk r = t \<and> user_fk r = Some o' \<and> row_pos r < p) (runs db)
    = filter (\<lambda>r. row_pos r < p) (filter (\<lambda>r. thread_fk r = t \<and> user_fk r = Some o') (runs db))"
    by (simp add: conj_commute conj_left_commute)
  then show ?thesis by (simp only: history_def rev_filter filter_sort [symmetric])
qed

lemma history_decreasing:
  assumes "db_ok db"
  shows "sorted_wrt (\<lambda>a b. row_pos b < row_pos a) (history t o' db)"
proof -
  let ?f = "filter (\<lambda>r. thread_fk r = t \<and> user_fk r = Some o') (runs db)"
  have "distinct (map run_pk ?f)"
    using assms by (simp add: db_ok_def distinct_map_filter)
  then have "distinct (map row_pos ?f)"
    by (auto simp: distinct_map row_pos_def inj_on_def)
  then have "distinct (map row_pos (sort_key row_pos ?f))"
    by (simp add: distinct_map)
  then have "sorted_wrt (<) (map row_pos (sort_key row_pos ?f))"
    by (simp add: strict_sorted_iff)
  then show ?thesis
    by (simp add: history_def sorted_wrt_rev sorted_wrt_map)
qed

lemma filter_below_split:
  "sorted_wrt (\<lambda>a b. row_pos b < row_pos a) (xs @ a # ys) \<Longrightarrow>
   filter (\<lambda>r. row_pos r < row_pos a) (xs @ a # ys) = ys"
proof -
  assume s: "sorted_wrt (\<lambda>a b. row_pos b < row_pos a) (xs @ a # ys)"
  then have "filter (\<lambda>r. row_pos r < row_pos a) xs = []"
    by (auto simp: sorted_wrt_append filter_empty_conv)
  moreover from s have "filter (\<lambda>r. row_pos r < row_pos a) ys = ys"
    by (intro filter_True) (auto simp: sorted_wrt_append)
  ultimately show ?thesis by simp
qed

text \<open>One query in terms of the history: with \<open>rest\<close> the part of the history after the cursor, the
  query returns its first \<open>limit\<close> rows and a cursor at the last of them if there are more.\<close>

definition cursor_at :: "(datetime \<times> uuid \<Rightarrow> 'c) \<Rightarrow> RunRecord list \<Rightarrow> 'c option" where
  "cursor_at enc before = (if before = [] then None else Some (enc (row_pos (last before))))"

lemma list_by_thread_page:
  assumes ok: "db_ok db" and codec: "\<forall>p. dec (enc p) = Inr p"
    and ids: "UUID t = Some tid" "UUID u = Some uid" and limit: "0 < limit"
    and h: "history tid uid db = before @ rest"
  shows "list_by_thread enc dec t u (cursor_at enc before) limit db =
    Inr (map to_detail (take limit rest),
         if limit < length rest then cursor_at enc (before @ take limit rest) else None)"
proof -
  define after where "after = (if before = [] then None else Some (row_pos (last before)))"
  have sel: "rev (sort_key row_pos (filter (\<lambda>r. thread_fk r = tid \<and> user_fk r = Some uid \<and>
      (case after of None \<Rightarrow> True | Some p \<Rightarrow> row_pos r < p)) (runs db))) = rest"
  proof (cases before rule: rev_cases)
    case Nil
    with h show ?thesis by (simp add: after_def history_def)
  next
    case (snoc xs a)
    then show ?thesis
      using filter_below_split [of xs a rest] history_decreasing [OF ok, of tid uid] h
      by (simp add: after_def history_after)
  qed
  have cur: "(case cursor_at enc before of None \<Rightarrow> Inr None
      | Some c \<Rightarrow> result_bind (dec c) (\<lambda>p. Inr (Some p))) = Inr after"
    using codec by (simp add: after_def cursor_at_def del: split_paired_All)
  have q: "list_by_thread enc dec t u (cursor_at enc before) limit db =
      (case split_page (take (limit + 1) rest) limit of (page, has_more) \<Rightarrow>
         if \<not> has_more then Inr (map to_detail page, None)
         else if page = [] then Inl IndexError
         else Inr (map to_detail page, Some (enc (row_pos (last page)))))"
    by (simp only: list_by_thread_def ids cur sel option.case prod.case result_bind.simps Let_def)
  show ?thesis
  proof (cases "limit < length rest")
    case True
    then have "take limit rest \<noteq> []" using limit by auto
    with True show ?thesis unfolding q by (simp add: split_page_def cursor_at_def)
  next
    case False
    then show ?thesis unfolding q by (simp add: split_page_def)
  qed
qed

lemma read_pages_from:
  assumes ok: "db_ok db" and codec: "\<forall>p. dec (enc p) = Inr p"
    and ids: "UUID t = Some tid" "UUID u = Some uid" and limit: "0 < limit"
  shows "history tid uid db = before @ rest \<Longrightarrow> length rest < fuel \<Longrightarrow>
    \<exists>ps. read_pages (\<lambda>c. list_by_thread enc dec t u c limit db) fuel (cursor_at enc before) = Some ps \<and>
      concat ps = map to_detail rest \<and> list_all (\<lambda>p. length p \<le> limit) ps"
proof (induction fuel arbitrary: before rest)
  case (Suc fuel)
  have page: "list_by_thread enc dec t u (cursor_at enc before) limit db =
    Inr (map to_detail (take limit rest),
         if limit < length rest then cursor_at enc (before @ take limit rest) else None)"
    by (rule list_by_thread_page [where dec = dec, OF ok codec ids limit Suc.prems(1)])
  show ?case
  proof (cases "limit < length rest")
    case True
    have next_h: "history tid uid db = (before @ take limit rest) @ drop limit rest"
      using Suc.prems(1) by simp
    have "length (drop limit rest) < fuel" using Suc.prems(2) True limit by simp
    from Suc.IH [OF next_h this] obtain ps where ps:
      "read_pages (\<lambda>c. list_by_thread enc dec t u c limit db) fuel
         (cursor_at enc (before @ take limit rest)) = Some ps"
      "concat ps = map to_detail (drop limit rest)" "list_all (\<lambda>p. length p \<le> limit) ps"
      by blast
    have "cursor_at enc (before @ take limit rest) = Some (enc (row_pos (last (before @ take limit rest))))"
      using True limit by (auto simp: cursor_at_def)
    with page True ps show ?thesis
      by (auto simp flip: map_append)
  next
    case False
    with page show ?thesis by auto
  qed
qed simp

text \<open>Following the cursors from the first page returns, with a number of requests bounded by the
  number of runs, the user's complete history of the thread, newest first, every run exactly once,
  in pages of at most the requested size. The cursor codec only has to decode what it encoded.\<close>

theorem history_pages_complete:
  assumes "db_ok db" and "\<forall>p. dec (enc p) = Inr p"
    and "UUID t = Some tid" and "UUID u = Some uid" and "0 < limit"
  shows "\<exists>ps. read_pages (\<lambda>c. list_by_thread enc dec t u c limit db) (Suc (length (runs db))) None = Some ps \<and>
    concat ps = map to_detail (history tid uid db) \<and> list_all (\<lambda>p. length p \<le> limit) ps \<and>
    set (history tid uid db) = {r \<in> set (runs db). thread_fk r = tid \<and> user_fk r = Some uid} \<and>
    sorted_wrt (\<lambda>a b. row_pos b < row_pos a) (history tid uid db)"
proof -
  have "length (history tid uid db) < Suc (length (runs db))"
    using length_filter_le by (simp add: history_def less_Suc_eq_le)
  from read_pages_from [OF assms(1) _ assms(3,4,5), of dec enc "[]", OF assms(2) _ this]
  show ?thesis
    using history_decreasing [OF assms(1)] by (auto simp: cursor_at_def history_def)
qed

text \<open>With the identity as the codec and two runs of one user and thread.\<close>

theorem history_pages_complete_witness:
  "\<exists>ps. read_pages (\<lambda>c. list_by_thread (\<lambda>p. p) Inr (uuid_hex 7) (uuid_hex 5) c 1 (example_db QUEUED))
     (Suc (length (runs (example_db QUEUED)))) None
     = Some ps \<and> concat ps = map to_detail (history 7 5 (example_db QUEUED))"
proof -
  have "UUID (uuid_hex 7) = Some 7" "UUID (uuid_hex 5) = Some 5" by simp_all
  from history_pages_complete [OF example_db_ok [of QUEUED] _ this, of Inr "\<lambda>p. p" 1]
  show ?thesis by auto
qed

end
