(* ===== verification/Memory_Job.thy ===== *)
theory Memory_Job
  imports Run_Repository
begin

text \<open>
  The memory outbox and the ledger of the auxiliary models (\<open>app/memory/job.py\<close>). A row of \<open>memory_jobs\<close> is the
  row written by \<open>succeed\<close> with the columns the consumer fills; every statement is one transaction. Costs are
  floats in the code: their type is a parameter \<open>'y\<close>, and so is their addition where it is used.
\<close>

section \<open>Rows\<close>

datatype MemoryUsageStage = SELECTOR | EXTRACTOR | CONSOLIDATOR

record MemoryJobRow = MemoryJobRecord +
  mj_id :: uuid
  mj_attempts :: int
  mj_accepted_count :: int
  mj_rejected_count :: int
  mj_rejection_reasons :: "string list"
  mj_last_error :: "string option"
  mj_started_at :: "datetime option"
  mj_ended_at :: "datetime option"

text \<open>The row of a job that the outbox just received: the key \<open>uuid4()\<close> chose and the defaults of the columns.\<close>

definition enqueued :: "uuid \<Rightarrow> MemoryJobRecord \<Rightarrow> MemoryJobRow" where
  "enqueued u r =
     \<lparr>mj_run = mj_run r, mj_thread = mj_thread r, mj_user = mj_user r, mj_status = mj_status r,
      mj_snapshot = mj_snapshot r, mj_created_at = mj_created_at r, mj_id = u, mj_attempts = 0, mj_accepted_count = 0,
      mj_rejected_count = 0, mj_rejection_reasons = [], mj_last_error = None, mj_started_at = None, mj_ended_at = None\<rparr>"

record MemoryJob =
  job_id :: string
  job_run_id :: string
  job_thread_id :: string
  job_user_id :: string
  job_messages :: "(string \<times> string) list list"
  job_attempts :: int

record 'y MemoryUsage =
  mu_run_id :: string
  mu_thread_id :: string
  mu_stage :: MemoryUsageStage
  mu_model :: string
  mu_tokens :: TokenUsage
  mu_cost :: 'y
  mu_duration :: int
  mu_hit :: int
  mu_rejected :: int
  mu_fallback :: "string option"
  mu_included :: bool
  mu_slugs :: "string list"
  mu_job_id :: "string option"

record 'y MemoryUsageRecord =
  ur_id :: uuid
  ur_run :: uuid
  ur_thread :: uuid
  ur_job :: "uuid option"
  ur_stage :: MemoryUsageStage
  ur_model :: string
  ur_tokens_cache_read :: int
  ur_tokens_uncached :: int
  ur_tokens_output :: int
  ur_cost :: 'y
  ur_duration :: int
  ur_hit :: int
  ur_rejected :: int
  ur_fallback :: "string option"
  ur_included :: bool
  ur_slugs :: "string list"
  ur_created_at :: datetime

record 'y MemDb =
  jobs :: "MemoryJobRow list"
  usages :: "'y MemoryUsageRecord list"

section \<open>The queue\<close>

definition to_job :: "MemoryJobRow \<Rightarrow> MemoryJob" where
  "to_job r =
     \<lparr>job_id = uuid_hex (mj_id r), job_run_id = uuid_hex (mj_run r), job_thread_id = uuid_hex (mj_thread r),
      job_user_id = uuid_hex (mj_user r), job_messages = mj_snapshot r, job_attempts = mj_attempts r\<rparr>"

definition set_job :: "uuid \<Rightarrow> (MemoryJobRow \<Rightarrow> bool) \<Rightarrow> (MemoryJobRow \<Rightarrow> MemoryJobRow) \<Rightarrow> 'y MemDb \<Rightarrow> bool \<times> 'y MemDb" where
  "set_job u guard change db =
     (case sql_update (\<lambda>r. mj_id r = u \<and> guard r) change (jobs db) of (rows, n) \<Rightarrow> (0 < n, db\<lparr>jobs := rows\<rparr>))"

text \<open>\<open>claim\<close>: \<open>FOR UPDATE SKIP LOCKED\<close> passes over the rows \<open>locked\<close> by transactions still open.\<close>

definition claimable :: "uuid list \<Rightarrow> 'y MemDb \<Rightarrow> MemoryJobRow list" where
  "claimable locked db =
     sort_key (\<lambda>r. (mj_created_at r, mj_id r)) (filter (\<lambda>r. mj_status r = MJ_QUEUED \<and> mj_id r \<notin> set locked) (jobs db))"

definition claimed_row :: "datetime \<Rightarrow> MemoryJobRow \<Rightarrow> MemoryJobRow" where
  "claimed_row now r = r\<lparr>mj_status := MJ_RUNNING, mj_attempts := mj_attempts r + 1, mj_started_at := Some now, mj_last_error := None\<rparr>"

definition claim_job :: "uuid list \<Rightarrow> datetime \<Rightarrow> 'y MemDb \<Rightarrow> MemoryJob option \<times> 'y MemDb" where
  "claim_job locked now db =
     (case claimable locked db of
        [] \<Rightarrow> (None, db)
      | r # _ \<Rightarrow> (Some (to_job (claimed_row now r)), snd (set_job (mj_id r) (\<lambda>_. True) (claimed_row now) db)))"

text \<open>A \<open>NULL\<close> in \<open>started_at < before\<close> does not match.\<close>

definition requeue_stale :: "datetime \<Rightarrow> 'y MemDb \<Rightarrow> nat \<times> 'y MemDb" where
  "requeue_stale before db =
     (case sql_update (\<lambda>r. mj_status r = MJ_RUNNING \<and> (case mj_started_at r of None \<Rightarrow> False | Some t \<Rightarrow> t < before))
             (\<lambda>r. r\<lparr>mj_status := MJ_QUEUED, mj_started_at := None, mj_last_error := Some ''consumer timeout''\<rparr>) (jobs db) of
        (rows, n) \<Rightarrow> (n, db\<lparr>jobs := rows\<rparr>))"

definition requeue :: "string \<Rightarrow> string \<Rightarrow> 'y MemDb \<Rightarrow> bool \<times> 'y MemDb" where
  "requeue i err db =
     (case UUID i of
        None \<Rightarrow> (False, db)
      | Some u \<Rightarrow> set_job u (\<lambda>r. mj_status r = MJ_RUNNING)
          (\<lambda>r. r\<lparr>mj_status := MJ_QUEUED, mj_started_at := None, mj_ended_at := None, mj_last_error := Some err\<rparr>) db)"

definition finish :: "string \<Rightarrow> MemoryJobStatus \<Rightarrow> int \<Rightarrow> int \<Rightarrow> string list \<Rightarrow> string option \<Rightarrow> datetime \<Rightarrow> 'y MemDb \<Rightarrow> bool \<times> 'y MemDb" where
  "finish i s accepted rejected reasons err now db =
     (case UUID i of
        None \<Rightarrow> (False, db)
      | Some u \<Rightarrow> set_job u (\<lambda>r. mj_status r = MJ_RUNNING)
          (\<lambda>r. r\<lparr>mj_status := s, mj_accepted_count := accepted, mj_rejected_count := rejected, mj_rejection_reasons := reasons,
                 mj_last_error := err, mj_ended_at := Some now\<rparr>) db)"

definition complete :: "string \<Rightarrow> int \<Rightarrow> string list \<Rightarrow> datetime \<Rightarrow> 'y MemDb \<Rightarrow> bool \<times> 'y MemDb" where
  "complete i accepted reasons now db = finish i MJ_SUCCEEDED accepted (int (length reasons)) reasons None now db"

definition discard_job :: "string \<Rightarrow> string \<Rightarrow> datetime \<Rightarrow> 'y MemDb \<Rightarrow> bool \<times> 'y MemDb" where
  "discard_job i reason now db = finish i MJ_DISCARDED 0 0 [reason] None now db"

definition fail_job :: "string \<Rightarrow> string \<Rightarrow> datetime \<Rightarrow> 'y MemDb \<Rightarrow> bool \<times> 'y MemDb" where
  "fail_job i err now db = finish i MJ_FAILED 0 0 [] (Some err) now db"

definition status_for_run :: "string \<Rightarrow> 'y MemDb \<Rightarrow> MemoryJobStatus option" where
  "status_for_run i db =
     (case UUID i of
        None \<Rightarrow> None
      | Some u \<Rightarrow> map_option mj_status (find (\<lambda>r. mj_run r = u) (jobs db)))"

section \<open>The usage ledger\<close>

definition to_usage :: "'y MemoryUsageRecord \<Rightarrow> 'y MemoryUsage" where
  "to_usage r =
     \<lparr>mu_run_id = uuid_hex (ur_run r), mu_thread_id = uuid_hex (ur_thread r), mu_stage = ur_stage r, mu_model = ur_model r,
      mu_tokens = TokenUsage (ur_tokens_cache_read r) (ur_tokens_uncached r) (ur_tokens_output r), mu_cost = ur_cost r,
      mu_duration = ur_duration r, mu_hit = ur_hit r, mu_rejected = ur_rejected r, mu_fallback = ur_fallback r,
      mu_included = ur_included r, mu_slugs = ur_slugs r, mu_job_id = map_option uuid_hex (ur_job r)\<rparr>"

text \<open>\<open>record_usage\<close>: an upsert on \<open>(run_id, stage)\<close> that keeps the key, the run, the stage and the time of the row it finds.
  \<open>fresh\<close> is \<open>uuid4()\<close>. A malformed id raises before the statement.\<close>

definition record_usage :: "uuid \<Rightarrow> datetime \<Rightarrow> 'y MemoryUsage \<Rightarrow> 'y MemDb \<Rightarrow> 'y MemDb result" where
  "record_usage fresh now u db =
     (case (UUID (mu_run_id u), UUID (mu_thread_id u), (case mu_job_id u of None \<Rightarrow> Some None | Some j \<Rightarrow> map_option Some (UUID j))) of
        (Some run, Some thread, Some job) \<Rightarrow>
          let row = \<lparr>ur_id = fresh, ur_run = run, ur_thread = thread, ur_job = job, ur_stage = mu_stage u, ur_model = mu_model u,
                     ur_tokens_cache_read = input_cache_read (mu_tokens u), ur_tokens_uncached = input_uncached (mu_tokens u),
                     ur_tokens_output = output_tk (mu_tokens u), ur_cost = mu_cost u, ur_duration = mu_duration u, ur_hit = mu_hit u,
                     ur_rejected = mu_rejected u, ur_fallback = mu_fallback u, ur_included = mu_included u, ur_slugs = mu_slugs u,
                     ur_created_at = now\<rparr>;
              same = (\<lambda>r. ur_run r = run \<and> ur_stage r = mu_stage u)
          in if \<exists>r \<in> set (usages db). same r
             then Inr (db\<lparr>usages := map (\<lambda>r. if same r then row\<lparr>ur_id := ur_id r, ur_created_at := ur_created_at r\<rparr> else r) (usages db)\<rparr>)
             else Inr (db\<lparr>usages := usages db @ [row]\<rparr>)
      | _ \<Rightarrow> Inl ValueError)"

definition usage_for_run :: "string \<Rightarrow> 'y MemDb \<Rightarrow> MemoryUsageStage \<rightharpoonup> 'y MemoryUsage" where
  "usage_for_run i db =
     (case UUID i of
        None \<Rightarrow> Map.empty
      | Some u \<Rightarrow> map_of (map (\<lambda>r. (ur_stage r, to_usage r)) (rev (filter (\<lambda>r. ur_run r = u) (usages db)))))"

section \<open>Any number of consumers\<close>

text \<open>The calls on the queue as steps that report whether they changed the row they name. A claim and a stale sweep
  name no row: which rows they change depends on the table.\<close>

datatype job_op =
    JClaim "uuid list" datetime
  | JStale datetime
  | JRequeue string string
  | JComplete string int "string list" datetime
  | JDiscard string string datetime
  | JFail string string datetime

fun job_step :: "job_op \<Rightarrow> 'y MemDb \<Rightarrow> bool \<times> 'y MemDb" where
  "job_step (JClaim locked now) db = (case claim_job locked now db of (j, db) \<Rightarrow> (j \<noteq> None, db))"
| "job_step (JStale before) db = (case requeue_stale before db of (n, db) \<Rightarrow> (0 < n, db))"
| "job_step (JRequeue i err) db = requeue i err db"
| "job_step (JComplete i accepted reasons now) db = complete i accepted reasons now db"
| "job_step (JDiscard i reason now) db = discard_job i reason now db"
| "job_step (JFail i err now) db = fail_job i err now db"

fun job_key :: "job_op \<Rightarrow> uuid option" where
  "job_key (JClaim _ _) = None"
| "job_key (JStale _) = None"
| "job_key (JRequeue i _) = UUID i"
| "job_key (JComplete i _ _ _) = UUID i"
| "job_key (JDiscard i _ _) = UUID i"
| "job_key (JFail i _ _) = UUID i"

fun job_target :: "job_op \<Rightarrow> MemoryJobStatus" where
  "job_target (JComplete _ _ _ _) = MJ_SUCCEEDED"
| "job_target (JDiscard _ _ _) = MJ_DISCARDED"
| "job_target (JFail _ _ _) = MJ_FAILED"
| "job_target _ = MJ_QUEUED"

definition job_ended :: "MemoryJobStatus \<Rightarrow> bool" where
  "job_ended s \<longleftrightarrow> s \<in> {MJ_SUCCEEDED, MJ_FAILED, MJ_DISCARDED}"

definition job_row :: "'y MemDb \<Rightarrow> uuid \<Rightarrow> MemoryJobRow option" where
  "job_row db u = find (\<lambda>r. mj_id r = u) (jobs db)"

definition job_status :: "'y MemDb \<Rightarrow> uuid \<Rightarrow> MemoryJobStatus option" where
  "job_status db u = map_option mj_status (job_row db u)"

definition jobs_ok :: "'y MemDb \<Rightarrow> bool" where
  "jobs_ok db \<longleftrightarrow> distinct (map mj_id (jobs db))"

lemma set_job_spec:
  assumes "jobs_ok db" "\<And>r. mj_id (f r) = mj_id r" "set_job u q f db = (b, db')"
  shows "jobs_ok db'" "usages db' = usages db" "b \<longleftrightarrow> (\<exists>r. job_row db u = Some r \<and> q r)"
    and "job_row db' v = (if v = u \<and> b then map_option f (job_row db v) else job_row db v)"
proof -
  obtain rows n where upd: "sql_update (\<lambda>r. mj_id r = u \<and> q r) f (jobs db) = (rows, n)" by (meson surj_pair)
  with assms(3) have b: "b = (0 < n)" "db' = db\<lparr>jobs := rows\<rparr>" by (auto simp: set_job_def)
  note k = sql_update_keyed [of mj_id "jobs db" f u q rows n, OF _ assms(2) upd]
  show "jobs_ok db'" "usages db' = usages db" using k(1) assms(1) b by (simp_all add: jobs_ok_def)
  show "b \<longleftrightarrow> (\<exists>r. job_row db u = Some r \<and> q r)" using k(2) assms(1) b by (simp add: jobs_ok_def job_row_def)
  show "job_row db' v = (if v = u \<and> b then map_option f (job_row db v) else job_row db v)"
    unfolding job_row_def b using k(3) [of v] assms(1) by (simp only: jobs_ok_def) simp
qed

text \<open>What each call does to every row.\<close>

lemma claim_job_spec:
  assumes "jobs_ok db" "claim_job locked now db = (j, db')"
  shows "jobs_ok db'" "usages db' = usages db"
    and "j = None \<longrightarrow> db' = db \<and> claimable locked db = []"
    and "j = Some job \<longrightarrow> (\<exists>r rs. claimable locked db = r # rs \<and> mj_status r = MJ_QUEUED \<and> job_row db (mj_id r) = Some r \<and>
      job = to_job (claimed_row now r) \<and> (\<forall>v. job_row db' v = (if v = mj_id r then Some (claimed_row now r) else job_row db v)))"
proof -
  have "jobs_ok db' \<and> usages db' = usages db \<and> (j = None \<longrightarrow> db' = db \<and> claimable locked db = []) \<and>
    (j = Some job \<longrightarrow> (\<exists>r rs. claimable locked db = r # rs \<and> mj_status r = MJ_QUEUED \<and> job_row db (mj_id r) = Some r \<and>
      job = to_job (claimed_row now r) \<and> (\<forall>v. job_row db' v = (if v = mj_id r then Some (claimed_row now r) else job_row db v))))"
  proof (cases "claimable locked db")
    case Nil
    then show ?thesis using assms by (auto simp: claim_job_def)
  next
    case (Cons r rs)
    then have "r \<in> set (claimable locked db)" by simp
    then have r: "r \<in> set (jobs db)" "mj_status r = MJ_QUEUED" by (auto simp: claimable_def)
    have row: "job_row db (mj_id r) = Some r"
      using find_key [of mj_id, OF _ r(1)] assms(1) by (simp add: job_row_def jobs_ok_def)
    have fin: "j = Some (to_job (claimed_row now r))" "db' = snd (set_job (mj_id r) (\<lambda>_. True) (claimed_row now) db)"
      using assms(2) Cons by (auto simp: claim_job_def)
    obtain b where st: "set_job (mj_id r) (\<lambda>_. True) (claimed_row now) db = (b, db')" using fin(2) by (cases "set_job (mj_id r) (\<lambda>_. True) (claimed_row now) db") auto
    have "mj_id (claimed_row now r) = mj_id r" for r by (simp add: claimed_row_def)
    note s = set_job_spec [OF assms(1) this st]
    have b using s(3) row by simp
    then show ?thesis using s(1,2) s(4) r(2) row fin(1) Cons by auto
  qed
  then show "jobs_ok db'" "usages db' = usages db" "j = None \<longrightarrow> db' = db \<and> claimable locked db = []"
    "j = Some job \<longrightarrow> (\<exists>r rs. claimable locked db = r # rs \<and> mj_status r = MJ_QUEUED \<and> job_row db (mj_id r) = Some r \<and>
      job = to_job (claimed_row now r) \<and> (\<forall>v. job_row db' v = (if v = mj_id r then Some (claimed_row now r) else job_row db v)))"
    by blast+
qed

lemma requeue_stale_spec:
  assumes "jobs_ok db" "requeue_stale before db = (n, db')"
  shows "jobs_ok db'" "usages db' = usages db"
    and "job_row db' v = map_option (\<lambda>r. if mj_status r = MJ_RUNNING \<and> (case mj_started_at r of None \<Rightarrow> False | Some t \<Rightarrow> t < before)
      then r\<lparr>mj_status := MJ_QUEUED, mj_started_at := None, mj_last_error := Some ''consumer timeout''\<rparr> else r) (job_row db v)"
proof -
  have fm: "find (\<lambda>r. mj_id r = v) (map f rs) = map_option f (find (\<lambda>r. mj_id r = v) rs)" if "\<And>r. mj_id (f r) = mj_id r" for f rs
    using that by (induction rs) auto
  show "usages db' = usages db" using assms(2) by (auto simp: requeue_stale_def sql_update_def)
  show "jobs_ok db'" using assms by (auto simp: requeue_stale_def sql_update_def jobs_ok_def map_pk_update simp del: map_map)
  show "job_row db' v = map_option (\<lambda>r. if mj_status r = MJ_RUNNING \<and> (case mj_started_at r of None \<Rightarrow> False | Some t \<Rightarrow> t < before)
      then r\<lparr>mj_status := MJ_QUEUED, mj_started_at := None, mj_last_error := Some ''consumer timeout''\<rparr> else r) (job_row db v)"
    using assms(2) by (auto simp: requeue_stale_def sql_update_def job_row_def fm)
qed

lemma finish_spec:
  assumes "jobs_ok db" "finish i s acc rej rs err now db = (b, db')"
  shows "jobs_ok db'" "usages db' = usages db" "b \<longleftrightarrow> (\<exists>u r. UUID i = Some u \<and> job_row db u = Some r \<and> mj_status r = MJ_RUNNING)"
    and "job_row db' v = (if UUID i = Some v \<and> b then map_option (\<lambda>r. r\<lparr>mj_status := s, mj_accepted_count := acc, mj_rejected_count := rej,
      mj_rejection_reasons := rs, mj_last_error := err, mj_ended_at := Some now\<rparr>) (job_row db v) else job_row db v)"
proof -
  have pk: "mj_id (r\<lparr>mj_status := s, mj_accepted_count := acc, mj_rejected_count := rej, mj_rejection_reasons := rs,
      mj_last_error := err, mj_ended_at := Some now\<rparr>) = mj_id r" for r :: MemoryJobRow by simp
  show "jobs_ok db'" "usages db' = usages db" "b \<longleftrightarrow> (\<exists>u r. UUID i = Some u \<and> job_row db u = Some r \<and> mj_status r = MJ_RUNNING)"
    "job_row db' v = (if UUID i = Some v \<and> b then map_option (\<lambda>r. r\<lparr>mj_status := s, mj_accepted_count := acc, mj_rejected_count := rej,
      mj_rejection_reasons := rs, mj_last_error := err, mj_ended_at := Some now\<rparr>) (job_row db v) else job_row db v)"
    using assms(2) set_job_spec [OF assms(1) pk] assms(1) by (auto simp: finish_def split: option.splits)
qed

lemma requeue_spec:
  assumes "jobs_ok db" "requeue i err db = (b, db')"
  shows "jobs_ok db'" "usages db' = usages db" "b \<longleftrightarrow> (\<exists>u r. UUID i = Some u \<and> job_row db u = Some r \<and> mj_status r = MJ_RUNNING)"
    and "job_row db' v = (if UUID i = Some v \<and> b then map_option (\<lambda>r. r\<lparr>mj_status := MJ_QUEUED, mj_started_at := None,
      mj_ended_at := None, mj_last_error := Some err\<rparr>) (job_row db v) else job_row db v)"
proof -
  have pk: "mj_id (r\<lparr>mj_status := MJ_QUEUED, mj_started_at := None, mj_ended_at := None, mj_last_error := Some err\<rparr>) = mj_id r"
    for r :: MemoryJobRow by simp
  show "jobs_ok db'" "usages db' = usages db" "b \<longleftrightarrow> (\<exists>u r. UUID i = Some u \<and> job_row db u = Some r \<and> mj_status r = MJ_RUNNING)"
    "job_row db' v = (if UUID i = Some v \<and> b then map_option (\<lambda>r. r\<lparr>mj_status := MJ_QUEUED, mj_started_at := None,
      mj_ended_at := None, mj_last_error := Some err\<rparr>) (job_row db v) else job_row db v)"
    using assms(2) set_job_spec [OF assms(1) pk] assms(1) by (auto simp: requeue_def split: option.splits)
qed

lemmas finish_defs = complete_def discard_job_def fail_job_def

text \<open>The status a row has after a call.\<close>

lemma job_step_status:
  assumes "jobs_ok db" "job_step x db = (b, db')"
  shows "jobs_ok db'"
    and "job_status db k = Some v \<Longrightarrow> job_ended v \<Longrightarrow> job_status db' k = Some v \<and> \<not> (b \<and> job_key x = Some k \<and> job_ended (job_target x))"
    and "job_status db k = Some v \<Longrightarrow> \<not> job_ended v \<Longrightarrow> (if b \<and> job_key x = Some k \<and> job_ended (job_target x)
      then job_status db' k = Some (job_target x) else \<exists>v'. job_status db' k = Some v' \<and> \<not> job_ended v')"
proof -
  have "jobs_ok db' \<and> (\<forall>v. job_status db k = Some v \<longrightarrow> (if job_ended v then job_status db' k = Some v \<and> \<not> (b \<and> job_key x = Some k \<and> job_ended (job_target x))
    else if b \<and> job_key x = Some k \<and> job_ended (job_target x) then job_status db' k = Some (job_target x)
    else \<exists>v'. job_status db' k = Some v' \<and> \<not> job_ended v'))"
  proof (cases x)
    case (JClaim locked now)
    then obtain j where j: "claim_job locked now db = (j, db')" using assms(2) by (auto split: prod.splits)
    note c = claim_job_spec [OF assms(1) j]
    show ?thesis
    proof (cases j)
      case None
      then show ?thesis using c JClaim assms(1) by auto
    next
      case (Some job)
      with c(4) obtain r where r: "mj_status r = MJ_QUEUED" "job_row db (mj_id r) = Some r"
          "\<And>v. job_row db' v = (if v = mj_id r then Some (claimed_row now r) else job_row db v)" by blast
      then show ?thesis using c(1) JClaim by (auto simp: job_status_def job_ended_def claimed_row_def)
    qed
  next
    case (JStale before)
    then obtain n where n: "requeue_stale before db = (n, db')" using assms(2) by (auto split: prod.splits)
    note c = requeue_stale_spec [OF assms(1) n]
    show ?thesis using c(1) c(3) [of k] JStale by (cases "job_row db k") (simp_all add: job_status_def job_ended_def)
  next
    case (JRequeue i err)
    then have n: "requeue i err db = (b, db')" using assms(2) by simp
    note c = requeue_spec [OF assms(1) n]
    show ?thesis using c(1,3) c(4) [of k] JRequeue by (auto simp: job_status_def job_ended_def)
  next
    case (JComplete i acc rs now)
    then have n: "finish i MJ_SUCCEEDED acc (int (length rs)) rs None now db = (b, db')" using assms(2) by (simp add: finish_defs)
    note c = finish_spec [OF assms(1) n]
    show ?thesis using c(1,3) c(4) [of k] JComplete by (auto simp: job_status_def job_ended_def)
  next
    case (JDiscard i rs now)
    then have n: "finish i MJ_DISCARDED 0 0 [rs] None now db = (b, db')" using assms(2) by (simp add: finish_defs)
    note c = finish_spec [OF assms(1) n]
    show ?thesis using c(1,3) c(4) [of k] JDiscard by (auto simp: job_status_def job_ended_def)
  next
    case (JFail i err now)
    then have n: "finish i MJ_FAILED 0 0 [] (Some err) now db = (b, db')" using assms(2) by (simp add: finish_defs)
    note c = finish_spec [OF assms(1) n]
    show ?thesis using c(1,3) c(4) [of k] JFail by (auto simp: job_status_def job_ended_def)
  qed
  then show "jobs_ok db'"
    "job_status db k = Some v \<Longrightarrow> job_ended v \<Longrightarrow> job_status db' k = Some v \<and> \<not> (b \<and> job_key x = Some k \<and> job_ended (job_target x))"
    "job_status db k = Some v \<Longrightarrow> \<not> job_ended v \<Longrightarrow> (if b \<and> job_key x = Some k \<and> job_ended (job_target x)
      then job_status db' k = Some (job_target x) else \<exists>v'. job_status db' k = Some v' \<and> \<not> job_ended v')"
    by auto
qed

interpretation outbox: guarded_writes job_step job_status job_key job_target job_ended jobs_ok
  by unfold_locales (fact job_step_status)+

section \<open>Properties\<close>

text \<open>C29. Whatever claims, sweeps, retries and results the consumers of the memory outbox issue, in any order: of the calls that
  would end a job that has not ended, at most one reports success, the job stays in the state of that call for ever, and if there
  is none the job has still not ended.\<close>

theorem one_job_finisher:
  assumes "jobs_ok db" and "job_status db u = Some s" and "\<not> job_ended s" and "exec_ops job_step xs db = (bs, db')"
  shows "(\<exists>s'. job_status db' u = Some s' \<and> \<not> job_ended s' \<and> winners job_key job_target job_ended u xs bs = []) \<or>
    (\<exists>x. winners job_key job_target job_ended u xs bs = [x] \<and> x \<in> set xs \<and> job_status db' u = Some (job_target x) \<and> job_ended (job_target x))"
  using assms by (rule outbox.one_winner)

definition example_job :: "uuid \<Rightarrow> MemoryJobRow" where
  "example_job u = enqueued u \<lparr>mj_run = 1, mj_thread = 7, mj_user = 5, mj_status = MJ_QUEUED, mj_snapshot = [[(''role'', ''user'')]], mj_created_at = 100\<rparr>"

definition example_jobs :: "int MemDb" where
  "example_jobs = \<lparr>jobs = [example_job 3], usages = []\<rparr>"

definition example_consumers :: "job_op list" where
  "example_consumers = [JClaim [] 200, JStale 300, JClaim [] 301, JComplete (uuid_hex 3) 1 [] 302, JFail (uuid_hex 3) ''late'' 303]"

lemmas example_job_simps = example_jobs_def example_job_def enqueued_def example_consumers_def claim_job_def claimable_def claimed_row_def
  set_job_def sql_update_def requeue_stale_def finish_defs finish_def

theorem one_job_finisher_witness:
  "winners job_key job_target job_ended 3 example_consumers (fst (exec_ops job_step example_consumers example_jobs)) =
     [JComplete (uuid_hex 3) 1 [] 302] \<and> job_status (snd (exec_ops job_step example_consumers example_jobs)) 3 = Some MJ_SUCCEEDED"
proof -
  let ?r = "exec_ops job_step example_consumers example_jobs"
  have w: "JComplete (uuid_hex 3) 1 [] 302 \<in> set (winners job_key job_target job_ended 3 example_consumers (fst ?r))"
    by (simp add: example_job_simps winners_def job_ended_def)
  from one_job_finisher [of example_jobs 3 MJ_QUEUED example_consumers "fst ?r" "snd ?r"] w
  obtain x where "winners job_key job_target job_ended 3 example_consumers (fst ?r) = [x]" "job_status (snd ?r) 3 = Some (job_target x)"
    by (auto simp: jobs_ok_def job_status_def job_row_def job_ended_def example_jobs_def example_job_def enqueued_def)
  moreover from this(1) w have "x = JComplete (uuid_hex 3) 1 [] 302" by auto
  ultimately show ?thesis by simp
qed

text \<open>A worker that starts takes the jobs of the workers that are running: its first sweep puts every running job back, whoever
  holds it, so the same job is given to two workers at once, although a claim is meant to be exclusive.\<close>

theorem startup_sweep_takes_running_job:
  "let (a, db1) = claim_job [] 200 example_jobs; (n, db2) = requeue_stale 201 db1; (b, db3) = claim_job [] 202 db2;
       (done_a, db4) = complete (uuid_hex 3) 1 [] 203 db3; (done_b, db5) = complete (uuid_hex 3) 2 [] 204 db4
   in map_option job_id a = map_option job_id b \<and> map_option job_attempts b = Some 2 \<and> done_a \<and> \<not> done_b"
  by (simp add: example_job_simps to_job_def)

end
