(* ===== verification/Programs.thy ===== *)
theory Programs
  imports Prelude
begin

text \<open>
  Code that raises and changes a state: a program takes the state to a result and the new state. The translations of the
  handlers and workers are written with these combinators, and their invariants are proved with the rules of \<open>keeps\<close>.
\<close>

type_synonym ('w, 'a) program = "'w \<Rightarrow> 'a result \<times> 'w"

definition ret :: "'a \<Rightarrow> ('w, 'a) program" where
  "ret x w = (Inr x, w)"

definition throw :: "exn \<Rightarrow> ('w, 'a) program" where
  "throw e w = (Inl e, w)"

definition seq :: "('w, 'a) program \<Rightarrow> ('a \<Rightarrow> ('w, 'b) program) \<Rightarrow> ('w, 'b) program" where
  "seq m f w = (case m w of (Inl e, w) \<Rightarrow> (Inl e, w) | (Inr x, w) \<Rightarrow> f x w)"

definition try_except :: "('w, 'a) program \<Rightarrow> (exn \<Rightarrow> ('w, 'a) program) \<Rightarrow> ('w, 'a) program" where
  "try_except m h w = (case m w of (Inl e, w) \<Rightarrow> h e w | (Inr x, w) \<Rightarrow> (Inr x, w))"

text \<open>\<open>finally\<close>: an exception of the clean-up replaces the outcome.\<close>

definition try_finally :: "('w, 'a) program \<Rightarrow> ('w, unit) program \<Rightarrow> ('w, 'a) program" where
  "try_finally m f w = (case m w of (r, w) \<Rightarrow> case f w of (Inl e, w) \<Rightarrow> (Inl e, w) | (Inr _, w) \<Rightarrow> (r, w))"

text \<open>\<open>keeps P m\<close>: whether \<open>m\<close> returns or raises, it leaves \<open>P\<close> true.\<close>

definition keeps :: "('w \<Rightarrow> bool) \<Rightarrow> ('w, 'a) program \<Rightarrow> bool" where
  "keeps P m \<longleftrightarrow> (\<forall>w. P w \<longrightarrow> P (snd (m w)))"

lemma keepsI: "(\<And>w. P w \<Longrightarrow> P (snd (m w))) \<Longrightarrow> keeps P m"
  by (simp add: keeps_def)

lemma keepsD: "keeps P m \<Longrightarrow> P w \<Longrightarrow> P (snd (m w))"
  by (simp add: keeps_def)

lemma keeps_ret [step_intros, simp]: "keeps P (ret x)"
  by (simp add: keeps_def ret_def)

lemma keeps_throw [step_intros, simp]: "keeps P (throw e)"
  by (simp add: keeps_def throw_def)

lemma keeps_seq [step_intros]: "keeps P m \<Longrightarrow> (\<And>x. keeps P (f x)) \<Longrightarrow> keeps P (seq m f)"
  by (fastforce simp: keeps_def seq_def split: prod.splits sum.splits)

lemma keeps_seq_value:
  assumes "keeps P m" "\<And>w x w'. P w \<Longrightarrow> m w = (Inr x, w') \<Longrightarrow> V x" "\<And>x. V x \<Longrightarrow> keeps P (f x)"
  shows "keeps P (seq m f)"
proof (rule keepsI)
  fix w assume w: "P w"
  obtain r w1 where m: "m w = (r, w1)" by fastforce
  with keepsD [OF assms(1) w] have "P w1" by simp
  with m assms(2) [OF w] assms(3) show "P (snd (seq m f w))"
    by (cases r) (auto simp: seq_def keeps_def)
qed

lemma keeps_except [step_intros]: "keeps P m \<Longrightarrow> (\<And>e. keeps P (h e)) \<Longrightarrow> keeps P (try_except m h)"
  by (fastforce simp: keeps_def try_except_def split: prod.splits sum.splits)

lemma keeps_finally [step_intros]: "keeps P m \<Longrightarrow> keeps P f \<Longrightarrow> keeps P (try_finally m f)"
  by (fastforce simp: keeps_def try_finally_def split: prod.splits sum.splits)

lemma keeps_if [step_intros]: "(b \<Longrightarrow> keeps P m) \<Longrightarrow> (\<not> b \<Longrightarrow> keeps P n) \<Longrightarrow> keeps P (if b then m else n)"
  by simp

lemma keeps_case_sum [step_intros]:
  "(\<And>e. keeps P (f e)) \<Longrightarrow> (\<And>x. keeps P (g x)) \<Longrightarrow> keeps P (case s of Inl e \<Rightarrow> f e | Inr x \<Rightarrow> g x)"
  by (cases s) simp_all

text \<open>\<open>yields P Q m\<close>: from \<open>P\<close>, a return leaves \<open>Q\<close> and an exception leaves \<open>P\<close>.\<close>

definition yields :: "('w \<Rightarrow> bool) \<Rightarrow> ('w \<Rightarrow> bool) \<Rightarrow> ('w, 'a) program \<Rightarrow> bool" where
  "yields P Q m \<longleftrightarrow> (\<forall>w. P w \<longrightarrow> (case m w of (Inl _, w') \<Rightarrow> P w' | (Inr _, w') \<Rightarrow> Q w'))"

named_theorems yields_intros \<open>rules for programs whose last call settles something\<close>

lemma yieldsI:
  "(\<And>w e w'. P w \<Longrightarrow> m w = (Inl e, w') \<Longrightarrow> P w') \<Longrightarrow> (\<And>w x w'. P w \<Longrightarrow> m w = (Inr x, w') \<Longrightarrow> Q w') \<Longrightarrow> yields P Q m"
  by (simp add: yields_def split: prod.split sum.split)

lemma yieldsD:
  assumes "yields P Q m" "P w"
  shows "m w = (Inl e, w') \<Longrightarrow> P w'" "m w = (Inr x, w') \<Longrightarrow> Q w'"
  using assms(1) [unfolded yields_def, rule_format, OF assms(2)] by simp_all

lemma yields_seq [yields_intros]:
  assumes "keeps P m" "\<And>x. yields P Q (f x)"
  shows "yields P Q (seq m f)"
  unfolding yields_def
proof (intro allI impI)
  fix w assume "P w"
  obtain r w1 where m: "m w = (r, w1)" by fastforce
  then have "P w1" using keepsD [OF assms(1) \<open>P w\<close>] by simp
  then show "case seq m f w of (Inl _, w') \<Rightarrow> P w' | (Inr _, w') \<Rightarrow> Q w'"
    using m assms(2) by (cases r) (simp_all add: seq_def yields_def)
qed

lemma yields_seq_last:
  assumes "yields P Q m"
  shows "yields P Q (seq m (\<lambda>_. ret x))"
  unfolding yields_def
proof (intro allI impI)
  fix w assume "P w"
  obtain r w1 where m: "m w = (r, w1)" by fastforce
  show "case seq m (\<lambda>_. ret x) w of (Inl _, w') \<Rightarrow> P w' | (Inr _, w') \<Rightarrow> Q w'"
    using yieldsD [OF assms \<open>P w\<close>] m by (cases r) (simp_all add: seq_def ret_def)
qed

lemma yields_except [yields_intros]:
  assumes "yields P Q m" "\<And>e. yields P Q (h e)"
  shows "yields P Q (try_except m h)"
  unfolding yields_def
proof (intro allI impI)
  fix w assume "P w"
  obtain r w1 where m: "m w = (r, w1)" by fastforce
  show "case try_except m h w of (Inl _, w') \<Rightarrow> P w' | (Inr _, w') \<Rightarrow> Q w'"
  proof (cases r)
    case (Inl e)
    with m yieldsD(1) [OF assms(1) \<open>P w\<close>] have "P w1" by simp
    then show ?thesis using assms(2) [of e] m Inl by (simp add: try_except_def yields_def)
  next
    case (Inr x)
    with m yieldsD(2) [OF assms(1) \<open>P w\<close>] show ?thesis by (simp add: try_except_def)
  qed
qed

lemma yields_if [yields_intros]: "(b \<Longrightarrow> yields P Q m) \<Longrightarrow> (\<not> b \<Longrightarrow> yields P Q n) \<Longrightarrow> yields P Q (if b then m else n)"
  by simp

lemma keeps_case_option [step_intros]:
  "keeps P m \<Longrightarrow> (\<And>x. keeps P (f x)) \<Longrightarrow> keeps P (case v of None \<Rightarrow> m | Some x \<Rightarrow> f x)"
  by (cases v) simp_all

lemma keeps_case_prod [step_intros]: "(\<And>x y. keeps P (f x y)) \<Longrightarrow> keeps P (case p of (x, y) \<Rightarrow> f x y)"
  by (cases p) simp

end
