(* ===== verification/Run_Decision.thy ===== *)
theory Run_Decision
  imports Prelude
begin

text \<open>
  The teacher's decisions on an interrupted run (\<open>app/run/decision.py\<close>): their shape, the check
  that they answer the pending calls one for one, and the reordering into the sequence the agent
  framework expects.
\<close>

datatype DecisionType = APPROVE | REJECT | EDIT | RESPOND

fun decision_type_value :: "DecisionType \<Rightarrow> string" where
  "decision_type_value APPROVE = ''approve''"
| "decision_type_value REJECT = ''reject''"
| "decision_type_value EDIT = ''edit''"
| "decision_type_value RESPOND = ''respond''"

datatype EditedAction = EditedAction (ea_name: string) (ea_args: pydict)

text \<open>\<open>index\<close> carries the constraint \<open>ge=0\<close>, so it is a natural number.\<close>

record Decision =
  index :: nat
  dtype :: DecisionType
  message :: "string option"
  edited_action :: "EditedAction option"

datatype DecisionError =
    NothingPending
  | DuplicateIndex "nat list"
  | IndexMismatch nat "nat list"
  | EditWithoutAction nat
  | RespondWithoutMessage nat

text \<open>\<open>not (one.message or "").strip()\<close>: \<open>str.strip\<close> drops Unicode blanks.\<close>

definition blank_message :: "string option \<Rightarrow> bool" where
  "blank_message m = (case m of None \<Rightarrow> True | Some s \<Rightarrow> str_strip is_unicode_space s = [])"

text \<open>The loop over the decisions: the first one that lacks its mandatory field raises.\<close>

fun check_fields :: "Decision list \<Rightarrow> DecisionError + unit" where
  "check_fields [] = Inr ()"
| "check_fields (one # rest) =
     (if dtype one = EDIT \<and> edited_action one = None then Inl (EditWithoutAction (index one))
      else if dtype one = RESPOND \<and> blank_message (message one)
        then Inl (RespondWithoutMessage (index one))
      else check_fields rest)"

definition check :: "Decision list \<Rightarrow> nat \<Rightarrow> DecisionError + unit" where
  "check decisions expected =
     (if expected = 0 then Inl NothingPending
      else let seen = map index decisions in
        if length seen \<noteq> length (remdups seen) then Inl (DuplicateIndex (sort seen))
        else if set seen \<noteq> set [0..<expected] then Inl (IndexMismatch expected (sort seen))
        else check_fields decisions)"

text \<open>One decision in the shape the framework takes.\<close>

definition one_payload :: "Decision \<Rightarrow> pydict" where
  "one_payload decision =
     (let payload = [(''type'', PStr (decision_type_value (dtype decision)))] in
      case (dtype decision = EDIT, edited_action decision) of
        (True, Some ea) \<Rightarrow>
          payload @ [(''edited_action'', PDict [(''name'', PStr (ea_name ea)), (''args'', PDict (ea_args ea))])]
      | _ \<Rightarrow> (case message decision of
               None \<Rightarrow> payload
             | Some m \<Rightarrow> payload @ [(''message'', PStr m)]))"

definition to_resume :: "Decision list \<Rightarrow> pydict list" where
  "to_resume decisions = map one_payload (sort_key index decisions)"

section \<open>Lemmas\<close>

lemma check_fields_ok_iff:
  "check_fields ds = Inr () \<longleftrightarrow>
   (\<forall>d\<in>set ds. (dtype d = EDIT \<longrightarrow> edited_action d \<noteq> None) \<and>
               (dtype d = RESPOND \<longrightarrow> \<not> blank_message (message d)))"
  by (induction ds) auto

lemma check_ok_iff:
  "check ds n = Inr () \<longleftrightarrow>
   0 < n \<and> distinct (map index ds) \<and> set (map index ds) = {0..<n} \<and> check_fields ds = Inr ()"
proof -
  have "length (map index ds) = length (remdups (map index ds)) \<longleftrightarrow> distinct (map index ds)"
    using length_remdups_eq [of "map index ds"] by auto
  then show ?thesis by (auto simp: check_def Let_def simp del: length_map)
qed

lemma sort_key_index_upt:
  assumes "distinct (map index ds)" and "set (map index ds) = {0..<n}"
  shows "map index (sort_key index ds) = [0..<n]"
proof (rule sorted_distinct_set_unique)
  show "sorted (map index (sort_key index ds))" by simp
  show "distinct (map index (sort_key index ds))"
    using assms(1) by (simp add: distinct_map)
  show "sorted [0..<n]" "distinct [0..<n]" by simp_all
  show "set (map index (sort_key index ds)) = set [0..<n]" using assms(2) by simp
qed

text \<open>Decisions that pass the check are handed to the agent in exactly the order of the pending
  calls: there is one payload per pending call, and the payload at position \<open>i\<close> is built from
  the one decision that names index \<open>i\<close>, whatever order the decisions arrived in.\<close>

theorem to_resume_aligned:
  assumes "check ds n = Inr ()"
  shows "length (to_resume ds) = n \<and>
    (\<forall>i<n. \<exists>!d. d \<in> set ds \<and> index d = i) \<and>
    (\<forall>d\<in>set ds. index d < n \<and> to_resume ds ! index d = one_payload d)"
proof -
  from assms have d: "distinct (map index ds)" and s: "set (map index ds) = {0..<n}"
    by (simp_all add: check_ok_iff)
  let ?s = "sort_key index ds"
  from d s have m: "map index ?s = [0..<n]" by (rule sort_key_index_upt)
  then have len: "length ?s = n" by (metis length_map length_upt minus_nat.diff_0)
  have at: "index d < n \<and> ?s ! index d = d" if "d \<in> set ds" for d
  proof -
    from that have "d \<in> set ?s" by simp
    then obtain j where j: "j < length ?s" "?s ! j = d" by (metis in_set_conv_nth)
    then have "index d = j" using m len
      by (metis add_0 nth_map nth_upt)
    with j len show ?thesis by simp
  qed
  have "\<exists>!d. d \<in> set ds \<and> index d = i" if "i < n" for i
  proof -
    from that s obtain x where "x \<in> set ds" "index x = i"
      by (metis atLeastLessThan_iff image_iff le0 set_map)
    with d show ?thesis by (auto simp: distinct_map dest: inj_onD)
  qed
  with at len show ?thesis by (simp add: to_resume_def)
qed

text \<open>The two decisions of the witness arrive in the wrong order.\<close>

definition example_decisions :: "Decision list" where
  "example_decisions =
     [\<lparr>index = 1, dtype = RESPOND, message = Some ''use 2024'', edited_action = None\<rparr>,
      \<lparr>index = 0, dtype = EDIT, message = None, edited_action = Some (EditedAction ''execute'' [])\<rparr>]"

theorem to_resume_aligned_witness:
  "length (to_resume example_decisions) = 2 \<and>
   to_resume example_decisions ! 0 = one_payload (example_decisions ! 1) \<and>
   to_resume example_decisions ! 1 = one_payload (example_decisions ! 0)"
proof -
  have "check example_decisions 2 = Inr ()"
    by (auto simp: check_def example_decisions_def Let_def blank_message_def str_strip_def
        is_unicode_space_def is_c_space_def)
  from to_resume_aligned [OF this] show ?thesis
    by (simp add: example_decisions_def)
qed

end
