(* ===== verification/Run_Task.thy ===== *)
theory Run_Task
  imports Run_Decision Agent_Config
begin

text \<open>
  The task message between the api and the worker (\<open>RunTask\<close> and \<open>Delivery\<close> of \<open>app/task/queue.py\<close>):
  what the queue carries and the executor consumes.
\<close>

record RunTask =
  t_run_id :: string
  t_thread_id :: string
  t_content :: string
  t_user_id :: "string option"
  t_user_context :: "UserContext option"
  t_agent_config :: AgentConfig
  t_decisions :: "Decision list option"

record Delivery =
  delivery_id :: string
  delivery_task :: RunTask

end
