(* ===== verification/Event_Mapper.thy ===== *)
theory Event_Mapper
  imports Event_Model
begin

text \<open>
  The mapping from agent stream chunks to platform events (\<open>app/event/mapper.py\<close>). A chunk is a
  namespace, a mode and a payload of any shape; the code narrows the payload with \<open>isinstance\<close>, the
  model by pattern matching on \<open>pyval\<close>. Constructing an event validates its fields, so the mapping can
  raise. The wall clock is an argument.
\<close>

definition MODEL_NODE :: string where "MODEL_NODE = ''model''"
definition TOOLS_NODE :: string where "TOOLS_NODE = ''tools''"
definition TASK_TOOL :: string where "TASK_TOOL = ''task''"
definition SUBAGENT_TYPE_ARG :: string where "SUBAGENT_TYPE_ARG = ''subagent_type''"
definition REASONING_KEY :: string where "REASONING_KEY = ''reasoning_content''"
definition SUMMARIZATION_KEY :: string where "SUMMARIZATION_KEY = ''_summarization_event''"
definition TODO_KEY :: string where "TODO_KEY = ''todos''"
definition BLOCK_HEADER :: string where "BLOCK_HEADER = ''<system-reminder>''"

record Stamp =
  st_ts :: int
  st_run_id :: string
  st_path :: "string list"

definition stamped :: "Stamp \<Rightarrow> EventData \<Rightarrow> Event" where
  "stamped s d = \<lparr>ts = st_ts s, ev_run_id = st_run_id s, path = st_path s, data = d\<rparr>"

record EventMapper =
  map_run_id :: string
  pending_subagents :: "string list"
  subagent_by_uuid :: "string \<rightharpoonup> string"
  seen_task_calls :: "string set"
  known_tool_paths :: "string \<rightharpoonup> string list"

definition new_mapper :: "string \<Rightarrow> (string \<rightharpoonup> string list) \<Rightarrow> EventMapper" where
  "new_mapper run_id known =
     \<lparr>map_run_id = run_id, pending_subagents = [], subagent_by_uuid = Map.empty, seen_task_calls = {},
      known_tool_paths = known\<rparr>"

section \<open>Python helpers\<close>

text \<open>\<open>isinstance(x, AIMessage)\<close>: a chunk is a message too.\<close>

fun as_ai :: "pyval \<Rightarrow> message option" where
  "as_ai (PMsg m) = (if msg_kind m \<in> {AIMessage, AIMessageChunk} then Some m else None)"
| "as_ai _ = None"

fun as_kind :: "msg_kind \<Rightarrow> pyval \<Rightarrow> message option" where
  "as_kind k (PMsg m) = (if msg_kind m = k then Some m else None)"
| "as_kind _ _ = None"

text \<open>\<open>hash(x)\<close>: lists, dicts and pydantic models are not hashable.\<close>

fun hashable :: "pyval \<Rightarrow> bool" where
  "hashable (PList _) = False"
| "hashable (PDict _) = False"
| "hashable (PMsg _) = False"
| "hashable (PTuple xs) = list_all hashable xs"
| "hashable _ = True"

text \<open>\<open>status in TODO_STATUS\<close> for a frozen set of strings.\<close>

definition todo_status_of :: "pyval \<Rightarrow> TodoStatus option result" where
  "todo_status_of v =
     (if \<not> hashable v then Inl TypeError
      else Inr (if v = PStr ''pending'' then Some Pending
                else if v = PStr ''in_progress'' then Some InProgress
                else if v = PStr ''completed'' then Some Completed
                else None))"

section \<open>Subagent names\<close>

text \<open>The inner loop of \<open>_remember_subagents\<close>: one tool call of a model message.\<close>

definition remember_call :: "EventMapper \<Rightarrow> tool_call \<Rightarrow> EventMapper" where
  "remember_call m call =
     (let call_id = (case tc_id call of None \<Rightarrow> [] | Some i \<Rightarrow> i) in
      case dict_get (tc_args call) SUBAGENT_TYPE_ARG of
        PStr name \<Rightarrow>
          if tc_name call \<noteq> TASK_TOOL \<or> name = [] then m
          else if call_id \<noteq> [] \<and> call_id \<in> seen_task_calls m then m
          else m\<lparr>seen_task_calls := (if call_id \<noteq> [] then insert call_id (seen_task_calls m) else seen_task_calls m),
                 pending_subagents := pending_subagents m @ [name]\<rparr>
      | _ \<Rightarrow> m)"

definition remember_message :: "EventMapper \<Rightarrow> pyval \<Rightarrow> EventMapper" where
  "remember_message m v = (case as_ai v of None \<Rightarrow> m | Some msg \<Rightarrow> foldl remember_call m (msg_calls msg))"

text \<open>The first known path among the tool messages of the updates.\<close>

definition known_path_of :: "EventMapper \<Rightarrow> pyval \<Rightarrow> string list option" where
  "known_path_of m v =
     (case as_kind ToolMessage v of
        None \<Rightarrow> None
      | Some msg \<Rightarrow>
          (case known_tool_paths m (msg_call_id msg) of
             Some (p # ps) \<Rightarrow> Some (p # ps)
           | _ \<Rightarrow> None))"

fun first_some :: "('a \<Rightarrow> 'b option) \<Rightarrow> 'a list \<Rightarrow> 'b option" where
  "first_some f [] = None"
| "first_some f (x # xs) = (case f x of None \<Rightarrow> first_some f xs | Some y \<Rightarrow> Some y)"

definition known_path_in :: "EventMapper \<Rightarrow> pyval \<Rightarrow> string list option" where
  "known_path_in m update =
     (case update of
        PDict d \<Rightarrow> (case dict_get d ''messages'' of PList ms \<Rightarrow> first_some (known_path_of m) ms | _ \<Rightarrow> None)
      | _ \<Rightarrow> None)"

definition remember_resumed_subagent :: "string list \<Rightarrow> string \<Rightarrow> pyval \<Rightarrow> EventMapper \<Rightarrow> EventMapper" where
  "remember_resumed_subagent ns mode payload m =
     (case payload of
        PDict updates \<Rightarrow>
          if mode \<noteq> ''updates'' then m
          else (case str_partition (CHR '':'') (last ns) of (node, separator, task_uuid) \<Rightarrow>
            if node \<noteq> TOOLS_NODE \<or> \<not> separator \<or> task_uuid \<in> dom (subagent_by_uuid m) then m
            else (case first_some (known_path_in m) (map snd updates) of
                    None \<Rightarrow> m
                  | Some known \<Rightarrow> m\<lparr>subagent_by_uuid := (subagent_by_uuid m)(task_uuid \<mapsto> last known)\<rparr>))
      | _ \<Rightarrow> m)"

definition remember_subagents :: "string list \<Rightarrow> string \<Rightarrow> pyval \<Rightarrow> EventMapper \<Rightarrow> EventMapper" where
  "remember_subagents ns mode payload m =
     (if ns \<noteq> [] then remember_resumed_subagent ns mode payload m
      else case payload of
        PDict updates \<Rightarrow>
          if mode \<noteq> ''updates'' then m
          else (case dict_get updates MODEL_NODE of
                  PDict update \<Rightarrow>
                    (case dict_get update ''messages'' of
                       PList messages \<Rightarrow> foldl remember_message m messages
                     | _ \<Rightarrow> m)
                | _ \<Rightarrow> m)
      | _ \<Rightarrow> m)"

text \<open>The first time a task namespace is seen it takes the oldest pending name.\<close>

definition name_segment :: "string \<Rightarrow> string \<Rightarrow> EventMapper \<Rightarrow> EventMapper" where
  "name_segment node task_uuid m =
     (if node = TOOLS_NODE \<and> task_uuid \<notin> dom (subagent_by_uuid m)
      then (case pending_subagents m of
              [] \<Rightarrow> m
            | name # rest \<Rightarrow> m\<lparr>subagent_by_uuid := (subagent_by_uuid m)(task_uuid \<mapsto> name), pending_subagents := rest\<rparr>)
      else m)"

definition segment_name :: "string \<Rightarrow> EventMapper \<Rightarrow> string" where
  "segment_name task_uuid m = (case subagent_by_uuid m task_uuid of None \<Rightarrow> take 8 task_uuid | Some name \<Rightarrow> name)"

fun map_path :: "string list \<Rightarrow> EventMapper \<Rightarrow> string list \<times> EventMapper" where
  "map_path [] m = ([], m)"
| "map_path (segment # ns) m =
     (case str_partition (CHR '':'') segment of (node, separator, task_uuid) \<Rightarrow>
        if \<not> separator then (case map_path ns m of (p, m) \<Rightarrow> (segment # p, m))
        else
          let m = name_segment node task_uuid m
          in case map_path ns m of (p, m') \<Rightarrow> (segment_name task_uuid m # p, m'))"

section \<open>Payloads\<close>

definition map_streamed :: "pyval \<Rightarrow> Stamp \<Rightarrow> Event list" where
  "map_streamed payload s =
     (case payload of
        PTuple (message # _) \<Rightarrow>
          (case as_kind AIMessageChunk message of
             None \<Rightarrow> []
           | Some m \<Rightarrow>
               (case dict_get (msg_kwargs m) REASONING_KEY of
                  PStr (c # cs) \<Rightarrow> [stamped s (ReasoningData (c # cs))]
                | _ \<Rightarrow> []) @
               (if msg_text m \<noteq> [] then [stamped s (TokenData (msg_text m))] else []))
      | _ \<Rightarrow> [])"

definition map_compaction :: "pyval \<Rightarrow> Stamp \<Rightarrow> Event list" where
  "map_compaction update s =
     (case update of
        PDict d \<Rightarrow>
          (case dict_get d SUMMARIZATION_KEY of
             PDict ev \<Rightarrow>
               (case as_python_int (dict_get ev ''cutoff_index'') of
                  None \<Rightarrow> []
                | Some index \<Rightarrow>
                    if index < 0 then []
                    else [stamped s (CompactionData index
                           (case dict_get ev ''file_path'' of PStr p \<Rightarrow> Some p | _ \<Rightarrow> None))])
           | _ \<Rightarrow> [])
      | _ \<Rightarrow> [])"

text \<open>One entry of the list of todos: skipped when its shape is unknown.\<close>

definition todo_item :: "pyval \<Rightarrow> TodoItem list result" where
  "todo_item v =
     (case v of
        PDict d \<Rightarrow>
          (case dict_get d ''content'' of
             PStr content \<Rightarrow>
               result_bind (todo_status_of (dict_get d ''status'')) (\<lambda>status.
                 Inr (case status of None \<Rightarrow> [] | Some st \<Rightarrow> [TodoItem content st]))
           | _ \<Rightarrow> Inr [])
      | _ \<Rightarrow> Inr [])"

text \<open>Running a fallible function over a list and concatenating, stopping at the first exception.\<close>

fun concat_map_result :: "('a \<Rightarrow> 'b list result) \<Rightarrow> 'a list \<Rightarrow> 'b list result" where
  "concat_map_result f [] = Inr []"
| "concat_map_result f (x # xs) =
     result_bind (f x) (\<lambda>ys. result_bind (concat_map_result f xs) (\<lambda>zs. Inr (ys @ zs)))"

definition map_todos :: "pyval \<Rightarrow> Stamp \<Rightarrow> Event list result" where
  "map_todos update s =
     (case update of
        PDict d \<Rightarrow>
          (case map_of d TODO_KEY of
             Some (PList todos) \<Rightarrow>
               result_bind (concat_map_result todo_item todos) (\<lambda>items.
                 Inr [stamped s (TodoUpdatedData items)])
           | _ \<Rightarrow> Inr [])
      | _ \<Rightarrow> Inr [])"

text \<open>\<open>ToolCallData\<close> requires a name.\<close>

definition tool_call_event :: "Stamp \<Rightarrow> tool_call \<Rightarrow> Event list result" where
  "tool_call_event s call =
     (if tc_name call = [] then Inl ValidationError
      else Inr [stamped s (ToolCallData (case tc_id call of None \<Rightarrow> [] | Some i \<Rightarrow> i) (tc_name call) (tc_args call))])"

definition map_tool_call :: "Stamp \<Rightarrow> pyval \<Rightarrow> Event list result" where
  "map_tool_call s v =
     (if (case as_kind HumanMessage v of Some m \<Rightarrow> prefix BLOCK_HEADER (msg_text m) | None \<Rightarrow> False) then Inr []
      else case as_ai v of
             None \<Rightarrow> Inr []
           | Some m \<Rightarrow> concat_map_result (tool_call_event s) (msg_calls m))"

text \<open>\<open>ToolMessage.status\<close> is one of two literals.\<close>

definition tool_status :: "string \<Rightarrow> ToolStatus result" where
  "tool_status st =
     (if st = ''success'' then Inr ToolSuccess else if st = ''error'' then Inr ToolError else Inl ValidationError)"

definition map_tool_result :: "Stamp \<Rightarrow> pyval \<Rightarrow> Event list result" where
  "map_tool_result s v =
     (case as_kind ToolMessage v of
        None \<Rightarrow> Inr []
      | Some m \<Rightarrow>
          result_bind (tool_status (msg_status m)) (\<lambda>st.
            Inr [stamped s (ToolResultData (msg_call_id m) (case msg_name m of None \<Rightarrow> [] | Some n \<Rightarrow> n) (msg_text m) st)]))"

definition map_node :: "string \<Rightarrow> pyval \<Rightarrow> Stamp \<Rightarrow> Event list result" where
  "map_node node update s =
     (case update of
        PDict d \<Rightarrow>
          (case map_of d ''messages'' of
             Some (PList messages) \<Rightarrow>
               if node = MODEL_NODE then concat_map_result (map_tool_call s) messages
               else if node = TOOLS_NODE then concat_map_result (map_tool_result s) messages
               else Inr []
           | _ \<Rightarrow> Inr [])
      | _ \<Rightarrow> Inr [])"

definition map_one_update :: "Stamp \<Rightarrow> string \<times> pyval \<Rightarrow> Event list result" where
  "map_one_update s item =
     (case item of (node, update) \<Rightarrow>
        if update = PNone then Inr []
        else result_bind (map_todos update s) (\<lambda>todos.
          let traces = map_compaction update s @ todos in
          if traces \<noteq> [] \<and> (case update of PDict d \<Rightarrow> map_of d ''messages'' = None | _ \<Rightarrow> False) then Inr traces
          else result_bind (map_node node update s) (\<lambda>events. Inr (traces @ events))))"

definition map_update :: "pyval \<Rightarrow> Stamp \<Rightarrow> Event list result" where
  "map_update payload s =
     (case payload of
        PDict updates \<Rightarrow> concat_map_result (map_one_update s) updates
      | _ \<Rightarrow> Inr [])"

definition map_chunk :: "int \<Rightarrow> string list \<Rightarrow> string \<Rightarrow> pyval \<Rightarrow> EventMapper \<Rightarrow> Event list result \<times> EventMapper" where
  "map_chunk now ns mode payload m =
     (case map_path ns (remember_subagents ns mode payload m) of
        (p, m) \<Rightarrow>
          let s = \<lparr>st_ts = now, st_run_id = map_run_id m, st_path = p\<rparr> in
          (if mode = ''messages'' then Inr (map_streamed payload s)
           else if mode = ''updates'' then map_update payload s
           else Inr [],
           m))"

section \<open>What a chunk can produce\<close>

text \<open>The kinds of event each mode is translated to.\<close>

definition mapped_types :: "string \<Rightarrow> EventType set" where
  "mapped_types mode =
     (if mode = ''messages'' then {REASONING, TOKEN}
      else if mode = ''updates'' then {COMPACTION, TODO_UPDATED, TOOL_CALL, TOOL_RESULT}
      else {})"

definition stamped_as :: "Stamp \<Rightarrow> string \<Rightarrow> Event list \<Rightarrow> bool" where
  "stamped_as s mode evs \<longleftrightarrow> (\<forall>e \<in> set evs. \<exists>d. e = stamped s d \<and> data_type d \<in> mapped_types mode)"

lemma stamped_eq_iff [simp]: "stamped s d = stamped s d' \<longleftrightarrow> d = d'"
  by (simp add: stamped_def)

lemma stamped_as_simps [simp]:
  "stamped_as s mode []" "stamped_as s mode (xs @ ys) \<longleftrightarrow> stamped_as s mode xs \<and> stamped_as s mode ys"
  "stamped_as s mode (x # xs) \<longleftrightarrow> (\<exists>d. x = stamped s d \<and> data_type d \<in> mapped_types mode) \<and> stamped_as s mode xs"
  by (auto simp: stamped_as_def)

lemma concat_map_result_all:
  assumes "concat_map_result f xs = Inr ys" "\<And>x zs. x \<in> set xs \<Longrightarrow> f x = Inr zs \<Longrightarrow> stamped_as s mode zs"
  shows "stamped_as s mode ys"
  using assms
proof (induction xs arbitrary: ys)
  case (Cons x xs)
  then obtain y zs where "f x = Inr y" "concat_map_result f xs = Inr zs" "ys = y @ zs"
    by (auto simp: result_bind_Inr_iff)
  moreover have "stamped_as s mode y" using Cons.prems(2) [of x y] \<open>f x = Inr y\<close> by simp
  moreover have "stamped_as s mode zs"
    by (rule Cons.IH [OF \<open>concat_map_result f xs = Inr zs\<close>], rule Cons.prems(2)) simp_all
  ultimately show ?case by simp
qed simp

lemma map_streamed_stamped: "stamped_as s ''messages'' (map_streamed payload s)"
  by (auto simp: map_streamed_def mapped_types_def split: pyval.splits list.splits option.splits)

lemma map_compaction_stamped: "stamped_as s ''updates'' (map_compaction update s)"
  by (auto simp: map_compaction_def mapped_types_def split: pyval.splits option.splits)

lemma map_todos_stamped: "map_todos update s = Inr evs \<Longrightarrow> stamped_as s ''updates'' evs"
  by (auto simp: map_todos_def result_bind_Inr_iff mapped_types_def split: pyval.splits option.splits)

lemma map_node_stamped:
  assumes "map_node node update s = Inr evs"
  shows "stamped_as s ''updates'' evs"
proof -
  have call: "stamped_as s ''updates'' zs" if "tool_call_event s c = Inr zs" for c zs
    using that by (auto simp: tool_call_event_def mapped_types_def split: if_splits)
  have "stamped_as s ''updates'' zs" if "map_tool_call s v = Inr zs" for v zs
    using that by (auto simp: map_tool_call_def split: if_splits option.splits elim!: concat_map_result_all intro: call)
  moreover have "stamped_as s ''updates'' zs" if "map_tool_result s v = Inr zs" for v zs
    using that by (auto simp: map_tool_result_def result_bind_Inr_iff mapped_types_def split: option.splits)
  ultimately show ?thesis
    using assms by (auto simp: map_node_def split: pyval.splits option.splits if_splits elim!: concat_map_result_all)
qed

lemma map_update_stamped:
  assumes "map_update payload s = Inr evs"
  shows "stamped_as s ''updates'' evs"
proof -
  have "stamped_as s ''updates'' zs" if "map_one_update s item = Inr zs" for item zs
    using that
    by (auto simp: map_one_update_def result_bind_Inr_iff Let_def map_compaction_stamped
        intro: map_todos_stamped map_node_stamped split: prod.splits if_splits)
  then show ?thesis
    using assms by (auto simp: map_update_def split: pyval.splits elim!: concat_map_result_all)
qed

section \<open>When the mapping raises\<close>

text \<open>The two shapes that make it raise: a tool call without a name, and a todo whose status is not
  hashable; and a tool message whose status is not one of the two literals of its type.\<close>

definition good_message :: "pyval \<Rightarrow> bool" where
  "good_message v \<longleftrightarrow>
     (case as_ai v of None \<Rightarrow> True | Some m \<Rightarrow> list_all (\<lambda>c. tc_name c \<noteq> []) (msg_calls m)) \<and>
     (case as_kind ToolMessage v of None \<Rightarrow> True | Some m \<Rightarrow> msg_status m \<in> {''success'', ''error''})"

definition good_todo :: "pyval \<Rightarrow> bool" where
  "good_todo v \<longleftrightarrow> (case v of PDict d \<Rightarrow> hashable (dict_get d ''status'') | _ \<Rightarrow> True)"

definition good_update :: "pyval \<Rightarrow> bool" where
  "good_update update \<longleftrightarrow>
     (case update of
        PDict d \<Rightarrow>
          (case map_of d ''messages'' of Some (PList ms) \<Rightarrow> list_all good_message ms | _ \<Rightarrow> True) \<and>
          (case map_of d TODO_KEY of Some (PList items) \<Rightarrow> list_all good_todo items | _ \<Rightarrow> True)
      | _ \<Rightarrow> True)"

definition good_payload :: "pyval \<Rightarrow> bool" where
  "good_payload payload \<longleftrightarrow> (case payload of PDict us \<Rightarrow> list_all (good_update \<circ> snd) us | _ \<Rightarrow> True)"

lemma concat_map_result_total: "(\<And>x. x \<in> set xs \<Longrightarrow> \<exists>y. f x = Inr y) \<Longrightarrow> \<exists>ys. concat_map_result f xs = Inr ys"
proof (induction xs)
  case (Cons x xs)
  then obtain y ys where "f x = Inr y" "concat_map_result f xs = Inr ys" by (meson list.set_intros)
  then show ?case by simp
qed simp

lemma map_todos_total: "good_update update \<Longrightarrow> \<exists>evs. map_todos update s = Inr evs"
proof -
  have item: "\<exists>y. todo_item v = Inr y" if "good_todo v" for v
    using that by (auto simp: todo_item_def good_todo_def todo_status_of_def split: pyval.splits)
  assume good: "good_update update"
  have "\<exists>evs. map_todos (PDict d) s = Inr evs" if "update = PDict d" "map_of d TODO_KEY = Some (PList items)" for d items
  proof -
    have "\<exists>ys. concat_map_result todo_item items = Inr ys"
      using good that item by (intro concat_map_result_total) (auto simp: good_update_def list_all_iff split: option.splits pyval.splits)
    with that show ?thesis by (auto simp: map_todos_def)
  qed
  then show ?thesis by (auto simp: map_todos_def split: pyval.splits option.splits)
qed

lemma map_node_total:
  assumes good: "good_update update"
  shows "\<exists>evs. map_node node update s = Inr evs"
proof -
  have call: "\<exists>y. map_tool_call s v = Inr y" if "good_message v" for v
    using that
    by (auto simp: map_tool_call_def good_message_def tool_call_event_def list_all_iff split: option.splits
        intro!: concat_map_result_total)
  have result: "\<exists>y. map_tool_result s v = Inr y" if "good_message v" for v
    using that by (auto simp: map_tool_result_def good_message_def tool_status_def split: option.splits)
  have "\<exists>ys. concat_map_result (map_tool_call s) ms = Inr ys" "\<exists>ys. concat_map_result (map_tool_result s) ms = Inr ys"
    if "update = PDict d" "map_of d ''messages'' = Some (PList ms)" for d ms
    using good that call result
    by (auto intro!: concat_map_result_total simp: good_update_def list_all_iff split: option.splits pyval.splits)
  then show ?thesis by (auto simp: map_node_def split: pyval.splits option.splits)
qed

lemma map_update_total:
  assumes "good_payload payload"
  shows "\<exists>evs. map_update payload s = Inr evs"
proof -
  have one: "\<exists>y. map_one_update s item = Inr y" if "good_update (snd item)" for item
    using map_todos_total [OF that, of s] map_node_total [OF that, of "fst item" s]
    by (cases item) (auto simp: map_one_update_def Let_def)
  have "\<exists>ys. concat_map_result (map_one_update s) us = Inr ys" if "payload = PDict us" for us
    using assms that one by (intro concat_map_result_total) (auto simp: good_payload_def list_all_iff)
  then show ?thesis by (auto simp: map_update_def split: pyval.splits)
qed

section \<open>Names are stable\<close>

lemma remember_call_names [simp]: "subagent_by_uuid (remember_call m c) = subagent_by_uuid m"
  "map_run_id (remember_call m c) = map_run_id m"
  by (simp_all add: remember_call_def Let_def split: pyval.splits)

lemma remember_calls_names [simp]: "subagent_by_uuid (foldl remember_call m cs) = subagent_by_uuid m"
  "map_run_id (foldl remember_call m cs) = map_run_id m"
  by (induction cs arbitrary: m) simp_all

lemma remember_messages_names [simp]: "subagent_by_uuid (foldl remember_message m vs) = subagent_by_uuid m"
  "map_run_id (foldl remember_message m vs) = map_run_id m"
  by (induction vs arbitrary: m) (simp_all add: remember_message_def split: option.splits)

lemma remember_subagents_keeps:
  "subagent_by_uuid m \<subseteq>\<^sub>m subagent_by_uuid (remember_subagents ns mode payload m) \<and>
   map_run_id (remember_subagents ns mode payload m) = map_run_id m"
  by (auto simp: remember_subagents_def remember_resumed_subagent_def map_le_def
      split: pyval.splits prod.splits option.splits)

lemma map_le_SomeD: "f \<subseteq>\<^sub>m g \<Longrightarrow> f x = Some y \<Longrightarrow> g x = Some y"
  by (metis domI map_le_def)

lemma name_segment_keeps:
  "subagent_by_uuid m \<subseteq>\<^sub>m subagent_by_uuid (name_segment node u m) \<and> map_run_id (name_segment node u m) = map_run_id m"
  by (auto simp: name_segment_def map_le_def split: list.splits)

lemma map_path_keeps:
  "map_path ns m = (p, m') \<Longrightarrow> subagent_by_uuid m \<subseteq>\<^sub>m subagent_by_uuid m' \<and> map_run_id m' = map_run_id m"
proof (induction ns arbitrary: m p m')
  case (Cons seg ns)
  obtain m1 q where m1: "map_path ns m1 = (q, m')" "subagent_by_uuid m \<subseteq>\<^sub>m subagent_by_uuid m1" "map_run_id m1 = map_run_id m"
    using Cons.prems name_segment_keeps [of m] by (auto simp: Let_def split: prod.splits if_splits)
  then show ?case using Cons.IH [OF m1(1)] by (auto intro: map_le_trans)
qed simp

lemma map_path_name:
  assumes "map_path ns m = (p, m')" "i < length ns" "str_partition (CHR '':'') (ns ! i) = (node, True, u)"
    and "subagent_by_uuid m u = Some name"
  shows "p ! i = name"
  using assms
proof (induction ns arbitrary: m p i)
  case (Cons seg ns)
  obtain nd sep v where seg: "str_partition (CHR '':'') seg = (nd, sep, v)" by (cases "str_partition (CHR '':'') seg")
  define m1 where "m1 = (if sep then name_segment nd v m else m)"
  obtain q where q: "map_path ns m1 = (q, m')" "p = (if sep then segment_name v m1 else seg) # q"
    using Cons.prems(1) seg by (auto simp: m1_def Let_def split: prod.splits if_splits)
  have le: "subagent_by_uuid m1 u = Some name"
    using name_segment_keeps [of m nd v] Cons.prems(4) by (auto simp: m1_def dest: map_le_SomeD)
  show ?case
  proof (cases i)
    case 0
    then show ?thesis using Cons.prems(3) seg q le by (simp add: segment_name_def)
  next
    case (Suc j)
    then show ?thesis using Cons.IH [OF q(1), of j] q le Cons.prems by simp
  qed
qed simp

lemma map_chunk_stamped:
  assumes "map_chunk now ns mode payload m = (Inr evs, m')"
  shows "\<exists>p. stamped_as \<lparr>st_ts = now, st_run_id = map_run_id m, st_path = p\<rparr> mode evs"
proof -
  obtain p where path: "map_path ns (remember_subagents ns mode payload m) = (p, m')"
    using assms by (auto simp: map_chunk_def Let_def split: prod.splits)
  have run: "map_run_id m' = map_run_id m"
    using map_path_keeps [OF path] remember_subagents_keeps [of m ns mode payload] by simp
  let ?s = "\<lparr>st_ts = now, st_run_id = map_run_id m, st_path = p\<rparr>"
  have "stamped_as ?s mode evs"
    using assms path run map_streamed_stamped [of ?s payload] map_update_stamped [of payload ?s evs]
    by (auto simp: map_chunk_def Let_def split: if_splits)
  then show ?thesis by blast
qed

lemma mapped_not_terminal: "mapped_types mode \<inter> TERMINAL_EVENT_TYPE = {}"
  by (auto simp: mapped_types_def TERMINAL_EVENT_TYPE_def)

lemma map_chunk_not_terminal:
  "map_chunk now ns mode payload m = (Inr evs, m') \<Longrightarrow> e \<in> set evs \<Longrightarrow> \<not> is_terminal_event e"
  using map_chunk_stamped [of now ns mode payload m evs m'] mapped_not_terminal [of mode]
  by (fastforce simp: stamped_as_def stamped_def is_terminal_event_def event_type_def)

section \<open>Properties\<close>

text \<open>C36. Everything a chunk is translated to belongs to the run of the mapper, has one
  time and one path, and is of a kind that belongs to the chunk's mode; in particular a chunk never
  becomes an event that starts, suspends or ends a run.\<close>

theorem map_chunk_events:
  assumes "map_chunk now ns mode payload m = (Inr evs, m')"
  shows "\<exists>p. \<forall>e \<in> set evs. ev_run_id e = map_run_id m \<and> ts e = now \<and> path e = p \<and>
    event_type e \<in> mapped_types mode \<and> \<not> is_terminal_event e"
proof -
  obtain p where "stamped_as \<lparr>st_ts = now, st_run_id = map_run_id m, st_path = p\<rparr> mode evs"
    using map_chunk_stamped [OF assms] by blast
  then show ?thesis
    using map_chunk_not_terminal [OF assms]
    by (intro exI [of _ p]) (fastforce simp: stamped_as_def stamped_def event_type_def)
qed

definition example_call :: message where
  "example_call = Message AIMessage [] [] [ToolCall (Some ''c1'') ''task'' [(''subagent_type'', PStr ''coder'')]] PNone [] None []"

definition example_update :: pyval where
  "example_update = PDict [(''model'', PDict [(''messages'', PList [PMsg example_call])])]"

lemma example_update_mapped:
  "map_chunk 9 [] ''updates'' example_update (new_mapper ''r'' Map.empty) =
     (Inr [\<lparr>ts = 9, ev_run_id = ''r'', path = [], data = ToolCallData ''c1'' ''task'' [(''subagent_type'', PStr ''coder'')]\<rparr>],
      (new_mapper ''r'' Map.empty)\<lparr>pending_subagents := [''coder''], seen_task_calls := {''c1''}\<rparr>)"
  by (simp add: map_chunk_def example_update_def example_call_def new_mapper_def remember_subagents_def dict_get_def
      MODEL_NODE_def remember_message_def remember_call_def SUBAGENT_TYPE_ARG_def TASK_TOOL_def map_update_def
      map_one_update_def map_compaction_def map_todos_def map_node_def map_tool_call_def tool_call_event_def
      SUMMARIZATION_KEY_def TODO_KEY_def stamped_def)

theorem map_chunk_events_witness:
  "\<exists>e m'. map_chunk 9 [] ''updates'' example_update (new_mapper ''r'' Map.empty) = (Inr [e], m') \<and>
     ev_run_id e = ''r'' \<and> ts e = 9 \<and> event_type e \<in> mapped_types ''updates'' \<and> \<not> is_terminal_event e"
  using map_chunk_events [OF example_update_mapped] example_update_mapped by (simp add: new_mapper_def)

fun map_chunks :: "(int \<times> string list \<times> string \<times> pyval) list \<Rightarrow> EventMapper \<Rightarrow> EventMapper" where
  "map_chunks [] m = m"
| "map_chunks ((now, ns, mode, payload) # cs) m = map_chunks cs (snd (map_chunk now ns mode payload m))"

lemma map_chunks_keeps: "subagent_by_uuid m \<subseteq>\<^sub>m subagent_by_uuid (map_chunks cs m)"
proof (induction cs m rule: map_chunks.induct)
  case (2 now ns mode payload cs m)
  have "subagent_by_uuid m \<subseteq>\<^sub>m subagent_by_uuid (snd (map_chunk now ns mode payload m))"
    using map_path_keeps [of ns "remember_subagents ns mode payload m"] remember_subagents_keeps [of m ns mode payload]
    by (auto simp: map_chunk_def Let_def split: prod.splits intro: map_le_trans)
  with 2 show ?case by (auto intro: map_le_trans)
qed simp

text \<open>A subagent keeps its name: once a task namespace has a name, every later chunk inside it
  carries that name at its place of the path, whatever chunks come in between.\<close>

theorem subagent_name_stable:
  assumes "subagent_by_uuid m u = Some name" "i < length ns"
    and "str_partition (CHR '':'') (ns ! i) = (node, True, u)"
    and "map_chunk now ns mode payload (map_chunks cs m) = (Inr evs, m')"
  shows "\<forall>e \<in> set evs. path e ! i = name"
proof -
  let ?m = "remember_subagents ns mode payload (map_chunks cs m)"
  obtain p where path: "map_path ns ?m = (p, m')"
    using assms(4) by (auto simp: map_chunk_def Let_def split: prod.splits)
  have "subagent_by_uuid ?m u = Some name"
    using assms(1) map_chunks_keeps [of m cs] remember_subagents_keeps [of "map_chunks cs m" ns mode payload]
    by (blast dest: map_le_SomeD)
  then have "p ! i = name" by (rule map_path_name [OF path assms(2,3)])
  moreover have "stamped_as \<lparr>st_ts = now, st_run_id = map_run_id m', st_path = p\<rparr> mode evs"
    using assms(4) path map_streamed_stamped map_update_stamped
    by (auto simp: map_chunk_def Let_def split: if_splits)
  ultimately show ?thesis by (auto simp: stamped_as_def stamped_def)
qed

definition example_inner :: pyval where
  "example_inner = PTuple [PMsg (Message AIMessageChunk ''hello'' [] [] PNone [] None [])]"

lemma example_inner_mapped:
  "map_chunk 10 [''tools:u1''] ''messages'' example_inner
     ((new_mapper ''r'' Map.empty)\<lparr>subagent_by_uuid := [''u1'' \<mapsto> ''coder'']\<rparr>) =
   (Inr [\<lparr>ts = 10, ev_run_id = ''r'', path = [''coder''], data = TokenData ''hello''\<rparr>],
    (new_mapper ''r'' Map.empty)\<lparr>subagent_by_uuid := [''u1'' \<mapsto> ''coder'']\<rparr>)"
  by (simp add: map_chunk_def example_inner_def new_mapper_def remember_subagents_def remember_resumed_subagent_def
      name_segment_def segment_name_def map_streamed_def dict_get_def stamped_def)

theorem subagent_name_stable_witness:
  "path \<lparr>ts = 10, ev_run_id = ''r'', path = [''coder''], data = TokenData ''hello''\<rparr> ! 0 = ''coder''"
  using subagent_name_stable [of "(new_mapper ''r'' Map.empty)\<lparr>subagent_by_uuid := [''u1'' \<mapsto> ''coder'']\<rparr>" "''u1''" "''coder''"
      0 "[''tools:u1'']" "''tools''" 10 "''messages''" example_inner "[]", simplified map_chunks.simps, OF _ _ _ example_inner_mapped]
  by simp

text \<open>The mapping does not raise on any payload, whatever its shape, in which tool calls have a
  name, todo statuses are hashable and tool messages have one of their two statuses.\<close>

theorem map_chunk_total:
  assumes "good_payload payload"
  shows "\<exists>evs m'. map_chunk now ns mode payload m = (Inr evs, m')"
  using map_update_total [OF assms] by (auto simp: map_chunk_def Let_def split: prod.splits)

theorem map_chunk_total_witness:
  "\<exists>evs m'. map_chunk 9 [] ''updates'' example_update (new_mapper ''r'' Map.empty) = (Inr evs, m')"
  by (rule map_chunk_total)
    (simp add: good_payload_def example_update_def example_call_def good_update_def good_message_def TODO_KEY_def)

text \<open>A todo whose status is a list makes the mapping raise \<open>TypeError\<close>, and a tool call with an empty
  name makes it raise a validation error, although an unknown shape is meant to be skipped with a warning: the
  exception ends the run.\<close>

theorem map_chunk_raises:
  "fst (map_chunk 9 [] ''updates'' (PDict [(''tools'', PDict [(''todos'',
      PList [PDict [(''content'', PStr ''x''), (''status'', PList [])]])])]) m) = Inl TypeError \<and>
   fst (map_chunk 9 [] ''updates'' (PDict [(''model'', PDict [(''messages'',
      PList [PMsg (Message AIMessage [] [] [ToolCall None [] []] PNone [] None [])])])]) m) = Inl ValidationError"
  by (simp add: map_chunk_def Let_def map_update_def map_one_update_def map_todos_def map_compaction_def todo_item_def
      todo_status_of_def dict_get_def TODO_KEY_def SUMMARIZATION_KEY_def map_node_def MODEL_NODE_def map_tool_call_def
      tool_call_event_def split: prod.splits)

end
