(* ===== verification/Run_Executor.thy ===== *)
theory Run_Executor
  imports Memory_Job Programs Run_Task Event_Mapper
begin

text \<open>
  The run executor (\<open>app/run/executor.py\<close>): one task becomes a sequence of events and state changes. The
  code is translated into functions on a \<open>World\<close> that return a result or an exception; \<open>await\<close> is the
  only place where anything else runs. What the api, the reaper, other workers and failing services do
  meanwhile is the schedule \<open>sched\<close> of the world: one list of actions per await, in any order and
  number. The event log is the sequence of appended events (\<open>Event_Log\<close> shows that reading returns it); the
  agent, the sandbox pool, the skill store and the clock are parameters.
\<close>

section \<open>The world and its schedule\<close>

text \<open>The calls of the sandbox pool an execution makes, by thread and holder, with how each ended. An acquire that raises
  also says whether the broker grants the sandbox all the same, as it does when the response stream breaks after the grant.\<close>

datatype pool_call =
    Acquired string string
  | Acquire_failed string string bool
  | Released string string
  | Release_failed string string

text \<open>What can happen at an await: somebody raises a cancel flag, issues a repository call, appends
  the terminal event it owes after winning such a call, appends an event that ends nothing, time
  passes, or the awaited service fails.\<close>

datatype env_act =
    Raise_flag string
  | Repo_call repo_op
  | Pay
  | Foreign Event
  | Tick int
  | Fault exn

record World =
  db :: Db
  journal :: "Event list"
  flags :: "string set"
  pool_calls :: "pool_call list"
  usage_ledger :: "int MemoryUsage list"
  outbox :: "RunTask list"
  owed :: "Event list"
  clock :: int
  fault :: "exn option"
  sched :: "env_act list list"

text \<open>The event another process appends after a repository call of its own ended a run.\<close>

fun op_event :: "int \<Rightarrow> repo_op \<Rightarrow> Event list" where
  "op_event now (OpSucceed i t _ _) = [\<lparr>ts = now, ev_run_id = i, path = [], data = RunFinishedData t\<rparr>]"
| "op_event now (OpFail i c m _) = [\<lparr>ts = now, ev_run_id = i, path = [], data = RunFailedData c m False\<rparr>]"
| "op_event now (OpCancel i t _) =
     [\<lparr>ts = now, ev_run_id = i, path = [], data = RunCancelledData (case t of None \<Rightarrow> 0 | Some t \<Rightarrow> t)\<rparr>]"
| "op_event now _ = []"

fun env_step :: "World \<Rightarrow> env_act \<Rightarrow> World" where
  "env_step w (Raise_flag i) = w\<lparr>flags := insert i (flags w)\<rparr>"
| "env_step w (Repo_call x) =
     (case repo_step x (db w) of (b, d) \<Rightarrow>
        w\<lparr>db := d, owed := owed w @ (if b then op_event (clock w) x else [])\<rparr>)"
| "env_step w Pay = (case owed w of [] \<Rightarrow> w | e # es \<Rightarrow> w\<lparr>journal := journal w @ [e], owed := es\<rparr>)"
| "env_step w (Foreign e) = (if is_terminal_event e then w else w\<lparr>journal := journal w @ [e]\<rparr>)"
| "env_step w (Tick d) = w\<lparr>clock := clock w + \<bar>d\<bar>\<rparr>"
| "env_step w (Fault e) = w\<lparr>fault := Some e\<rparr>"

section \<open>Programs\<close>

type_synonym 'a prog = "(World, 'a) program"

text \<open>\<open>await op\<close>: the next list of the schedule runs first; if the service failed meanwhile, the
  operation raises and has no effect.\<close>

definition await :: "'a prog \<Rightarrow> 'a prog" where
  "await m w =
     (let w = (case sched w of [] \<Rightarrow> w | acts # rest \<Rightarrow> foldl env_step (w\<lparr>sched := rest\<rparr>) acts) in
      case fault w of
        Some e \<Rightarrow> (Inl e, w\<lparr>fault := None\<rparr>)
      | None \<Rightarrow> m w)"

section \<open>Services\<close>

record MemorySnapshot =
  ms_records :: nat
  ms_selected_indices :: nat
  ms_selected_slugs :: "string list"
  ms_fallback :: "string option"
  ms_selector_usage :: TokenUsage
  ms_selector_duration :: nat

record AgentSnapshot =
  actions :: "InterruptAction list"
  messages :: "(string \<times> string) list list"
  memory :: "MemorySnapshot option"

text \<open>What the agent's stream delivers: chunks, and calls of the usage callback in between.\<close>

datatype stream_item = Chunk "string list" string pyval | Selector_usage TokenUsage

text \<open>The collaborators given to the constructor. \<open>pool_acquire\<close> gives the queue positions announced, whether the
  broker grants the sandbox to this holder when the call raises, and the exception it raises, if any; \<open>stream\<close> and
  \<open>resume_stream\<close> the items of the stream and the exception it ends with, if any.\<close>

record Services =
  thread_guard :: "(string \<Rightarrow> string \<Rightarrow> bool) option"
  pool_acquire :: "string \<Rightarrow> string \<Rightarrow> int list \<times> bool \<times> exn option"
  align :: "string \<Rightarrow> SkillReference list \<Rightarrow> unit result"
  stream :: "RunTask \<Rightarrow> stream_item list \<times> exn option"
  resume_stream :: "RunTask \<Rightarrow> pydict list \<Rightarrow> stream_item list \<times> exn option"
  inspect :: "RunTask \<Rightarrow> AgentSnapshot result"
  selector_ledger :: "(string \<times> (string \<Rightarrow> TokenUsage \<Rightarrow> int)) option"

text \<open>\<open>str(exc)\<close>, as far as the exceptions of the model carry a text.\<close>

fun exn_text :: "exn \<Rightarrow> string" where
  "exn_text (GraphRecursionError s) = s"
| "exn_text (SandboxQueueTimeoutError s) = s"
| "exn_text (OtherError s) = s"
| "exn_text _ = []"

section \<open>Events and final states\<close>

definition emit :: "Event \<Rightarrow> unit prog" where
  "emit e = await (\<lambda>w. (Inr (), w\<lparr>journal := journal w @ [e]\<rparr>))"

text \<open>\<open>now_ms()\<close> is read when the event is built, before the append is awaited.\<close>

definition emit_now :: "string \<Rightarrow> string list \<Rightarrow> EventData \<Rightarrow> unit prog" where
  "emit_now run_id p d w = emit \<lparr>ts = clock w, ev_run_id = run_id, path = p, data = d\<rparr> w"

definition is_raised :: "string \<Rightarrow> bool prog" where
  "is_raised run_id = await (\<lambda>w. (Inr (run_id \<in> flags w), w))"

definition repo_cancel :: "string \<Rightarrow> TokenUsage \<Rightarrow> bool prog" where
  "repo_cancel run_id tokens = await (\<lambda>w. case cancel run_id (Some tokens) (clock w) (db w) of (b, d) \<Rightarrow> (Inr b, w\<lparr>db := d\<rparr>))"

definition repo_fail :: "string \<Rightarrow> RunErrorCode \<Rightarrow> string \<Rightarrow> bool prog" where
  "repo_fail run_id code msg = await (\<lambda>w. case Run_Repository.fail run_id code msg (clock w) (db w) of (b, d) \<Rightarrow> (Inr b, w\<lparr>db := d\<rparr>))"

definition repo_start :: "string \<Rightarrow> RunStart prog" where
  "repo_start run_id = await (\<lambda>w. case start run_id (db w) of (s, d) \<Rightarrow> (Inr s, w\<lparr>db := d\<rparr>))"

definition repo_wait_approval :: "string \<Rightarrow> TokenUsage \<Rightarrow> bool prog" where
  "repo_wait_approval run_id tokens = await (\<lambda>w. case wait_approval run_id tokens (db w) of (b, d) \<Rightarrow> (Inr b, w\<lparr>db := d\<rparr>))"

definition repo_succeed :: "string \<Rightarrow> TokenUsage \<Rightarrow> MemoryJobPayload option \<Rightarrow> bool prog" where
  "repo_succeed run_id tokens mj =
     await (\<lambda>w. case succeed run_id tokens mj (clock w) (db w) of Inl e \<Rightarrow> (Inl e, w) | Inr (b, d) \<Rightarrow> (Inr b, w\<lparr>db := d\<rparr>))"

text \<open>\<open>log.read(run_id)\<close>: the events appended for the run.\<close>

definition log_read :: "string \<Rightarrow> Event list prog" where
  "log_read run_id = await (\<lambda>w. (Inr (filter (\<lambda>e. ev_run_id e = run_id) (journal w)), w))"

definition stop_run :: "string \<Rightarrow> TokenUsage \<Rightarrow> unit prog" where
  "stop_run run_id tokens =
     seq (repo_cancel run_id tokens) (\<lambda>done.
       if done then emit_now run_id [] (RunCancelledData tokens) else ret ())"

definition fail_run :: "string \<Rightarrow> RunErrorCode \<Rightarrow> string \<Rightarrow> bool \<Rightarrow> unit prog" where
  "fail_run run_id code msg retryable =
     (let text = (if msg = [] then error_code_value code else msg) in
      seq (repo_fail run_id code text) (\<lambda>done.
        if done then emit_now run_id [] (RunFailedData code text retryable) else ret ()))"

section \<open>Token usage of a chunk\<close>

definition UPDATES_MODE :: string where "UPDATES_MODE = ''updates''"

definition as_int :: "pyval \<Rightarrow> int" where
  "as_int v = (case as_python_int v of None \<Rightarrow> 0 | Some i \<Rightarrow> i)"

definition split_usage :: "pydict \<Rightarrow> TokenUsage result" where
  "split_usage usage =
     (let cache_read = (case dict_get usage ''input_token_details'' of
                          PDict detail \<Rightarrow> as_int (dict_get detail ''cache_read'')
                        | _ \<Rightarrow> 0);
          input_total = as_int (dict_get usage ''input_tokens'')
      in mk_token_usage cache_read (max 0 (input_total - cache_read)) (as_int (dict_get usage ''output_tokens'')))"

text \<open>\<open>getattr(one, "usage_metadata", None)\<close>: only messages have the attribute.\<close>

fun usage_metadata :: "pyval \<Rightarrow> pyval" where
  "usage_metadata (PMsg m) = msg_usage m"
| "usage_metadata _ = PNone"

fun sum_usage :: "TokenUsage \<Rightarrow> pyval list \<Rightarrow> TokenUsage result" where
  "sum_usage acc [] = Inr acc"
| "sum_usage acc (m # ms) =
     (case usage_metadata m of
        PDict usage \<Rightarrow> result_bind (split_usage usage) (\<lambda>t. sum_usage (acc + t) ms)
      | _ \<Rightarrow> sum_usage acc ms)"

text \<open>The messages of one update, when it has the expected shape.\<close>

definition update_messages :: "pyval \<Rightarrow> pyval list" where
  "update_messages update =
     (case update of
        PDict d \<Rightarrow> (case dict_get d ''messages'' of PList ms \<Rightarrow> ms | _ \<Rightarrow> [])
      | _ \<Rightarrow> [])"

definition token_usage :: "string \<Rightarrow> pyval \<Rightarrow> TokenUsage result" where
  "token_usage mode payload =
     (case payload of
        PDict updates \<Rightarrow>
          if mode \<noteq> UPDATES_MODE then Inr 0
          else sum_usage 0 (concat (map (update_messages \<circ> snd) updates))
      | _ \<Rightarrow> Inr 0)"

section \<open>Paths from the history\<close>

text \<open>A later call of the same id replaces an earlier one, as in a dict comprehension.\<close>

definition known_tool_paths_of :: "Event list \<Rightarrow> string \<rightharpoonup> string list" where
  "known_tool_paths_of evs =
     foldl (\<lambda>m e. case data e of
        ToolCallData i _ _ \<Rightarrow> if path e = [] then m else m(i \<mapsto> path e)
      | _ \<Rightarrow> m) Map.empty evs"

text \<open>Python equality of values: a dict is compared without its order, a \<open>bool\<close> is an \<open>int\<close>.\<close>

function (sequential) py_eq :: "pyval \<Rightarrow> pyval \<Rightarrow> bool" where
  "py_eq (PDict xs) v =
     (case v of
        PDict ys \<Rightarrow> length xs = length ys \<and>
          list_all (\<lambda>kv. case map_of ys (fst kv) of None \<Rightarrow> False | Some w \<Rightarrow> py_eq (snd kv) w) xs
      | _ \<Rightarrow> False)"
| "py_eq (PList xs) v =
     (case v of PList ys \<Rightarrow> length xs = length ys \<and> list_all (\<lambda>p. py_eq (fst p) (snd p)) (zip xs ys) | _ \<Rightarrow> False)"
| "py_eq (PInt i) v = (as_python_int v = Some i)"
| "py_eq (PBool b) v = (as_python_int v = Some (if b then 1 else 0))"
| "py_eq u v = (u = v)"
  by pat_completeness auto
termination
proof (relation "measure (\<lambda>(u, _). size u)", goal_cases)
  case (2 xs v ys kv w)
  have "size_prod (\<lambda>_. 0) size kv \<le> size_list (size_prod (\<lambda>_. 0) size) xs"
    using 2(2) by (intro size_list_estimation') auto
  then show ?case by (cases kv) simp
next
  case (3 xs v ys p)
  then have "fst p \<in> set xs" by (cases p) (auto dest: set_zip_leftD)
  then have "size (fst p) \<le> size_list size xs" by (intro size_list_estimation') auto
  then show ?case by (cases p) simp
qed simp

definition args_eq :: "pydict \<Rightarrow> pydict \<Rightarrow> bool" where
  "args_eq a b = py_eq (PDict a) (PDict b)"

fun call_id_of :: "Event \<Rightarrow> string" where
  "call_id_of e = (case data e of ToolCallData i _ _ \<Rightarrow> i | _ \<Rightarrow> [])"

fun result_call_id :: "Event \<Rightarrow> string option" where
  "result_call_id e = (case data e of ToolResultData i _ _ _ \<Rightarrow> Some i | _ \<Rightarrow> None)"

definition answers_call :: "InterruptAction \<Rightarrow> Event \<Rightarrow> bool" where
  "answers_call a e =
     (case data e of ToolCallData _ name args \<Rightarrow> name = tool_name a \<and> args_eq args (act_args a) | _ \<Rightarrow> False)"

text \<open>The loop over the actions: the latest unused pending call of the same tool and arguments.\<close>

fun match_actions :: "Event list \<Rightarrow> string set \<Rightarrow> InterruptAction list \<Rightarrow> string list list option" where
  "match_actions pending used [] = Some []"
| "match_actions pending used (a # as) =
     (case find (\<lambda>e. call_id_of e \<notin> used \<and> answers_call a e) (rev pending) of
        None \<Rightarrow> None
      | Some e \<Rightarrow> map_option (\<lambda>ps. path e # ps) (match_actions pending (insert (call_id_of e) used) as))"

definition pending_action_path :: "Event list \<Rightarrow> InterruptAction list \<Rightarrow> string list" where
  "pending_action_path evs acts =
     (let completed = set (List.map_filter result_call_id evs);
          pending = filter (\<lambda>e. event_type e = TOOL_CALL \<and> call_id_of e \<notin> completed) evs
      in case match_actions pending {} acts of
           Some (p # ps) \<Rightarrow> if list_all (\<lambda>q. q = p) ps then p else []
         | _ \<Rightarrow> [])"

section \<open>Running a task\<close>

text \<open>\<open>_record_selector_usage\<close>: an exception of the ledger is swallowed.\<close>

definition record_selector_usage :: "Services \<Rightarrow> RunTask \<Rightarrow> MemorySnapshot option \<Rightarrow> unit prog" where
  "record_selector_usage sv task snapshot =
     (case (snapshot, selector_ledger sv) of
        (Some ms, Some (model, yuan)) \<Rightarrow>
          try_except
            (await (\<lambda>w. (Inr (), w\<lparr>usage_ledger := usage_ledger w @
               [\<lparr>mu_run_id = t_run_id task, mu_thread_id = t_thread_id task,
                 mu_stage = SELECTOR, mu_model = model,
                 mu_tokens = ms_selector_usage ms, mu_cost = yuan model (ms_selector_usage ms),
                 mu_duration = int (ms_selector_duration ms), mu_hit = int (ms_records ms),
                 mu_rejected = int (ms_selected_indices ms - ms_records ms), mu_fallback = ms_fallback ms,
                 mu_included = True, mu_slugs = ms_selected_slugs ms, mu_job_id = None\<rparr>]\<rparr>)))
            (\<lambda>_. ret ())
      | _ \<Rightarrow> ret ())"

definition start_stream :: "Services \<Rightarrow> RunTask \<Rightarrow> stream_item list \<times> exn option" where
  "start_stream sv task =
     (case t_decisions task of
        None \<Rightarrow> stream sv task
      | Some decisions \<Rightarrow> resume_stream sv task (to_resume decisions))"

definition suspend :: "RunTask \<Rightarrow> TokenUsage \<Rightarrow> InterruptAction list \<Rightarrow> bool prog" where
  "suspend task tokens acts =
     (if acts = [] then ret False
      else seq (repo_wait_approval (t_run_id task) tokens) (\<lambda>changed.
        if changed
        then seq (log_read (t_run_id task)) (\<lambda>evs.
             seq (emit_now (t_run_id task) (pending_action_path evs acts) (InterruptData acts)) (\<lambda>_. ret True))
        else ret True))"

fun emit_all :: "Event list \<Rightarrow> unit prog" where
  "emit_all [] = ret ()"
| "emit_all (e # es) = seq (emit e) (\<lambda>_. emit_all es)"

text \<open>The loop over the stream. Fetching the next chunk, or learning that there is none, is an await.\<close>

fun consume_items :: "string \<Rightarrow> stream_item list \<Rightarrow> exn option \<Rightarrow> TokenUsage \<Rightarrow> EventMapper \<Rightarrow> TokenUsage prog" where
  "consume_items run_id [] ending tokens m =
     await (case ending of None \<Rightarrow> ret tokens | Some e \<Rightarrow> throw e)"
| "consume_items run_id (Selector_usage u # rest) ending tokens m = consume_items run_id rest ending (tokens + u) m"
| "consume_items run_id (Chunk ns mode payload # rest) ending tokens m =
     seq (await (ret ())) (\<lambda>_.
       case token_usage mode payload of
         Inl e \<Rightarrow> throw e
       | Inr t \<Rightarrow>
           seq (if mode = UPDATES_MODE then is_raised run_id else ret False) (\<lambda>raised.
             if raised then seq (stop_run run_id (tokens + t)) (\<lambda>_. throw RunCancelledError)
             else (\<lambda>w. case map_chunk (clock w) ns mode payload m of
                (Inl e, _) \<Rightarrow> (Inl e, w)
              | (Inr evs, m') \<Rightarrow> seq (emit_all evs) (\<lambda>_. consume_items run_id rest ending (tokens + t) m') w)))"

definition consume :: "Services \<Rightarrow> RunTask \<Rightarrow> unit prog" where
  "consume sv task =
     seq (log_read (t_run_id task)) (\<lambda>evs.
       case start_stream sv task of (items, ending) \<Rightarrow>
       seq (consume_items (t_run_id task) items ending 0 (new_mapper (t_run_id task) (known_tool_paths_of evs))) (\<lambda>tokens.
       seq (await (\<lambda>w. (inspect sv task, w))) (\<lambda>snapshot.
       seq (record_selector_usage sv task (memory snapshot)) (\<lambda>_.
       seq (suspend task tokens (actions snapshot)) (\<lambda>suspended.
         if suspended then ret ()
         else
           let memory_job = (case t_user_id task of
               None \<Rightarrow> None
             | Some u \<Rightarrow> if messages snapshot = [] then None
                 else Some \<lparr>mp_thread_id = t_thread_id task, mp_user_id = u, mp_messages = messages snapshot\<rparr>)
           in seq (repo_succeed (t_run_id task) tokens memory_job) (\<lambda>done.
             if done then emit_now (t_run_id task) [] (RunFinishedData tokens) else ret ()))))))"

definition align_skills :: "Services \<Rightarrow> RunTask \<Rightarrow> unit prog" where
  "align_skills sv task =
     (case skills (t_agent_config task) of
        Some (r # rs) \<Rightarrow> await (\<lambda>w. (align sv (t_thread_id task) (r # rs), w))
      | _ \<Rightarrow> ret ())"

text \<open>\<open>pool.acquire\<close>: the positions are announced through the callback, then it returns or raises. It raises also when the
  callback does or when the connection fails at an await; the broker, which does not see that, may have granted
  the sandbox by then. How each call ended is noted.\<close>

definition note_call :: "pool_call \<Rightarrow> unit prog" where
  "note_call c w = (Inr (), w\<lparr>pool_calls := pool_calls w @ [c]\<rparr>)"

fun announce_all :: "string \<Rightarrow> int list \<Rightarrow> unit prog" where
  "announce_all run_id [] = ret ()"
| "announce_all run_id (n # ns) =
     seq (emit_now run_id [] (SandboxQueuedData n)) (\<lambda>_. announce_all run_id ns)"

definition pool_acquire_call :: "Services \<Rightarrow> string \<Rightarrow> string \<Rightarrow> unit prog" where
  "pool_acquire_call sv thread_id run_id =
     (case pool_acquire sv thread_id run_id of (positions, granted, outcome) \<Rightarrow>
        try_except
          (seq (announce_all run_id positions) (\<lambda>_. await (case outcome of
              Some e \<Rightarrow> throw e
            | None \<Rightarrow> note_call (Acquired thread_id run_id))))
          (\<lambda>e. seq (note_call (Acquire_failed thread_id run_id granted)) (\<lambda>_. throw e)))"

definition pool_release :: "string \<Rightarrow> string \<Rightarrow> unit prog" where
  "pool_release thread_id run_id =
     try_except (await (note_call (Released thread_id run_id)))
       (\<lambda>e. seq (note_call (Release_failed thread_id run_id)) (\<lambda>_. throw e))"

fun is_queue_timeout :: "exn \<Rightarrow> bool" where
  "is_queue_timeout (SandboxQueueTimeoutError _) = True"
| "is_queue_timeout _ = False"

definition acquire :: "Services \<Rightarrow> RunTask \<Rightarrow> bool prog" where
  "acquire sv task =
     seq (try_except (seq (pool_acquire_call sv (t_thread_id task) (t_run_id task)) (\<lambda>_. ret True))
       (\<lambda>e. seq (fail_run (t_run_id task)
                    (if is_queue_timeout e then SANDBOX_QUEUE_TIMEOUT else INTERNAL) (exn_text e) (is_queue_timeout e))
              (\<lambda>_. ret False)))
       (\<lambda>ready. if ready then seq (emit_now (t_run_id task) [] SandboxReadyData) (\<lambda>_. ret True) else ret False)"

text \<open>The handlers of \<open>_drive\<close>, in their order.\<close>

fun handle_failure :: "string \<Rightarrow> exn \<Rightarrow> unit prog" where
  "handle_failure run_id RunCancelledError = ret ()"
| "handle_failure run_id (GraphRecursionError msg) = fail_run run_id RECURSION_LIMIT msg False"
| "handle_failure run_id e = fail_run run_id INTERNAL (exn_text e) False"

definition guard_active :: "Services \<Rightarrow> RunTask \<Rightarrow> bool prog" where
  "guard_active sv task =
     (case (thread_guard sv, t_user_id task) of
        (Some active, Some u) \<Rightarrow> await (\<lambda>w. (Inr (active (t_thread_id task) u), w))
      | _ \<Rightarrow> ret True)"

definition drive :: "Services \<Rightarrow> RunTask \<Rightarrow> unit prog" where
  "drive sv task =
     seq (is_raised (t_run_id task)) (\<lambda>raised.
       if raised then stop_run (t_run_id task) 0
       else seq (guard_active sv task) (\<lambda>active.
         if \<not> active then stop_run (t_run_id task) 0
         else seq (repo_start (t_run_id task)) (\<lambda>start.
           if start = REFUSED then ret ()
           else
             let resumed = (t_decisions task \<noteq> None \<or> start = RESUMED) in
             seq (emit_now (t_run_id task) [] (RunStartedData (t_thread_id task) resumed)) (\<lambda>_.
             seq (acquire sv task) (\<lambda>acquired.
               if \<not> acquired then ret ()
               else try_finally
                 (try_except (seq (align_skills sv task) (\<lambda>_. consume sv task)) (handle_failure (t_run_id task)))
                 (pool_release (t_thread_id task) (t_run_id task)))))))"

definition execute :: "Services \<Rightarrow> RunTask \<Rightarrow> unit prog" where
  "execute sv task = drive sv task"

section \<open>The ledger of terminal events\<close>

text \<open>The terminal events of a run that were appended, or that another process is about to append.\<close>

definition terms :: "uuid \<Rightarrow> World \<Rightarrow> Event list" where
  "terms u w = filter (\<lambda>e. is_terminal_event e \<and> UUID (ev_run_id e) = Some u) (journal w @ owed w)"

definition ledger_ok :: "uuid \<Rightarrow> World \<Rightarrow> bool" where
  "ledger_ok u w \<longleftrightarrow> db_ok (db w) \<and>
     (terms u w = [] \<or>
      (\<exists>e s. terms u w = [e] \<and> announced_status (event_type e) = Some s \<and> row_status (db w) u = Some s))"

text \<open>Between winning the state of a run and appending its event: nobody else can have one.\<close>

definition claimed :: "uuid \<Rightarrow> string \<Rightarrow> RunStatus \<Rightarrow> World \<Rightarrow> bool" where
  "claimed u run_id s w \<longleftrightarrow> ledger_ok u w \<and>
     (UUID run_id = Some u \<longrightarrow> terms u w = [] \<and> row_status (db w) u = Some s)"

lemma announced_terminal: "announced_status t = Some s \<Longrightarrow> s \<in> TERMINAL_STATUS"
  by (cases t) (auto simp: TERMINAL_STATUS_def)

lemma terms_sched [simp]:
  "terms u (w\<lparr>sched := x\<rparr>) = terms u w" "terms u (w\<lparr>fault := y\<rparr>) = terms u w"
  "terms u (w\<lparr>db := d\<rparr>) = terms u w" "terms u (w\<lparr>flags := f\<rparr>) = terms u w" "terms u (w\<lparr>clock := c\<rparr>) = terms u w"
  "terms u (w\<lparr>pool_calls := p\<rparr>) = terms u w" "terms u (w\<lparr>usage_ledger := l\<rparr>) = terms u w"
  by (simp_all add: terms_def)

lemma terms_pay: "owed w = e # es \<Longrightarrow> terms u (w\<lparr>journal := journal w @ [e], owed := es\<rparr>) = terms u w"
  by (simp add: terms_def)

lemma terms_nonterminal: "\<not> is_terminal_event e \<Longrightarrow> terms u (w\<lparr>journal := journal w @ [e]\<rparr>) = terms u w"
  by (simp add: terms_def)

lemma op_event_props:
  "e \<in> set (op_event now x) \<Longrightarrow> ev_run_id e = op_run x \<and> is_terminal_event e \<and>
    announced_status (event_type e) = Some (op_target x)"
  "length (op_event now x) \<le> 1"
  "op_target x \<notin> TERMINAL_STATUS \<longleftrightarrow> op_event now x = []"
  by (cases x; auto simp: is_terminal_event_def event_type_def TERMINAL_EVENT_TYPE_def TERMINAL_STATUS_def)+

text \<open>A repository call by anybody keeps the ledger, if the caller then owes the event.\<close>

lemma ledger_repo_call:
  assumes ok: "ledger_ok u w" and st: "repo_step x (db w) = (b, d)"
  shows "db_ok d"
    and "b \<Longrightarrow> op_key x = Some u \<Longrightarrow> terms u w = [] \<and> row_status d u = Some (op_target x)"
    and "\<not> (b \<and> op_key x = Some u) \<Longrightarrow> row_status d u = row_status (db w) u"
proof -
  have dbok: "db_ok (db w)" using ok by (simp add: ledger_ok_def)
  show "db_ok d" using repo.wf_step [OF dbok st] .
  show "terms u w = [] \<and> row_status d u = Some (op_target x)" if b "op_key x = Some u"
  proof -
    from repo.step_done [OF dbok, of x d] st that obtain v where
      v: "row_status (db w) u = Some v" "v \<notin> TERMINAL_STATUS" "row_status d = (row_status (db w))(u \<mapsto> op_target x)"
      by auto
    then show ?thesis using ok announced_terminal by (auto simp: ledger_ok_def)
  qed
  show "row_status d u = row_status (db w) u" if "\<not> (b \<and> op_key x = Some u)"
    using that repo.step_done [OF dbok, of x d] repo.step_refused [OF dbok, of x d] st by (cases b) auto
qed

lemma env_repo_call:
  assumes "ledger_ok u w"
  shows "ledger_ok u (env_step w (Repo_call x))"
proof -
  obtain b d where st: "repo_step x (db w) = (b, d)" by fastforce
  let ?w = "env_step w (Repo_call x)"
  note r = ledger_repo_call [OF assms st]
  have T: "terms u ?w = terms u w @ (if b \<and> op_key x = Some u then op_event (clock w) x else [])"
    using op_event_props(1) [of _ "clock w" x]
    by (auto simp: terms_def st op_key_def filter_empty_conv intro!: filter_True)
  show ?thesis
  proof (cases "b \<and> op_key x = Some u")
    case True
    then have "terms u ?w = op_event (clock w) x" "row_status (db ?w) u = Some (op_target x)"
      using T r(2) st by auto
    moreover obtain e where "op_event (clock w) x = [] \<or> op_event (clock w) x = [e]"
      using op_event_props(2) [of "clock w" x] by (cases "op_event (clock w) x") auto
    ultimately show ?thesis using r(1) st op_event_props(1) [of e "clock w" x] by (auto simp: ledger_ok_def)
  next
    case False
    then have "row_status (db ?w) u = row_status (db w) u" "terms u ?w = terms u w" using T r(3) st by auto
    then show ?thesis using assms r(1) st by (auto simp: ledger_ok_def)
  qed
qed

lemma env_step_ledger: "ledger_ok u w \<Longrightarrow> ledger_ok u (env_step w act)"
proof (cases act)
  case Pay
  assume "ledger_ok u w"
  then show ?thesis using Pay terms_pay [of w] by (cases "owed w") (auto simp: ledger_ok_def)
next
  case (Repo_call x)
  assume "ledger_ok u w"
  then show ?thesis unfolding Repo_call by (rule env_repo_call)
qed (auto simp: ledger_ok_def terms_nonterminal)

lemma env_step_claimed: "claimed u run_id s w \<Longrightarrow> s \<in> TERMINAL_STATUS \<Longrightarrow> claimed u run_id s (env_step w act)"
proof -
  assume c: "claimed u run_id s w" and s: "s \<in> TERMINAL_STATUS"
  have ok: "ledger_ok u w" using c by (simp add: claimed_def)
  show ?thesis
  proof (cases "UUID run_id = Some u")
    case False
    then show ?thesis using env_step_ledger [OF ok] by (simp add: claimed_def)
  next
    case True
    then have T: "terms u w = []" "row_status (db w) u = Some s" using c by (auto simp: claimed_def)
    have "terms u (env_step w act) = [] \<and> row_status (db (env_step w act)) u = Some s"
    proof (cases act)
      case (Repo_call x)
      obtain b d where st: "repo_step x (db w) = (b, d)" by fastforce
      have dbok: "db_ok (db w)" using ok by (simp add: ledger_ok_def)
      have f: "row_status d u = Some s" "\<not> (b \<and> op_key x = Some u)" using repo.final_step [OF dbok T(2) s st] by auto
      have "terms u (env_step w act) = []"
        using T(1) f(2) op_event_props(1) [of _ "clock w" x]
        by (auto simp: Repo_call terms_def st op_key_def filter_empty_conv)
      with f(1) show ?thesis by (simp add: Repo_call st)
    next
      case Pay
      then show ?thesis using T terms_pay [of w] by (cases "owed w") auto
    qed (use T in \<open>auto simp: terms_nonterminal\<close>)
    then show ?thesis using env_step_ledger [OF ok] by (simp add: claimed_def)
  qed
qed

section \<open>Invariants of programs\<close>

text \<open>A predicate that no action of anybody else can falsify.\<close>

definition stable :: "(World \<Rightarrow> bool) \<Rightarrow> bool" where
  "stable P \<longleftrightarrow> (\<forall>w act. P w \<longrightarrow> P (env_step w act)) \<and> (\<forall>w x. P w \<longrightarrow> P (w\<lparr>sched := x\<rparr>)) \<and>
     (\<forall>w x. P w \<longrightarrow> P (w\<lparr>fault := x\<rparr>))"

lemma stable_acts: "stable P \<Longrightarrow> P w \<Longrightarrow> P (foldl env_step w acts)"
  by (induction acts arbitrary: w) (auto simp: stable_def)

text \<open>An await either fails in a state that satisfies \<open>P\<close>, or its operation starts in one.\<close>

lemma await_spec:
  assumes "stable P" "P w"
  shows "\<exists>w'. P w' \<and> (await m w = m w' \<or> (\<exists>e. await m w = (Inl e, w')))"
proof -
  let ?w = "case sched w of [] \<Rightarrow> w | acts # rest \<Rightarrow> foldl env_step (w\<lparr>sched := rest\<rparr>) acts"
  have P: "P ?w" using assms by (auto split: list.splits intro: stable_acts simp: stable_def)
  show ?thesis
  proof (cases "fault ?w")
    case None
    then show ?thesis using P by (intro exI [of _ ?w]) (simp add: await_def Let_def)
  next
    case (Some e)
    have "P (?w\<lparr>fault := None\<rparr>)" using P assms(1) unfolding stable_def by blast
    with Some show ?thesis by (intro exI [of _ "?w\<lparr>fault := None\<rparr>"]) (simp add: await_def Let_def)
  qed
qed

lemma stable_ledger: "stable (ledger_ok u)"
  by (auto simp: stable_def env_step_ledger) (auto simp: ledger_ok_def)

lemma stable_claimed: "s \<in> TERMINAL_STATUS \<Longrightarrow> stable (claimed u run_id s)"
  by (auto simp: stable_def env_step_claimed) (auto simp: claimed_def ledger_ok_def)

lemma keeps_await: "stable P \<Longrightarrow> keeps P m \<Longrightarrow> keeps P (await m)"
proof (rule keepsI)
  fix w assume P: "stable P" "keeps P m" "P w"
  from await_spec [OF P(1,3), of m] show "P (snd (await m w))" using keepsD [OF P(2)] by auto
qed

text \<open>Appending an event that ends nothing, and the operations that do not touch the ledger.\<close>

lemma ledger_await: "keeps (ledger_ok u) m \<Longrightarrow> keeps (ledger_ok u) (await m)"
  by (rule keeps_await [OF stable_ledger])

lemma emit_ledger: "\<not> is_terminal_event e \<Longrightarrow> keeps (ledger_ok u) (emit e)"
  unfolding emit_def by (intro ledger_await keepsI) (simp add: ledger_ok_def terms_nonterminal)

lemma emit_now_ledger:
  "data_type d \<notin> TERMINAL_EVENT_TYPE \<Longrightarrow> keeps (ledger_ok u) (emit_now run_id p d)"
  unfolding emit_now_def
  by (intro keepsI keepsD [OF emit_ledger]) (simp_all add: is_terminal_event_def event_type_def)

lemma emit_all_ledger: "\<forall>e \<in> set es. \<not> is_terminal_event e \<Longrightarrow> keeps (ledger_ok u) (emit_all es)"
  by (induction es) (auto intro!: step_intros emit_ledger)

text \<open>The event of one's own end state, after winning it.\<close>

lemma emit_claimed:
  assumes c: "claimed u run_id s w" and s: "announced_status (data_type d) = Some s"
  shows "ledger_ok u (snd (emit_now run_id p d w))"
proof -
  let ?e = "\<lparr>ts = clock w, ev_run_id = run_id, path = p, data = d\<rparr>"
  let ?m = "\<lambda>w. (Inr (), w\<lparr>journal := journal w @ [?e]\<rparr>)"
  have "ledger_ok u (snd (?m w'))" if c': "claimed u run_id s w'" for w'
  proof (cases "UUID run_id = Some u")
    case True
    then have T: "terms u w' = []" "row_status (db w') u = Some s" using c' by (auto simp: claimed_def)
    have "is_terminal_event ?e"
      using s by (cases d) (auto simp: is_terminal_event_def event_type_def TERMINAL_EVENT_TYPE_def)
    then have "terms u (w'\<lparr>journal := journal w' @ [?e]\<rparr>) = [?e]" using T(1) True by (simp add: terms_def)
    then show ?thesis using c' T(2) s by (simp add: ledger_ok_def claimed_def event_type_def)
  next
    case False
    then show ?thesis using c' by (auto simp: claimed_def ledger_ok_def terms_def)
  qed
  moreover obtain w' where "claimed u run_id s w'" "await ?m w = ?m w' \<or> (\<exists>e. await ?m w = (Inl e, w'))"
    using await_spec [OF stable_claimed [OF announced_terminal [OF s]] c, of ?m] by blast
  ultimately show ?thesis by (auto simp: emit_now_def emit_def claimed_def)
qed

text \<open>A repository call of the executor itself: it raises and changes nothing, or it is the step \<open>x\<close>.\<close>

definition calls_repo :: "(World \<Rightarrow> repo_op) \<Rightarrow> bool prog \<Rightarrow> bool" where
  "calls_repo x m \<longleftrightarrow>
     (\<forall>w. (\<exists>e. m w = (Inl e, w)) \<or> (\<exists>b d. repo_step (x w) (db w) = (b, d) \<and> m w = (Inr b, w\<lparr>db := d\<rparr>)))"

lemma ledger_repo_step:
  assumes "ledger_ok u w" "repo_step x (db w) = (b, d)"
  shows "ledger_ok u (w\<lparr>db := d\<rparr>)"
  using ledger_repo_call [OF assms] assms(1)
  by (cases "b \<and> op_key x = Some u") (auto simp: ledger_ok_def)

lemma await_repo_claimed:
  assumes m: "calls_repo x m" and run: "\<And>w. op_run (x w) = run_id" and tgt: "\<And>w. op_target (x w) = s"
    and w: "ledger_ok u w" and r: "await m w = (r, w')"
  shows "ledger_ok u w' \<and> (r = Inr True \<longrightarrow> claimed u run_id s w')"
proof -
  obtain w1 where w1: "ledger_ok u w1" "await m w = m w1 \<or> (\<exists>e. await m w = (Inl e, w1))"
    using await_spec [OF stable_ledger w, of m] by blast
  consider (failed) e where "await m w = (Inl e, w1)"
    | (step) b d where "repo_step (x w1) (db w1) = (b, d)" "await m w = (Inr b, w1\<lparr>db := d\<rparr>)"
    using w1(2) m unfolding calls_repo_def by metis
  then show ?thesis
  proof cases
    case failed
    then show ?thesis using r w1(1) by simp
  next
    case step
    then have r': "r = Inr b" "w' = w1\<lparr>db := d\<rparr>" using r by auto
    have key: "op_key (x w1) = UUID run_id" by (simp add: op_key_def run)
    show ?thesis
      using ledger_repo_step [OF w1(1) step(1)] ledger_repo_call(2) [OF w1(1) step(1)] key tgt r'
      by (auto simp: claimed_def)
  qed
qed

text \<open>Win an end state, then append its event, or do nothing.\<close>

lemma claim_then_emit:
  assumes "calls_repo x m" "\<And>w. op_run (x w) = run_id" "\<And>w. op_target (x w) = s"
    and d: "announced_status (data_type d) = Some s"
  shows "keeps (ledger_ok u) (seq (await m) (\<lambda>won. if won then emit_now run_id p d else ret ()))"
proof (rule keepsI)
  fix w assume w: "ledger_ok u w"
  obtain r w' where r: "await m w = (r, w')" by (cases "await m w")
  have "ledger_ok u w'" "r = Inr True \<Longrightarrow> claimed u run_id s w'"
    using await_repo_claimed [OF assms(1-3) w r] by auto
  then show "ledger_ok u (snd (seq (await m) (\<lambda>won. if won then emit_now run_id p d else ret ()) w))"
    using r emit_claimed [OF _ d, of u run_id w' p] by (auto simp: seq_def ret_def split: sum.splits)
qed

lemma calls_repo_op:
  "calls_repo (\<lambda>w. OpCancel i (Some t) (clock w))
     (\<lambda>w. case cancel i (Some t) (clock w) (db w) of (b, d) \<Rightarrow> (Inr b, w\<lparr>db := d\<rparr>))"
  "calls_repo (\<lambda>w. OpFail i c msg (clock w))
     (\<lambda>w. case Run_Repository.fail i c msg (clock w) (db w) of (b, d) \<Rightarrow> (Inr b, w\<lparr>db := d\<rparr>))"
  "calls_repo (\<lambda>w. OpWait i t) (\<lambda>w. case wait_approval i t (db w) of (b, d) \<Rightarrow> (Inr b, w\<lparr>db := d\<rparr>))"
  "calls_repo (\<lambda>w. OpSucceed i t mj (clock w))
     (\<lambda>w. case succeed i t mj (clock w) (db w) of Inl e \<Rightarrow> (Inl e, w) | Inr (b, d) \<Rightarrow> (Inr b, w\<lparr>db := d\<rparr>))"
  by (auto simp: calls_repo_def split: prod.splits sum.splits)

lemma calls_repo_keeps:
  assumes "calls_repo x m"
  shows "keeps (ledger_ok u) m"
proof (rule keepsI)
  fix w assume w: "ledger_ok u w"
  then show "ledger_ok u (snd (m w))"
    using assms ledger_repo_step [OF w] unfolding calls_repo_def by (metis snd_conv)
qed

lemma repo_ledger [step_intros]:
  "keeps (ledger_ok u) (is_raised i)" "keeps (ledger_ok u) (repo_wait_approval i t)" "keeps (ledger_ok u) (log_read i)"
  unfolding is_raised_def repo_wait_approval_def log_read_def
  by (rule ledger_await, simp add: keeps_def, rule ledger_await, rule calls_repo_keeps [OF calls_repo_op(3)],
      rule ledger_await, simp add: keeps_def)

lemma repo_start_ledger [step_intros]: "keeps (ledger_ok u) (repo_start i)"
  unfolding repo_start_def
proof (intro ledger_await keepsI)
  fix w assume w: "ledger_ok u w"
  obtain x d where s: "start i (db w) = (x, d)" by fastforce
  then show "ledger_ok u (snd (case start i (db w) of (s, d) \<Rightarrow> (Inr s, w\<lparr>db := d\<rparr>)))"
    using ledger_repo_step [OF w, of "OpStart i"] by simp
qed

lemma stop_run_ledger [step_intros]: "keeps (ledger_ok u) (stop_run i t)"
  unfolding stop_run_def repo_cancel_def by (rule claim_then_emit [OF calls_repo_op(1)]) simp_all

lemma fail_run_ledger [step_intros]: "keeps (ledger_ok u) (fail_run i c msg retry)"
  unfolding fail_run_def repo_fail_def Let_def by (rule claim_then_emit [OF calls_repo_op(2)]) simp_all

lemma finish_run_ledger [step_intros]:
  "keeps (ledger_ok u) (seq (repo_succeed i t mj) (\<lambda>done. if done then emit_now i [] (RunFinishedData t) else ret ()))"
  unfolding repo_succeed_def by (rule claim_then_emit [OF calls_repo_op(4)]) simp_all

lemma record_selector_usage_ledger [step_intros]: "keeps (ledger_ok u) (record_selector_usage sv task ms)"
  unfolding record_selector_usage_def
  by (auto split: option.splits intro!: step_intros ledger_await) (auto simp: keeps_def ledger_ok_def)

lemma suspend_ledger [step_intros]: "keeps (ledger_ok u) (suspend task t acts)"
  unfolding suspend_def
  by (auto intro!: step_intros emit_now_ledger simp: TERMINAL_EVENT_TYPE_def)

lemma consume_items_ledger [step_intros]: "keeps (ledger_ok u) (consume_items i items ending t m)"
proof (induction items arbitrary: t m)
  case Nil
  then show ?case by (auto intro!: ledger_await split: option.splits)
next
  case (Cons item rest)
  show ?case
  proof (cases item)
    case (Chunk ns mode payload)
    have body: "keeps (ledger_ok u) (\<lambda>w. case map_chunk (clock w) ns mode payload m of
        (Inl e, _) \<Rightarrow> (Inl e, w)
      | (Inr evs, m') \<Rightarrow> seq (emit_all evs) (\<lambda>_. consume_items i rest ending (t + t') m') w)" for t'
    proof (rule keepsI)
      fix w assume w: "ledger_ok u w"
      obtain r m' where mc: "map_chunk (clock w) ns mode payload m = (r, m')" by fastforce
      have "keeps (ledger_ok u) (seq (emit_all evs) (\<lambda>_. consume_items i rest ending (t + t') m'))" if "r = Inr evs" for evs
        using map_chunk_not_terminal [of "clock w" ns mode payload m evs m'] mc that
        by (intro keeps_seq Cons.IH emit_all_ledger) auto
      then show "ledger_ok u (snd (case map_chunk (clock w) ns mode payload m of
          (Inl e, _) \<Rightarrow> (Inl e, w)
        | (Inr evs, m') \<Rightarrow> seq (emit_all evs) (\<lambda>_. consume_items i rest ending (t + t') m') w))"
        using mc w by (cases r) (auto dest: keepsD)
    qed
    show ?thesis unfolding Chunk consume_items.simps by (intro step_intros ledger_await body)
  next
    case (Selector_usage x)
    then show ?thesis using Cons.IH by simp
  qed
qed

lemma align_skills_ledger [step_intros]: "keeps (ledger_ok u) (align_skills sv task)"
  unfolding align_skills_def
  by (auto intro!: step_intros ledger_await split: option.splits list.splits) (simp add: keeps_def)

lemma consume_ledger [step_intros]: "keeps (ledger_ok u) (consume sv task)"
  unfolding consume_def Let_def
  by (auto intro!: step_intros ledger_await split: prod.splits) (simp add: keeps_def)

lemma announce_all_ledger [step_intros]: "keeps (ledger_ok u) (announce_all i ns)"
  by (induction ns) (auto intro!: step_intros emit_now_ledger simp: TERMINAL_EVENT_TYPE_def)

lemma note_call_ledger [step_intros]: "keeps (ledger_ok u) (note_call c)"
  by (intro keepsI) (auto simp: ledger_ok_def note_call_def)

lemma acquire_ledger [step_intros]: "keeps (ledger_ok u) (acquire sv task)"
  unfolding acquire_def pool_acquire_call_def
  by (auto intro!: step_intros ledger_await emit_now_ledger split: prod.splits option.splits simp: TERMINAL_EVENT_TYPE_def)

lemma handle_failure_ledger [step_intros]: "keeps (ledger_ok u) (handle_failure i e)"
  by (cases e) (auto intro!: step_intros)

lemma pool_release_ledger [step_intros]: "keeps (ledger_ok u) (pool_release t i)"
  unfolding pool_release_def by (intro step_intros ledger_await)

lemma guard_active_ledger [step_intros]: "keeps (ledger_ok u) (guard_active sv task)"
  unfolding guard_active_def by (auto intro!: step_intros ledger_await split: option.splits) (simp add: keeps_def)

lemma execute_ledger: "keeps (ledger_ok u) (execute sv task)"
  unfolding execute_def drive_def Let_def
  by (intro step_intros emit_now_ledger) (auto simp: TERMINAL_EVENT_TYPE_def)

section \<open>The sandbox is given back\<close>

text \<open>Nobody else touches the executor's own record of its pool calls.\<close>

lemma stable_pool_calls: "stable (\<lambda>w. pool_calls w = p)"
proof -
  have "pool_calls (env_step w act) = pool_calls w" for w act
    by (cases act) (auto split: prod.splits list.splits)
  then show ?thesis by (simp add: stable_def)
qed

definition silent :: "'a prog \<Rightarrow> bool" where
  "silent m \<longleftrightarrow> (\<forall>w. pool_calls (snd (m w)) = pool_calls w)"

lemma silent_iff_keeps: "silent m \<longleftrightarrow> (\<forall>p. keeps (\<lambda>w. pool_calls w = p) m)"
  by (auto simp: silent_def keeps_def)

lemma silent_rules [step_intros]:
  "silent (ret x)" "silent (throw e)"
  "silent m \<Longrightarrow> (\<And>x. silent (f x)) \<Longrightarrow> silent (seq m f)"
  "silent m \<Longrightarrow> (\<And>e. silent (h e)) \<Longrightarrow> silent (try_except m h)"
  "silent n \<Longrightarrow> silent (await n)"
  "(b \<Longrightarrow> silent m) \<Longrightarrow> (\<not> b \<Longrightarrow> silent k) \<Longrightarrow> silent (if b then m else k)"
  "(\<And>e. silent (g e)) \<Longrightarrow> (\<And>x. silent (g' x)) \<Longrightarrow> silent (case s of Inl e \<Rightarrow> g e | Inr x \<Rightarrow> g' x)"
  unfolding silent_iff_keeps by (auto intro!: step_intros keeps_await stable_pool_calls)

lemma silent_emit [step_intros]: "silent (emit e)"
  unfolding emit_def by (rule silent_rules(5)) (simp add: silent_def)

lemma silent_emit_now [step_intros]: "silent (emit_now i p d)"
  using silent_emit by (simp add: silent_def emit_now_def)

lemma silent_emit_all [step_intros]: "silent (emit_all es)"
  by (induction es) (auto intro!: step_intros)

lemma silent_ops [step_intros]:
  "silent (is_raised i)" "silent (repo_cancel i t)" "silent (repo_fail i c msg)" "silent (repo_start i)"
  "silent (repo_wait_approval i t)" "silent (repo_succeed i t mj)" "silent (log_read i)"
  unfolding is_raised_def repo_cancel_def repo_fail_def repo_start_def repo_wait_approval_def repo_succeed_def log_read_def
  by (rule silent_rules(5), simp add: silent_def split: prod.splits sum.splits)+

lemma silent_stop [step_intros]: "silent (stop_run i t)" "silent (fail_run i c msg r)"
  unfolding stop_run_def fail_run_def Let_def by (intro step_intros)+

lemma silent_handle [step_intros]: "silent (handle_failure i e)"
  by (cases e) (auto intro!: step_intros)

lemma silent_consume_items [step_intros]: "silent (consume_items i items ending t m)"
proof (induction items arbitrary: t m)
  case Nil
  then show ?case by (auto intro!: step_intros split: option.splits)
next
  case (Cons item rest)
  show ?case
  proof (cases item)
    case (Chunk ns mode payload)
    have body: "silent (\<lambda>w. case map_chunk (clock w) ns mode payload m of
        (Inl e, _) \<Rightarrow> (Inl e, w)
      | (Inr evs, m') \<Rightarrow> seq (emit_all evs) (\<lambda>_. consume_items i rest ending (t + t') m') w)" for t'
    proof -
      have "silent (seq (emit_all evs) (\<lambda>_. consume_items i rest ending (t + t') m'))" for evs m'
        by (intro silent_rules silent_emit_all Cons.IH)
      then show ?thesis by (auto simp: silent_def split: prod.splits sum.splits)
    qed
    show ?thesis unfolding Chunk consume_items.simps by (intro step_intros body)
  qed (use Cons.IH in simp)
qed

lemma silent_consume [step_intros]: "silent (consume sv task)"
proof -
  have "silent (record_selector_usage sv task ms)" for ms
    unfolding record_selector_usage_def
    by (auto split: option.splits intro!: step_intros) (simp add: silent_def)
  moreover have "silent (suspend task t acts)" for t acts
    unfolding suspend_def by (intro step_intros)
  moreover have "silent (await (\<lambda>w. (inspect sv task, w)))" by (intro step_intros) (simp add: silent_def)
  ultimately show ?thesis
    unfolding consume_def Let_def by (auto intro!: step_intros split: prod.splits)
qed

lemma silentD: "silent m \<Longrightarrow> m w = (r, w') \<Longrightarrow> pool_calls w' = pool_calls w"
  by (metis silent_def snd_conv)

lemma await_note_call:
  assumes "await (note_call c) w = (r, w')"
  shows "pool_calls w' = pool_calls w @ (if r = Inr () then [c] else [])"
proof -
  obtain w1 where w1: "pool_calls w1 = pool_calls w"
      "await (note_call c) w = note_call c w1 \<or> (\<exists>e. await (note_call c) w = (Inl e, w1))"
    using await_spec [OF stable_pool_calls [of "pool_calls w"], of w "note_call c"] by auto
  then show ?thesis using assms by (auto simp: note_call_def)
qed

lemma silent_announce_all: "silent (announce_all i ns)"
  by (induction ns) (auto intro!: step_intros)

text \<open>A call of the pool notes one entry, which says how it ended.\<close>

lemma pool_acquire_call_calls:
  assumes "pool_acquire_call sv t i w = (r, w')"
  shows "pool_calls w' = pool_calls w @
    [if r = Inr () then Acquired t i else Acquire_failed t i (fst (snd (pool_acquire sv t i)))]"
proof -
  obtain ns g outcome where pa: "pool_acquire sv t i = (ns, g, outcome)" using prod_cases3 by blast
  let ?last = "await (case outcome of Some e \<Rightarrow> throw e | None \<Rightarrow> note_call (Acquired t i))"
  let ?body = "seq (announce_all i ns) (\<lambda>_. ?last)"
  obtain r2 w2 where b: "?body w = (r2, w2)" by fastforce
  have "pool_calls w2 = pool_calls w @ (if r2 = Inr () then [Acquired t i] else [])"
  proof -
    obtain r1 w1 where a: "announce_all i ns w = (r1, w1)" by fastforce
    note w1 = silentD [OF silent_announce_all a]
    show ?thesis
    proof (cases outcome)
      case None
      then show ?thesis using a b w1 await_note_call [of "Acquired t i" w1 r2 w2] by (cases r1) (auto simp: seq_def)
    next
      case (Some e)
      have "silent (await (throw e))" by (intro step_intros)
      moreover have "await (throw e) v \<noteq> (Inr (), v')" for v v'
        using await_spec [of "\<lambda>_. True" v "throw e :: unit prog"] by (auto simp: stable_def throw_def)
      ultimately show ?thesis using a b w1 Some by (cases r1) (auto simp: seq_def dest: silentD)
    qed
  qed
  then show ?thesis
    using assms b by (cases r2) (auto simp: pool_acquire_call_def pa try_except_def seq_def note_call_def throw_def)
qed

lemma pool_release_calls:
  assumes "pool_release t i w = (r, w')"
  shows "pool_calls w' = pool_calls w @ [if r = Inr () then Released t i else Release_failed t i]"
proof -
  obtain r1 w1 where a: "await (note_call (Released t i)) w = (r1, w1)" by fastforce
  from await_note_call [OF a] assms a show ?thesis
    by (cases r1) (auto simp: pool_release_def try_except_def seq_def note_call_def throw_def)
qed

lemma acquire_calls:
  assumes "acquire sv task w = (r, w')"
  shows "pool_calls w' = pool_calls w @ [Acquired (t_thread_id task) (t_run_id task)] \<and> r \<noteq> Inr False \<or>
    pool_calls w' = pool_calls w @
      [Acquire_failed (t_thread_id task) (t_run_id task) (fst (snd (pool_acquire sv (t_thread_id task) (t_run_id task))))] \<and>
    r \<noteq> Inr True"
proof -
  let ?call = "pool_acquire_call sv (t_thread_id task) (t_run_id task)"
  obtain r1 w1 where c: "?call w = (r1, w1)" by fastforce
  note w1 = pool_acquire_call_calls [OF c]
  show ?thesis
  proof (cases r1)
    case (Inl e)
    have "silent (fail_run (t_run_id task) (if is_queue_timeout e then SANDBOX_QUEUE_TIMEOUT else INTERNAL) (exn_text e)
        (is_queue_timeout e))" by (intro step_intros)
    then show ?thesis
      using assms c w1 Inl
      by (auto simp: acquire_def seq_def try_except_def ret_def split: prod.splits sum.splits dest!: silentD)
  next
    case (Inr x)
    have "silent (emit_now (t_run_id task) [] SandboxReadyData)" by (intro step_intros)
    then show ?thesis
      using assms c w1 Inr
      by (auto simp: acquire_def seq_def try_except_def ret_def split: prod.splits sum.splits dest!: silentD)
  qed
qed

lemma try_finally_calls:
  assumes "silent m" "try_finally m (pool_release t i) w = (r, w')"
  shows "pool_calls w' = pool_calls w @ [Released t i] \<or>
    pool_calls w' = pool_calls w @ [Release_failed t i] \<and> r \<noteq> Inr ()"
proof -
  obtain r1 w1 where m: "m w = (r1, w1)" by fastforce
  obtain r2 w2 where f: "pool_release t i w1 = (r2, w2)" by fastforce
  from silentD [OF assms(1) m] pool_release_calls [OF f] assms(2) m f show ?thesis
    by (cases r2) (auto simp: try_finally_def)
qed

text \<open>The calls of one execution.\<close>

definition paired_calls :: "Services \<Rightarrow> RunTask \<Rightarrow> unit result \<Rightarrow> pool_call list \<Rightarrow> bool" where
  "paired_calls sv task r cs \<longleftrightarrow>
     (let t = t_thread_id task; i = t_run_id task in
      cs = [] \<or> cs = [Acquire_failed t i (fst (snd (pool_acquire sv t i)))] \<or> cs = [Acquired t i, Released t i] \<or>
      cs \<in> {[Acquired t i], [Acquired t i, Release_failed t i]} \<and> r \<noteq> Inr ())"

definition paired :: "Services \<Rightarrow> RunTask \<Rightarrow> unit prog \<Rightarrow> bool" where
  "paired sv task m \<longleftrightarrow>
     (\<forall>w r w'. m w = (r, w') \<longrightarrow> (\<exists>cs. pool_calls w' = pool_calls w @ cs \<and> paired_calls sv task r cs))"

lemma paired_silent: "silent m \<Longrightarrow> paired sv task m"
  by (auto simp: paired_def paired_calls_def dest: silentD)

lemma paired_if: "(b \<Longrightarrow> paired sv task m) \<Longrightarrow> (\<not> b \<Longrightarrow> paired sv task n) \<Longrightarrow> paired sv task (if b then m else n)"
  by simp

lemma paired_seq:
  assumes "silent m" "\<And>x. paired sv task (f x)"
  shows "paired sv task (seq m f)"
  unfolding paired_def
proof (intro allI impI)
  fix w r w' assume run: "seq m f w = (r, w')"
  obtain r1 w1 where m: "m w = (r1, w1)" by fastforce
  note w1 = silentD [OF assms(1) m]
  show "\<exists>cs. pool_calls w' = pool_calls w @ cs \<and> paired_calls sv task r cs"
  proof (cases r1)
    case (Inl e)
    then show ?thesis using run m w1 by (auto simp: seq_def paired_calls_def)
  next
    case (Inr x)
    then have "f x w1 = (r, w')" using run m by (simp add: seq_def)
    then show ?thesis using assms(2) [of x] w1 unfolding paired_def by metis
  qed
qed

lemma paired_acquire:
  assumes "silent m"
  shows "paired sv task (seq (acquire sv task) (\<lambda>ok.
    if \<not> ok then ret () else try_finally m (pool_release (t_thread_id task) (t_run_id task))))"
  unfolding paired_def
proof (intro allI impI)
  fix w r w'
  assume run: "seq (acquire sv task) (\<lambda>ok.
    if \<not> ok then ret () else try_finally m (pool_release (t_thread_id task) (t_run_id task))) w = (r, w')"
  obtain r1 w1 where a: "acquire sv task w = (r1, w1)" by fastforce
  note cs = acquire_calls [OF a]
  consider e where "r1 = Inl e" | "r1 = Inr True" | "r1 = Inr False" by (cases r1) auto
  then show "\<exists>cs. pool_calls w' = pool_calls w @ cs \<and> paired_calls sv task r cs"
  proof cases
    case 2
    then have "try_finally m (pool_release (t_thread_id task) (t_run_id task)) w1 = (r, w')"
      using run a by (simp add: seq_def)
    from try_finally_calls [OF assms this] cs 2 show ?thesis by (auto simp: paired_calls_def)
  qed (use run a cs in \<open>auto simp: seq_def ret_def paired_calls_def\<close>)
qed

section \<open>Undisturbed executions\<close>

definition quiet :: "World \<Rightarrow> bool" where
  "quiet w \<longleftrightarrow> sched w = [] \<and> fault w = None"

lemma await_quiet [simp]: "sched w = [] \<Longrightarrow> fault w = None \<Longrightarrow> await m w = m w"
  by (simp add: await_def)

text \<open>What a stream of items amounts to: the events, and the tokens or the exception at its end.\<close>

fun play :: "int \<Rightarrow> stream_item list \<Rightarrow> exn option \<Rightarrow> TokenUsage \<Rightarrow> EventMapper \<Rightarrow> Event list \<times> TokenUsage result" where
  "play now [] ending t m = ([], case ending of None \<Rightarrow> Inr t | Some e \<Rightarrow> Inl e)"
| "play now (Selector_usage x # rest) ending t m = play now rest ending (t + x) m"
| "play now (Chunk ns mode payload # rest) ending t m =
     (case token_usage mode payload of
        Inl e \<Rightarrow> ([], Inl e)
      | Inr t' \<Rightarrow>
          (case map_chunk now ns mode payload m of
             (Inl e, _) \<Rightarrow> ([], Inl e)
           | (Inr evs, m') \<Rightarrow> (case play now rest ending (t + t') m' of (es, res) \<Rightarrow> (evs @ es, res))))"

lemma emit_all_quiet:
  "quiet w \<Longrightarrow> emit_all es w = (Inr (), w\<lparr>journal := journal w @ es\<rparr>)"
  by (induction es arbitrary: w) (simp_all add: quiet_def ret_def emit_def seq_def)

text \<open>The events of a queue, and how the skills of a task are aligned.\<close>

definition queued_events :: "int \<Rightarrow> string \<Rightarrow> int list \<Rightarrow> Event list" where
  "queued_events now i ns = map (\<lambda>n. \<lparr>ts = now, ev_run_id = i, path = [], data = SandboxQueuedData n\<rparr>) ns"

definition alignment :: "Services \<Rightarrow> RunTask \<Rightarrow> unit result" where
  "alignment sv task =
     (case skills (t_agent_config task) of Some (r # rs) \<Rightarrow> align sv (t_thread_id task) (r # rs) | _ \<Rightarrow> Inr ())"

lemma align_skills_quiet: "quiet w \<Longrightarrow> align_skills sv task w = (alignment sv task, w)"
  by (auto simp: align_skills_def alignment_def quiet_def ret_def split: option.splits list.splits)

lemma announce_all_quiet:
  "quiet w \<Longrightarrow> announce_all i ns w = (Inr (), w\<lparr>journal := journal w @ queued_events (clock w) i ns\<rparr>)"
  by (induction ns arbitrary: w) (simp_all add: quiet_def ret_def emit_now_def emit_def seq_def queued_events_def)

lemma consume_items_quiet:
  assumes "quiet w" "i \<notin> flags w"
  shows "consume_items i items ending t m w =
    (snd (play (clock w) items ending t m), w\<lparr>journal := journal w @ fst (play (clock w) items ending t m)\<rparr>)"
  using assms
proof (induction items arbitrary: w t m)
  case Nil
  then show ?case by (auto simp: quiet_def ret_def throw_def split: option.splits)
next
  case (Cons item rest)
  show ?case
  proof (cases item)
    case (Selector_usage x)
    then show ?thesis using Cons by simp
  next
    case (Chunk ns mode payload)
    note q = Cons.prems(1) [unfolded quiet_def]
    show ?thesis
    proof (cases "token_usage mode payload")
      case (Inl e)
      then show ?thesis using q Chunk by (simp add: ret_def throw_def seq_def)
    next
      case (Inr t')
      have flag: "is_raised i w = (Inr False, w)" using q Cons.prems(2) by (simp add: is_raised_def)
      obtain r m' where mc: "map_chunk (clock w) ns mode payload m = (r, m')" by fastforce
      show ?thesis
      proof (cases r)
        case (Inl e)
        then show ?thesis using q Chunk Inr flag mc
          by (cases "mode = UPDATES_MODE") (auto simp: ret_def seq_def)
      next
        case (Inr evs)
        let ?w = "w\<lparr>journal := journal w @ evs\<rparr>"
        have "quiet ?w" "i \<notin> flags ?w" using Cons.prems by (auto simp: quiet_def)
        from Cons.IH [OF this] show ?thesis
          using q Chunk \<open>token_usage mode payload = Inr t'\<close> flag mc Inr emit_all_quiet [OF Cons.prems(1), of evs]
          by (cases "mode = UPDATES_MODE") (auto simp: ret_def seq_def split: prod.splits)
      qed
    qed
  qed
qed

lemma start_queued:
  assumes "db_ok d" "UUID i = Some u" "run_row d u = Some r" "status r = QUEUED"
  shows "\<exists>d'. start i d = (FIRST, d') \<and> db_ok d' \<and> run_row d' u = Some (r\<lparr>status := RUNNING\<rparr>) \<and> memory_jobs d' = memory_jobs d"
proof -
  obtain b d' where t: "transit_from i [QUEUED] (\<lambda>r. r\<lparr>status := RUNNING\<rparr>) d = (b, d')" by fastforce
  from transit_from_spec [OF assms(1) _ t] assms have "b" "db_ok d'" "memory_jobs d' = memory_jobs d"
    "run_row d' u = Some (r\<lparr>status := RUNNING\<rparr>)" by auto
  with t show ?thesis by (simp add: start_def)
qed

text \<open>A call that ends or suspends a live run succeeds.\<close>

lemma live_call_wins:
  assumes "db_ok d" "UUID i = Some u" "run_row d u = Some r" "status r \<in> set CANCELLABLE_STATUS"
    and "x \<in> {OpFail i c msg now, OpCancel i tk now, OpWait i t}"
  shows "\<exists>d' r'. repo_step x d = (True, d') \<and> run_row d' u = Some r' \<and> status r' = op_target x \<and>
    row_tokens r' = row_tokens r + op_tokens x"
proof -
  obtain b d' where st: "repo_step x d = (b, d')" by fastforce
  have b
  proof -
    have "\<exists>f. repo_step x d = transit_from i CANCELLABLE_STATUS f d \<and> (\<forall>r. run_pk (f r) = run_pk r)"
      using assms(5) by (auto simp: finalize_defs split: option.splits)
    then obtain f where f: "transit_from i CANCELLABLE_STATUS f d = (b, d')" "\<And>r. run_pk (f r) = run_pk r"
      using st by metis
    show b using transit_from_spec [OF assms(1) f(2,1)] assms by auto
  qed
  with repo_step_outcome [OF assms(1) st] st assms show ?thesis
    by (auto simp: op_outcome_def op_effect_def)
qed

text \<open>The end of a stream decides the end of the execution: the event that closes it, the state of the run and the
  tokens added to it.\<close>

fun failure_data :: "exn \<Rightarrow> EventData" where
  "failure_data (GraphRecursionError msg) =
     RunFailedData RECURSION_LIMIT (if msg = [] then ''RECURSION_LIMIT'' else msg) False"
| "failure_data e = RunFailedData INTERNAL (if exn_text e = [] then ''INTERNAL'' else exn_text e) False"

definition closing :: "Services \<Rightarrow> RunTask \<Rightarrow> TokenUsage result \<Rightarrow> EventData \<times> RunStatus \<times> TokenUsage" where
  "closing sv task res =
     (case result_bind res (\<lambda>t. result_bind (inspect sv task) (\<lambda>snap. Inr (t, snap))) of
        Inl e \<Rightarrow> (failure_data e, FAILED, 0)
      | Inr (t, snap) \<Rightarrow>
          if actions snap \<noteq> [] then (InterruptData (actions snap), WAITING_APPROVAL, t)
          else (RunFinishedData t, SUCCEEDED, t))"

lemma emit_now_quiet: "quiet w \<Longrightarrow> emit_now i p d w =
    (Inr (), w\<lparr>journal := journal w @ [\<lparr>ts = clock w, ev_run_id = i, path = p, data = d\<rparr>]\<rparr>)"
  by (simp add: emit_now_def emit_def quiet_def)

lemma quiet_updates [simp]:
  "quiet (w\<lparr>journal := j\<rparr>) = quiet w" "quiet (w\<lparr>db := d\<rparr>) = quiet w" "quiet (w\<lparr>pool_calls := p\<rparr>) = quiet w"
  "quiet (w\<lparr>usage_ledger := l\<rparr>) = quiet w"
  by (simp_all add: quiet_def)

lemma await_quiet' [simp]: "quiet w \<Longrightarrow> await m w = m w"
  by (simp add: quiet_def)

text \<open>A failed run, undisturbed.\<close>

lemma handle_failure_quiet:
  assumes "quiet w" "db_ok (db w)" "UUID i = Some u" "run_row (db w) u = Some r" "status r \<in> set CANCELLABLE_STATUS"
    and "e \<noteq> RunCancelledError"
  shows "\<exists>d r'. handle_failure i e w = (Inr (), w\<lparr>db := d, journal := journal w @
      [\<lparr>ts = clock w, ev_run_id = i, path = [], data = failure_data e\<rparr>]\<rparr>) \<and>
    run_row d u = Some r' \<and> status r' = FAILED \<and> row_tokens r' = row_tokens r"
proof -
  have run: "\<exists>d r'. fail_run i c msg False w = (Inr (), w\<lparr>db := d, journal := journal w @
      [\<lparr>ts = clock w, ev_run_id = i, path = [], data = RunFailedData c (if msg = [] then error_code_value c else msg) False\<rparr>]\<rparr>) \<and>
    run_row d u = Some r' \<and> status r' = FAILED \<and> row_tokens r' = row_tokens r" for c msg
  proof -
    let ?text = "if msg = [] then error_code_value c else msg"
    obtain d r' where "Run_Repository.fail i c ?text (clock w) (db w) = (True, d)" "run_row d u = Some r'"
        "status r' = FAILED" "row_tokens r' = row_tokens r"
      using live_call_wins [OF assms(2-5), of "OpFail i c ?text (clock w)" c ?text "clock w" None 0] by auto
    then show ?thesis
      using assms(1) by (auto simp: fail_run_def seq_def repo_fail_def emit_now_quiet Let_def)
  qed
  let ?c = "case e of GraphRecursionError _ \<Rightarrow> RECURSION_LIMIT | _ \<Rightarrow> INTERNAL"
  have "handle_failure i e = fail_run i ?c (exn_text e) False"
    "failure_data e = RunFailedData ?c (if exn_text e = [] then error_code_value ?c else exn_text e) False"
    using assms(6) by (cases e; simp)+
  with run [of ?c "exn_text e"] show ?thesis by simp
qed

text \<open>The stream and what follows it, undisturbed.\<close>

definition outbox_ok :: "RunTask \<Rightarrow> uuid \<Rightarrow> Db \<Rightarrow> bool" where
  "outbox_ok task u d \<longleftrightarrow>
     (case t_user_id task of
        None \<Rightarrow> True
      | Some x \<Rightarrow> UUID x \<noteq> None \<and> UUID (t_thread_id task) \<noteq> None \<and> u \<notin> mj_run ` set (memory_jobs d))"

lemma succeed_wins:
  assumes "db_ok d" "UUID i = Some u" "run_row d u = Some r" "status r \<in> set CANCELLABLE_STATUS"
    and mj: "\<And>j. mj = Some j \<Longrightarrow> UUID (mp_thread_id j) \<noteq> None \<and> UUID (mp_user_id j) \<noteq> None \<and> u \<notin> mj_run ` set (memory_jobs d)"
  shows "\<exists>d' r'. succeed i t mj now d = Inr (True, d') \<and> run_row d' u = Some r' \<and> status r' = SUCCEEDED \<and>
    row_tokens r' = row_tokens r + t"
proof -
  let ?f = "\<lambda>r. (add_tokens t r)\<lparr>status := SUCCEEDED, ended_at := Some now\<rparr>"
  obtain rows n where upd: "sql_update (\<lambda>r. run_pk r = u \<and> status r \<in> set CANCELLABLE_STATUS) ?f (runs d) = (rows, n)"
    by (meson surj_pair)
  note g = guarded_update [OF assms(1) _ upd]
  have n: "0 < n" and row: "run_row (d\<lparr>runs := rows\<rparr>) u = Some (?f r)" using g(2,3) assms(3,4) by auto
  have row': "run_row (d\<lparr>runs := rows, memory_jobs := js\<rparr>) u = Some (?f r)" for js
    using row by (simp add: run_row_def)
  show ?thesis
  proof (cases mj)
    case None
    then show ?thesis using assms(2) upd n row by (auto simp: succeed_def)
  next
    case (Some j)
    obtain a b where ids: "UUID (mp_thread_id j) = Some a" "UUID (mp_user_id j) = Some b" using mj [OF Some] by auto
    then show ?thesis using assms(2) upd n row' Some mj [OF Some] by (auto simp: succeed_def)
  qed
qed

lemma record_selector_usage_quiet:
  assumes "quiet w"
  shows "\<exists>l. record_selector_usage sv task ms w = (Inr (), w\<lparr>usage_ledger := l\<rparr>)"
proof -
  have "\<exists>l. (Inr (), w) = (Inr (), w\<lparr>usage_ledger := l\<rparr>)" by (intro exI [of _ "usage_ledger w"]) simp
  then show ?thesis
    using assms
    by (cases ms; cases "selector_ledger sv") (auto simp: record_selector_usage_def try_except_def ret_def split: prod.splits)
qed

lemma consume_quiet:
  assumes q: "quiet w" and flag: "t_run_id task \<notin> flags w" and ok: "db_ok (db w)" and u: "UUID (t_run_id task) = Some u"
    and r: "run_row (db w) u = Some r" "status r \<in> set CANCELLABLE_STATUS" and ob: "outbox_ok task u (db w)"
    and st: "start_stream sv task = (items, ending)"
    and pl: "play (clock w) items ending 0
       (new_mapper (t_run_id task) (known_tool_paths_of (filter (\<lambda>e. ev_run_id e = t_run_id task) (journal w)))) = (evs, res)"
    and cl: "closing sv task res = (d, s, t)"
  shows "(\<exists>e. result_bind res (\<lambda>t. result_bind (inspect sv task) (\<lambda>snap. Inr (t, snap))) = Inl e \<and>
      consume sv task w = (Inl e, w\<lparr>journal := journal w @ evs\<rparr>)) \<or>
    (\<exists>d' r' l p. consume sv task w = (Inr (), w\<lparr>db := d', usage_ledger := l, journal := journal w @ evs @
        [\<lparr>ts = clock w, ev_run_id = t_run_id task, path = p, data = d\<rparr>]\<rparr>) \<and>
      run_row d' u = Some r' \<and> status r' = s \<and> row_tokens r' = row_tokens r + t)"
proof -
  let ?i = "t_run_id task" and ?w1 = "w\<lparr>journal := journal w @ evs\<rparr>"
  have items: "consume_items ?i items ending 0
      (new_mapper ?i (known_tool_paths_of (filter (\<lambda>e. ev_run_id e = ?i) (journal w)))) w = (res, ?w1)"
    using consume_items_quiet [OF q flag] pl by simp
  have read: "log_read ?i w = (Inr (filter (\<lambda>e. ev_run_id e = ?i) (journal w)), w)" using q by (simp add: log_read_def)
  show ?thesis
  proof (cases "\<exists>e. result_bind res (\<lambda>t. result_bind (inspect sv task) (\<lambda>snap. Inr (t, snap))) = Inl e")
    case True
    then show ?thesis
      using q items read st by (cases res; cases "inspect sv task") (auto simp: consume_def seq_def)
  next
    case False
    then obtain tk snap where res: "res = Inr tk" and snap: "inspect sv task = Inr snap"
      by (cases res; cases "inspect sv task") auto
    obtain l where l: "record_selector_usage sv task (memory snap) ?w1 = (Inr (), ?w1\<lparr>usage_ledger := l\<rparr>)"
      using record_selector_usage_quiet [of ?w1 sv task "memory snap"] q by auto
    let ?w2 = "?w1\<lparr>usage_ledger := l\<rparr>"
    have w2: "quiet ?w2" "db ?w2 = db w" using q by auto
    show ?thesis
    proof (cases "actions snap = []")
      case True
      let ?mj = "case t_user_id task of None \<Rightarrow> None | Some x \<Rightarrow> if messages snap = [] then None
        else Some \<lparr>mp_thread_id = t_thread_id task, mp_user_id = x, mp_messages = messages snap\<rparr>"
      have mj: "UUID (mp_thread_id j) \<noteq> None \<and> UUID (mp_user_id j) \<noteq> None \<and> u \<notin> mj_run ` set (memory_jobs (db w))"
        if "?mj = Some j" for j
        using that ob by (auto simp: outbox_ok_def split: option.splits if_splits)
      obtain d' r' where win: "succeed ?i tk ?mj (clock w) (db w) = Inr (True, d')" "run_row d' u = Some r'"
          "status r' = SUCCEEDED" "row_tokens r' = row_tokens r + tk"
        using succeed_wins [OF ok u r, of ?mj tk "clock w"] mj by blast
      have "repo_succeed ?i tk ?mj ?w2 = (Inr True, ?w2\<lparr>db := d'\<rparr>)"
        using q win(1) by (simp add: repo_succeed_def)
      moreover have "suspend task tk (actions snap) ?w2 = (Inr False, ?w2)" using True by (simp add: suspend_def ret_def)
      moreover have "d = RunFinishedData tk" "s = SUCCEEDED" "t = tk" using cl res snap True by (auto simp: closing_def)
      ultimately show ?thesis
        using q items read st res snap l win
        by (intro disjI2 exI [of _ d'] exI [of _ r'] exI [of _ l] exI [of _ "[]"])
          (simp add: consume_def seq_def emit_now_quiet)
    next
      case acts: False
      obtain d' r' where win: "wait_approval ?i tk (db w) = (True, d')" "run_row d' u = Some r'"
          "status r' = WAITING_APPROVAL" "row_tokens r' = row_tokens r + tk"
        using live_call_wins [OF ok u r, of "OpWait ?i tk" INTERNAL "[]" 0 None tk] by auto
      have "repo_wait_approval ?i tk ?w2 = (Inr True, ?w2\<lparr>db := d'\<rparr>)"
        using q win(1) by (simp add: repo_wait_approval_def)
      moreover have "d = InterruptData (actions snap)" "s = WAITING_APPROVAL" "t = tk"
        using cl res snap acts by (auto simp: closing_def)
      ultimately show ?thesis
        using q items read st res snap l win acts
        by (intro disjI2 exI [of _ d'] exI [of _ r'] exI [of _ l]
            exI [of _ "pending_action_path (filter (\<lambda>e. ev_run_id e = ?i) (journal w @ evs)) (actions snap)"])
          (simp add: consume_def seq_def suspend_def log_read_def emit_now_quiet ret_def)
    qed
  qed
qed

lemma known_tool_paths_append:
  "\<forall>e \<in> set es. event_type e \<noteq> TOOL_CALL \<Longrightarrow> known_tool_paths_of (xs @ es) = known_tool_paths_of xs"
proof (induction es rule: rev_induct)
  case (snoc e es)
  then show ?case by (cases "data e") (auto simp: known_tool_paths_of_def event_type_def)
qed simp

end
