(* ===== verification/Run_Outcome.thy ===== *)
theory Run_Outcome
  imports Run_Executor
begin

text \<open>
  The properties of the run executor (\<open>app/run/executor.py\<close>): what an execution leaves behind whatever
  the rest of the system does at its awaits, what it leaves behind undisturbed, and two cases in which it
  does not do what its documentation says.
\<close>

section \<open>Example\<close>

text \<open>One run of thread \<open>7\<close>, an agent that calls a tool once and an idle environment.\<close>

definition example_task :: RunTask where
  "example_task = \<lparr>t_run_id = uuid_hex 1, t_thread_id = uuid_hex 7, t_content = ''q'', t_user_id = Some (uuid_hex 5),
     t_user_context = None, t_agent_config = default_config, t_decisions = None\<rparr>"

definition example_snapshot :: AgentSnapshot where
  "example_snapshot = \<lparr>actions = [], messages = [[(''role'', ''user'')]], memory = None\<rparr>"

definition example_services :: Services where
  "example_services = \<lparr>thread_guard = None, pool_acquire = \<lambda>_ _. ([], False, None), align = \<lambda>_ _. Inr (),
     stream = \<lambda>_. ([Selector_usage (TokenUsage 1 2 3), Chunk [] ''updates'' example_update], None),
     resume_stream = \<lambda>_ _. ([], None), inspect = \<lambda>_. Inr example_snapshot, selector_ledger = None\<rparr>"

definition example_world :: "RunStatus \<Rightarrow> env_act list list \<Rightarrow> World" where
  "example_world s acts = \<lparr>db = example_db s, journal = [], flags = {}, pool_calls = [], usage_ledger = [], outbox = [],
     owed = [], clock = 9, fault = None, sched = acts\<rparr>"

lemmas example_defs = example_task_def example_snapshot_def example_services_def example_world_def

lemma example_ledger_ok: "ledger_ok 1 (example_world s acts)"
  by (simp add: ledger_ok_def example_world_def example_db_ok terms_def)

lemma example_row_1: "run_row (example_db s) 1 = Some (example_row 1 s)"
  by (simp add: run_row_def example_db_def example_row_def)

section \<open>Properties\<close>

text \<open>C2. A run announces its end at most once, and the announcement is the state stored. Whatever the api,
  the reaper, other workers and failing services do at any await of the execution, if every other process appends
  a terminal event only after winning the run's end state, then after the execution, whether it returned
  or raised, each run has at most one terminal event (appended, or owed by the process that won), and that event
  announces the status in the runs table.\<close>

theorem one_terminal_event:
  assumes "ledger_ok u w" "execute sv task w = (r, w')"
  shows "db_ok (db w') \<and> length (terms u w') \<le> 1 \<and>
    (\<forall>e \<in> set (terms u w'). announced_status (event_type e) = row_status (db w') u)"
proof -
  have "ledger_ok u w'" using keepsD [OF execute_ledger assms(1), of sv task] assms(2) by simp
  then show ?thesis by (auto simp: ledger_ok_def)
qed

text \<open>The teacher cancels the run, with the api's terminal event outstanding, while the worker reads the flag.\<close>

theorem one_terminal_event_witness:
  "length (terms 1 (snd (execute example_services example_task
     (example_world RUNNING [[Repo_call (OpCancel (uuid_hex 1) None 9), Pay], [], [Raise_flag (uuid_hex 1)]])))) \<le> 1"
proof -
  let ?w = "example_world RUNNING [[Repo_call (OpCancel (uuid_hex 1) None 9), Pay], [], [Raise_flag (uuid_hex 1)]]"
  obtain r w' where run: "execute example_services example_task ?w = (r, w')" by fastforce
  from one_terminal_event [OF example_ledger_ok run] run show ?thesis by simp
qed

text \<open>C34. Every sandbox that an acquire returned is released exactly once. Whatever happens at the awaits, the calls of the
  pool that an execution makes are none; or one acquire that raised; or one acquire and then one release, by the same holder. An
  execution that returns has made no others; one that raises may also have acquired and not released (the
  append of \<open>sandbox.ready\<close> raised), or have made a release that raised. After an acquire that raised nothing is released, also
  when the broker has granted the sandbox by then.\<close>

theorem sandbox_given_back:
  assumes "execute sv task w = (r, w')" "t = t_thread_id task" "i = t_run_id task"
  shows "\<exists>cs. pool_calls w' = pool_calls w @ cs \<and>
    (cs = [] \<or> cs = [Acquire_failed t i (fst (snd (pool_acquire sv t i)))] \<or> cs = [Acquired t i, Released t i] \<or>
     cs \<in> {[Acquired t i], [Acquired t i, Release_failed t i]} \<and> r \<noteq> Inr ())"
proof -
  have "silent (guard_active sv task)"
    unfolding guard_active_def by (auto intro!: step_intros split: option.splits) (simp add: silent_def)
  moreover have "silent (align_skills sv task)"
    unfolding align_skills_def by (auto intro!: step_intros split: option.splits list.splits) (simp add: silent_def)
  ultimately have core: "paired sv task (seq (emit_now (t_run_id task) [] d) (\<lambda>_. seq (acquire sv task) (\<lambda>acquired.
      if \<not> acquired then ret () else try_finally
        (try_except (seq (align_skills sv task) (\<lambda>_. consume sv task)) (handle_failure (t_run_id task)))
        (pool_release (t_thread_id task) (t_run_id task)))))" for d
    by (intro paired_seq paired_acquire silent_emit_now silent_rules(3,4) silent_consume silent_handle)
  have stop: "paired sv task (stop_run (t_run_id task) t)" "paired sv task (ret ())" for t
    by (intro paired_silent step_intros)+
  have "paired sv task (execute sv task)"
    unfolding execute_def drive_def Let_def
    by (intro paired_seq paired_if stop core silent_ops \<open>silent (guard_active sv task)\<close>)
  then show ?thesis using assms unfolding paired_def paired_calls_def Let_def by simp
qed

text \<open>The cancel flag goes up as the run, which then has to queue for its sandbox, is started.\<close>

theorem sandbox_given_back_witness:
  "\<exists>cs. pool_calls (snd (execute (example_services\<lparr>pool_acquire := \<lambda>_ _. ([2, 1], False, None)\<rparr>) example_task
      (example_world QUEUED [[], [], [Raise_flag (uuid_hex 1)]]))) = cs \<and>
    (cs = [] \<or> cs = [Acquire_failed (uuid_hex 7) (uuid_hex 1) False] \<or>
     cs = [Acquired (uuid_hex 7) (uuid_hex 1), Released (uuid_hex 7) (uuid_hex 1)] \<or>
     cs \<in> {[Acquired (uuid_hex 7) (uuid_hex 1)],
       [Acquired (uuid_hex 7) (uuid_hex 1), Release_failed (uuid_hex 7) (uuid_hex 1)]})"
proof -
  let ?sv = "example_services\<lparr>pool_acquire := \<lambda>_ _. ([2, 1], False, None)\<rparr>"
  let ?w = "example_world QUEUED [[], [], [Raise_flag (uuid_hex 1)]]"
  obtain r w' where run: "execute ?sv example_task ?w = (r, w')" by fastforce
  from sandbox_given_back [OF run refl refl] run show ?thesis by (auto simp: example_world_def example_task_def)
qed

text \<open>A redelivered task of a run that has ended does nothing: undisturbed, the execution returns and the
  world, with its tables, events, sandbox calls and ledgers, is unchanged.\<close>

theorem redelivery_is_noop:
  assumes "quiet w" "db_ok (db w)" "UUID (t_run_id task) = Some u"
    and "row_status (db w) u = Some s" "s \<in> TERMINAL_STATUS"
  shows "execute sv task w = (Inr (), w)"
proof -
  have refused: "transit_from (t_run_id task) allowed f (db w) = (False, db w)"
    if "\<And>r. run_pk (f r) = run_pk r" "set allowed \<inter> TERMINAL_STATUS = {}" for allowed f
  proof -
    obtain b d where t: "transit_from (t_run_id task) allowed f (db w) = (b, d)" by fastforce
    from transit_from_spec [OF assms(2) that(1) t] assms(3-5) that(2) t show ?thesis
      by (auto simp: row_status_def)
  qed
  have "start (t_run_id task) (db w) = (REFUSED, db w)"
    using refused [of "\<lambda>r. r\<lparr>status := RUNNING\<rparr>"] by (simp add: start_def status_sets)
  then have start: "repo_start (t_run_id task) w = (Inr REFUSED, w)"
    using assms(1) by (simp add: repo_start_def quiet_def)
  have "cancel (t_run_id task) (Some 0) (clock w) (db w) = (False, db w)"
    unfolding finalize_defs by (rule refused) (auto simp: status_sets)
  then have stop: "stop_run (t_run_id task) 0 w = (Inr (), w)"
    using assms(1) by (simp add: stop_run_def repo_cancel_def quiet_def ret_def seq_def)
  have raised: "is_raised (t_run_id task) w = (Inr (t_run_id task \<in> flags w), w)"
    using assms(1) by (simp add: is_raised_def quiet_def)
  obtain b where guard: "guard_active sv task w = (Inr b, w)"
    using assms(1) by (cases "thread_guard sv"; cases "t_user_id task") (auto simp: guard_active_def quiet_def ret_def)
  show ?thesis
    by (simp add: execute_def drive_def seq_def raised guard start stop) (simp add: ret_def)
qed

theorem redelivery_is_noop_witness:
  "execute example_services example_task (example_world CANCELLED []) = (Inr (), example_world CANCELLED [])"
proof -
  have "quiet (example_world CANCELLED [])" "db_ok (db (example_world CANCELLED []))"
    "UUID (t_run_id example_task) = Some 1" "row_status (db (example_world CANCELLED [])) 1 = Some CANCELLED"
    by (simp_all add: quiet_def example_world_def example_db_ok example_status example_task_def del: One_nat_def)
  from redelivery_is_noop [OF this] show ?thesis by (simp add: TERMINAL_STATUS_def)
qed

text \<open>C3. The outcome of a first execution that nobody disturbs is determined by the agent. For a queued run of a thread
  that still exists, whose cancel flag is down, whose sandbox is granted (at once or after any queue) and
  for which no memory job exists yet (the tables being consistent and the identifiers UUIDs), while nothing else acts and no
  service fails except as the agent, the skill store or the stream decide, none of which raises the executor's own
  \<open>RunCancelledError\<close>: the events are \<open>run.started\<close>, the positions in the queue, \<open>sandbox.ready\<close>, the events of the
  stream in order, and one closing event; the run ends succeeded, suspended for approval or failed as that event says, with
  exactly the tokens of the stream added (none if it failed); and the sandbox has been given back. If the skills cannot be
  aligned, the stream is not started and the run fails with that error.\<close>

theorem run_outcome:
  assumes q: "quiet w" and ok: "db_ok (db w)" and u: "UUID (t_run_id task) = Some u"
    and r: "run_row (db w) u = Some r" "status r = QUEUED" and flag: "t_run_id task \<notin> flags w"
    and guard: "guard_active sv task w = (Inr True, w)"
    and pool: "pool_acquire sv (t_thread_id task) (t_run_id task) = (ns, g, None)"
    and ob: "outbox_ok task u (db w)"
    and st: "start_stream sv task = (items, ending)"
    and pl: "play (clock w) items ending 0
       (new_mapper (t_run_id task) (known_tool_paths_of (filter (\<lambda>e. ev_run_id e = t_run_id task) (journal w)))) = (evs, res)"
    and cl: "closing sv task (result_bind (alignment sv task) (\<lambda>_. res)) = (d, s, t)"
    and own: "alignment sv task \<noteq> Inl RunCancelledError" "res \<noteq> Inl RunCancelledError"
      "inspect sv task \<noteq> Inl RunCancelledError"
  shows "\<exists>w' r' p. execute sv task w = (Inr (), w') \<and>
    journal w' = journal w @
      [\<lparr>ts = clock w, ev_run_id = t_run_id task, path = [],
        data = RunStartedData (t_thread_id task) (t_decisions task \<noteq> None)\<rparr>] @
      queued_events (clock w) (t_run_id task) ns @
      [\<lparr>ts = clock w, ev_run_id = t_run_id task, path = [], data = SandboxReadyData\<rparr>] @
      (case alignment sv task of Inl _ \<Rightarrow> [] | Inr _ \<Rightarrow> evs) @
      [\<lparr>ts = clock w, ev_run_id = t_run_id task, path = p, data = d\<rparr>] \<and>
    run_row (db w') u = Some r' \<and> status r' = s \<and> row_tokens r' = row_tokens r + t \<and>
    pool_calls w' = pool_calls w @
      [Acquired (t_thread_id task) (t_run_id task), Released (t_thread_id task) (t_run_id task)]"
proof -
  let ?i = "t_run_id task" and ?t = "t_thread_id task"
  let ?e1 = "\<lparr>ts = clock w, ev_run_id = ?i, path = [], data = RunStartedData ?t (t_decisions task \<noteq> None)\<rparr>"
  let ?e2 = "\<lparr>ts = clock w, ev_run_id = ?i, path = [], data = SandboxReadyData\<rparr>"
  let ?es = "[?e1] @ queued_events (clock w) ?i ns @ [?e2]"
  obtain d1 where d1: "start ?i (db w) = (FIRST, d1)" "db_ok d1" "run_row d1 u = Some (r\<lparr>status := RUNNING\<rparr>)"
      "memory_jobs d1 = memory_jobs (db w)"
    using start_queued [OF ok u r] by blast
  let ?w1 = "w\<lparr>db := d1, pool_calls := pool_calls w @ [Acquired ?t ?i], journal := journal w @ ?es\<rparr>"
  let ?body = "try_except (seq (align_skills sv task) (\<lambda>_. consume sv task)) (handle_failure ?i)"
  have exec: "execute sv task w = try_finally ?body (pool_release ?t ?i) ?w1"
    using q flag guard d1(1) pool
    by (simp add: execute_def drive_def seq_def is_raised_def repo_start_def emit_now_quiet acquire_def
        pool_acquire_call_def announce_all_quiet note_call_def try_except_def ret_def)
  have align: "align_skills sv task ?w1 = (alignment sv task, ?w1)" using q by (simp add: align_skills_quiet)
  have w1: "quiet ?w1" "?i \<notin> flags ?w1" "db_ok (db ?w1)" "run_row (db ?w1) u = Some (r\<lparr>status := RUNNING\<rparr>)"
    "status (r\<lparr>status := RUNNING\<rparr>) \<in> set CANCELLABLE_STATUS" "outbox_ok task u (db ?w1)"
    using q flag d1 ob by (auto simp: CANCELLABLE_STATUS_def outbox_ok_def cong: option.case_cong)
  have failed: "\<exists>w2 r' p. handle_failure ?i e (?w1\<lparr>journal := journal ?w1 @ es\<rparr>) = (Inr (), w2) \<and> quiet w2 \<and>
      pool_calls w2 = pool_calls ?w1 \<and>
      journal w2 = journal ?w1 @ es @ [\<lparr>ts = clock w, ev_run_id = ?i, path = p, data = failure_data e\<rparr>] \<and>
      run_row (db w2) u = Some r' \<and> status r' = FAILED \<and> row_tokens r' = row_tokens r"
    if "e \<noteq> RunCancelledError" for e es
    using handle_failure_quiet [of "?w1\<lparr>journal := journal ?w1 @ es\<rparr>" ?i u "r\<lparr>status := RUNNING\<rparr>" e] w1 u that by fastforce
  have "\<exists>w2 r' p. ?body ?w1 = (Inr (), w2) \<and> quiet w2 \<and> pool_calls w2 = pool_calls ?w1 \<and>
      journal w2 = journal ?w1 @ (case alignment sv task of Inl _ \<Rightarrow> [] | Inr _ \<Rightarrow> evs) @
        [\<lparr>ts = clock w, ev_run_id = ?i, path = p, data = d\<rparr>] \<and>
      run_row (db w2) u = Some r' \<and> status r' = s \<and> row_tokens r' = row_tokens r + t"
  proof (cases "alignment sv task")
    case (Inl e)
    then have "d = failure_data e" "s = FAILED" "t = 0" using cl by (auto simp: closing_def)
    then show ?thesis using failed [of e "[]"] own align Inl by (auto simp: try_except_def seq_def)
  next
    case (Inr x)
    have "known_tool_paths_of (filter (\<lambda>e. ev_run_id e = ?i) (journal ?w1)) =
        known_tool_paths_of (filter (\<lambda>e. ev_run_id e = ?i) (journal w))"
      by (simp, rule known_tool_paths_append) (auto simp: event_type_def queued_events_def)
    then have pl1: "play (clock ?w1) items ending 0
        (new_mapper ?i (known_tool_paths_of (filter (\<lambda>e. ev_run_id e = ?i) (journal ?w1)))) = (evs, res)"
      using pl by simp
    have cl1: "closing sv task res = (d, s, t)" using cl Inr by simp
    show ?thesis
      using consume_quiet [OF w1(1-3) u w1(4-6) st pl1 cl1]
    proof (elim disjE exE conjE)
      fix e
      assume e: "result_bind res (\<lambda>t. result_bind (inspect sv task) (\<lambda>snap. Inr (t, snap))) = Inl e"
        and run: "consume sv task ?w1 = (Inl e, ?w1\<lparr>journal := journal ?w1 @ evs\<rparr>)"
      have "e \<noteq> RunCancelledError" using e own by (cases res; cases "inspect sv task") auto
      moreover have "d = failure_data e" "s = FAILED" "t = 0" using cl1 e by (auto simp: closing_def)
      ultimately show ?thesis using failed [of e evs] run align Inr by (auto simp: try_except_def seq_def)
    next
      fix d' r' l p
      assume "consume sv task ?w1 = (Inr (), ?w1\<lparr>db := d', usage_ledger := l, journal := journal ?w1 @ evs @
          [\<lparr>ts = clock ?w1, ev_run_id = ?i, path = p, data = d\<rparr>]\<rparr>)"
        "run_row d' u = Some r'" "status r' = s" "row_tokens r' = row_tokens (r\<lparr>status := RUNNING\<rparr>) + t"
      then show ?thesis using align w1(1) Inr by (auto simp: try_except_def seq_def)
    qed
  qed
  then show ?thesis unfolding exec by (auto simp: try_finally_def pool_release_def note_call_def try_except_def)
qed

lemma example_play:
  "play 9 (fst (stream example_services example_task)) None 0 (new_mapper (uuid_hex 1) Map.empty) =
    ([\<lparr>ts = 9, ev_run_id = uuid_hex 1, path = [], data = ToolCallData ''c1'' ''task'' [(''subagent_type'', PStr ''coder'')]\<rparr>],
     Inr (TokenUsage 1 2 3))"
proof -
  have usage: "token_usage ''updates'' example_update = Inr 0"
    by (simp add: token_usage_def example_update_def update_messages_def dict_get_def UPDATES_MODE_def example_call_def)
  have "map_chunk 9 [] ''updates'' example_update (new_mapper (uuid_hex 1) Map.empty) =
     (Inr [\<lparr>ts = 9, ev_run_id = uuid_hex 1, path = [], data = ToolCallData ''c1'' ''task'' [(''subagent_type'', PStr ''coder'')]\<rparr>],
      (new_mapper (uuid_hex 1) Map.empty)\<lparr>pending_subagents := [''coder''], seen_task_calls := {''c1''}\<rparr>)"
    by (simp add: map_chunk_def example_update_def example_call_def new_mapper_def remember_subagents_def dict_get_def
      MODEL_NODE_def remember_message_def remember_call_def SUBAGENT_TYPE_ARG_def TASK_TOOL_def map_update_def
      map_one_update_def map_compaction_def map_todos_def map_node_def map_tool_call_def tool_call_event_def
      SUMMARIZATION_KEY_def TODO_KEY_def stamped_def)
  with usage show ?thesis by (simp add: example_services_def)
qed

definition queueing_services :: Services where
  "queueing_services = example_services\<lparr>pool_acquire := \<lambda>_ _. ([1], False, None)\<rparr>"

definition skilled_task :: RunTask where
  "skilled_task = example_task\<lparr>t_agent_config :=
     default_config\<lparr>skills := Some [\<lparr>skill_id = uuid_hex 3, sk_version = 1, sk_name = ''s''\<rparr>]\<rparr>\<rparr>"

text \<open>A run that waits one place in the queue and whose task names a skill.\<close>

theorem run_outcome_witness:
  "\<exists>w' r' p. execute queueing_services skilled_task (example_world QUEUED []) = (Inr (), w') \<and>
    map data (journal w') = [RunStartedData (uuid_hex 7) False, SandboxQueuedData 1, SandboxReadyData,
      ToolCallData ''c1'' ''task'' [(''subagent_type'', PStr ''coder'')], RunFinishedData (TokenUsage 1 2 3)] \<and>
    run_row (db w') 1 = Some r' \<and> status r' = SUCCEEDED \<and> row_tokens r' = TokenUsage 1 2 3 \<and>
    pool_calls w' = [Acquired (uuid_hex 7) (uuid_hex 1), Released (uuid_hex 7) (uuid_hex 1)]"
proof -
  let ?w = "example_world QUEUED []"
  note defs = example_defs queueing_services_def skilled_task_def
  have align: "alignment queueing_services skilled_task = Inr ()" by (simp add: alignment_def defs)
  have hyps: "quiet ?w" "db_ok (db ?w)" "UUID (t_run_id skilled_task) = Some 1"
    "run_row (db ?w) 1 = Some (example_row 1 QUEUED)" "status (example_row 1 QUEUED) = QUEUED"
    "t_run_id skilled_task \<notin> flags ?w" "guard_active queueing_services skilled_task ?w = (Inr True, ?w)"
    "pool_acquire queueing_services (t_thread_id skilled_task) (t_run_id skilled_task) = ([1], False, None)"
    "outbox_ok skilled_task 1 (db ?w)"
    "start_stream queueing_services skilled_task = (fst (stream example_services example_task), None)"
    by (simp_all add: quiet_def defs example_row_def guard_active_def ret_def
        outbox_ok_def example_db_def start_stream_def db_ok_def run_row_def)
  have play: "play (clock ?w) (fst (stream example_services example_task)) None 0
      (new_mapper (t_run_id skilled_task) (known_tool_paths_of
        (filter (\<lambda>e. ev_run_id e = t_run_id skilled_task) (journal ?w)))) =
    ([\<lparr>ts = 9, ev_run_id = uuid_hex 1, path = [], data = ToolCallData ''c1'' ''task'' [(''subagent_type'', PStr ''coder'')]\<rparr>],
     Inr (TokenUsage 1 2 3))"
    using example_play by (simp add: example_world_def example_task_def skilled_task_def known_tool_paths_of_def)
  have "closing queueing_services skilled_task
      (result_bind (alignment queueing_services skilled_task) (\<lambda>_. Inr (TokenUsage 1 2 3))) =
      (RunFinishedData (TokenUsage 1 2 3), SUCCEEDED, TokenUsage 1 2 3)"
    by (simp only: align result_bind.simps) (simp add: closing_def defs)
  from run_outcome [OF hyps play this] align show ?thesis
    by (auto simp: defs example_row_def row_tokens_def plus_TokenUsage_def queued_events_def)
qed

text \<open>When the event log fails at the moment \<open>sandbox.ready\<close> is appended, the execution raises although it
  is documented not to: the sandbox stays acquired, the run stays running and no event tells its end.\<close>

theorem ready_event_fault_leaks_sandbox:
  "\<exists>w'. execute example_services example_task (example_world QUEUED [[], [], [], [], [Fault (OtherError ''redis'')]]) =
      (Inl (OtherError ''redis''), w') \<and>
    pool_calls w' = [Acquired (uuid_hex 7) (uuid_hex 1)] \<and> row_status (db w') 1 = Some RUNNING \<and> terms 1 w' = []"
  by (simp add: execute_def drive_def seq_def example_defs is_raised_def await_def Let_def guard_active_def ret_def
      repo_start_def start_def transit_from_def sql_update_def example_db_def example_row_def CANCELLABLE_STATUS_def row_status_def run_row_def terms_def is_terminal_event_def event_type_def TERMINAL_EVENT_TYPE_def
      emit_now_def emit_def acquire_def pool_acquire_call_def note_call_def try_except_def)

text \<open>When the response stream of an acquire breaks after the broker granted the sandbox, the run fails and the execution returns
  without a release: the broker keeps the sandbox reserved for a holder that has ended.\<close>

theorem granted_sandbox_lost:
  "\<exists>w'. execute (example_services\<lparr>pool_acquire := \<lambda>_ _. ([], True, Some (OtherError ''stream cut''))\<rparr>)
      example_task (example_world QUEUED []) = (Inr (), w') \<and>
    pool_calls w' = [Acquire_failed (uuid_hex 7) (uuid_hex 1) True] \<and> row_status (db w') 1 = Some FAILED"
  by (simp add: execute_def drive_def seq_def example_defs is_raised_def await_def Let_def guard_active_def ret_def throw_def
      repo_start_def start_def transit_from_def sql_update_def example_db_def example_row_def CANCELLABLE_STATUS_def row_status_def
      run_row_def emit_now_def emit_def acquire_def pool_acquire_call_def note_call_def try_except_def fail_run_def repo_fail_def
      finalize_defs)

text \<open>A message whose usage has a negative output count makes the token count raise, and with
  it the run, although a missing or odd count is documented never to fail a run.\<close>

theorem negative_usage_raises:
  "split_usage [(''output_tokens'', PInt (-1))] = Inl ValidationError"
  by (simp add: split_usage_def as_int_def dict_get_def mk_token_usage_def Let_def valid_tokens_def)

end
