(* ===== verification/Event_Id.thy ===== *)
theory Event_Id
  imports Prelude "HOL-Library.Product_Lexorder"
begin

unbundle bit_operations_syntax

text \<open>
  Event identifiers: parsing a \<open>milliseconds-sequence\<close> id (\<open>parse_event_id\<close> and \<open>_validate\<close> of
  \<open>app/run/log.py\<close>) and the packing of an id into the sortable \<open>bigint\<close> key of the archive table
  (\<open>pack\<close> and \<open>unpack\<close> of \<open>app/run/archive.py\<close>). Ids are compared as pairs, in lexicographic order.
\<close>

definition ID_SEPARATOR :: char where
  "ID_SEPARATOR = CHR ''-''"

definition parse_event_id :: "string \<Rightarrow> (nat \<times> nat) result" where
  "parse_event_id event_id =
     (case str_partition ID_SEPARATOR event_id of
        (millisecond, separator, sequence) \<Rightarrow>
          if \<not> separator \<or> \<not> str_isdigit millisecond \<or> \<not> str_isdigit sequence
          then Inl InvalidEventIdError
          else result_bind (int_of_digits millisecond) (\<lambda>ms.
               result_bind (int_of_digits sequence) (\<lambda>sq. Inr (ms, sq))))"

text \<open>\<open>_validate\<close>: the id itself, once it parses.\<close>

definition validate :: "string \<Rightarrow> string result" where
  "validate event_id = result_bind (parse_event_id event_id) (\<lambda>_. Inr event_id)"

definition SEQUENCE_BIT :: nat where
  "SEQUENCE_BIT = 20"

definition SEQUENCE_MASK :: nat where
  "SEQUENCE_MASK = push_bit SEQUENCE_BIT 1 - 1"

definition pack :: "string \<Rightarrow> nat result" where
  "pack event_id =
     result_bind (parse_event_id event_id) (\<lambda>(millisecond, sequence).
       Inr (push_bit SEQUENCE_BIT millisecond OR sequence))"

definition unpack :: "nat \<Rightarrow> string" where
  "unpack seq =
     dec_string (drop_bit SEQUENCE_BIT seq) @ ID_SEPARATOR # dec_string (seq AND SEQUENCE_MASK)"

text \<open>The spelling of an id that Redis assigns.\<close>

definition event_id_of :: "nat \<Rightarrow> nat \<Rightarrow> string" where
  "event_id_of ms sq = dec_string ms @ ID_SEPARATOR # dec_string sq"

section \<open>Lemmas\<close>

lemma parse_event_id_of:
  assumes "ms < 10 ^ int_max_str_digits" and "sq < 10 ^ int_max_str_digits"
  shows "parse_event_id (event_id_of ms sq) = Inr (ms, sq)"
proof -
  have "str_isdigit (dec_string n)" for n
    by (simp add: str_isdigit_def is_decimal_is_digit)
  then show ?thesis
    using assms
    by (simp add: parse_event_id_def event_id_of_def ID_SEPARATOR_def str_partition_append
        int_of_digits_dec_string)
qed

lemma int_max_big: "(2::nat) ^ 64 < 10 ^ int_max_str_digits"
proof -
  have "(2::nat) ^ 64 < 10 ^ 20" by simp
  also have "(10::nat) ^ 20 \<le> 10 ^ int_max_str_digits"
    by (rule power_increasing) (simp_all add: int_max_str_digits_def)
  finally show ?thesis .
qed

text \<open>Ids as Redis assigns them: both parts fit into 64 bits.\<close>

lemma parse_event_id_redis:
  "ms < 2 ^ 64 \<Longrightarrow> sq < 2 ^ 64 \<Longrightarrow> parse_event_id (event_id_of ms sq) = Inr (ms, sq)"
  by (rule parse_event_id_of) (use int_max_big in simp_all)

lemma pack_arith:
  assumes "sq < 2 ^ SEQUENCE_BIT"
  shows "push_bit SEQUENCE_BIT ms OR sq = ms * 2 ^ SEQUENCE_BIT + (sq :: nat)"
proof -
  have "take_bit SEQUENCE_BIT sq = sq" using assms by (simp add: take_bit_nat_eq_self_iff)
  moreover have "push_bit SEQUENCE_BIT ms AND take_bit SEQUENCE_BIT sq = 0"
    by (auto simp: bit_eq_iff bit_simps)
  ultimately have "push_bit SEQUENCE_BIT ms AND sq = 0" by simp
  from disjunctive_add_eq_or [OF this] show ?thesis by (simp add: push_bit_eq_mult)
qed

lemma pack_parsed:
  "parse_event_id e = Inr (ms, sq) \<Longrightarrow> sq < 2 ^ SEQUENCE_BIT \<Longrightarrow>
   pack e = Inr (ms * 2 ^ SEQUENCE_BIT + sq)"
  by (simp add: pack_def pack_arith)

lemma unpack_arith:
  "sq < 2 ^ SEQUENCE_BIT \<Longrightarrow> unpack (ms * 2 ^ SEQUENCE_BIT + sq) = event_id_of ms sq"
proof -
  assume sq: "sq < 2 ^ SEQUENCE_BIT"
  have "SEQUENCE_MASK = mask SEQUENCE_BIT"
    by (simp add: SEQUENCE_MASK_def mask_eq_exp_minus_1 push_bit_eq_mult)
  then have "x AND SEQUENCE_MASK = x mod 2 ^ SEQUENCE_BIT" for x :: nat
    by (metis take_bit_eq_mask take_bit_eq_mod)
  with sq show ?thesis by (simp add: unpack_def event_id_of_def drop_bit_eq_div)
qed

text \<open>The packed key orders ids exactly as the pairs are ordered.\<close>

lemma packed_less_iff:
  fixes ms sq ms' sq' B :: nat
  assumes "sq < B" and "sq' < B"
  shows "ms * B + sq < ms' * B + sq' \<longleftrightarrow> (ms, sq) < (ms', sq')"
proof -
  have *: "a * B + x < b * B + y" if "a < b" "x < B" for a b x y :: nat
  proof -
    have "a * B + x < Suc a * B" using that(2) by simp
    also have "\<dots> \<le> b * B" using that(1) by (intro mult_le_mono1) simp
    finally show ?thesis by simp
  qed
  show ?thesis
    using * [of ms ms' sq sq'] * [of ms' ms sq' sq] assms
    by (cases ms ms' rule: linorder_cases) auto
qed

text \<open>A superscript digit passes \<open>str.isdigit\<close> but not \<open>int\<close>.\<close>

lemma parse_event_id_superscript: "parse_event_id (CHR 0xB2 # ''-0'') = Inl ValueError"
  by (simp add: parse_event_id_def ID_SEPARATOR_def str_isdigit_def is_digit_char_def
      is_decimal_def int_of_digits_def)

text \<open>C38. Packing an event id into the archive key and unpacking it returns the id, and the
  integer order of the keys is the order of the ids, as long as the sequence numbers stay below
  the 20 bits reserved for them; below \<open>2 ^ 43\<close> milliseconds the key fits into a signed 64-bit
  column.\<close>

theorem pack_roundtrip_order:
  assumes "ms < 2 ^ 43" "sq < 2 ^ 20" "ms' < 2 ^ 43" "sq' < 2 ^ 20"
  shows "\<exists>k k'. pack (event_id_of ms sq) = Inr k \<and> pack (event_id_of ms' sq') = Inr k' \<and>
     unpack k = event_id_of ms sq \<and> unpack k' = event_id_of ms' sq' \<and>
     k < 2 ^ 63 \<and> (k < k' \<longleftrightarrow> (ms, sq) < (ms', sq'))"
proof -
  have p: "pack (event_id_of a b) = Inr (a * 2 ^ SEQUENCE_BIT + b)"
    if "a < 2 ^ 43" "b < 2 ^ 20" for a b
    by (rule pack_parsed [OF parse_event_id_redis]) (use that in \<open>simp_all add: SEQUENCE_BIT_def\<close>)
  have "ms * 2 ^ 20 + sq < 2 ^ 63"
  proof -
    have "ms * 2 ^ 20 + sq < Suc ms * 2 ^ 20" using assms(2) by simp
    also have "\<dots> \<le> 2 ^ 43 * 2 ^ 20" using assms(1) by (intro mult_le_mono1) simp
    finally show ?thesis by simp
  qed
  then show ?thesis
    using p [OF assms(1,2)] p [OF assms(3,4)] unpack_arith [of sq ms] unpack_arith [of sq' ms']
      packed_less_iff [of sq "2 ^ 20" sq' ms ms'] assms
    by (simp add: SEQUENCE_BIT_def)
qed

theorem pack_roundtrip_order_witness:
  "\<exists>k k'. pack (event_id_of 1753948800123 0) = Inr k \<and>
     pack (event_id_of 1753948800123 7) = Inr k' \<and>
     unpack k = event_id_of 1753948800123 0 \<and> unpack k' = event_id_of 1753948800123 7 \<and>
     k < 2 ^ 63 \<and> (k < k' \<longleftrightarrow> (1753948800123 :: nat, 0 :: nat) < (1753948800123, 7))"
  by (rule pack_roundtrip_order) simp_all

end
