(* ===== verification/Api_Error.thy ===== *)
theory Api_Error
  imports Prelude
begin

text \<open>
  The errors the endpoints answer with (\<open>app/api/error.py\<close>): the HTTP status and the machine-readable code. The message is a text
  for people and is not modelled.
\<close>

definition not_found :: exn where "not_found = ApiError 404 ''NOT_FOUND''"
definition forbidden :: exn where "forbidden = ApiError 403 ''FORBIDDEN''"
definition invalid :: exn where "invalid = ApiError 422 ''VALIDATION_ERROR''"
definition too_large :: exn where "too_large = ApiError 413 ''VALIDATION_ERROR''"
definition unauthenticated :: exn where "unauthenticated = ApiError 401 ''UNAUTHENTICATED''"
definition rate_limited :: exn where "rate_limited = ApiError 429 ''RATE_LIMITED''"
definition quota_exceeded :: exn where "quota_exceeded = ApiError 429 ''QUOTA_EXCEEDED''"
definition concurrency_limit :: exn where "concurrency_limit = ApiError 429 ''CONCURRENCY_LIMIT''"

lemmas api_error_defs = not_found_def forbidden_def invalid_def too_large_def unauthenticated_def rate_limited_def quota_exceeded_def concurrency_limit_def

text \<open>The answers are different.\<close>

lemma api_errors_distinct:
  "distinct [not_found, forbidden, invalid, too_large, unauthenticated, rate_limited, quota_exceeded, concurrency_limit]"
  by (simp add: api_error_defs)

end
