(* ===== verification/Run_Control.thy ===== *)
theory Run_Control
  imports Run_Outcome Event_Id Api_Error
begin

text \<open>
  Everything besides the worker that acts on a run, as programs over the executor's world: submitting
  (\<open>app/run/submitter.py\<close>), the cancel flag (\<open>app/run/cancel.py\<close>), the endpoints of a run
  (\<open>app/api/route/run.py\<close>: status, cancel, approve, the cursor of a subscription), the sweep of approvals that
  waited too long (\<open>app/run/approval.py\<close>) and the reaper of orphaned runs (\<open>app/run/reaper.py\<close>). Time is
  counted in milliseconds; what the queue answers to the reaper is a function of the world.
\<close>

section \<open>Tasks and flags\<close>

definition publish_task :: "RunTask \<Rightarrow> unit prog" where
  "publish_task t = await (\<lambda>w. (Inr (), w\<lparr>outbox := outbox w @ [t]\<rparr>))"

definition raise_flag :: "string \<Rightarrow> unit prog" where
  "raise_flag run_id = await (\<lambda>w. (Inr (), w\<lparr>flags := insert run_id (flags w)\<rparr>))"

definition clear_flag :: "string \<Rightarrow> unit prog" where
  "clear_flag run_id = await (\<lambda>w. (Inr (), w\<lparr>flags := flags w - {run_id}\<rparr>))"

section \<open>Submitting\<close>

text \<open>\<open>new_id\<close> is the fresh \<open>uuid4().hex\<close>.\<close>

definition submit ::
    "string \<Rightarrow> string \<Rightarrow> string \<Rightarrow> string \<Rightarrow> AgentConfig \<Rightarrow> UserContext option \<Rightarrow> Run prog" where
  "submit new_id thread_id text user_id config ctx =
     seq (await (\<lambda>w. case create new_id thread_id user_id (Some text) (Some config) ctx (clock w) (db w) of
            Inl e \<Rightarrow> (Inl e, w)
          | Inr d \<Rightarrow> (Inr (), w\<lparr>db := d\<rparr>))) (\<lambda>_.
     seq (publish_task \<lparr>t_run_id = new_id, t_thread_id = thread_id, t_content = text, t_user_id = Some user_id,
            t_user_context = ctx, t_agent_config = config, t_decisions = None\<rparr>) (\<lambda>_.
       ret \<lparr>r_id = new_id, r_thread_id = thread_id, r_status = QUEUED, r_tokens = 0, r_agent_config = config,
            r_user_context = ctx\<rparr>))"

definition resubmit ::
    "string \<Rightarrow> string \<Rightarrow> string \<Rightarrow> Decision list \<Rightarrow> AgentConfig \<Rightarrow> UserContext option \<Rightarrow> unit prog" where
  "resubmit run_id thread_id user_id decisions config ctx =
     publish_task \<lparr>t_run_id = run_id, t_thread_id = thread_id, t_content = [], t_user_id = Some user_id,
       t_user_context = ctx, t_agent_config = config, t_decisions = Some decisions\<rparr>"

section \<open>Endpoints\<close>

definition require_run :: "string \<Rightarrow> string \<Rightarrow> Run prog" where
  "require_run run_id user_id =
     await (\<lambda>w. case get run_id user_id (db w) of None \<Rightarrow> (Inl not_found, w) | Some r \<Rightarrow> (Inr r, w))"

record RunResponse =
  rr_id :: string
  rr_thread_id :: string
  rr_status :: RunStatus
  rr_tokens :: TokenUsage
  rr_agent_config :: AgentConfig

definition to_response :: "Run \<Rightarrow> RunResponse" where
  "to_response r = \<lparr>rr_id = r_id r, rr_thread_id = r_thread_id r, rr_status = r_status r, rr_tokens = r_tokens r,
     rr_agent_config = r_agent_config r\<rparr>"

definition get_run :: "string \<Rightarrow> string \<Rightarrow> RunResponse prog" where
  "get_run run_id user_id = seq (require_run run_id user_id) (\<lambda>r. ret (to_response r))"

definition repo_cancel_only :: "string \<Rightarrow> bool prog" where
  "repo_cancel_only run_id = await (\<lambda>w. case cancel run_id None (clock w) (db w) of (b, d) \<Rightarrow> (Inr b, w\<lparr>db := d\<rparr>))"

definition cancel_run :: "string \<Rightarrow> string \<Rightarrow> RunResponse prog" where
  "cancel_run run_id user_id =
     seq (require_run run_id user_id) (\<lambda>_.
     seq (raise_flag run_id) (\<lambda>_.
     seq (seq (repo_cancel_only run_id) (\<lambda>done.
            if done then emit_now run_id [] (RunCancelledData 0) else ret ())) (\<lambda>_.
     seq (require_run run_id user_id) (\<lambda>r. ret (to_response r)))))"

definition last_interrupt :: "Event list \<Rightarrow> nat" where
  "last_interrupt evs =
     (case find (\<lambda>e. event_type e = INTERRUPT) (rev evs) of
        Some e \<Rightarrow> (case data e of InterruptData acts \<Rightarrow> length acts | _ \<Rightarrow> 0)
      | None \<Rightarrow> 0)"

definition pending_action_count :: "string \<Rightarrow> nat prog" where
  "pending_action_count run_id = seq (log_read run_id) (\<lambda>evs. ret (last_interrupt evs))"

definition repo_resume :: "string \<Rightarrow> bool prog" where
  "repo_resume run_id = await (\<lambda>w. case resume run_id (db w) of (b, d) \<Rightarrow> (Inr b, w\<lparr>db := d\<rparr>))"

definition approve_run :: "string \<Rightarrow> Decision list \<Rightarrow> string \<Rightarrow> RunResponse prog" where
  "approve_run run_id decisions user_id =
     seq (require_run run_id user_id) (\<lambda>r.
       if r_status r \<noteq> WAITING_APPROVAL then throw invalid
       else seq (pending_action_count run_id) (\<lambda>expected.
         case check decisions expected of
           Inl _ \<Rightarrow> throw invalid
         | Inr _ \<Rightarrow> seq (repo_resume run_id) (\<lambda>ok.
             if \<not> ok then throw invalid
             else seq (resubmit run_id (r_thread_id r) user_id decisions (r_agent_config r) (r_user_context r)) (\<lambda>_.
               ret \<lparr>rr_id = run_id, rr_thread_id = r_thread_id r, rr_status = QUEUED, rr_tokens = r_tokens r,
                    rr_agent_config = r_agent_config r\<rparr>))))"

text \<open>\<open>_cursor\<close>: only \<open>InvalidEventIdError\<close> is turned into an answer.\<close>

definition cursor_param :: "string option \<Rightarrow> string option result" where
  "cursor_param last_event_id =
     (case last_event_id of
        None \<Rightarrow> Inr None
      | Some [] \<Rightarrow> Inr None
      | Some s \<Rightarrow>
          (case parse_event_id s of
             Inr _ \<Rightarrow> Inr (Some s)
           | Inl InvalidEventIdError \<Rightarrow> Inl invalid
           | Inl e \<Rightarrow> Inl e))"

section \<open>Approvals that waited too long\<close>

definition DEFAULT_TIMEOUT_HOUR :: nat where "DEFAULT_TIMEOUT_HOUR = 24"
definition DEFAULT_PENDING_LIMIT :: nat where "DEFAULT_PENDING_LIMIT = 5"

definition approval_pending_count :: "string \<Rightarrow> Db \<Rightarrow> nat" where
  "approval_pending_count user_id d =
     (case UUID user_id of
        None \<Rightarrow> 0
      | Some owner \<Rightarrow> length (filter (\<lambda>r. user_fk r = Some owner \<and> status r = WAITING_APPROVAL) (runs d)))"

definition expired :: "int \<Rightarrow> nat \<Rightarrow> Db \<Rightarrow> string list" where
  "expired now timeout_hour d =
     map (uuid_hex \<circ> run_pk)
       (filter (\<lambda>r. status r = WAITING_APPROVAL \<and> started_at r < now - int timeout_hour * 3600000) (runs d))"

fun cancel_all :: "string list \<Rightarrow> nat \<Rightarrow> nat prog" where
  "cancel_all [] swept = ret swept"
| "cancel_all (run_id # rest) swept =
     seq (repo_cancel_only run_id) (\<lambda>done.
       if \<not> done then cancel_all rest swept
       else seq (emit_now run_id [] (RunCancelledData 0)) (\<lambda>_. cancel_all rest (Suc swept)))"

definition approval_sweep :: "int \<Rightarrow> nat \<Rightarrow> nat prog" where
  "approval_sweep now timeout_hour =
     seq (await (\<lambda>w. (Inr (expired now timeout_hour (db w)), w))) (\<lambda>ids. cancel_all ids 0)"

section \<open>Orphaned runs\<close>

definition DEFAULT_GRACE_MINUTE :: nat where "DEFAULT_GRACE_MINUTE = 10"

text \<open>The message is a fixed text; its wording is not modelled.\<close>

definition ORPHAN_MESSAGE :: string where "ORPHAN_MESSAGE = ''orphaned''"

definition orphaned :: "(World \<Rightarrow> string set result) \<Rightarrow> int \<Rightarrow> nat \<Rightarrow> string list prog" where
  "orphaned in_queue now grace_minute =
     seq (await (\<lambda>w. (Inr (unfinished (Some (now - int grace_minute * 60000)) (db w)), w))) (\<lambda>live.
       if live = [] then ret []
       else seq (await (\<lambda>w. (in_queue w, w))) (\<lambda>ids. ret (filter (\<lambda>i. i \<notin> ids) (map r_id live))))"

fun fail_all :: "string list \<Rightarrow> nat \<Rightarrow> nat prog" where
  "fail_all [] reaped = ret reaped"
| "fail_all (run_id # rest) reaped =
     seq (repo_fail run_id ORPHANED ORPHAN_MESSAGE) (\<lambda>done.
       if \<not> done then fail_all rest reaped
       else seq (emit_now run_id [] (RunFailedData ORPHANED ORPHAN_MESSAGE True)) (\<lambda>_. fail_all rest (Suc reaped)))"

definition reaper_sweep :: "(World \<Rightarrow> string set result) \<Rightarrow> int \<Rightarrow> nat \<Rightarrow> nat prog" where
  "reaper_sweep in_queue now grace_minute = seq (orphaned in_queue now grace_minute) (\<lambda>ids. fail_all ids 0)"

section \<open>Lemmas\<close>

lemma calls_repo_more:
  "calls_repo (\<lambda>w. OpCancel i None (clock w)) (\<lambda>w. case cancel i None (clock w) (db w) of (b, d) \<Rightarrow> (Inr b, w\<lparr>db := d\<rparr>))"
  "calls_repo (\<lambda>w. OpResume i) (\<lambda>w. case resume i (db w) of (b, d) \<Rightarrow> (Inr b, w\<lparr>db := d\<rparr>))"
  by (auto simp: calls_repo_def split: prod.splits)

lemma claim_then_emit_more:
  assumes "calls_repo x m" "\<And>w. op_run (x w) = run_id" "\<And>w. op_target (x w) = s"
    and d: "announced_status (data_type d) = Some s" and "keeps (ledger_ok u) f" "keeps (ledger_ok u) g"
  shows "keeps (ledger_ok u) (seq (await m) (\<lambda>won. if \<not> won then f else seq (emit_now run_id p d) (\<lambda>_. g)))"
proof (rule keepsI)
  fix w assume w: "ledger_ok u w"
  obtain r w' where r: "await m w = (r, w')" by (cases "await m w")
  have "ledger_ok u w'" "r = Inr True \<Longrightarrow> claimed u run_id s w'"
    using await_repo_claimed [OF assms(1-3) w r] by auto
  then show "ledger_ok u (snd (seq (await m) (\<lambda>won. if \<not> won then f else seq (emit_now run_id p d) (\<lambda>_. g)) w))"
    using r emit_claimed [OF _ d, of u run_id w' p] assms(5,6)
    by (auto simp: seq_def keeps_def split: sum.splits prod.splits)
qed

lemma world_ledger [step_intros]:
  "keeps (ledger_ok u) (publish_task t)" "keeps (ledger_ok u) (raise_flag i)" "keeps (ledger_ok u) (clear_flag i)"
  "keeps (ledger_ok u) (require_run i user)"
  unfolding publish_task_def raise_flag_def clear_flag_def require_run_def
  by (intro ledger_await keepsI; auto simp: ledger_ok_def terms_def split: option.splits)+

lemma repo_resume_ledger [step_intros]: "keeps (ledger_ok u) (repo_resume i)"
  unfolding repo_resume_def by (intro ledger_await calls_repo_keeps [OF calls_repo_more(2)])

lemma cancel_all_ledger [step_intros]: "keeps (ledger_ok u) (cancel_all ids n)"
proof (induction ids arbitrary: n)
  case (Cons run_id rest)
  then show ?case
    unfolding cancel_all.simps repo_cancel_only_def
    by (intro claim_then_emit_more [OF calls_repo_more(1), where s = CANCELLED]) simp_all
qed simp

lemma fail_all_ledger [step_intros]: "keeps (ledger_ok u) (fail_all ids n)"
proof (induction ids arbitrary: n)
  case (Cons run_id rest)
  then show ?case
    unfolding fail_all.simps repo_fail_def
    by (intro claim_then_emit_more [OF calls_repo_op(2), where s = FAILED]) simp_all
qed simp

lemma cancel_run_ledger: "keeps (ledger_ok u) (cancel_run i user)"
  unfolding cancel_run_def repo_cancel_only_def
  by (intro step_intros claim_then_emit [OF calls_repo_more(1), where s = CANCELLED]) simp_all

lemma approve_run_ledger: "keeps (ledger_ok u) (approve_run i ds user)"
  unfolding approve_run_def pending_action_count_def resubmit_def by (intro step_intros)

lemma sweep_ledger: "keeps (ledger_ok u) (approval_sweep now h)" "keeps (ledger_ok u) (reaper_sweep iq now g)"
  unfolding approval_sweep_def reaper_sweep_def orphaned_def
  by (intro step_intros ledger_await; simp add: keeps_def)+

section \<open>Undisturbed, in closed form\<close>

lemma seq_Inr: "m w = (Inr x, w') \<Longrightarrow> seq m f w = f x w'"
  by (simp add: seq_def)

lemma seq_Inl: "m w = (Inl e, w') \<Longrightarrow> seq m f w = (Inl e, w')"
  by (simp add: seq_def)

definition orphaned_row :: "int \<Rightarrow> RunRecord \<Rightarrow> RunRecord" where
  "orphaned_row now r = r\<lparr>ended_at := Some now, status := FAILED, error_code := Some ORPHANED,
     error_message := Some ORPHAN_MESSAGE\<rparr>"

lemma fail_row:
  assumes "db_ok d" "u < 2 ^ 128" "r \<in> set (runs d)" "run_pk r = u" "status r \<in> set CANCELLABLE_STATUS"
  shows "Run_Repository.fail (uuid_hex u) ORPHANED ORPHAN_MESSAGE now d =
    (True, d\<lparr>runs := map (\<lambda>x. if run_pk x = u then orphaned_row now x else x) (runs d)\<rparr>)"
proof -
  have same: "x = r" if "x \<in> set (runs d)" "run_pk x = u" for x
    using assms(1,3,4) that by (auto simp: db_ok_def distinct_map inj_on_def)
  have "0 < length (filter (\<lambda>x. run_pk x = u \<and> status x \<in> set CANCELLABLE_STATUS) (runs d))"
    using assms(3-5) by (auto simp: filter_empty_conv)
  moreover have "map (\<lambda>x. if run_pk x = u \<and> status x \<in> set CANCELLABLE_STATUS then orphaned_row now x else x) (runs d) =
      map (\<lambda>x. if run_pk x = u then orphaned_row now x else x) (runs d)"
    using same assms(5) by (intro map_cong) auto
  ultimately show ?thesis
    using assms(2)
    by (simp add: finalize_defs transit_from_def sql_update_def flip: orphaned_row_def del: map_eq_conv)
qed

lemma db_ok_orphaned: "db_ok (d\<lparr>runs := map (\<lambda>x. if P x then orphaned_row now x else x) (runs d)\<rparr>) = db_ok d"
proof -
  have "run_pk (if P x then orphaned_row now x else x) = run_pk x" for x by (simp add: orphaned_row_def)
  then show ?thesis by (simp add: db_ok_def comp_def)
qed

definition orphan_event :: "int \<Rightarrow> uuid \<Rightarrow> Event" where
  "orphan_event now u = \<lparr>ts = now, ev_run_id = uuid_hex u, path = [], data = RunFailedData ORPHANED ORPHAN_MESSAGE True\<rparr>"

lemma fail_all_quiet:
  assumes "quiet w" "db_ok (db w)" "distinct us" "\<forall>u \<in> set us. u < 2 ^ 128"
    and "\<forall>u \<in> set us. \<exists>r \<in> set (runs (db w)). run_pk r = u \<and> status r \<in> set CANCELLABLE_STATUS"
  shows "fail_all (map uuid_hex us) n w = (Inr (n + length us),
    w\<lparr>db := (db w)\<lparr>runs := map (\<lambda>x. if run_pk x \<in> set us then orphaned_row (clock w) x else x) (runs (db w))\<rparr>,
      journal := journal w @ map (orphan_event (clock w)) us\<rparr>)"
  using assms
proof (induction us arbitrary: n w)
  case Nil
  then show ?case by (simp add: ret_def)
next
  case (Cons u us)
  obtain r where r: "r \<in> set (runs (db w))" "run_pk r = u" "status r \<in> set CANCELLABLE_STATUS" using Cons.prems(5) by auto
  let ?d = "(db w)\<lparr>runs := map (\<lambda>x. if run_pk x = u then orphaned_row (clock w) x else x) (runs (db w))\<rparr>"
  let ?w = "w\<lparr>db := ?d, journal := journal w @ [orphan_event (clock w) u]\<rparr>"
  have one: "fail_all (map uuid_hex (u # us)) n w = fail_all (map uuid_hex us) (Suc n) ?w"
    using fail_row [OF Cons.prems(2) _ r, of "clock w"] Cons.prems(1,4)
    by (simp add: seq_def repo_fail_def emit_now_quiet orphan_event_def)
  have rows: "\<forall>v \<in> set us. \<exists>r \<in> set (runs ?d). run_pk r = v \<and> status r \<in> set CANCELLABLE_STATUS"
    using Cons.prems(3,5) by (fastforce simp: image_iff)
  have merge: "map (\<lambda>x. if run_pk x \<in> set us then orphaned_row t x else x)
        (map (\<lambda>x. if run_pk x = u then orphaned_row t x else x) xs) =
      map (\<lambda>x. if run_pk x \<in> set (u # us) then orphaned_row t x else x) xs" for xs t
    using Cons.prems(3) by (auto simp: orphaned_row_def)
  show ?case
    unfolding one using Cons.IH [of ?w "Suc n"] Cons.prems rows merge
    by (simp add: db_ok_orphaned del: map_map cong: if_cong)
qed

definition is_orphan :: "int \<Rightarrow> nat \<Rightarrow> string set \<Rightarrow> RunRecord \<Rightarrow> bool" where
  "is_orphan now grace ids r \<longleftrightarrow> status r \<in> set UNFINISHED_STATUS \<and> started_at r < now - int grace * 60000 \<and>
     uuid_hex (run_pk r) \<notin> ids"

definition orphan_order :: "int \<Rightarrow> nat \<Rightarrow> string set \<Rightarrow> RunRecord list \<Rightarrow> uuid list" where
  "orphan_order now grace ids rows = map run_pk (filter (is_orphan now grace ids) (sort_key started_at rows))"

lemma filter_sort_key: "filter P (sort_key f xs) = sort_key f (filter P xs)"
  by (induction xs) (auto simp: filter_insort_triv insort_is_Cons filter_insort)

lemma orphaned_quiet:
  assumes "quiet w" "in_queue w = Inr ids"
  shows "orphaned in_queue now g w = (Inr (map uuid_hex (orphan_order now g ids (runs (db w)))), w)"
proof -
  let ?old = "filter (\<lambda>r. status r \<in> set UNFINISHED_STATUS \<and> started_at r < now - int g * 60000) (runs (db w))"
  have "filter (\<lambda>i. i \<notin> ids) (map r_id (map to_run (sort_key started_at ?old))) =
      map uuid_hex (map run_pk (filter (\<lambda>r. uuid_hex (run_pk r) \<notin> ids) (sort_key started_at ?old)))"
    by (simp add: filter_map comp_def to_run_def)
  also have "\<dots> = map uuid_hex (orphan_order now g ids (runs (db w)))"
    by (simp add: orphan_order_def is_orphan_def [abs_def] filter_sort_key [symmetric])
  finally have eq: "filter (\<lambda>i. i \<notin> ids) (map r_id (map to_run (sort_key started_at ?old))) =
      map uuid_hex (orphan_order now g ids (runs (db w)))" .
  show ?thesis
    using assms eq by (auto simp: orphaned_def seq_def ret_def unfinished_def)
qed

lemma orphan_order_set: "set (orphan_order now g ids rows) = run_pk ` {r \<in> set rows. is_orphan now g ids r}"
  by (auto simp: orphan_order_def)

lemma orphan_order_distinct: "distinct (map run_pk rows) \<Longrightarrow> distinct (orphan_order now g ids rows)"
  by (simp add: orphan_order_def distinct_map inj_on_def)

lemma orphan_row_iff:
  assumes "db_ok d" "r \<in> set (runs d)"
  shows "run_pk r \<in> set (orphan_order now g ids (runs d)) \<longleftrightarrow> is_orphan now g ids r"
  using assms by (auto simp: orphan_order_set db_ok_def distinct_map inj_on_def)

lemma reaper_quiet:
  assumes "quiet w" "db_ok (db w)" "\<forall>r \<in> set (runs (db w)). run_pk r < 2 ^ 128" "in_queue w = Inr ids"
  shows "reaper_sweep in_queue now g w = (Inr (length (orphan_order now g ids (runs (db w)))),
    w\<lparr>db := (db w)\<lparr>runs := map (\<lambda>r. if is_orphan now g ids r then orphaned_row (clock w) r else r) (runs (db w))\<rparr>,
      journal := journal w @ map (orphan_event (clock w)) (orphan_order now g ids (runs (db w)))\<rparr>)"
proof -
  let ?us = "orphan_order now g ids (runs (db w))"
  have "\<forall>u \<in> set ?us. u < 2 ^ 128" using assms(3) by (auto simp: orphan_order_set)
  moreover have "\<forall>u \<in> set ?us. \<exists>r \<in> set (runs (db w)). run_pk r = u \<and> status r \<in> set CANCELLABLE_STATUS"
    by (force simp: orphan_order_set is_orphan_def UNFINISHED_STATUS_def CANCELLABLE_STATUS_def)
  moreover have "distinct ?us" using assms(2) by (simp add: orphan_order_distinct db_ok_def)
  moreover have "map (\<lambda>r. if run_pk r \<in> set ?us then orphaned_row (clock w) r else r) (runs (db w)) =
      map (\<lambda>r. if is_orphan now g ids r then orphaned_row (clock w) r else r) (runs (db w))"
    using orphan_row_iff [OF assms(2)] by (intro map_cong) auto
  ultimately show ?thesis
    using fail_all_quiet [OF assms(1,2), of ?us 0] orphaned_quiet [OF assms(1), of in_queue ids now g] assms(4)
    by (simp add: reaper_sweep_def seq_def del: map_eq_conv)
qed

lemma get_owner:
  assumes "get i user d = Some r"
  obtains u own row where "UUID i = Some u" "UUID user = Some own" "run_row d u = Some row" "user_fk row = Some own" "r = to_run row"
  using assms that by (auto simp: get_def run_row_def split: option.splits if_splits)

lemma get_None:
  assumes "\<And>u own row. UUID i = Some u \<Longrightarrow> UUID user = Some own \<Longrightarrow> run_row d u = Some row \<Longrightarrow> user_fk row \<noteq> Some own"
  shows "get i user d = None"
proof (cases "get i user d")
  case (Some r)
  then show ?thesis using assms by (elim get_owner) auto
qed simp

section \<open>Properties\<close>

text \<open>C23. Every process announces an end only after winning it. Cancelling, approving, the sweep of
  old approvals and the reaper keep, whatever the others do at their awaits, the invariant that each run has at most
  one terminal event and that it announces the stored status; together with the same property of the executor
  this covers every writer of the system.\<close>

theorem control_keeps_ledger:
  assumes "ledger_ok u w"
  shows "ledger_ok u (snd (cancel_run i user w)) \<and> ledger_ok u (snd (approve_run i ds user w)) \<and>
    ledger_ok u (snd (approval_sweep now h w)) \<and> ledger_ok u (snd (reaper_sweep in_queue now g w))"
  using keepsD [OF cancel_run_ledger assms] keepsD [OF approve_run_ledger assms]
    keepsD [OF sweep_ledger(1) assms] keepsD [OF sweep_ledger(2) assms] by blast

theorem control_keeps_ledger_witness:
  "ledger_ok 1 (snd (cancel_run (uuid_hex 1) (uuid_hex 5)
     (example_world RUNNING [[], [], [Repo_call (OpSucceed (uuid_hex 1) 0 None 9)], [Pay]])))"
  using control_keeps_ledger [OF example_ledger_ok] by blast

text \<open>The reaper fails exactly the orphans: undisturbed, it marks every run that is queued or running, is older than
  the grace period and is not in the queue as failed, in the order of their start, appends one \<open>run.failed\<close> event
  for each, returns their number and leaves every other row as it was; a second sweep that gets the same answer from
  the queue finds nothing.\<close>

theorem reaper_exact:
  assumes "quiet w" "db_ok (db w)" "\<forall>r \<in> set (runs (db w)). run_pk r < 2 ^ 128" "\<And>w. in_queue w = Inr ids"
  shows "\<exists>w' us. reaper_sweep in_queue now g w = (Inr (length us), w') \<and> distinct us \<and>
    set us = run_pk ` {r \<in> set (runs (db w)). is_orphan now g ids r} \<and>
    runs (db w') = map (\<lambda>r. if is_orphan now g ids r then orphaned_row (clock w) r else r) (runs (db w)) \<and>
    journal w' = journal w @ map (orphan_event (clock w)) us \<and>
    reaper_sweep in_queue now g w' = (Inr 0, w')"
proof -
  let ?f = "\<lambda>r. if is_orphan now g ids r then orphaned_row (clock w) r else r"
  let ?us = "orphan_order now g ids (runs (db w))"
  let ?w = "w\<lparr>db := (db w)\<lparr>runs := map ?f (runs (db w))\<rparr>, journal := journal w @ map (orphan_event (clock w)) ?us\<rparr>"
  have none: "\<not> is_orphan now g ids (orphaned_row t r)" for r t
    by (simp add: is_orphan_def orphaned_row_def UNFINISHED_STATUS_def)
  have "set (orphan_order now g ids (runs (db ?w))) = {}" using none by (auto simp: orphan_order_set)
  then have order: "orphan_order now g ids (runs (db ?w)) = []" by simp
  have "map (\<lambda>r. if is_orphan now g ids r then orphaned_row (clock w) r else r) (map ?f (runs (db w))) = map ?f (runs (db w))"
    using none by simp
  moreover have "quiet ?w" "db_ok (db ?w)" "\<forall>r \<in> set (runs (db ?w)). run_pk r < 2 ^ 128"
    using assms(1-3) by (auto simp: db_ok_orphaned orphaned_row_def)
  ultimately have "reaper_sweep in_queue now g ?w = (Inr 0, ?w)"
    using reaper_quiet [of ?w in_queue ids now g] assms(4) order by (simp del: map_map cong: if_cong)
  moreover have "distinct ?us" using assms(2) by (simp add: orphan_order_distinct db_ok_def)
  ultimately show ?thesis
    using reaper_quiet [OF assms(1-3,4)] by (intro exI [of _ ?w] exI [of _ ?us]) (simp add: orphan_order_set del: map_map)
qed

theorem reaper_exact_witness:
  "\<exists>w' (us :: uuid list). reaper_sweep (\<lambda>_. Inr {uuid_hex 2}) 1000000 10 (example_world RUNNING []) = (Inr (length us), w') \<and>
     set us = {1} \<and> row_status (db w') 1 = Some FAILED \<and> row_status (db w') 2 = Some QUEUED"
proof -
  have ne: "uuid_hex 1 \<noteq> uuid_hex 2" by (simp add: uuid_hex_inj)
  let ?o = "is_orphan 1000000 10 {uuid_hex 2}"
  have o: "?o (example_row 1 RUNNING)" "\<not> ?o (example_row 2 QUEUED)"
    using ne by (simp_all add: is_orphan_def example_row_def UNFINISHED_STATUS_def)
  have rows: "runs (db (example_world RUNNING [])) = [example_row 1 RUNNING, example_row 2 QUEUED]"
    by (simp add: example_world_def example_db_def)
  have "quiet (example_world RUNNING [])" "db_ok (db (example_world RUNNING []))"
    "\<forall>r \<in> set (runs (db (example_world RUNNING []))). run_pk r < 2 ^ 128"
    by (simp add: quiet_def example_world_def, simp add: example_world_def example_db_ok, simp add: rows example_row_def)
  from reaper_exact [OF this, of "\<lambda>_. Inr {uuid_hex 2}" "{uuid_hex 2}" 1000000 10]
  obtain w' us where w': "reaper_sweep (\<lambda>_. Inr {uuid_hex 2}) 1000000 10 (example_world RUNNING []) = (Inr (length us), w')"
      "set us = run_pk ` {r \<in> set (runs (db (example_world RUNNING []))). ?o r}"
      "runs (db w') = map (\<lambda>r. if ?o r then orphaned_row (clock (example_world RUNNING [])) r else r) (runs (db (example_world RUNNING [])))"
    by blast
  have "{r \<in> set (runs (db (example_world RUNNING []))). ?o r} = {example_row 1 RUNNING}" using o by (auto simp: rows)
  then have "set us = {1}" using w'(2) by (simp add: example_row_def)
  moreover have "row_status (db w') 1 = Some FAILED" "row_status (db w') 2 = Some QUEUED"
    using w'(3) o by (simp_all add: rows row_status_def run_row_def orphaned_row_def example_row_def)
  ultimately show ?thesis using w'(1) by blast
qed

text \<open>Approving resumes a waiting run once, with the answers to what it asked. Undisturbed, an approval by the owner
  is refused without any effect unless the run waits for approval and the decisions answer the actions of its last
  interrupt one for one; otherwise the run is queued again, and exactly one task with these decisions and the
  configuration and user snapshot of its first submission is published.\<close>

theorem approve_outcome:
  assumes "quiet w" "db_ok (db w)" "UUID i = Some u" "UUID user = Some own" "run_row (db w) u = Some r" "user_fk r = Some own"
  shows "if status r = WAITING_APPROVAL \<and>
      check ds (last_interrupt (filter (\<lambda>e. ev_run_id e = i) (journal w))) = Inr ()
    then \<exists>resp d. approve_run i ds user w = (Inr resp, w\<lparr>db := d, outbox := outbox w @
        [\<lparr>t_run_id = i, t_thread_id = uuid_hex (thread_fk r), t_content = [], t_user_id = Some user,
          t_user_context = user_context r, t_agent_config = (case agent_config r of None \<Rightarrow> default_config | Some c \<Rightarrow> c),
          t_decisions = Some ds\<rparr>]\<rparr>) \<and> rr_status resp = QUEUED \<and>
      run_row d = (run_row (db w))(u \<mapsto> r\<lparr>status := QUEUED, ended_at := None\<rparr>)
    else approve_run i ds user w = (Inl invalid, w)"
proof -
  have "find (\<lambda>x. run_pk x = u) (runs (db w)) = Some r" using assms(5) by (simp add: run_row_def)
  then have "get i user (db w) = Some (to_run r)" using assms(3,4,6) by (simp add: get_def)
  then have req: "require_run i user w = (Inr (to_run r), w)" using assms(1) by (simp add: require_run_def)
  have cnt: "pending_action_count i w = (Inr (last_interrupt (filter (\<lambda>e. ev_run_id e = i) (journal w))), w)"
    using assms(1) by (simp add: pending_action_count_def log_read_def seq_def ret_def)
  have st: "r_status (to_run r) = status r" by (simp add: to_run_def)
  show ?thesis
  proof (cases "status r = WAITING_APPROVAL \<and> check ds (last_interrupt (filter (\<lambda>e. ev_run_id e = i) (journal w))) = Inr ()")
    case True
    obtain rows n where upd: "sql_update (\<lambda>r. run_pk r = u \<and> status r = WAITING_APPROVAL)
        (\<lambda>r. r\<lparr>status := QUEUED, ended_at := None\<rparr>) (runs (db w)) = (rows, n)" by fastforce
    note g = guarded_update [OF assms(2) _ upd]
    have n: "0 < n" using g(2) assms(5) True by simp
    then have "resume i (db w) = (True, (db w)\<lparr>runs := rows\<rparr>)" using assms(3) upd by (simp add: resume_def)
    then have res: "repo_resume i w = (Inr True, w\<lparr>db := (db w)\<lparr>runs := rows\<rparr>\<rparr>)" using assms(1) by (simp add: repo_resume_def)
    have "run_row ((db w)\<lparr>runs := rows\<rparr>) = (run_row (db w))(u \<mapsto> r\<lparr>status := QUEUED, ended_at := None\<rparr>)"
      using g(3) n assms(5) by (auto simp: fun_eq_iff)
    then show ?thesis
      using True assms(1) req cnt st res
      by (auto simp: approve_run_def seq_def resubmit_def publish_task_def ret_def to_run_def)
  next
    case False
    then consider "status r \<noteq> WAITING_APPROVAL" | e where "status r = WAITING_APPROVAL"
        "check ds (last_interrupt (filter (\<lambda>e. ev_run_id e = i) (journal w))) = Inl e"
      by (cases "check ds (last_interrupt (filter (\<lambda>e. ev_run_id e = i) (journal w)))") auto
    then show ?thesis
      using False by cases (simp_all add: approve_run_def seq_def req cnt st throw_def)
  qed
qed

definition example_waiting :: World where
  "example_waiting = (example_world WAITING_APPROVAL [])\<lparr>journal := [\<lparr>ts = 1, ev_run_id = uuid_hex 1, path = [],
     data = InterruptData [InterruptAction 0 ''execute'' [] [''approve'']]\<rparr>]\<rparr>"

theorem approve_outcome_witness:
  "\<exists>resp w'. approve_run (uuid_hex 1) [\<lparr>index = 0, dtype = APPROVE, message = None, edited_action = None\<rparr>] (uuid_hex 5)
       example_waiting = (Inr resp, w') \<and> rr_status resp = QUEUED \<and> length (outbox w') = 1 \<and> row_status (db w') 1 = Some QUEUED"
proof -
  let ?ds = "[\<lparr>index = 0, dtype = APPROVE, message = None, edited_action = None\<rparr>]"
  have h: "quiet example_waiting" "db_ok (db example_waiting)" "UUID (uuid_hex 1) = Some 1" "UUID (uuid_hex 5) = Some 5"
    "run_row (db example_waiting) 1 = Some (example_row 1 WAITING_APPROVAL)" "user_fk (example_row 1 WAITING_APPROVAL) = Some 5"
    by (simp_all add: quiet_def example_waiting_def example_world_def example_db_def example_row_def db_ok_def run_row_def)
  have "check ?ds (last_interrupt (filter (\<lambda>e. ev_run_id e = uuid_hex 1) (journal example_waiting))) = Inr ()"
    by (simp add: example_waiting_def last_interrupt_def event_type_def check_def)
  with approve_outcome [OF h, of ?ds] show ?thesis
    by (auto simp: example_row_def row_status_def example_waiting_def example_world_def)
qed

text \<open>C33. A run of somebody else looks like one that does not exist: for a user who does not own it, reading, cancelling
  and approving a run answer 404 and change nothing.\<close>

theorem foreign_run_hidden:
  assumes "quiet w"
    and "\<And>u own r. UUID i = Some u \<Longrightarrow> UUID user = Some own \<Longrightarrow> run_row (db w) u = Some r \<Longrightarrow> user_fk r \<noteq> Some own"
  shows "get_run i user w = (Inl (ApiError 404 ''NOT_FOUND''), w) \<and> cancel_run i user w = (Inl (ApiError 404 ''NOT_FOUND''), w) \<and>
    approve_run i ds user w = (Inl (ApiError 404 ''NOT_FOUND''), w)"
proof -
  have "require_run i user w = (Inl (ApiError 404 ''NOT_FOUND''), w)"
    using assms(1) get_None [of i user "db w"] assms(2) by (auto simp: require_run_def not_found_def)
  then show ?thesis by (simp add: get_run_def cancel_run_def approve_run_def seq_def)
qed

theorem foreign_run_hidden_witness:
  "cancel_run (uuid_hex 1) (uuid_hex 6) (example_world RUNNING []) = (Inl (ApiError 404 ''NOT_FOUND''), example_world RUNNING [])"
  by (rule foreign_run_hidden [THEN conjunct2, THEN conjunct1])
    (auto simp: quiet_def example_world_def run_row_def example_db_def example_row_def split: if_splits)

lemma await_last:
  "sched w = [acts] \<Longrightarrow> foldl env_step (w\<lparr>sched := []\<rparr>) acts = w1 \<Longrightarrow> sched w1 = [] \<Longrightarrow> await m w = await m w1"
  by (simp add: await_def)

text \<open>An approval that the reaper kills: between the moment the approved run is queued again and the moment its task is
  published, the reaper sees a queued run that is not in the queue. The grace period does not help,
  because it counts from the first submission.\<close>

theorem reaper_races_approval:
  "\<exists>w'. reaper_sweep (\<lambda>w. Inr (set (map t_run_id (outbox w)) \<union> {uuid_hex 2})) 1000000 10
       (example_world WAITING_APPROVAL [[Repo_call (OpResume (uuid_hex 1))]]) = (Inr 1, w') \<and>
     row_status (db w') 1 = Some FAILED"
proof -
  have ne: "uuid_hex (Suc 0) \<noteq> uuid_hex 2" by (simp add: uuid_hex_inj)
  have "resume (uuid_hex (Suc 0)) (example_db WAITING_APPROVAL) = (True, example_db QUEUED)"
    using UUID_uuid_hex [of 1]
    by (simp add: resume_def example_db_def example_row_def sql_update_def)
  then have env: "foldl env_step ((example_world WAITING_APPROVAL [[Repo_call (OpResume (uuid_hex 1))]])\<lparr>sched := []\<rparr>)
      [Repo_call (OpResume (uuid_hex 1))] = example_world QUEUED []"
    by (simp add: example_world_def)
  let ?iq = "\<lambda>w. Inr (set (map t_run_id (outbox w)) \<union> {uuid_hex 2})"
  have step: "reaper_sweep ?iq 1000000 10 (example_world WAITING_APPROVAL [[Repo_call (OpResume (uuid_hex 1))]]) =
      reaper_sweep ?iq 1000000 10 (example_world QUEUED [])"
    unfolding reaper_sweep_def orphaned_def seq_def
    by (subst await_last [OF _ env]) (simp_all add: example_world_def)
  have q: "quiet (example_world QUEUED [])" "db_ok (db (example_world QUEUED []))"
      "\<forall>r \<in> set (runs (db (example_world QUEUED []))). run_pk r < 2 ^ 128"
      "?iq (example_world QUEUED []) = Inr {uuid_hex 2}"
    by (simp_all add: quiet_def example_world_def example_db_ok) (simp_all add: example_db_def example_row_def)
  have "orphan_order 1000000 10 {uuid_hex 2} (runs (db (example_world QUEUED []))) = [1]"
    using ne by (simp add: orphan_order_def example_world_def example_db_def example_row_def is_orphan_def UNFINISHED_STATUS_def)
  then show ?thesis
    unfolding step reaper_quiet [of "example_world QUEUED []" ?iq "{uuid_hex 2}" 1000000 10, OF q]
    using ne by (simp add: example_world_def example_db_def example_row_def row_status_def run_row_def is_orphan_def
        UNFINISHED_STATUS_def orphaned_row_def)
qed

text \<open>A run named by another spelling of its id: the repository finds and cancels it, but the flag and the event
  are filed under the spelling, so the worker does not see the flag and a subscriber does not see the event.\<close>

lemma other_spelling: "UUID (CHR ''{'' # uuid_hex 1 @ ''}'') = Some 1 \<and> CHR ''{'' # uuid_hex 1 @ ''}'' \<noteq> uuid_hex 1"
  by code_simp

theorem cancel_by_other_spelling:
  assumes "UUID i = Some 1" "i \<noteq> uuid_hex 1"
  shows "\<exists>resp w'. cancel_run i (uuid_hex 5) (example_world RUNNING []) = (Inr resp, w') \<and>
    row_status (db w') 1 = Some CANCELLED \<and> uuid_hex 1 \<notin> flags w' \<and>
    filter (\<lambda>e. ev_run_id e = uuid_hex 1) (journal w') = []"
proof -
  have "UUID (uuid_hex 5) = Some 5" by simp
  then show ?thesis
    using assms
    by (simp add: cancel_run_def seq_def require_run_def await_def Let_def raise_flag_def repo_cancel_only_def
        finalize_defs transit_from_def sql_update_def get_def example_world_def example_db_def example_row_def
        CANCELLABLE_STATUS_def emit_now_def emit_def ret_def row_status_def run_row_def)
qed

text \<open>A cursor with a superscript digit is answered by an internal error: only \<open>InvalidEventIdError\<close> is turned into
  an answer, and \<open>int()\<close> raises \<open>ValueError\<close> on digits that are not decimal.\<close>

theorem cursor_value_error: "cursor_param (Some (CHR 0xB2 # ''-0'')) = Inl ValueError"
  by code_simp

end
