(* ===== verification/Sandbox_Pool.thy ===== *)
theory Sandbox_Pool
  imports Prelude "HOL-Library.AList" "HOL-Library.Product_Lexorder" "HOL-Library.List_Lexorder"
    "HOL-Library.Char_ord"
begin

text \<open>
  The sandbox pool of the broker (\<open>app/sandbox/pool.py\<close>): containers reused per thread, a cap on
  their number, LRU eviction of idle ones, and a queue of requests. Each definition is one critical
  section: what runs under the pool's lock, or between two awaits. Docker is a parameter: whether a
  container is alive and which container a start returns (\<open>None\<close> for a failed start) are
  arguments of the operations. The field \<open>running\<close> records the containers that were started or
  adopted and not stopped, \<open>granted\<close> the requests whose future is resolved and which have not
  resumed yet, \<open>cancelled\<close> the queued requests whose future was cancelled by the timer or by the
  caller and which have not resumed yet, and \<open>notices\<close> the queue positions announced.

  The code that does not take the lock (\<open>_abandon\<close>, \<open>current\<close>, the timers) can run while the lock is
  held, at an await. Where that matters, in the loop of \<open>_pump\<close>, the steps that run meanwhile
  are an argument of the definition.
\<close>

record Slot =
  container :: nat
  holder :: "string set"
  last_used :: int

definition busy :: "Slot \<Rightarrow> bool" where
  "busy s \<longleftrightarrow> holder s \<noteq> {}"

record Waiter =
  w_id :: nat
  w_thread :: string
  w_holder :: string
  w_notify :: bool

record Pool =
  max_container :: nat
  idle_timeout :: int
  lease_timeout :: int
  slot :: "(string \<times> Slot) list"
  queue :: "Waiter list"
  granted :: "Waiter list"
  cancelled :: "Waiter list"
  reserved :: int
  running :: "nat list"
  notices :: "(nat \<times> nat) list"

record PoolStat =
  in_use :: nat
  capacity :: nat
  queued :: nat

definition stat :: "Pool \<Rightarrow> PoolStat" where
  "stat p = \<lparr>in_use = length (slot p), capacity = max_container p, queued = length (queue p)\<rparr>"

definition has_room :: "Pool \<Rightarrow> bool" where
  "has_room p \<longleftrightarrow> int (length (slot p)) + reserved p < int (max_container p)"

text \<open>\<open>_announce\<close>: positions count from 1.\<close>

definition announce :: "Pool \<Rightarrow> Pool" where
  "announce p = p\<lparr>notices := notices p @
     map (\<lambda>(position, w). (w_id w, position))
       (filter (\<lambda>(_, w). w_notify w) (enumerate 1 (queue p)))\<rparr>"

text \<open>\<open>_discard\<close>: drop the slot and stop its container.\<close>

definition discard_slot :: "string \<Rightarrow> Pool \<Rightarrow> Pool" where
  "discard_slot thread_id p =
     (case map_of (slot p) thread_id of
        None \<Rightarrow> p
      | Some s \<Rightarrow> p\<lparr>slot := AList.delete thread_id (slot p),
                     running := removeAll (container s) (running p)\<rparr>)"

definition idle_threads :: "Pool \<Rightarrow> (int \<times> string) list" where
  "idle_threads p = map (\<lambda>(t, s). (last_used s, t)) (filter (\<lambda>(_, s). \<not> busy s) (slot p))"

definition evict_idle :: "Pool \<Rightarrow> bool \<times> Pool" where
  "evict_idle p =
     (let idle = idle_threads p in
      if idle = [] then (False, p)
      else (True, discard_slot (snd (Min (set idle))) p))"

text \<open>\<open>_abandon\<close>: after a timeout or a cancellation. A resolved future is one of \<open>granted\<close>.\<close>

definition abandon :: "Waiter \<Rightarrow> Pool \<Rightarrow> Pool" where
  "abandon w p =
     announce
       ((if w \<in> set (granted p) then p\<lparr>granted := remove1 w (granted p), reserved := reserved p - 1\<rparr>
         else if w \<in> set (queue p) then p\<lparr>queue := remove1 w (queue p)\<rparr>
         else p)\<lparr>cancelled := removeAll w (cancelled p)\<rparr>)"

definition current :: "string \<Rightarrow> int \<Rightarrow> Pool \<Rightarrow> nat option \<times> Pool" where
  "current thread_id now p =
     (case map_of (slot p) thread_id of
        None \<Rightarrow> (None, p)
      | Some s \<Rightarrow> (Some (container s), p\<lparr>slot := AList.update thread_id (s\<lparr>last_used := now\<rparr>) (slot p)\<rparr>))"

text \<open>The steps that need no lock. \<open>Expires\<close> is the timer of \<open>wait_for\<close>, or a cancelled caller: the
  future of a request that still waits is cancelled at once, its coroutine runs \<open>_abandon\<close> later.\<close>

datatype unlocked = Expires Waiter | Gives_up Waiter | Touches string int

fun unlocked_step :: "Pool \<Rightarrow> unlocked \<Rightarrow> Pool" where
  "unlocked_step p (Expires w) =
     (if w \<in> set (queue p) then p\<lparr>cancelled := cancelled p @ [w]\<rparr> else p)"
| "unlocked_step p (Gives_up w) = abandon w p"
| "unlocked_step p (Touches t now) = snd (current t now p)"

lemma queue_discard_slot [simp]: "queue (discard_slot t p) = queue p"
  by (simp add: discard_slot_def split: option.splits)

lemma queue_evict_idle [simp]: "queue (snd (evict_idle p)) = queue p"
  by (simp add: evict_idle_def Let_def)

lemma queue_unlocked_le: "length (queue (foldl unlocked_step p us)) \<le> length (queue p)"
proof (induction us arbitrary: p)
  case (Cons u us)
  have "length (queue (unlocked_step p u)) \<le> length (queue p)"
    by (cases u) (auto simp: abandon_def announce_def current_def length_remove1 split: option.splits)
  with Cons.IH [of "unlocked_step p u"] show ?case by simp
qed simp

text \<open>The condition of the loop of \<open>_pump\<close>, on a queue that is not empty: is there room, or can a
  container be evicted. An eviction stops a container and is awaited; the head of \<open>gs\<close> is what runs
  meanwhile.\<close>

definition make_room :: "unlocked list list \<Rightarrow> Pool \<Rightarrow> bool \<times> unlocked list list \<times> Pool" where
  "make_room gs p =
     (if has_room p then (True, gs, p)
      else case evict_idle p of
             (False, q) \<Rightarrow> (False, gs, q)
           | (True, q) \<Rightarrow>
               (case gs of
                  [] \<Rightarrow> (True, [], q)
                | us # gs' \<Rightarrow> (True, gs', foldl unlocked_step q us)))"

lemma evict_idle_queue: "evict_idle p = (free, q) \<Longrightarrow> queue q = queue p"
  using queue_evict_idle [of p] by simp

lemma queue_make_room_le: "make_room gs p = (free, gs', q) \<Longrightarrow> length (queue q) \<le> length (queue p)"
  by (auto simp: make_room_def dest!: evict_idle_queue split: if_splits prod.splits bool.splits list.splits
      intro: order_trans [OF queue_unlocked_le])

text \<open>The loop of \<open>_pump\<close>. The reservation is counted first; then \<open>popleft\<close> raises on a queue that
  became empty meanwhile, and \<open>set_result\<close> raises on a cancelled future.\<close>

function pump_loop :: "unlocked list list \<Rightarrow> Pool \<Rightarrow> exn option \<times> Pool" where
  "pump_loop gs p =
     (if queue p = [] then (None, p)
      else case make_room gs p of
             (False, _, q) \<Rightarrow> (None, q)
           | (True, gs', q) \<Rightarrow>
               (case queue q of
                  [] \<Rightarrow> (Some IndexError, q\<lparr>reserved := reserved q + 1\<rparr>)
                | w # ws \<Rightarrow>
                    if w \<in> set (cancelled q)
                    then (Some (OtherError ''InvalidStateError''), q\<lparr>reserved := reserved q + 1, queue := ws\<rparr>)
                    else pump_loop gs' (q\<lparr>reserved := reserved q + 1, queue := ws, granted := granted q @ [w]\<rparr>)))"
  by pat_completeness auto
termination
  by (relation "measure (\<lambda>(gs, p). length (queue p))") (auto dest!: sym [of _ "make_room _ _"] queue_make_room_le)

declare pump_loop.simps [simp del]

definition pump :: "unlocked list list \<Rightarrow> Pool \<Rightarrow> exn option \<times> Pool" where
  "pump gs p =
     (case pump_loop gs p of
        (Some e, p) \<Rightarrow> (Some e, p)
      | (None, p) \<Rightarrow> (None, announce p))"

text \<open>\<open>_start\<close>: a failed start raises before the slot is written.\<close>

definition start_container :: "string \<Rightarrow> string \<Rightarrow> nat option \<Rightarrow> int \<Rightarrow> Pool \<Rightarrow> nat result \<times> Pool" where
  "start_container thread_id h started now p =
     (case started of
        None \<Rightarrow> (Inl (OtherError ''ContainerError''), p)
      | Some c \<Rightarrow> (Inr c, p\<lparr>slot := AList.update thread_id \<lparr>container = c, holder = {h}, last_used = now\<rparr> (slot p),
                             running := running p @ [c]\<rparr>))"

text \<open>\<open>_take\<close>: \<open>Inr None\<close> means the request has to queue. \<open>take_fresh\<close> is its last part, for a thread
  without a live container.\<close>

definition take_fresh :: "string \<Rightarrow> string \<Rightarrow> nat option \<Rightarrow> int \<Rightarrow> Pool \<Rightarrow> nat option result \<times> Pool" where
  "take_fresh thread_id h started now p =
     (case make_room [] p of
        (False, _, p) \<Rightarrow> (Inr None, p)
      | (True, _, p) \<Rightarrow>
          (case start_container thread_id h started now p of
             (Inl e, p) \<Rightarrow> (Inl e, p)
           | (Inr c, p) \<Rightarrow> (Inr (Some c), p)))"

definition take_container ::
    "string \<Rightarrow> string \<Rightarrow> bool \<Rightarrow> nat option \<Rightarrow> int \<Rightarrow> Pool \<Rightarrow> nat option result \<times> Pool" where
  "take_container thread_id h alive started now p =
     (case map_of (slot p) thread_id of
        None \<Rightarrow> take_fresh thread_id h started now p
      | Some s \<Rightarrow>
          if alive
          then (Inr (Some (container s)),
                p\<lparr>slot := AList.update thread_id (s\<lparr>holder := insert h (holder s), last_used := now\<rparr>) (slot p)\<rparr>)
          else take_fresh thread_id h started now (discard_slot thread_id p))"

text \<open>\<open>acquire\<close> up to its first wait: a request that has to queue is appended and announced.
  \<open>found\<close> says whether the workspace lookup succeeded.\<close>

definition acquire_enter ::
    "bool \<Rightarrow> bool \<Rightarrow> nat option \<Rightarrow> int \<Rightarrow> Waiter \<Rightarrow> Pool \<Rightarrow> nat option result \<times> Pool" where
  "acquire_enter found alive started now w p =
     (if \<not> found then (Inl (OtherError ''FileNotFoundError''), p)
      else case take_container (w_thread w) (w_holder w) alive started now p of
             (Inr None, p) \<Rightarrow> (Inr None, announce (p\<lparr>queue := queue p @ [w]\<rparr>))
           | (r, p) \<Rightarrow> (r, p))"

text \<open>\<open>acquire\<close> after its future was resolved: give the reservation back and start a container.\<close>

definition acquire_resume :: "nat option \<Rightarrow> int \<Rightarrow> Waiter \<Rightarrow> Pool \<Rightarrow> nat result \<times> Pool" where
  "acquire_resume started now w p =
     start_container (w_thread w) (w_holder w) started now
       (p\<lparr>granted := remove1 w (granted p), reserved := reserved p - 1\<rparr>)"

definition release :: "unlocked list list \<Rightarrow> string \<Rightarrow> string \<Rightarrow> int \<Rightarrow> Pool \<Rightarrow> exn option \<times> Pool" where
  "release gs thread_id h now p =
     pump gs (case map_of (slot p) thread_id of
             None \<Rightarrow> p
           | Some s \<Rightarrow> p\<lparr>slot := AList.update thread_id
                            (s\<lparr>holder := holder s - {h}, last_used := now\<rparr>) (slot p)\<rparr>)"

definition discard :: "unlocked list list \<Rightarrow> string \<Rightarrow> Pool \<Rightarrow> exn option \<times> Pool" where
  "discard gs thread_id p = pump gs (discard_slot thread_id p)"

definition expire_lease :: "int \<Rightarrow> Pool \<Rightarrow> Pool" where
  "expire_lease now p =
     p\<lparr>slot := map (\<lambda>(t, s). (t, if busy s \<and> last_used s \<le> now - lease_timeout p
                                 then s\<lparr>holder := {}\<rparr> else s)) (slot p)\<rparr>"

definition sweep :: "unlocked list list \<Rightarrow> int \<Rightarrow> Pool \<Rightarrow> exn option \<times> Pool" where
  "sweep gs now p =
     (let p = expire_lease now p;
          deadline = now - idle_timeout p;
          stale = map fst (filter (\<lambda>(_, s). \<not> busy s \<and> last_used s \<le> deadline) (slot p))
      in pump gs (foldl (\<lambda>p t. discard_slot t p) p stale))"

text \<open>\<open>reclaim\<close>: \<open>found\<close> is what Docker reports as running, \<open>is_dir\<close> whether a workspace still exists.\<close>

definition reclaim_one :: "(string \<Rightarrow> bool) \<Rightarrow> int \<Rightarrow> Pool \<Rightarrow> string \<times> nat \<Rightarrow> Pool" where
  "reclaim_one is_dir now p found =
     (case found of (thread_id, c) \<Rightarrow>
        if thread_id \<in> set (map fst (slot p)) then p
        else if \<not> is_dir thread_id then p\<lparr>running := removeAll c (running p)\<rparr>
        else p\<lparr>slot := AList.update thread_id \<lparr>container = c, holder = {}, last_used = now\<rparr> (slot p)\<rparr>)"

definition reclaim :: "(string \<times> nat) list \<Rightarrow> (string \<Rightarrow> bool) \<Rightarrow> int \<Rightarrow> Pool \<Rightarrow> Pool" where
  "reclaim found is_dir now p = foldl (reclaim_one is_dir now) p found"

text \<open>\<open>aclose\<close>: the queue is dismissed and every container destroyed.\<close>

definition aclose :: "Pool \<Rightarrow> Pool" where
  "aclose p = foldl (\<lambda>p t. discard_slot t p) (p\<lparr>queue := [], cancelled := cancelled p @ queue p\<rparr>) (map fst (slot p))"

section \<open>The pool as a state machine\<close>

text \<open>One step: an operation of the pool with the values that come from outside. \<open>Enter\<close> needs a request
  that is not yet known, \<open>Resume\<close> one whose future is resolved. \<open>Comes_up\<close> is the container of a start that was
  cut off: when the caller of \<open>acquire\<close> is cancelled, or the docker command times out, during \<open>docker run\<close>, the start
  has failed for the pool, and its container may run all the same.\<close>

datatype pool_op =
    Enter bool bool "nat option" int Waiter
  | Resume "nat option" int Waiter
  | Unlocked unlocked
  | Release "unlocked list list" string string int
  | Discard "unlocked list list" string
  | Sweep "unlocked list list" int
  | Aclose
  | Comes_up nat

fun enabled :: "pool_op \<Rightarrow> Pool \<Rightarrow> bool" where
  "enabled (Enter _ _ _ _ w) p \<longleftrightarrow> w \<notin> set (queue p) \<and> w \<notin> set (granted p) \<and> w \<notin> set (cancelled p)"
| "enabled (Resume _ _ w) p \<longleftrightarrow> w \<in> set (granted p)"
| "enabled _ p \<longleftrightarrow> True"

text \<open>The first component is the exception of a pump that broke off.\<close>

fun apply_op :: "pool_op \<Rightarrow> Pool \<Rightarrow> exn option \<times> Pool" where
  "apply_op (Enter found alive started now w) p = (None, snd (acquire_enter found alive started now w p))"
| "apply_op (Resume started now w) p = (None, snd (acquire_resume started now w p))"
| "apply_op (Unlocked u) p = (None, unlocked_step p u)"
| "apply_op (Release gs t h now) p = release gs t h now p"
| "apply_op (Discard gs t) p = discard gs t p"
| "apply_op (Sweep gs now) p = sweep gs now p"
| "apply_op Aclose p = (None, aclose p)"
| "apply_op (Comes_up c) p = (None, p\<lparr>running := running p @ [c]\<rparr>)"

text \<open>\<open>pool_reach p0 k p\<close>: some sequence of steps leads from \<open>p0\<close> to \<open>p\<close>, and \<open>k\<close> of its pumps broke off.\<close>

inductive pool_reach :: "Pool \<Rightarrow> nat \<Rightarrow> Pool \<Rightarrow> bool" where
  start: "pool_reach p0 0 p0"
| step: "pool_reach p0 k p \<Longrightarrow> enabled op p \<Longrightarrow> apply_op op p = (e, p') \<Longrightarrow>
    pool_reach p0 (if e = None then k else k + 1) p'"

section \<open>The accounting invariant\<close>

text \<open>\<open>pool_ok n k\<close>: no thread has two slots, \<open>k\<close> reservations belong to nobody, and slots plus
  reservations stay within \<open>n\<close>, which is at least the cap.\<close>

definition pool_ok :: "nat \<Rightarrow> nat \<Rightarrow> Pool \<Rightarrow> bool" where
  "pool_ok n k p \<longleftrightarrow>
     distinct (map fst (slot p)) \<and> reserved p = int (length (granted p) + k) \<and>
     max_container p \<le> n \<and> int (length (slot p)) + reserved p \<le> int n"

text \<open>One more container or reservation still fits.\<close>

definition fits :: "nat \<Rightarrow> Pool \<Rightarrow> bool" where
  "fits n p \<longleftrightarrow> int (length (slot p)) + reserved p < int n"

lemma length_alist_update:
  "length (AList.update k v xs) = (if k \<in> fst ` set xs then length xs else Suc (length xs))"
  by (induction xs) auto

lemma length_alist_delete_le: "length (AList.delete k xs) \<le> length xs"
  by (simp add: AList.delete_eq)

lemma length_alist_delete:
  "k \<in> fst ` set xs \<Longrightarrow> Suc (length (AList.delete k xs)) \<le> length xs"
  by (induction xs) (auto simp: AList.delete_eq le_imp_less_Suc less_eq_Suc_le intro: le_trans [OF length_filter_le])

lemma slot_discard_le: "length (slot (discard_slot t p)) \<le> length (slot p)"
  by (auto simp: discard_slot_def length_alist_delete_le split: option.splits)

lemma discard_slot_sels [simp]:
  "max_container (discard_slot t p) = max_container p" "reserved (discard_slot t p) = reserved p"
  "granted (discard_slot t p) = granted p" "cancelled (discard_slot t p) = cancelled p"
  "notices (discard_slot t p) = notices p"
  "idle_timeout (discard_slot t p) = idle_timeout p" "lease_timeout (discard_slot t p) = lease_timeout p"
  by (simp_all add: discard_slot_def split: option.splits)

lemma announce_sels [simp]:
  "max_container (announce p) = max_container p" "reserved (announce p) = reserved p"
  "granted (announce p) = granted p" "slot (announce p) = slot p" "queue (announce p) = queue p"
  "cancelled (announce p) = cancelled p" "running (announce p) = running p"
  by (simp_all add: announce_def)

lemma pool_ok_announce [simp]: "pool_ok n k (announce p) = pool_ok n k p"
  by (simp add: pool_ok_def)

lemma pool_ok_queue [simp]:
  "pool_ok n k (p\<lparr>queue := q\<rparr>) = pool_ok n k p" "pool_ok n k (p\<lparr>cancelled := c\<rparr>) = pool_ok n k p"
  "pool_ok n k (p\<lparr>running := r\<rparr>) = pool_ok n k p"
  by (simp_all add: pool_ok_def)

lemma pool_ok_discard_slot: "pool_ok n k p \<Longrightarrow> pool_ok n k (discard_slot t p)"
  using slot_discard_le [of t p]
  by (auto simp: pool_ok_def) (auto simp: discard_slot_def AList.distinct_delete split: option.splits)

lemma pool_ok_discards: "pool_ok n k p \<Longrightarrow> pool_ok n k (foldl (\<lambda>p t. discard_slot t p) p ts)"
  by (induction ts arbitrary: p) (auto simp: pool_ok_discard_slot)

lemma fits_cancelled [simp]: "fits n (p\<lparr>cancelled := c\<rparr>) = fits n p"
  by (simp add: fits_def)

text \<open>What an eviction does: the victim is idle and no idle container was used less recently.\<close>

lemma evict_idle_cases:
  assumes "evict_idle p = (free, q)"
  obtains (none) "\<not> free" "q = p" "idle_threads p = []"
  | (victim) t s where "free" "(t, s) \<in> set (slot p)" "\<not> busy s" "q = discard_slot t p"
      "\<forall>(u, r) \<in> set (slot p). \<not> busy r \<longrightarrow> last_used s \<le> last_used r"
proof (cases "idle_threads p = []")
  case True
  with assms show ?thesis by (intro none) (auto simp: evict_idle_def)
next
  case False
  let ?m = "Min (set (idle_threads p))"
  have "?m \<in> set (idle_threads p)" using False by (intro Min_in) auto
  then obtain t s where m: "?m = (last_used s, t)" "(t, s) \<in> set (slot p)" "\<not> busy s"
    by (auto simp: idle_threads_def)
  have "last_used s \<le> last_used r" if "(u, r) \<in> set (slot p)" "\<not> busy r" for u r
  proof -
    have "(last_used r, u) \<in> set (idle_threads p)" using that by (force simp: idle_threads_def)
    then have "?m \<le> (last_used r, u)" by (intro Min_le) auto
    then show ?thesis using m(1) by auto
  qed
  then show ?thesis using assms False m by (intro victim [of t s]) (auto simp: evict_idle_def Let_def)
qed

lemma fits_evict_idle:
  assumes "evict_idle p = (True, q)" "pool_ok n k p"
  shows "fits n q"
  using assms(1)
proof (cases rule: evict_idle_cases)
  case (victim t s)
  then have "t \<in> fst ` set (slot p)" by force
  then have "map_of (slot p) t \<noteq> None" by (simp add: map_of_eq_None_iff)
  moreover have "Suc (length (AList.delete t (slot p))) \<le> length (slot p)"
    by (rule length_alist_delete) fact
  ultimately show ?thesis using assms(2) victim by (auto simp: discard_slot_def fits_def pool_ok_def)
qed simp

lemma pool_ok_evict_idle: "evict_idle p = (free, q) \<Longrightarrow> pool_ok n k p \<Longrightarrow> pool_ok n k q"
  by (auto elim!: evict_idle_cases simp: pool_ok_discard_slot)

lemma map_fst_update_present:
  "map_of xs t = Some s \<Longrightarrow> map fst (AList.update t v xs) = map fst xs"
  by (induction xs) (auto split: if_splits)

lemma length_update_present: "map_of xs t = Some s \<Longrightarrow> length (AList.update t v xs) = length xs"
  by (drule map_fst_update_present [of _ _ _ v]) (metis length_map)

lemma length_remove1_int: "w \<in> set xs \<Longrightarrow> int (length (remove1 w xs)) = int (length xs) - 1"
  by (induction xs) auto

lemma abandon_ok:
  assumes "pool_ok n k p"
  shows "pool_ok n k (abandon w p)" "fits n p \<Longrightarrow> fits n (abandon w p)"
  using assms by (auto simp: pool_ok_def fits_def abandon_def length_remove1_int)

lemma current_ok:
  assumes "pool_ok n k p"
  shows "pool_ok n k (snd (current t now p))" "fits n p \<Longrightarrow> fits n (snd (current t now p))"
  using assms
  by (auto simp: pool_ok_def fits_def current_def map_fst_update_present length_update_present split: option.splits)

lemma unlocked_step_ok:
  assumes "pool_ok n k p"
  shows "pool_ok n k (unlocked_step p u)" "fits n p \<Longrightarrow> fits n (unlocked_step p u)"
  using assms by (cases u; simp add: abandon_ok current_ok)+

lemma unlocked_steps_ok:
  assumes "pool_ok n k p"
  shows "pool_ok n k (foldl unlocked_step p us)" "fits n p \<Longrightarrow> fits n (foldl unlocked_step p us)"
  using assms by (induction us arbitrary: p) (simp_all add: unlocked_step_ok)

lemma make_room_ok:
  assumes "make_room gs p = (free, gs', q)" "pool_ok n k p"
  shows "pool_ok n k q" "free \<Longrightarrow> fits n q"
proof -
  have "fits n p" if "has_room p" using that assms(2) by (auto simp: has_room_def fits_def pool_ok_def)
  then show "pool_ok n k q" "free \<Longrightarrow> fits n q"
    using assms
    by (auto simp: make_room_def split: if_splits prod.splits bool.splits list.splits
        intro: pool_ok_evict_idle fits_evict_idle unlocked_steps_ok)
qed

lemma pool_ok_grant:
  "pool_ok n k q \<Longrightarrow> fits n q \<Longrightarrow>
    pool_ok n k (q\<lparr>reserved := reserved q + 1, queue := ws, granted := granted q @ [w]\<rparr>)"
  by (auto simp: pool_ok_def fits_def)

lemma pool_ok_lost:
  "pool_ok n k q \<Longrightarrow> fits n q \<Longrightarrow> pool_ok n (k + 1) (q\<lparr>reserved := reserved q + 1\<rparr>)"
  by (auto simp: pool_ok_def fits_def)

text \<open>The rule for the loop: an invariant that the condition and a grant keep holds at the end, and a
  loop that breaks off has counted a reservation in a state where there was room.\<close>

lemma pump_loop_rule:
  assumes "pump_loop gs p = (e, q)" "I p"
    and room: "\<And>gs1 p free gs' r. set gs1 \<subseteq> set gs \<Longrightarrow> I p \<Longrightarrow> queue p \<noteq> [] \<Longrightarrow> make_room gs1 p = (free, gs', r) \<Longrightarrow>
      I r \<and> (free \<longrightarrow> R r)"
    and grant: "\<And>r w ws. I r \<Longrightarrow> R r \<Longrightarrow> queue r = w # ws \<Longrightarrow> w \<notin> set (cancelled r) \<Longrightarrow>
      I (r\<lparr>reserved := reserved r + 1, queue := ws, granted := granted r @ [w]\<rparr>)"
  shows "(e = None \<longrightarrow> I q \<and> (queue q = [] \<or> (\<exists>gs p'. I p' \<and> make_room gs p' = (False, gs, q)))) \<and>
    (e \<noteq> None \<longrightarrow> (\<exists>r. I r \<and> R r \<and> q = r\<lparr>reserved := reserved r + 1, queue := tl (queue r)\<rparr> \<and>
       (queue r = [] \<or> (\<exists>w. w \<in> set (queue r) \<and> w \<in> set (cancelled r)))))"
proof -
  have "set gs1 \<subseteq> set gs \<Longrightarrow> pump_loop gs1 p = (e, q) \<Longrightarrow> I p \<Longrightarrow> ?thesis" for gs1
  proof (induction gs1 p arbitrary: e q rule: pump_loop.induct)
    case (1 gs1 p)
    obtain free gs' r where mr: "make_room gs1 p = (free, gs', r)" by (cases "make_room gs1 p")
    note prems = "1.prems"(2,3)
    note I = room [OF "1.prems"(1,3) _ mr]
    have gs: "gs' = gs1" if "\<not> free"
      using mr that by (auto simp: make_room_def split: if_splits prod.splits bool.splits list.splits)
    have sub: "set gs' \<subseteq> set gs"
      using mr "1.prems"(1) by (auto simp: make_room_def split: if_splits prod.splits bool.splits list.splits)
    consider (empty) "queue p = []" | (full) "queue p \<noteq> []" "\<not> free"
      | (index) "queue p \<noteq> []" free "queue r = []"
      | (state) w ws where "queue p \<noteq> []" free "queue r = w # ws" "w \<in> set (cancelled r)"
      | (go) w ws where "queue p \<noteq> []" free "queue r = w # ws" "w \<notin> set (cancelled r)"
      by (cases "queue r") auto
    then show ?case
    proof cases
      case empty
      then show ?thesis using prems by (auto simp: pump_loop.simps)
    next
      case full
      then have "e = None" "q = r" using prems mr by (auto simp: pump_loop.simps)
      then show ?thesis using I [OF full(1)] mr prems(2) full gs by auto
    next
      case index
      then have "e \<noteq> None" "q = r\<lparr>reserved := reserved r + 1, queue := []\<rparr>"
        using prems mr by (auto simp: pump_loop.simps)
      then show ?thesis using I [OF index(1)] index by auto
    next
      case state
      then have "e \<noteq> None" "q = r\<lparr>reserved := reserved r + 1, queue := ws\<rparr>"
        using prems mr by (auto simp: pump_loop.simps)
      then show ?thesis using I [OF state(1)] state by (auto intro!: exI [of _ r])
    next
      case go
      let ?g = "r\<lparr>reserved := reserved r + 1, queue := ws, granted := granted r @ [w]\<rparr>"
      have "pump_loop gs' ?g = (e, q)" using prems mr go by (auto simp: pump_loop.simps)
      moreover have "I ?g" using I [OF go(1)] go by (intro grant) auto
      ultimately show ?thesis using "1.IH" [OF go(1) mr [symmetric]] go sub by simp
    qed
  qed
  from this [OF subset_refl assms(1,2)] show ?thesis .
qed

lemma pump_ok:
  assumes "pump gs p = (e, q)" "pool_ok n k p"
  shows "pool_ok n (if e = None then k else k + 1) q"
proof -
  obtain e' r where loop: "pump_loop gs p = (e', r)" by (cases "pump_loop gs p")
  have "pool_ok n (if e' = None then k else k + 1) r"
    using pump_loop_rule [OF loop, of "pool_ok n k" "fits n"] assms(2) make_room_ok pool_ok_grant pool_ok_lost
    by (cases e') fastforce+
  then show ?thesis using assms(1) loop by (auto simp: pump_def split: option.splits)
qed

lemma start_container_ok:
  assumes "pool_ok n k p" "fits n p"
  shows "pool_ok n k (snd (start_container t h started now p))"
  using assms
  by (auto simp: start_container_def pool_ok_def fits_def AList.distinct_update length_alist_update split: option.splits)

lemma take_fresh_ok:
  assumes "pool_ok n k p"
  shows "pool_ok n k (snd (take_fresh t h started now p))"
proof -
  obtain free gs q where mr: "make_room [] p = (free, gs, q)" by (cases "make_room [] p")
  show ?thesis
    using make_room_ok [OF mr assms] start_container_ok [of n k q t h started now] mr
    by (cases free) (auto simp: take_fresh_def split: prod.splits sum.splits)
qed

lemma take_container_ok:
  "pool_ok n k p \<Longrightarrow> pool_ok n k (snd (take_container t h alive started now p))"
  by (auto simp: take_container_def take_fresh_ok pool_ok_discard_slot split: option.splits)
    (auto simp: pool_ok_def map_fst_update_present length_update_present)

lemma acquire_enter_ok:
  assumes "pool_ok n k p"
  shows "pool_ok n k (snd (acquire_enter found alive started now w p))"
  using take_container_ok [OF assms, of "w_thread w" "w_holder w" alive started now] assms
  by (auto simp: acquire_enter_def split: prod.splits sum.splits option.splits)

lemma acquire_resume_ok:
  assumes "pool_ok n k p" "w \<in> set (granted p)"
  shows "pool_ok n k (snd (acquire_resume started now w p))"
  unfolding acquire_resume_def
  by (rule start_container_ok) (use assms in \<open>auto simp: pool_ok_def fits_def length_remove1_int\<close>)

lemma map_fst_map_snd [simp]: "map fst (map (\<lambda>(t, s). (t, f s)) xs) = map fst xs"
  by (induction xs) auto

lemma expire_lease_ok: "pool_ok n k p \<Longrightarrow> pool_ok n k (expire_lease now p)"
  unfolding pool_ok_def expire_lease_def by (simp del: map_map)

lemma release_ok: "release gs t h now p = (e, q) \<Longrightarrow> pool_ok n k p \<Longrightarrow>
    pool_ok n (if e = None then k else k + 1) q"
  unfolding release_def
  by (erule pump_ok) (auto simp: pool_ok_def map_fst_update_present length_update_present split: option.splits)

lemma discard_ok: "discard gs t p = (e, q) \<Longrightarrow> pool_ok n k p \<Longrightarrow>
    pool_ok n (if e = None then k else k + 1) q"
  unfolding discard_def by (erule pump_ok) (rule pool_ok_discard_slot)

lemma sweep_ok: "sweep gs now p = (e, q) \<Longrightarrow> pool_ok n k p \<Longrightarrow>
    pool_ok n (if e = None then k else k + 1) q"
  unfolding sweep_def Let_def by (erule pump_ok) (intro pool_ok_discards expire_lease_ok)

lemma aclose_ok: "pool_ok n k p \<Longrightarrow> pool_ok n k (aclose p)"
  by (simp add: aclose_def pool_ok_discards)

lemma apply_op_ok:
  assumes "apply_op op p = (e, q)" "enabled op p" "pool_ok n k p"
  shows "pool_ok n (if e = None then k else k + 1) q"
  using assms
  by (cases op) (auto simp: acquire_enter_ok acquire_resume_ok unlocked_step_ok aclose_ok
      dest: release_ok discard_ok sweep_ok split: if_splits)

lemma pool_reach_ok: "pool_reach p0 k p \<Longrightarrow> pool_ok n 0 p0 \<Longrightarrow> pool_ok n k p"
  by (induction rule: pool_reach.induct) (auto dest: apply_op_ok)

section \<open>A container in use stays\<close>

definition holds :: "string \<Rightarrow> string \<Rightarrow> nat \<Rightarrow> Pool \<Rightarrow> bool" where
  "holds t h c p \<longleftrightarrow>
     distinct (map fst (slot p)) \<and>
     (case map_of (slot p) t of None \<Rightarrow> False | Some s \<Rightarrow> h \<in> holder s \<and> container s = c)"

text \<open>The steps that may end the hold of \<open>h\<close> on the container of \<open>t\<close>: its own release, the end of the
  thread or of the pool, a container found dead, a lease nobody touched for too long, and a
  queued request of the same thread that starts another container.\<close>

fun ends_hold :: "string \<Rightarrow> string \<Rightarrow> Pool \<Rightarrow> pool_op \<Rightarrow> bool" where
  "ends_hold t h p (Enter _ alive _ _ w) \<longleftrightarrow> w_thread w = t \<and> \<not> alive"
| "ends_hold t h p (Resume _ _ w) \<longleftrightarrow> w_thread w = t"
| "ends_hold t h p (Unlocked _) \<longleftrightarrow> False"
| "ends_hold t h p (Release _ t' h' _) \<longleftrightarrow> t' = t \<and> h' = h"
| "ends_hold t h p (Discard _ t') \<longleftrightarrow> t' = t"
| "ends_hold t h p (Sweep _ now) \<longleftrightarrow>
     (case map_of (slot p) t of None \<Rightarrow> True | Some s \<Rightarrow> last_used s \<le> now - lease_timeout p)"
| "ends_hold t h p Aclose \<longleftrightarrow> True"
| "ends_hold t h p (Comes_up _) \<longleftrightarrow> False"

declare map_of_eq_Some_iff [simp del]

lemma holds_sels [simp]:
  "holds t h c (announce p) = holds t h c p" "holds t h c (p\<lparr>queue := x\<rparr>) = holds t h c p"
  "holds t h c (p\<lparr>reserved := y\<rparr>) = holds t h c p" "holds t h c (p\<lparr>granted := z\<rparr>) = holds t h c p"
  "holds t h c (p\<lparr>cancelled := u\<rparr>) = holds t h c p" "holds t h c (p\<lparr>running := v\<rparr>) = holds t h c p"
  by (simp_all add: holds_def)

lemma holds_discard_slot: "holds t h c p \<Longrightarrow> u \<noteq> t \<Longrightarrow> holds t h c (discard_slot u p)"
  by (auto simp: holds_def discard_slot_def AList.distinct_delete AList.delete_conv' split: option.splits)

lemma holds_discards:
  "holds t h c p \<Longrightarrow> t \<notin> set us \<Longrightarrow> holds t h c (foldl (\<lambda>p t. discard_slot t p) p us)"
  by (induction us arbitrary: p) (auto simp: holds_discard_slot)

lemma holds_update:
  assumes "holds t h c p"
    and "u = t \<Longrightarrow> h \<in> holder s \<and> container s = c"
  shows "holds t h c (p\<lparr>slot := AList.update u s (slot p)\<rparr>)"
  using assms by (auto simp: holds_def AList.distinct_update AList.update_conv' split: option.splits)

lemma holds_evict_idle:
  assumes "holds t h c p" "evict_idle p = (free, q)"
  shows "holds t h c q"
  using assms(2)
proof (cases rule: evict_idle_cases)
  case (victim u s)
  moreover have "u \<noteq> t"
  proof
    assume "u = t"
    with victim assms(1) have "map_of (slot p) t = Some s" by (simp add: holds_def map_of_is_SomeI)
    with victim assms(1) show False by (auto simp: holds_def busy_def)
  qed
  ultimately show ?thesis using assms(1) holds_discard_slot by simp
qed (use assms in simp)

lemma holds_unlocked_step: "holds t h c p \<Longrightarrow> holds t h c (unlocked_step p u)"
proof (cases u)
  case (Touches u now)
  assume "holds t h c p"
  then show ?thesis unfolding Touches
    by (auto simp: current_def split: option.splits intro!: holds_update) (auto simp: holds_def)
qed (auto simp: abandon_def)

lemma holds_unlocked_steps: "holds t h c p \<Longrightarrow> holds t h c (foldl unlocked_step p us)"
  by (induction us arbitrary: p) (auto simp: holds_unlocked_step)

lemma holds_make_room: "holds t h c p \<Longrightarrow> make_room gs p = (free, gs', q) \<Longrightarrow> holds t h c q"
  by (auto simp: make_room_def holds_evict_idle holds_unlocked_steps
      split: if_splits prod.splits bool.splits list.splits)

lemma holds_pump:
  assumes "holds t h c p" "pump gs p = (e, q)"
  shows "holds t h c q"
proof -
  obtain e' r where loop: "pump_loop gs p = (e', r)" by (cases "pump_loop gs p")
  have "holds t h c r"
    using pump_loop_rule [OF loop, of "holds t h c" "\<lambda>_. True"] assms(1) holds_make_room
    by (cases e') fastforce+
  then show ?thesis using assms(2) loop by (auto simp: pump_def split: option.splits)
qed

lemma holds_start_container: "holds t h c p \<Longrightarrow> u \<noteq> t \<Longrightarrow> holds t h c (snd (start_container u k started now p))"
  by (auto simp: start_container_def split: option.splits intro: holds_update)

lemma holds_take_fresh:
  assumes "holds t h c p" "u \<noteq> t"
  shows "holds t h c (snd (take_fresh u k started now p))"
proof -
  obtain free gs q where mr: "make_room [] p = (free, gs, q)" by (cases "make_room [] p")
  show ?thesis
    using holds_make_room [OF assms(1) mr] holds_start_container [of t h c q u k started now] assms(2) mr
    by (cases free) (auto simp: take_fresh_def split: prod.splits sum.splits)
qed

lemma holds_acquire_enter:
  assumes "holds t h c p" "\<not> ends_hold t h p (Enter found alive started now w)"
  shows "holds t h c (snd (acquire_enter found alive started now w p))"
proof -
  have "holds t h c (snd (take_container (w_thread w) (w_holder w) alive started now p))"
  proof (cases "w_thread w = t")
    case True
    then obtain s where "map_of (slot p) t = Some s" "h \<in> holder s" "container s = c"
      using assms(1) by (auto simp: holds_def split: option.splits)
    then show ?thesis using True assms by (auto simp: take_container_def intro: holds_update)
  next
    case False
    then show ?thesis using assms(1)
      by (auto simp: take_container_def holds_take_fresh holds_discard_slot holds_update split: option.splits)
  qed
  with assms(1) show ?thesis
    by (auto simp: acquire_enter_def split: prod.splits sum.splits option.splits)
qed

lemma holds_sweep:
  assumes "holds t h c p" "\<not> ends_hold t h p (Sweep gs now)" "sweep gs now p = (e, q)"
  shows "holds t h c q"
proof -
  obtain s where s: "map_of (slot p) t = Some s" "h \<in> holder s" "container s = c"
      "\<not> last_used s \<le> now - lease_timeout p" "distinct (map fst (slot p))"
    using assms(1,2) by (auto simp: holds_def split: option.splits)
  let ?f = "\<lambda>s. if busy s \<and> last_used s \<le> now - lease_timeout p then s\<lparr>holder := {}\<rparr> else s"
  have slot: "slot (expire_lease now p) = map (\<lambda>(t, s). (t, ?f s)) (slot p)"
    by (simp add: expire_lease_def)
  have t: "map_of (slot (expire_lease now p)) t = Some s"
    using s by (simp only: slot map_of_map) simp
  have d: "distinct (map fst (slot (expire_lease now p)))"
    using s(5) unfolding slot map_fst_map_snd .
  have held: "holds t h c (expire_lease now p)" using t d s by (simp add: holds_def)
  have "t \<notin> set (map fst (filter (\<lambda>(_, s). \<not> busy s \<and> last_used s \<le> now - idle_timeout (expire_lease now p))
      (slot (expire_lease now p))))"
    using t d s(2) by (auto simp: busy_def dest: map_of_is_SomeI [OF d])
  from holds_pump [OF holds_discards [OF held this]] assms(3) show ?thesis
    by (simp add: sweep_def Let_def)
qed

section \<open>Requests are served in order\<close>

lemma make_room_refused:
  "make_room gs p = (False, gs', q) \<Longrightarrow> q = p \<and> \<not> has_room p \<and> idle_threads p = []"
  by (auto simp: make_room_def evict_idle_def Let_def split: if_splits prod.splits bool.splits list.splits)

lemma make_room_alone:
  assumes "make_room [] p = (free, gs', q)"
  shows "queue q = queue p \<and> granted q = granted p \<and> cancelled q = cancelled p \<and> notices q = notices p"
  using assms by (auto simp: make_room_def evict_idle_def Let_def split: if_splits)

definition served :: "Pool \<Rightarrow> Pool \<Rightarrow> bool" where
  "served p q \<longleftrightarrow> cancelled q = cancelled p \<and> notices q = notices p \<and>
     (\<exists>k. granted q = granted p @ take k (queue p) \<and> queue q = drop k (queue p))"

lemma served_grant:
  assumes "served p r" "queue r = w # ws"
  shows "served p (r\<lparr>reserved := reserved r + 1, queue := ws, granted := granted r @ [w]\<rparr>)"
proof -
  from assms obtain k where k: "granted r = granted p @ take k (queue p)" "drop k (queue p) = w # ws"
    by (auto simp: served_def)
  then have "take (Suc k) (queue p) = take k (queue p) @ [w]" "drop (Suc k) (queue p) = ws"
    by (metis (no_types) hd_drop_conv_nth drop_eq_Nil linorder_not_less list.distinct(1) list.sel(1) take_Suc_conv_app_nth,
        metis drop_Suc list.sel(3) tl_drop)
  with k assms show ?thesis by (auto simp: served_def intro!: exI [of _ "Suc k"])
qed

lemma pump_loop_served:
  assumes "pump_loop [] p = (e, q)" "set (queue p) \<inter> set (cancelled p) = {}"
  shows "e = None \<and> served p q \<and> (queue q = [] \<or> \<not> has_room q \<and> idle_threads q = [])"
proof -
  have init: "served p p" by (auto simp: served_def intro!: exI [of _ 0])
  have room: "served p r' \<and> (free \<longrightarrow> queue r' \<noteq> [])"
    if "set gs1 \<subseteq> set []" "served p r" "queue r \<noteq> []" "make_room gs1 r = (free, gs', r')" for gs1 r free gs' r'
    using make_room_alone [of r free gs' r'] that by (auto simp: served_def)
  have "set (queue r) \<inter> set (cancelled r) = {}" if "served p r" for r
    using that assms(2) set_drop_subset by (fastforce simp: served_def)
  moreover have "(e = None \<longrightarrow> served p q \<and> (queue q = [] \<or> (\<exists>gs p'. served p p' \<and> make_room gs p' = (False, gs, q)))) \<and>
    (e \<noteq> None \<longrightarrow> (\<exists>r. served p r \<and> queue r \<noteq> [] \<and> q = r\<lparr>reserved := reserved r + 1, queue := tl (queue r)\<rparr> \<and>
       (queue r = [] \<or> (\<exists>w. w \<in> set (queue r) \<and> w \<in> set (cancelled r)))))"
    by (rule pump_loop_rule [OF assms(1), of "served p" "\<lambda>r. queue r \<noteq> []"]) (use init room served_grant in blast)+
  ultimately show ?thesis by (cases e) (auto dest!: make_room_refused)
qed

section \<open>Adoption at the start\<close>

lemma reclaim_keeps:
  "queue (reclaim found is_dir now p) = queue p \<and> granted (reclaim found is_dir now p) = granted p \<and>
   reserved (reclaim found is_dir now p) = reserved p \<and> max_container (reclaim found is_dir now p) = max_container p \<and>
   length (slot (reclaim found is_dir now p)) \<le> length (slot p) + length found \<and>
   (distinct (map fst (slot p)) \<longrightarrow> distinct (map fst (slot (reclaim found is_dir now p))))"
  unfolding reclaim_def
proof (induction found arbitrary: p)
  case (Cons x found)
  let ?p = "reclaim_one is_dir now p x"
  have "queue ?p = queue p" "granted ?p = granted p" "reserved ?p = reserved p" "max_container ?p = max_container p"
    "length (slot ?p) \<le> Suc (length (slot p))" "distinct (map fst (slot p)) \<longrightarrow> distinct (map fst (slot ?p))"
    by (auto simp: reclaim_one_def length_alist_update AList.distinct_update split: prod.splits)
  with Cons.IH [of ?p] show ?case by auto
qed simp

text \<open>A sequence of steps, with the number of pumps that broke off; \<open>None\<close> when a step is not enabled.\<close>

fun run_ops :: "pool_op list \<Rightarrow> Pool \<Rightarrow> (nat \<times> Pool) option" where
  "run_ops [] p = Some (0, p)"
| "run_ops (op # ops) p =
     (if enabled op p
      then case apply_op op p of (e, q) \<Rightarrow>
        map_option (\<lambda>(k, r). (if e = None then k else k + 1, r)) (run_ops ops q)
      else None)"

lemma pool_reach_add: "pool_reach q k r \<Longrightarrow> pool_reach p j q \<Longrightarrow> pool_reach p (j + k) r"
proof (induction rule: pool_reach.induct)
  case (step q k r op e r')
  then have "pool_reach p (if e = None then j + k else j + k + 1) r'" by (intro pool_reach.step) auto
  then show ?case by (auto split: if_splits)
qed simp

lemma run_ops_reach: "run_ops ops p = Some (k, q) \<Longrightarrow> pool_reach p k q"
proof (induction ops arbitrary: p k q)
  case (Cons op ops)
  obtain e r where op: "apply_op op p = (e, r)" by (cases "apply_op op p")
  with Cons.prems obtain j where j: "run_ops ops r = Some (j, q)" "k = (if e = None then j else j + 1)" "enabled op p"
    by (auto split: if_splits)
  have "pool_reach p (if e = None then 0 else 0 + 1) r"
    using op j(3) by (intro pool_reach.step [OF pool_reach.start])
  from pool_reach_add [OF Cons.IH [OF j(1)] this] show ?case using j(2) by (auto split: if_splits)
qed (auto intro: pool_reach.start)

section \<open>Containers the pool has lost sight of\<close>

text \<open>A step after which a container runs that no slot names: a start that was cut off comes up, or a request that had queued
  starts a container over the slot its thread has got meanwhile.\<close>

fun forgets :: "pool_op \<Rightarrow> Pool \<Rightarrow> bool" where
  "forgets (Comes_up _) p \<longleftrightarrow> True"
| "forgets (Resume started _ w) p \<longleftrightarrow> started \<noteq> None \<and> map_of (slot p) (w_thread w) \<noteq> None"
| "forgets _ p \<longleftrightarrow> False"

fun strays :: "pool_op list \<Rightarrow> Pool \<Rightarrow> nat" where
  "strays [] p = 0"
| "strays (op # ops) p = (if forgets op p then 1 else 0) + strays ops (snd (apply_op op p))"

text \<open>One thread at a time, as the lock the broker holds around an acquire (\<open>acquire_sandbox\<close> in \<open>app/broker/route.py\<close>) makes
  it: a thread asks only when no request of it waits or is about to start a container. And no start is cut off.\<close>

fun serial_op :: "pool_op \<Rightarrow> Pool \<Rightarrow> bool" where
  "serial_op (Enter _ _ _ _ w) p \<longleftrightarrow> w_thread w \<notin> w_thread ` set (granted p @ queue p)"
| "serial_op (Comes_up _) p \<longleftrightarrow> False"
| "serial_op _ p \<longleftrightarrow> True"

fun serial :: "pool_op list \<Rightarrow> Pool \<Rightarrow> bool" where
  "serial [] p \<longleftrightarrow> True"
| "serial (op # ops) p \<longleftrightarrow> serial_op op p \<and> serial ops (snd (apply_op op p))"

text \<open>Every running container is that of a slot or one of the list.\<close>

definition accounted :: "nat list \<Rightarrow> Pool \<Rightarrow> bool" where
  "accounted xs p \<longleftrightarrow>
     (\<forall>c \<in> set (running p). c \<in> set xs \<or> (\<exists>t s. map_of (slot p) t = Some s \<and> container s = c))"

lemma accountedD:
  assumes "accounted xs p" "c \<in> set (running p)"
  obtains "c \<in> set xs" | t s where "map_of (slot p) t = Some s" "container s = c"
  using assms by (auto simp: accounted_def)

lemma accounted_sels [simp]:
  "accounted xs (announce p) = accounted xs p" "accounted xs (p\<lparr>queue := a\<rparr>) = accounted xs p"
  "accounted xs (p\<lparr>reserved := b\<rparr>) = accounted xs p" "accounted xs (p\<lparr>granted := d\<rparr>) = accounted xs p"
  "accounted xs (p\<lparr>cancelled := e\<rparr>) = accounted xs p"
  by (simp_all add: accounted_def)

lemma accounted_discard_slot:
  assumes "accounted xs p"
  shows "accounted xs (discard_slot t p)"
proof (cases "map_of (slot p) t")
  case None
  then show ?thesis using assms by (simp add: discard_slot_def)
next
  case (Some s)
  show ?thesis
    unfolding accounted_def
  proof
    fix c
    assume "c \<in> set (running (discard_slot t p))"
    then have c: "c \<in> set (running p)" "c \<noteq> container s" using Some by (auto simp: discard_slot_def)
    from assms c(1) show "c \<in> set xs \<or> (\<exists>u s. map_of (slot (discard_slot t p)) u = Some s \<and> container s = c)"
    proof (cases rule: accountedD)
      case (2 u r)
      with c(2) Some have "u \<noteq> t" by auto
      with 2 Some have "map_of (slot (discard_slot t p)) u = Some r" by (simp add: discard_slot_def AList.delete_conv')
      with 2 show ?thesis by blast
    qed simp
  qed
qed

lemma accounted_discards: "accounted xs p \<Longrightarrow> accounted xs (foldl (\<lambda>p t. discard_slot t p) p ts)"
  by (induction ts arbitrary: p) (auto simp: accounted_discard_slot)

lemma accounted_update:
  assumes "accounted xs p" "map_of (slot p) t = Some s" "container s' = container s"
  shows "accounted xs (p\<lparr>slot := AList.update t s' (slot p)\<rparr>)"
  unfolding accounted_def
proof
  fix c
  let ?m = "map_of (AList.update t s' (slot p))"
  assume "c \<in> set (running (p\<lparr>slot := AList.update t s' (slot p)\<rparr>))"
  then have "c \<in> set (running p)" by simp
  with assms(1) have "c \<in> set xs \<or> (\<exists>u s. ?m u = Some s \<and> container s = c)"
  proof (cases rule: accountedD)
    case (2 u r)
    have "?m u = Some (if u = t then s' else r)" using 2 by (simp add: AList.update_conv')
    moreover have "container (if u = t then s' else r) = c" using 2 assms by auto
    ultimately show ?thesis by blast
  qed simp
  then show "c \<in> set xs \<or> (\<exists>u s. map_of (slot (p\<lparr>slot := AList.update t s' (slot p)\<rparr>)) u = Some s \<and> container s = c)"
    by simp
qed

lemma accounted_evict_idle: "evict_idle p = (free, q) \<Longrightarrow> accounted xs p \<Longrightarrow> accounted xs q"
  by (auto elim!: evict_idle_cases simp: accounted_discard_slot)

lemma accounted_unlocked_step: "accounted xs p \<Longrightarrow> accounted xs (unlocked_step p u)"
  by (cases u) (auto simp: abandon_def current_def accounted_update split: option.splits)

lemma accounted_unlocked_steps: "accounted xs p \<Longrightarrow> accounted xs (foldl unlocked_step p us)"
  by (induction us arbitrary: p) (auto simp: accounted_unlocked_step)

lemma accounted_make_room: "accounted xs p \<Longrightarrow> make_room gs p = (free, gs', q) \<Longrightarrow> accounted xs q"
  by (auto simp: make_room_def accounted_evict_idle accounted_unlocked_steps
      split: if_splits prod.splits bool.splits list.splits)

lemma accounted_pump:
  assumes "accounted xs p" "pump gs p = (e, q)"
  shows "accounted xs q"
proof -
  obtain e' r where loop: "pump_loop gs p = (e', r)" by (cases "pump_loop gs p")
  have "accounted xs r"
    using pump_loop_rule [OF loop, of "accounted xs" "\<lambda>_. True"] assms(1) accounted_make_room
    by (cases e') fastforce+
  then show ?thesis using assms(2) loop by (auto simp: pump_def split: option.splits)
qed

lemma accounted_start_container:
  assumes "accounted xs p" "\<And>s. started \<noteq> None \<Longrightarrow> map_of (slot p) t = Some s \<Longrightarrow> container s \<in> set ys"
    "set xs \<subseteq> set ys"
  shows "accounted ys (snd (start_container t h started now p))"
proof (cases started)
  case None
  then show ?thesis using assms by (auto simp: accounted_def start_container_def)
next
  case (Some d)
  let ?s = "\<lparr>container = d, holder = {h}, last_used = now\<rparr>"
  let ?m = "map_of (AList.update t ?s (slot p))"
  have "c \<in> set ys \<or> (\<exists>u s. ?m u = Some s \<and> container s = c)" if "c \<in> set (running p)" for c
    using assms(1) that
  proof (cases rule: accountedD)
    case (2 u r)
    show ?thesis
    proof (cases "u = t")
      case True
      then show ?thesis using assms(2) Some 2 by auto
    next
      case False
      then have "?m u = Some r" using 2 by (simp add: AList.update_conv')
      then show ?thesis using 2 by blast
    qed
  qed (use assms(3) in auto)
  moreover have "?m t = Some ?s" by (simp add: AList.update_conv')
  then have "\<exists>u s. ?m u = Some s \<and> container s = d" by (intro exI [of _ t] exI [of _ ?s]) simp
  ultimately show ?thesis using Some by (auto simp: accounted_def start_container_def)
qed

lemma accounted_fresh:
  "accounted xs p \<Longrightarrow> map_of (slot p) t = None \<Longrightarrow> accounted xs (snd (start_container t h started now p))"
  by (rule accounted_start_container) auto

text \<open>An eviction and what runs meanwhile give no thread a slot.\<close>

lemma slotless_discard_slot: "map_of (slot p) t = None \<Longrightarrow> map_of (slot (discard_slot u p)) t = None"
  by (auto simp: discard_slot_def AList.delete_conv' split: option.splits)

lemma discard_slotless: "map_of (slot (discard_slot t p)) t = None"
  by (auto simp: discard_slot_def AList.delete_conv' split: option.splits)

lemma slotless_discards: "map_of (slot p) t = None \<Longrightarrow> map_of (slot (foldl (\<lambda>p t. discard_slot t p) p ts)) t = None"
  by (induction ts arbitrary: p) (auto simp: slotless_discard_slot)

lemma slotless_unlocked_step: "map_of (slot p) t = None \<Longrightarrow> map_of (slot (unlocked_step p u)) t = None"
  by (cases u) (auto simp: abandon_def current_def AList.update_conv' split: option.splits)

lemma slotless_unlocked_steps: "map_of (slot p) t = None \<Longrightarrow> map_of (slot (foldl unlocked_step p us)) t = None"
  by (induction us arbitrary: p) (auto simp: slotless_unlocked_step)

lemma slotless_make_room: "map_of (slot p) t = None \<Longrightarrow> make_room gs p = (free, gs', q) \<Longrightarrow> map_of (slot q) t = None"
  by (auto simp: make_room_def slotless_unlocked_steps slotless_discard_slot elim!: evict_idle_cases
      split: if_splits prod.splits bool.splits list.splits)

lemma accounted_take_fresh:
  assumes "accounted xs p" "map_of (slot p) t = None"
  shows "accounted xs (snd (take_fresh t h started now p))"
proof -
  obtain free gs q where mr: "make_room [] p = (free, gs, q)" by (cases "make_room [] p")
  show ?thesis
    using accounted_make_room [OF assms(1) mr] accounted_fresh [OF _ slotless_make_room [OF assms(2) mr], of xs h started now] mr
    by (cases free) (auto simp: take_fresh_def split: prod.splits sum.splits)
qed

lemma accounted_acquire_enter:
  assumes "accounted xs p"
  shows "accounted xs (snd (acquire_enter found alive started now w p))"
proof -
  have "accounted xs (snd (take_container (w_thread w) (w_holder w) alive started now p))"
    using assms by (auto simp: take_container_def accounted_take_fresh accounted_discard_slot discard_slotless accounted_update
        split: option.splits)
  then show ?thesis using assms by (auto simp: acquire_enter_def split: prod.splits sum.splits option.splits)
qed

lemma accounted_expire_lease: "accounted xs p \<Longrightarrow> accounted xs (expire_lease now p)"
proof -
  assume acc: "accounted xs p"
  let ?f = "\<lambda>s. if busy s \<and> last_used s \<le> now - lease_timeout p then s\<lparr>holder := {}\<rparr> else s"
  have slot: "map_of (slot (expire_lease now p)) = map_option ?f \<circ> map_of (slot p)"
    by (simp add: expire_lease_def map_of_map)
  show ?thesis
    unfolding accounted_def
  proof
    fix c
    assume "c \<in> set (running (expire_lease now p))"
    then have "c \<in> set (running p)" by (simp add: expire_lease_def)
    with acc show "c \<in> set xs \<or> (\<exists>t s. map_of (slot (expire_lease now p)) t = Some s \<and> container s = c)"
    proof (cases rule: accountedD)
      case (2 t s)
      then have "map_of (slot (expire_lease now p)) t = Some (?f s)" "container (?f s) = c" by (simp_all add: slot)
      then show ?thesis by blast
    qed simp
  qed
qed

lemma accounted_aclose: "accounted xs p \<Longrightarrow> accounted xs (aclose p)"
  unfolding aclose_def by (rule accounted_discards) simp

text \<open>A step adds a container that is not accounted for only when it forgets one.\<close>

lemma accounted_step:
  assumes "accounted xs p" "apply_op op p = (e, q)"
  shows "\<exists>ys. accounted ys q \<and> length ys = length xs + (if forgets op p then 1 else 0)"
proof (cases op)
  case (Resume started now w)
  let ?ys = "case (started, map_of (slot p) (w_thread w)) of (Some _, Some s) \<Rightarrow> container s # xs | _ \<Rightarrow> xs"
  have "accounted ?ys (snd (start_container (w_thread w) (w_holder w) started now
      (p\<lparr>granted := remove1 w (granted p), reserved := reserved p - 1\<rparr>)))"
    by (rule accounted_start_container [of xs]) (use assms(1) in \<open>auto split: option.splits\<close>)
  moreover have "length ?ys = length xs + (if forgets op p then 1 else 0)" using Resume by (auto split: option.splits)
  ultimately show ?thesis using assms(2) Resume by (intro exI [of _ ?ys]) (simp add: acquire_resume_def)
next
  case (Comes_up c)
  have "accounted (c # xs) (p\<lparr>running := running p @ [c]\<rparr>)" using assms(1) by (auto simp: accounted_def)
  then show ?thesis using assms(2) Comes_up by (intro exI [of _ "c # xs"]) auto
next
  case (Release gs t h now)
  have "accounted xs (case map_of (slot p) t of None \<Rightarrow> p
      | Some s \<Rightarrow> p\<lparr>slot := AList.update t (s\<lparr>holder := holder s - {h}, last_used := now\<rparr>) (slot p)\<rparr>)"
    using assms(1) by (auto split: option.splits intro: accounted_update)
  then show ?thesis using accounted_pump assms(2) Release by (intro exI [of _ xs]) (auto simp: release_def)
next
  case (Discard gs t)
  have "accounted xs q"
    using accounted_pump [OF accounted_discard_slot [OF assms(1)]] assms(2) Discard by (simp add: discard_def)
  then show ?thesis using Discard by auto
next
  case (Sweep gs now)
  have "accounted xs q"
    using accounted_pump [OF accounted_discards [OF accounted_expire_lease [OF assms(1)]]] assms(2) Sweep
    by (simp add: sweep_def Let_def)
  then show ?thesis using Sweep by auto
next
  case (Enter found alive started now w)
  then show ?thesis using accounted_acquire_enter [OF assms(1)] assms(2) by (intro exI [of _ xs]) auto
next
  case (Unlocked u)
  then show ?thesis using accounted_unlocked_step [OF assms(1)] assms(2) by (intro exI [of _ xs]) auto
next
  case Aclose
  then show ?thesis using accounted_aclose [OF assms(1)] assms(2) by (intro exI [of _ xs]) auto
qed

lemma accounted_run_ops:
  "run_ops ops p = Some (k, q) \<Longrightarrow> accounted xs p \<Longrightarrow> \<exists>ys. accounted ys q \<and> length ys = length xs + strays ops p"
proof (induction ops arbitrary: p k xs)
  case (Cons op ops)
  obtain e r where op: "apply_op op p = (e, r)" by (cases "apply_op op p")
  with Cons.prems obtain j where j: "run_ops ops r = Some (j, q)" by (auto split: if_splits)
  from accounted_step [OF Cons.prems(2) op] obtain ys
    where ys: "accounted ys r" "length ys = length xs + (if forgets op p then 1 else 0)" by blast
  from Cons.IH [OF j ys(1)] ys(2) op show ?case by (auto simp: add.assoc)
qed auto

lemma accounted_card:
  assumes "accounted xs p"
  shows "card (set (running p)) \<le> length (slot p) + length xs"
proof -
  have "set (running p) \<subseteq> set (map (container \<circ> snd) (slot p) @ xs)"
  proof
    fix c
    assume "c \<in> set (running p)"
    with assms show "c \<in> set (map (container \<circ> snd) (slot p) @ xs)"
      by (cases rule: accountedD) (force dest: map_of_SomeD)+
  qed
  then have "card (set (running p)) \<le> card (set (map (container \<circ> snd) (slot p) @ xs))" by (intro card_mono) simp_all
  also have "\<dots> \<le> length (slot p) + length xs" using card_length by (metis length_append length_map)
  finally show ?thesis .
qed

lemma accounted_reclaim:
  assumes "slot p = []" "running p = map snd found" "distinct (map fst found)"
  shows "accounted [] (reclaim found is_dir now p)"
proof -
  have "accounted [] (foldl (reclaim_one is_dir now) p fs)"
    if "accounted (map snd fs) p" "distinct (map fst fs)" "fst ` set fs \<inter> dom (map_of (slot p)) = {}" for fs p
    using that
  proof (induction fs arbitrary: p)
    case (Cons x fs)
    obtain t c where x: "x = (t, c)" by fastforce
    have none: "map_of (slot p) t = None" using Cons.prems(3) x by (auto simp: dom_def)
    let ?q = "reclaim_one is_dir now p x"
    have q: "?q = (if \<not> is_dir t then p\<lparr>running := removeAll c (running p)\<rparr>
        else p\<lparr>slot := AList.update t \<lparr>container = c, holder = {}, last_used = now\<rparr> (slot p)\<rparr>)"
      using none by (simp add: reclaim_one_def x map_of_eq_None_iff)
    have "accounted (map snd fs) ?q"
    proof (cases "is_dir t")
      case True
      let ?s = "\<lparr>container = c, holder = {}, last_used = now\<rparr>"
      have keep: "map_of (AList.update t ?s (slot p)) u = Some r" if "map_of (slot p) u = Some r" for u r
        using that none by (auto simp: AList.update_conv')
      have new: "map_of (AList.update t ?s (slot p)) t = Some ?s" by (simp add: AList.update_conv')
      show ?thesis
        unfolding accounted_def
      proof
        fix d
        assume "d \<in> set (running ?q)"
        then have "d \<in> set (running p)" using True q by simp
        with Cons.prems(1) show "d \<in> set (map snd fs) \<or> (\<exists>t s. map_of (slot ?q) t = Some s \<and> container s = d)"
        proof (cases rule: accountedD)
          case 1
          then show ?thesis using True q x new by (cases "d = c") (auto intro!: exI [of _ t] exI [of _ ?s])
        next
          case (2 u r)
          from keep [OF 2(1)] have "map_of (slot ?q) u = Some r" using True q by simp
          with 2 show ?thesis by blast
        qed
      qed
    next
      case False
      then show ?thesis using Cons.prems(1) q x by (auto simp: accounted_def)
    qed
    moreover have "fst ` set fs \<inter> dom (map_of (slot ?q)) = {}"
      using Cons.prems(2,3) q x by (auto simp: AList.update_conv' dom_def split: if_splits)
    ultimately show ?case using Cons.IH [of ?q] Cons.prems(2) by simp
  qed simp
  moreover have "accounted (map snd found) p" using assms(2) by (simp add: accounted_def)
  ultimately show ?thesis using assms by (simp add: reclaim_def)
qed

text \<open>When threads ask one at a time, the waiting requests are of different threads, none of which has a slot.\<close>

definition waiting_ok :: "Pool \<Rightarrow> bool" where
  "waiting_ok p \<longleftrightarrow> distinct (map w_thread (granted p @ queue p)) \<and>
     (\<forall>w \<in> set (granted p @ queue p). map_of (slot p) (w_thread w) = None)"

lemma waiting_ok_sels [simp]:
  "waiting_ok (announce p) = waiting_ok p" "waiting_ok (p\<lparr>reserved := b\<rparr>) = waiting_ok p"
  "waiting_ok (p\<lparr>cancelled := e\<rparr>) = waiting_ok p" "waiting_ok (p\<lparr>running := r\<rparr>) = waiting_ok p"
  by (simp_all add: waiting_ok_def)

lemma distinct_map_remove1: "distinct (map f xs) \<Longrightarrow> distinct (map f (remove1 x xs))"
  by (auto simp: distinct_map distinct_remove1 inj_on_diff)

lemma waiting_ok_slots:
  assumes "waiting_ok p" "granted q = granted p" "queue q = queue p"
    and "\<And>t. t \<in> w_thread ` set (granted p @ queue p) \<Longrightarrow> map_of (slot p) t = None \<Longrightarrow> map_of (slot q) t = None"
  shows "waiting_ok q"
  using assms by (auto simp: waiting_ok_def)

lemma waiting_ok_abandon:
  assumes ok: "waiting_ok p"
  shows "waiting_ok (abandon w p)"
proof -
  have sub: "set (remove1 w xs) \<subseteq> set xs" for xs by (rule set_remove1_subset)
  have g: "waiting_ok (p\<lparr>granted := remove1 w (granted p)\<rparr>)"
    using ok sub [of "granted p"] distinct_map_remove1 [of w_thread "granted p" w] by (auto simp: waiting_ok_def)
  have q: "waiting_ok (p\<lparr>queue := remove1 w (queue p)\<rparr>)"
    using ok sub [of "queue p"] distinct_map_remove1 [of w_thread "queue p" w] by (auto simp: waiting_ok_def)
  from g q ok show ?thesis by (auto simp: abandon_def waiting_ok_def)
qed

lemma waiting_ok_unlocked_step: "waiting_ok p \<Longrightarrow> waiting_ok (unlocked_step p u)"
proof (cases u)
  case (Touches t now)
  assume ok: "waiting_ok p"
  show ?thesis
    by (rule waiting_ok_slots [OF ok]) (use Touches slotless_unlocked_step [of p _ u] in
      \<open>auto simp: current_def split: option.splits\<close>)
qed (auto simp: waiting_ok_abandon)

lemma waiting_ok_unlocked_steps: "waiting_ok p \<Longrightarrow> waiting_ok (foldl unlocked_step p us)"
  by (induction us arbitrary: p) (auto simp: waiting_ok_unlocked_step)

lemma waiting_ok_discard_slot: "waiting_ok p \<Longrightarrow> waiting_ok (discard_slot t p)"
  by (erule waiting_ok_slots) (simp_all add: slotless_discard_slot)

lemma waiting_ok_discards: "waiting_ok p \<Longrightarrow> waiting_ok (foldl (\<lambda>p t. discard_slot t p) p ts)"
  by (induction ts arbitrary: p) (auto simp: waiting_ok_discard_slot)

lemma waiting_ok_make_room: "waiting_ok p \<Longrightarrow> make_room gs p = (free, gs', q) \<Longrightarrow> waiting_ok q"
  by (auto simp: make_room_def waiting_ok_unlocked_steps waiting_ok_discard_slot elim!: evict_idle_cases
      split: if_splits prod.splits bool.splits list.splits)

lemma waiting_ok_pump:
  assumes "waiting_ok p" "pump gs p = (e, q)"
  shows "waiting_ok q"
proof -
  obtain e' r where loop: "pump_loop gs p = (e', r)" by (cases "pump_loop gs p")
  have grant: "waiting_ok (r\<lparr>reserved := b, queue := ws, granted := granted r @ [w]\<rparr>)"
    if "waiting_ok r" "queue r = w # ws" for r b w ws
    using that by (auto simp: waiting_ok_def)
  have less: "waiting_ok (r\<lparr>reserved := b, queue := tl (queue r)\<rparr>)" if "waiting_ok r" for r b
    using that by (cases "queue r") (auto simp: waiting_ok_def)
  have "waiting_ok r"
    using pump_loop_rule [OF loop, of waiting_ok "\<lambda>_. True"] assms(1) waiting_ok_make_room grant less
    by (cases e') fastforce+
  then show ?thesis using assms(2) loop by (auto simp: pump_def split: option.splits)
qed

lemma waiting_ok_acquire_enter:
  assumes "waiting_ok p" "w_thread w \<notin> w_thread ` set (granted p @ queue p)"
  shows "waiting_ok (snd (acquire_enter found alive started now w p))"
proof -
  obtain r q where t: "take_container (w_thread w) (w_holder w) alive started now p = (r, q)" by fastforce
  have fresh: "granted q = granted p \<and> queue q = queue p \<and>
      (\<forall>u. u \<noteq> w_thread w \<longrightarrow> map_of (slot p) u = None \<longrightarrow> map_of (slot q) u = None) \<and>
      (r = Inr None \<longrightarrow> map_of (slot q) (w_thread w) = None)"
    if "take_fresh (w_thread w) (w_holder w) started now p' = (r, q)" "granted p' = granted p" "queue p' = queue p"
      "\<And>u. map_of (slot p) u = None \<Longrightarrow> map_of (slot p') u = None" "map_of (slot p') (w_thread w) = None" for p'
  proof -
    obtain free gs v where mr: "make_room [] p' = (free, gs, v)" by (cases "make_room [] p'")
    note v = make_room_alone [OF mr] slotless_make_room [OF _ mr]
    show ?thesis
      using that mr v
      by (cases free) (auto simp: take_fresh_def start_container_def AList.update_conv' split: option.splits)
  qed
  have q: "granted q = granted p" "queue q = queue p"
      "\<And>u. u \<noteq> w_thread w \<Longrightarrow> map_of (slot p) u = None \<Longrightarrow> map_of (slot q) u = None"
      "r = Inr None \<Longrightarrow> map_of (slot q) (w_thread w) = None"
    using t fresh [of p] fresh [of "discard_slot (w_thread w) p"] slotless_discard_slot [of p _ "w_thread w"]
      discard_slotless [of "w_thread w" p]
    by (auto simp: take_container_def AList.update_conv' split: option.splits if_splits)
  have "waiting_ok q"
    by (rule waiting_ok_slots [OF assms(1) q(1,2)]) (use assms(2) q(3) in \<open>metis imageE\<close>)
  moreover have "waiting_ok (q\<lparr>queue := queue q @ [w]\<rparr>)" if "r = Inr None"
    using \<open>waiting_ok q\<close> q(4) [OF that] assms(2) q(1,2) by (auto simp: waiting_ok_def)
  ultimately show ?thesis using t assms(1) by (auto simp: acquire_enter_def split: sum.splits option.splits)
qed

text \<open>In such a sequence no step forgets a container.\<close>

lemma serial_step:
  assumes "waiting_ok p" "serial_op op p" "enabled op p" "apply_op op p = (e, q)"
  shows "waiting_ok q" "\<not> forgets op p"
proof -
  show "\<not> forgets op p" using assms(1-3) by (cases op) (auto simp: waiting_ok_def)
  show "waiting_ok q"
  proof (cases op)
    case (Enter found alive started now w)
    then show ?thesis using waiting_ok_acquire_enter [OF assms(1)] assms(2,4) by auto
  next
    case (Resume started now w)
    let ?p = "p\<lparr>granted := remove1 w (granted p), reserved := reserved p - 1\<rparr>"
    have w: "w \<in> set (granted p)" using assms(3) Resume by simp
    have others: "w_thread w \<notin> w_thread ` set (granted ?p @ queue ?p)"
      using assms(1) w by (auto simp: waiting_ok_def distinct_map inj_on_def)
    have ok: "waiting_ok ?p" using waiting_ok_abandon [OF assms(1), of w] w by (simp add: abandon_def waiting_ok_def)
    have "waiting_ok (snd (start_container (w_thread w) (w_holder w) started now ?p))"
    proof (rule waiting_ok_slots [OF ok])
      fix t
      assume "t \<in> w_thread ` set (granted ?p @ queue ?p)" "map_of (slot ?p) t = None"
      moreover have "t \<noteq> w_thread w" using calculation(1) others by blast
      ultimately show "map_of (slot (snd (start_container (w_thread w) (w_holder w) started now ?p))) t = None"
        by (simp add: start_container_def AList.update_conv' split: option.splits)
    qed (simp_all add: start_container_def split: option.splits)
    then show ?thesis using assms(4) Resume by (simp add: acquire_resume_def)
  next
    case (Release gs t h now)
    let ?p = "case map_of (slot p) t of None \<Rightarrow> p
      | Some s \<Rightarrow> p\<lparr>slot := AList.update t (s\<lparr>holder := holder s - {h}, last_used := now\<rparr>) (slot p)\<rparr>"
    have "waiting_ok ?p"
      by (rule waiting_ok_slots [OF assms(1)]) (auto simp: AList.update_conv' split: option.splits)
    then show ?thesis using waiting_ok_pump assms(4) Release by (auto simp: release_def)
  next
    case (Sweep gs now)
    have "waiting_ok (expire_lease now p)"
      by (rule waiting_ok_slots [OF assms(1)]) (simp_all add: expire_lease_def map_of_map)
    then show ?thesis using waiting_ok_pump waiting_ok_discards assms(4) Sweep by (fastforce simp: sweep_def Let_def)
  next
    case (Discard gs t)
    then show ?thesis using waiting_ok_pump [OF waiting_ok_discard_slot [OF assms(1)]] assms(4) by (simp add: discard_def)
  next
    case Aclose
    have "waiting_ok (p\<lparr>queue := [], cancelled := cancelled p @ queue p\<rparr>)" using assms(1) by (auto simp: waiting_ok_def)
    from waiting_ok_discards [OF this, of "map fst (slot p)"] show ?thesis using assms(4) Aclose by (auto simp: aclose_def)
  qed (use assms in \<open>auto simp: waiting_ok_unlocked_step\<close>)
qed

lemma serial_run_ops:
  "run_ops ops p = Some (k, q) \<Longrightarrow> waiting_ok p \<Longrightarrow> serial ops p \<Longrightarrow> strays ops p = 0"
proof (induction ops arbitrary: p k)
  case (Cons op ops)
  obtain e r where op: "apply_op op p = (e, r)" by (cases "apply_op op p")
  with Cons.prems obtain j where j: "run_ops ops r = Some (j, q)" "enabled op p" by (auto split: if_splits)
  from Cons.IH [OF j(1)] serial_step [OF Cons.prems(2) _ j(2) op] Cons.prems(3) op show ?case by simp
qed simp

definition empty_pool :: "nat \<Rightarrow> Pool" where
  "empty_pool n = \<lparr>max_container = n, idle_timeout = 1800, lease_timeout = 1800, slot = [], queue = [],
     granted = [], cancelled = [], reserved = 0, running = [], notices = []\<rparr>"

definition waiter :: "nat \<Rightarrow> string \<Rightarrow> string \<Rightarrow> Waiter" where
  "waiter i t h = \<lparr>w_id = i, w_thread = t, w_holder = h, w_notify = True\<rparr>"

lemmas pool_eval =
  empty_pool_def waiter_def acquire_enter_def acquire_resume_def take_container_def take_fresh_def make_room_def
  has_room_def evict_idle_def idle_threads_def discard_slot_def start_container_def announce_def release_def
  pump_def pump_loop.simps abandon_def busy_def enumerate_eq_zip sweep_def expire_lease_def discard_def current_def

section \<open>Properties\<close>

text \<open>C4. The containers that run are bounded by the cap and by what the pool loses sight of. From a pool that adopted what Docker had running at the
  start (one container a thread), after any interleaving of acquires, releases, discards, sweeps, timeouts and cancellations, with any failing start, the
  containers that run (started or adopted, and not told to stop since), the requests that were promised one and the places
  lost by pumps that broke off are together at most the cap, or at most the number adopted when that was more, plus the number of
  containers of which the pool lost sight: those of starts that were cut off, and those of requests that started a container
  over one their thread had got while they queued. The slots of the pool respect the cap without that addition, no
  thread has two, and the counter of reservations counts the promised and the lost places. Sight is lost of none when no start is
  cut off and no thread asks while a request of it is waiting, which is what the lock of the broker around an acquire
  is for; then the cap is exactly what \<open>max_container\<close> is documented to be.\<close>

theorem pool_capacity:
  assumes "run_ops ops (reclaim found is_dir now p0) = Some (k, p)"
    and "slot p0 = []" "granted p0 = []" "queue p0 = []" "reserved p0 = 0"
    and "running p0 = map snd found" "distinct (map fst found)"
  shows "card (set (running p)) + length (granted p) + k \<le>
      max (max_container p0) (length found) + strays ops (reclaim found is_dir now p0) \<and>
    length (slot p) + length (granted p) + k \<le> max (max_container p0) (length found) \<and>
    reserved p = int (length (granted p) + k) \<and> distinct (map fst (slot p)) \<and>
    (serial ops (reclaim found is_dir now p0) \<longrightarrow> strays ops (reclaim found is_dir now p0) = 0)"
proof -
  let ?q = "reclaim found is_dir now p0"
  have "pool_ok (max (max_container p0) (length found)) 0 ?q"
    using assms(2-) reclaim_keeps [of found is_dir now p0] by (auto simp: pool_ok_def)
  then have ok: "pool_ok (max (max_container p0) (length found)) k p"
    using pool_reach_ok [OF run_ops_reach [OF assms(1)]] by blast
  have "waiting_ok ?q" using assms(3,4) reclaim_keeps [of found is_dir now p0] by (simp add: waiting_ok_def)
  note serial = serial_run_ops [OF assms(1) this]
  from accounted_run_ops [OF assms(1) accounted_reclaim [OF assms(2,6,7)]]
  obtain ys where ys: "accounted ys p" "length ys = strays ops ?q" by auto
  show ?thesis using ok serial accounted_card [OF ys(1)] ys(2) by (auto simp: pool_ok_def)
qed

definition example_queueing :: "pool_op list" where
  "example_queueing =
     [Enter True True (Some 7) 1 (waiter 1 ''a'' ''r1''), Enter True True None 2 (waiter 2 ''b'' ''r2''),
      Release [] ''a'' ''r1'' 3, Resume (Some 8) 4 (waiter 2 ''b'' ''r2'')]"

lemma example_queueing_run:
  "map_option (\<lambda>(k, p). (k, reserved p, map fst (slot p), running p, notices p))
     (run_ops example_queueing (reclaim [(''z'', 5)] (\<lambda>_. True) 0 ((empty_pool 1)\<lparr>running := [5]\<rparr>))) =
   Some (0, 0, [''b''], [8], [(2, 1)])"
  "serial example_queueing (reclaim [(''z'', 5)] (\<lambda>_. True) 0 ((empty_pool 1)\<lparr>running := [5]\<rparr>))"
  by code_simp+

text \<open>A pool for one container, which adopts one that was running; a run evicts it, a second run queues, and takes the place of the
  first one when that is over.\<close>

theorem pool_capacity_witness:
  "case run_ops example_queueing (reclaim [(''z'', 5)] (\<lambda>_. True) 0 ((empty_pool 1)\<lparr>running := [5]\<rparr>)) of
     None \<Rightarrow> False
   | Some (k, p) \<Rightarrow> card (set (running p)) + length (granted p) + k \<le> 1 \<and> running p = [8] \<and> map fst (slot p) = [''b'']"
proof -
  let ?p = "(empty_pool 1)\<lparr>running := [5]\<rparr>"
  obtain k p where run: "run_ops example_queueing (reclaim [(''z'', 5)] (\<lambda>_. True) 0 ?p) = Some (k, p)"
      "map fst (slot p) = [''b'']" "running p = [8]"
    using example_queueing_run(1) by (auto simp: map_option_eq_Some)
  have start: "slot ?p = []" "granted ?p = []" "queue ?p = []" "reserved ?p = 0" "running ?p = map snd [(''z'', 5)]"
    "distinct (map fst [(''z'', 5)])" "max_container ?p = 1" by (simp_all add: empty_pool_def)
  note bound = pool_capacity [OF run(1) start(1-6)]
  then have "strays example_queueing (reclaim [(''z'', 5)] (\<lambda>_. True) 0 ?p) = 0" using example_queueing_run(2) by blast
  with bound start(7) have "card (set (running p)) + length (granted p) + k \<le> 1" by (simp del: One_nat_def)
  with run show ?thesis by (simp del: One_nat_def)
qed

text \<open>A container that serves a run is never taken from it. When \<open>h\<close> holds the container \<open>c\<close> of thread
  \<open>t\<close>, every step leaves it holding the same container (so no LRU eviction, idle sweep, foreign
  release, timeout or adoption removes it), except its own release, a discard of that thread, the shutdown,
  a container found dead, a lease untouched for the lease timeout, or a request of the same thread that
  had queued.\<close>

theorem held_container_kept:
  assumes "holds t h c p" "apply_op op p = (e, q)" "\<not> ends_hold t h p op"
  shows "holds t h c q"
proof (cases op)
  case (Release gs u k now)
  have "holds t h c (case map_of (slot p) u of None \<Rightarrow> p
      | Some s \<Rightarrow> p\<lparr>slot := AList.update u (s\<lparr>holder := holder s - {k}, last_used := now\<rparr>) (slot p)\<rparr>)"
    using assms Release by (auto split: option.splits intro!: holds_update) (auto simp: holds_def)
  then show ?thesis using holds_pump assms(2) Release by (auto simp: release_def)
next
  case (Discard gs u)
  then have "holds t h c (discard_slot u p)" using assms by (intro holds_discard_slot) auto
  then show ?thesis using assms(2) Discard by (auto simp: discard_def intro: holds_pump)
qed (use assms holds_acquire_enter holds_sweep holds_unlocked_step in
    \<open>auto simp: acquire_resume_def holds_start_container\<close>)

theorem held_container_kept_witness:
  "holds ''a'' ''r1'' 7 (snd (apply_op (Sweep [] 5000)
     ((empty_pool 1)\<lparr>slot := [(''a'', \<lparr>container = 7, holder = {''r1''}, last_used = 4000\<rparr>)],
        queue := [waiter 2 ''b'' ''r2'']\<rparr>)))"
  (is "holds _ _ _ (snd (apply_op ?op ?p))")
  by (rule held_container_kept [of _ _ _ ?p ?op "fst (apply_op ?op ?p)"])
    (simp_all add: holds_def empty_pool_def)

text \<open>A pump serves the queue in its order and leaves no capacity unused: when nothing interrupts
  it and no queued request has been cancelled, it raises nothing, the requests it promises a place are a
  prefix of the queue in order, each request that remains is told its position counted from 1, and a
  request remains only when there is no room and no idle container left to evict.\<close>

theorem pump_serves_in_order:
  assumes "pump [] p = (e, q)" "set (queue p) \<inter> set (cancelled p) = {}"
  shows "e = None \<and> queue p = drop (length (granted p)) (granted q) @ queue q \<and>
    take (length (granted p)) (granted q) = granted p \<and>
    (queue q \<noteq> [] \<longrightarrow> \<not> has_room q \<and> idle_threads q = []) \<and>
    notices q = notices p @
      map (\<lambda>(i, w). (w_id w, i)) (filter (w_notify \<circ> snd) (zip [1..<length (queue q) + 1] (queue q)))"
proof -
  obtain e' r where loop: "pump_loop [] p = (e', r)" by (cases "pump_loop [] p")
  have r: "e' = None" "served p r" "queue r = [] \<or> \<not> has_room r \<and> idle_threads r = []"
    using pump_loop_served [OF loop assms(2)] by auto
  then have q: "q = announce r" "e = None" using assms(1) loop by (auto simp: pump_def)
  have "filter (\<lambda>(_, w). w_notify w) xs = filter (w_notify \<circ> snd) xs" for xs :: "(nat \<times> Waiter) list"
    by (simp add: comp_def case_prod_unfold)
  with r q show ?thesis
    by (auto simp: served_def has_room_def idle_threads_def announce_def enumerate_eq_zip min_def
        simp del: upt_Suc)
qed

theorem pump_serves_in_order_witness:
  "case pump [] ((empty_pool 1)\<lparr>queue := [waiter 1 ''a'' ''r1'', waiter 2 ''b'' ''r2'']\<rparr>) of
     (e, q) \<Rightarrow> e = None \<and> [waiter 1 ''a'' ''r1'', waiter 2 ''b'' ''r2''] = granted q @ queue q"
  (is "case pump [] ?p of (e, q) \<Rightarrow> _ e q")
proof -
  obtain e q where pump: "pump [] ?p = (e, q)" by (cases "pump [] ?p")
  show ?thesis using pump_serves_in_order [OF pump] pump by (simp add: empty_pool_def)
qed

text \<open>A second acquire by the same holder is the same lease: on a live container, acquiring twice (a
  worker that died and took its run up again) and releasing once leaves exactly the other holders,
  on the same container.\<close>

theorem reacquire_is_idempotent:
  assumes "map_of (slot p) (w_thread w) = Some s" "w_thread v = w_thread w" "w_holder v = w_holder w"
    and "acquire_enter True True c1 t1 w p = (r1, p1)" "acquire_enter True True c2 t2 v p1 = (r2, p2)"
    and "release [] (w_thread w) (w_holder w) t3 p2 = (e, p3)" "queue p = []"
  shows "r1 = Inr (Some (container s)) \<and> r2 = r1 \<and> e = None \<and>
    slot p3 = AList.update (w_thread w)
      (s\<lparr>holder := holder s - {w_holder w}, last_used := t3\<rparr>) (slot p)"
  using assms
  by (auto simp: acquire_enter_def take_container_def release_def pump_def pump_loop.simps AList.update_conv')

theorem reacquire_is_idempotent_witness:
  "let p = (empty_pool 1)\<lparr>slot := [(''a'', \<lparr>container = 7, holder = {''r0''}, last_used = 1\<rparr>)]\<rparr>;
       p2 = snd (acquire_enter True True None 3 (waiter 2 ''a'' ''r1'') (snd (acquire_enter True True None 2 (waiter 1 ''a'' ''r1'') p)))
   in slot (snd (release [] ''a'' ''r1'' 4 p2)) = [(''a'', \<lparr>container = 7, holder = {''r0''}, last_used = 4\<rparr>)]"
  using reacquire_is_idempotent [where p = "(empty_pool 1)\<lparr>slot := [(''a'', \<lparr>container = 7, holder = {''r0''}, last_used = 1\<rparr>)]\<rparr>"
      and w = "waiter 1 ''a'' ''r1''" and v = "waiter 2 ''a'' ''r1''" and ?c1.0 = None and ?c2.0 = None
      and ?t1.0 = 2 and ?t2.0 = 3 and ?t3.0 = 4, OF _ _ _ surjective_pairing surjective_pairing surjective_pairing]
  by (simp add: empty_pool_def waiter_def)

definition example_pump_race :: "pool_op list" where
  "example_pump_race =
     [Enter True True (Some 7) 1 (waiter 1 ''a'' ''r1''), Enter True True None 2 (waiter 2 ''b'' ''r2''),
      Release [[Expires (waiter 2 ''b'' ''r2''), Gives_up (waiter 2 ''b'' ''r2'')]] ''a'' ''r1'' 3]"

lemma example_pump_race_run:
  "map_option (\<lambda>(k, p). (k, reserved p, slot p, granted p, queue p, running p)) (run_ops example_pump_race (empty_pool 1)) =
   Some (1, 1, [], [], [], [])"
  by code_simp

text \<open>A request that gives up while the pump is stopping an evicted container makes the pump fail
  and loses a place for good. In a pool for one container, a run holds it, a second thread queues,
  the holder releases, and the queued request times out during the awaited stop: \<open>popleft\<close> raises
  \<open>IndexError\<close> after the reservation was counted. No container, request or promise is left, yet there
  is no room; and in every state that can follow, the pool has no container and promises none.\<close>

theorem pump_race_loses_place:
  "\<exists>p. pool_reach (empty_pool 1) 1 p \<and> slot p = [] \<and> granted p = [] \<and> queue p = [] \<and> running p = [] \<and>
     \<not> has_room p \<and> {q. \<exists>k. pool_reach p k q} \<subseteq> {q. slot q = [] \<and> granted q = []}"
proof -
  obtain p where run: "run_ops example_pump_race (empty_pool 1) = Some (1, p)"
      and p: "reserved p = 1" "slot p = []" "granted p = []" "queue p = []" "running p = []"
    using example_pump_race_run by (auto simp: map_option_eq_Some)
  have ok: "pool_ok 1 0 (empty_pool 1)" by (simp add: pool_ok_def empty_pool_def)
  note reach = run_ops_reach [OF run]
  have "slot q = [] \<and> granted q = []" if "pool_reach p k q" for k q
    using pool_reach_ok [OF pool_reach_add [OF that reach] ok]
    by (cases "slot q"; cases "granted q") (auto simp: pool_ok_def)
  moreover have "\<not> has_room p" using pool_reach_ok [OF reach ok] p by (simp add: pool_ok_def has_room_def)
  ultimately show ?thesis using reach p by blast
qed

definition example_same_thread :: "pool_op list" where
  "example_same_thread =
     [Enter True True (Some 7) 1 (waiter 1 ''a'' ''r1''), Enter True True (Some 8) 2 (waiter 2 ''b'' ''r2''),
      Enter True True None 3 (waiter 3 ''c'' ''r3''), Enter True True None 4 (waiter 4 ''c'' ''r4''),
      Release [] ''a'' ''r1'' 5, Release [] ''b'' ''r2'' 6,
      Resume (Some 9) 7 (waiter 3 ''c'' ''r3''), Resume (Some 10) 8 (waiter 4 ''c'' ''r4'')]"

lemma example_same_thread_run:
  "map_option (\<lambda>(k, p). (k, slot p, running p)) (run_ops example_same_thread (empty_pool 2)) =
   Some (0, [(''c'', \<lparr>container = 10, holder = {''r4''}, last_used = 8\<rparr>)], [9, 10])"
  by (simp add: pool_eval example_same_thread_def)

text \<open>Two queued requests of one thread get two containers, and the pool forgets the first: after a
  queued request was granted its place, a container is started without looking whether the thread has one
  by now, so the slot is overwritten. The first run no longer holds anything, and its container keeps
  running with no slot that would ever stop it.\<close>

theorem queued_twice_leaks_container:
  "\<exists>p. pool_reach (empty_pool 2) 0 p \<and> 9 \<in> set (running p) \<and> 9 \<notin> (container \<circ> snd) ` set (slot p) \<and>
     \<not> holds ''c'' ''r3'' 9 p \<and> holds ''c'' ''r4'' 10 p"
proof -
  obtain p where run: "run_ops example_same_thread (empty_pool 2) = Some (0, p)"
      and p: "slot p = [(''c'', \<lparr>container = 10, holder = {''r4''}, last_used = 8\<rparr>)]" "running p = [9, 10]"
    using example_same_thread_run by (auto simp: map_option_eq_Some)
  show ?thesis using run_ops_reach [OF run] p by (intro exI [of _ p]) (simp add: holds_def)
qed

text \<open>A start that is cut off leaves a container that no slot names: the caller goes away during \<open>docker run\<close>, the container comes up, and the
  next thread starts one beyond the cap.\<close>

theorem cut_start_exceeds_cap:
  "map_option (\<lambda>(k, p). (k, running p, map fst (slot p), max_container p))
     (run_ops [Enter True True None 1 (waiter 1 ''a'' ''r1''), Comes_up 7, Enter True True (Some 8) 2 (waiter 2 ''b'' ''r2'')]
        (empty_pool 1)) = Some (0, [7, 8], [''b''], 1)"
  by (simp add: pool_eval)

end
