(* ===== verification/Event_Archive.thy ===== *)
theory Event_Archive
  imports Event_Id Replay
begin

text \<open>
  The event archive (\<open>app/run/archive.py\<close>): the table \<open>run_events\<close> and the three operations of
  \<open>EventArchiveProtocol\<close>, \<open>record\<close>, \<open>replay\<close> and \<open>last\<close>. The conversion between an event and the JSON
  value of its row, or its JSON text, is a parameter, and so are the types of both (pydantic's \<open>model_dump\<close> and \<open>validate_python\<close>). Postgres is in the
  state \<open>db_up\<close> or not; a write that fails is logged and swallowed, a read that fails raises.

  The protocol is the locale \<open>event_archive\<close>: what the log relies on. It is interpreted on the
  operations of this theory at the end.
\<close>

record ('t, 'j) event_codec =
  model_dump_json :: "Event \<Rightarrow> 't"
  validate_json :: "'t \<Rightarrow> Event result"
  model_dump :: "Event \<Rightarrow> 'j"
  validate_python :: "'j \<Rightarrow> Event result"

text \<open>What pydantic documents of a model: validating what was dumped returns an equal model.\<close>

definition codec_ok :: "('t, 'j) event_codec \<Rightarrow> bool" where
  "codec_ok cd \<longleftrightarrow>
     (\<forall>e. validate_json cd (model_dump_json cd e) = Inr e \<and> validate_python cd (model_dump cd e) = Inr e)"

record 'j RunEventRecord =
  row_run_id :: uuid
  row_seq :: nat
  row_type :: string
  row_payload :: 'j
  row_ts :: int

record 'j archive_db =
  run_events :: "'j RunEventRecord list"
  db_up :: bool

text \<open>A \<open>bigint\<close> column takes what fits into 63 bits; another value makes the statement fail.\<close>

definition BIGINT_LIMIT :: nat where
  "BIGINT_LIMIT = 2 ^ 63"

definition record_event :: "('t, 'j) event_codec \<Rightarrow> LoggedEvent \<Rightarrow> 'j archive_db \<Rightarrow> unit result \<times> 'j archive_db" where
  "record_event cd logged db =
     (case UUID (ev_run_id (event logged)) of
        None \<Rightarrow> (Inr (), db)
      | Some identifier \<Rightarrow>
          (case pack (log_id logged) of
             Inl e \<Rightarrow> (Inl e, db)
           | Inr seq \<Rightarrow>
               if \<not> db_up db \<or> BIGINT_LIMIT \<le> seq then (Inr (), db)
               else if \<exists>r \<in> set (run_events db). row_run_id r = identifier \<and> row_seq r = seq then (Inr (), db)
               else (Inr (), db\<lparr>run_events := run_events db @
                      [\<lparr>row_run_id = identifier, row_seq = seq,
                        row_type = event_type_value (event_type (event logged)),
                        row_payload = model_dump cd (event logged), row_ts = ts (event logged)\<rparr>]\<rparr>)))"

definition decode_record :: "('t, 'j) event_codec \<Rightarrow> 'j RunEventRecord \<Rightarrow> LoggedEvent result" where
  "decode_record cd r =
     result_bind (validate_python cd (row_payload r)) (\<lambda>e. Inr \<lparr>log_id = unpack (row_seq r), event = e\<rparr>)"

text \<open>An optional bound of \<open>replay\<close>, packed; a bound that does not fit makes the statement fail.\<close>

definition pack_bound :: "string option \<Rightarrow> nat option result" where
  "pack_bound bound =
     (case bound of
        None \<Rightarrow> Inr None
      | Some event_id \<Rightarrow> result_bind (pack event_id) (\<lambda>seq.
          if BIGINT_LIMIT \<le> seq then Inl (OtherError ''DBAPIError'') else Inr (Some seq)))"

definition replay ::
    "('t, 'j) event_codec \<Rightarrow> string \<Rightarrow> string option \<Rightarrow> string option \<Rightarrow> 'j archive_db \<Rightarrow> LoggedEvent list result" where
  "replay cd run_id after before db =
     (case UUID run_id of
        None \<Rightarrow> Inr []
      | Some identifier \<Rightarrow>
          result_bind (pack_bound after) (\<lambda>low.
          result_bind (pack_bound before) (\<lambda>high.
            if \<not> db_up db then Inl (OtherError ''SQLAlchemyError'')
            else result_list (map (decode_record cd)
              (sort_key row_seq
                (filter (\<lambda>r. row_run_id r = identifier \<and>
                             (case low of None \<Rightarrow> True | Some l \<Rightarrow> l < row_seq r) \<and>
                             (case high of None \<Rightarrow> True | Some h \<Rightarrow> row_seq r < h))
                  (run_events db)))))))"

text \<open>\<open>last\<close>: the first row in descending order.\<close>

definition last_event :: "('t, 'j) event_codec \<Rightarrow> string \<Rightarrow> 'j archive_db \<Rightarrow> LoggedEvent option result" where
  "last_event cd run_id db =
     (case UUID run_id of
        None \<Rightarrow> Inr None
      | Some identifier \<Rightarrow>
          if \<not> db_up db then Inl (OtherError ''SQLAlchemyError'')
          else (case rev (sort_key row_seq (filter (\<lambda>r. row_run_id r = identifier) (run_events db))) of
                  [] \<Rightarrow> Inr None
                | r # _ \<Rightarrow> result_bind (decode_record cd r) (\<lambda>l. Inr (Some l))))"

section \<open>The protocol\<close>

type_synonym event_key = "nat \<times> nat"

definition packable :: "event_key \<Rightarrow> bool" where
  "packable i \<longleftrightarrow> fst i < 2 ^ 43 \<and> snd i < 2 ^ 20"

definition to_logged :: "event_key \<times> Event \<Rightarrow> LoggedEvent" where
  "to_logged x = \<lparr>log_id = event_id_of (fst (fst x)) (snd (fst x)), event = snd x\<rparr>"

record 'a archive_api =
  api_record :: "LoggedEvent \<Rightarrow> 'a \<Rightarrow> unit result \<times> 'a"
  api_replay :: "string \<Rightarrow> string option \<Rightarrow> string option \<Rightarrow> 'a \<Rightarrow> LoggedEvent list result"
  api_last :: "string \<Rightarrow> 'a \<Rightarrow> LoggedEvent option result"

text \<open>\<open>bounded low high\<close>: strictly between two optional keys.\<close>

definition bounded :: "event_key option \<Rightarrow> event_key option \<Rightarrow> event_key \<Rightarrow> bool" where
  "bounded low high i \<longleftrightarrow>
     (case low of None \<Rightarrow> True | Some l \<Rightarrow> l < i) \<and> (case high of None \<Rightarrow> True | Some h \<Rightarrow> i < h)"

definition reads_key :: "string option \<Rightarrow> event_key option \<Rightarrow> bool" where
  "reads_key s k \<longleftrightarrow>
     (case (s, k) of
        (None, None) \<Rightarrow> True
      | (Some event_id, Some i) \<Rightarrow> parse_event_id event_id = Inr i \<and> packable i
      | _ \<Rightarrow> False)"

locale event_archive =
  fixes api :: "'a archive_api"
    and ok :: "'a \<Rightarrow> bool"
    and up :: "'a \<Rightarrow> bool"
    and contents :: "'a \<Rightarrow> uuid \<Rightarrow> (event_key \<times> Event) list"
  assumes contents_sorted: "ok a \<Longrightarrow> sorted_wrt (<) (map fst (contents a u))"
    and contents_packable: "ok a \<Longrightarrow> x \<in> set (contents a u) \<Longrightarrow> packable (fst x)"
    and record_appends:
      "ok a \<Longrightarrow> UUID (ev_run_id e) = Some u \<Longrightarrow> packable i \<Longrightarrow> \<forall>x \<in> set (contents a u). fst x < i \<Longrightarrow>
       api_record api (to_logged (i, e)) a = (r, b) \<Longrightarrow>
       r = Inr () \<and> ok b \<and> up b = up a \<and>
       contents b = (contents a)(u := contents a u @ (if up a then [(i, e)] else []))"
    and replay_between:
      "ok a \<Longrightarrow> up a \<Longrightarrow> UUID run = Some u \<Longrightarrow> reads_key after low \<Longrightarrow> reads_key before high \<Longrightarrow>
       api_replay api run after before a =
         Inr (map to_logged (filter (\<lambda>x. bounded low high (fst x)) (contents a u)))"
    and last_is_last:
      "ok a \<Longrightarrow> up a \<Longrightarrow> UUID run = Some u \<Longrightarrow>
       api_last api run a =
         Inr (if contents a u = [] then None else Some (to_logged (last (contents a u))))"

section \<open>The table implements the protocol\<close>

definition key_of :: "nat \<Rightarrow> event_key" where
  "key_of seq = (seq div 2 ^ 20, seq mod 2 ^ 20)"

definition seq_of :: "event_key \<Rightarrow> nat" where
  "seq_of i = fst i * 2 ^ 20 + snd i"

definition rows_of :: "uuid \<Rightarrow> 'j archive_db \<Rightarrow> 'j RunEventRecord list" where
  "rows_of u db = sort_key row_seq (filter (\<lambda>r. row_run_id r = u) (run_events db))"

definition row_event :: "('t, 'j) event_codec \<Rightarrow> 'j RunEventRecord \<Rightarrow> event_key \<times> Event" where
  "row_event cd r = (key_of (row_seq r), projr (validate_python cd (row_payload r)))"

definition archived :: "('t, 'j) event_codec \<Rightarrow> 'j archive_db \<Rightarrow> uuid \<Rightarrow> (event_key \<times> Event) list" where
  "archived cd db u = map (row_event cd) (rows_of u db)"

definition archive_ok :: "('t, 'j) event_codec \<Rightarrow> 'j archive_db \<Rightarrow> bool" where
  "archive_ok cd db \<longleftrightarrow> codec_ok cd \<and>
     distinct (map (\<lambda>r. (row_run_id r, row_seq r)) (run_events db)) \<and>
     (\<forall>r \<in> set (run_events db). row_seq r < BIGINT_LIMIT \<and> (\<exists>e. row_payload r = model_dump cd e))"

definition archive_ops :: "('t, 'j) event_codec \<Rightarrow> 'j archive_db archive_api" where
  "archive_ops cd = \<lparr>api_record = record_event cd, api_replay = replay cd, api_last = last_event cd\<rparr>"

lemma key_of_less_iff [simp]: "key_of a < key_of b \<longleftrightarrow> a < b"
  using packed_less_iff [of "a mod 2 ^ 20" "2 ^ 20" "b mod 2 ^ 20" "a div 2 ^ 20" "b div 2 ^ 20"]
  unfolding key_of_def by (simp only: div_mult_mod_eq) simp

lemma key_of_eq_iff [simp]: "key_of a = key_of b \<longleftrightarrow> a = b"
  by (metis key_of_less_iff linorder_neq_iff)

lemma key_of_seq_of [simp]: "packable i \<Longrightarrow> key_of (seq_of i) = i"
  by (auto simp: key_of_def seq_of_def packable_def prod_eq_iff)

lemma seq_of_limit: "packable i \<Longrightarrow> seq_of i < BIGINT_LIMIT"
proof -
  assume i: "packable i"
  have "fst i * 2 ^ 20 + snd i < Suc (fst i) * 2 ^ 20" using i by (simp add: packable_def)
  also have "\<dots> \<le> 2 ^ 43 * 2 ^ 20" using i by (intro mult_le_mono1) (simp add: packable_def)
  finally show ?thesis by (simp add: seq_of_def BIGINT_LIMIT_def)
qed

lemma packable_key_of: "seq < BIGINT_LIMIT \<Longrightarrow> packable (key_of seq)"
  by (auto simp: packable_def key_of_def BIGINT_LIMIT_def intro: less_mult_imp_div_less)

lemma unpack_key_of: "unpack seq = event_id_of (fst (key_of seq)) (snd (key_of seq))"
  using unpack_arith [of "seq mod 2 ^ 20" "seq div 2 ^ 20"] by (simp add: SEQUENCE_BIT_def key_of_def)

lemma pack_packable: "parse_event_id s = Inr i \<Longrightarrow> packable i \<Longrightarrow> pack s = Inr (seq_of i)"
  using pack_parsed [of s "fst i" "snd i"] by (auto simp: packable_def SEQUENCE_BIT_def seq_of_def)

lemma parse_packable [simp]: "packable i \<Longrightarrow> parse_event_id (event_id_of (fst i) (snd i)) = Inr i"
  by (subst parse_event_id_redis) (auto simp: packable_def)

lemma pack_bound_reads: "reads_key s k \<Longrightarrow> pack_bound s = Inr (map_option seq_of k)"
  using seq_of_limit
  by (auto simp: reads_key_def pack_bound_def pack_packable not_le split: option.splits)

lemma decode_row: "codec_ok cd \<Longrightarrow> row_payload r = model_dump cd e \<Longrightarrow> decode_record cd r = Inr (to_logged (row_event cd r))"
  by (simp add: codec_ok_def decode_record_def to_logged_def row_event_def unpack_key_of)

lemma insort_key_append: "f a < f x \<Longrightarrow> insort_key f a (ys @ [x]) = insort_key f a ys @ [x]"
  by (induction ys) auto

lemma sort_key_append_max: "(\<And>y. y \<in> set ys \<Longrightarrow> f y < f x) \<Longrightarrow> sort_key f (ys @ [x]) = sort_key f ys @ [x]"
  by (induction ys) (simp_all add: insort_key_append)

lemma rows_sorted:
  assumes "archive_ok cd db"
  shows "sorted_wrt (<) (map row_seq (rows_of u db))"
proof -
  let ?rs = "filter (\<lambda>r. row_run_id r = u) (run_events db)"
  have "distinct (map (\<lambda>r. (row_run_id r, row_seq r)) ?rs)"
    using assms unfolding archive_ok_def by (blast intro: distinct_map_filter)
  then have "distinct (map row_seq ?rs)" by (auto simp: distinct_map inj_on_def)
  then have "distinct (map row_seq (rows_of u db))" by (simp add: rows_of_def distinct_map)
  then show ?thesis by (simp add: rows_of_def strict_sorted_iff)
qed

lemma archived_sorted: "archive_ok cd db \<Longrightarrow> sorted_wrt (<) (map fst (archived cd db u))"
  using rows_sorted [of cd db u] by (simp add: archived_def row_event_def sorted_wrt_map comp_def)

lemma archived_packable: "archive_ok cd db \<Longrightarrow> x \<in> set (archived cd db u) \<Longrightarrow> packable (fst x)"
  by (auto simp: archived_def rows_of_def row_event_def archive_ok_def packable_key_of)

lemma record_event_appends:
  assumes ok: "archive_ok cd db" and u: "UUID (ev_run_id e) = Some u" and i: "packable i"
    and new: "\<forall>x \<in> set (archived cd db u). fst x < i"
    and rc: "record_event cd (to_logged (i, e)) db = (r, db')"
  shows "r = Inr () \<and> archive_ok cd db' \<and> db_up db' = db_up db \<and>
    archived cd db' = (archived cd db)(u := archived cd db u @ (if db_up db then [(i, e)] else []))"
proof -
  have p: "pack (event_id_of (fst i) (snd i)) = Inr (seq_of i)" by (rule pack_packable) (use i in simp_all)
  have below: "row_seq x < seq_of i" if "x \<in> set (run_events db)" "row_run_id x = u" for x
  proof -
    have "key_of (row_seq x) < i" using new that by (auto simp: archived_def rows_of_def row_event_def)
    then show ?thesis using key_of_less_iff [of "row_seq x" "seq_of i"] i by simp
  qed
  then have fresh: "\<not> (\<exists>x \<in> set (run_events db). row_run_id x = u \<and> row_seq x = seq_of i)" by (metis less_irrefl)
  show ?thesis
  proof (cases "db_up db")
    case False
    then show ?thesis using rc u p ok by (simp add: record_event_def to_logged_def)
  next
    case True
    let ?row = "\<lparr>row_run_id = u, row_seq = seq_of i, row_type = event_type_value (event_type e),
      row_payload = model_dump cd e, row_ts = ts e\<rparr>"
    have db': "r = Inr ()" "db' = db\<lparr>run_events := run_events db @ [?row]\<rparr>"
      using rc u p True fresh seq_of_limit [OF i] by (auto simp: record_event_def to_logged_def)
    have "rows_of u db' = rows_of u db @ [?row]"
      unfolding db' rows_of_def by (simp, rule sort_key_append_max) (use below in simp)
    moreover have "rows_of v db' = rows_of v db" if "v \<noteq> u" for v
      using that by (simp add: db' rows_of_def)
    moreover have "row_event cd ?row = (i, e)"
      using i ok by (simp add: row_event_def archive_ok_def codec_ok_def)
    ultimately have "archived cd db' = (archived cd db)(u := archived cd db u @ [(i, e)])"
      by (auto simp: archived_def fun_eq_iff)
    moreover have "archive_ok cd db'"
      using ok fresh seq_of_limit [OF i] by (auto simp: db' archive_ok_def)
    ultimately show ?thesis using db' True by simp
  qed
qed

lemma replay_archived:
  assumes ok: "archive_ok cd db" and up: "db_up db" and u: "UUID run = Some u"
    and b: "reads_key after low" "reads_key before high"
  shows "replay cd run after before db =
    Inr (map to_logged (filter (\<lambda>x. bounded low high (fst x)) (archived cd db u)))"
proof -
  let ?P = "\<lambda>r. bounded low high (key_of (row_seq r))"
  have "(case map_option seq_of low of None \<Rightarrow> True | Some l \<Rightarrow> l < q) = (case low of None \<Rightarrow> True | Some l \<Rightarrow> l < key_of q)"
    "(case map_option seq_of high of None \<Rightarrow> True | Some h \<Rightarrow> q < h) = (case high of None \<Rightarrow> True | Some h \<Rightarrow> key_of q < h)"
    for q
    using b by (auto simp: reads_key_def split: option.splits) (metis key_of_less_iff key_of_seq_of)+
  then have sel: "filter (\<lambda>r. row_run_id r = u \<and>
        (case map_option seq_of low of None \<Rightarrow> True | Some l \<Rightarrow> l < row_seq r) \<and>
        (case map_option seq_of high of None \<Rightarrow> True | Some h \<Rightarrow> row_seq r < h)) (run_events db) =
      filter ?P (filter (\<lambda>r. row_run_id r = u) (run_events db))"
    by (auto simp: bounded_def intro: filter_cong)
  have run_rows: "replay cd run after before db =
      result_list (map (decode_record cd) (sort_key row_seq (filter ?P (filter (\<lambda>r. row_run_id r = u) (run_events db)))))"
    unfolding replay_def sel [symmetric] using up u pack_bound_reads [OF b(1)] pack_bound_reads [OF b(2)] by simp
  have dec: "decode_record cd r = Inr (to_logged (row_event cd r))" if "r \<in> set (run_events db)" for r
    using ok that by (auto simp: archive_ok_def intro: decode_row)
  have "result_list (map (decode_record cd) (filter ?P (rows_of u db))) =
      Inr (map (to_logged \<circ> row_event cd) (filter ?P (rows_of u db)))"
    by (rule result_list_Inr) (auto simp: rows_of_def dec)
  then show ?thesis
    using run_rows by (simp add: archived_def filter_map comp_def row_event_def rows_of_def filter_sort)
qed

lemma last_event_archived:
  assumes ok: "archive_ok cd db" and up: "db_up db" and u: "UUID run = Some u"
  shows "last_event cd run db =
    Inr (if archived cd db u = [] then None else Some (to_logged (last (archived cd db u))))"
proof (cases "rows_of u db" rule: rev_cases)
  case (snoc rs r)
  then have "r \<in> set (run_events db)" by (metis in_set_conv_decomp filter_is_subset rows_of_def set_sort subsetD)
  then have "decode_record cd r = Inr (to_logged (row_event cd r))"
    using ok by (auto simp: archive_ok_def intro: decode_row)
  with snoc up u show ?thesis by (simp add: last_event_def archived_def flip: rows_of_def)
qed (use up u in \<open>simp add: last_event_def archived_def flip: rows_of_def\<close>)

interpretation archive: event_archive "archive_ops cd" "archive_ok cd" db_up "archived cd" for cd
proof unfold_locales
  fix a e u i r b
  assume "archive_ok cd a" "UUID (ev_run_id e) = Some u" "packable i" "\<forall>x \<in> set (archived cd a u). fst x < i"
    and "api_record (archive_ops cd) (to_logged (i, e)) a = (r, b)"
  then show "r = Inr () \<and> archive_ok cd b \<and> db_up b = db_up a \<and>
      archived cd b = (archived cd a)(u := archived cd a u @ (if db_up a then [(i, e)] else []))"
    by (intro record_event_appends) (simp_all add: archive_ops_def)
qed (simp_all add: archive_ops_def archived_sorted archived_packable replay_archived last_event_archived)

end
