(* ===== verification/Event_Log.thy ===== *)
theory Event_Log
  imports Event_Archive
begin

text \<open>
  The event log of a run (\<open>app/run/log.py\<close>): a Redis stream per run, completed from the archive.
  Redis is a parameter, the record \<open>stream_api\<close> of the commands the code issues, with what Redis
  documents of them as the hypothesis \<open>stream_laws\<close>; the state is the Redis state with the archive's. The
  command \<open>XLEN\<close> of \<open>append\<close> only feeds a log message and is left out.

  \<open>follow\<close> is a generator that waits: it is given the states in which it looks at Redis, one
  pair per round of its loop, and returns what it yields and how it ends, if it does.
\<close>

section \<open>Redis streams\<close>

type_synonym 't StreamEntry = "string \<times> (string \<times> 't) list"

record ('r, 't) stream_api =
  xadd :: "string \<Rightarrow> (string \<times> 't) list \<Rightarrow> nat \<Rightarrow> 'r \<Rightarrow> string \<times> 'r"
  expire :: "string \<Rightarrow> nat \<Rightarrow> 'r \<Rightarrow> 'r"
  xrange :: "string \<Rightarrow> string \<Rightarrow> string \<Rightarrow> 'r \<Rightarrow> 't StreamEntry list result"
  xrevrange_one :: "string \<Rightarrow> 'r \<Rightarrow> 't StreamEntry list"
  xread :: "string \<Rightarrow> string \<Rightarrow> 'r \<Rightarrow> 't StreamEntry list result"

definition KEY_PREFIX :: string where "KEY_PREFIX = ''zuel:event''"
definition PAYLOAD_FIELD :: string where "PAYLOAD_FIELD = ''data''"
definition STREAM_START :: string where "STREAM_START = ''-''"
definition STREAM_END :: string where "STREAM_END = ''+''"
definition EXCLUSIVE :: string where "EXCLUSIVE = ''(''"
definition FROM_BEGINNING :: string where "FROM_BEGINNING = ''0-0''"

definition stream_key :: "string \<Rightarrow> string" where
  "stream_key run_id = KEY_PREFIX @ '':'' @ run_id"

section \<open>Operations\<close>

definition decode_entry :: "('t, 'j) event_codec \<Rightarrow> 't StreamEntry \<Rightarrow> LoggedEvent result" where
  "decode_entry cd entry =
     (case entry of (entry_id, field) \<Rightarrow>
        case map_of field PAYLOAD_FIELD of
          None \<Rightarrow> Inl KeyError
        | Some text \<Rightarrow> result_bind (validate_json cd text) (\<lambda>e. Inr \<lparr>log_id = entry_id, event = e\<rparr>))"

definition append_event ::
    "('r, 't) stream_api \<Rightarrow> ('t, 'j) event_codec \<Rightarrow> 'a archive_api option \<Rightarrow> nat \<Rightarrow> nat \<Rightarrow> Event \<Rightarrow> 'r \<times> 'a \<Rightarrow>
     LoggedEvent result \<times> 'r \<times> 'a" where
  "append_event api cd arch max_length ttl ev w =
     (case w of (r, a) \<Rightarrow>
        let key = stream_key (ev_run_id ev);
            (assigned, r) = xadd api key [(PAYLOAD_FIELD, model_dump_json cd ev)] max_length r;
            r = expire api key ttl r;
            logged = \<lparr>log_id = assigned, event = ev\<rparr>
        in case arch of
             None \<Rightarrow> (Inr logged, r, a)
           | Some archive \<Rightarrow>
               (case api_record archive logged a of
                  (Inl e, a) \<Rightarrow> (Inl e, r, a)
                | (Inr _, a) \<Rightarrow> (Inr logged, r, a)))"

definition read_log ::
    "('r, 't) stream_api \<Rightarrow> ('t, 'j) event_codec \<Rightarrow> 'a archive_api option \<Rightarrow> string \<Rightarrow> string option \<Rightarrow> 'r \<times> 'a \<Rightarrow>
     LoggedEvent list result" where
  "read_log api cd arch run_id after w =
     (case w of (r, a) \<Rightarrow>
        result_bind (case after of None \<Rightarrow> Inr None | Some c \<Rightarrow> result_bind (validate c) (\<lambda>c. Inr (Some c))) (\<lambda>cursor.
        let start = (case cursor of None \<Rightarrow> STREAM_START | Some c \<Rightarrow> EXCLUSIVE @ c) in
        result_bind (xrange api (stream_key run_id) start STREAM_END r) (\<lambda>fresh.
        result_bind (result_list (map (decode_entry cd) fresh)) (\<lambda>live.
          case arch of
            None \<Rightarrow> Inr live
          | Some archive \<Rightarrow>
              result_bind (api_replay archive run_id cursor (case live of [] \<Rightarrow> None | l # _ \<Rightarrow> Some (log_id l)) a)
                (\<lambda>archived. Inr (archived @ live))))))"

definition ended ::
    "('r, 't) stream_api \<Rightarrow> ('t, 'j) event_codec \<Rightarrow> 'a archive_api option \<Rightarrow> string \<Rightarrow> string \<Rightarrow> bool \<Rightarrow> 'r \<times> 'a \<Rightarrow>
     bool result" where
  "ended api cd arch run_id cursor terminal w =
     (case w of (r, a) \<Rightarrow>
        result_bind
          (case xrevrange_one api (stream_key run_id) r of
             [] \<Rightarrow> (case arch of None \<Rightarrow> Inr None | Some archive \<Rightarrow> api_last archive run_id a)
           | entry # _ \<Rightarrow> result_bind (decode_entry cd entry) (\<lambda>l. Inr (Some l)))
          (\<lambda>logged. case logged of
             None \<Rightarrow> Inr terminal
           | Some l \<Rightarrow>
               result_bind (parse_event_id (log_id l)) (\<lambda>at.
               result_bind (parse_event_id cursor) (\<lambda>c.
                 Inr (if at > c then False else is_terminal_event (event l))))))"

text \<open>What a generator has done so far: the events it yielded, its cursor, and how it ended (\<open>None\<close>: it
  has not).\<close>

type_synonym progress = "LoggedEvent list \<times> string \<times> unit result option"

text \<open>The loop over the history: it returns after a terminal event.\<close>

fun yield_history :: "LoggedEvent list \<Rightarrow> string \<Rightarrow> progress" where
  "yield_history [] cursor = ([], cursor, None)"
| "yield_history (logged # rest) cursor =
     (if is_terminal_event (event logged) then ([logged], log_id logged, Some (Inr ()))
      else case yield_history rest (log_id logged) of (out, rst) \<Rightarrow> (logged # out, rst))"

text \<open>The loop over one batch of \<open>XREAD\<close>: the entries are decoded one at a time.\<close>

fun yield_batch :: "('t, 'j) event_codec \<Rightarrow> 't StreamEntry list \<Rightarrow> string \<Rightarrow> progress" where
  "yield_batch cd [] cursor = ([], cursor, None)"
| "yield_batch cd (entry # rest) cursor =
     (case decode_entry cd entry of
        Inl e \<Rightarrow> ([], cursor, Some (Inl e))
      | Inr logged \<Rightarrow>
          if is_terminal_event (event logged) then ([logged], log_id logged, Some (Inr ()))
          else case yield_batch cd rest (log_id logged) of (out, rst) \<Rightarrow> (logged # out, rst))"

text \<open>The loop of \<open>follow\<close>: a round asks \<open>_ended\<close> in one state and reads in a later one.\<close>

fun follow_loop ::
    "('r, 't) stream_api \<Rightarrow> ('t, 'j) event_codec \<Rightarrow> 'a archive_api option \<Rightarrow> string \<Rightarrow> bool \<Rightarrow> string \<Rightarrow>
     (('r \<times> 'a) \<times> ('r \<times> 'a)) list \<Rightarrow> progress" where
  "follow_loop api cd arch run_id terminal cursor [] = ([], cursor, None)"
| "follow_loop api cd arch run_id terminal cursor ((w, w') # rounds) =
     (case ended api cd arch run_id cursor terminal w of
        Inl e \<Rightarrow> ([], cursor, Some (Inl e))
      | Inr True \<Rightarrow> ([], cursor, Some (Inr ()))
      | Inr False \<Rightarrow>
          (case xread api (stream_key run_id) cursor (fst w') of
             Inl e \<Rightarrow> ([], cursor, Some (Inl e))
           | Inr batch \<Rightarrow>
               (case yield_batch cd batch cursor of
                  (out, cursor, Some end) \<Rightarrow> (out, cursor, Some end)
                | (out, cursor, None) \<Rightarrow>
                    (case follow_loop api cd arch run_id terminal cursor rounds of (out', rst) \<Rightarrow> (out @ out', rst)))))"

definition follow ::
    "('r, 't) stream_api \<Rightarrow> ('t, 'j) event_codec \<Rightarrow> 'a archive_api option \<Rightarrow> string \<Rightarrow> string option \<Rightarrow> bool \<Rightarrow> 'r \<times> 'a \<Rightarrow>
     (('r \<times> 'a) \<times> ('r \<times> 'a)) list \<Rightarrow> progress" where
  "follow api cd arch run_id after terminal w rounds =
     (case (case after of None \<Rightarrow> Inr FROM_BEGINNING | Some c \<Rightarrow> validate c) of
        Inl e \<Rightarrow> ([], FROM_BEGINNING, Some (Inl e))
      | Inr cursor \<Rightarrow>
          (case read_log api cd arch run_id after w of
             Inl e \<Rightarrow> ([], cursor, Some (Inl e))
           | Inr history \<Rightarrow>
               (case yield_history history cursor of
                  (out, cursor, Some end) \<Rightarrow> (out, cursor, Some end)
                | (out, cursor, None) \<Rightarrow>
                    (case follow_loop api cd arch run_id terminal cursor rounds of (out', rst) \<Rightarrow> (out @ out', rst)))))"

section \<open>What Redis documents\<close>

text \<open>\<open>entries r k\<close> are the entries of stream \<open>k\<close>, \<open>clock r k\<close> the last id given out for it (or a later time).
  An id is larger than every id given out before, ids are pairs of 64-bit numbers, a stream is trimmed
  from its old end, a range is exclusive after an opening parenthesis.\<close>

definition show_entry :: "event_key \<times> (string \<times> 't) list \<Rightarrow> 't StreamEntry" where
  "show_entry x = (event_id_of (fst (fst x)) (snd (fst x)), snd x)"

definition last_n :: "nat \<Rightarrow> 'a list \<Rightarrow> 'a list" where
  "last_n n xs = drop (length xs - n) xs"

definition stream_laws ::
    "('r, 't) stream_api \<Rightarrow> ('r \<Rightarrow> string \<Rightarrow> (event_key \<times> (string \<times> 't) list) list) \<Rightarrow>
     ('r \<Rightarrow> string \<Rightarrow> event_key) \<Rightarrow> bool" where
  "stream_laws api entries clock \<longleftrightarrow>
     (\<forall>r k fs n i r'. xadd api k fs n r = (i, r') \<longrightarrow>
        clock r k < clock r' k \<and> (\<forall>k'. k' \<noteq> k \<longrightarrow> clock r k' \<le> clock r' k') \<and>
        i = event_id_of (fst (clock r' k)) (snd (clock r' k)) \<and>
        entries r' = (entries r)(k := last_n n (entries r k @ [(clock r' k, fs)]))) \<and>
     (\<forall>r k t. 0 < t \<longrightarrow> entries (expire api k t r) = entries r \<and> clock (expire api k t r) = clock r) \<and>
     (\<forall>r k. xrange api k STREAM_START STREAM_END r = Inr (map show_entry (entries r k))) \<and>
     (\<forall>r k c i. parse_event_id c = Inr i \<longrightarrow> fst i < 2 ^ 64 \<longrightarrow> snd i < 2 ^ 64 \<longrightarrow>
        xrange api k (EXCLUSIVE @ c) STREAM_END r = Inr (map show_entry (filter (\<lambda>x. i < fst x) (entries r k))) \<and>
        xread api k c r = Inr (map show_entry (filter (\<lambda>x. i < fst x) (entries r k)))) \<and>
     (\<forall>r k. xrevrange_one api k r = (if entries r k = [] then [] else [show_entry (last (entries r k))]))"

lemma stream_lawsD:
  assumes "stream_laws api entries clock"
  shows law_xadd: "xadd api k fs n r = (i, r') \<Longrightarrow>
      clock r k < clock r' k \<and> (\<forall>k'. k' \<noteq> k \<longrightarrow> clock r k' \<le> clock r' k') \<and>
      i = event_id_of (fst (clock r' k)) (snd (clock r' k)) \<and>
      entries r' = (entries r)(k := last_n n (entries r k @ [(clock r' k, fs)]))"
    and law_expire: "0 < t \<Longrightarrow> entries (expire api k t r) = entries r \<and> clock (expire api k t r) = clock r"
    and law_xrange: "xrange api k STREAM_START STREAM_END r = Inr (map show_entry (entries r k))"
    and law_after: "parse_event_id c = Inr j \<Longrightarrow> fst j < 2 ^ 64 \<Longrightarrow> snd j < 2 ^ 64 \<Longrightarrow>
      xrange api k (EXCLUSIVE @ c) STREAM_END r = Inr (map show_entry (filter (\<lambda>x. j < fst x) (entries r k))) \<and>
      xread api k c r = Inr (map show_entry (filter (\<lambda>x. j < fst x) (entries r k)))"
    and law_last: "xrevrange_one api k r = (if entries r k = [] then [] else [show_entry (last (entries r k))])"
  using assms unfolding stream_laws_def by blast+

section \<open>The history behind a log\<close>

text \<open>\<open>log_shows \<dots> J F (r, a)\<close>: \<open>J\<close> is everything ever appended for the run, in order. The stream still has
  an end piece of it; the archive has all but the events in \<open>F\<close>, whose write failed.\<close>

definition stream_entry :: "('t, 'j) event_codec \<Rightarrow> event_key \<times> Event \<Rightarrow> event_key \<times> (string \<times> 't) list" where
  "stream_entry cd x = (fst x, [(PAYLOAD_FIELD, model_dump_json cd (snd x))])"

definition history :: "(event_key \<times> Event) list \<Rightarrow> bool" where
  "history J \<longleftrightarrow> sorted_wrt (<) (map fst J) \<and> (\<forall>x \<in> set J. packable (fst x) \<and> (0, 0) < fst x)"

definition in_stream :: "('r \<Rightarrow> string \<Rightarrow> (event_key \<times> (string \<times> 't) list) list) \<Rightarrow> string \<Rightarrow> 'r \<Rightarrow> event_key set" where
  "in_stream entries run r = fst ` set (entries r (stream_key run))"

lemma decode_stream_entry:
  "codec_ok cd \<Longrightarrow> decode_entry cd (show_entry (stream_entry cd x)) = Inr (to_logged x)"
  by (simp add: decode_entry_def show_entry_def stream_entry_def codec_ok_def to_logged_def)

lemma decode_stream_entries:
  "codec_ok cd \<Longrightarrow> result_list (map (decode_entry cd) (map show_entry (map (stream_entry cd) xs))) = Inr (map to_logged xs)"
  unfolding map_map by (rule result_list_Inr) (simp add: decode_stream_entry)

lemma filter_stream_entry:
  "filter (\<lambda>x. P (fst x)) (map (stream_entry cd) xs) = map (stream_entry cd) (filter (\<lambda>x. P (fst x)) xs)"
  by (simp add: filter_map comp_def stream_entry_def)

text \<open>The part of the archive before the live part completes it.\<close>

lemma sorted_parts_filter:
  fixes xs ys :: "(event_key \<times> Event) list"
  assumes "sorted_wrt (<) (map fst (xs @ ys))" and "live = filter (\<lambda>x. bounded low None (fst x)) ys"
  shows "filter (\<lambda>x. bounded low (case live of [] \<Rightarrow> None | l # _ \<Rightarrow> Some (fst l)) (fst x) \<and> P x) (xs @ ys) @ live =
    filter (\<lambda>x. bounded low None (fst x) \<and> (P x \<or> x \<in> set ys)) (xs @ ys)"
proof -
  let ?high = "case live of [] \<Rightarrow> None | l # _ \<Rightarrow> Some (fst l)"
  have below: "fst x < fst y" if "x \<in> set xs" "y \<in> set ys" for x y
    using assms(1) that by (auto simp: sorted_wrt_append)
  then have disj: "set xs \<inter> set ys = {}" by (meson disjoint_iff less_irrefl)
  have "sorted_wrt (<) (map fst live)"
    using assms by (auto simp: sorted_wrt_append sorted_wrt_map sorted_wrt_filter)
  then have "\<not> (bounded low ?high (fst x) \<and> P x)" if "x \<in> set ys" for x
  proof (cases "bounded low ?high (fst x)")
    case True
    then have "x \<in> set live" using that assms(2) by (simp add: bounded_def)
    with True \<open>sorted_wrt (<) (map fst live)\<close> show ?thesis
      by (cases live) (auto simp: bounded_def simp del: split_paired_All less_prod_def)
  qed simp
  then have 1: "filter (\<lambda>x. bounded low ?high (fst x) \<and> P x) ys = []" by (simp add: filter_empty_conv)
  have 2: "filter (\<lambda>x. bounded low ?high (fst x) \<and> P x) xs = filter (\<lambda>x. bounded low None (fst x) \<and> (P x \<or> x \<in> set ys)) xs"
  proof (rule filter_cong [OF refl])
    fix x assume x: "x \<in> set xs"
    have "live = [] \<or> fst x < fst (hd live)"
      using x below assms(2) by (metis filter_is_subset hd_in_set subsetD)
    with x disj show "(bounded low ?high (fst x) \<and> P x) = (bounded low None (fst x) \<and> (P x \<or> x \<in> set ys))"
      by (cases live) (auto simp: bounded_def)
  qed
  have "live = filter (\<lambda>x. bounded low None (fst x) \<and> (P x \<or> x \<in> set ys)) ys"
    unfolding assms(2) by (rule filter_cong) auto
  with 1 2 show ?thesis by simp
qed

definition log_shows where
  "log_shows entries clock cd contents run u J F r a \<longleftrightarrow>
     history J \<and> (\<forall>x \<in> set J. fst x \<le> clock r (stream_key run)) \<and>
     (\<exists>k. entries r (stream_key run) = map (stream_entry cd) (drop k J)) \<and>
     contents a u = filter (\<lambda>x. fst x \<notin> F) J"

text \<open>What a reader gets after a cursor: what the archive or the stream has, in order.\<close>

definition visible :: "event_key option \<Rightarrow> event_key set \<Rightarrow> event_key set \<Rightarrow> (event_key \<times> Event) list \<Rightarrow> (event_key \<times> Event) list" where
  "visible low F S J = filter (\<lambda>x. bounded low None (fst x) \<and> (fst x \<notin> F \<or> fst x \<in> S)) J"

lemma history_key_inj: "history J \<Longrightarrow> x \<in> set J \<Longrightarrow> y \<in> set J \<Longrightarrow> fst x = fst y \<Longrightarrow> x = y"
  by (metis history_def strict_sorted_iff distinct_map inj_onD)

lemma packable_64: "packable i \<Longrightarrow> fst i < 2 ^ 64 \<and> snd i < 2 ^ 64"
  by (auto simp: packable_def)

lemma history_append:
  "history J \<Longrightarrow> \<forall>x \<in> set J. fst x < i \<Longrightarrow> packable i \<Longrightarrow> (0, 0) < i \<Longrightarrow> history (J @ [(i, e)])"
  by (auto simp: history_def sorted_wrt_append)

lemma last_n_drop: "\<exists>m. last_n n (drop k J @ [x]) = drop m (J @ [x])"
proof (cases "k \<le> length J")
  case True
  then have "drop k J @ [x] = drop k (J @ [x])" by simp
  then show ?thesis by (metis drop_drop last_n_def)
next
  case False
  then have "drop k J @ [x] = drop (length J) (J @ [x])" by simp
  then show ?thesis by (metis drop_drop last_n_def)
qed

context event_archive
begin

lemma read_history:
  assumes laws: "stream_laws redis entries clock" and cd: "codec_ok cd" and a: "ok a" "up a" and u: "UUID run = Some u"
    and st: "log_shows entries clock cd contents run u J F r a" and low: "reads_key after low"
  shows "read_log redis cd (Some api) run after (r, a) =
    Inr (map to_logged (visible low F (in_stream entries run r) J))"
proof -
  obtain k where k: "entries r (stream_key run) = map (stream_entry cd) (drop k J)"
      and J: "history J" "contents a u = filter (\<lambda>x. fst x \<notin> F) J"
    using st by (auto simp: log_shows_def)
  define live where "live = filter (\<lambda>x. bounded low None (fst x)) (drop k J)"
  let ?start = "case after of None \<Rightarrow> STREAM_START | Some c \<Rightarrow> EXCLUSIVE @ c"
  have cursor: "(case after of None \<Rightarrow> Inr None | Some c \<Rightarrow> result_bind (validate c) (\<lambda>c. Inr (Some c))) = Inr after"
    using low by (auto simp: reads_key_def validate_def split: option.splits)
  have range: "xrange redis (stream_key run) ?start STREAM_END r = Inr (map show_entry (map (stream_entry cd) live))"
  proof (cases after)
    case None
    then have "low = None" using low by (auto simp: reads_key_def split: option.splits)
    then show ?thesis using None law_xrange [OF laws] by (simp add: k live_def bounded_def)
  next
    case (Some c)
    then obtain i where i: "low = Some i" "parse_event_id c = Inr i" "packable i"
      using low by (auto simp: reads_key_def split: option.splits)
    have "xrange redis (stream_key run) ?start STREAM_END r =
        Inr (map show_entry (filter (\<lambda>x. i < fst x) (map (stream_entry cd) (drop k J))))"
      using law_after [OF laws i(2)] packable_64 [OF i(3)] k Some by simp
    then show ?thesis unfolding filter_stream_entry [of "(<) i"] by (simp add: live_def bounded_def i(1))
  qed
  let ?before = "case map to_logged live of [] \<Rightarrow> None | l # _ \<Rightarrow> Some (log_id l)"
  have "set live \<subseteq> set J" by (auto simp: live_def dest: in_set_dropD)
  then have before: "reads_key ?before (case live of [] \<Rightarrow> None | l # _ \<Rightarrow> Some (fst l))"
    using J(1) by (cases live) (auto simp: reads_key_def to_logged_def history_def)
  have "filter (\<lambda>x. bounded low (case live of [] \<Rightarrow> None | l # _ \<Rightarrow> Some (fst l)) (fst x)) (contents a u) @ live =
      filter (\<lambda>x. bounded low None (fst x) \<and> (fst x \<notin> F \<or> x \<in> set (drop k J))) J"
    using sorted_parts_filter [of "take k J" "drop k J" live low "\<lambda>x. fst x \<notin> F"] J
    by (simp add: live_def history_def conj_commute)
  also have "\<dots> = visible low F (in_stream entries run r) J"
  proof -
    have "x \<in> set (drop k J) \<longleftrightarrow> fst x \<in> fst ` set (drop k J)" if "x \<in> set J" for x
      using history_key_inj [OF J(1) that] by (force dest: in_set_dropD)
    then show ?thesis by (auto simp: visible_def in_stream_def k stream_entry_def image_image intro!: filter_cong)
  qed
  finally show ?thesis
    using cursor range replay_between [OF a u low before] decode_stream_entries [OF cd, of live]
    by (simp add: read_log_def Let_def flip: map_append)
qed

lemma append_history:
  assumes laws: "stream_laws redis entries clock" and ttl: "0 < ttl" and a: "ok a" and u: "UUID run = Some u"
    and st: "log_shows entries clock cd contents run u J F r a" and ev: "ev_run_id ev = run"
    and app: "append_event redis cd (Some api) n ttl ev (r, a) = (res, r', a')"
    and i: "i = clock r' (stream_key run)" "packable i"
  shows "res = Inr (to_logged (i, ev)) \<and> ok a' \<and> up a' = up a \<and>
    log_shows entries clock cd contents run u (J @ [(i, ev)]) (if up a then F - {i} else insert i F) r' a'"
proof -
  let ?k = "stream_key run"
  obtain assigned r1 where x: "xadd redis ?k [(PAYLOAD_FIELD, model_dump_json cd ev)] n r = (assigned, r1)"
    by (cases "xadd redis ?k [(PAYLOAD_FIELD, model_dump_json cd ev)] n r")
  obtain s a1 where rc: "api_record api \<lparr>log_id = assigned, event = ev\<rparr> a = (s, a1)"
    by (cases "api_record api \<lparr>log_id = assigned, event = ev\<rparr> a")
  have r': "r' = expire redis ?k ttl r1" and a': "a' = a1"
    using app x rc ev by (auto simp: append_event_def Let_def split: sum.splits)
  note xl = law_xadd [OF laws x] and el = law_expire [OF laws ttl, of ?k r1]
  have new: "assigned = event_id_of (fst i) (snd i)" "clock r ?k < i"
    using xl el i(1) by (auto simp: r')
  have J: "history J" "\<forall>x \<in> set J. fst x < i" "contents a u = filter (\<lambda>x. fst x \<notin> F) J"
    using st new(2) by (auto simp: log_shows_def intro: le_less_trans)
  have logged: "\<lparr>log_id = assigned, event = ev\<rparr> = to_logged (i, ev)" by (simp add: to_logged_def new)
  have rec: "s = Inr ()" "ok a1" "up a1 = up a"
      "contents a1 = (contents a)(u := contents a u @ (if up a then [(i, ev)] else []))"
    using record_appends [OF a _ i(2) _ rc [unfolded logged], of u] J u ev by auto
  have pos: "(0, 0) < i" using new(2) by (cases i; cases "clock r ?k") auto
  obtain k where k: "entries r ?k = map (stream_entry cd) (drop k J)"
    using st by (auto simp: log_shows_def)
  have "entries r' ?k = last_n n (map (stream_entry cd) (drop k J @ [(i, ev)]))"
    using xl el i(1) by (simp add: r' k stream_entry_def)
  also have "\<dots> = map (stream_entry cd) (last_n n (drop k J @ [(i, ev)]))"
    by (simp only: last_n_def drop_map length_map)
  finally have "\<exists>m. entries r' ?k = map (stream_entry cd) (drop m (J @ [(i, ev)]))"
    using last_n_drop [of n k J "(i, ev)"] by metis
  moreover have "filter (\<lambda>x. fst x \<notin> (if up a then F - {i} else insert i F)) (J @ [(i, ev)]) =
      contents a u @ (if up a then [(i, ev)] else [])"
    using J by (auto simp: intro!: filter_cong)
  moreover have "res = Inr (to_logged (i, ev))"
    using app x rc ev rec(1) logged by (auto simp: append_event_def Let_def)
  ultimately show ?thesis
    using rec J history_append [OF J(1,2) i(2) pos] i(1) by (auto simp: log_shows_def a' less_imp_le)
qed

end

section \<open>Following a run\<close>

text \<open>A state in which the archive is reachable and complete and the log shows the history \<open>J\<close>.\<close>

definition view where
  "view entries clock cd ok up contents run u J w \<longleftrightarrow>
     ok (snd w) \<and> up (snd w) \<and> log_shows entries clock cd contents run u J {} (fst w) (snd w)"

text \<open>The states a follower looks at: histories that only grow, and a stream that still has what was
  appended since the follower's last look.\<close>

fun rounds_show where
  "rounds_show entries clock cd ok up contents run u Jp [] [] = True"
| "rounds_show entries clock cd ok up contents run u Jp ((w, w') # rounds) ((J, J') # Js) =
     (prefix Jp J \<and> prefix J J' \<and> view entries clock cd ok up contents run u J w \<and>
      view entries clock cd ok up contents run u J' w' \<and>
      (\<forall>x \<in> set J'. x \<in> set Jp \<or> fst x \<in> in_stream entries run (fst w')) \<and>
      rounds_show entries clock cd ok up contents run u J' rounds Js)"
| "rounds_show _ _ _ _ _ _ _ _ _ _ _ = False"

fun final_view :: "'a \<Rightarrow> ('a \<times> 'a) list \<Rightarrow> 'a" where
  "final_view Jp [] = Jp"
| "final_view Jp ((J, J') # Js) = final_view J' Js"

text \<open>A terminal event is the last thing a run says.\<close>

definition closed :: "(event_key \<times> Event) list \<Rightarrow> bool" where
  "closed J \<longleftrightarrow> (\<forall>x \<in> set (butlast J). \<not> is_terminal_event (snd x))"

definition finished :: "(event_key \<times> Event) list \<Rightarrow> bool" where
  "finished J \<longleftrightarrow> J \<noteq> [] \<and> is_terminal_event (snd (last J))"

definition after :: "event_key option \<Rightarrow> (event_key \<times> Event) list \<Rightarrow> (event_key \<times> Event) list" where
  "after low J = filter (\<lambda>x. bounded low None (fst x)) J"

lemma prefix_final_view: "rounds_show entries clock cd ok up contents run u Jp rounds Js \<Longrightarrow> prefix Jp (final_view Jp Js)"
  by (induction entries clock cd ok up contents run u Jp rounds Js rule: rounds_show.induct)
    (auto intro: prefix_order.trans)

lemma closed_prefix: "closed J' \<Longrightarrow> prefix J J' \<Longrightarrow> closed J"
  by (fastforce simp: closed_def prefix_def butlast_append split: if_splits dest: in_set_butlastD)

lemma closed_finished:
  assumes "closed J'" "prefix J J'" "finished J"
  shows "J' = J"
proof -
  obtain ys where ys: "J' = J @ ys" using assms(2) by (auto simp: prefix_def)
  have "last J \<in> set (butlast J')" if "ys \<noteq> []"
    using that assms(3) by (auto simp: ys butlast_append finished_def)
  then show ?thesis using assms(1,3) ys by (auto simp: closed_def finished_def)
qed

text \<open>Both loops yield everything when only the last event can be terminal.\<close>

lemma yield_history_closed:
  assumes "closed xs"
  shows "yield_history (map to_logged xs) c =
    (map to_logged xs, if xs = [] then c else log_id (to_logged (last xs)), if finished xs then Some (Inr ()) else None)"
  using assms
proof (induction xs arbitrary: c)
  case (Cons x xs)
  show ?case
  proof (cases "xs = []")
    case False
    then have "\<not> is_terminal_event (snd x)" "closed xs" "finished (x # xs) = finished xs"
      using Cons.prems by (auto simp: closed_def finished_def)
    with Cons.IH False show ?thesis by (simp add: to_logged_def)
  qed (simp add: finished_def to_logged_def)
qed (simp add: finished_def)

lemma yield_batch_history:
  assumes "codec_ok cd"
  shows "yield_batch cd (map show_entry (map (stream_entry cd) xs)) c = yield_history (map to_logged xs) c"
  by (induction xs arbitrary: c) (simp_all add: decode_stream_entry [OF assms])

lemma closed_after: "closed J \<Longrightarrow> closed (filter P J)"
proof (induction J rule: rev_induct)
  case (snoc x J)
  then show ?case by (auto simp: closed_def dest: in_set_butlastD)
qed simp

text \<open>The cursor stands between what was yielded and what is to come.\<close>

definition cursor_at where
  "cursor_at cursor low Jp J \<longleftrightarrow>
     (\<exists>c. parse_event_id cursor = Inr c \<and> packable c \<and> (\<forall>x \<in> set J. c < fst x \<longleftrightarrow> bounded low None (fst x) \<and> x \<notin> set Jp))"

lemma cursor_at_subset: "cursor_at cursor low Jp J \<Longrightarrow> set J' \<subseteq> set J \<Longrightarrow> cursor_at cursor low Jp J'"
  by (auto simp: cursor_at_def)

lemma history_last_max: "history J \<Longrightarrow> x \<in> set J \<Longrightarrow> fst x \<le> fst (last J)"
  by (induction J rule: rev_induct) (auto simp: history_def sorted_wrt_append less_imp_le simp del: less_prod_def)

lemma history_prefix: "history J' \<Longrightarrow> prefix J J' \<Longrightarrow> history J"
  by (auto simp: history_def prefix_def sorted_wrt_append)

lemma history_prefix_less:
  "history J' \<Longrightarrow> prefix J J' \<Longrightarrow> x \<in> set J \<Longrightarrow> y \<in> set J' \<Longrightarrow> y \<notin> set J \<Longrightarrow> fst x < fst y"
  by (auto simp: history_def prefix_def sorted_wrt_append simp del: less_prod_def)

text \<open>Yielding the new part of \<open>J'\<close> moves the cursor on.\<close>

lemma cursor_at_step:
  assumes c: "cursor_at cursor low Jp Jn" and hist: "history Jn" and pre: "prefix Jp J'" "prefix J' Jn"
    and new: "new = filter (\<lambda>x. bounded low None (fst x) \<and> x \<notin> set Jp) J'"
  shows "cursor_at (if new = [] then cursor else log_id (to_logged (last new))) low J' Jn"
proof (cases "new = []")
  case True
  then have "\<forall>x \<in> set J'. bounded low None (fst x) \<longrightarrow> x \<in> set Jp" by (simp add: new filter_empty_conv)
  with c pre show ?thesis using True set_mono_prefix [OF pre(1)] unfolding cursor_at_def by fastforce
next
  case False
  have mem: "last new \<in> set J'" "bounded low None (fst (last new))" "last new \<notin> set Jp"
    using last_in_set [OF False] by (auto simp: new)
  have J': "history J'" by (rule history_prefix [OF hist pre(2)])
  have "fst (last new) < fst x \<longleftrightarrow> bounded low None (fst x) \<and> x \<notin> set J'" if x: "x \<in> set Jn" for x
  proof
    assume l: "fst (last new) < fst x"
    then have b: "bounded low None (fst x)" using mem(2) by (auto simp: bounded_def split: option.splits)
    have "x \<notin> set J'"
    proof
      assume xJ: "x \<in> set J'"
      have "x \<notin> set Jp" using history_prefix_less [OF J' pre(1) _ mem(1,3)] l by (meson less_asym)
      then have "x \<in> set new" using xJ b by (simp add: new)
      moreover have "history new" using J' by (auto simp: new history_def sorted_wrt_map sorted_wrt_filter)
      ultimately show False using history_last_max l by (meson leD)
    qed
    with b show "bounded low None (fst x) \<and> x \<notin> set J'" by simp
  next
    assume "bounded low None (fst x) \<and> x \<notin> set J'"
    then show "fst (last new) < fst x" using history_prefix_less [OF hist pre(2) mem(1) x] by simp
  qed
  moreover have "packable (fst (last new))" using mem(1) J' by (simp add: history_def)
  ultimately show ?thesis using False by (simp add: cursor_at_def to_logged_def)
qed

lemma after_split:
  assumes "prefix Jp J'" "history J'"
  shows "after low J' = after low Jp @ filter (\<lambda>x. bounded low None (fst x) \<and> x \<notin> set Jp) J'"
proof -
  obtain ys where ys: "J' = Jp @ ys" using assms(1) by (auto simp: prefix_def)
  have "distinct J'" using assms(2) by (metis history_def strict_sorted_iff distinct_map)
  then have "filter (\<lambda>x. bounded low None (fst x) \<and> x \<notin> set Jp) ys = filter (\<lambda>x. bounded low None (fst x)) ys"
    by (auto simp: ys intro!: filter_cong)
  then show ?thesis by (simp add: ys after_def filter_empty_conv)
qed

lemma finished_append: "finished (xs @ ys) = (if ys = [] then finished xs else finished ys)"
  by (simp add: finished_def)

lemma finished_new:
  "finished J \<Longrightarrow> P (last J) \<Longrightarrow> finished (filter P J)"
  by (cases J rule: rev_cases) (auto simp: finished_def)

lemma finished_filter:
  assumes "closed J" "finished (filter P J)"
  shows "finished J"
proof -
  have "last (filter P J) \<in> set J" using assms(2) last_in_set [of "filter P J"] by (auto simp: finished_def)
  moreover have "last (filter P J) \<notin> set (butlast J)" using assms by (auto simp: closed_def finished_def)
  ultimately have "J \<noteq> []" "last (filter P J) = last J"
    by (metis empty_iff list.set(1), metis Un_iff append_butlast_last_id empty_iff empty_set set_ConsD set_append)
  then show ?thesis using assms(2) by (simp add: finished_def)
qed

lemma none_new:
  assumes "history J" "finished J" "\<not> (bounded low None (fst (last J)) \<and> last J \<notin> set Jp)" "prefix Jp J"
  shows "filter (\<lambda>x. bounded low None (fst x) \<and> x \<notin> set Jp) J = []"
proof -
  have "x \<in> set Jp" if x: "x \<in> set J" "bounded low None (fst x)" for x
  proof (rule ccontr)
    assume new: "x \<notin> set Jp"
    have "bounded low None (fst (last J))"
      using x history_last_max [OF assms(1) x(1)] by (auto simp: bounded_def split: option.splits)
    then have "last J \<in> set Jp" using assms(3) by simp
    then have "fst (last J) < fst x" using history_prefix_less [OF assms(1,4) _ x(1) new] by simp
    then show False using history_last_max [OF assms(1) x(1)] by simp
  qed
  then show ?thesis by (auto simp: filter_empty_conv)
qed

context event_archive
begin

lemma ended_history:
  assumes laws: "stream_laws redis entries clock" and cd: "codec_ok cd" and u: "UUID run = Some u"
    and v: "view entries clock cd ok up contents run u J w" and c: "cursor_at cursor low Jp J"
    and flag: "terminal \<Longrightarrow> J \<noteq> []" and pre: "prefix Jp J"
  shows "ended redis cd (Some api) run cursor terminal w =
    Inr (finished J \<and> \<not> (bounded low None (fst (last J)) \<and> last J \<notin> set Jp))"
proof -
  obtain r a where w: "w = (r, a)" by (cases w)
  obtain k where k: "entries r (stream_key run) = map (stream_entry cd) (drop k J)"
      and J: "history J" "contents a u = J" "ok a" "up a"
    using v by (auto simp: view_def log_shows_def w)
  obtain i where i: "parse_event_id cursor = Inr i" "\<And>x. x \<in> set J \<Longrightarrow> i < fst x \<longleftrightarrow> bounded low None (fst x) \<and> x \<notin> set Jp"
    using c by (auto simp: cursor_at_def)
  show ?thesis
  proof (cases "J = []")
    case True
    then show ?thesis using k J flag last_is_last [OF J(3,4) u] law_last [OF laws]
      by (auto simp: ended_def w finished_def)
  next
    case False
    have "xrevrange_one redis (stream_key run) r =
        (if drop k J = [] then [] else [show_entry (stream_entry cd (last J))])"
      using k law_last [OF laws, of "stream_key run" r] by (simp add: last_map)
    moreover have "api_last api run a = Inr (Some (to_logged (last J)))"
      using last_is_last [OF J(3,4) u] J(2) False by simp
    moreover have "parse_event_id (log_id (to_logged (last J))) = Inr (fst (last J))"
      using J(1) False by (simp add: to_logged_def history_def)
    ultimately show ?thesis
      using i(1) i(2) [of "last J"] False decode_stream_entry [OF cd, of "last J"]
      by (cases "drop k J = []") (auto simp: ended_def w finished_def to_logged_def)
  qed
qed

lemma xread_new:
  assumes laws: "stream_laws redis entries clock"
    and v: "view entries clock cd ok up contents run u J' w'" and c: "cursor_at cursor low Jp J'"
    and kept: "\<forall>x \<in> set J'. x \<in> set Jp \<or> fst x \<in> in_stream entries run (fst w')"
  shows "xread redis (stream_key run) cursor (fst w') =
    Inr (map show_entry (map (stream_entry cd) (filter (\<lambda>x. bounded low None (fst x) \<and> x \<notin> set Jp) J')))"
proof -
  obtain k where k: "entries (fst w') (stream_key run) = map (stream_entry cd) (drop k J')" and J: "history J'"
    using v by (auto simp: view_def log_shows_def)
  obtain i where i: "parse_event_id cursor = Inr i" "packable i"
      "\<And>x. x \<in> set J' \<Longrightarrow> i < fst x \<longleftrightarrow> bounded low None (fst x) \<and> x \<notin> set Jp"
    using c by (auto simp: cursor_at_def)
  have "x \<in> set Jp" if "x \<in> set (take k J')" for x
  proof -
    have "x \<notin> set (drop k J')" "x \<in> set J'"
      using that J set_take_disj_set_drop_if_distinct [of J' k k]
      by (auto simp: history_def strict_sorted_iff distinct_map dest: in_set_takeD)
    moreover have "fst x \<notin> fst ` set (drop k J')"
    proof
      assume "fst x \<in> fst ` set (drop k J')"
      then obtain y where "y \<in> set (drop k J')" "fst x = fst y" by auto
      with history_key_inj [OF J, of x y] calculation show False by (auto dest: in_set_dropD)
    qed
    ultimately show ?thesis using kept by (auto simp: in_stream_def k stream_entry_def image_image)
  qed
  then have "filter (\<lambda>x. i < fst x) (take k J') = []"
    using i(3) in_set_takeD [of _ k J'] unfolding filter_empty_conv by metis
  then have "filter (\<lambda>x. i < fst x) (drop k J') = filter (\<lambda>x. i < fst x) J'"
    by (metis append_take_drop_id filter_append append_Nil)
  also have "\<dots> = filter (\<lambda>x. bounded low None (fst x) \<and> x \<notin> set Jp) J'"
    by (rule filter_cong) (use i(3) in auto)
  finally show ?thesis
    using law_after [OF laws i(1)] packable_64 [OF i(2)] k filter_stream_entry [of "(<) i" cd "drop k J'"] by simp
qed

lemma follow_loop_history:
  assumes laws: "stream_laws redis entries clock" and cd: "codec_ok cd" and u: "UUID run = Some u"
  shows "rounds_show entries clock cd ok up contents run u Jp rounds Js \<Longrightarrow> cursor_at cursor low Jp (final_view Jp Js) \<Longrightarrow>
    history (final_view Jp Js) \<Longrightarrow> closed (final_view Jp Js) \<Longrightarrow> (terminal \<Longrightarrow> Jp \<noteq> []) \<Longrightarrow>
    \<not> finished (after low Jp) \<Longrightarrow>
    \<exists>cursor'. follow_loop redis cd (Some api) run terminal cursor rounds =
      (map to_logged (filter (\<lambda>x. bounded low None (fst x) \<and> x \<notin> set Jp) (final_view Jp Js)), cursor',
       if finished (after low (final_view Jp Js)) \<or> (\<exists>(J, J') \<in> set Js. finished J) then Some (Inr ()) else None)"
proof (induction Js arbitrary: Jp rounds cursor)
  case Nil
  then show ?case by (cases rounds) (auto simp: filter_empty_conv)
next
  case (Cons JJ Js)
  obtain J J' where JJ: "JJ = (J, J')" by (cases JJ)
  obtain w w' rounds' where rounds: "rounds = (w, w') # rounds'"
    using Cons.prems(1) JJ by (cases rounds) auto
  let ?Jn = "final_view J' Js"
  have pre: "prefix Jp J" "prefix J J'" and v: "view entries clock cd ok up contents run u J w"
      "view entries clock cd ok up contents run u J' w'"
      and kept: "\<forall>x \<in> set J'. x \<in> set Jp \<or> fst x \<in> in_stream entries run (fst w')"
      and rest: "rounds_show entries clock cd ok up contents run u J' rounds' Js"
    using Cons.prems(1) by (auto simp: JJ rounds)
  have Jn: "prefix J' ?Jn" "history ?Jn" "closed ?Jn"
    using prefix_final_view [OF rest] Cons.prems by (auto simp: JJ)
  have c: "cursor_at cursor low Jp ?Jn" using Cons.prems(2) by (simp add: JJ)
  have subs: "set J \<subseteq> set ?Jn" "set J' \<subseteq> set ?Jn"
    using pre Jn(1) by (meson prefix_order.trans set_mono_prefix)+
  have "terminal \<Longrightarrow> J \<noteq> []" using Cons.prems(5) pre(1) by auto
  then have ended: "ended redis cd (Some api) run cursor terminal w =
      Inr (finished J \<and> \<not> (bounded low None (fst (last J)) \<and> last J \<notin> set Jp))"
    by (intro ended_history [OF laws cd u v(1) cursor_at_subset [OF c subs(1)] _ pre(1)])
  let ?new = "filter (\<lambda>x. bounded low None (fst x) \<and> x \<notin> set Jp) J'"
  have J': "prefix Jp J'" "history J'" "closed J'" and Jpn: "prefix Jp ?Jn"
    using pre Jn(1) history_prefix [OF Jn(2,1)] closed_prefix [OF Jn(3,1)] by (meson prefix_order.trans)+
  have step: "after low J' = after low Jp @ ?new" by (rule after_split [OF J'(1,2)])
  have all: "?new @ filter (\<lambda>x. bounded low None (fst x) \<and> x \<notin> set J') ?Jn =
      filter (\<lambda>x. bounded low None (fst x) \<and> x \<notin> set Jp) ?Jn"
    using after_split [OF Jpn Jn(2), of low] after_split [OF Jn(1,2), of low] step by simp
  have stop: "J' = J \<and> ?Jn = J" if "finished J"
    using closed_finished [OF J'(3) pre(2) that] closed_finished [OF Jn(3,1)] that by simp
  show ?case
  proof (cases "finished J \<and> \<not> (bounded low None (fst (last J)) \<and> last J \<notin> set Jp)")
    case True
    then have "?Jn = J" "history J" using stop Jn(2) by auto
    then show ?thesis using True ended none_new [of J low Jp] pre(1) by (simp add: JJ rounds)
  next
    case False
    then have go: "ended redis cd (Some api) run cursor terminal w = Inr False" using ended by auto
    have read: "xread redis (stream_key run) cursor (fst w') = Inr (map show_entry (map (stream_entry cd) ?new))"
      by (rule xread_new [OF laws v(2) cursor_at_subset [OF c subs(2)] kept])
    have batch: "yield_batch cd (map show_entry (map (stream_entry cd) ?new)) cursor =
        (map to_logged ?new, if ?new = [] then cursor else log_id (to_logged (last ?new)),
         if finished ?new then Some (Inr ()) else None)"
      by (simp only: yield_batch_history [OF cd] yield_history_closed [OF closed_after [OF J'(3)]])
    show ?thesis
    proof (cases "finished ?new")
      case fin: True
      then have "J' = ?Jn" using closed_finished [OF Jn(3,1)] finished_filter [OF J'(3)] by metis
      moreover have "finished (after low J')" using fin step by (simp add: finished_def)
      ultimately show ?thesis using go read batch fin by (simp add: JJ rounds)
    next
      case more: False
      have "\<not> finished J"
      proof
        assume f: "finished J"
        then have "finished ?new"
          using finished_new [OF f, of "\<lambda>x. bounded low None (fst x) \<and> x \<notin> set Jp"] False stop by simp
        with more show False by simp
      qed
      have unfinished: "\<not> finished (after low J')"
        using more Cons.prems(6) unfolding step finished_append by (simp split: if_splits)
      have flag: "terminal \<Longrightarrow> J' \<noteq> []" using Cons.prems(5) J'(1) by auto
      note cursor = cursor_at_step [OF c Jn(2) J'(1) Jn(1) refl]
      obtain cursor' where "follow_loop redis cd (Some api) run terminal
            (if ?new = [] then cursor else log_id (to_logged (last ?new))) rounds' =
          (map to_logged (filter (\<lambda>x. bounded low None (fst x) \<and> x \<notin> set J') ?Jn), cursor',
           if finished (after low ?Jn) \<or> (\<exists>(J, J') \<in> set Js. finished J) then Some (Inr ()) else None)"
        using Cons.IH [OF rest cursor Jn(2,3) flag unfinished] by blast
      then show ?thesis using go read batch more \<open>\<not> finished J\<close>
        by (simp add: JJ rounds flip: all)
    qed
  qed
qed

lemma follow_history:
  assumes laws: "stream_laws redis entries clock" and cd: "codec_ok cd" and u: "UUID run = Some u"
    and v: "view entries clock cd ok up contents run u J w"
    and rounds: "rounds_show entries clock cd ok up contents run u J rounds Js"
    and final: "history (final_view J Js)" "closed (final_view J Js)"
    and low: "reads_key cur low" and flag: "terminal \<Longrightarrow> J \<noteq> []"
  shows "\<exists>cursor. follow redis cd (Some api) run cur terminal w rounds =
    (map to_logged (after low (final_view J Js)), cursor,
     if finished (after low (final_view J Js)) \<or> (\<exists>(J, J') \<in> set Js. finished J) then Some (Inr ()) else None)"
proof -
  let ?Jn = "final_view J Js" and ?start = "case cur of None \<Rightarrow> FROM_BEGINNING | Some c \<Rightarrow> c"
  have pre: "prefix J ?Jn" by (rule prefix_final_view [OF rounds])
  have J: "history J" "closed J" using history_prefix [OF final(1) pre] closed_prefix [OF final(2) pre] by auto
  have start: "(case cur of None \<Rightarrow> Inr FROM_BEGINNING | Some c \<Rightarrow> validate c) = Inr ?start"
    using low by (auto simp: reads_key_def validate_def split: option.splits)
  have "read_log redis cd (Some api) run cur w = Inr (map to_logged (visible low {} (in_stream entries run (fst w)) J))"
    using read_history [OF laws cd _ _ u _ low, of "snd w" J "{}" "fst w"] v by (simp add: view_def)
  then have read: "read_log redis cd (Some api) run cur w = Inr (map to_logged (after low J))"
    by (simp add: visible_def after_def)
  have hist: "yield_history (map to_logged (after low J)) ?start =
      (map to_logged (after low J), if after low J = [] then ?start else log_id (to_logged (last (after low J))),
       if finished (after low J) then Some (Inr ()) else None)"
    by (rule yield_history_closed) (simp add: after_def closed_after [OF J(2)])
  have "parse_event_id FROM_BEGINNING = Inr (0, 0)"
    by (simp add: FROM_BEGINNING_def parse_event_id_def ID_SEPARATOR_def str_isdigit_def is_digit_char_def
        is_decimal_def int_of_digits_def int_max_str_digits_def dec_nat_def dec_value_def)
  then have "cursor_at ?start low [] ?Jn"
    using low final(1) by (auto simp: cursor_at_def reads_key_def bounded_def history_def packable_def split: option.splits)
  then have cursor: "cursor_at (if after low J = [] then ?start else log_id (to_logged (last (after low J)))) low J ?Jn"
    by (rule cursor_at_step [OF _ final(1) _ pre]) (simp_all add: after_def)
  show ?thesis
  proof (cases "finished (after low J)")
    case True
    then have "?Jn = J" using closed_finished [OF final(2) pre] finished_filter [OF J(2)] by (auto simp: after_def)
    then show ?thesis using True start read hist by (simp add: follow_def)
  next
    case False
    obtain cursor' where "follow_loop redis cd (Some api) run terminal
          (if after low J = [] then ?start else log_id (to_logged (last (after low J)))) rounds =
        (map to_logged (filter (\<lambda>x. bounded low None (fst x) \<and> x \<notin> set J) ?Jn), cursor',
         if finished (after low ?Jn) \<or> (\<exists>(J, J') \<in> set Js. finished J) then Some (Inr ()) else None)"
      using follow_loop_history [OF laws cd u rounds cursor final flag False] by blast
    then show ?thesis
      using False start read hist after_split [OF pre final(1), of low] by (simp add: follow_def)
  qed
qed

end

section \<open>The life of a log\<close>

text \<open>Everything that can happen to the log of one run: appends by the run, appends for other runs,
  trimming and expiry of the stream, and Postgres going away and coming back. \<open>J\<close> collects what was
  appended, \<open>F\<close> the ids whose archive write was lost.\<close>

inductive log_reach for redis entries clock cd n ttl run u where
  start: "entries r (stream_key run) = [] \<Longrightarrow> archive_ok cd a \<Longrightarrow> archived cd a u = [] \<Longrightarrow>
    log_reach redis entries clock cd n ttl run u [] {} r a"
| appended: "log_reach redis entries clock cd n ttl run u J F r a \<Longrightarrow> ev_run_id ev = run \<Longrightarrow>
    append_event redis cd (Some (archive_ops cd)) n ttl ev (r, a) = (res, r', a') \<Longrightarrow>
    i = clock r' (stream_key run) \<Longrightarrow> packable i \<Longrightarrow>
    log_reach redis entries clock cd n ttl run u (J @ [(i, ev)]) (if db_up a then F - {i} else insert i F) r' a'"
| trimmed: "log_reach redis entries clock cd n ttl run u J F r a \<Longrightarrow>
    entries r' (stream_key run) = drop m (entries r (stream_key run)) \<Longrightarrow>
    clock r (stream_key run) \<le> clock r' (stream_key run) \<Longrightarrow>
    log_reach redis entries clock cd n ttl run u J F r' a"
| archive_changed: "log_reach redis entries clock cd n ttl run u J F r a \<Longrightarrow>
    archive_ok cd a' \<Longrightarrow> archived cd a' u = archived cd a u \<Longrightarrow>
    log_reach redis entries clock cd n ttl run u J F r a'"

lemma log_reach_shows:
  assumes "stream_laws redis entries clock" "0 < ttl" "UUID run = Some u"
  shows "log_reach redis entries clock cd n ttl run u J F r a \<Longrightarrow>
    archive_ok cd a \<and> log_shows entries clock cd (archived cd) run u J F r a"
proof (induction rule: log_reach.induct)
  case (appended J F r a ev res r' a' i)
  then show ?case using archive.append_history [OF assms(1,2) _ assms(3) _ appended.hyps(2-5)] by blast
next
  case (trimmed J F r a r' m)
  then show ?case by (fastforce simp: log_shows_def drop_map)
qed (auto simp: log_shows_def history_def)

section \<open>A stream server in memory\<close>

text \<open>An instance of the parameter, to show that the hypotheses on Redis can hold.\<close>

type_synonym 't mem = "(string \<Rightarrow> (event_key \<times> (string \<times> 't) list) list) \<times> (string \<Rightarrow> event_key)"

definition mem_after :: "string \<Rightarrow> string \<Rightarrow> 't mem \<Rightarrow> 't StreamEntry list result" where
  "mem_after k c m = result_bind (parse_event_id c) (\<lambda>i. Inr (map show_entry (filter (\<lambda>x. i < fst x) (fst m k))))"

definition mem_redis :: "('t mem, 't) stream_api" where
  "mem_redis = \<lparr>
     xadd = (\<lambda>k fs n m. let i = (fst (snd m k), Suc (snd (snd m k))) in
       (event_id_of (fst i) (snd i), (fst m)(k := last_n n (fst m k @ [(i, fs)])), (snd m)(k := i))),
     expire = (\<lambda>k t m. m),
     xrange = (\<lambda>k low high m.
       if low = STREAM_START then Inr (map show_entry (fst m k)) else mem_after k (tl low) m),
     xrevrange_one = (\<lambda>k m. if fst m k = [] then [] else [show_entry (last (fst m k))]),
     xread = mem_after\<rparr>"

lemma mem_redis_laws: "stream_laws mem_redis fst snd"
  by (auto simp: stream_laws_def mem_redis_def mem_after_def Let_def STREAM_START_def EXCLUSIVE_def less_prod_def)

definition plain_codec :: "(Event, Event) event_codec" where
  "plain_codec = \<lparr>model_dump_json = (\<lambda>e. e), validate_json = Inr, model_dump = (\<lambda>e. e), validate_python = Inr\<rparr>"

lemma plain_codec_ok: "codec_ok plain_codec"
  by (simp add: codec_ok_def plain_codec_def)

definition example_run :: string where
  "example_run = uuid_hex 5"

definition example_end :: Event where
  "example_end = \<lparr>ts = 1, ev_run_id = example_run, path = [], data = RunCancelledData 0\<rparr>"

definition example_log :: "Event mem \<times> Event archive_db" where
  "example_log = snd (append_event mem_redis plain_codec (Some (archive_ops plain_codec)) 10 60 example_end
     ((\<lambda>_. [], \<lambda>_. (0, 0)), \<lparr>run_events = [], db_up = True\<rparr>))"

lemma example_log_parts:
  "snd (fst example_log) (stream_key example_run) = (0, 1)" "db_up (snd example_log)"
proof -
  have "pack (event_id_of 0 1) = Inr (seq_of (0, 1))"
    using pack_packable [of "event_id_of 0 1" "(0, 1)"] parse_packable [of "(0, 1)"] by (simp add: packable_def)
  then show "snd (fst example_log) (stream_key example_run) = (0, 1)" "db_up (snd example_log)"
    by (auto simp: example_log_def append_event_def mem_redis_def archive_ops_def record_event_def example_end_def
        example_run_def Let_def BIGINT_LIMIT_def seq_of_def)
qed

lemma example_log_reach:
  "log_reach mem_redis fst snd plain_codec 10 60 example_run 5 [((0, 1), example_end)] {} (fst example_log) (snd example_log)"
proof -
  let ?w = "((\<lambda>_. [], \<lambda>_. (0, 0)), \<lparr>run_events = [], db_up = True\<rparr>) :: Event mem \<times> Event archive_db"
  let ?x = "append_event mem_redis plain_codec (Some (archive_ops plain_codec)) 10 60 example_end ?w"
  have "log_reach mem_redis fst snd plain_codec 10 60 example_run 5 [] {} (fst ?w) (snd ?w)"
    by (rule log_reach.start) (simp_all add: archive_ok_def plain_codec_ok archived_def rows_of_def)
  from log_reach.appended [OF this, of example_end "fst ?x" "fst example_log" "snd example_log" "(0, 1)"]
  show ?thesis using example_log_parts by (simp add: example_log_def example_end_def packable_def)
qed

text \<open>C7. Reading a log after any cursor returns, each once and in the order they were appended, all
  events after it, whether they are still in the stream or only in the archive; only events whose archive
  write was lost and that the stream has dropped since are missing. If no archive write was lost, nothing
  is missing, however much of the stream was trimmed or expired.\<close>

theorem read_complete:
  assumes "stream_laws redis entries clock" "0 < ttl" "UUID run = Some u"
    and "log_reach redis entries clock cd n ttl run u J F r a" "db_up a" "reads_key cur low"
  shows "read_log redis cd (Some (archive_ops cd)) run cur (r, a) =
      Inr (map to_logged (visible low F (in_stream entries run r) J)) \<and>
    (F = {} \<longrightarrow> visible low F (in_stream entries run r) J = after low J)"
proof -
  have "archive_ok cd a" "log_shows entries clock cd (archived cd) run u J F r a"
    using log_reach_shows [OF assms(1-4)] by auto
  moreover from this have "codec_ok cd" by (simp add: archive_ok_def)
  ultimately show ?thesis
    using archive.read_history [OF assms(1) _ _ assms(5,3) _ assms(6)] by (simp add: visible_def after_def)
qed

theorem read_complete_witness:
  "read_log mem_redis plain_codec (Some (archive_ops plain_codec)) example_run None example_log =
     Inr [to_logged ((0, 1), example_end)]"
  using read_complete [OF mem_redis_laws _ _ example_log_reach example_log_parts(2), of None None]
  by (simp add: example_run_def reads_key_def visible_def bounded_def)

text \<open>C6. A follower with a valid cursor gets everything and then stops. This is for a Redis that does what it documents, events that are
  read back as they were written, and a run that says nothing after its terminal event, whose archive
  answers and has lost no write whenever the follower looks, whose history only grows and whose stream keeps what was
  appended since the follower's last look; if the run had ended when the follower was opened (\<open>terminal\<close>), it had said something. Then \<open>follow\<close>
  yields exactly the events after the cursor, each once and in order, across the switch from history to new
  events; and it returns as soon as it has yielded the terminal event or has seen that the run ended before the
  cursor, and not earlier.\<close>

theorem follow_complete:
  assumes "stream_laws redis entries clock" "codec_ok cd" "UUID run = Some u"
    and "view entries clock cd (archive_ok cd) db_up (archived cd) run u J w"
    and "rounds_show entries clock cd (archive_ok cd) db_up (archived cd) run u J rounds Js"
    and "history (final_view J Js)" "closed (final_view J Js)" "reads_key cur low" "terminal \<longrightarrow> J \<noteq> []"
  shows "\<exists>cursor. follow redis cd (Some (archive_ops cd)) run cur terminal w rounds =
    (map to_logged (after low (final_view J Js)), cursor,
     if finished (after low (final_view J Js)) \<or> (\<exists>(J, J') \<in> set Js. finished J) then Some (Inr ()) else None)"
  using archive.follow_history [OF assms(1-8)] assms(9) by blast

text \<open>A run that has said one thing when the follower reads the history, and ends while the follower waits: the first round finds
  nothing new, the second one the end.\<close>

definition example_begin :: Event where
  "example_begin = \<lparr>ts = 1, ev_run_id = example_run, path = [], data = RunStartedData (uuid_hex 7) False\<rparr>"

definition mem_append :: "Event \<Rightarrow> Event mem \<times> Event archive_db \<Rightarrow> Event mem \<times> Event archive_db" where
  "mem_append ev w = snd (append_event mem_redis plain_codec (Some (archive_ops plain_codec)) 10 60 ev w)"

definition begun_log :: "Event mem \<times> Event archive_db" where
  "begun_log = mem_append example_begin ((\<lambda>_. [], \<lambda>_. (0, 0)), \<lparr>run_events = [], db_up = True\<rparr>)"

definition ended_log :: "Event mem \<times> Event archive_db" where
  "ended_log = mem_append example_end begun_log"

lemma mem_append_stream:
  assumes "ev_run_id ev = example_run" "length (fst (fst w) (stream_key example_run)) < 10"
  shows "snd (fst (mem_append ev w)) (stream_key example_run) =
      (fst (snd (fst w) (stream_key example_run)), Suc (snd (snd (fst w) (stream_key example_run))))"
    "fst (fst (mem_append ev w)) (stream_key example_run) = fst (fst w) (stream_key example_run) @
      [((fst (snd (fst w) (stream_key example_run)), Suc (snd (snd (fst w) (stream_key example_run)))), [(PAYLOAD_FIELD, ev)])]"
  using assms
  by (cases w; simp add: mem_append_def append_event_def mem_redis_def archive_ops_def Let_def plain_codec_def last_n_def
      split: prod.splits sum.splits)+

lemma mem_append_reach:
  assumes "log_reach mem_redis fst snd plain_codec 10 60 example_run 5 J {} (fst w) (snd w)" "ev_run_id ev = example_run"
    "length (fst (fst w) (stream_key example_run)) < 10" "db_up (snd w)"
    "snd (fst w) (stream_key example_run) = (m, n)" "packable (m, Suc n)"
  shows "log_reach mem_redis fst snd plain_codec 10 60 example_run 5 (J @ [((m, Suc n), ev)]) {} (fst (mem_append ev w)) (snd (mem_append ev w))"
    "db_up (snd (mem_append ev w))"
proof -
  let ?x = "append_event mem_redis plain_codec (Some (archive_ops plain_codec)) 10 60 ev (fst w, snd w)"
  have key: "(m, Suc n) = snd (fst (mem_append ev w)) (stream_key example_run)"
    using mem_append_stream(1) [OF assms(2,3)] assms(5) by simp
  have app: "?x = (fst ?x, fst (mem_append ev w), snd (mem_append ev w))" by (simp add: mem_append_def)
  from log_reach.appended [OF assms(1,2) app key assms(6)] assms(4)
  show "log_reach mem_redis fst snd plain_codec 10 60 example_run 5 (J @ [((m, Suc n), ev)]) {} (fst (mem_append ev w)) (snd (mem_append ev w))"
    by simp
  have "archive_ok plain_codec (snd w)" "log_shows fst snd plain_codec (archived plain_codec) example_run 5 J {} (fst w) (snd w)"
    using log_reach_shows [OF mem_redis_laws _ _ assms(1)] by (simp_all add: example_run_def)
  from archive.append_history [OF mem_redis_laws _ this(1) _ this(2) assms(2) app key assms(6)] assms(4)
  show "db_up (snd (mem_append ev w))" by (simp add: example_run_def)
qed

lemma example_follow_logs:
  "log_reach mem_redis fst snd plain_codec 10 60 example_run 5 [((0, 1), example_begin)] {} (fst begun_log) (snd begun_log)"
  "log_reach mem_redis fst snd plain_codec 10 60 example_run 5 [((0, 1), example_begin), ((0, 2), example_end)] {}
     (fst ended_log) (snd ended_log)"
  "db_up (snd begun_log)" "db_up (snd ended_log)"
  "in_stream fst example_run (fst ended_log) = {(0, 1), (0, 2)}"
  "in_stream fst example_run (fst begun_log) = {(0, 1)}"
proof -
  let ?w = "((\<lambda>_. [], \<lambda>_. (0, 0)), \<lparr>run_events = [], db_up = True\<rparr>) :: Event mem \<times> Event archive_db"
  have ids: "ev_run_id example_begin = example_run" "ev_run_id example_end = example_run"
    by (simp_all add: example_begin_def example_end_def)
  have start: "log_reach mem_redis fst snd plain_codec 10 60 example_run 5 [] {} (fst ?w) (snd ?w)"
    by (rule log_reach.start) (simp_all add: archive_ok_def plain_codec_ok archived_def rows_of_def)
  have stream: "snd (fst begun_log) (stream_key example_run) = (0, 1)"
    "fst (fst begun_log) (stream_key example_run) = [((0, 1), [(PAYLOAD_FIELD, example_begin)])]"
    using mem_append_stream [OF ids(1), of ?w] by (simp_all add: begun_log_def)
  show one: "log_reach mem_redis fst snd plain_codec 10 60 example_run 5 [((0, 1), example_begin)] {} (fst begun_log) (snd begun_log)"
    and up: "db_up (snd begun_log)"
    using mem_append_reach [OF start ids(1), of 0 0] by (simp_all add: begun_log_def packable_def)
  show "log_reach mem_redis fst snd plain_codec 10 60 example_run 5 [((0, 1), example_begin), ((0, 2), example_end)] {}
     (fst ended_log) (snd ended_log)" "db_up (snd ended_log)"
    using mem_append_reach [OF one ids(2) _ up stream(1)] stream(2)
    by (simp_all add: ended_log_def packable_def del: One_nat_def)
  show "in_stream fst example_run (fst begun_log) = {(0, 1)}" by (simp add: in_stream_def stream)
  show "in_stream fst example_run (fst ended_log) = {(0, 1), (0, 2)}"
    using mem_append_stream(2) [OF ids(2), of begun_log] stream
    by (auto simp: in_stream_def ended_log_def simp del: One_nat_def)
qed

theorem follow_complete_witness:
  "\<exists>cursor. follow mem_redis plain_codec (Some (archive_ops plain_codec)) example_run None False begun_log
       [(begun_log, begun_log), (begun_log, ended_log)] =
     ([to_logged ((0, 1), example_begin), to_logged ((0, 2), example_end)], cursor, Some (Inr ()))"
proof -
  let ?J = "[((0, 1), example_begin)]" and ?K = "[((0, 1), example_begin), ((0, 2), example_end)]"
  have u: "UUID example_run = Some 5" by (simp add: example_run_def)
  have v: "view fst snd plain_codec (archive_ok plain_codec) db_up (archived plain_codec) example_run 5 ?J begun_log"
    "view fst snd plain_codec (archive_ok plain_codec) db_up (archived plain_codec) example_run 5 ?K ended_log"
    using log_reach_shows [OF mem_redis_laws _ u example_follow_logs(1)]
      log_reach_shows [OF mem_redis_laws _ u example_follow_logs(2)] example_follow_logs(3,4) by (simp_all add: view_def)
  have rounds: "rounds_show fst snd plain_codec (archive_ok plain_codec) db_up (archived plain_codec) example_run 5 ?J
      [(begun_log, begun_log), (begun_log, ended_log)] [(?J, ?J), (?J, ?K)]"
    using v example_follow_logs(5,6) by simp
  have ends: "is_terminal_event example_end" "\<not> is_terminal_event example_begin"
    by (simp_all add: is_terminal_event_def example_end_def example_begin_def event_type_def TERMINAL_EVENT_TYPE_def)
  have final: "history (final_view ?J [(?J, ?J), (?J, ?K)])" "closed (final_view ?J [(?J, ?J), (?J, ?K)])"
    using ends by (simp_all add: history_def closed_def packable_def)
  from follow_complete [OF mem_redis_laws plain_codec_ok u v(1) rounds final, of None None False] ends show ?thesis
    by (simp add: reads_key_def after_def bounded_def finished_def)
qed

end
