(* ===== verification/Task_Queue.thy ===== *)
theory Task_Queue
  imports Run_Task Event_Id "HOL-Library.Sublist"
begin

text \<open>
  The task queue between the api and the worker (\<open>TaskQueue\<close> of \<open>app/task/queue.py\<close>): a Redis stream with a consumer
  group. Redis is a parameter, the record \<open>group_api\<close> of the commands the code issues, and what Redis
  documents of them is the hypothesis \<open>group_laws\<close>, stated over the view \<open>group_view\<close> of a Redis state. An error reply
  is \<open>Inl\<close> of its text. The scan of \<open>_claim\<close> has fuel; \<open>claim_returns\<close> bounds it by the number of pending messages.
\<close>

section \<open>Redis consumer groups\<close>

type_synonym 't fields = "(string \<times> 't) list"

record ('r, 't) group_api =
  xgroup_create :: "'r \<Rightarrow> (string + unit) \<times> 'r"
  xadd_task :: "'t fields \<Rightarrow> nat \<Rightarrow> 'r \<Rightarrow> string \<times> 'r"
  xautoclaim_one :: "string \<Rightarrow> int \<Rightarrow> string \<Rightarrow> 'r \<Rightarrow> (string + string \<times> (string \<times> 't fields) list) \<times> 'r"
  xreadgroup_one :: "string \<Rightarrow> 'r \<Rightarrow> (string + (string \<times> 't fields) list) \<times> 'r"
  xack :: "string \<Rightarrow> 'r \<Rightarrow> 'r"
  xclaim :: "string \<Rightarrow> string \<Rightarrow> 'r \<Rightarrow> 'r"
  xpending :: "'r \<Rightarrow> string + nat"
  xpending_range :: "nat \<Rightarrow> 'r \<Rightarrow> string list"
  xinfo_groups :: "'r \<Rightarrow> string + (string \<times> string) list"
  xrange_one :: "string \<Rightarrow> 'r \<Rightarrow> (string \<times> 't fields) list"
  xrange_after :: "string \<Rightarrow> nat \<Rightarrow> 'r \<Rightarrow> (string \<times> 't fields) list"

text \<open>The JSON text of a task.\<close>

record 't task_codec =
  dump_task :: "RunTask \<Rightarrow> 't"
  load_task :: "'t \<Rightarrow> RunTask result"

section \<open>The queue\<close>

definition TASK_PAYLOAD :: string where "TASK_PAYLOAD = ''data''"
definition CONSUMER_GROUP :: string where "CONSUMER_GROUP = ''zuel:worker''"
definition CLAIM_START :: string where "CLAIM_START = ''0-0''"
definition GROUP_EXISTS :: string where "GROUP_EXISTS = ''BUSYGROUP''"
definition GROUP_MISSING :: string where "GROUP_MISSING = ''NOGROUP''"
definition ABSENT_ERROR :: "string list" where "ABSENT_ERROR = [''NOGROUP'', ''no such key'']"

record TaskQueue =
  consumer :: string
  max_length :: nat
  claim_idle :: int
  held :: "string set"

text \<open>\<open>a in b\<close> and \<open>b.startswith(a)\<close> for strings.\<close>

definition substring :: "string \<Rightarrow> string \<Rightarrow> bool" where
  "substring a b \<longleftrightarrow> a \<in> set (sublists b)"

definition decode_task :: "'t task_codec \<Rightarrow> string \<times> 't fields \<Rightarrow> Delivery result" where
  "decode_task cd entry =
     (case entry of (message_id, field) \<Rightarrow>
        case map_of field TASK_PAYLOAD of
          None \<Rightarrow> Inl KeyError
        | Some text \<Rightarrow> result_bind (load_task cd text) (\<lambda>t. Inr \<lparr>delivery_id = message_id, delivery_task = t\<rparr>))"

definition ensure_group :: "('r, 't) group_api \<Rightarrow> 'r \<Rightarrow> unit result \<times> 'r" where
  "ensure_group api r =
     (case xgroup_create api r of
        (Inr _, r) \<Rightarrow> (Inr (), r)
      | (Inl msg, r) \<Rightarrow> (if \<not> substring GROUP_EXISTS msg then Inl (OtherError msg) else Inr (), r))"

definition publish :: "('r, 't) group_api \<Rightarrow> 't task_codec \<Rightarrow> TaskQueue \<Rightarrow> RunTask \<Rightarrow> 'r \<Rightarrow> string \<times> 'r" where
  "publish api cd q task r = xadd_task api [(TASK_PAYLOAD, dump_task cd task)] (max_length q) r"

text \<open>Taking hold of a message and decoding it; the decoding may raise, with the message held.\<close>

definition hold ::
    "'t task_codec \<Rightarrow> string \<times> 't fields \<Rightarrow> TaskQueue \<Rightarrow> Delivery option result \<times> TaskQueue" where
  "hold cd entry q =
     (result_bind (decode_task cd entry) (\<lambda>d. Inr (Some d)), q\<lparr>held := insert (fst entry) (held q)\<rparr>)"

fun claim_loop ::
    "('r, 't) group_api \<Rightarrow> 't task_codec \<Rightarrow> nat \<Rightarrow> string \<Rightarrow> TaskQueue \<Rightarrow> 'r \<Rightarrow>
     (Delivery option result \<times> TaskQueue \<times> 'r) option" where
  "claim_loop api cd 0 cursor q r = None"
| "claim_loop api cd (Suc fuel) cursor q r =
     (case xautoclaim_one api (consumer q) (claim_idle q) cursor r of
        (Inl msg, r) \<Rightarrow> Some (Inl (OtherError msg), q, r)
      | (Inr (following, []), r) \<Rightarrow> Some (Inr None, q, r)
      | (Inr (following, entry # _), r) \<Rightarrow>
          if fst entry \<notin> held q then (case hold cd entry q of (res, q) \<Rightarrow> Some (res, q, r))
          else if following = CLAIM_START then Some (Inr None, q, r)
          else claim_loop api cd fuel following q r)"

definition claim ::
    "('r, 't) group_api \<Rightarrow> 't task_codec \<Rightarrow> nat \<Rightarrow> TaskQueue \<Rightarrow> 'r \<Rightarrow>
     (Delivery option result \<times> TaskQueue \<times> 'r) option" where
  "claim api cd fuel q r = claim_loop api cd fuel CLAIM_START q r"

definition reserve ::
    "('r, 't) group_api \<Rightarrow> 't task_codec \<Rightarrow> nat \<Rightarrow> TaskQueue \<Rightarrow> 'r \<Rightarrow>
     (Delivery option result \<times> TaskQueue \<times> 'r) option" where
  "reserve api cd fuel q r =
     (case claim api cd fuel q r of
        None \<Rightarrow> None
      | Some (Inl e, q, r) \<Rightarrow> Some (Inl e, q, r)
      | Some (Inr (Some d), q, r) \<Rightarrow> Some (Inr (Some d), q, r)
      | Some (Inr None, q, r) \<Rightarrow>
          (case xreadgroup_one api (consumer q) r of
             (Inl msg, r) \<Rightarrow> Some (Inl (OtherError msg), q, r)
           | (Inr [], r) \<Rightarrow> Some (Inr None, q, r)
           | (Inr (entry # _), r) \<Rightarrow> (case hold cd entry q of (res, q) \<Rightarrow> Some (res, q, r))))"

definition ack :: "('r, 't) group_api \<Rightarrow> string \<Rightarrow> TaskQueue \<Rightarrow> 'r \<Rightarrow> TaskQueue \<times> 'r" where
  "ack api message_id q r = (q\<lparr>held := held q - {message_id}\<rparr>, xack api message_id r)"

definition touch :: "('r, 't) group_api \<Rightarrow> string \<Rightarrow> TaskQueue \<Rightarrow> 'r \<Rightarrow> 'r" where
  "touch api message_id q r = xclaim api (consumer q) message_id r"

definition pending_count :: "('r, 't) group_api \<Rightarrow> 'r \<Rightarrow> nat result" where
  "pending_count api r =
     (case xpending api r of
        Inr n \<Rightarrow> Inr n
      | Inl msg \<Rightarrow> if \<not> prefix GROUP_MISSING msg then Inl (OtherError msg) else Inr 0)"

text \<open>The readers issue several commands: the \<open>i\<close>-th sees the state \<open>rs i\<close>.\<close>

definition group_info :: "('r, 't) group_api \<Rightarrow> 'r \<Rightarrow> string + string option" where
  "group_info api r = (case xinfo_groups api r of Inl msg \<Rightarrow> Inl msg | Inr gs \<Rightarrow> Inr (map_of gs CONSUMER_GROUP))"

definition entry_run_ids :: "'t task_codec \<Rightarrow> (string \<times> 't fields) list \<Rightarrow> string set result" where
  "entry_run_ids cd es =
     result_bind (result_list (map (decode_task cd) es)) (\<lambda>ds. Inr (set (map (t_run_id \<circ> delivery_task) ds)))"

fun holding_loop :: "('r, 't) group_api \<Rightarrow> 't task_codec \<Rightarrow> string list \<Rightarrow> (nat \<Rightarrow> 'r) \<Rightarrow> nat \<Rightarrow> string set \<Rightarrow>
    string set result \<times> nat" where
  "holding_loop api cd [] rs i found = (Inr found, i)"
| "holding_loop api cd (message_id # rest) rs i found =
     (case entry_run_ids cd (xrange_one api message_id (rs i)) of
        Inl e \<Rightarrow> (Inl e, Suc i)
      | Inr ids \<Rightarrow> holding_loop api cd rest rs (Suc i) (found \<union> ids))"

definition holding_run_id ::
    "('r, 't) group_api \<Rightarrow> 't task_codec \<Rightarrow> TaskQueue \<Rightarrow> (nat \<Rightarrow> 'r) \<Rightarrow> nat \<Rightarrow> string set result \<times> nat" where
  "holding_run_id api cd q rs i = holding_loop api cd (xpending_range api (max_length q) (rs i)) rs (Suc i) {}"

definition waiting_run_id ::
    "('r, 't) group_api \<Rightarrow> 't task_codec \<Rightarrow> TaskQueue \<Rightarrow> string \<Rightarrow> 'r \<Rightarrow> string set result" where
  "waiting_run_id api cd q last_delivered r = entry_run_ids cd (xrange_after api last_delivered (max_length q) r)"

definition in_flight ::
    "('r, 't) group_api \<Rightarrow> 't task_codec \<Rightarrow> TaskQueue \<Rightarrow> (nat \<Rightarrow> 'r) \<Rightarrow> string set result" where
  "in_flight api cd q rs =
     (case group_info api (rs 0) of
        Inl msg \<Rightarrow> if \<not> (\<exists>p \<in> set ABSENT_ERROR. prefix p msg) then Inl (OtherError msg) else Inr {}
      | Inr None \<Rightarrow> Inr {}
      | Inr (Some last_delivered) \<Rightarrow>
          (case holding_run_id api cd q rs 1 of
             (Inl e, _) \<Rightarrow> Inl e
           | (Inr a, i) \<Rightarrow> result_bind (waiting_run_id api cd q last_delivered (rs i)) (\<lambda>b. Inr (a \<union> b))))"

section \<open>What Redis documents\<close>

text \<open>The stream with its entries in id order, the last id delivered to the group, and the pending entries
  (id, consumer, time of the last delivery) in id order.\<close>

type_synonym message_key = "nat \<times> nat"

record 't group_view =
  g_exists :: bool
  g_stream :: "(message_key \<times> 't fields) list"
  g_last :: message_key
  g_pend :: "(message_key \<times> string \<times> int) list"
  g_now :: int

abbreviation show_key :: "message_key \<Rightarrow> string" where
  "show_key k \<equiv> event_id_of (fst k) (snd k)"

definition shown :: "message_key \<times> 't fields \<Rightarrow> string \<times> 't fields" where
  "shown e = (show_key (fst e), snd e)"

text \<open>A view in which no pending entry was trimmed from the stream.\<close>

definition view_ok :: "'t group_view \<Rightarrow> bool" where
  "view_ok v \<longleftrightarrow> sorted_wrt (<) (map fst (g_stream v)) \<and> sorted_wrt (<) (map fst (g_pend v)) \<and>
     (\<forall>k \<in> fst ` set (g_stream v). (0, 0) < k) \<and>
     fst ` set (g_pend v) \<subseteq> fst ` set (g_stream v) \<inter> {k. k \<le> g_last v}"

definition undelivered :: "'t group_view \<Rightarrow> (message_key \<times> 't fields) list" where
  "undelivered v = filter (\<lambda>e. g_last v < fst e) (g_stream v)"

text \<open>\<open>XAUTOCLAIM \<dots> COUNT 1\<close> looks at no more than ten pending entries.\<close>

fun scan :: "nat \<Rightarrow> ('p \<Rightarrow> bool) \<Rightarrow> 'p list \<Rightarrow> 'p option \<times> 'p list" where
  "scan 0 stale ps = (None, ps)"
| "scan (Suc n) stale [] = (None, [])"
| "scan (Suc n) stale (p # ps) = (if stale p then (Some p, ps) else scan n stale ps)"

definition redeliver :: "message_key \<Rightarrow> string \<Rightarrow> 't group_view \<Rightarrow> 't group_view" where
  "redeliver k c v = v\<lparr>g_pend := map (\<lambda>p. if fst p = k then (k, c, g_now v) else p) (g_pend v)\<rparr>"

definition claim_law :: "string \<Rightarrow> int \<Rightarrow> message_key \<Rightarrow> 't group_view \<Rightarrow> string \<Rightarrow> (string \<times> 't fields) list \<Rightarrow> 't group_view \<Rightarrow> bool" where
  "claim_law c idle k v following es v' \<longleftrightarrow>
     (\<exists>stale claimed rest.
        (\<forall>p. idle < g_now v - snd (snd p) \<longrightarrow> stale p) \<and> (\<forall>p. g_now v - snd (snd p) < idle \<longrightarrow> \<not> stale p) \<and>
        scan 10 stale (filter (\<lambda>p. k \<le> fst p) (g_pend v)) = (claimed, rest) \<and>
        following = (case rest of [] \<Rightarrow> CLAIM_START | p # _ \<Rightarrow> show_key (fst p)) \<and>
        (case claimed of
           None \<Rightarrow> es = [] \<and> v' = v
         | Some p \<Rightarrow> es = map shown (filter (\<lambda>e. fst e = fst p) (g_stream v)) \<and> v' = redeliver (fst p) c v))"

definition group_laws :: "('r, 't) group_api \<Rightarrow> ('r \<Rightarrow> 't group_view) \<Rightarrow> bool" where
  "group_laws api view \<longleftrightarrow>
     (\<forall>r. case xgroup_create api r of
        (Inr _, r') \<Rightarrow> \<not> g_exists (view r) \<and> view r' = (view r)\<lparr>g_exists := True, g_last := (0, 0), g_pend := []\<rparr>
      | (Inl msg, r') \<Rightarrow> g_exists (view r) \<and> prefix GROUP_EXISTS msg \<and> view r' = view r) \<and>
     (\<forall>r fs n i r'. xadd_task api fs n r = (i, r') \<longrightarrow>
        (\<exists>k d. i = show_key k \<and> (\<forall>k' \<in> fst ` set (g_stream (view r)) \<union> {(0, 0), g_last (view r)}. k' < k) \<and>
           (0 < d \<longrightarrow> n \<le> length (g_stream (view r)) + 1 - d) \<and>
           view r' = (view r)\<lparr>g_stream := drop d (g_stream (view r) @ [(k, fs)])\<rparr>)) \<and>
     (\<forall>r c idle k. g_exists (view r) \<longrightarrow> view_ok (view r) \<longrightarrow>
        (\<exists>following es r'. xautoclaim_one api c idle (show_key k) r = (Inr (following, es), r') \<and>
           claim_law c idle k (view r) following es (view r'))) \<and>
     (\<forall>r c. g_exists (view r) \<longrightarrow>
        (case undelivered (view r) of
           [] \<Rightarrow> (\<exists>r'. xreadgroup_one api c r = (Inr [], r') \<and> view r' = view r)
         | e # _ \<Rightarrow> (\<exists>r'. xreadgroup_one api c r = (Inr [shown e], r') \<and>
             view r' = (view r)\<lparr>g_last := fst e, g_pend := g_pend (view r) @ [(fst e, c, g_now (view r))]\<rparr>))) \<and>
     (\<forall>r k. view (xack api (show_key k) r) = (view r)\<lparr>g_pend := filter (\<lambda>p. fst p \<noteq> k) (g_pend (view r))\<rparr>) \<and>
     (\<forall>r c k. view (xclaim api c (show_key k) r) = redeliver k c (view r)) \<and>
     (\<forall>r. if g_exists (view r) then xpending api r = Inr (length (g_pend (view r)))
          else \<exists>msg. xpending api r = Inl msg \<and> prefix GROUP_MISSING msg) \<and>
     (\<forall>r n. g_exists (view r) \<longrightarrow> xpending_range api n r = map (show_key \<circ> fst) (take n (g_pend (view r)))) \<and>
     (\<forall>r. case xinfo_groups api r of
        Inl msg \<Rightarrow> \<not> g_exists (view r) \<and> (\<exists>p \<in> set ABSENT_ERROR. prefix p msg)
      | Inr gs \<Rightarrow> map_of gs CONSUMER_GROUP = (if g_exists (view r) then Some (show_key (g_last (view r))) else None)) \<and>
     (\<forall>r k. xrange_one api (show_key k) r = map shown (take 1 (filter (\<lambda>e. k \<le> fst e) (g_stream (view r))))) \<and>
     (\<forall>r k n. xrange_after api (show_key k) n r = map shown (take n (filter (\<lambda>e. k < fst e) (g_stream (view r)))))"

lemma law_publish:
  assumes "group_laws api view"
  shows "xadd_task api fs n r = (i, r') \<Longrightarrow>
      (\<exists>k d. i = show_key k \<and> (\<forall>k' \<in> fst ` set (g_stream (view r)) \<union> {(0, 0), g_last (view r)}. k' < k) \<and>
         (0 < d \<longrightarrow> n \<le> length (g_stream (view r)) + 1 - d) \<and>
         view r' = (view r)\<lparr>g_stream := drop d (g_stream (view r) @ [(k, fs)])\<rparr>)"
  using assms unfolding group_laws_def by presburger

lemma law_claim:
  assumes "group_laws api view"
  shows "g_exists (view r) \<Longrightarrow> view_ok (view r) \<Longrightarrow>
      \<exists>following es r'. xautoclaim_one api c idle (show_key k) r = (Inr (following, es), r') \<and>
         claim_law c idle k (view r) following es (view r')"
  using assms unfolding group_laws_def by presburger

lemma law_read:
  assumes "group_laws api view"
  shows "g_exists (view r) \<Longrightarrow>
      (case undelivered (view r) of
         [] \<Rightarrow> (\<exists>r'. xreadgroup_one api c r = (Inr [], r') \<and> view r' = view r)
       | e # _ \<Rightarrow> (\<exists>r'. xreadgroup_one api c r = (Inr [shown e], r') \<and>
           view r' = (view r)\<lparr>g_last := fst e, g_pend := g_pend (view r) @ [(fst e, c, g_now (view r))]\<rparr>))"
  using assms unfolding group_laws_def by presburger

lemma law_ack:
  assumes "group_laws api view"
  shows "view (xack api (show_key k) r) = (view r)\<lparr>g_pend := filter (\<lambda>p. fst p \<noteq> k) (g_pend (view r))\<rparr>"
  using assms unfolding group_laws_def by presburger

lemma law_touch:
  assumes "group_laws api view"
  shows "view (xclaim api c (show_key k) r) = redeliver k c (view r)"
  using assms unfolding group_laws_def by presburger

lemma law_pending_range:
  assumes "group_laws api view"
  shows "g_exists (view r) \<Longrightarrow> xpending_range api n r = map (show_key \<circ> fst) (take n (g_pend (view r)))"
  using assms unfolding group_laws_def by presburger

lemma law_info:
  assumes "group_laws api view"
  shows "case xinfo_groups api r of
        Inl msg \<Rightarrow> \<not> g_exists (view r) \<and> (\<exists>p \<in> set ABSENT_ERROR. prefix p msg)
      | Inr gs \<Rightarrow> map_of gs CONSUMER_GROUP = (if g_exists (view r) then Some (show_key (g_last (view r))) else None)"
  using assms unfolding group_laws_def by presburger

lemma law_range_one:
  assumes "group_laws api view"
  shows "xrange_one api (show_key k) r = map shown (take 1 (filter (\<lambda>e. k \<le> fst e) (g_stream (view r))))"
  using assms unfolding group_laws_def by presburger

lemma law_range_after:
  assumes "group_laws api view"
  shows "xrange_after api (show_key k) n r = map shown (take n (filter (\<lambda>e. k < fst e) (g_stream (view r))))"
  using assms unfolding group_laws_def by presburger

lemma law_create:
  assumes "group_laws api view"
  shows "case xgroup_create api r of
        (Inr _, r') \<Rightarrow> \<not> g_exists (view r) \<and> view r' = (view r)\<lparr>g_exists := True, g_last := (0, 0), g_pend := []\<rparr>
      | (Inl msg, r') \<Rightarrow> g_exists (view r) \<and> prefix GROUP_EXISTS msg \<and> view r' = view r"
  using assms unfolding group_laws_def by presburger

lemma law_xpending:
  assumes "group_laws api view"
  shows "if g_exists (view r) then xpending api r = Inr (length (g_pend (view r)))
          else \<exists>msg. xpending api r = Inl msg \<and> prefix GROUP_MISSING msg"
  using assms unfolding group_laws_def by presburger

section \<open>Lemmas\<close>

lemma show_key_inj [simp]: "show_key k = show_key k' \<longleftrightarrow> k = k'"
proof
  assume "show_key k = show_key k'"
  then have "str_partition ID_SEPARATOR (show_key k) = str_partition ID_SEPARATOR (show_key k')" by simp
  then have "dec_string (fst k) = dec_string (fst k')" "dec_string (snd k) = dec_string (snd k')"
    by (simp_all add: event_id_of_def ID_SEPARATOR_def str_partition_append)
  then show "k = k'" by (metis dec_nat_dec_string prod.expand)
qed simp

lemma inj_show_key: "inj show_key"
  by (rule injI) (simp only: show_key_inj)

lemma CLAIM_START_key: "CLAIM_START = show_key (0, 0)"
  by code_simp

lemma scan_Some:
  "scan n f ps = (Some p, rest) \<Longrightarrow> \<exists>pre. ps = pre @ p # rest \<and> f p \<and> (\<forall>x \<in> set pre. \<not> f x) \<and> length pre < n"
proof (induction n f ps rule: scan.induct)
  case (3 n f x ps)
  then show ?case by (cases "f x") (force intro: exI [of _ "x # pre" for pre])+
qed auto

lemma scan_None:
  "scan n f ps = (None, rest) \<Longrightarrow> \<exists>pre. ps = pre @ rest \<and> (\<forall>x \<in> set pre. \<not> f x) \<and> (rest = [] \<or> length pre = n)"
proof (induction n f ps rule: scan.induct)
  case (3 n f x ps)
  then show ?case by (cases "f x") (force intro: exI [of _ "x # pre" for pre])+
qed auto

text \<open>What a claim changes: the consumer and delivery time of pending entries, nothing else.\<close>

definition same_group :: "'t group_view \<Rightarrow> 't group_view \<Rightarrow> bool" where
  "same_group v v' \<longleftrightarrow> v' = v\<lparr>g_pend := g_pend v'\<rparr> \<and> map fst (g_pend v') = map fst (g_pend v)"

lemma same_group_refl [simp]: "same_group v v"
  by (simp add: same_group_def)

lemma same_group_trans: "same_group a b \<Longrightarrow> same_group b c \<Longrightarrow> same_group a c"
  unfolding same_group_def by (metis group_view.surjective group_view.update_convs(4))

lemma same_group_redeliver [simp]: "same_group v (redeliver k c v)"
  by (auto simp: same_group_def redeliver_def)

lemma same_group_parts:
  assumes "same_group v v'"
  shows "g_stream v' = g_stream v" "g_last v' = g_last v" "g_exists v' = g_exists v" "g_now v' = g_now v"
    "map fst (g_pend v') = map fst (g_pend v)" "fst ` set (g_pend v') = fst ` set (g_pend v)"
    "undelivered v' = undelivered v" "length (g_pend v') = length (g_pend v)"
proof -
  show m: "map fst (g_pend v') = map fst (g_pend v)" using assms by (simp add: same_group_def)
  show "fst ` set (g_pend v') = fst ` set (g_pend v)" by (metis m list.set_map)
  show "length (g_pend v') = length (g_pend v)" by (metis m length_map)
  obtain ps where "v' = v\<lparr>g_pend := ps\<rparr>" using assms by (auto simp: same_group_def)
  then show "g_stream v' = g_stream v" "g_last v' = g_last v" "g_exists v' = g_exists v" "g_now v' = g_now v"
    "undelivered v' = undelivered v"
    by (simp_all add: undelivered_def)
qed

lemma same_group_ok: "same_group v v' \<Longrightarrow> view_ok v' = view_ok v"
  by (simp add: view_ok_def same_group_parts)

lemma same_group_count:
  assumes "same_group v v'"
  shows "length (filter (\<lambda>p. k \<le> fst p) (g_pend v')) = length (filter (\<lambda>p. k \<le> fst p) (g_pend v))"
proof -
  have *: "length (filter (\<lambda>p. k \<le> fst p) ps) = length (filter (\<lambda>x. k \<le> x) (map fst ps))"
    for ps :: "(message_key \<times> string \<times> int) list" by (simp add: filter_map comp_def)
  show ?thesis using same_group_parts(5) [OF assms] by (simp add: *)
qed

lemma filter_fst_unique:
  "distinct (map fst xs) \<Longrightarrow> (k, v) \<in> set xs \<Longrightarrow> filter (\<lambda>e. fst e = k) xs = [(k, v)]"
proof (induction xs)
  case (Cons x xs)
  have none: "filter (\<lambda>e. fst e = k) xs = []" if "k \<notin> fst ` set xs"
    using that by (auto simp: filter_empty_conv)
  show ?case
  proof (cases "x = (k, v)")
    case True
    with Cons.prems(1) none show ?thesis by simp
  next
    case False
    with Cons.prems have "(k, v) \<in> set xs" "fst x \<noteq> k" by (auto simp: image_iff)
    with Cons show ?thesis by simp
  qed
qed simp

text \<open>One round of the scan: it finds nothing, and then every message it looked at is fresh and it looked at ten or at all;
  or it redelivers one message, and continues behind it.\<close>

definition stale_by :: "int \<Rightarrow> 't group_view \<Rightarrow> message_key \<times> string \<times> int \<Rightarrow> bool" where
  "stale_by idle v p \<longleftrightarrow> idle < g_now v - snd (snd p)"

lemma claim_round:
  assumes "claim_law c idle k v following es v'" "view_ok v"
  shows "(es = [] \<and> v' = v \<and>
      (\<forall>p \<in> set (take 10 (filter (\<lambda>p. k \<le> fst p) (g_pend v))). \<not> stale_by idle v p)) \<or>
    (\<exists>m fs. es = [shown (m, fs)] \<and> (m, fs) \<in> set (g_stream v) \<and> m \<in> fst ` set (g_pend v) \<and> k \<le> m \<and>
      v' = redeliver m c v \<and>
      (following = CLAIM_START \<or> (\<exists>k'. m < k' \<and> following = show_key k')))"
proof -
  obtain stale claimed rest where st: "\<forall>p. idle < g_now v - snd (snd p) \<longrightarrow> stale p"
    and sc: "scan 10 stale (filter (\<lambda>p. k \<le> fst p) (g_pend v)) = (claimed, rest)"
    and fol: "following = (case rest of [] \<Rightarrow> CLAIM_START | p # _ \<Rightarrow> show_key (fst p))"
    and res: "case claimed of None \<Rightarrow> es = [] \<and> v' = v
      | Some p \<Rightarrow> es = map shown (filter (\<lambda>e. fst e = fst p) (g_stream v)) \<and> v' = redeliver (fst p) c v"
    using assms(1) unfolding claim_law_def by blast
  show ?thesis
  proof (cases claimed)
    case None
    obtain pre where pre: "filter (\<lambda>p. k \<le> fst p) (g_pend v) = pre @ rest" "\<forall>x \<in> set pre. \<not> stale x"
        "rest = [] \<or> length pre = 10"
      using scan_None [of 10 stale _ rest] sc None by blast
    then have "set (take 10 (filter (\<lambda>p. k \<le> fst p) (g_pend v))) \<subseteq> set pre"
      by (auto dest: in_set_takeD)
    then have "\<not> stale_by idle v p" if "p \<in> set (take 10 (filter (\<lambda>p. k \<le> fst p) (g_pend v)))" for p
      using st pre(2) that unfolding stale_by_def by blast
    with None res show ?thesis by simp
  next
    case (Some p)
    obtain pre where pre: "filter (\<lambda>p. k \<le> fst p) (g_pend v) = pre @ p # rest"
      using scan_Some [of 10 stale _ p rest] sc Some by blast
    then have "p \<in> set (filter (\<lambda>p. k \<le> fst p) (g_pend v))" by simp
    then have p: "p \<in> set (g_pend v)" "k \<le> fst p" by simp_all
    have "sorted_wrt (<) (map fst (filter (\<lambda>p. k \<le> fst p) (g_pend v)))"
      using assms(2) sorted_wrt_filter [of "\<lambda>a b. fst a < fst b" "g_pend v"] by (simp add: view_ok_def sorted_wrt_map)
    then have later: "\<forall>x \<in> set rest. fst p < fst x" unfolding pre by (auto simp: sorted_wrt_append)
    obtain fs where fs: "(fst p, fs) \<in> set (g_stream v)" using assms(2) p(1) by (auto simp: view_ok_def)
    moreover have d: "distinct (map fst (g_stream v))"
      using assms(2) by (metis strict_sorted_iff view_ok_def)
    ultimately have "filter (\<lambda>e. fst e = fst p) (g_stream v) = [(fst p, fs)]"
      using filter_fst_unique [OF d] by auto
    moreover have "following = CLAIM_START \<or> (\<exists>k'. fst p < k' \<and> following = show_key k')"
      using fol later by (cases rest) (auto simp del: split_paired_Ex)
    ultimately show ?thesis
      using res Some fs p by (intro disjI2 exI [of _ "fst p"] exI [of _ fs]) simp
  qed
qed

text \<open>Every entry of the stream is a task.\<close>

definition tasks_ok :: "'t task_codec \<Rightarrow> 't group_view \<Rightarrow> bool" where
  "tasks_ok cd v \<longleftrightarrow> (\<forall>e \<in> set (g_stream v). \<exists>d. decode_task cd (shown e) = Inr d)"

definition task_of :: "'t task_codec \<Rightarrow> message_key \<times> 't fields \<Rightarrow> RunTask" where
  "task_of cd e = (case decode_task cd (shown e) of Inr d \<Rightarrow> delivery_task d)"

lemma decode_shown:
  "tasks_ok cd v \<Longrightarrow> e \<in> set (g_stream v) \<Longrightarrow>
    decode_task cd (shown e) = Inr \<lparr>delivery_id = show_key (fst e), delivery_task = task_of cd e\<rparr>"
  by (cases "map_of (snd e) TASK_PAYLOAD")
    (fastforce simp: tasks_ok_def task_of_def decode_task_def shown_def result_bind_Inr_iff)+

definition behind :: "message_key \<Rightarrow> 't group_view \<Rightarrow> nat" where
  "behind k v = length (filter (\<lambda>p. k \<le> fst p) (g_pend v))"

lemma behind_less:
  assumes "m \<in> fst ` set (g_pend v)" "k \<le> m" "m < k'"
  shows "behind k' v < behind k v"
proof -
  obtain p where p: "p \<in> set (g_pend v)" "fst p = m" using assms(1) by auto
  have "filter (\<lambda>p. k' \<le> fst p) (g_pend v) = filter (\<lambda>p. k' \<le> fst p) (filter (\<lambda>p. k \<le> fst p) (g_pend v))"
    using assms(2,3) by (auto intro!: filter_cong)
  moreover have "p \<in> set (filter (\<lambda>p. k \<le> fst p) (g_pend v))" "\<not> k' \<le> fst p" using p assms(2,3) by auto
  ultimately show ?thesis unfolding behind_def by (metis length_filter_less)
qed

text \<open>What a round of claiming returns: one message that was pending and not held, or nothing.\<close>

definition claimed_from :: "'t task_codec \<Rightarrow> TaskQueue \<Rightarrow> 't group_view \<Rightarrow> Delivery option \<Rightarrow> TaskQueue \<Rightarrow> 't group_view \<Rightarrow> bool" where
  "claimed_from cd q v res q' v' \<longleftrightarrow> same_group v v' \<and>
     (case res of
        None \<Rightarrow> q' = q
      | Some d \<Rightarrow> \<exists>e \<in> set (g_stream v). fst e \<in> fst ` set (g_pend v) \<and> show_key (fst e) \<notin> held q \<and>
          d = \<lparr>delivery_id = show_key (fst e), delivery_task = task_of cd e\<rparr> \<and>
          q' = q\<lparr>held := insert (show_key (fst e)) (held q)\<rparr> \<and> (fst e, consumer q, g_now v) \<in> set (g_pend v'))"

lemma claimed_from_trans:
  assumes "same_group v v1" "claimed_from cd q v1 res q' v'"
  shows "claimed_from cd q v res q' v'"
  using assms same_group_trans [OF assms(1)] same_group_parts [OF assms(1)]
  unfolding claimed_from_def by (auto split: option.splits)

lemma redelivered_entry: "k \<in> fst ` set (g_pend v) \<Longrightarrow> (k, c, g_now v) \<in> set (g_pend (redeliver k c v))"
  by (force simp: redeliver_def image_iff)

lemma claim_loop_spec:
  assumes laws: "group_laws api view"
  shows "g_exists (view r) \<Longrightarrow> view_ok (view r) \<Longrightarrow> tasks_ok cd (view r) \<Longrightarrow> behind k (view r) < fuel \<Longrightarrow>
    \<exists>res q' r'. claim_loop api cd fuel (show_key k) q r = Some (Inr res, q', r') \<and> claimed_from cd q (view r) res q' (view r')"
proof (induction fuel arbitrary: k r)
  case (Suc fuel)
  obtain following es r1 where call: "xautoclaim_one api (consumer q) (claim_idle q) (show_key k) r = (Inr (following, es), r1)"
    and law: "claim_law (consumer q) (claim_idle q) k (view r) following es (view r1)"
    using law_claim [OF laws Suc.prems(1,2)] by blast
  consider "es = []" "view r1 = view r"
    | m fs where "es = [shown (m, fs)]" "(m, fs) \<in> set (g_stream (view r))" "m \<in> fst ` set (g_pend (view r))" "k \<le> m"
      "view r1 = redeliver m (consumer q) (view r)" "following = CLAIM_START \<or> (\<exists>k'. m < k' \<and> following = show_key k')"
    using claim_round [OF law Suc.prems(2)] by blast
  then show ?case
  proof cases
    case 1
    then show ?thesis using call by (simp add: claimed_from_def)
  next
    case (2 m fs)
    note es = 2(1) and st = 2(2) and m = 2(3,4) and v1 = 2(5) and fol = 2(6)
    have same: "same_group (view r) (view r1)" by (simp add: v1)
    consider "show_key m \<notin> held q" | "show_key m \<in> held q" "following = CLAIM_START"
      | k' where "show_key m \<in> held q" "following \<noteq> CLAIM_START" "m < k'" "following = show_key k'"
      using fol by blast
    then show ?thesis
    proof cases
      case 1
      have "claimed_from cd q (view r) (Some \<lparr>delivery_id = show_key m, delivery_task = task_of cd (m, fs)\<rparr>)
          (q\<lparr>held := insert (show_key m) (held q)\<rparr>) (view r1)"
        using same st m(1) 1 redelivered_entry [OF m(1), of "consumer q"]
        unfolding claimed_from_def v1 option.case by (intro conjI bexI [of _ "(m, fs)"]) simp_all
      then show ?thesis
        using call es 1 decode_shown [OF Suc.prems(3) st] by (simp add: hold_def shown_def)
    next
      case 2
      then show ?thesis using call es same by (simp add: shown_def claimed_from_def)
    next
      case 3
      have "behind k' (view r1) < fuel"
        using behind_less [OF m \<open>m < k'\<close>] Suc.prems(4) same_group_count [OF same] by (simp add: behind_def)
      from Suc.IH [OF _ _ _ this] same_group_parts [OF same] same_group_ok [OF same] Suc.prems
      obtain res q' r' where "claim_loop api cd fuel (show_key k') q r1 = Some (Inr res, q', r')"
          "claimed_from cd q (view r1) res q' (view r')"
        by (auto simp: tasks_ok_def)
      then show ?thesis
        using call es 3 claimed_from_trans [OF same] by (auto simp: shown_def)
    qed
  qed
qed simp

text \<open>The messages that are still to be done: pending, or not delivered yet.\<close>

definition live :: "'t group_view \<Rightarrow> message_key set" where
  "live v = fst ` set (g_pend v) \<union> fst ` set (undelivered v)"

text \<open>What the process holds was delivered.\<close>

definition held_ok :: "TaskQueue \<Rightarrow> 't group_view \<Rightarrow> bool" where
  "held_ok q v \<longleftrightarrow> held q \<subseteq> show_key ` {k. k \<le> g_last v}"

definition reserved_from :: "'t task_codec \<Rightarrow> TaskQueue \<Rightarrow> 't group_view \<Rightarrow> Delivery option \<Rightarrow> TaskQueue \<Rightarrow> 't group_view \<Rightarrow> bool" where
  "reserved_from cd q v res q' v' \<longleftrightarrow>
     view_ok v' \<and> held_ok q' v' \<and> live v' = live v \<and> g_stream v' = g_stream v \<and> g_exists v' \<and>
     fst ` set (g_pend v) \<subseteq> fst ` set (g_pend v') \<and>
     (case res of
        None \<Rightarrow> q' = q \<and> undelivered v = []
      | Some d \<Rightarrow> \<exists>e \<in> set (g_stream v). fst e \<in> live v \<and>
          d = \<lparr>delivery_id = show_key (fst e), delivery_task = task_of cd e\<rparr> \<and> delivery_id d \<notin> held q \<and>
          q' = q\<lparr>held := insert (delivery_id d) (held q)\<rparr> \<and> (fst e, consumer q, g_now v) \<in> set (g_pend v'))"

lemma held_ok_fresh:
  assumes "held_ok q v" "g_last v < k"
  shows "show_key k \<notin> held q"
proof
  assume "show_key k \<in> held q"
  with assms(1) obtain k' where "k' \<le> g_last v" "show_key k = show_key k'" unfolding held_ok_def by blast
  with assms(2) show False by simp
qed

lemma held_ok_insert:
  assumes "held_ok q v" "g_last v \<le> g_last v'" "k \<le> g_last v'"
  shows "held_ok (q\<lparr>held := insert (show_key k) (held q)\<rparr>) v'"
proof -
  have "{k. k \<le> g_last v} \<subseteq> {k. k \<le> g_last v'}" using assms(2) by (intro Collect_mono impI) (erule order_trans)
  from subset_trans [OF assms(1) [unfolded held_ok_def] image_mono [OF this]]
  show ?thesis using assms(3) unfolding held_ok_def by simp
qed

lemma live_same: "same_group v v' \<Longrightarrow> live v' = live v"
  by (simp add: live_def same_group_parts)

lemma claimed_reserved:
  assumes "claimed_from cd q v (Some d) q' v'" "view_ok v" "held_ok q v" "g_exists v"
  shows "reserved_from cd q v (Some d) q' v'"
proof -
  from assms(1) obtain e where same: "same_group v v'" and e: "e \<in> set (g_stream v)" "fst e \<in> fst ` set (g_pend v)"
      "show_key (fst e) \<notin> held q" "d = \<lparr>delivery_id = show_key (fst e), delivery_task = task_of cd e\<rparr>"
      "q' = q\<lparr>held := insert (show_key (fst e)) (held q)\<rparr>" "(fst e, consumer q, g_now v) \<in> set (g_pend v')"
    by (auto simp: claimed_from_def simp del: split_paired_Ex)
  have "fst e \<le> g_last v" using e(2) assms(2) by (auto simp: view_ok_def)
  with assms same e show ?thesis
    unfolding reserved_from_def option.case
    by (intro conjI bexI [of _ e]) (auto simp: live_same same_group_ok same_group_parts held_ok_def live_def
        intro!: imageI)
qed

lemma sorted_filter_hd:
  "sorted_wrt (<) (map fst xs) \<Longrightarrow> filter P xs = e # es \<Longrightarrow> x \<in> set es \<Longrightarrow> (fst e :: 'k :: linorder) < fst x"
  using sorted_wrt_filter [of "\<lambda>a b. fst a < fst b" xs P] by (auto simp: sorted_wrt_map)

lemma read_reserved:
  assumes v: "view_ok v" "held_ok q v" "g_exists v" and und: "undelivered v = e # es"
    and v': "v' = v\<lparr>g_last := fst e, g_pend := g_pend v @ [(fst e, consumer q, g_now v)]\<rparr>"
  shows "reserved_from cd q v (Some \<lparr>delivery_id = show_key (fst e), delivery_task = task_of cd e\<rparr>)
    (q\<lparr>held := insert (show_key (fst e)) (held q)\<rparr>) v'"
proof -
  have "e \<in> set (undelivered v)" using und by simp
  then have e: "e \<in> set (g_stream v)" "g_last v < fst e" by (auto simp: undelivered_def)
  have pend: "\<forall>p \<in> set (g_pend v). fst p < fst e" using v(1) e(2) by (force simp: view_ok_def)
  have later: "\<forall>x \<in> set es. fst e < fst x"
    using sorted_filter_hd [of "g_stream v" _ e es] v(1) und unfolding undelivered_def view_ok_def by blast
  have "filter (\<lambda>x. fst e < fst x) (g_stream v) = filter (\<lambda>x. fst e < fst x) (undelivered v)"
    using e(2) by (auto simp: undelivered_def intro!: filter_cong)
  also have "\<dots> = es" using later by (simp add: und filter_id_conv)
  finally have es: "undelivered v' = es" by (simp add: v' undelivered_def)
  have live: "live v' = live v" using es und by (auto simp: live_def v')
  have ok: "view_ok v'"
    using v(1) e pend by (fastforce simp: view_ok_def v' sorted_wrt_append)
  have held: "show_key (fst e) \<notin> held q" by (rule held_ok_fresh [OF v(2) e(2)])
  have held': "held_ok (q\<lparr>held := insert (show_key (fst e)) (held q)\<rparr>) v'"
    by (rule held_ok_insert [OF v(2)]) (use e(2) in \<open>simp_all add: v'\<close>)
  show ?thesis
    unfolding reserved_from_def option.case
    by (intro conjI bexI [of _ e] ok held' live) (use e und held v(3) in \<open>simp_all add: v' live_def subset_insertI\<close>)
qed

lemma reserve_spec:
  assumes "group_laws api view" "g_exists (view r)" "view_ok (view r)" "tasks_ok cd (view r)" "held_ok q (view r)"
    and "length (g_pend (view r)) < fuel"
  shows "\<exists>res q' r'. reserve api cd fuel q r = Some (Inr res, q', r') \<and> reserved_from cd q (view r) res q' (view r')"
proof -
  have "behind (0, 0) (view r) < fuel"
    using assms(6) by (simp add: behind_def) (meson le_less_trans length_filter_le)
  from claim_loop_spec [OF assms(1-4) this]
  obtain res q1 r1 where claim: "claim api cd fuel q r = Some (Inr res, q1, r1)" and from_: "claimed_from cd q (view r) res q1 (view r1)"
    unfolding claim_def CLAIM_START_key by blast
  show ?thesis
  proof (cases res)
    case (Some d)
    then show ?thesis
      using claim claimed_reserved [OF _ assms(3,5,2)] from_ by (auto simp: reserve_def)
  next
    case None
    then have q1: "q1 = q" and same: "same_group (view r) (view r1)" using from_ by (auto simp: claimed_from_def)
    note parts = same_group_parts [OF same]
    have h: "view_ok (view r1)" "held_ok q (view r1)" "g_exists (view r1)" "live (view r1) = live (view r)"
      using assms same_group_ok [OF same] live_same [OF same] by (auto simp: held_ok_def parts)
    show ?thesis
    proof (cases "undelivered (view r1)")
      case Nil
      with law_read [OF assms(1) h(3), of "consumer q"] obtain r' where
          "xreadgroup_one api (consumer q) r1 = (Inr [], r')" "view r' = view r1" by auto
      then show ?thesis
        using claim None q1 h Nil parts
        by (auto simp: reserve_def reserved_from_def simp del: split_paired_Ex)
    next
      case (Cons e es)
      with law_read [OF assms(1) h(3), of "consumer q"] obtain r' where
          r': "xreadgroup_one api (consumer q) r1 = (Inr [shown e], r')"
          "view r' = (view r1)\<lparr>g_last := fst e, g_pend := g_pend (view r1) @ [(fst e, consumer q, g_now (view r1))]\<rparr>"
        by auto
      have "e \<in> set (undelivered (view r1))" using Cons by simp
      then have "e \<in> set (g_stream (view r))" by (simp add: undelivered_def parts)
      with claim None q1 r' decode_shown [OF assms(4)]
      have "reserve api cd fuel q r = Some (Inr (Some \<lparr>delivery_id = show_key (fst e), delivery_task = task_of cd e\<rparr>),
          q\<lparr>held := insert (show_key (fst e)) (held q)\<rparr>, r')"
        by (simp add: reserve_def hold_def) (simp add: shown_def)
      moreover have "reserved_from cd q (view r) (Some \<lparr>delivery_id = show_key (fst e), delivery_task = task_of cd e\<rparr>)
          (q\<lparr>held := insert (show_key (fst e)) (held q)\<rparr>) (view r')"
        using read_reserved [OF h(1-3) Cons r'(2)] h(4) parts unfolding reserved_from_def by simp
      ultimately show ?thesis by blast
    qed
  qed
qed

section \<open>Who is in the queue\<close>

lemma entry_run_ids_shown:
  assumes "tasks_ok cd v" "set es \<subseteq> set (g_stream v)"
  shows "entry_run_ids cd (map shown es) = Inr ((t_run_id \<circ> task_of cd) ` set es)"
proof -
  have "result_list (map (\<lambda>e. decode_task cd (shown e)) es) =
      Inr (map (\<lambda>e. \<lparr>delivery_id = show_key (fst e), delivery_task = task_of cd e\<rparr>) es)"
    by (rule result_list_Inr, rule decode_shown [OF assms(1)]) (use assms(2) in auto)
  then show ?thesis by (simp add: entry_run_ids_def comp_def image_image)
qed

lemma range_one_present:
  assumes "view_ok v" "(k, fs) \<in> set (g_stream v)"
  shows "take 1 (filter (\<lambda>e. k \<le> fst e) (g_stream v)) = [(k, fs)]"
proof -
  have mem: "(k, fs) \<in> set (filter (\<lambda>e. k \<le> fst e) (g_stream v))" using assms(2) by simp
  obtain x xs where f: "filter (\<lambda>e. k \<le> fst e) (g_stream v) = x # xs" using mem by (cases "filter (\<lambda>e. k \<le> fst e) (g_stream v)") auto
  then have "x \<in> set (filter (\<lambda>e. k \<le> fst e) (g_stream v))" by simp
  then have "k \<le> fst x" by simp
  moreover have "fst x < k" if "(k, fs) \<in> set xs"
    using sorted_filter_hd [OF _ f that] assms(1) by (simp add: view_ok_def)
  ultimately show ?thesis using mem f by (auto simp del: split_paired_Ex)
qed

lemma holding_loop_sees:
  assumes laws: "group_laws api view" and st: "\<And>i. view_ok (view (rs i)) \<and> tasks_ok cd (view (rs i)) \<and> e \<in> set (g_stream (view (rs i)))"
  shows "\<exists>ids. holding_loop api cd (map show_key ks) rs i found = (Inr ids, i + length ks) \<and> found \<subseteq> ids \<and>
    (fst e \<in> set ks \<longrightarrow> t_run_id (task_of cd e) \<in> ids)"
proof (induction ks arbitrary: i found)
  case (Cons k ks)
  let ?es = "take 1 (filter (\<lambda>e. k \<le> fst e) (g_stream (view (rs i))))"
  have "set ?es \<subseteq> set (g_stream (view (rs i)))" by (auto dest: in_set_takeD)
  then have ids: "entry_run_ids cd (xrange_one api (show_key k) (rs i)) = Inr ((t_run_id \<circ> task_of cd) ` set ?es)"
    using entry_run_ids_shown st law_range_one [OF laws, of k "rs i"] by metis
  have here: "e \<in> set ?es" if "k = fst e"
    using range_one_present [of "view (rs i)" "fst e" "snd e"] st that by simp
  from Cons.IH [of "Suc i" "found \<union> (t_run_id \<circ> task_of cd) ` set ?es"] ids here show ?case
    by (auto simp del: split_paired_Ex)
qed simp

lemma in_flight_sees:
  assumes "group_laws api view"
    and st: "\<And>i. g_exists (view (rs i)) \<and> view_ok (view (rs i)) \<and> tasks_ok cd (view (rs i))"
    and later: "\<And>i. g_last (view (rs 0)) \<le> g_last (view (rs i))"
    and room: "\<And>i. length (g_pend (view (rs i))) \<le> max_length q \<and> length (g_stream (view (rs i))) \<le> max_length q"
    and e: "\<And>i. e \<in> set (g_stream (view (rs i))) \<and> fst e \<in> live (view (rs i))"
  shows "\<exists>ids. in_flight api cd q rs = Inr ids \<and> t_run_id (task_of cd e) \<in> ids"
proof -
  let ?ks = "map fst (g_pend (view (rs 1)))" and ?last = "g_last (view (rs 0))"
  have info: "group_info api (rs 0) = Inr (Some (show_key ?last))"
    using law_info [OF assms(1), of "rs 0"] st [of 0] by (auto simp: group_info_def split: sum.splits)
  obtain ids where ids: "holding_loop api cd (map show_key ?ks) rs 2 {} = (Inr ids, 2 + length ?ks)"
      "fst e \<in> set ?ks \<Longrightarrow> t_run_id (task_of cd e) \<in> ids"
    using holding_loop_sees [OF assms(1), of rs cd e ?ks 2 "{}"] st e by blast
  have "xpending_range api (max_length q) (rs 1) = map show_key ?ks"
    using law_pending_range [OF assms(1), of "rs 1"] st room [of 1] by simp
  with ids have hold: "holding_run_id api cd q rs 1 = (Inr ids, 2 + length ?ks)"
    by (simp add: holding_run_id_def numeral_2_eq_2)
  let ?r = "rs (2 + length ?ks)" and ?es = "\<lambda>r. filter (\<lambda>e. ?last < fst e) (g_stream (view r))"
  have "length (?es ?r) \<le> max_length q" using room [of "2 + length ?ks"] by (meson le_trans length_filter_le)
  then have wait: "waiting_run_id api cd q (show_key ?last) ?r = Inr ((t_run_id \<circ> task_of cd) ` set (?es ?r))"
    using law_range_after [OF assms(1), of ?last "max_length q" ?r] st [of "2 + length ?ks"]
      entry_run_ids_shown [of cd "view ?r" "?es ?r"]
    by (simp add: waiting_run_id_def)
  have "t_run_id (task_of cd e) \<in> ids \<union> (t_run_id \<circ> task_of cd) ` set (?es ?r)"
  proof (cases "?last < fst e")
    case True
    then show ?thesis using e [of "2 + length ?ks"] by simp
  next
    case False
    then have "\<not> g_last (view (rs 1)) < fst e" using later [of 1] by (meson less_le_trans not_less)
    then have "fst e \<in> set ?ks" using e [of 1] by (auto simp: live_def undelivered_def simp del: split_paired_Ex)
    then show ?thesis using ids(2) by simp
  qed
  then show ?thesis using info hold wait by (simp add: in_flight_def)
qed

lemma holding_loop_exact:
  assumes laws: "group_laws api view" and st: "view_ok (view r)" "tasks_ok cd (view r)" "set ks \<subseteq> fst ` set (g_stream (view r))"
  shows "holding_loop api cd (map show_key ks) (\<lambda>_. r) i found =
    (Inr (found \<union> (t_run_id \<circ> task_of cd) ` {e \<in> set (g_stream (view r)). fst e \<in> set ks}), i + length ks)"
  using st(3)
proof (induction ks arbitrary: i found)
  case (Cons k ks)
  obtain fs where fs: "(k, fs) \<in> set (g_stream (view r))" using Cons.prems by auto
  have one: "take 1 (filter (\<lambda>e. k \<le> fst e) (g_stream (view r))) = [(k, fs)]" by (rule range_one_present [OF st(1) fs])
  have "entry_run_ids cd (xrange_one api (show_key k) r) = Inr {t_run_id (task_of cd (k, fs))}"
    using entry_run_ids_shown [OF st(2), of "[(k, fs)]"] fs law_range_one [OF laws, of k r] one by simp
  moreover have "distinct (map fst (g_stream (view r)))" using st(1) by (metis strict_sorted_iff view_ok_def)
  then have uniq: "e = (k, fs)" if "e \<in> set (g_stream (view r))" "fst e = k" for e
    using eq_key_imp_eq_value [of "g_stream (view r)" k fs "snd e"] fs that by (metis prod.collapse)
  have "{e \<in> set (g_stream (view r)). fst e \<in> set (k # ks)} = insert (k, fs) {e \<in> set (g_stream (view r)). fst e \<in> set ks}"
    by (rule set_eqI, simp) (metis uniq fs fst_conv)
  ultimately show ?case using Cons by simp
qed simp

text \<open>Undisturbed, \<open>in_flight\<close> is exactly the runs of the live messages.\<close>

lemma in_flight_exact:
  assumes "group_laws api view" "g_exists (view r)" "view_ok (view r)" "tasks_ok cd (view r)"
    and "length (g_stream (view r)) \<le> max_length q"
  shows "in_flight api cd q (\<lambda>_. r) = Inr ((t_run_id \<circ> task_of cd) ` {e \<in> set (g_stream (view r)). fst e \<in> live (view r)})"
proof -
  let ?ks = "map fst (g_pend (view r))" and ?es = "undelivered (view r)"
  have info: "group_info api r = Inr (Some (show_key (g_last (view r))))"
    using law_info [OF assms(1), of r] assms(2) by (auto simp: group_info_def split: sum.splits)
  have sub: "set ?ks \<subseteq> fst ` set (g_stream (view r))" using assms(3) by (auto simp: view_ok_def)
  have "distinct ?ks" using assms(3) by (metis strict_sorted_iff view_ok_def)
  then have "length (g_pend (view r)) \<le> card (fst ` set (g_stream (view r)))"
    using sub by (metis List.finite_set card_mono distinct_card finite_imageI length_map)
  also have "\<dots> \<le> length (g_stream (view r))" by (metis card_length length_map list.set_map)
  finally have "xpending_range api (max_length q) r = map show_key ?ks"
    using law_pending_range [OF assms(1,2)] assms(5) by simp
  then have hold: "holding_run_id api cd q (\<lambda>_. r) 1 =
      (Inr ((t_run_id \<circ> task_of cd) ` {e \<in> set (g_stream (view r)). fst e \<in> set ?ks}), 2 + length ?ks)"
    using holding_loop_exact [OF assms(1,3,4) sub, of 2 "{}"] by (simp add: holding_run_id_def numeral_2_eq_2)
  have "length ?es \<le> max_length q" unfolding undelivered_def using assms(5) by (meson le_trans length_filter_le)
  then have wait: "waiting_run_id api cd q (show_key (g_last (view r))) r = Inr ((t_run_id \<circ> task_of cd) ` set ?es)"
    using law_range_after [OF assms(1), of "g_last (view r)" "max_length q" r] entry_run_ids_shown [OF assms(4), of ?es]
    by (simp add: waiting_run_id_def undelivered_def)
  have "{e \<in> set (g_stream (view r)). fst e \<in> set ?ks} \<union> set ?es = {e \<in> set (g_stream (view r)). fst e \<in> live (view r)}"
    by (force simp: live_def undelivered_def)
  then show ?thesis using info hold wait by (simp add: in_flight_def image_Un [symmetric])
qed

section \<open>A consumer group in memory\<close>

text \<open>An instance of the parameter, to show that the hypotheses on Redis can hold.\<close>

definition key_of_id :: "string \<Rightarrow> message_key" where
  "key_of_id s = (case str_partition ID_SEPARATOR s of (a, _, b) \<Rightarrow> (dec_nat a, dec_nat b))"

lemma key_of_show [simp]: "key_of_id (show_key k) = k"
  by (simp add: key_of_id_def event_id_of_def ID_SEPARATOR_def str_partition_append)

definition next_key :: "'t group_view \<Rightarrow> message_key" where
  "next_key v = (Suc (Max (set (fst (g_last v) # map (fst \<circ> fst) (g_stream v)))), 0)"

lemma next_key_greater:
  assumes "k \<in> fst ` set (g_stream v) \<union> {(0, 0), g_last v}"
  shows "k < next_key v"
proof -
  have "fst k \<in> insert 0 (set (fst (g_last v) # map (fst \<circ> fst) (g_stream v)))" using assms by (auto simp: image_image)
  then have "fst k \<le> Max (set (fst (g_last v) # map (fst \<circ> fst) (g_stream v)))" by (auto intro: Max_ge)
  then show ?thesis by (simp add: next_key_def less_prod_def')
qed

definition mem_claim :: "string \<Rightarrow> int \<Rightarrow> string \<Rightarrow> 't group_view \<Rightarrow> (string + string \<times> (string \<times> 't fields) list) \<times> 't group_view" where
  "mem_claim c idle start v =
     (case scan 10 (\<lambda>p. idle < g_now v - snd (snd p)) (filter (\<lambda>p. key_of_id start \<le> fst p) (g_pend v)) of (claimed, rest) \<Rightarrow>
        let following = (case rest of [] \<Rightarrow> CLAIM_START | p # _ \<Rightarrow> show_key (fst p)) in
        case claimed of
          None \<Rightarrow> (Inr (following, []), v)
        | Some p \<Rightarrow> (Inr (following, map shown (filter (\<lambda>e. fst e = fst p) (g_stream v))), redeliver (fst p) c v))"

definition mem_group :: "('t group_view, 't) group_api" where
  "mem_group = \<lparr>
     xgroup_create = (\<lambda>v. if g_exists v then (Inl GROUP_EXISTS, v)
       else (Inr (), v\<lparr>g_exists := True, g_last := (0, 0), g_pend := []\<rparr>)),
     xadd_task = (\<lambda>fs n v. (show_key (next_key v), v\<lparr>g_stream := g_stream v @ [(next_key v, fs)]\<rparr>)),
     xautoclaim_one = mem_claim,
     xreadgroup_one = (\<lambda>c v. case undelivered v of
         [] \<Rightarrow> (Inr [], v)
       | e # _ \<Rightarrow> (Inr [shown e], v\<lparr>g_last := fst e, g_pend := g_pend v @ [(fst e, c, g_now v)]\<rparr>)),
     xack = (\<lambda>i v. v\<lparr>g_pend := filter (\<lambda>p. fst p \<noteq> key_of_id i) (g_pend v)\<rparr>),
     xclaim = (\<lambda>c i v. redeliver (key_of_id i) c v),
     xpending = (\<lambda>v. if g_exists v then Inr (length (g_pend v)) else Inl GROUP_MISSING),
     xpending_range = (\<lambda>n v. map (show_key \<circ> fst) (take n (g_pend v))),
     xinfo_groups = (\<lambda>v. if g_exists v then Inr [(CONSUMER_GROUP, show_key (g_last v))] else Inl GROUP_MISSING),
     xrange_one = (\<lambda>i v. map shown (take 1 (filter (\<lambda>e. key_of_id i \<le> fst e) (g_stream v)))),
     xrange_after = (\<lambda>i n v. map shown (take n (filter (\<lambda>e. key_of_id i < fst e) (g_stream v))))\<rparr>"

lemma mem_claim_law: "\<exists>following es v'. mem_claim c idle (show_key k) v = (Inr (following, es), v') \<and>
    claim_law c idle k v following es v'"
proof -
  obtain claimed rest where sc: "scan 10 (\<lambda>p. idle < g_now v - snd (snd p)) (filter (\<lambda>p. k \<le> fst p) (g_pend v)) = (claimed, rest)"
    by fastforce
  show ?thesis
  proof (cases claimed)
    case None
    then show ?thesis
      using sc unfolding claim_law_def mem_claim_def
      by (intro exI conjI) (auto simp: Let_def)
  next
    case (Some p)
    then show ?thesis
      using sc unfolding claim_law_def mem_claim_def
      by (intro exI conjI) (auto simp: Let_def)
  qed
qed

lemma mem_add_law:
  assumes "xadd_task mem_group fs n v = (i, v')"
  shows "\<exists>k d. i = show_key k \<and> (\<forall>k' \<in> fst ` set (g_stream v) \<union> {(0, 0), g_last v}. k' < k) \<and>
    (0 < d \<longrightarrow> n \<le> length (g_stream v) + 1 - d) \<and> v' = v\<lparr>g_stream := drop d (g_stream v @ [(k, fs)])\<rparr>"
  using assms next_key_greater [of _ v]
  by (intro exI [of _ "next_key v"] exI [of _ 0] conjI ballI) (simp_all add: mem_group_def)

lemma mem_group_laws: "group_laws mem_group (\<lambda>v. v)"
  unfolding group_laws_def
  by (intro conjI allI impI, simp_all only: mem_add_law)
    (simp_all add: mem_group_def mem_claim_law GROUP_EXISTS_def GROUP_MISSING_def ABSENT_ERROR_def split: list.splits)

section \<open>Properties\<close>

text \<open>C24. Reserving is exclusive and loses nothing. With the group in place, \<open>reserve\<close> returns (enough fuel for the
  claim loop is one more than the number of pending messages); the set of messages still to be done is unchanged;
  it returns nothing only when no new message waits; and a message it returns is still to be done, carries the
  task that was published, is one the process did not hold before and holds now, and is pending under its own
  name with its idle time at zero.\<close>

theorem reserve_exclusive:
  assumes "group_laws api view" "g_exists (view r)" "view_ok (view r)" "tasks_ok cd (view r)" "held_ok q (view r)"
    and "length (g_pend (view r)) < fuel"
  shows "\<exists>res q' r'. reserve api cd fuel q r = Some (Inr res, q', r') \<and> live (view r') = live (view r) \<and>
    (case res of
       None \<Rightarrow> q' = q \<and> undelivered (view r) = []
     | Some d \<Rightarrow> \<exists>e \<in> set (g_stream (view r)). fst e \<in> live (view r) \<and>
         d = \<lparr>delivery_id = show_key (fst e), delivery_task = task_of cd e\<rparr> \<and> delivery_id d \<notin> held q \<and>
         held q' = insert (delivery_id d) (held q) \<and> (fst e, consumer q, g_now (view r)) \<in> set (g_pend (view r')))"
proof -
  obtain res q' r' where "reserve api cd fuel q r = Some (Inr res, q', r')" "reserved_from cd q (view r) res q' (view r')"
    using reserve_spec [OF assms] by blast
  then show ?thesis
    by (intro exI [of _ res] exI [of _ q'] exI [of _ r'])
      (auto simp: reserved_from_def split: option.splits simp del: split_paired_Ex)
qed

definition plain_tasks :: "RunTask task_codec" where
  "plain_tasks = \<lparr>dump_task = (\<lambda>t. t), load_task = Inr\<rparr>"

definition sample_task :: "nat \<Rightarrow> RunTask" where
  "sample_task n = \<lparr>t_run_id = uuid_hex n, t_thread_id = uuid_hex 7, t_content = ''q'', t_user_id = None,
     t_user_context = None, t_agent_config = default_config, t_decisions = None\<rparr>"

text \<open>A group in which the first \<open>m\<close> of \<open>n\<close> messages were delivered to a worker at time \<open>t\<close>.\<close>

definition sample_group :: "nat \<Rightarrow> nat \<Rightarrow> (nat \<Rightarrow> int) \<Rightarrow> RunTask group_view" where
  "sample_group m n t = \<lparr>g_exists = True, g_stream = map (\<lambda>i. ((Suc i, 0), [(TASK_PAYLOAD, sample_task i)])) [0..<n],
     g_last = (m, 0), g_pend = map (\<lambda>i. ((Suc i, 0), ''w'', t i)) [0..<m], g_now = 100\<rparr>"

lemma sample_group_ok:
  assumes "m \<le> n"
  shows "view_ok (sample_group m n t)" "tasks_ok plain_tasks (sample_group m n t)" "g_exists (sample_group m n t)"
    "length (g_pend (sample_group m n t)) = m"
proof -
  have "sorted_wrt (<) (map (\<lambda>i. (Suc i, 0 :: nat)) [0..<k])" for k
    by (simp add: sorted_wrt_map)
  then show "view_ok (sample_group m n t)"
    using assms by (auto simp: view_ok_def sample_group_def comp_def image_image)
qed (auto simp: sample_group_def tasks_ok_def decode_task_def shown_def plain_tasks_def)

definition sample_queue :: TaskQueue where
  "sample_queue = \<lparr>consumer = ''w'', max_length = 10000, claim_idle = 60, held = {}\<rparr>"

theorem reserve_exclusive_witness:
  "\<exists>res q' r'. reserve mem_group plain_tasks 2 sample_queue (sample_group 1 2 (\<lambda>_. 100)) = Some (Inr res, q', r') \<and>
     live r' = live (sample_group 1 2 (\<lambda>_. 100)) \<and> res \<noteq> None"
proof -
  have h: "held_ok sample_queue (sample_group 1 2 (\<lambda>_. 100))" by (simp add: held_ok_def sample_queue_def)
  have "undelivered (sample_group 1 2 (\<lambda>_. 100)) \<noteq> []" by (simp add: undelivered_def sample_group_def upt_rec)
  with reserve_exclusive [OF mem_group_laws sample_group_ok(3,1,2) h, of 2] sample_group_ok(4) [of 1 2 "\<lambda>_. 100"]
  show ?thesis by (fastforce simp del: split_paired_Ex split: option.splits)
qed

text \<open>C25. The queue never forgets a run while it is asked about it. The commands of \<open>in_flight\<close> see different states of
  Redis, because workers reserve, finish and publish in between; but if the message of a run is to be done in
  every one of them (and the stream holds no more than its bound), the run is in the answer.\<close>

theorem in_flight_complete:
  assumes "group_laws api view"
    and "\<And>i. g_exists (view (rs i)) \<and> view_ok (view (rs i)) \<and> tasks_ok cd (view (rs i))"
    and "\<And>i. g_last (view (rs 0)) \<le> g_last (view (rs i))"
    and "\<And>i. length (g_pend (view (rs i))) \<le> max_length q \<and> length (g_stream (view (rs i))) \<le> max_length q"
    and "\<And>i. e \<in> set (g_stream (view (rs i))) \<and> fst e \<in> live (view (rs i))"
  shows "\<exists>ids. in_flight api cd q rs = Inr ids \<and> t_run_id (task_of cd e) \<in> ids"
  by (rule in_flight_sees [of api view rs cd q e]) (use assms in blast)+

text \<open>The second message is handed out between the first and the second command.\<close>

theorem in_flight_complete_witness:
  "\<exists>ids. in_flight mem_group plain_tasks sample_queue
       (\<lambda>i. if i = 0 then sample_group 1 2 (\<lambda>_. 0) else sample_group 2 2 (\<lambda>_. 0)) = Inr ids \<and>
     t_run_id (task_of plain_tasks ((2, 0), [(TASK_PAYLOAD, sample_task 1)])) \<in> ids"
proof (rule in_flight_complete [OF mem_group_laws])
  fix i
  let ?v = "if i = 0 then sample_group 1 2 (\<lambda>_. 0) else sample_group 2 2 (\<lambda>_. 0)"
  show "g_exists ?v \<and> view_ok ?v \<and> tasks_ok plain_tasks ?v" using sample_group_ok [of 1 2] sample_group_ok [of 2 2] by simp
qed (auto simp: sample_group_def sample_queue_def live_def undelivered_def upt_rec numeral_2_eq_2 image_iff)

text \<open>A crashed task behind ten healthy ones is not taken over: \<open>XAUTOCLAIM\<close> looks at ten pending
  messages per call, and \<open>_claim\<close> takes an empty answer for the end of the list, so that while the ten oldest
  pending messages are kept alive no later one is claimed, however long it has been idle.\<close>

theorem claim_stops_at_ten:
  assumes "group_laws api view" "g_exists (view r)" "view_ok (view r)"
    and "\<forall>p \<in> set (take 10 (g_pend (view r))). g_now (view r) - snd (snd p) < claim_idle q"
    and "10 \<le> length (g_pend (view r))"
  shows "\<exists>r'. claim api cd (Suc fuel) q r = Some (Inr None, q, r') \<and> view r' = view r"
proof -
  let ?v = "view r"
  have all: "filter (\<lambda>p. (0, 0) \<le> fst p) (g_pend ?v) = g_pend ?v" by (auto intro!: filter_True simp: less_eq_prod_def)
  obtain following es r' where call: "xautoclaim_one api (consumer q) (claim_idle q) (show_key (0, 0)) r = (Inr (following, es), r')"
    and law: "claim_law (consumer q) (claim_idle q) (0, 0) ?v following es (view r')"
    using law_claim [OF assms(1-3)] by blast
  have no: "scan 10 stale (g_pend ?v) \<noteq> (Some p, rest)"
    if fresh: "\<forall>p. g_now ?v - snd (snd p) < claim_idle q \<longrightarrow> \<not> stale p" for stale p rest
  proof
    assume "scan 10 stale (g_pend ?v) = (Some p, rest)"
    from scan_Some [OF this] obtain pre where pre: "g_pend ?v = pre @ p # rest" "stale p" "length pre < 10"
      by (elim exE conjE)
    then have "p \<in> set (take 10 (g_pend ?v))" by (simp add: take_Cons')
    then show False using assms(4) fresh pre(2) by blast
  qed
  obtain stale claimed rest where "scan 10 stale (g_pend ?v) = (claimed, rest)"
      "\<forall>p. g_now ?v - snd (snd p) < claim_idle q \<longrightarrow> \<not> stale p"
      "case claimed of None \<Rightarrow> es = [] \<and> view r' = ?v | Some p \<Rightarrow> es = map shown (filter (\<lambda>e. fst e = fst p) (g_stream ?v)) \<and>
        view r' = redeliver (fst p) (consumer q) ?v"
    using law unfolding claim_law_def all by blast
  with no have "es = [] \<and> view r' = ?v" by (cases claimed) (simp, blast)
  then show ?thesis using call by (simp add: claim_def CLAIM_START_key)
qed

theorem claim_stops_at_ten_witness:
  "\<exists>r'. claim mem_group plain_tasks 1 sample_queue (sample_group 11 11 (\<lambda>i. if i = 10 then 0 else 99)) =
     Some (Inr None, sample_queue, r')"
proof -
  let ?v = "sample_group 11 11 (\<lambda>i. if i = 10 then 0 else 99)"
  have "\<forall>p \<in> set (take 10 (g_pend ?v)). g_now ?v - snd (snd p) < claim_idle sample_queue"
    by (simp add: sample_group_def sample_queue_def take_map)
  from claim_stops_at_ten [OF mem_group_laws sample_group_ok(3,1) this, of plain_tasks 0] show ?thesis
    by (auto simp: sample_group_ok)
qed

end
