(* ===== verification/Worker_Loop.thy ===== *)
theory Worker_Loop
  imports Task_Queue
begin

text \<open>
  The main loop of the worker (\<open>app/worker/loop.py\<close>) and its watchdog (\<open>app/worker/watchdog.py\<close>). The loop is a state
  machine whose steps are the pieces of code between two awaits: the guard of the loop, the return of
  \<open>reserve\<close> with the spawning of a handler, the end of a handler, a heartbeat. Around it the api publishes tasks, time
  passes, and the process may be killed at any moment and started again.
\<close>

section \<open>The loop\<close>

datatype loop_point = AtGuard | Reserving | Exited

record 'r Worker =
  w_queue :: TaskQueue
  w_redis :: 'r
  concurrency :: nat
  running :: "Delivery list"
  stopping :: bool
  point :: loop_point
  finished_ids :: "string list"

text \<open>The guard of \<open>run\<close>: wait while the worker is full, drain and return when it was told to stop.\<close>

definition loop_guard :: "'r Worker \<Rightarrow> 'r Worker" where
  "loop_guard w =
     (if stopping w then (if running w = [] then w\<lparr>point := Exited\<rparr> else w)
      else if concurrency w \<le> length (running w) then w
      else w\<lparr>point := Reserving\<rparr>)"

definition spawn :: "Delivery \<Rightarrow> 'r Worker \<Rightarrow> 'r Worker" where
  "spawn delivery w = w\<lparr>running := running w @ [delivery]\<rparr>"

text \<open>\<open>reserve\<close> returns to the loop.\<close>

definition loop_receive :: "('r, 't) group_api \<Rightarrow> 't task_codec \<Rightarrow> nat \<Rightarrow> 'r Worker \<Rightarrow> 'r Worker option" where
  "loop_receive api cd fuel w =
     (case reserve api cd fuel (w_queue w) (w_redis w) of
        Some (Inr None, q, r) \<Rightarrow> Some (w\<lparr>w_queue := q, w_redis := r, point := AtGuard\<rparr>)
      | Some (Inr (Some d), q, r) \<Rightarrow> Some (spawn d (w\<lparr>w_queue := q, w_redis := r, point := AtGuard\<rparr>))
      | Some (Inl e, q, r) \<Rightarrow> Some (w\<lparr>w_queue := q, w_redis := r, point := Exited\<rparr>)
      | None \<Rightarrow> None)"

text \<open>The end of \<open>_handle\<close>: whatever the executor did, the heartbeat ends and the message is acknowledged.
  If the acknowledgement itself fails, the handler dies and the message stays pending and held.\<close>

definition handle_end :: "('r, 't) group_api \<Rightarrow> Delivery \<Rightarrow> unit result \<Rightarrow> bool \<Rightarrow> 'r Worker \<Rightarrow> 'r Worker" where
  "handle_end api d outcome acked w =
     (let w = w\<lparr>running := filter (\<lambda>x. delivery_id x \<noteq> delivery_id d) (running w)\<rparr> in
      if acked then
        case ack api (delivery_id d) (w_queue w) (w_redis w) of (q, r) \<Rightarrow>
          w\<lparr>w_queue := q, w_redis := r, finished_ids := finished_ids w @ [delivery_id d]\<rparr>
      else w)"

definition keep_alive :: "('r, 't) group_api \<Rightarrow> Delivery \<Rightarrow> 'r Worker \<Rightarrow> 'r Worker" where
  "keep_alive api d w = w\<lparr>w_redis := touch api (delivery_id d) (w_queue w) (w_redis w)\<rparr>"

definition stop_worker :: "'r Worker \<Rightarrow> 'r Worker" where
  "stop_worker w = w\<lparr>stopping := True\<rparr>"

text \<open>A killed process is started again: what it held and ran is gone, Redis is as it was.\<close>

definition restart :: "'r Worker \<Rightarrow> 'r Worker" where
  "restart w = w\<lparr>w_queue := (w_queue w)\<lparr>held := {}\<rparr>, running := [], stopping := False, point := AtGuard\<rparr>"

section \<open>The machine\<close>

inductive worker_step :: "('r, 't) group_api \<Rightarrow> ('r \<Rightarrow> 't group_view) \<Rightarrow> 't task_codec \<Rightarrow> 'r Worker \<Rightarrow> 'r Worker \<Rightarrow> bool"
  for api view cd where
  guard: "point w = AtGuard \<Longrightarrow> worker_step api view cd w (loop_guard w)"
| receive: "point w = Reserving \<Longrightarrow> length (g_pend (view (w_redis w))) < fuel \<Longrightarrow> loop_receive api cd fuel w = Some w' \<Longrightarrow>
    worker_step api view cd w w'"
| handled: "d \<in> set (running w) \<Longrightarrow> worker_step api view cd w (handle_end api d outcome acked w)"
| beat: "d \<in> set (running w) \<Longrightarrow> worker_step api view cd w (keep_alive api d w)"
| stop: "worker_step api view cd w (stop_worker w)"
| killed: "worker_step api view cd w (restart w)"
| published: "length (g_stream (view (w_redis w))) < max_length (w_queue w) \<Longrightarrow>
    publish api cd (w_queue w) task (w_redis w) = (i, r') \<Longrightarrow> worker_step api view cd w (w\<lparr>w_redis := r'\<rparr>)"
| elapsed: "view r' = (view (w_redis w))\<lparr>g_now := now\<rparr> \<Longrightarrow> g_now (view (w_redis w)) \<le> now \<Longrightarrow>
    worker_step api view cd w (w\<lparr>w_redis := r'\<rparr>)"

inductive worker_reach :: "('r, 't) group_api \<Rightarrow> ('r \<Rightarrow> 't group_view) \<Rightarrow> 't task_codec \<Rightarrow> 'r Worker \<Rightarrow> 'r Worker \<Rightarrow> bool"
  for api view cd w0 where
  start: "worker_reach api view cd w0 w0"
| later: "worker_reach api view cd w0 w \<Longrightarrow> worker_step api view cd w w' \<Longrightarrow> worker_reach api view cd w0 w'"

section \<open>The invariant\<close>

abbreviation running_ids :: "'r Worker \<Rightarrow> string list" where
  "running_ids w \<equiv> map delivery_id (running w)"

text \<open>Besides the invariant of the queue: the worker is within its bound, runs no message twice, holds what it
  runs, and what it holds is pending. Every message of the stream is to be done or was acknowledged by a handler.\<close>

definition worker_ok :: "'t task_codec \<Rightarrow> ('r \<Rightarrow> 't group_view) \<Rightarrow> 'r Worker \<Rightarrow> bool" where
  "worker_ok cd view w \<longleftrightarrow>
     (let v = view (w_redis w) in
      view_ok v \<and> g_exists v \<and> tasks_ok cd v \<and> held_ok (w_queue w) v \<and>
      length (running w) + (if point w = Reserving then 1 else 0) \<le> concurrency w \<and>
      distinct (running_ids w) \<and> set (running_ids w) \<subseteq> held (w_queue w) \<and>
      held (w_queue w) \<subseteq> show_key ` fst ` set (g_pend v) \<and>
      show_key ` fst ` set (g_stream v) \<subseteq> show_key ` live v \<union> set (finished_ids w))"

lemma worker_okI:
  assumes "v = view (w_redis w)" "view_ok v" "g_exists v" "tasks_ok cd v" "held_ok (w_queue w) v"
    "length (running w) + (if point w = Reserving then 1 else 0) \<le> concurrency w"
    "distinct (running_ids w)" "set (running_ids w) \<subseteq> held (w_queue w)"
    "held (w_queue w) \<subseteq> show_key ` fst ` set (g_pend v)"
    "show_key ` fst ` set (g_stream v) \<subseteq> show_key ` live v \<union> set (finished_ids w)"
  shows "worker_ok cd view w"
  using assms by (simp add: worker_ok_def Let_def)

lemma worker_okD:
  assumes "worker_ok cd view w"
  shows "view_ok (view (w_redis w))" "g_exists (view (w_redis w))" "tasks_ok cd (view (w_redis w))"
    "held_ok (w_queue w) (view (w_redis w))"
    "length (running w) + (if point w = Reserving then 1 else 0) \<le> concurrency w"
    "distinct (running_ids w)" "set (running_ids w) \<subseteq> held (w_queue w)"
    "held (w_queue w) \<subseteq> show_key ` fst ` set (g_pend (view (w_redis w)))"
    "show_key ` fst ` set (g_stream (view (w_redis w))) \<subseteq> show_key ` live (view (w_redis w)) \<union> set (finished_ids w)"
  using assms by (simp_all add: worker_ok_def Let_def)

lemma held_is_pending:
  assumes "worker_ok cd view w" "d \<in> set (running w)"
  obtains k where "delivery_id d = show_key k" "k \<in> fst ` set (g_pend (view (w_redis w)))"
proof -
  have "delivery_id d \<in> held (w_queue w)" using worker_okD(7) [OF assms(1)] assms(2) by auto
  then show thesis using worker_okD(8) [OF assms(1)] that by blast
qed

lemma ok_guard: "worker_ok cd view w \<Longrightarrow> worker_ok cd view (loop_guard w)"
  unfolding loop_guard_def by (simp add: worker_ok_def Let_def)

lemma ok_receive:
  assumes laws: "group_laws api view" and ok: "worker_ok cd view w" and p: "point w = Reserving"
    and fuel: "length (g_pend (view (w_redis w))) < fuel" and run: "loop_receive api cd fuel w = Some w'"
  shows "worker_ok cd view w'"
proof -
  note d = worker_okD [OF ok]
  obtain res q r where res: "reserve api cd fuel (w_queue w) (w_redis w) = Some (Inr res, q, r)"
    and from_: "reserved_from cd (w_queue w) (view (w_redis w)) res q (view r)"
    using reserve_spec [OF laws d(2,1,3,4) fuel] by blast
  have new: "view_ok (view r)" "g_exists (view r)" "held_ok q (view r)" "live (view r) = live (view (w_redis w))"
      "g_stream (view r) = g_stream (view (w_redis w))" "tasks_ok cd (view r)"
    using from_ d(3) by (auto simp: reserved_from_def tasks_ok_def)
  have keep: "fst ` set (g_pend (view (w_redis w))) \<subseteq> fst ` set (g_pend (view r))"
    using from_ by (simp add: reserved_from_def)
  have held: "held (w_queue w) \<subseteq> show_key ` fst ` set (g_pend (view r))" by (rule subset_trans [OF d(8) image_mono [OF keep]])
  show ?thesis
  proof (cases res)
    case None
    then have w': "w' = w\<lparr>w_queue := w_queue w, w_redis := r, point := AtGuard\<rparr>" and q: "q = w_queue w"
      using res run from_ by (auto simp: loop_receive_def reserved_from_def)
    show ?thesis
      by (rule worker_okI [OF refl]) (use d new held q in \<open>auto simp: w' split: if_splits\<close>)
  next
    case (Some x)
    then have w': "w' = spawn x (w\<lparr>w_queue := q, w_redis := r, point := AtGuard\<rparr>)"
      using res run by (simp add: loop_receive_def)
    obtain e where e: "delivery_id x = show_key (fst e)" "delivery_id x \<notin> held (w_queue w)"
        "q = (w_queue w)\<lparr>held := insert (delivery_id x) (held (w_queue w))\<rparr>"
        "(fst e, consumer (w_queue w), g_now (view (w_redis w))) \<in> set (g_pend (view r))"
      using from_ Some by (auto simp: reserved_from_def simp del: split_paired_Ex)
    have "fst e \<in> fst ` set (g_pend (view r))" using e(4) by force
    then have "held q \<subseteq> show_key ` fst ` set (g_pend (view r))" using held e(1,3) by auto
    moreover have "delivery_id x \<notin> set (running_ids w)" using e(2) d(7) by blast
    ultimately show ?thesis
      by (intro worker_okI [OF refl]) (use d new e(3) p in \<open>auto simp: w' spawn_def\<close>)
  qed
qed

lemma live_ack:
  assumes "view_ok v" "k \<in> fst ` set (g_pend v)"
  shows "live (v\<lparr>g_pend := filter (\<lambda>p. fst p \<noteq> k) (g_pend v)\<rparr>) = live v - {k}"
proof -
  have "k \<le> g_last v" using assms by (auto simp: view_ok_def)
  then show ?thesis by (auto simp: live_def undelivered_def image_iff simp del: split_paired_Ex)
qed

lemma ok_handled:
  assumes laws: "group_laws api view" and ok: "worker_ok cd view w" and run: "x \<in> set (running w)"
  shows "worker_ok cd view (handle_end api x outcome acked w)"
proof -
  note d = worker_okD [OF ok]
  let ?run = "filter (\<lambda>y. delivery_id y \<noteq> delivery_id x) (running w)"
  have len: "length ?run + (if point w = Reserving then 1 else 0) \<le> concurrency w"
    using d(5) length_filter_le [of "\<lambda>y. delivery_id y \<noteq> delivery_id x" "running w"] by linarith
  have ids: "set (map delivery_id ?run) \<subseteq> held (w_queue w) - {delivery_id x}" using d(7) by auto
  have dist: "distinct (map delivery_id ?run)" using d(6) by (simp add: distinct_map_filter)
  obtain k where k: "delivery_id x = show_key k" "k \<in> fst ` set (g_pend (view (w_redis w)))"
    by (rule held_is_pending [OF ok run])
  show ?thesis
  proof (cases acked)
    case False
    have w': "handle_end api x outcome acked w = w\<lparr>running := ?run\<rparr>" using False by (simp add: handle_end_def)
    show ?thesis
      by (rule worker_okI [OF refl]) (use d len dist ids in \<open>simp_all add: w', blast\<close>)
  next
    case True
    let ?v = "view (w_redis w)" and ?r = "xack api (show_key k) (w_redis w)"
    have v': "view ?r = ?v\<lparr>g_pend := filter (\<lambda>p. fst p \<noteq> k) (g_pend ?v)\<rparr>" by (rule law_ack [OF laws])
    have w': "handle_end api x outcome acked w = w\<lparr>running := ?run,
        w_queue := (w_queue w)\<lparr>held := held (w_queue w) - {show_key k}\<rparr>, w_redis := ?r,
        finished_ids := finished_ids w @ [show_key k]\<rparr>"
      using True by (simp add: handle_end_def ack_def k(1))
    have ok': "view_ok (view ?r)"
      using d(1) unfolding v' view_ok_def
      by (auto simp: sorted_wrt_map intro: sorted_wrt_filter)
    have pend: "fst ` set (g_pend (view ?r)) = fst ` set (g_pend ?v) - {k}" by (auto simp: v' image_iff simp del: split_paired_Ex)
    have "held (w_queue w) - {show_key k} \<subseteq> show_key ` (fst ` set (g_pend ?v) - {k})" using d(8) by blast
    then have held: "held (w_queue w) - {show_key k} \<subseteq> show_key ` fst ` set (g_pend (view ?r))" by (simp add: pend)
    have live: "live (view ?r) = live ?v - {k}" unfolding v' by (rule live_ack [OF d(1) k(2)])
    have fin: "show_key ` fst ` set (g_stream (view ?r)) \<subseteq> show_key ` live (view ?r) \<union> set (finished_ids w @ [show_key k])"
      using d(9) unfolding live by (auto simp: v')
    have "held_ok ((w_queue w)\<lparr>held := held (w_queue w) - {show_key k}\<rparr>) (view ?r)"
      using d(4) by (auto simp: held_ok_def v')
    then show ?thesis
      by (intro worker_okI [OF refl]) (use d len dist ids ok' held fin in \<open>simp_all add: w' v' k(1) tasks_ok_def\<close>)
  qed
qed

lemma ok_same_group:
  assumes "worker_ok cd view w" "same_group (view (w_redis w)) (view r)"
  shows "worker_ok cd view (w\<lparr>w_redis := r\<rparr>)"
  using worker_okD [OF assms(1)] same_group_parts [OF assms(2)] same_group_ok [OF assms(2)] live_same [OF assms(2)]
  by (intro worker_okI [OF refl]) (simp_all add: tasks_ok_def held_ok_def)

lemma ok_beat:
  assumes "group_laws api view" "worker_ok cd view w" "x \<in> set (running w)"
  shows "worker_ok cd view (keep_alive api x w)"
proof -
  obtain k where "delivery_id x = show_key k" by (rule held_is_pending [OF assms(2,3)])
  then have "same_group (view (w_redis w)) (view (touch api (delivery_id x) (w_queue w) (w_redis w)))"
    using law_touch [OF assms(1)] by (simp add: touch_def)
  from ok_same_group [OF assms(2) this] show ?thesis by (simp add: keep_alive_def)
qed

lemma ok_killed: "worker_ok cd view w \<Longrightarrow> worker_ok cd view (restart w)"
  by (intro worker_okI [OF refl]) (use worker_okD [of cd view w] in \<open>simp_all add: restart_def held_ok_def\<close>)

lemma ok_elapsed:
  assumes "worker_ok cd view w" "view r = (view (w_redis w))\<lparr>g_now := now\<rparr>"
  shows "worker_ok cd view (w\<lparr>w_redis := r\<rparr>)"
proof -
  have "live (view r) = live (view (w_redis w))" by (simp add: assms(2) live_def undelivered_def)
  then show ?thesis
    using worker_okD [OF assms(1)]
    by (intro worker_okI [OF refl]) (simp_all add: assms(2) view_ok_def tasks_ok_def held_ok_def)
qed

lemma publish_view:
  assumes "group_laws api view" "length (g_stream (view r)) < max_length q" "publish api cd q task r = (i, r')"
  obtains k where "i = show_key k" "\<forall>k' \<in> fst ` set (g_stream (view r)) \<union> {(0, 0), g_last (view r)}. k' < k"
    "view r' = (view r)\<lparr>g_stream := g_stream (view r) @ [(k, [(TASK_PAYLOAD, dump_task cd task)])]\<rparr>"
proof -
  let ?fs = "[(TASK_PAYLOAD, dump_task cd task)]"
  obtain k n where "i = show_key k" "\<forall>k' \<in> fst ` set (g_stream (view r)) \<union> {(0, 0), g_last (view r)}. k' < k"
      "0 < n \<longrightarrow> max_length q \<le> length (g_stream (view r)) + 1 - n"
      "view r' = (view r)\<lparr>g_stream := drop n (g_stream (view r) @ [(k, ?fs)])\<rparr>"
    using law_publish [OF assms(1), of ?fs "max_length q" r i r'] assms(3) unfolding publish_def by blast
  moreover from this(3) assms(2) have "n = 0" by linarith
  ultimately show thesis using that by simp
qed

definition task_codec_ok :: "'t task_codec \<Rightarrow> bool" where
  "task_codec_ok cd \<longleftrightarrow> (\<forall>t. load_task cd (dump_task cd t) = Inr t)"

lemma ok_published:
  assumes laws: "group_laws api view" and ok: "worker_ok cd view w" and cd: "task_codec_ok cd"
    and pub: "length (g_stream (view (w_redis w))) < max_length (w_queue w)" "publish api cd (w_queue w) task (w_redis w) = (i, r)"
  shows "worker_ok cd view (w\<lparr>w_redis := r\<rparr>)"
proof -
  note d = worker_okD [OF ok]
  let ?v = "view (w_redis w)"
  obtain k where k: "\<forall>k' \<in> fst ` set (g_stream ?v) \<union> {(0, 0), g_last ?v}. k' < k"
    and v': "view r = ?v\<lparr>g_stream := g_stream ?v @ [(k, [(TASK_PAYLOAD, dump_task cd task)])]\<rparr>"
    by (rule publish_view [OF laws pub])
  have "undelivered (view r) = undelivered ?v @ [(k, [(TASK_PAYLOAD, dump_task cd task)])]"
    using k by (simp add: undelivered_def v')
  then have live: "live (view r) = insert k (live ?v)" by (simp add: live_def v')
  have ok': "view_ok (view r)" using d(1) k by (auto simp: view_ok_def v' sorted_wrt_append)
  have "decode_task cd (shown (k, [(TASK_PAYLOAD, dump_task cd task)])) = Inr \<lparr>delivery_id = show_key k, delivery_task = task\<rparr>"
    using cd by (simp add: decode_task_def shown_def task_codec_ok_def)
  then have tasks: "tasks_ok cd (view r)" using d(3) by (simp add: tasks_ok_def v')
  have "show_key ` fst ` set (g_stream (view r)) \<subseteq> show_key ` live (view r) \<union> set (finished_ids w)"
    using d(9) by (simp add: v' live [unfolded v']) blast
  then show ?thesis
    by (intro worker_okI [OF refl]) (use d ok' tasks in \<open>simp_all add: v' held_ok_def\<close>)
qed

lemma ok_step:
  assumes "group_laws api view" "task_codec_ok cd" "worker_step api view cd w w'" "worker_ok cd view w"
  shows "worker_ok cd view w'"
  using assms(3,4)
proof cases
  case stop
  then show ?thesis using assms(4) by (simp add: stop_worker_def worker_ok_def)
qed (auto intro: ok_guard ok_receive [OF assms(1)] ok_handled [OF assms(1)] ok_beat [OF assms(1)] ok_killed
    ok_published [OF assms(1) _ assms(2)] ok_elapsed)

lemma ok_reach:
  assumes "group_laws api view" "task_codec_ok cd" "worker_ok cd view w0" "worker_reach api view cd w0 w"
  shows "worker_ok cd view w"
  using assms(4) by induction (use assms(3) ok_step [OF assms(1,2)] in auto)

section \<open>Properties\<close>

text \<open>C8. The worker runs every task at least once and none twice at a time. Through any interleaving of publishing,
  the loop, handlers that end well, badly or without their acknowledgement, heartbeats and kills with restarts, the worker
  drives no more runs than its bound, no message in two handlers, and only messages that are pending; and a message
  of the stream is waiting or pending unless a handler ended and acknowledged it (the stream below its bound).\<close>

theorem worker_safe:
  assumes "group_laws api view" "task_codec_ok cd" "worker_ok cd view w0" "worker_reach api view cd w0 w"
  shows "length (running w) \<le> concurrency w \<and> distinct (running_ids w) \<and>
    (\<forall>x \<in> set (running w). \<exists>k. delivery_id x = show_key k \<and> k \<in> fst ` set (g_pend (view (w_redis w)))) \<and>
    (\<forall>k \<in> fst ` set (g_stream (view (w_redis w))). k \<in> live (view (w_redis w)) \<or> show_key k \<in> set (finished_ids w))"
proof -
  have ok: "worker_ok cd view w" by (rule ok_reach [OF assms])
  note d = worker_okD [OF ok]
  have "k \<in> live (view (w_redis w)) \<or> show_key k \<in> set (finished_ids w)"
    if "k \<in> fst ` set (g_stream (view (w_redis w)))" for k
  proof -
    have "show_key k \<in> show_key ` live (view (w_redis w)) \<union> set (finished_ids w)" using d(9) that by blast
    then show ?thesis by (simp only: Un_iff inj_image_mem_iff [OF inj_show_key])
  qed
  moreover have "\<exists>k. delivery_id x = show_key k \<and> k \<in> fst ` set (g_pend (view (w_redis w)))" if "x \<in> set (running w)" for x
    by (rule held_is_pending [OF ok that]) blast
  ultimately show ?thesis using d(5,6) by (simp split: if_splits)
qed

definition sample_worker :: "RunTask group_view Worker" where
  "sample_worker = \<lparr>w_queue = sample_queue, w_redis = sample_group 0 2 (\<lambda>_. 0), concurrency = 1, running = [],
     stopping = False, point = Reserving, finished_ids = []\<rparr>"

theorem worker_safe_witness:
  "\<exists>w. worker_reach mem_group (\<lambda>v. v) plain_tasks sample_worker w \<and> running w \<noteq> [] \<and> length (running w) \<le> 1"
proof -
  have ok: "worker_ok plain_tasks (\<lambda>v. v) sample_worker"
    using sample_group_ok [of 0 2 "\<lambda>_. 0"]
    by (auto simp: worker_ok_def sample_worker_def sample_queue_def held_ok_def live_def undelivered_def)
      (auto simp: sample_group_def less_prod_def' image_iff)
  have cd: "task_codec_ok plain_tasks" by (simp add: task_codec_ok_def plain_tasks_def)
  obtain res q' r' where r: "reserve mem_group plain_tasks 1 sample_queue (sample_group 0 2 (\<lambda>_. 0)) = Some (Inr res, q', r')"
      "reserved_from plain_tasks sample_queue (sample_group 0 2 (\<lambda>_. 0)) res q' r'"
    using reserve_spec [OF mem_group_laws, of "sample_group 0 2 (\<lambda>_. 0)" plain_tasks sample_queue 1] worker_okD [OF ok]
    by (auto simp: sample_worker_def sample_group_ok)
  then obtain x where x: "res = Some x"
    by (cases res) (auto simp: reserved_from_def undelivered_def sample_group_def upt_rec)
  let ?w = "spawn x (sample_worker\<lparr>w_queue := q', w_redis := r', point := AtGuard\<rparr>)"
  have "loop_receive mem_group plain_tasks 1 sample_worker = Some ?w" using r x by (simp add: loop_receive_def sample_worker_def)
  then have "worker_reach mem_group (\<lambda>v. v) plain_tasks sample_worker ?w"
    by (intro worker_reach.later [OF worker_reach.start] worker_step.receive [of _ _ 1])
      (auto simp: sample_worker_def sample_group_ok)
  with worker_safe [OF mem_group_laws cd ok this] show ?thesis
    by (intro exI [of _ ?w]) (simp add: spawn_def sample_worker_def)
qed

end
