(* ===== verification/Memory_Files.thy ===== *)
theory Memory_Files
  imports Prelude "HOL-Library.Sublist" "HOL-Library.List_Lexorder" "HOL-Library.Char_ord"
begin

text \<open>
  The transactional replacement of the files of a thread's memory directory (\<open>_replace_files\<close> and
  \<open>_recover_transaction_artifacts\<close> of \<open>app/memory/store.py\<close>). A directory is an association list of its files; the
  directory has two sub-directories, \<open>.stage\<close> and \<open>.backup\<close>, and two marker files. The code is the list of system
  calls it issues, computed from the directory it finds: a crash is a prefix of the list, an exception is a
  prefix followed by the clean-up of the \<open>except\<close> block. A file that was created and not yet filled is \<open>Partial\<close>.
  System calls take effect in the order they are issued.
\<close>

section \<open>Directories\<close>

datatype 'f fcontent = Partial | Whole 'f

type_synonym 'f dir = "(string \<times> 'f fcontent) list"

definition put_file :: "string \<Rightarrow> 'f fcontent \<Rightarrow> 'f dir \<Rightarrow> 'f dir" where
  "put_file n f d = (n, f) # filter (\<lambda>x. fst x \<noteq> n) d"

definition del_file :: "string \<Rightarrow> 'f dir \<Rightarrow> 'f dir" where
  "del_file n d = filter (\<lambda>x. fst x \<noteq> n) d"

text \<open>\<open>sorted(directory.iterdir(), key=name)\<close>\<close>

definition file_names :: "'f dir \<Rightarrow> string list" where
  "file_names d = sort (remdups (map fst d))"

record 'f memdir =
  dir_exists :: bool
  active :: "'f dir"
  stage :: "'f dir option"
  backup :: "'f dir option"
  promoting :: bool
  committed :: bool

section \<open>System calls\<close>

datatype 'f fs_call =
    Mkdir_memory
  | Rmdir_memory
  | Mkdir_stage
  | Mkdir_backup
  | Create_staged string
  | Fill_staged string 'f
  | Sync
  | Back_up string
  | Create_promoting
  | Promote string
  | Commit
  | Unlink_backup string
  | Rmdir_backup
  | Unlink_staged string
  | Rmdir_stage
  | Unlink_active string
  | Restore string
  | Unlink_promoting
  | Unlink_committed

fun fs_step :: "'f memdir \<Rightarrow> 'f fs_call \<Rightarrow> 'f memdir" where
  "fs_step d Mkdir_memory = d\<lparr>dir_exists := True\<rparr>"
| "fs_step d Rmdir_memory = d\<lparr>dir_exists := False\<rparr>"
| "fs_step d Mkdir_stage = d\<lparr>stage := Some []\<rparr>"
| "fs_step d Mkdir_backup = d\<lparr>backup := Some []\<rparr>"
| "fs_step d (Create_staged n) = d\<lparr>stage := map_option (put_file n Partial) (stage d)\<rparr>"
| "fs_step d (Fill_staged n x) = d\<lparr>stage := map_option (put_file n (Whole x)) (stage d)\<rparr>"
| "fs_step d Sync = d"
| "fs_step d (Back_up n) =
     (case map_of (active d) n of
        None \<Rightarrow> d
      | Some f \<Rightarrow> d\<lparr>active := del_file n (active d), backup := map_option (put_file n f) (backup d)\<rparr>)"
| "fs_step d Create_promoting = d\<lparr>promoting := True\<rparr>"
| "fs_step d (Promote n) =
     (case map_of (case stage d of None \<Rightarrow> [] | Some s \<Rightarrow> s) n of
        None \<Rightarrow> d
      | Some f \<Rightarrow> d\<lparr>stage := map_option (del_file n) (stage d), active := put_file n f (active d)\<rparr>)"
| "fs_step d Commit = d\<lparr>promoting := False, committed := True\<rparr>"
| "fs_step d (Unlink_backup n) = d\<lparr>backup := map_option (del_file n) (backup d)\<rparr>"
| "fs_step d Rmdir_backup = d\<lparr>backup := None\<rparr>"
| "fs_step d (Unlink_staged n) = d\<lparr>stage := map_option (del_file n) (stage d)\<rparr>"
| "fs_step d Rmdir_stage = d\<lparr>stage := None\<rparr>"
| "fs_step d (Unlink_active n) = d\<lparr>active := del_file n (active d)\<rparr>"
| "fs_step d (Restore n) =
     (case map_of (case backup d of None \<Rightarrow> [] | Some b \<Rightarrow> b) n of
        None \<Rightarrow> d
      | Some f \<Rightarrow> d\<lparr>backup := map_option (del_file n) (backup d), active := put_file n f (active d)\<rparr>)"
| "fs_step d Unlink_promoting = d\<lparr>promoting := False\<rparr>"
| "fs_step d Unlink_committed = d\<lparr>committed := False\<rparr>"

definition fs_run :: "'f fs_call list \<Rightarrow> 'f memdir \<Rightarrow> 'f memdir" where
  "fs_run cs d = foldl fs_step d cs"

section \<open>The code\<close>

text \<open>\<open>_remove_path\<close> of a directory, if it is there.\<close>

definition remove_backup :: "'f dir option \<Rightarrow> 'f fs_call list" where
  "remove_backup b = (case b of None \<Rightarrow> [] | Some fs \<Rightarrow> map Unlink_backup (file_names fs) @ [Rmdir_backup])"

definition remove_stage :: "'f dir option \<Rightarrow> 'f fs_call list" where
  "remove_stage s = (case s of None \<Rightarrow> [] | Some fs \<Rightarrow> map Unlink_staged (file_names fs) @ [Rmdir_stage])"

definition write_stage_file :: "string \<times> 'f \<Rightarrow> 'f fs_call list" where
  "write_stage_file p = [Create_staged (fst p), Fill_staged (fst p) (snd p)]"

text \<open>The \<open>try\<close> block of \<open>_replace_files\<close>, up to and with the rename that commits, in three parts: staging,
  backing up, promoting. \<open>new\<close> are the files to write, the index included.\<close>

definition stage_calls :: "bool \<Rightarrow> (string \<times> 'f) list \<Rightarrow> 'f fs_call list" where
  "stage_calls exists new =
     (if exists then [] else [Mkdir_memory, Sync]) @ [Mkdir_stage, Mkdir_backup] @
     concat (map write_stage_file new) @ [Sync, Sync]"

definition backup_calls :: "'f dir \<Rightarrow> 'f fs_call list" where
  "backup_calls old = map Back_up (file_names old) @ [Create_promoting, Sync, Sync]"

definition promote_calls :: "(string \<times> 'f) list \<Rightarrow> 'f fs_call list" where
  "promote_calls new = map Promote (sort (remdups (map fst new))) @ [Commit, Sync]"

text \<open>The clean-up after the commit: the backup still holds the old files, the stage is empty.\<close>

definition cleanup_calls :: "'f dir \<Rightarrow> 'f fs_call list" where
  "cleanup_calls old = remove_backup (Some old) @ remove_stage (Some []) @ [Unlink_committed, Sync]"

definition replace_calls :: "'f memdir \<Rightarrow> (string \<times> 'f) list \<Rightarrow> 'f fs_call list" where
  "replace_calls d new =
     stage_calls (dir_exists d) new @ backup_calls (active d) @ promote_calls new @ cleanup_calls (active d)"

definition recover_calls :: "'f memdir \<Rightarrow> 'f fs_call list" where
  "recover_calls d =
     (if committed d
      then remove_backup (backup d) @ remove_stage (stage d) @ [Unlink_promoting, Unlink_committed, Sync]
      else (case backup d of
              None \<Rightarrow> []
            | Some b \<Rightarrow>
                (if promoting d then map Unlink_active (file_names (active d)) else []) @
                map Restore (file_names b) @ [Rmdir_backup]) @
           remove_stage (stage d) @ [Unlink_promoting, Sync])"

text \<open>The \<open>except\<close> block, after the first \<open>n\<close> calls succeeded and the next one failed, before the commit: what was
  promoted is removed, what was backed up is moved back, and the temporary entries are removed.\<close>

fun promoted_name :: "'f fs_call \<Rightarrow> string option" where
  "promoted_name (Promote n) = Some n"
| "promoted_name _ = None"

fun moved_name :: "'f fs_call \<Rightarrow> string option" where
  "moved_name (Back_up n) = Some n"
| "moved_name _ = None"

definition rollback_calls :: "'f fs_call list \<Rightarrow> bool \<Rightarrow> 'f memdir \<Rightarrow> 'f fs_call list" where
  "rollback_calls performed existed d =
     (let undo = map Unlink_active (List.map_filter promoted_name performed) @ map Restore (List.map_filter moved_name performed);
          d' = fs_run undo d
      in undo @ remove_stage (stage d') @ remove_backup (backup d') @ [Unlink_promoting] @
         (if existed \<or> active d' \<noteq> [] then [Sync] else [Rmdir_memory, Sync]))"

section \<open>Lemmas\<close>

lemma map_of_del [simp]: "map_of (del_file n d) = (map_of d)(n := None)"
  by (induction d) (auto simp: del_file_def fun_eq_iff)

lemma map_of_put [simp]: "map_of (put_file n f d) = (map_of d)(n \<mapsto> f)"
  using map_of_del [of n d] by (simp add: put_file_def del_file_def)

lemma set_file_names [simp]: "set (file_names d) = dom (map_of d)"
  by (simp add: file_names_def dom_map_of_conv_image_fst)

abbreviation active_map :: "'f memdir \<Rightarrow> string \<rightharpoonup> 'f fcontent" where
  "active_map d \<equiv> map_of (active d)"

definition opt_map :: "'f dir option \<Rightarrow> string \<rightharpoonup> 'f fcontent" where
  "opt_map b = (case b of None \<Rightarrow> Map.empty | Some fs \<Rightarrow> map_of fs)"

lemma opt_map_simps [simp]: "opt_map None = Map.empty" "opt_map (Some fs) = map_of fs"
  by (simp_all add: opt_map_def)

lemma fs_run_simps [simp]: "fs_run [] d = d" "fs_run (c # cs) d = fs_run cs (fs_step d c)" "fs_run (cs @ cs') d = fs_run cs' (fs_run cs d)"
  by (simp_all add: fs_run_def)

text \<open>What a loop over names does.\<close>

lemma run_Restore:
  assumes "backup d = Some b"
  shows "\<exists>a' b'. fs_run (map Restore ns) d = d\<lparr>active := a', backup := Some b'\<rparr> \<and>
    map_of a' = active_map d ++ (map_of b |` set ns) \<and> map_of b' = map_of b |` (- set ns)"
  using assms
proof (induction ns arbitrary: d b)
  case Nil
  then show ?case by (intro exI [of _ "active d"] exI [of _ b]) simp
next
  case (Cons n ns)
  show ?case
  proof (cases "map_of b n")
    case None
    then have "fs_step d (Restore n) = d" using Cons.prems by simp
    moreover have "map_of b |` set (n # ns) = map_of b |` set ns" "map_of b |` (- set (n # ns)) = map_of b |` (- set ns)"
      using None by (auto simp: restrict_map_def fun_eq_iff)
    ultimately show ?thesis using Cons.IH [OF Cons.prems] by simp
  next
    case (Some f)
    let ?d = "d\<lparr>backup := Some (del_file n b), active := put_file n f (active d)\<rparr>"
    have st: "backup ?d = Some (del_file n b)" by simp
    have "fs_step d (Restore n) = ?d" using Cons.prems Some by simp
    moreover obtain a' b' where r: "fs_run (map Restore ns) ?d = ?d\<lparr>active := a', backup := Some b'\<rparr>"
        "map_of a' = active_map ?d ++ (map_of (del_file n b) |` set ns)" "map_of b' = map_of (del_file n b) |` (- set ns)"
      using Cons.IH [of ?d "del_file n b", OF st] by blast
    moreover have "map_of a' = active_map d ++ (map_of b |` set (n # ns))"
      using Some by (auto simp: r(2) restrict_map_def map_add_def fun_eq_iff split: option.splits)
    moreover have "map_of b' = map_of b |` (- set (n # ns))"
      by (auto simp: r(3) restrict_map_def fun_eq_iff)
    ultimately show ?thesis by (intro exI [of _ a'] exI [of _ b']) simp
  qed
qed

lemma run_Back_up:
  assumes "backup d = Some b"
  shows "\<exists>a' b'. fs_run (map Back_up ns) d = d\<lparr>active := a', backup := Some b'\<rparr> \<and>
    map_of a' = active_map d |` (- set ns) \<and> map_of b' = map_of b ++ (active_map d |` set ns)"
  using assms
proof (induction ns arbitrary: d b)
  case Nil
  then show ?case by (intro exI [of _ "active d"] exI [of _ b]) simp
next
  case (Cons n ns)
  show ?case
  proof (cases "active_map d n")
    case None
    then have "fs_step d (Back_up n) = d" by simp
    moreover have "active_map d |` set (n # ns) = active_map d |` set ns" "active_map d |` (- set (n # ns)) = active_map d |` (- set ns)"
      using None by (auto simp: restrict_map_def fun_eq_iff)
    ultimately show ?thesis using Cons.IH [OF Cons.prems] by simp
  next
    case (Some f)
    let ?d = "d\<lparr>active := del_file n (active d), backup := Some (put_file n f b)\<rparr>"
    have st: "backup ?d = Some (put_file n f b)" by simp
    have "fs_step d (Back_up n) = ?d" using Cons.prems Some by simp
    moreover obtain a' b' where r: "fs_run (map Back_up ns) ?d = ?d\<lparr>active := a', backup := Some b'\<rparr>"
        "map_of a' = active_map ?d |` (- set ns)" "map_of b' = map_of (put_file n f b) ++ (active_map ?d |` set ns)"
      using Cons.IH [of ?d "put_file n f b", OF st] by blast
    moreover have "map_of a' = active_map d |` (- set (n # ns))"
      by (auto simp: r(2) restrict_map_def fun_eq_iff)
    moreover have "map_of b' = map_of b ++ (active_map d |` set (n # ns))"
      using Some by (auto simp: r(3) restrict_map_def map_add_def fun_eq_iff split: option.splits)
    ultimately show ?thesis by (intro exI [of _ a'] exI [of _ b']) simp
  qed
qed

lemma run_Promote:
  assumes "stage d = Some s"
  shows "\<exists>a' s'. fs_run (map Promote ns) d = d\<lparr>active := a', stage := Some s'\<rparr> \<and>
    map_of a' = active_map d ++ (map_of s |` set ns) \<and> map_of s' = map_of s |` (- set ns)"
  using assms
proof (induction ns arbitrary: d s)
  case Nil
  then show ?case by (intro exI [of _ "active d"] exI [of _ s]) simp
next
  case (Cons n ns)
  show ?case
  proof (cases "map_of s n")
    case None
    then have "fs_step d (Promote n) = d" using Cons.prems by simp
    moreover have "map_of s |` set (n # ns) = map_of s |` set ns" "map_of s |` (- set (n # ns)) = map_of s |` (- set ns)"
      using None by (auto simp: restrict_map_def fun_eq_iff)
    ultimately show ?thesis using Cons.IH [OF Cons.prems] by simp
  next
    case (Some f)
    let ?d = "d\<lparr>stage := Some (del_file n s), active := put_file n f (active d)\<rparr>"
    have st: "stage ?d = Some (del_file n s)" by simp
    have "fs_step d (Promote n) = ?d" using Cons.prems Some by simp
    moreover obtain a' s' where r: "fs_run (map Promote ns) ?d = ?d\<lparr>active := a', stage := Some s'\<rparr>"
        "map_of a' = active_map ?d ++ (map_of (del_file n s) |` set ns)" "map_of s' = map_of (del_file n s) |` (- set ns)"
      using Cons.IH [of ?d "del_file n s", OF st] by blast
    moreover have "map_of a' = active_map d ++ (map_of s |` set (n # ns))"
      using Some by (auto simp: r(2) restrict_map_def map_add_def fun_eq_iff split: option.splits)
    moreover have "map_of s' = map_of s |` (- set (n # ns))"
      by (auto simp: r(3) restrict_map_def fun_eq_iff)
    ultimately show ?thesis by (intro exI [of _ a'] exI [of _ s']) simp
  qed
qed

lemma run_Unlink_active:
  "\<exists>a'. fs_run (map Unlink_active ns) d = d\<lparr>active := a'\<rparr> \<and> map_of a' = active_map d |` (- set ns)"
proof (induction ns arbitrary: d)
  case Nil
  then show ?case by (intro exI [of _ "active d"]) simp
next
  case (Cons n ns)
  obtain a' where "fs_run (map Unlink_active ns) (fs_step d (Unlink_active n)) = (fs_step d (Unlink_active n))\<lparr>active := a'\<rparr>"
      "map_of a' = active_map (fs_step d (Unlink_active n)) |` (- set ns)"
    using Cons.IH by blast
  then show ?case by (intro exI [of _ a']) (auto simp: restrict_map_def fun_eq_iff)
qed

lemma run_remove_some_backup:
  "fs_run (remove_backup (Some fs)) d = d\<lparr>backup := None\<rparr>"
proof -
  have "\<exists>b'. fs_run (map Unlink_backup ns) d = d\<lparr>backup := b'\<rparr>" for ns and d :: "'a memdir"
  proof (induction ns arbitrary: d)
    case Nil
    then show ?case by (intro exI [of _ "backup d"]) simp
  next
    case (Cons n ns)
    then obtain b' where "fs_run (map Unlink_backup ns) (fs_step d (Unlink_backup n)) = (fs_step d (Unlink_backup n))\<lparr>backup := b'\<rparr>"
      by blast
    then show ?case by (intro exI [of _ b']) simp
  qed
  then obtain b' where "fs_run (map Unlink_backup (file_names fs)) d = d\<lparr>backup := b'\<rparr>" by blast
  then show ?thesis by (simp add: remove_backup_def)
qed

lemma run_remove_backup: "fs_run (remove_backup (backup d)) d = d\<lparr>backup := None\<rparr>"
  using run_remove_some_backup [of _ d] by (cases "backup d") (auto simp: remove_backup_def)

lemma run_remove_some_stage:
  "fs_run (remove_stage (Some fs)) d = d\<lparr>stage := None\<rparr>"
proof -
  have "\<exists>s'. fs_run (map Unlink_staged ns) d = d\<lparr>stage := s'\<rparr>" for ns and d :: "'a memdir"
  proof (induction ns arbitrary: d)
    case Nil
    then show ?case by (intro exI [of _ "stage d"]) simp
  next
    case (Cons n ns)
    then obtain s' where "fs_run (map Unlink_staged ns) (fs_step d (Unlink_staged n)) = (fs_step d (Unlink_staged n))\<lparr>stage := s'\<rparr>"
      by blast
    then show ?case by (intro exI [of _ s']) simp
  qed
  then obtain s' where "fs_run (map Unlink_staged (file_names fs)) d = d\<lparr>stage := s'\<rparr>" by blast
  then show ?thesis by (simp add: remove_stage_def)
qed

lemma run_remove_stage: "fs_run (remove_stage (stage d)) d = d\<lparr>stage := None\<rparr>"
  using run_remove_some_stage [of _ d] by (cases "stage d") (auto simp: remove_stage_def)

section \<open>The phases of the transaction\<close>

text \<open>Before the promotion marker, the active files and the backup together are the old files.\<close>

definition preparing :: "(string \<rightharpoonup> 'f fcontent) \<Rightarrow> 'f memdir \<Rightarrow> bool" where
  "preparing old d \<longleftrightarrow> \<not> committed d \<and> \<not> promoting d \<and> dom (active_map d) \<inter> dom (opt_map (backup d)) = {} \<and>
     active_map d ++ opt_map (backup d) = old"

text \<open>With the marker, the backup is the old files.\<close>

definition in_promotion :: "(string \<rightharpoonup> 'f fcontent) \<Rightarrow> 'f memdir \<Rightarrow> bool" where
  "in_promotion old d \<longleftrightarrow> \<not> committed d \<and> promoting d \<and> backup d \<noteq> None \<and> opt_map (backup d) = old"

text \<open>After the commit, the active files are the new ones.\<close>

definition done_with :: "(string \<rightharpoonup> 'f fcontent) \<Rightarrow> 'f memdir \<Rightarrow> bool" where
  "done_with new d \<longleftrightarrow> committed d \<and> \<not> promoting d \<and> active_map d = new"

text \<open>A directory at rest.\<close>

definition settled :: "(string \<rightharpoonup> 'f fcontent) \<Rightarrow> 'f memdir \<Rightarrow> bool" where
  "settled m d \<longleftrightarrow> \<not> committed d \<and> \<not> promoting d \<and> backup d = None \<and> stage d = None \<and> active_map d = m"

definition recover :: "'f memdir \<Rightarrow> 'f memdir" where
  "recover d = fs_run (recover_calls d) d"

lemma recover_preparing: "preparing m d \<Longrightarrow> settled m (recover d)"
proof (cases "backup d")
  case None
  assume p: "preparing m d"
  have "fs_run (recover_calls d) d = (d\<lparr>stage := None\<rparr>)\<lparr>promoting := False\<rparr>"
    using p None run_remove_stage [of d] by (simp add: recover_calls_def preparing_def)
  then show ?thesis using p None by (simp add: recover_def settled_def preparing_def)
next
  case (Some b)
  assume p: "preparing m d"
  obtain a' b' where r: "fs_run (map Restore (file_names b)) d = d\<lparr>active := a', backup := Some b'\<rparr>"
      "map_of a' = active_map d ++ (map_of b |` dom (map_of b))"
    using run_Restore [OF Some, of "file_names b"] by auto
  let ?d = "d\<lparr>active := a', backup := None\<rparr>"
  have "fs_run (recover_calls d) d = fs_run (remove_stage (stage ?d) @ [Unlink_promoting, Sync]) ?d"
    using p Some r(1) by (simp add: recover_calls_def preparing_def)
  then have "recover d = ?d\<lparr>stage := None, promoting := False\<rparr>"
    using run_remove_stage [of ?d] by (simp add: recover_def)
  moreover have "map_of b |` dom (map_of b) = map_of b" by (auto simp: restrict_map_def fun_eq_iff domIff)
  ultimately show ?thesis using p Some r(2) by (simp add: settled_def preparing_def)
qed

lemma recover_promotion: "in_promotion m d \<Longrightarrow> settled m (recover d)"
proof -
  assume p: "in_promotion m d"
  then obtain b where b: "backup d = Some b" "map_of b = m" by (auto simp: in_promotion_def)
  obtain a where a: "fs_run (map Unlink_active (file_names (active d))) d = d\<lparr>active := a\<rparr>"
      "map_of a = active_map d |` (- dom (active_map d))"
    using run_Unlink_active [of "file_names (active d)" d] by auto
  have none: "map_of a = Map.empty" by (auto simp: a(2) restrict_map_def fun_eq_iff domIff)
  obtain a' b' where r: "fs_run (map Restore (file_names b)) (d\<lparr>active := a\<rparr>) = d\<lparr>active := a', backup := Some b'\<rparr>"
      "map_of a' = map_of a ++ (map_of b |` dom (map_of b))"
    using run_Restore [of "d\<lparr>active := a\<rparr>" b "file_names b"] b(1) by auto
  let ?d = "d\<lparr>active := a', backup := None\<rparr>"
  have "fs_run (recover_calls d) d = fs_run (remove_stage (stage ?d) @ [Unlink_promoting, Sync]) ?d"
    using p b(1) a(1) r(1) by (simp add: recover_calls_def in_promotion_def)
  then have "recover d = ?d\<lparr>stage := None, promoting := False\<rparr>"
    using run_remove_stage [of ?d] by (simp add: recover_def)
  moreover have "map_of b |` dom (map_of b) = map_of b" by (auto simp: restrict_map_def fun_eq_iff domIff)
  ultimately show ?thesis using p b r(2) none by (simp add: settled_def in_promotion_def)
qed

lemma recover_done: "done_with m d \<Longrightarrow> settled m (recover d)"
  using run_remove_backup [of d] run_remove_stage [of "d\<lparr>backup := None\<rparr>"]
  by (simp add: recover_def recover_calls_def done_with_def settled_def)

section \<open>The states between the calls\<close>

definition new_files :: "(string \<times> 'f) list \<Rightarrow> string \<rightharpoonup> 'f fcontent" where
  "new_files new = map_option Whole \<circ> map_of new"

lemma dom_new_files: "dom (new_files new) = fst ` set new"
  by (auto simp: new_files_def dom_def map_of_eq_None_iff image_iff)

fun staging :: "'f fs_call \<Rightarrow> bool" where
  "staging Mkdir_memory = True"
| "staging Mkdir_stage = True"
| "staging Mkdir_backup = True"
| "staging (Create_staged _) = True"
| "staging (Fill_staged _ _) = True"
| "staging Sync = True"
| "staging _ = False"

lemma stage_calls_staging: "c \<in> set (stage_calls e new) \<Longrightarrow> staging c"
  by (auto simp: stage_calls_def write_stage_file_def split: if_splits)

text \<open>Staging touches neither the active files nor the markers, and leaves the backup empty.\<close>

lemma run_staging:
  assumes "\<forall>c \<in> set cs. staging c" "backup d \<in> {None, Some []}"
  shows "active (fs_run cs d) = active d \<and> promoting (fs_run cs d) = promoting d \<and>
    committed (fs_run cs d) = committed d \<and> backup (fs_run cs d) \<in> {None, Some []}"
  using assms
proof (induction cs arbitrary: d)
  case (Cons c cs)
  have "active (fs_step d c) = active d" "promoting (fs_step d c) = promoting d" "committed (fs_step d c) = committed d"
      "backup (fs_step d c) \<in> {None, Some []}"
    using Cons.prems by (cases c; auto)+
  then show ?case using Cons.IH [of "fs_step d c"] Cons.prems by simp
qed simp

lemma run_write_stage:
  assumes "stage d = Some s" "distinct (map fst new)"
  shows "\<exists>s'. fs_run (concat (map write_stage_file new)) d = d\<lparr>stage := Some s'\<rparr> \<and> map_of s' = map_of s ++ new_files new"
  using assms
proof (induction new arbitrary: d s)
  case Nil
  then show ?case by (intro exI [of _ s]) (simp add: new_files_def)
next
  case (Cons p new)
  let ?s = "put_file (fst p) (Whole (snd p)) (put_file (fst p) Partial s)"
  let ?d = "d\<lparr>stage := Some ?s\<rparr>"
  have step: "fs_run (write_stage_file p) d = ?d" using Cons.prems(1) by (simp add: write_stage_file_def)
  have st: "stage ?d = Some ?s" by simp
  have nd: "distinct (map fst new)" using Cons.prems(2) by simp
  obtain s' where s': "fs_run (concat (map write_stage_file new)) ?d = ?d\<lparr>stage := Some s'\<rparr>" "map_of s' = map_of ?s ++ new_files new"
    using Cons.IH [OF st] nd by blast
  have "map_of new (fst p) = None" using Cons.prems(2) by (simp add: map_of_eq_None_iff)
  then have "map_of s' = map_of s ++ new_files (p # new)"
    by (auto simp: s'(2) new_files_def map_add_def fun_eq_iff split: option.splits)
  then show ?case using s'(1) step by (intro exI [of _ s']) simp
qed

lemma run_stage_calls:
  assumes "distinct (map fst new)"
  shows "\<exists>s. stage (fs_run (stage_calls e new) d) = Some s \<and> map_of s = new_files new \<and>
    backup (fs_run (stage_calls e new) d) = Some []"
proof -
  let ?d = "(fs_run (if e then [] else [Mkdir_memory, Sync]) d)\<lparr>stage := Some [], backup := Some []\<rparr>"
  have "stage ?d = Some []" by simp
  from run_write_stage [OF this assms] show ?thesis by (auto simp: stage_calls_def)
qed

lemma prefix_cases:
  assumes "prefix cs (a @ b)"
  obtains "prefix cs a" | z where "cs = a @ z" "prefix z b"
  using assms by (auto simp: prefix_append)

lemma prefix_mapE: "prefix cs (map f ns) \<Longrightarrow> \<exists>ms. prefix ms ns \<and> cs = map f ms"
  by (metis prefix_def map_eq_append_conv)

text \<open>The old files are moved away.\<close>

lemma run_backing_up:
  assumes d: "active_map d = old" "\<not> committed d" "\<not> promoting d" "backup d = Some []" and ms: "set ms \<subseteq> dom old"
  shows "\<exists>a b. fs_run (map Back_up ms) d = d\<lparr>active := a, backup := Some b\<rparr> \<and> map_of a = old |` (- set ms) \<and> map_of b = old |` set ms \<and>
    preparing old (fs_run (map Back_up ms) d)"
proof -
  obtain a b where r: "fs_run (map Back_up ms) d = d\<lparr>active := a, backup := Some b\<rparr>" "map_of a = old |` (- set ms)" "map_of b = old |` set ms"
    using run_Back_up [OF d(4), of ms] d(1) by auto
  moreover have "dom (old |` (- set ms)) \<inter> dom (old |` set ms) = {}" by auto
  moreover have "old |` (- set ms) ++ old |` set ms = old" by (auto simp: restrict_map_def map_add_def fun_eq_iff split: option.splits)
  ultimately show ?thesis using d by (intro exI [of _ a] exI [of _ b]) (simp add: preparing_def)
qed

fun tidying :: "'f fs_call \<Rightarrow> bool" where
  "tidying (Unlink_backup _) = True"
| "tidying Rmdir_backup = True"
| "tidying (Unlink_staged _) = True"
| "tidying Rmdir_stage = True"
| "tidying Sync = True"
| "tidying _ = False"

lemma run_tidying: "\<forall>c \<in> set cs. tidying c \<Longrightarrow> done_with m d \<Longrightarrow> done_with m (fs_run cs d)"
proof (induction cs arbitrary: d)
  case (Cons c cs)
  have "done_with m (fs_step d c)" using Cons.prems by (cases c) (auto simp: done_with_def)
  then show ?case using Cons by simp
qed simp

lemma run_cleanup:
  assumes "done_with m d" "prefix cs (cleanup_calls old)"
  shows "done_with m (fs_run cs d) \<or> settled m (fs_run cs d)"
proof -
  let ?t = "remove_backup (Some old) @ remove_stage (Some [])"
  have tidy: "\<forall>c \<in> set ?t. tidying c" by (auto simp: remove_backup_def remove_stage_def file_names_def)
  have "prefix cs (?t @ [Unlink_committed, Sync])" using assms(2) by (simp add: cleanup_calls_def)
  then show ?thesis
  proof (cases rule: prefix_cases)
    case 1
    then have "\<forall>c \<in> set cs. tidying c" using tidy set_mono_prefix by blast
    then show ?thesis using run_tidying assms(1) by blast
  next
    case (2 z)
    have t: "fs_run ?t d = d\<lparr>backup := None, stage := None\<rparr>" by (simp add: run_remove_some_backup run_remove_some_stage)
    have "z \<in> {[], [Unlink_committed], [Unlink_committed, Sync]}" using 2(2) by (auto simp: prefix_Cons)
    then show ?thesis using 2(1) t assms(1) by (auto simp: done_with_def settled_def)
  qed
qed

text \<open>Every state a crash can leave: the old files are there until the commit, the new ones from then on.\<close>

lemma replace_prefix:
  assumes d: "settled old d" and new: "distinct (map fst new)" and cs: "prefix cs (replace_calls d new)"
  shows "if Commit \<in> set cs then done_with (new_files new) (fs_run cs d) \<or> settled (new_files new) (fs_run cs d)
    else preparing old (fs_run cs d) \<or> in_promotion old (fs_run cs d)"
proof -
  let ?S = "stage_calls (dir_exists d) new" and ?B = "backup_calls (active d)" and ?P = "promote_calls new"
  have act: "active_map d = old" "\<not> committed d" "\<not> promoting d" "backup d = None" using d by (auto simp: settled_def)
  have stg: "preparing old (fs_run c d)" if "\<forall>x \<in> set c. staging x" for c
    using run_staging [of c d] that act by (auto simp: preparing_def)
  have allS: "\<forall>c \<in> set ?S. staging c" using stage_calls_staging by blast
  have noc: "Commit \<notin> set ?S" using stage_calls_staging [of Commit] by auto
  let ?d1 = "fs_run ?S d"
  obtain s where d1: "stage ?d1 = Some s" "map_of s = new_files new" "backup ?d1 = Some []"
    using run_stage_calls [OF new, of "dir_exists d" d] by blast
  have d1': "active_map ?d1 = old" "\<not> committed ?d1" "\<not> promoting ?d1"
    using run_staging [OF allS, of d] act by auto
  let ?ns = "file_names (active d)"
  have ns: "set ?ns = dom old" using act(1) by simp
  obtain a b where d2: "fs_run (map Back_up ?ns) ?d1 = ?d1\<lparr>active := a, backup := Some b\<rparr>" "map_of a = old |` (- dom old)" "map_of b = old |` dom old"
    using run_backing_up [OF d1' d1(3), of ?ns] ns by auto
  let ?d2 = "?d1\<lparr>active := a, backup := Some b, promoting := True\<rparr>"
  have bdry: "fs_run ?B ?d1 = ?d2" by (simp add: backup_calls_def d2(1))
  have a0: "map_of a = Map.empty" by (auto simp: d2(2) restrict_map_def fun_eq_iff domIff)
  have b0: "map_of b = old" by (auto simp: d2(3) restrict_map_def fun_eq_iff domIff)
  have promo: "in_promotion old (fs_run (map Promote ps) ?d2)" for ps
  proof -
    obtain a' s' where "fs_run (map Promote ps) ?d2 = ?d2\<lparr>active := a', stage := Some s'\<rparr>"
      using run_Promote [of ?d2 s ps] d1(1) by auto
    then show ?thesis using d1' b0 by (simp add: in_promotion_def)
  qed
  let ?ps = "sort (remdups (map fst new))"
  obtain a' s' where d3: "fs_run (map Promote ?ps) ?d2 = ?d2\<lparr>active := a', stage := Some s'\<rparr>" "map_of a' = map_of a ++ (map_of s |` set ?ps)"
    using run_Promote [of ?d2 s ?ps] d1(1) by auto
  have "map_of s |` set ?ps = new_files new"
    using dom_new_files [of new] by (fastforce simp: d1(2) restrict_map_def fun_eq_iff)
  then have d3': "done_with (new_files new) (fs_run ?P ?d2)"
    using d3 d1' a0 by (simp add: promote_calls_def done_with_def)
  have "prefix cs (?S @ (?B @ (?P @ cleanup_calls (active d))))" using cs by (simp add: replace_calls_def)
  then show ?thesis
  proof (cases rule: prefix_cases)
    case 1
    then have "\<forall>x \<in> set cs. staging x" using stage_calls_staging set_mono_prefix by blast
    then show ?thesis using stg by auto
  next
    case (2 z)
    from 2(2) show ?thesis
    proof (cases rule: prefix_cases)
      case 1
      then have "prefix z (map Back_up ?ns @ [Create_promoting, Sync, Sync])" by (simp add: backup_calls_def)
      then show ?thesis
      proof (cases rule: prefix_cases)
        case 1
        then obtain ms where ms: "prefix ms ?ns" "z = map Back_up ms" using prefix_mapE by blast
        then have "set ms \<subseteq> dom old" using ns set_mono_prefix by metis
        then show ?thesis using run_backing_up [OF d1' d1(3)] 2(1) ms(2) noc by auto
      next
        case (2 y)
        have y: "y \<in> {[], [Create_promoting], [Create_promoting, Sync], [Create_promoting, Sync, Sync]}"
          using 2(2) by (auto simp: prefix_Cons)
        have "preparing old (fs_run (map Back_up ?ns) ?d1)" using run_backing_up [OF d1' d1(3), of ?ns] ns by auto
        moreover have "in_promotion old ?d2" using promo [of "[]"] by simp
        ultimately show ?thesis using \<open>cs = ?S @ z\<close> 2(1) y noc d2(1) by auto
      qed
    next
      case (2 y)
      note cs2 = \<open>cs = ?S @ z\<close> 2(1)
      have no: "Commit \<notin> set ?B" by (auto simp: backup_calls_def)
      from 2(2) show ?thesis
      proof (cases rule: prefix_cases)
        case 1
        then have "prefix y (map Promote ?ps @ [Commit, Sync])" by (simp add: promote_calls_def)
        then show ?thesis
        proof (cases rule: prefix_cases)
          case 1
          then obtain ps where "y = map Promote ps" using prefix_mapE by blast
          then show ?thesis using cs2 noc no bdry promo by auto
        next
          case (2 x)
          have x: "x \<in> {[], [Commit], [Commit, Sync]}" using 2(2) by (auto simp: prefix_Cons)
          have "done_with (new_files new) (fs_run (map Promote ?ps @ [Commit]) ?d2)" using d3' by (simp add: promote_calls_def)
          then show ?thesis using cs2 noc no bdry promo [of ?ps] 2(1) x by auto
        qed
      next
        case (2 x)
        have "Commit \<in> set cs" using cs2 2(1) by (simp add: promote_calls_def)
        moreover have "fs_run cs d = fs_run x (fs_run ?P ?d2)" using cs2 2(1) bdry by simp
        ultimately show ?thesis using run_cleanup [OF d3' 2(2)] by simp
      qed
    qed
  qed
qed

section \<open>The exception path\<close>

text \<open>What the lists \<open>promoted\<close> and \<open>moved\<close> of the code say about the directory.\<close>

abbreviation promoted_names :: "'f fs_call list \<Rightarrow> string list" where
  "promoted_names cs \<equiv> List.map_filter promoted_name cs"

abbreviation moved_names :: "'f fs_call list \<Rightarrow> string list" where
  "moved_names cs \<equiv> List.map_filter moved_name cs"

fun forward :: "'f fs_call \<Rightarrow> bool" where
  "forward (Back_up _) = True"
| "forward (Promote _) = True"
| "forward Create_promoting = True"
| "forward c = staging c"

lemma map_filter_append [simp]: "List.map_filter f (xs @ ys) = List.map_filter f xs @ List.map_filter f ys"
  by (simp add: List.map_filter_def)

lemma map_filter_single [simp]: "List.map_filter f [x] = (case f x of None \<Rightarrow> [] | Some y \<Rightarrow> [y])"
  by (simp add: List.map_filter_def split: option.splits)

lemma fs_step_names:
  fixes d :: "'f memdir"
  assumes "forward c" "\<And>x f. opt_map (backup d) x = Some f \<Longrightarrow> x \<in> M" "\<And>x f. active_map d x = Some f \<Longrightarrow> x \<in> P \<or> x \<in> A - M"
  shows "opt_map (backup (fs_step d c)) x = Some f \<Longrightarrow> x \<in> M \<union> set (moved_names [c])"
    and "active_map (fs_step d c) x = Some f \<Longrightarrow> x \<in> P \<union> set (promoted_names [c]) \<or> x \<in> A - (M \<union> set (moved_names [c]))"
    and "promoting (fs_step d c) = (promoting d \<or> c = Create_promoting)"
proof -
  have "(opt_map (backup (fs_step d c)) x = Some f \<longrightarrow> x \<in> M \<union> set (moved_names [c])) \<and>
    (active_map (fs_step d c) x = Some f \<longrightarrow> x \<in> P \<union> set (promoted_names [c]) \<or> x \<in> A - (M \<union> set (moved_names [c]))) \<and>
    promoting (fs_step d c) = (promoting d \<or> c = Create_promoting)"
  proof (cases c)
    case (Back_up n)
    then show ?thesis
      using assms(2) [of x f] assms(3) [of x f]
      by (cases "active_map d n"; cases "backup d") (auto split: if_splits)
  next
    case (Promote n)
    then show ?thesis
      using assms(2) [of x f] assms(3) [of x f]
      by (cases "map_of (case stage d of None \<Rightarrow> [] | Some s \<Rightarrow> s) n") (auto split: if_splits)
  qed (use assms(1) assms(2) [of x f] assms(3) [of x f] in auto)
  then show "opt_map (backup (fs_step d c)) x = Some f \<Longrightarrow> x \<in> M \<union> set (moved_names [c])"
    and "active_map (fs_step d c) x = Some f \<Longrightarrow> x \<in> P \<union> set (promoted_names [c]) \<or> x \<in> A - (M \<union> set (moved_names [c]))"
    and "promoting (fs_step d c) = (promoting d \<or> c = Create_promoting)"
    by blast+
qed

lemma forward_names:
  assumes "\<forall>c \<in> set cs. forward c" "backup d = None"
  shows "(\<forall>x f. opt_map (backup (fs_run cs d)) x = Some f \<longrightarrow> x \<in> set (moved_names cs)) \<and>
    (\<forall>x f. active_map (fs_run cs d) x = Some f \<longrightarrow> x \<in> set (promoted_names cs) \<or> x \<in> dom (active_map d) - set (moved_names cs)) \<and>
    (Create_promoting \<in> set cs \<longrightarrow> promoting (fs_run cs d))"
  using assms(1)
proof (induction cs rule: rev_induct)
  case Nil
  then show ?case using assms(2) by (auto simp: List.map_filter_def)
next
  case (snoc c cs)
  let ?d = "fs_run cs d"
  have IH: "opt_map (backup ?d) x = Some f \<Longrightarrow> x \<in> set (moved_names cs)"
      "active_map ?d x = Some f \<Longrightarrow> x \<in> set (promoted_names cs) \<or> x \<in> dom (active_map d) - set (moved_names cs)"
      "Create_promoting \<in> set cs \<Longrightarrow> promoting ?d" for x f
    using snoc by auto
  have "forward c" using snoc.prems by simp
  note step = fs_step_names [OF this, of ?d "set (moved_names cs)" "set (promoted_names cs)" "dom (active_map d)", OF IH(1,2)]
  show ?case using step IH(3) by (simp del: map_filter_single add: set_append)
qed

lemma run_Restore_nothing: "backup d = None \<Longrightarrow> fs_run (map Restore ns) d = d"
  by (induction ns) simp_all

lemma run_rollback:
  "\<exists>a ex. fs_run (rollback_calls cs e d) d =
      d\<lparr>dir_exists := ex, active := a, stage := None, backup := None, promoting := False\<rparr> \<and>
      map_of a = (active_map d |` (- set (promoted_names cs))) ++ (opt_map (backup d) |` set (moved_names cs))"
proof -
  obtain a where a: "fs_run (map Unlink_active (promoted_names cs)) d = d\<lparr>active := a\<rparr>"
      "map_of a = active_map d |` (- set (promoted_names cs))"
    using run_Unlink_active by blast
  have "\<exists>a' b'. fs_run (map Restore (moved_names cs)) (d\<lparr>active := a\<rparr>) = d\<lparr>active := a', backup := b'\<rparr> \<and>
      map_of a' = map_of a ++ (opt_map (backup d) |` set (moved_names cs))"
  proof (cases "backup d")
    case None
    then have "d\<lparr>active := a\<rparr> = d\<lparr>active := a, backup := None\<rparr>" by (cases d) simp
    moreover have "fs_run (map Restore (moved_names cs)) (d\<lparr>active := a\<rparr>) = d\<lparr>active := a\<rparr>" using None by (simp add: run_Restore_nothing)
    ultimately show ?thesis using None by (intro exI [of _ a] exI [of _ None]) simp
  next
    case (Some b)
    then obtain a' b' where "fs_run (map Restore (moved_names cs)) (d\<lparr>active := a\<rparr>) = d\<lparr>active := a', backup := Some b'\<rparr>"
        "map_of a' = map_of a ++ (map_of b |` set (moved_names cs))"
      using run_Restore [of "d\<lparr>active := a\<rparr>" b "moved_names cs"] by auto
    then show ?thesis using Some by (intro exI [of _ a'] exI [of _ "Some b'"]) simp
  qed
  then obtain a' b' where r: "fs_run (map Restore (moved_names cs)) (d\<lparr>active := a\<rparr>) = d\<lparr>active := a', backup := b'\<rparr>"
      "map_of a' = map_of a ++ (opt_map (backup d) |` set (moved_names cs))"
    by blast
  let ?d = "d\<lparr>active := a', backup := b'\<rparr>"
  have "fs_run (remove_stage (stage d)) ?d = ?d\<lparr>stage := None\<rparr>" using run_remove_stage [of ?d] by simp
  moreover have "fs_run (remove_backup b') (?d\<lparr>stage := None\<rparr>) = ?d\<lparr>stage := None, backup := None\<rparr>"
    using run_remove_backup [of "?d\<lparr>stage := None\<rparr>"] by simp
  ultimately show ?thesis using a r
    by (intro exI [of _ a'] exI [of _ "if e \<or> a' \<noteq> [] then dir_exists d else False"]) (simp add: rollback_calls_def Let_def)
qed

section \<open>Properties\<close>

text \<open>Replacing the files of a memory directory is atomic under a crash: if the process dies after any number of system
  calls of the replacement and the next access recovers the directory, the active files are exactly the old ones if the
  crash came before the rename of the marker, and exactly the new ones, completely written, from then on; nothing of
  the transaction is left.\<close>

theorem replace_atomic:
  assumes "settled old d" "distinct (map fst new)" "prefix cs (replace_calls d new)"
  shows "settled (if Commit \<in> set cs then new_files new else old) (recover (fs_run cs d))"
proof (cases "Commit \<in> set cs")
  case True
  with replace_prefix [OF assms] consider "done_with (new_files new) (fs_run cs d)" | "settled (new_files new) (fs_run cs d)"
    by auto
  then show ?thesis
  proof cases
    case 2
    then have "preparing (new_files new) (fs_run cs d)" by (simp add: settled_def preparing_def)
    then show ?thesis using True by (simp add: recover_preparing)
  qed (simp add: True recover_done)
next
  case False
  with replace_prefix [OF assms] show ?thesis using recover_preparing recover_promotion by auto
qed

definition sample_dir :: "string memdir" where
  "sample_dir = \<lparr>dir_exists = True, active = [(''a.md'', Whole ''1''), (''b.md'', Whole ''2'')], stage = None, backup = None,
     promoting = False, committed = False\<rparr>"

definition sample_new :: "(string \<times> string) list" where
  "sample_new = [(''c.md'', ''3''), (''d.md'', ''4'')]"

lemma sample_settled: "settled (active_map sample_dir) sample_dir"
  by (simp add: settled_def sample_dir_def)

theorem replace_atomic_witness:
  "settled (active_map sample_dir) (recover (fs_run (take 13 (replace_calls sample_dir sample_new)) sample_dir))"
proof -
  have "settled (if Commit \<in> set (take 13 (replace_calls sample_dir sample_new)) then new_files sample_new else active_map sample_dir)
      (recover (fs_run (take 13 (replace_calls sample_dir sample_new)) sample_dir))"
    by (rule replace_atomic [OF sample_settled]) (simp_all add: sample_new_def take_is_prefix)
  moreover have "Commit \<notin> set (take 13 (replace_calls sample_dir sample_new))"
    by (simp add: replace_calls_def stage_calls_def backup_calls_def sample_dir_def sample_new_def write_stage_file_def file_names_def
        promote_calls_def)
  ultimately show ?thesis by simp
qed

text \<open>A failing system call restores the old files: if any call of the replacement before the commit raises, the clean-up of
  the \<open>except\<close> block leaves exactly the old files and nothing of the transaction.\<close>

theorem replace_rollback:
  assumes "settled old d" "distinct (map fst new)"
    and cs: "prefix cs (stage_calls (dir_exists d) new @ backup_calls (active d) @ promote_calls new)" "Commit \<notin> set cs"
  shows "settled old (fs_run (rollback_calls cs (dir_exists d) (fs_run cs d)) (fs_run cs d))"
proof -
  let ?d = "fs_run cs d"
  let ?pre = "stage_calls (dir_exists d) new @ backup_calls (active d)"
  have "prefix cs (replace_calls d new)" unfolding replace_calls_def using cs(1) by (simp add: prefix_def) (metis append.assoc)
  from replace_prefix [OF assms(1,2) this] cs(2) have phase: "preparing old ?d \<or> in_promotion old ?d" by simp
  have all: "\<forall>c \<in> set cs. forward c"
  proof
    fix c assume c: "c \<in> set cs"
    then have "c \<in> set ?pre \<union> set (promote_calls new)" using set_mono_prefix [OF cs(1)] by auto
    then show "forward c" using c cs(2) stage_calls_staging [of c "dir_exists d" new]
      by (cases c) (auto simp: backup_calls_def promote_calls_def)
  qed
  have d: "active_map d = old" "backup d = None" using assms(1) by (auto simp: settled_def)
  note names = forward_names [OF all d(2)]
  have moved: "opt_map (backup ?d) |` set (moved_names cs) = opt_map (backup ?d)"
  proof
    fix x
    show "(opt_map (backup ?d) |` set (moved_names cs)) x = opt_map (backup ?d) x"
      using names by (cases "opt_map (backup ?d) x") (auto simp: restrict_map_def)
  qed
  have com: "\<not> committed ?d" using phase by (auto simp: preparing_def in_promotion_def)
  have promo: "promoting ?d" if some: "promoted_names cs \<noteq> []"
  proof -
    have "promoted_name c = None" if "c \<in> set cs" "\<nexists>n. Promote n \<in> set cs" for c
      by (cases c; use that in auto)
    then have "promoted_names cs = []" if "\<nexists>n. Promote n \<in> set cs"
      using that by (simp add: List.map_filter_def filter_empty_conv)
    then obtain n where "Promote n \<in> set cs" using some by blast
    moreover have "Promote n \<notin> set ?pre" using stage_calls_staging [of "Promote n"] by (auto simp: backup_calls_def)
    ultimately obtain z where "cs = ?pre @ z"
      using prefix_cases [of cs ?pre "promote_calls new"] cs(1) set_mono_prefix by (metis append.assoc subsetD)
    then have "Create_promoting \<in> set cs" by (simp add: backup_calls_def)
    then show ?thesis using names by blast
  qed
  obtain a ex where a: "fs_run (rollback_calls cs (dir_exists d) ?d) ?d =
      ?d\<lparr>dir_exists := ex, active := a, stage := None, backup := None, promoting := False\<rparr>"
      "map_of a = (active_map ?d |` (- set (promoted_names cs))) ++ opt_map (backup ?d)"
    using run_rollback [of cs "dir_exists d" ?d] moved by auto
  have "map_of a = old" using phase
  proof
    assume p: "preparing old ?d"
    then have "promoted_names cs = []" using promo by (auto simp: preparing_def)
    then show ?thesis using a(2) p by (simp add: preparing_def restrict_map_def)
  next
    assume p: "in_promotion old ?d"
    then have "x \<in> set (moved_names cs)" if "old x = Some f" for x f using names that by (auto simp: in_promotion_def)
    then have "active_map ?d |` (- set (promoted_names cs)) = Map.empty"
      using names d(1) by (auto simp: restrict_map_def fun_eq_iff)
    then show ?thesis using a(2) p by (simp add: in_promotion_def)
  qed
  then show ?thesis using a(1) com by (simp add: settled_def)
qed

theorem replace_rollback_witness:
  "settled (active_map sample_dir)
     (fs_run (rollback_calls (take 13 (replace_calls sample_dir sample_new)) True (fs_run (take 13 (replace_calls sample_dir sample_new)) sample_dir))
       (fs_run (take 13 (replace_calls sample_dir sample_new)) sample_dir))"
proof -
  let ?cs = "take 13 (replace_calls sample_dir sample_new)"
  have "prefix ?cs (stage_calls (dir_exists sample_dir) sample_new @ backup_calls (active sample_dir) @ promote_calls sample_new)"
    by code_simp
  moreover have "Commit \<notin> set ?cs" by code_simp
  ultimately have "settled (active_map sample_dir)
      (fs_run (rollback_calls ?cs (dir_exists sample_dir) (fs_run ?cs sample_dir)) (fs_run ?cs sample_dir))"
    by (intro replace_rollback [OF sample_settled]) (simp_all add: sample_new_def)
  then show ?thesis by (simp add: sample_dir_def)
qed

text \<open>A crash during the recovery can lose records: while the promotion marker is still there, the recovery moves the old
  files back one by one, and a second recovery deletes what the first one had already moved back. The directory ends with
  one of the two old files gone and no transaction pending.\<close>

theorem interrupted_recovery_loses_files:
  "let d = fs_run (take 14 (replace_calls sample_dir sample_new)) sample_dir; d' = fs_run (take 2 (recover_calls d)) d in
     settled (active_map sample_dir) (recover d) \<and> settled [''b.md'' \<mapsto> Whole ''2''] (recover d')"
proof -
  let ?d = "fs_run (take 14 (replace_calls sample_dir sample_new)) sample_dir"
  have d: "settled (active_map sample_dir) (recover ?d)"
  proof -
    have "Commit \<notin> set (take 14 (replace_calls sample_dir sample_new))" by code_simp
    with replace_prefix [OF sample_settled _ take_is_prefix, of sample_new 14]
    have "preparing (active_map sample_dir) ?d \<or> in_promotion (active_map sample_dir) ?d" by (simp add: sample_new_def)
    then show ?thesis using recover_preparing recover_promotion by blast
  qed
  have "recover (fs_run (take 2 (recover_calls ?d)) ?d) = \<lparr>dir_exists = True, active = [(''b.md'', Whole ''2'')], stage = None,
      backup = None, promoting = False, committed = False\<rparr>"
    by code_simp
  then show ?thesis using d by (simp add: Let_def settled_def)
qed

end
