(* ===== verification/Memory_Store.thy ===== *)
theory Memory_Store
  imports Memory_Files
begin

text \<open>
  The memory store of a thread (\<open>app/memory/store.py\<close>) over the file transaction of \<open>Memory_Files\<close>: the format of a record
  file, the checks, and the operations under the thread lock. A file is its bytes and its modification time. Text is
  Latin-1 (\<open>Prelude\<close>), so UTF-8 uses one or two bytes per character. YAML and SHA-256 are parameters; the
  system calls of an operation succeed here, their failure is the subject of \<open>Memory_Files\<close>.
\<close>

section \<open>Text\<close>

type_synonym bytes = string

definition utf8_char :: "char \<Rightarrow> bytes" where
  "utf8_char c = (let n = (of_char c :: nat) in if n < 128 then [c] else [char_of (192 + n div 64), char_of (128 + n mod 64)])"

definition utf8_encode :: "string \<Rightarrow> bytes" where
  "utf8_encode s = concat (map utf8_char s)"

fun utf8_decode :: "bytes \<Rightarrow> string result" where
  "utf8_decode [] = Inr []"
| "utf8_decode (c # cs) =
     (let n = (of_char c :: nat) in
      if n < 128 then result_bind (utf8_decode cs) (\<lambda>s. Inr (c # s))
      else case cs of
             [] \<Rightarrow> Inl ValueError
           | c' # cs' \<Rightarrow>
               (let m = (of_char c' :: nat) in
                if (n = 194 \<or> n = 195) \<and> 128 \<le> m \<and> m < 192
                then result_bind (utf8_decode cs') (\<lambda>s. Inr (char_of ((n - 192) * 64 + (m - 128)) # s))
                else Inl ValueError))"

text \<open>What \<open>open(..., newline=None)\<close> makes of a text file: every line end becomes one line feed.\<close>

fun universal_newlines :: "string \<Rightarrow> string" where
  "universal_newlines [] = []"
| "universal_newlines (c # cs) =
     (if c = CHR 0x0D
      then CHR 0x0A # (case cs of c' # cs' \<Rightarrow> if c' = CHR 0x0A then universal_newlines cs' else universal_newlines cs | [] \<Rightarrow> [])
      else c # universal_newlines cs)"

definition rstrip :: "string \<Rightarrow> string" where
  "rstrip s = rev (dropWhile is_unicode_space (rev s))"

definition blank :: "string \<Rightarrow> bool" where
  "blank s \<longleftrightarrow> list_all is_unicode_space s"

text \<open>\<open>s.split(sep, 1)\<close> when \<open>sep\<close> occurs.\<close>

fun split_once :: "string \<Rightarrow> string \<Rightarrow> (string \<times> string) option" where
  "split_once sep [] = (if sep = [] then Some ([], []) else None)"
| "split_once sep (c # cs) =
     (if prefix sep (c # cs) then Some ([], drop (length sep) (c # cs))
      else map_option (\<lambda>(a, b). (c # a, b)) (split_once sep cs))"

definition remove_prefix :: "string \<Rightarrow> string \<Rightarrow> string" where
  "remove_prefix p s = (if prefix p s then drop (length p) s else s)"

definition remove_suffix :: "string \<Rightarrow> string \<Rightarrow> string" where
  "remove_suffix p s = (if suffix p s then take (length s - length p) s else s)"

abbreviation nl :: string where "nl \<equiv> [CHR 0x0A]"

section \<open>Records\<close>

record MemoryRecord =
  slug :: string
  rec_name :: string
  description :: string
  rec_type :: string
  rec_content :: string
  updated_at :: "int option"

definition MEMORY_INDEX :: string where "MEMORY_INDEX = ''MEMORY.md''"
definition MEMORY_TYPE :: "string set" where "MEMORY_TYPE = {''user'', ''feedback'', ''project'', ''reference''}"
definition MAX_MEMORY_CONTENT_CHARACTER :: nat where "MAX_MEMORY_CONTENT_CHARACTER = 100000"
definition MAX_MEMORY_INDEX_BYTE :: nat where "MAX_MEMORY_INDEX_BYTE = 64 * 1024"

text \<open>\<open>[a-z0-9]+(?:-[a-z0-9]+)*\<close>, read from left to right: at the start of a word, and inside a word.\<close>

definition slug_char :: "char \<Rightarrow> bool" where
  "slug_char c \<longleftrightarrow> is_decimal c \<or> (97 \<le> (of_char c :: nat) \<and> (of_char c :: nat) \<le> 122)"

fun slug_word :: "bool \<Rightarrow> string \<Rightarrow> bool" where
  "slug_word inside [] = inside"
| "slug_word inside (c # cs) = (if slug_char c then slug_word True cs else inside \<and> c = CHR ''-'' \<and> slug_word False cs)"

definition validate_slug :: "string \<Rightarrow> unit result" where
  "validate_slug s = (if s = ''MEMORY'' \<or> \<not> slug_word False s then Inl MemoryStoreError else Inr ())"

definition validate_record :: "MemoryRecord \<Rightarrow> unit result" where
  "validate_record r =
     result_bind (validate_slug (slug r)) (\<lambda>_.
       if blank (rec_name r) \<or> blank (description r) \<or> blank (rec_content r) then Inl MemoryStoreError
       else if CHR 0x0A \<in> set (rec_name r) \<or> CHR 0x0A \<in> set (description r) then Inl MemoryStoreError
       else if rec_type r \<notin> MEMORY_TYPE then Inl MemoryStoreError
       else if MAX_MEMORY_CONTENT_CHARACTER < length (rec_content r) then Inl MemoryCapacityError
       else Inr ())"

text \<open>The libraries: \<open>yaml.safe_dump\<close> of the three fields in this order, \<open>yaml.safe_load\<close>, and the hexadecimal SHA-256 digest.\<close>

record Codec =
  yaml_dump :: "string \<times> string \<times> string \<Rightarrow> string"
  yaml_load :: "string \<Rightarrow> pyval result"
  sha256 :: "bytes \<Rightarrow> string"

definition serialize :: "Codec \<Rightarrow> MemoryRecord \<Rightarrow> string" where
  "serialize cd r =
     ''---'' @ nl @ yaml_dump cd (rec_name r, description r, rec_type r) @ ''---'' @ nl @ nl @ rstrip (rec_content r) @ nl"

text \<open>The title line of the index is Chinese text; these are its bytes.\<close>

definition index_title :: bytes where
  "index_title = map char_of ([35, 32, 232, 174, 176, 229, 191, 134, 231, 180, 162, 229, 188, 149] :: nat list)"

definition index_line :: "MemoryRecord \<Rightarrow> string" where
  "index_line r =
     ''- ['' @ rec_name r @ '']('' @ slug r @ ''.md): '' @ description r @ '' ('' @ [CHR 0x60] @ rec_type r @ [CHR 0x60] @ '')''"

definition serialize_index :: "MemoryRecord list \<Rightarrow> bytes" where
  "serialize_index rs = index_title @ utf8_encode (rstrip (concat (map (\<lambda>l. nl @ l) ([] # map index_line rs)))) @ nl"

section \<open>Reading a file\<close>

type_synonym mfile = "bytes \<times> int"

definition str_field :: "pydict \<Rightarrow> string \<Rightarrow> string option" where
  "str_field d k = (case dict_get d k of PStr s \<Rightarrow> Some s | _ \<Rightarrow> None)"

definition read_record :: "Codec \<Rightarrow> string \<Rightarrow> mfile \<Rightarrow> MemoryRecord result" where
  "read_record cd s f =
     result_bind (utf8_decode (fst f)) (\<lambda>text.
       let raw = universal_newlines text in
       if \<not> prefix (''---'' @ nl) raw then Inl MemoryStoreError
       else case split_once (nl @ ''---'' @ nl) (drop 4 raw) of
              None \<Rightarrow> Inl MemoryStoreError
            | Some (frontmatter, content) \<Rightarrow>
                (case yaml_load cd frontmatter of
                   Inl _ \<Rightarrow> Inl MemoryStoreError
                 | Inr (PDict d) \<Rightarrow>
                     (if set (map fst d) \<noteq> {''name'', ''description'', ''type''} then Inl MemoryStoreError
                      else case (str_field d ''name'', str_field d ''description'', str_field d ''type'') of
                             (Some n, Some e, Some t) \<Rightarrow>
                               (let r = \<lparr>slug = s, rec_name = n, description = e, rec_type = t,
                                         rec_content = remove_suffix nl (remove_prefix nl content), updated_at = Some (snd f)\<rparr>
                                in result_bind (validate_record r) (\<lambda>_. Inr r))
                           | _ \<Rightarrow> Inl MemoryStoreError)
                 | Inr _ \<Rightarrow> Inl MemoryStoreError))"

definition stem :: "string \<Rightarrow> string" where
  "stem n = (if n = ''.md'' then n else take (length n - 3) n)"

definition scan_file :: "Codec \<Rightarrow> mfile memdir \<Rightarrow> string \<Rightarrow> MemoryRecord result" where
  "scan_file cd d n =
     result_bind (validate_slug (stem n)) (\<lambda>_.
       case map_of (active d) n of Some (Whole f) \<Rightarrow> read_record cd (stem n) f | _ \<Rightarrow> Inl MemoryStoreError)"

definition scan :: "Codec \<Rightarrow> mfile memdir \<Rightarrow> MemoryRecord list result" where
  "scan cd d =
     result_list (map (scan_file cd d) (filter (\<lambda>n. suffix ''.md'' n \<and> n \<noteq> MEMORY_INDEX) (file_names (active d))))"

section \<open>Versions\<close>

fun to_bytes :: "nat \<Rightarrow> nat \<Rightarrow> bytes" where
  "to_bytes 0 n = []"
| "to_bytes (Suc k) n = to_bytes k (n div 256) @ [char_of (n mod 256)]"

definition version_frame :: "Codec \<Rightarrow> MemoryRecord \<Rightarrow> bytes" where
  "version_frame cd r =
     (let name = utf8_encode (slug r @ ''.md''); content = utf8_encode (serialize cd r)
      in to_bytes 4 (length name) @ name @ to_bytes 8 (length content) @ content)"

definition version_input :: "Codec \<Rightarrow> MemoryRecord list \<Rightarrow> bytes" where
  "version_input cd rs = concat (map (version_frame cd) (sort_key slug rs))"

definition version :: "Codec \<Rightarrow> MemoryRecord list \<Rightarrow> string" where
  "version cd rs = sha256 cd (version_input cd rs)"

section \<open>The operations\<close>

record MemoryStoreSnapshot =
  records :: "MemoryRecord list"
  snap_version :: string

text \<open>The workspace of a thread: absent, or with its memory directory.\<close>

type_synonym workspace = "mfile memdir option"

definition transaction_entry :: "mfile memdir \<Rightarrow> bool" where
  "transaction_entry d \<longleftrightarrow> stage d \<noteq> None \<or> backup d \<noteq> None \<or> promoting d \<or> committed d"

text \<open>\<open>_memory_dir(create=False)\<close>: whether the directory is there, and the directory after a recovery.\<close>

definition memory_dir :: "workspace \<Rightarrow> bool result \<times> workspace" where
  "memory_dir ws =
     (case ws of
        None \<Rightarrow> (Inl FileNotFoundError, None)
      | Some d \<Rightarrow>
          if \<not> dir_exists d then (Inr False, ws)
          else (Inr True, Some (if transaction_entry d then recover d else d)))"

definition with_memory_dir :: "workspace \<Rightarrow> (bool \<Rightarrow> mfile memdir \<Rightarrow> 'a result \<times> workspace) \<Rightarrow> 'a result \<times> workspace" where
  "with_memory_dir ws k =
     (case memory_dir ws of
        (Inr there, Some d) \<Rightarrow> k there d
      | (Inl e, ws) \<Rightarrow> (Inl e, ws)
      | (Inr _, None) \<Rightarrow> (Inl FileNotFoundError, None))"

definition scan_dir :: "Codec \<Rightarrow> bool \<Rightarrow> mfile memdir \<Rightarrow> MemoryRecord list result" where
  "scan_dir cd there d = (if there then scan cd d else Inr [])"

definition list_memory :: "Codec \<Rightarrow> workspace \<Rightarrow> MemoryRecord list result \<times> workspace" where
  "list_memory cd ws = with_memory_dir ws (\<lambda>there d. (scan_dir cd there d, Some d))"

definition export :: "Codec \<Rightarrow> workspace \<Rightarrow> MemoryStoreSnapshot result \<times> workspace" where
  "export cd ws =
     with_memory_dir ws (\<lambda>there d.
       (result_bind (scan_dir cd there d) (\<lambda>rs. Inr \<lparr>records = rs, snap_version = version cd rs\<rparr>), Some d))"

definition read_memory :: "Codec \<Rightarrow> string \<Rightarrow> workspace \<Rightarrow> MemoryRecord result \<times> workspace" where
  "read_memory cd s ws =
     (case validate_slug s of
        Inl e \<Rightarrow> (Inl e, ws)
      | Inr _ \<Rightarrow>
          with_memory_dir ws (\<lambda>there d.
            (if \<not> there then Inl FileNotFoundError
             else case map_of (active d) (s @ ''.md'') of
                    None \<Rightarrow> Inl FileNotFoundError
                  | Some Partial \<Rightarrow> Inl MemoryStoreError
                  | Some (Whole f) \<Rightarrow> read_record cd s f,
             Some d)))"

text \<open>\<open>_prepare\<close>: the files to write and the index, or the error.\<close>

definition record_file :: "Codec \<Rightarrow> int \<Rightarrow> MemoryRecord \<Rightarrow> string \<times> mfile" where
  "record_file cd now r =
     (slug r @ ''.md'', (utf8_encode (serialize cd r), case updated_at r of None \<Rightarrow> now | Some t \<Rightarrow> t))"

definition prepare :: "Codec \<Rightarrow> nat \<Rightarrow> int \<Rightarrow> MemoryRecord list \<Rightarrow> (string \<times> mfile) list result" where
  "prepare cd max_byte now rs =
     (let ordered = sort_key slug rs in
      if \<not> distinct (map slug ordered) then Inl MemoryStoreError
      else result_bind (result_list (map validate_record ordered)) (\<lambda>_.
        let payloads = map (record_file cd now) ordered; index = serialize_index ordered in
        if MAX_MEMORY_INDEX_BYTE < length index then Inl MemoryCapacityError
        else if max_byte < length index + sum_list (map (\<lambda>p. length (fst (snd p))) payloads) then Inl MemoryCapacityError
        else Inr (payloads @ [(MEMORY_INDEX, (index, now))])))"

definition replace_locked ::
    "Codec \<Rightarrow> nat \<Rightarrow> int \<Rightarrow> MemoryRecord list \<Rightarrow> string option \<Rightarrow> mfile memdir \<Rightarrow> MemoryStoreSnapshot result \<times> mfile memdir" where
  "replace_locked cd max_byte now rs expected d =
     (let d = (if dir_exists d then recover d else d) in
      case scan_dir cd (dir_exists d) d of
        Inl e \<Rightarrow> (Inl e, d)
      | Inr current \<Rightarrow>
          if expected \<noteq> None \<and> expected \<noteq> Some (version cd current) then (Inl MemoryVersionConflictError, d)
          else (case prepare cd max_byte now rs of
                  Inl e \<Rightarrow> (Inl e, d)
                | Inr files \<Rightarrow>
                    (let d = fs_run (replace_calls d files) d in
                     (result_bind (scan cd d) (\<lambda>stored. Inr \<lparr>records = stored, snap_version = version cd stored\<rparr>), d))))"

definition put_record :: "MemoryRecord \<Rightarrow> MemoryRecord list \<Rightarrow> MemoryRecord list" where
  "put_record r rs = (if slug r \<in> set (map slug rs) then map (\<lambda>x. if slug x = slug r then r else x) rs else rs @ [r])"

definition write_memory :: "Codec \<Rightarrow> nat \<Rightarrow> int \<Rightarrow> MemoryRecord \<Rightarrow> workspace \<Rightarrow> MemoryRecord result \<times> workspace" where
  "write_memory cd max_byte now r ws =
     with_memory_dir ws (\<lambda>there d.
       case scan_dir cd there d of
         Inl e \<Rightarrow> (Inl e, Some d)
       | Inr current \<Rightarrow>
           (case replace_locked cd max_byte now (put_record r current) None d of
              (res, d) \<Rightarrow>
                (result_bind res (\<lambda>snapshot.
                   case find (\<lambda>x. slug x = slug r) (records snapshot) of None \<Rightarrow> Inl (OtherError ''StopIteration'') | Some x \<Rightarrow> Inr x),
                 Some d)))"

definition delete_memory :: "Codec \<Rightarrow> nat \<Rightarrow> int \<Rightarrow> string \<Rightarrow> workspace \<Rightarrow> unit result \<times> workspace" where
  "delete_memory cd max_byte now s ws =
     (case validate_slug s of
        Inl e \<Rightarrow> (Inl e, ws)
      | Inr _ \<Rightarrow>
          with_memory_dir ws (\<lambda>there d.
            if \<not> there then (Inl FileNotFoundError, Some d)
            else case scan cd d of
                   Inl e \<Rightarrow> (Inl e, Some d)
                 | Inr current \<Rightarrow>
                     if s \<notin> set (map slug current) then (Inl FileNotFoundError, Some d)
                     else (case replace_locked cd max_byte now (filter (\<lambda>x. slug x \<noteq> s) current) None d of
                             (res, d) \<Rightarrow> (result_bind res (\<lambda>_. Inr ()), Some d))))"

definition replace_memory ::
    "Codec \<Rightarrow> nat \<Rightarrow> int \<Rightarrow> MemoryRecord list \<Rightarrow> string option \<Rightarrow> workspace \<Rightarrow> MemoryStoreSnapshot result \<times> workspace" where
  "replace_memory cd max_byte now rs expected ws =
     with_memory_dir ws (\<lambda>there d. case replace_locked cd max_byte now rs expected d of (res, d) \<Rightarrow> (res, Some d))"

text \<open>\<open>rebuild_index\<close> writes a temporary file and renames it over the index.\<close>

definition rebuild_index :: "Codec \<Rightarrow> nat \<Rightarrow> int \<Rightarrow> workspace \<Rightarrow> bool result \<times> workspace" where
  "rebuild_index cd max_byte now ws =
     with_memory_dir ws (\<lambda>there d.
       if \<not> there then (Inr False, Some d)
       else case result_bind (scan cd d) (prepare cd max_byte now) of
              Inl e \<Rightarrow> (Inl e, Some d)
            | Inr files \<Rightarrow> (Inr True, Some (d\<lparr>active := put_file MEMORY_INDEX (Whole (snd (last files))) (active d)\<rparr>)))"

section \<open>Text lemmas\<close>

lemma utf8_decode_encode [simp]: "utf8_decode (utf8_encode s) = Inr s"
proof (induction s)
  case (Cons c s)
  let ?n = "of_char c :: nat"
  have n: "?n < 256" by simp
  show ?case
  proof (cases "?n < 128")
    case True
    then show ?thesis using Cons by (simp add: utf8_encode_def utf8_char_def)
  next
    case False
    have "x div 64 = 2 \<or> x div 64 = 3" if "128 \<le> x" "x < 256" for x :: nat using that by auto
    then have d: "?n div 64 = 2 \<or> ?n div 64 = 3" using n False by (meson not_less)
    have "192 + ?n div 64 = 194 \<or> 192 + ?n div 64 = 195" using d by auto
    moreover have "(of_char (char_of (192 + ?n div 64)) :: nat) = 192 + ?n div 64" "(of_char (char_of (128 + ?n mod 64)) :: nat) = 128 + ?n mod 64"
      using d by (auto simp: of_char_of)
    ultimately have "utf8_decode (utf8_encode (c # s)) = result_bind (utf8_decode (utf8_encode s))
        (\<lambda>t. Inr (char_of ((192 + ?n div 64 - 192) * 64 + (128 + ?n mod 64 - 128)) # t))"
      using False by (simp add: utf8_encode_def utf8_char_def Let_def)
    then show ?thesis using Cons by simp
  qed
qed (simp add: utf8_encode_def)

lemma utf8_encode_inj: "utf8_encode s = utf8_encode t \<Longrightarrow> s = t"
  by (metis utf8_decode_encode sum.inject(2))

lemma unl_no_cr [simp]: "CHR 0x0D \<notin> set s \<Longrightarrow> universal_newlines s = s"
  by (induction s) auto

lemma unl_append: "s = [] \<or> last s \<noteq> CHR 0x0D \<Longrightarrow> universal_newlines (s @ t) = universal_newlines s @ universal_newlines t"
proof (induction s rule: universal_newlines.induct)
  case (2 c cs)
  then show ?case by (cases cs) (auto split: if_splits)
qed simp

lemma cr_unl: "CHR 0x0D \<notin> set (universal_newlines s)"
  by (induction s rule: universal_newlines.induct) (auto split: list.splits)

lemma length_unl: "length (universal_newlines s) \<le> length s"
proof (induction s rule: universal_newlines.induct)
  case (2 c cs)
  then show ?case by (cases cs) (auto intro: le_SucI)
qed simp

lemma rstrip_last: "rstrip s = [] \<or> \<not> is_unicode_space (last (rstrip s))"
  unfolding rstrip_def
  by (metis hd_dropWhile last_rev rev_is_Nil_conv)

lemma rstrip_fixed: "s = [] \<or> \<not> is_unicode_space (last s) \<Longrightarrow> rstrip s = s"
  by (cases s rule: rev_cases) (auto simp: rstrip_def)

lemma length_rstrip: "length (rstrip s) \<le> length s"
  using length_dropWhile_le [of is_unicode_space "rev s"] by (simp add: rstrip_def)

lemma blank_rstrip: "blank (rstrip s) \<longleftrightarrow> blank s"
proof -
  have "list_all p (dropWhile p xs) \<longleftrightarrow> list_all p xs" for p and xs :: string by (induction xs) auto
  then show ?thesis by (simp add: blank_def rstrip_def list_all_iff)
qed

lemma blank_iff_rstrip: "blank s \<longleftrightarrow> rstrip s = []"
  by (auto simp: blank_def rstrip_def list_all_iff dropWhile_eq_Nil_conv)

lemma cr_lf_space [simp]: "is_unicode_space (CHR 0x0D)" "is_unicode_space (CHR 0x0A)"
  by (simp_all add: is_unicode_space_def is_c_space_def)

lemma blank_unl: "blank (universal_newlines s) \<longleftrightarrow> blank s"
  by (induction s rule: universal_newlines.induct) (auto simp: blank_def split: list.splits)

lemma last_unl: "s \<noteq> [] \<Longrightarrow> last s \<noteq> CHR 0x0D \<Longrightarrow> universal_newlines s \<noteq> [] \<and> last (universal_newlines s) = last s"
proof (induction s rule: universal_newlines.induct)
  case (2 c cs)
  show ?case
  proof (cases cs)
    case Nil
    then show ?thesis using 2 by simp
  next
    case (Cons c' cs')
    then show ?thesis using 2 by (cases "cs' = []") auto
  qed
qed simp

lemma rstrip_unl_rstrip [simp]: "rstrip (universal_newlines (rstrip s)) = universal_newlines (rstrip s)"
proof (cases "rstrip s = []")
  case False
  with rstrip_last [of s] have "\<not> is_unicode_space (last (rstrip s))" by simp
  moreover from this have "last (rstrip s) \<noteq> CHR 0x0D" by (metis cr_lf_space(1))
  ultimately show ?thesis using last_unl [OF False] by (intro rstrip_fixed) simp
next
  case True
  then show ?thesis by (simp only: True) (simp add: rstrip_def)
qed

section \<open>The format of a record file\<close>

abbreviation separator :: string where
  "separator \<equiv> nl @ ''---'' @ nl"

lemma split_once_separator:
  "split_once separator (b @ nl) = None \<Longrightarrow> split_once separator (b @ separator @ rest) = Some (b, rest)"
proof (induction b)
  case (Cons c b)
  have "\<not> prefix separator (c # b @ nl)" "split_once separator (b @ nl) = None"
    using Cons.prems by (auto split: if_splits)
  moreover from this(1) have "\<not> prefix separator (c # b @ separator @ rest)"
  proof (cases b)
    case b1: (Cons c1 b1)
    then show ?thesis using \<open>\<not> prefix separator (c # b @ nl)\<close>
    proof (cases b1)
      case b2: (Cons c2 b2)
      then show ?thesis using b1 \<open>\<not> prefix separator (c # b @ nl)\<close>
      proof (cases b2)
        case b3: (Cons c3 b3)
        then show ?thesis using b1 b2 \<open>\<not> prefix separator (c # b @ nl)\<close> by (cases b3) auto
      qed auto
    qed auto
  qed auto
  ultimately show ?case using Cons.IH by simp
qed simp

text \<open>U+0085, the next line character: YAML counts it as a line break, and \<open>safe_dump\<close> writes a text with it between single
  quotes, in which \<open>safe_load\<close> folds it into a space. The check of a record accepts it.\<close>

definition no_next_line :: "string \<Rightarrow> bool" where
  "no_next_line s \<longleftrightarrow> CHR 0x85 \<notin> set s"

definition yaml_safe :: "MemoryRecord \<Rightarrow> bool" where
  "yaml_safe r \<longleftrightarrow> no_next_line (rec_name r) \<and> no_next_line (description r)"

text \<open>What the store relies on of YAML, for a name and a description on one line, without U+0085, and one of the four types: the dump
  ends its last line, has no carriage return and no line that is \<open>---\<close>, and loading it without the last line feed gives the
  three fields back.\<close>

definition yaml_laws :: "Codec \<Rightarrow> bool" where
  "yaml_laws cd \<longleftrightarrow>
     (\<forall>n d t. CHR 0x0A \<notin> set n \<longrightarrow> CHR 0x0A \<notin> set d \<longrightarrow> no_next_line n \<longrightarrow> no_next_line d \<longrightarrow> t \<in> MEMORY_TYPE \<longrightarrow>
       (\<exists>b. yaml_dump cd (n, d, t) = b @ nl \<and> CHR 0x0D \<notin> set b \<and> split_once separator (b @ nl) = None \<and>
            yaml_load cd b = Inr (PDict [(''name'', PStr n), (''description'', PStr d), (''type'', PStr t)])))"

text \<open>What comes back of a record: the content without trailing blanks and with line feeds only, and the file's time.\<close>

definition stored_record :: "int \<Rightarrow> MemoryRecord \<Rightarrow> MemoryRecord" where
  "stored_record t r = r\<lparr>rec_content := universal_newlines (rstrip (rec_content r)), updated_at := Some t\<rparr>"

lemma validate_recordD:
  assumes "validate_record r = Inr ()"
  shows "validate_slug (slug r) = Inr ()" "\<not> blank (rec_content r)" "CHR 0x0A \<notin> set (rec_name r)" "CHR 0x0A \<notin> set (description r)"
    "rec_type r \<in> MEMORY_TYPE" "length (rec_content r) \<le> MAX_MEMORY_CONTENT_CHARACTER"
  using assms by (auto simp: validate_record_def result_bind_Inr_iff split: if_splits)

lemma validate_stored_record: "validate_record r = Inr () \<Longrightarrow> validate_record (stored_record t r) = Inr ()"
  using length_unl [of "rstrip (rec_content r)"] length_rstrip [of "rec_content r"]
  by (auto simp: validate_record_def stored_record_def result_bind_Inr_iff blank_unl blank_rstrip split: if_splits)

lemma unl_serialized:
  assumes "CHR 0x0D \<notin> set b" "c = [] \<or> last c \<noteq> CHR 0x0D"
  shows "universal_newlines (''---'' @ nl @ (b @ nl) @ ''---'' @ nl @ nl @ c @ nl) =
    ''---'' @ nl @ b @ separator @ nl @ universal_newlines c @ nl"
proof -
  let ?pre = "''---'' @ nl @ b @ separator @ nl"
  have pre: "universal_newlines ?pre = ?pre" by (rule unl_no_cr) (use assms(1) in auto)
  have "universal_newlines (?pre @ c @ nl) = ?pre @ universal_newlines (c @ nl)"
    using unl_append [of ?pre "c @ nl"] pre by simp
  moreover have "universal_newlines (c @ nl) = universal_newlines c @ nl" using unl_append [OF assms(2), of nl] by simp
  ultimately show ?thesis by simp
qed

lemma read_serialized:
  assumes "yaml_laws cd" "validate_record r = Inr ()" "yaml_safe r"
  shows "read_record cd (slug r) (utf8_encode (serialize cd r), t) = Inr (stored_record t r)"
proof -
  note v = validate_recordD [OF assms(2)]
  obtain b where b: "yaml_dump cd (rec_name r, description r, rec_type r) = b @ nl" "CHR 0x0D \<notin> set b"
      "split_once separator (b @ nl) = None"
      "yaml_load cd b = Inr (PDict [(''name'', PStr (rec_name r)), (''description'', PStr (description r)), (''type'', PStr (rec_type r))])"
    using assms(1,3) v unfolding yaml_laws_def yaml_safe_def by blast
  let ?c = "rstrip (rec_content r)"
  have c: "?c = [] \<or> last ?c \<noteq> CHR 0x0D" using rstrip_last [of "rec_content r"] by (metis cr_lf_space(1))
  let ?raw = "''---'' @ nl @ b @ separator @ nl @ universal_newlines ?c @ nl"
  have raw: "universal_newlines (serialize cd r) = ?raw"
    using unl_serialized [OF b(2) c] by (simp add: serialize_def b(1))
  have "drop 4 ?raw = b @ separator @ nl @ universal_newlines ?c @ nl" by simp
  then have split: "split_once separator (drop 4 ?raw) = Some (b, nl @ universal_newlines ?c @ nl)"
    using split_once_separator [OF b(3)] by simp
  have strip: "remove_suffix nl (remove_prefix nl (nl @ x @ nl)) = x" for x :: string
    by (simp add: remove_suffix_def remove_prefix_def suffix_def)
  have eq: "stored_record t r = \<lparr>slug = slug r, rec_name = rec_name r, description = description r, rec_type = rec_type r,
      rec_content = universal_newlines ?c, updated_at = Some t\<rparr>"
    by (cases r) (simp add: stored_record_def)
  have "validate_record (stored_record t r) = Inr ()" by (rule validate_stored_record [OF assms(2)])
  then show ?thesis
    unfolding read_record_def fst_conv utf8_decode_encode result_bind.simps raw Let_def split
    using strip [of "universal_newlines ?c"] b(4)
    by (simp add: str_field_def dict_get_def eq insert_commute)
qed

section \<open>The directory that holds a set of records\<close>

text \<open>The time a record file gets, and the record as it is read back.\<close>

definition timed :: "int \<Rightarrow> MemoryRecord \<Rightarrow> MemoryRecord" where
  "timed now r = r\<lparr>updated_at := Some (case updated_at r of None \<Rightarrow> now | Some t \<Rightarrow> t)\<rparr>"

definition normal :: "MemoryRecord \<Rightarrow> MemoryRecord" where
  "normal r = r\<lparr>rec_content := universal_newlines (rstrip (rec_content r))\<rparr>"

definition file_name :: "MemoryRecord \<Rightarrow> string" where
  "file_name r = slug r @ ''.md''"

definition valid_records :: "MemoryRecord list \<Rightarrow> bool" where
  "valid_records rs \<longleftrightarrow> distinct (map slug rs) \<and> (\<forall>r \<in> set rs. validate_record r = Inr () \<and> updated_at r \<noteq> None)"

definition files_of :: "Codec \<Rightarrow> MemoryRecord list \<Rightarrow> mfile \<Rightarrow> (string \<times> mfile) list" where
  "files_of cd rs index = map (record_file cd 0) rs @ [(MEMORY_INDEX, index)]"

definition holds :: "Codec \<Rightarrow> MemoryRecord list \<Rightarrow> mfile memdir \<Rightarrow> bool" where
  "holds cd rs d \<longleftrightarrow> valid_records rs \<and> list_all yaml_safe rs \<and>
     ((dir_exists d \<and> (\<exists>index. settled (new_files (files_of cd rs index)) d)) \<or> (rs = [] \<and> settled Map.empty d))"

text \<open>What the operations show of it: the records in the order of their file names.\<close>

definition shown :: "MemoryRecord list \<Rightarrow> MemoryRecord list" where
  "shown rs = map normal (sort_key file_name rs)"

lemma slug_ne: "validate_slug s = Inr () \<Longrightarrow> s \<noteq> [] \<and> s \<noteq> ''MEMORY''"
  by (auto simp: validate_slug_def split: if_splits)

lemma stem_file_name: "validate_slug (slug r) = Inr () \<Longrightarrow> stem (file_name r) = slug r"
  using slug_ne [of "slug r"] by (simp add: stem_def file_name_def)

lemma file_name_inj: "file_name r = file_name x \<Longrightarrow> slug r = slug x"
  by (simp add: file_name_def)

lemma file_name_not_index: "validate_slug (slug r) = Inr () \<Longrightarrow> file_name r \<noteq> MEMORY_INDEX"
proof
  assume a: "validate_slug (slug r) = Inr ()" "file_name r = MEMORY_INDEX"
  then have "slug r @ ''.md'' = ''MEMORY'' @ ''.md''" by (simp add: file_name_def MEMORY_INDEX_def)
  then show False using slug_ne [OF a(1)] by (simp only: append_same_eq)
qed

lemma fst_record_file [simp]: "fst (record_file cd now r) = file_name r"
  by (simp add: record_file_def file_name_def)

lemma files_of_names: "map fst (files_of cd rs index) = map file_name rs @ [MEMORY_INDEX]"
  by (simp add: files_of_def comp_def)

lemma files_of_set: "fst ` set (files_of cd rs index) = insert MEMORY_INDEX (file_name ` set rs)"
  using arg_cong [OF files_of_names [of cd rs index], of set] by simp

lemma distinct_files_of: "valid_records rs \<Longrightarrow> distinct (map fst (files_of cd rs index))"
proof -
  assume v: "valid_records rs"
  then have "distinct (map file_name rs)"
    by (auto simp: valid_records_def distinct_map inj_on_def file_name_def)
  moreover have "MEMORY_INDEX \<notin> set (map file_name rs)"
    using v file_name_not_index validate_recordD(1) by (fastforce simp: valid_records_def)
  ultimately show ?thesis by (simp add: files_of_names)
qed

lemma new_files_record:
  assumes "valid_records rs" "r \<in> set rs"
  shows "new_files (files_of cd rs index) (file_name r) = Some (Whole (snd (record_file cd 0 r)))"
proof -
  have "(file_name r, snd (record_file cd 0 r)) \<in> set (files_of cd rs index)"
    using assms(2) by (force simp: files_of_def record_file_def file_name_def)
  then have "map_of (files_of cd rs index) (file_name r) = Some (snd (record_file cd 0 r))"
    using distinct_files_of [OF assms(1)] map_of_is_SomeI by metis
  then show ?thesis by (simp add: new_files_def)
qed

lemma scan_file_record:
  assumes "yaml_laws cd" "valid_records rs" "r \<in> set rs" "active_map d = new_files (files_of cd rs index)" "yaml_safe r"
  shows "scan_file cd d (file_name r) = Inr (normal r)"
proof -
  have v: "validate_record r = Inr ()" "updated_at r \<noteq> None" using assms(2,3) by (auto simp: valid_records_def)
  then obtain t where t: "updated_at r = Some t" by auto
  have "stored_record t r = normal r" using t by (cases r) (simp add: stored_record_def normal_def)
  then show ?thesis
    using new_files_record [OF assms(2,3)] read_serialized [OF assms(1) v(1) assms(5), of t] validate_recordD(1) [OF v(1)] assms(4) t
    by (simp add: scan_file_def stem_file_name record_file_def)
qed

lemma scanned_names:
  assumes "valid_records rs" "active_map d = new_files (files_of cd rs index)"
  shows "filter (\<lambda>n. suffix ''.md'' n \<and> n \<noteq> MEMORY_INDEX) (file_names (active d)) = map file_name (sort_key file_name rs)"
proof (rule sorted_distinct_set_unique)
  show "sorted (filter (\<lambda>n. suffix ''.md'' n \<and> n \<noteq> MEMORY_INDEX) (file_names (active d)))"
    "distinct (filter (\<lambda>n. suffix ''.md'' n \<and> n \<noteq> MEMORY_INDEX) (file_names (active d)))"
    by (simp_all add: file_names_def sorted_wrt_filter)
  show "sorted (map file_name (sort_key file_name rs))" by simp
  show "distinct (map file_name (sort_key file_name rs))"
    using assms(1) by (auto simp: valid_records_def distinct_map inj_on_def file_name_def)
  have "dom (active_map d) = insert MEMORY_INDEX (file_name ` set rs)"
    unfolding assms(2) dom_new_files by (rule files_of_set)
  moreover have "\<forall>r \<in> set rs. suffix ''.md'' (file_name r) \<and> file_name r \<noteq> MEMORY_INDEX"
    using assms(1) validate_recordD(1) file_name_not_index by (force simp: valid_records_def file_name_def suffix_def)
  ultimately show "set (filter (\<lambda>n. suffix ''.md'' n \<and> n \<noteq> MEMORY_INDEX) (file_names (active d))) = set (map file_name (sort_key file_name rs))"
    by auto
qed

lemma scan_holds:
  assumes "yaml_laws cd" "holds cd rs d"
  shows "scan_dir cd (dir_exists d) d = Inr (shown rs)"
proof -
  from assms(2) consider (files) index where "dir_exists d" "valid_records rs" "settled (new_files (files_of cd rs index)) d"
      "list_all yaml_safe rs"
    | (empty) "rs = []" "settled Map.empty d" by (auto simp: holds_def)
  then show ?thesis
  proof cases
    case files
    then have act: "active_map d = new_files (files_of cd rs index)" by (simp add: settled_def)
    have "scan cd d = Inr (map normal (sort_key file_name rs))"
      unfolding scan_def scanned_names [OF files(2) act] map_map comp_def
      by (rule result_list_Inr) (use scan_file_record [OF assms(1) files(2) _ act] files(4) in \<open>simp add: list_all_iff\<close>)
    then show ?thesis using files(1) by (simp add: scan_dir_def shown_def)
  next
    case empty
    then have "set (file_names (active d)) = {}" by (simp only: set_file_names) (simp add: settled_def)
    then have "file_names (active d) = []" by (simp only: set_empty)
    then show ?thesis using empty(1) by (simp add: scan_dir_def scan_def shown_def)
  qed
qed

section \<open>The operations on a directory that holds records\<close>

lemma fs_step_dir_exists: "c \<noteq> Rmdir_memory \<Longrightarrow> dir_exists (fs_step d c) = (dir_exists d \<or> c = Mkdir_memory)"
  by (cases c) (auto split: option.splits)

lemma fs_run_dir_exists:
  "Rmdir_memory \<notin> set cs \<Longrightarrow> dir_exists (fs_run cs d) = (dir_exists d \<or> Mkdir_memory \<in> set cs)"
proof (induction cs arbitrary: d)
  case (Cons c cs)
  then show ?case using Cons.IH [of "fs_step d c"] fs_step_dir_exists [of c d] by (cases "c = Rmdir_memory") auto
qed simp

lemma recover_dir_exists: "dir_exists (recover d) = dir_exists d"
proof -
  have "Rmdir_memory \<notin> set (recover_calls d)" "Mkdir_memory \<notin> set (recover_calls d)"
    by (auto simp: recover_calls_def remove_backup_def remove_stage_def split: option.splits)
  then show ?thesis by (simp add: recover_def fs_run_dir_exists)
qed

lemma settled_preparing: "settled m d \<Longrightarrow> preparing m d"
  by (simp add: settled_def preparing_def)

lemma holds_recover: "holds cd rs d \<Longrightarrow> holds cd rs (recover d)"
  unfolding holds_def recover_dir_exists using recover_preparing [OF settled_preparing] by blast

lemma replace_dir_exists:
  assumes "prefix cs (replace_calls d new)" "cs \<noteq> []"
  shows "dir_exists (fs_run cs d)"
proof -
  have no: "Rmdir_memory \<notin> set (replace_calls d new)"
    by (auto simp: replace_calls_def stage_calls_def write_stage_file_def backup_calls_def promote_calls_def cleanup_calls_def
        remove_backup_def remove_stage_def)
  have "Mkdir_memory \<in> set cs" if "\<not> dir_exists d"
    using assms that by (cases cs) (auto simp: replace_calls_def stage_calls_def)
  moreover have "Rmdir_memory \<notin> set cs" using no set_mono_prefix [OF assms(1)] by blast
  ultimately show ?thesis by (cases "dir_exists d") (simp_all add: fs_run_dir_exists)
qed

lemma replace_full:
  assumes "settled m d" "distinct (map fst new)"
  shows "settled (new_files new) (fs_run (replace_calls d new) d) \<and> dir_exists (fs_run (replace_calls d new) d)"
proof -
  let ?cs = "replace_calls d new"
  have c: "Commit \<in> set ?cs" by (simp add: replace_calls_def promote_calls_def)
  have "\<not> committed (fs_run ?cs d)" by (simp add: replace_calls_def cleanup_calls_def)
  then have "settled (new_files new) (fs_run ?cs d)" using replace_prefix [OF assms, of ?cs] c by (auto simp: done_with_def)
  moreover have "?cs \<noteq> []" using c by auto
  ultimately show ?thesis using replace_dir_exists [of ?cs d new] by simp
qed

lemma validate_timed [simp]: "validate_record (timed now r) = validate_record r"
  by (simp add: validate_record_def timed_def)

lemma slug_timed [simp]: "slug (timed now r) = slug r"
  by (simp add: timed_def)

lemma updated_at_timed [simp]: "updated_at (timed now r) = Some (case updated_at r of None \<Rightarrow> now | Some t \<Rightarrow> t)"
  by (simp add: timed_def)

lemma record_file_timed [simp]: "record_file cd 0 (timed now r) = record_file cd now r"
  by (simp add: record_file_def timed_def serialize_def split: option.splits)

lemma prepareD:
  assumes "prepare cd max_byte now rs = Inr files"
  shows "valid_records (map (timed now) (sort_key slug rs)) \<and>
    files = files_of cd (map (timed now) (sort_key slug rs)) (serialize_index (sort_key slug rs), now)"
proof -
  have *: "result_list (map f xs) = Inr ys \<Longrightarrow> x \<in> set xs \<Longrightarrow> \<exists>y. f x = Inr y" for f :: "MemoryRecord \<Rightarrow> unit result" and xs ys x
    by (induction xs arbitrary: ys) (auto simp: result_bind_Inr_iff)
  from assms have "distinct (map slug (sort_key slug rs))" "\<exists>ys. result_list (map validate_record (sort_key slug rs)) = Inr ys"
    "files = map (record_file cd now) (sort_key slug rs) @ [(MEMORY_INDEX, (serialize_index (sort_key slug rs), now))]"
    by (auto simp: prepare_def Let_def result_bind_Inr_iff split: if_splits)
  moreover from this(2) have "validate_record r = Inr ()" if "r \<in> set rs" for r
    using * [of validate_record "sort_key slug rs" _ r] that by auto
  ultimately show ?thesis by (auto simp: valid_records_def files_of_def comp_def)
qed

lemma yaml_safe_simps [simp]: "yaml_safe (timed now r) = yaml_safe r" "yaml_safe (normal r) = yaml_safe r"
  by (simp_all add: yaml_safe_def timed_def normal_def)

lemma list_all_shown [simp]: "list_all yaml_safe (shown rs) = list_all yaml_safe rs"
  by (simp add: list_all_iff shown_def)

lemma list_all_put: "list_all yaml_safe rs \<Longrightarrow> yaml_safe r \<Longrightarrow> list_all yaml_safe (put_record r rs)"
  by (auto simp: list_all_iff put_record_def)

lemma list_all_filtered: "list_all P xs \<Longrightarrow> list_all P (filter q xs)"
  by (auto simp: list_all_iff)

lemma replace_locked_spec:
  assumes "yaml_laws cd" "holds cd rs d" "list_all yaml_safe new"
  shows "if expected \<noteq> None \<and> expected \<noteq> Some (version cd (shown rs))
      then replace_locked cd max_byte now new expected d = (Inl MemoryVersionConflictError, if dir_exists d then recover d else d)
      else case prepare cd max_byte now new of
             Inl e \<Rightarrow> replace_locked cd max_byte now new expected d = (Inl e, if dir_exists d then recover d else d)
           | Inr files \<Rightarrow>
               \<exists>d'. replace_locked cd max_byte now new expected d =
                 (Inr \<lparr>records = shown (map (timed now) (sort_key slug new)),
                       snap_version = version cd (shown (map (timed now) (sort_key slug new)))\<rparr>, d') \<and>
                 holds cd (map (timed now) (sort_key slug new)) d'"
proof -
  let ?d = "if dir_exists d then recover d else d"
  have h: "holds cd rs ?d" using assms(2) holds_recover by simp
  have sc: "scan_dir cd (dir_exists ?d) ?d = Inr (shown rs)" using scan_holds [OF assms(1) h] .
  show ?thesis
  proof (cases "prepare cd max_byte now new")
    case (Inl e)
    then show ?thesis unfolding replace_locked_def Let_def sc by simp
  next
    case (Inr files)
    let ?raw = "map (timed now) (sort_key slug new)" and ?e = "fs_run (replace_calls ?d files) ?d"
    from prepareD [OF Inr] have v: "valid_records ?raw" "files = files_of cd ?raw (serialize_index (sort_key slug new), now)" by auto
    obtain m where "settled m ?d" using h by (auto simp: holds_def)
    from replace_full [OF this, of files] have "settled (new_files files) ?e" "dir_exists ?e"
      using distinct_files_of [OF v(1)] v(2) by simp_all
    then have h': "holds cd ?raw ?e" using v assms(3) by (auto simp: holds_def list_all_iff)
    have "scan cd ?e = Inr (shown ?raw)" using scan_holds [OF assms(1) h'] \<open>dir_exists ?e\<close> by (simp add: scan_dir_def)
    then show ?thesis using h' unfolding replace_locked_def Let_def sc by (simp add: Inr)
  qed
qed

section \<open>The store as a map\<close>

text \<open>The abstract store is the map from slugs to records. A stored record is normal and carries its time.\<close>

definition view :: "MemoryRecord list \<Rightarrow> string \<rightharpoonup> MemoryRecord" where
  "view rs = map_of (map (\<lambda>r. (slug r, normal r)) rs)"

definition saved :: "int \<Rightarrow> MemoryRecord \<Rightarrow> MemoryRecord" where
  "saved now r = normal (timed now r)"

lemma slug_normal [simp]: "slug (normal r) = slug r"
  by (simp add: normal_def)

lemma normal_idem: "normal (normal r) = normal r"
  by (simp add: normal_def cr_unl unl_no_cr)

lemma saved_normal: "updated_at r \<noteq> None \<Longrightarrow> saved now (normal r) = normal r"
  by (cases r) (auto simp: saved_def timed_def normal_def cr_unl unl_no_cr)

lemma map_of_perm:
  "distinct (map fst xs) \<Longrightarrow> distinct (map fst ys) \<Longrightarrow> set xs = set ys \<Longrightarrow> map_of xs = map_of ys"
  by (metis map_of_inject_set)

lemma view_set_cong: "distinct (map slug rs) \<Longrightarrow> distinct (map slug xs) \<Longrightarrow> normal ` set rs = normal ` set xs \<Longrightarrow> view rs = view xs"
proof -
  assume a: "distinct (map slug rs)" "distinct (map slug xs)" "normal ` set rs = normal ` set xs"
  have "(\<lambda>r. (slug r, normal r)) ` S = (\<lambda>n. (slug n, n)) ` normal ` S" for S by (auto simp: image_iff)
  then have "set (map (\<lambda>r. (slug r, normal r)) rs) = set (map (\<lambda>r. (slug r, normal r)) xs)"
    using a(3) by simp
  moreover have "distinct (map fst (map (\<lambda>r. (slug r, normal r)) rs))" "distinct (map fst (map (\<lambda>r. (slug r, normal r)) xs))"
    using a(1,2) by (simp_all add: comp_def)
  ultimately show ?thesis unfolding view_def by (intro map_of_perm)
qed

lemma view_sort: "distinct (map slug rs) \<Longrightarrow> view (sort_key f rs) = view rs"
  by (rule view_set_cong) (simp_all add: distinct_map)

lemma view_normal: "view (map normal rs) = view rs"
  by (simp add: view_def comp_def normal_idem)

lemma view_shown: "distinct (map slug rs) \<Longrightarrow> view (shown rs) = view rs"
  by (simp add: shown_def view_normal view_sort)

lemma view_Cons [simp]: "view [] = Map.empty" "view (r # rs) = (view rs)(slug r \<mapsto> normal r)"
  by (simp_all add: view_def)

lemma view_replace:
  "view (map (\<lambda>x. if slug x = slug r then r else x) rs) =
    (if slug r \<in> slug ` set rs then (view rs)(slug r \<mapsto> normal r) else view rs)"
  by (induction rs) (auto simp: fun_upd_twist)

lemma view_append: "view (rs @ [r]) = (if slug r \<in> slug ` set rs then view rs else (view rs)(slug r \<mapsto> normal r))"
  by (induction rs) (auto simp: fun_upd_twist)

lemma view_put: "view (put_record r rs) = (view rs)(slug r \<mapsto> normal r)"
  by (simp add: put_record_def view_replace view_append)

lemma view_filter: "view (filter (\<lambda>x. slug x \<noteq> s) rs) = (view rs)(s := None)"
  by (induction rs) (auto simp: fun_upd_twist)

text \<open>What an operation that stored \<open>rs\<close> leaves.\<close>

abbreviation stored :: "int \<Rightarrow> MemoryRecord list \<Rightarrow> MemoryRecord list" where
  "stored now rs \<equiv> map (timed now) (sort_key slug rs)"

lemma view_stored: "distinct (map slug rs) \<Longrightarrow> view (stored now rs) = view (map (timed now) rs)"
  by (intro view_set_cong) (simp_all add: comp_def distinct_map)

lemma timed_shown: "valid_records rs \<Longrightarrow> map (timed now) (shown rs) = shown rs"
  by (auto simp: shown_def timed_def normal_def valid_records_def intro!: map_idI)

lemma timed_put: "map (timed now) (put_record r rs) = put_record (timed now r) (map (timed now) rs)"
  by (simp add: put_record_def comp_def image_image if_distrib cong: if_cong)

lemma find_view: "find (\<lambda>x. slug x = s) (map normal rs) = view rs s"
  by (induction rs) auto

lemma find_shown: "distinct (map slug rs) \<Longrightarrow> find (\<lambda>x. slug x = s) (shown rs) = view rs s"
  by (simp add: shown_def find_view view_sort)

lemma holds_valid: "holds cd rs d \<Longrightarrow> valid_records rs"
  by (auto simp: holds_def valid_records_def)

lemma valid_distinct: "valid_records rs \<Longrightarrow> distinct (map slug rs)"
  by (simp add: valid_records_def)

lemma stored_distinct: "valid_records (stored now rs) \<Longrightarrow> distinct (map slug rs)"
  by (simp add: valid_records_def comp_def distinct_map)

lemma holds_memory_dir:
  assumes "holds cd rs d"
  shows "with_memory_dir (Some d) k = k (dir_exists d) d"
  using assms by (auto simp: with_memory_dir_def memory_dir_def holds_def settled_def transaction_entry_def)

lemma holds_same: "holds cd rs d \<Longrightarrow> holds cd rs (if dir_exists d then recover d else d)"
  by (simp add: holds_recover)

lemma dom_view: "dom (view rs) = slug ` set rs"
  by (induction rs) (simp_all only: view_Cons dom_fun_upd list.set image_insert image_empty dom_empty, simp_all)

lemma shown_slugs: "slug ` set (shown rs) = slug ` set rs"
  by (simp add: shown_def image_image)

lemma holds_safe: "holds cd rs d \<Longrightarrow> list_all yaml_safe rs"
  by (simp add: holds_def)

lemma write_spec:
  assumes "yaml_laws cd" "holds cd rs d" "yaml_safe r"
  shows "case prepare cd max_byte now (put_record r (shown rs)) of
      Inl e \<Rightarrow> \<exists>d'. write_memory cd max_byte now r (Some d) = (Inl e, Some d') \<and> holds cd rs d'
    | Inr _ \<Rightarrow> \<exists>d' rs'. write_memory cd max_byte now r (Some d) = (Inr (saved now r), Some d') \<and> holds cd rs' d' \<and>
        view rs' = (view rs)(slug r \<mapsto> saved now r)"
proof -
  let ?new = "put_record r (shown rs)"
  have safe: "list_all yaml_safe ?new" using list_all_put assms(3) holds_safe [OF assms(2)] by simp
  note run = holds_memory_dir [OF assms(2)] and sc = scan_holds [OF assms(1,2)]
  note rl = replace_locked_spec [OF assms(1,2) safe, of None max_byte now]
  note v = holds_valid [OF assms(2)]
  show ?thesis
  proof (cases "prepare cd max_byte now ?new")
    case (Inl e)
    then show ?thesis using rl holds_same [OF assms(2)] by (simp add: write_memory_def run sc split del: if_split)
  next
    case (Inr files)
    let ?rs = "stored now ?new"
    have d: "valid_records ?rs" using prepareD [OF Inr] by simp
    have vw: "view ?rs = (view rs)(slug r \<mapsto> saved now r)"
      using view_shown [OF valid_distinct [OF v]]
      by (simp add: view_stored [OF stored_distinct [OF d]] timed_put timed_shown [OF v] view_put saved_def)
    have "find (\<lambda>x. slug x = slug r) (shown ?rs) = Some (saved now r)"
      using find_shown [OF valid_distinct [OF d], of "slug r"] vw by simp
    then show ?thesis using rl Inr vw by (auto simp: write_memory_def run sc)
  qed
qed

lemma delete_spec:
  assumes "yaml_laws cd" "holds cd rs d" "validate_slug s = Inr ()"
  shows "if s \<notin> dom (view rs) then delete_memory cd max_byte now s (Some d) = (Inl FileNotFoundError, Some d)
    else case prepare cd max_byte now (filter (\<lambda>x. slug x \<noteq> s) (shown rs)) of
      Inl e \<Rightarrow> \<exists>d'. delete_memory cd max_byte now s (Some d) = (Inl e, Some d') \<and> holds cd rs d'
    | Inr _ \<Rightarrow> \<exists>d' rs'. delete_memory cd max_byte now s (Some d) = (Inr (), Some d') \<and> holds cd rs' d' \<and>
        view rs' = (view rs)(s := None)"
proof -
  let ?new = "filter (\<lambda>x. slug x \<noteq> s) (shown rs)"
  note run = holds_memory_dir [OF assms(2)] and sc = scan_holds [OF assms(1,2)]
  have safe: "list_all yaml_safe ?new" using holds_safe [OF assms(2)] by (simp add: list_all_filtered)
  note rl = replace_locked_spec [OF assms(1,2) safe, of None max_byte now]
  note v = holds_valid [OF assms(2)]
  have there: "dir_exists d" if "s \<in> dom (view rs)" using assms(2) that by (auto simp: holds_def)
  have scan: "dir_exists d \<Longrightarrow> scan cd d = Inr (shown rs)" using sc by (simp add: scan_dir_def)
  have dom: "s \<in> set (map slug (shown rs)) \<longleftrightarrow> s \<in> dom (view rs)" by (simp add: shown_slugs dom_view)
  show ?thesis
  proof (cases "s \<in> dom (view rs)")
    case False
    then show ?thesis using dom scan assms(3) by (simp add: delete_memory_def run)
  next
    case True
    note t = True there [OF True] scan [OF there [OF True]] iffD2 [OF dom True]
    show ?thesis
    proof (cases "prepare cd max_byte now ?new")
      case (Inl e)
      then show ?thesis using rl holds_same [OF assms(2)] t assms(3) by (auto simp: delete_memory_def run)
    next
      case (Inr files)
      let ?rs = "stored now ?new"
      have d: "valid_records ?rs" using prepareD [OF Inr] by simp
      have "map (timed now) ?new = filter (\<lambda>x. slug x \<noteq> s) (map (timed now) (shown rs))" by (simp add: filter_map comp_def)
      then have "view ?rs = (view rs)(s := None)"
        using view_shown [OF valid_distinct [OF v]]
        by (simp add: view_stored [OF stored_distinct [OF d]] timed_shown [OF v] view_filter)
      then show ?thesis using rl Inr t assms(3) by (auto simp: delete_memory_def run)
    qed
  qed
qed

lemma read_spec:
  assumes "yaml_laws cd" "holds cd rs d" "validate_slug s = Inr ()"
  shows "read_memory cd s (Some d) = (case view rs s of None \<Rightarrow> Inl FileNotFoundError | Some r \<Rightarrow> Inr r, Some d)"
proof -
  note run = holds_memory_dir [OF assms(2)] and v = holds_valid [OF assms(2)]
  from assms(2) consider (files) index where "dir_exists d" "active_map d = new_files (files_of cd rs index)"
    | (empty) "rs = []" "active_map d = Map.empty" by (auto simp: holds_def settled_def)
  then show ?thesis
  proof cases
    case empty
    then show ?thesis using assms(3) by (simp add: read_memory_def run)
  next
    case files
    show ?thesis
    proof (cases "view rs s")
      case None
      then have "s \<notin> slug ` set rs" using dom_view [of rs] by (metis domIff)
      moreover have "s @ ''.md'' \<noteq> MEMORY_INDEX"
        using file_name_not_index [of "undefined\<lparr>slug := s\<rparr>"] assms(3) by (simp add: file_name_def)
      ultimately have "s @ ''.md'' \<notin> dom (active_map d)"
        unfolding files(2) dom_new_files files_of_set by (auto simp: file_name_def)
      then have "active_map d (s @ ''.md'') = None" by (simp only: domIff not_not)
      then show ?thesis using None files(1) assms(3) by (simp add: read_memory_def run)
    next
      case (Some x)
      then have "find (\<lambda>x. slug x = s) (map normal rs) = Some x" by (simp add: find_view)
      then have "x \<in> set (map normal rs)" "slug x = s" by (auto simp: find_Some_iff in_set_conv_nth simp del: set_map)
      then obtain r where r: "r \<in> set rs" "slug r = s" "x = normal r" by auto
      have "scan_file cd d (file_name r) = Inr (normal r)" 
        by (rule scan_file_record [OF assms(1) v r(1) files(2)]) (use holds_safe [OF assms(2)] r(1) in \<open>simp add: list_all_iff\<close>)
      then show ?thesis
        using new_files_record [OF v r(1), of cd index] Some files r assms(3) stem_file_name [of r]
        by (simp add: read_memory_def run scan_file_def file_name_def)
    qed
  qed
qed

section \<open>Properties\<close>

text \<open>C26. The store of a thread refines a map from slugs to records, for a YAML with the round trip \<open>yaml_laws\<close>. On a directory that holds a set of records, reading gives
  the record of the slug or FileNotFoundError; writing and deleting update the map at one slug, where a written record comes
  back with the blanks at its end removed and its line ends normalised, or they fail with the error of the check
  of the new set and leave the map as it was. Neither the records there nor the written one have the character U+0085 in name or
  description: the check accepts it, but the YAML of the file turns it into a space (\<open>next_line_lost\<close>).\<close>

theorem store_refines_map:
  assumes "yaml_laws cd" "holds cd rs d" "validate_slug s = Inr ()" "yaml_safe r"
  shows "read_memory cd s (Some d) = (case view rs s of None \<Rightarrow> Inl FileNotFoundError | Some r \<Rightarrow> Inr r, Some d) \<and>
    (case prepare cd max_byte now (put_record r (shown rs)) of
       Inl e \<Rightarrow> \<exists>d'. write_memory cd max_byte now r (Some d) = (Inl e, Some d') \<and> holds cd rs d'
     | Inr _ \<Rightarrow> \<exists>d' rs'. write_memory cd max_byte now r (Some d) = (Inr (saved now r), Some d') \<and> holds cd rs' d' \<and>
         view rs' = (view rs)(slug r \<mapsto> saved now r)) \<and>
    (if s \<notin> dom (view rs) then delete_memory cd max_byte now s (Some d) = (Inl FileNotFoundError, Some d)
     else case prepare cd max_byte now (filter (\<lambda>x. slug x \<noteq> s) (shown rs)) of
       Inl e \<Rightarrow> \<exists>d'. delete_memory cd max_byte now s (Some d) = (Inl e, Some d') \<and> holds cd rs d'
     | Inr _ \<Rightarrow> \<exists>d' rs'. delete_memory cd max_byte now s (Some d) = (Inr (), Some d') \<and> holds cd rs' d' \<and>
         view rs' = (view rs)(s := None))"
  using read_spec [OF assms(1-3)] write_spec [OF assms(1,2,4)] delete_spec [OF assms(1-3)] by blast

text \<open>A YAML codec for the witnesses: the two free texts with backslash and carriage return escaped.\<close>

fun esc :: "string \<Rightarrow> string" where
  "esc [] = []"
| "esc (c # cs) =
     (if c = CHR 0x5C then CHR 0x5C # CHR 0x5C # esc cs
      else if c = CHR 0x0D then CHR 0x5C # CHR ''r'' # esc cs else c # esc cs)"

fun unesc :: "string \<Rightarrow> string" where
  "unesc [] = []"
| "unesc [c] = [c]"
| "unesc (c # c' # cs) =
     (if c = CHR 0x5C then (if c' = CHR ''r'' then CHR 0x0D else c') # unesc cs else c # unesc (c' # cs))"

lemma unesc_plain: "c \<noteq> CHR 0x5C \<Longrightarrow> unesc (c # cs) = c # unesc cs"
  by (cases cs) simp_all

lemma unesc_esc: "unesc (esc s) = s"
  by (induction s) (auto simp: unesc_plain)

lemma esc_chars: "CHR 0x0A \<notin> set s \<Longrightarrow> CHR 0x0A \<notin> set (esc s) \<and> CHR 0x0D \<notin> set (esc s)"
  by (induction s) auto

definition mem_dump :: "string \<times> string \<times> string \<Rightarrow> string" where
  "mem_dump x = (case x of (n, d, t) \<Rightarrow> ''n '' @ esc n @ nl @ ''d '' @ esc d @ nl @ ''t '' @ t @ nl)"

definition line_of :: "string \<Rightarrow> string \<times> string" where
  "line_of s = (case str_partition (CHR 0x0A) s of (a, _, b) \<Rightarrow> (drop 2 a, b))"

definition mem_load :: "string \<Rightarrow> pyval result" where
  "mem_load s =
     (case line_of s of (n, s) \<Rightarrow> case line_of s of (d, s) \<Rightarrow> case line_of s of (t, _) \<Rightarrow>
        Inr (PDict [(''name'', PStr (unesc n)), (''description'', PStr (unesc d)), (''type'', PStr t)]))"

definition mem_codec :: Codec where
  "mem_codec = \<lparr>yaml_dump = mem_dump, yaml_load = mem_load, sha256 = (\<lambda>x. x)\<rparr>"

text \<open>A text whose lines all start with a letter has no separator line.\<close>

lemma split_once_line:
  "CHR 0x0A \<notin> set a \<Longrightarrow> c \<noteq> CHR ''-'' \<Longrightarrow> split_once separator (a @ CHR 0x0A # c # rest) =
    map_option (\<lambda>(x, y). (a @ CHR 0x0A # c # x, y)) (split_once separator rest)"
  if "c \<noteq> CHR 0x0A"
proof (induction a)
  case Nil
  then show ?case using that by (auto simp: option.map_comp comp_def split_def)
next
  case (Cons b a)
  then have "\<not> prefix separator ((b # a) @ CHR 0x0A # c # rest)" by auto
  then show ?case using Cons by (auto simp: option.map_comp comp_def split_def)
qed

lemma split_once_last_line: "CHR 0x0A \<notin> set a \<Longrightarrow> split_once separator (a @ nl) = None"
  by (induction a) auto

lemma mem_codec_laws: "yaml_laws mem_codec"
  unfolding yaml_laws_def
proof (intro allI impI)
  fix n d t :: string
  assume a: "CHR 0x0A \<notin> set n" "CHR 0x0A \<notin> set d" "t \<in> MEMORY_TYPE"
  then have t: "CHR 0x0A \<notin> set t" "CHR 0x0D \<notin> set t" by (auto simp: MEMORY_TYPE_def)
  note e = esc_chars [OF a(1)] esc_chars [OF a(2)]
  let ?b = "''n '' @ esc n @ nl @ ''d '' @ esc d @ nl @ ''t '' @ t"
  have line: "line_of (x # y # s @ CHR 0x0A # r) = (s, r)" if "CHR 0x0A \<notin> set (x # y # s)" for x y s r
    using str_partition_append [of "CHR 0x0A" "x # y # s" r] that by (simp add: line_of_def)
  have last: "line_of (x # y # s) = (s, [])" if "CHR 0x0A \<notin> set (x # y # s)" for x y s
    using str_partition_absent [of "CHR 0x0A" "x # y # s"] that by (simp add: line_of_def)
  have "split_once separator (?b @ nl) = None"
    using split_once_line [of "CHR ''d''" "''n '' @ esc n" "'' '' @ esc d @ nl @ ''t '' @ t @ nl"]
      split_once_line [of "CHR ''t''" "'' '' @ esc d" "'' '' @ t @ nl"] split_once_last_line [of "'' '' @ t"] e t
    by simp
  moreover have "mem_load ?b = Inr (PDict [(''name'', PStr n), (''description'', PStr d), (''type'', PStr t)])"
    using e t by (simp add: mem_load_def line last unesc_esc)
  moreover have "CHR 0x0D \<notin> set ?b" using e t by simp
  ultimately show "\<exists>b. yaml_dump mem_codec (n, d, t) = b @ nl \<and> CHR 0x0D \<notin> set b \<and> split_once separator (b @ nl) = None \<and>
      yaml_load mem_codec b = Inr (PDict [(''name'', PStr n), (''description'', PStr d), (''type'', PStr t)])"
    by (intro exI [of _ ?b]) (simp add: mem_codec_def mem_dump_def)
qed

definition mem_record :: "string \<Rightarrow> string \<Rightarrow> MemoryRecord" where
  "mem_record s c = \<lparr>slug = s, rec_name = ''Name'', description = ''text'', rec_type = ''user'', rec_content = c, updated_at = Some 7\<rparr>"

definition empty_dir :: "mfile memdir" where
  "empty_dir = \<lparr>dir_exists = False, active = [], stage = None, backup = None, promoting = False, committed = False\<rparr>"

lemma empty_dir_holds: "holds cd [] empty_dir"
  by (simp add: holds_def empty_dir_def settled_def valid_records_def)

lemmas mem_record_simps = prepare_def Let_def mem_record_def validate_record_def validate_slug_def slug_char_def is_decimal_def blank_def
  is_unicode_space_def is_c_space_def MEMORY_TYPE_def MAX_MEMORY_CONTENT_CHARACTER_def MAX_MEMORY_INDEX_BYTE_def serialize_index_def
  index_title_def utf8_encode_def utf8_char_def rstrip_def index_line_def record_file_def serialize_def mem_codec_def mem_dump_def

lemma prepare_mem_record:
  "prepare mem_codec 1000 50 [mem_record ''a'' ''one ''] = Inr (files_of mem_codec [mem_record ''a'' ''one ''] (serialize_index [mem_record ''a'' ''one ''], 50))"
  "prepare mem_codec 1000 50 [mem_record ''a'' ''one''] = Inr (files_of mem_codec [mem_record ''a'' ''one''] (serialize_index [mem_record ''a'' ''one''], 50))"
  by (simp_all add: mem_record_simps files_of_def)

theorem store_refines_map_witness:
  "\<exists>d rs. write_memory mem_codec 1000 50 (mem_record ''a'' ''one '') (Some empty_dir) = (Inr (mem_record ''a'' ''one''), Some d) \<and>
     holds mem_codec rs d \<and> view rs = [''a'' \<mapsto> mem_record ''a'' ''one'']"
proof -
  let ?r = "mem_record ''a'' ''one ''"
  have v: "validate_slug ''a'' = Inr ()" by code_simp
  have new: "put_record ?r (shown []) = [?r]" by (simp add: put_record_def shown_def)
  have p: "\<exists>files. prepare mem_codec 1000 50 [?r] = Inr files"
    by (simp add: prepare_mem_record)
  have saved: "saved 50 ?r = mem_record ''a'' ''one''" by code_simp
  have "slug ?r = ''a''" and safe: "yaml_safe ?r" by (simp_all add: mem_record_def yaml_safe_def no_next_line_def)
  then show ?thesis
    using store_refines_map [OF mem_codec_laws empty_dir_holds v safe, of 1000 50] p unfolding new saved by auto
qed

text \<open>C28. Replacement is compare-and-swap, for a YAML with the round trip \<open>yaml_laws\<close>: with the version of another set it raises MemoryVersionConflictError and changes nothing,
  with the version of the set that is stored, or none, it stores exactly the new set or fails with the error of its
  check and changes nothing. Stored texts are as they are read back (\<open>shown\<close>, \<open>stored\<close>), and the new records have no U+0085 in name or
  description, which the YAML of the file would turn into a space.\<close>

theorem replace_compare_and_swap:
  assumes "yaml_laws cd" "holds cd rs d" "list_all yaml_safe new"
  shows "if expected \<noteq> None \<and> expected \<noteq> Some (version cd (shown rs))
      then \<exists>d'. replace_memory cd max_byte now new expected (Some d) = (Inl MemoryVersionConflictError, Some d') \<and> holds cd rs d'
      else case prepare cd max_byte now new of
        Inl e \<Rightarrow> \<exists>d'. replace_memory cd max_byte now new expected (Some d) = (Inl e, Some d') \<and> holds cd rs d'
      | Inr _ \<Rightarrow> \<exists>d'. replace_memory cd max_byte now new expected (Some d) =
          (Inr \<lparr>records = shown (stored now new), snap_version = version cd (shown (stored now new))\<rparr>, Some d') \<and> holds cd (stored now new) d'"
  using replace_locked_spec [OF assms, of expected max_byte now] holds_same [OF assms(2)]
  by (auto simp: replace_memory_def holds_memory_dir [OF assms(2)] split: if_split_asm sum.splits)

theorem replace_compare_and_swap_witness:
  "\<exists>d. replace_memory mem_codec 1000 50 [mem_record ''a'' ''one''] (Some ''stale'') (Some empty_dir) = (Inl MemoryVersionConflictError, Some d) \<and>
     holds mem_codec [] d"
proof -
  have "Some ''stale'' \<noteq> Some (version mem_codec (shown []))" by code_simp
  then show ?thesis
    using replace_compare_and_swap [OF mem_codec_laws empty_dir_holds, of "[mem_record ''a'' ''one'']" "Some ''stale''" 1000 50]
    by (simp add: yaml_safe_def no_next_line_def mem_record_def)
qed

lemma recover_no_entry: "\<not> transaction_entry d \<Longrightarrow> recover d = d"
  by (cases d) (simp add: transaction_entry_def recover_def recover_calls_def remove_stage_def)

text \<open>C27. A crash in the middle of a replacement is not visible: whatever number of its system calls were done, the next export
  returns the old records or, from the commit on, the new ones, with their version, as long as neither have U+0085 in a name or a
  description and YAML has the round trip \<open>yaml_laws\<close>.\<close>

theorem export_after_crash:
  assumes "yaml_laws cd" "holds cd rs d" "prepare cd max_byte now new = Inr files" "prefix cs (replace_calls d files)"
    and safe: "list_all yaml_safe new"
  defines "kept \<equiv> shown (if Commit \<in> set cs then stored now new else rs)"
  shows "fst (export cd (Some (fs_run cs d))) = Inr \<lparr>records = kept, snap_version = version cd kept\<rparr>"
proof -
  let ?e = "fs_run cs d"
  from prepareD [OF assms(3)] obtain index where v: "valid_records (stored now new)" "files = files_of cd (stored now new) index" by auto
  have dist: "distinct (map fst files)" using distinct_files_of [OF v(1)] v(2) by simp
  show ?thesis
  proof (cases "cs = []")
    case True
    then show ?thesis
      using scan_holds [OF assms(1,2)] by (simp add: export_def holds_memory_dir [OF assms(2)] kept_def)
  next
    case False
    have ex: "dir_exists ?e" by (rule replace_dir_exists [OF assms(4) False])
    obtain m where m: "settled m d" using assms(2) by (auto simp: holds_def)
    have at: "settled (if Commit \<in> set cs then new_files files else m) (recover ?e)"
      using replace_atomic [OF m dist assms(4)] .
    have "holds cd (if Commit \<in> set cs then stored now new else rs) (recover ?e)"
    proof (cases "Commit \<in> set cs")
      case True
      then have "settled (new_files (files_of cd (stored now new) index)) (recover ?e)" using at v(2) by simp
      then have "\<exists>index. settled (new_files (files_of cd (stored now new) index)) (recover ?e)" by (rule exI)
      then show ?thesis using True v(1) ex safe by (simp add: holds_def recover_dir_exists list_all_iff)
    next
      case False
      have "m = active_map d" using m by (simp add: settled_def)
      then show ?thesis using at False assms(2) ex by (auto simp: holds_def recover_dir_exists settled_def)
    qed
    from scan_holds [OF assms(1) this] have "scan cd (recover ?e) = Inr kept"
      using ex by (simp add: scan_dir_def recover_dir_exists kept_def)
    then show ?thesis using ex recover_no_entry [of ?e]
      by (cases "transaction_entry ?e") (simp_all add: export_def with_memory_dir_def memory_dir_def scan_dir_def)
  qed
qed

theorem export_after_crash_witness:
  "\<exists>files. prepare mem_codec 1000 50 [mem_record ''a'' ''one''] = Inr files \<and>
     fst (export mem_codec (Some (fs_run (take 9 (replace_calls empty_dir files)) empty_dir))) =
       Inr \<lparr>records = [], snap_version = version mem_codec []\<rparr>"
proof -
  obtain files where f: "prepare mem_codec 1000 50 [mem_record ''a'' ''one''] = Inr files" "length files = 2"
    using prepare_mem_record(2) by (simp add: files_of_def)
  then obtain x y where "files = [x, y]" by (auto simp: length_Suc_conv numeral_2_eq_2)
  then have "Commit \<notin> set (take 9 (replace_calls empty_dir files))"
    by (simp add: replace_calls_def stage_calls_def write_stage_file_def empty_dir_def)
  note f = f(1) this
  from export_after_crash [OF mem_codec_laws empty_dir_holds f(1) take_is_prefix, of 9] f show ?thesis
    by (auto simp: shown_def yaml_safe_def no_next_line_def mem_record_def)
qed

text \<open>Finding. A codec that behaves as YAML does with U+0085 meets the laws, and a record with that character passes the check
  and comes back with another description.\<close>

definition folding_codec :: Codec where
  "folding_codec = mem_codec\<lparr>yaml_dump := (\<lambda>(n, d, t).
     mem_dump (map (\<lambda>c. if c = CHR 0x85 then CHR '' '' else c) n, map (\<lambda>c. if c = CHR 0x85 then CHR '' '' else c) d, t))\<rparr>"

lemma folding_codec_laws: "yaml_laws folding_codec"
proof -
  have same: "map (\<lambda>c. if c = CHR 0x85 then CHR '' '' else c) s = s" if "no_next_line s" for s
    using that by (auto simp: no_next_line_def intro!: map_idI)
  then have "yaml_dump folding_codec (n, d, t) = yaml_dump mem_codec (n, d, t)" if "no_next_line n" "no_next_line d" for n d t
    using that by (simp add: folding_codec_def mem_codec_def)
  moreover have "yaml_load folding_codec = yaml_load mem_codec" by (simp add: folding_codec_def)
  ultimately show ?thesis using mem_codec_laws by (simp add: yaml_laws_def)
qed

definition next_line_record :: "string \<Rightarrow> MemoryRecord" where
  "next_line_record d = (mem_record ''a'' ''one'')\<lparr>description := d\<rparr>"

lemma next_line_lost:
  "validate_record (next_line_record [CHR ''a'', CHR 0x85, CHR ''b'']) = Inr ()"
  "read_record folding_codec ''a'' (utf8_encode (serialize folding_codec (next_line_record [CHR ''a'', CHR 0x85, CHR ''b''])), 7) =
     Inr (next_line_record ''a b'')"
proof -
  note simps = next_line_record_def mem_record_def validate_record_def validate_slug_def slug_char_def is_decimal_def blank_def
    is_unicode_space_def is_c_space_def MEMORY_TYPE_def MAX_MEMORY_CONTENT_CHARACTER_def
  show "validate_record (next_line_record [CHR ''a'', CHR 0x85, CHR ''b'']) = Inr ()" by (simp add: simps)
  have "validate_record (next_line_record ''a b'') = Inr ()" "yaml_safe (next_line_record ''a b'')"
    by (simp_all add: simps yaml_safe_def no_next_line_def)
  note read = read_serialized [OF folding_codec_laws this, of 7]
  have "serialize folding_codec (next_line_record [CHR ''a'', CHR 0x85, CHR ''b'']) = serialize folding_codec (next_line_record ''a b'')"
    by (simp add: serialize_def folding_codec_def next_line_record_def mem_record_def)
  moreover have "stored_record 7 (next_line_record ''a b'') = next_line_record ''a b''"
    by (simp add: stored_record_def next_line_record_def mem_record_def rstrip_def is_unicode_space_def is_c_space_def)
  ultimately show "read_record folding_codec ''a'' (utf8_encode (serialize folding_codec (next_line_record [CHR ''a'', CHR 0x85, CHR ''b''])), 7) =
     Inr (next_line_record ''a b'')"
    using read by (simp add: next_line_record_def mem_record_def)
qed

section \<open>What a version determines\<close>

lemma length_to_bytes [simp]: "length (to_bytes k n) = k"
  by (induction k arbitrary: n) simp_all

lemma to_bytes_inj: "to_bytes k m = to_bytes k n \<Longrightarrow> m < 256 ^ k \<Longrightarrow> n < 256 ^ k \<Longrightarrow> m = n"
proof (induction k arbitrary: m n)
  case (Suc k)
  have "of_char (char_of (m mod 256) :: char) = m mod 256" "of_char (char_of (n mod 256) :: char) = n mod 256"
    by (simp_all add: of_char_of)
  then have "m mod 256 = n mod 256" using Suc.prems(1) by (metis append1_eq_conv to_bytes.simps(2))
  moreover have "to_bytes k (m div 256) = to_bytes k (n div 256)" using Suc.prems(1) by simp
  then have "m div 256 = n div 256" using Suc.IH Suc.prems(2,3) by (simp add: less_mult_imp_div_less mult.commute)
  ultimately show ?case by (metis mult_div_mod_eq)
qed simp

text \<open>A length in \<open>k\<close> bytes, then the text: what follows can be told apart.\<close>

lemma framed_inj:
  assumes "to_bytes k (length a) @ a @ x = to_bytes k (length b) @ b @ y" "length a < 256 ^ k" "length b < 256 ^ k"
  shows "a = b \<and> x = y"
proof -
  from assms(1) have "to_bytes k (length a) = to_bytes k (length b)" "a @ x = b @ y" by (simp_all add: append_eq_append_conv)
  with to_bytes_inj [OF _ assms(2,3)] show ?thesis by (simp add: append_eq_append_conv)
qed

definition framable :: "Codec \<Rightarrow> MemoryRecord \<Rightarrow> bool" where
  "framable cd r \<longleftrightarrow> length (utf8_encode (slug r @ ''.md'')) < 256 ^ 4 \<and> length (utf8_encode (serialize cd r)) < 256 ^ 8"

lemma version_frame_inj:
  assumes "version_frame cd r @ x = version_frame cd q @ y" "framable cd r" "framable cd q"
  shows "slug r = slug q \<and> serialize cd r = serialize cd q \<and> x = y"
proof -
  let ?n = "\<lambda>r. utf8_encode (slug r @ ''.md'')" and ?c = "\<lambda>r. utf8_encode (serialize cd r)"
  from assms(1) have "to_bytes 4 (length (?n r)) @ ?n r @ to_bytes 8 (length (?c r)) @ ?c r @ x =
      to_bytes 4 (length (?n q)) @ ?n q @ to_bytes 8 (length (?c q)) @ ?c q @ y"
    by (simp add: version_frame_def Let_def)
  from framed_inj [OF this] assms(2,3)
  have n: "?n r = ?n q" "to_bytes 8 (length (?c r)) @ ?c r @ x = to_bytes 8 (length (?c q)) @ ?c q @ y"
    by (simp_all only: framable_def)
  from framed_inj [OF n(2)] assms(2,3) have "?c r = ?c q" "x = y" by (simp_all only: framable_def)
  with utf8_encode_inj [OF n(1)] utf8_encode_inj [of "serialize cd r" "serialize cd q"] show ?thesis by simp
qed

text \<open>The input of the version digest is unambiguous: if two sets of records give the same bytes, they have the same slugs and,
  slug by slug, the same file contents. So versions agree exactly as far as SHA-256 separates the sets.\<close>

theorem version_input_unambiguous:
  assumes "\<forall>r \<in> set rs \<union> set xs. framable cd r" "version_input cd rs = version_input cd xs"
  shows "map (\<lambda>r. (slug r, serialize cd r)) (sort_key slug rs) = map (\<lambda>r. (slug r, serialize cd r)) (sort_key slug xs)"
proof -
  have main: "concat (map (version_frame cd) as) = concat (map (version_frame cd) bs) \<Longrightarrow> \<forall>r \<in> set as \<union> set bs. framable cd r \<Longrightarrow>
      map (\<lambda>r. (slug r, serialize cd r)) as = map (\<lambda>r. (slug r, serialize cd r)) bs" for as bs
  proof (induction as arbitrary: bs)
    case Nil
    have "version_frame cd r \<noteq> []" for r using arg_cong [of "version_frame cd r" "[]" length] by (auto simp: version_frame_def Let_def)
    then show ?case using Nil by (cases bs) auto
  next
    case (Cons a as)
    have ne: "version_frame cd r \<noteq> []" for r using arg_cong [of "version_frame cd r" "[]" length] by (auto simp: version_frame_def Let_def)
    then obtain b cs where bs: "bs = b # cs" using Cons.prems(1) by (cases bs) auto
    then have "version_frame cd a @ concat (map (version_frame cd) as) = version_frame cd b @ concat (map (version_frame cd) cs)"
      using Cons.prems(1) by simp
    moreover have "framable cd a" "framable cd b" "\<forall>r \<in> set as \<union> set cs. framable cd r" using Cons.prems(2) bs by simp_all
    ultimately have eq: "slug a = slug b \<and> serialize cd a = serialize cd b \<and>
        concat (map (version_frame cd) as) = concat (map (version_frame cd) cs)" using version_frame_inj by blast
    then have "map (\<lambda>r. (slug r, serialize cd r)) as = map (\<lambda>r. (slug r, serialize cd r)) cs"
      using Cons.IH [of cs] \<open>\<forall>r \<in> set as \<union> set cs. framable cd r\<close> by blast
    then show ?case using eq bs by simp
  qed
  show ?thesis using assms(1) by (intro main [OF assms(2) [unfolded version_input_def]]) simp
qed

theorem version_input_unambiguous_witness:
  "map (\<lambda>r. (slug r, serialize mem_codec r)) (sort_key slug [mem_record ''b'' ''x'', mem_record ''a'' ''y'']) =
   map (\<lambda>r. (slug r, serialize mem_codec r)) (sort_key slug [mem_record ''a'' ''y'', mem_record ''b'' ''x''])"
  by (rule version_input_unambiguous) (simp_all add: framable_def version_input_def mem_record_simps)

end
