(* ===== verification/Memory_Extraction.thy ===== *)
theory Memory_Extraction
  imports Memory_Store Event_Model
begin

text \<open>
  What the auxiliary model may write into a thread's memory: the admission of a candidate (\<open>app/memory/admission.py\<close>), the
  extraction from a dialogue (\<open>extractor.py\<close>) and the consolidation of a set of records (\<open>consolidator.py\<close>). Parameters are the
  model, the JSON parser, the Unicode normalisation, the digest, and the five tests for forbidden text.
\<close>

section \<open>Slugs\<close>

record Text_Api =
  nfkc_casefold :: "string \<Rightarrow> string"
  ascii_fold :: "string \<Rightarrow> string"
  name_digest :: "string \<Rightarrow> string"
  temporary :: "string \<Rightarrow> bool"
  tool_output :: "string \<Rightarrow> bool"
  assumption_text :: "string \<Rightarrow> bool"
  secret_text :: "string \<Rightarrow> bool"
  injection :: "string \<Rightarrow> bool"

definition MAX_SLUG_LENGTH :: nat where "MAX_SLUG_LENGTH = 96"

text \<open>\<open>_SLUG_PART_PATTERN.sub("-", s)\<close>: every run of other characters becomes one hyphen.\<close>

fun slug_parts :: "bool \<Rightarrow> string \<Rightarrow> string" where
  "slug_parts run [] = []"
| "slug_parts run (c # cs) =
     (if slug_char c then c # slug_parts False cs
      else if run then slug_parts True cs else CHR ''-'' # slug_parts True cs)"

abbreviation is_hyphen :: "char \<Rightarrow> bool" where
  "is_hyphen c \<equiv> c = CHR ''-''"

definition rstrip_hyphen :: "string \<Rightarrow> string" where
  "rstrip_hyphen s = rev (dropWhile is_hyphen (rev s))"

definition memory_slug :: "Text_Api \<Rightarrow> string \<Rightarrow> string result" where
  "memory_slug tx name =
     (let base = str_strip is_hyphen (slug_parts False (ascii_fold tx name));
          digest = take 16 (name_digest tx name);
          base = (if base = [] then ''memory-'' @ digest
                  else if MAX_SLUG_LENGTH < length base then rstrip_hyphen (take (MAX_SLUG_LENGTH - 17) base) @ ''-'' @ digest
                  else base)
      in if slug_word False base then Inr base else Inl ValueError)"

section \<open>Candidates\<close>

datatype CandidateScope = PERSISTENT | CURRENT_TASK_SCOPE

record MemoryCandidate =
  scope :: CandidateScope
  cand_name :: string
  cand_description :: string
  cand_type :: string
  cand_content :: string

datatype AdmissionRejection =
    CURRENT_TASK
  | INCOMPLETE_FIELDS
  | INVALID_SCHEMA
  | TEMPORARY
  | TOOL_OUTPUT
  | ASSISTANT_ASSUMPTION
  | DUPLICATE
  | SECRET
  | INSTRUCTION_INJECTION

definition CANDIDATE_FIELD :: "string list" where
  "CANDIDATE_FIELD = [''scope'', ''name'', ''description'', ''type'', ''content'']"

definition py_strip :: "string \<Rightarrow> string" where
  "py_strip s = str_strip is_unicode_space s"

text \<open>\<open>min_length=1\<close> and \<open>_clean_text\<close>.\<close>

definition clean_text :: "bool \<Rightarrow> pyval \<Rightarrow> string option" where
  "clean_text one_line v =
     (case v of
        PStr s \<Rightarrow>
          (let cleaned = py_strip s in
           if cleaned = [] \<or> (one_line \<and> CHR 0x0A \<in> set cleaned) \<or> CHR 0x00 \<in> set cleaned then None else Some cleaned)
      | _ \<Rightarrow> None)"

definition parse_scope :: "pyval \<Rightarrow> CandidateScope option" where
  "parse_scope v =
     (case v of
        PStr s \<Rightarrow> if s = ''persistent'' then Some PERSISTENT else if s = ''current_task'' then Some CURRENT_TASK_SCOPE else None
      | _ \<Rightarrow> None)"

definition parse_type :: "pyval \<Rightarrow> string option" where
  "parse_type v = (case v of PStr s \<Rightarrow> if s \<in> MEMORY_TYPE then Some s else None | _ \<Rightarrow> None)"

definition blank_value :: "pyval \<Rightarrow> bool" where
  "blank_value v = (case v of PNone \<Rightarrow> True | PStr s \<Rightarrow> py_strip s = [] | _ \<Rightarrow> False)"

text \<open>\<open>_candidate\<close>: unknown fields are forbidden by the schema.\<close>

definition candidate :: "pyval \<Rightarrow> AdmissionRejection + MemoryCandidate" where
  "candidate raw =
     (case raw of
        PDict d \<Rightarrow>
          if \<not> set CANDIDATE_FIELD \<subseteq> set (map fst d) then Inl INCOMPLETE_FIELDS
          else if \<exists>f \<in> set CANDIDATE_FIELD. blank_value (dict_get d f) then Inl INCOMPLETE_FIELDS
          else if \<not> set (map fst d) \<subseteq> set CANDIDATE_FIELD then Inl INVALID_SCHEMA
          else (case (parse_scope (dict_get d ''scope''), clean_text True (dict_get d ''name''),
                      clean_text True (dict_get d ''description''), parse_type (dict_get d ''type''),
                      clean_text False (dict_get d ''content'')) of
                  (Some s, Some n, Some e, Some t, Some c) \<Rightarrow>
                    Inr \<lparr>scope = s, cand_name = n, cand_description = e, cand_type = t, cand_content = c\<rparr>
                | _ \<Rightarrow> Inl INVALID_SCHEMA)
      | _ \<Rightarrow> Inl INVALID_SCHEMA)"

section \<open>Admission\<close>

text \<open>\<open>str.split()\<close> and \<open>" ".join\<close>.\<close>

fun words :: "string \<Rightarrow> string \<Rightarrow> string list" where
  "words acc [] = (if acc = [] then [] else [rev acc])"
| "words acc (c # cs) =
     (if is_unicode_space c then (if acc = [] then words [] cs else rev acc # words [] cs) else words (c # acc) cs)"

fun join :: "string \<Rightarrow> string list \<Rightarrow> string" where
  "join sep [] = []"
| "join sep [s] = s"
| "join sep (s # t # ss) = s @ sep @ join sep (t # ss)"

definition normalized :: "Text_Api \<Rightarrow> string \<Rightarrow> string" where
  "normalized tx s = join '' '' (words [] (nfkc_casefold tx s))"

definition is_duplicate :: "Text_Api \<Rightarrow> string \<Rightarrow> MemoryCandidate \<Rightarrow> MemoryRecord list \<Rightarrow> bool" where
  "is_duplicate tx s c existing \<longleftrightarrow>
     (\<exists>r \<in> set existing. slug r = s \<or> normalized tx (description r) = normalized tx (cand_description c) \<or>
        normalized tx (rec_content r) = normalized tx (cand_content c))"

definition admit_candidate :: "Text_Api \<Rightarrow> pyval \<Rightarrow> MemoryRecord list \<Rightarrow> (AdmissionRejection + MemoryRecord) result" where
  "admit_candidate tx raw existing =
     (case candidate raw of
        Inl reason \<Rightarrow> Inr (Inl reason)
      | Inr c \<Rightarrow>
          if scope c = CURRENT_TASK_SCOPE then Inr (Inl CURRENT_TASK)
          else let text = normalized tx (cand_name c @ nl @ cand_description c @ nl @ cand_content c) in
            if temporary tx text then Inr (Inl TEMPORARY)
            else if tool_output tx text then Inr (Inl TOOL_OUTPUT)
            else if assumption_text tx text then Inr (Inl ASSISTANT_ASSUMPTION)
            else if secret_text tx text then Inr (Inl SECRET)
            else if injection tx text then Inr (Inl INSTRUCTION_INJECTION)
            else result_bind (memory_slug tx (cand_name c)) (\<lambda>s.
              if is_duplicate tx s c existing then Inr (Inl DUPLICATE)
              else Inr (Inr \<lparr>slug = s, rec_name = cand_name c, description = cand_description c, rec_type = cand_type c,
                             rec_content = cand_content c, updated_at = None\<rparr>)))"

section \<open>The answer of the auxiliary model\<close>

text \<open>What \<open>ainvoke\<close> gives: the text, or \<open>None\<close> when the content is not a string, and the usage metadata.\<close>

type_synonym response = "string option \<times> pyval"

definition nonneg_int :: "pyval \<Rightarrow> int" where
  "nonneg_int v = (case as_python_int v of Some i \<Rightarrow> if 0 \<le> i then i else 0 | None \<Rightarrow> 0)"

definition report_auxiliary_usage :: "pyval \<Rightarrow> TokenUsage list" where
  "report_auxiliary_usage metadata =
     (case metadata of
        PDict m \<Rightarrow>
          (let cache_read = (case dict_get m ''input_token_details'' of PDict d \<Rightarrow> nonneg_int (dict_get d ''cache_read'') | _ \<Rightarrow> 0);
               input_total = nonneg_int (dict_get m ''input_tokens'')
           in [TokenUsage cache_read (max 0 (input_total - cache_read)) (nonneg_int (dict_get m ''output_tokens''))])
      | _ \<Rightarrow> [])"

definition EXTRACTION_MESSAGE_LIMIT :: nat where "EXTRACTION_MESSAGE_LIMIT = 12"
definition EXTRACTION_DIALOGUE_CHAR_LIMIT :: nat where "EXTRACTION_DIALOGUE_CHAR_LIMIT = 8000"
definition EXTRACTION_CATALOG_CHAR_LIMIT :: nat where "EXTRACTION_CATALOG_CHAR_LIMIT = 6000"

definition last_n :: "nat \<Rightarrow> 'a list \<Rightarrow> 'a list" where
  "last_n n xs = drop (length xs - n) xs"

definition dialogue_line :: "(string \<times> string) list \<Rightarrow> string option" where
  "dialogue_line m =
     (let role = (case map_of m ''role'' of None \<Rightarrow> [] | Some r \<Rightarrow> r);
          c = py_strip (case map_of m ''content'' of None \<Rightarrow> [] | Some r \<Rightarrow> r)
      in if role \<notin> {''user'', ''assistant''} \<or> c = [] then None else Some (role @ '': '' @ c))"

definition dialogue :: "(string \<times> string) list list \<Rightarrow> string" where
  "dialogue messages =
     last_n EXTRACTION_DIALOGUE_CHAR_LIMIT (join nl (List.map_filter dialogue_line (last_n EXTRACTION_MESSAGE_LIMIT messages)))"

definition extraction_catalog :: "MemoryRecord list \<Rightarrow> string" where
  "extraction_catalog existing =
     take EXTRACTION_CATALOG_CHAR_LIMIT (join nl (map (\<lambda>r. ''- '' @ rec_name r @ '': '' @ description r) existing))"

text \<open>The model gets the two variable parts of the prompt; \<open>parse\<close> is the strict JSON parser of an array.\<close>

record Aux_Model =
  ask_extract :: "string \<Rightarrow> string \<Rightarrow> response result"
  ask_consolidate :: "MemoryRecord list \<Rightarrow> response result"
  parse_json_array :: "string \<Rightarrow> pyval list option"

record ExtractionResult =
  ex_records :: "MemoryRecord list"
  ex_rejected :: "(nat \<times> AdmissionRejection) list"

fun admit_all :: "Text_Api \<Rightarrow> MemoryRecord list \<Rightarrow> nat \<Rightarrow> pyval list \<Rightarrow> ExtractionResult \<Rightarrow> ExtractionResult result" where
  "admit_all tx existing i [] acc = Inr acc"
| "admit_all tx existing i (x # xs) acc =
     result_bind (admit_candidate tx x (existing @ ex_records acc)) (\<lambda>decision.
       case decision of
         Inr r \<Rightarrow> admit_all tx existing (Suc i) xs (acc\<lparr>ex_records := ex_records acc @ [r]\<rparr>)
       | Inl reason \<Rightarrow> admit_all tx existing (Suc i) xs (acc\<lparr>ex_rejected := ex_rejected acc @ [(i, reason)]\<rparr>))"

text \<open>\<open>extract\<close>: the usages reported and the result or the exception.\<close>

definition extract_memory ::
    "Text_Api \<Rightarrow> Aux_Model \<Rightarrow> (string \<times> string) list list \<Rightarrow> MemoryRecord list \<Rightarrow> TokenUsage list \<times> ExtractionResult result" where
  "extract_memory tx m messages existing =
     (let d = dialogue messages; none = \<lparr>ex_records = [], ex_rejected = []\<rparr> in
      if d = [] then ([], Inr none)
      else case ask_extract m d (extraction_catalog existing) of
             Inl e \<Rightarrow> ([], Inl e)
           | Inr (text, metadata) \<Rightarrow>
               (report_auxiliary_usage metadata,
                case text of
                  None \<Rightarrow> Inl (OtherError ''ExtractionSchemaError'')
                | Some s \<Rightarrow>
                    (case parse_json_array m s of
                       None \<Rightarrow> Inl (OtherError ''ExtractionSchemaError'')
                     | Some items \<Rightarrow> admit_all tx existing 0 items none)))"

section \<open>Consolidation\<close>

definition CONSOLIDATION_THRESHOLD :: nat where "CONSOLIDATION_THRESHOLD = 10"
definition CONSOLIDATION_INPUT_LIMIT :: nat where "CONSOLIDATION_INPUT_LIMIT = 20"

abbreviation invalid :: "'a result" where
  "invalid \<equiv> Inl (OtherError ''ConsolidationValidationError'')"

definition consolidated_item :: "pyval \<Rightarrow> pyval option" where
  "consolidated_item item =
     (case item of
        PDict d \<Rightarrow>
          if set (map fst d) \<noteq> {''name'', ''description'', ''type'', ''content''} then None
          else Some (PDict (d @ [(''scope'', PStr ''persistent'')]))
      | _ \<Rightarrow> None)"

fun consolidate_items :: "Text_Api \<Rightarrow> MemoryRecord list \<Rightarrow> pyval list \<Rightarrow> MemoryRecord list \<Rightarrow> MemoryRecord list result" where
  "consolidate_items tx untouched [] acc = Inr acc"
| "consolidate_items tx untouched (x # xs) acc =
     (case consolidated_item x of
        None \<Rightarrow> invalid
      | Some raw \<Rightarrow>
          result_bind (admit_candidate tx raw (untouched @ acc)) (\<lambda>decision.
            case decision of Inl _ \<Rightarrow> invalid | Inr r \<Rightarrow> consolidate_items tx untouched xs (acc @ [r])))"

definition consolidate ::
    "Text_Api \<Rightarrow> Aux_Model \<Rightarrow> nat \<Rightarrow> MemoryRecord list \<Rightarrow> TokenUsage list \<times> MemoryRecord list result" where
  "consolidate tx m threshold rs =
     (let ordered = sort_key slug rs in
      if length ordered < threshold then ([], Inr ordered)
      else let selected = take CONSOLIDATION_INPUT_LIMIT ordered; untouched = drop CONSOLIDATION_INPUT_LIMIT ordered in
        case ask_consolidate m selected of
          Inl e \<Rightarrow> ([], Inl e)
        | Inr (text, metadata) \<Rightarrow>
            (report_auxiliary_usage metadata,
             case text of
               None \<Rightarrow> invalid
             | Some s \<Rightarrow>
                 (case parse_json_array m s of
                    None \<Rightarrow> invalid
                  | Some items \<Rightarrow>
                      if items = [] \<or> length selected < length items then invalid
                      else result_bind (consolidate_items tx untouched items []) (\<lambda>done_records.
                        Inr (sort_key slug (untouched @ done_records))))))"

section \<open>Generated slugs\<close>

abbreviation no_double :: "string \<Rightarrow> bool" where
  "no_double s \<equiv> successively (\<lambda>a b. \<not> (is_hyphen a \<and> is_hyphen b)) s"

lemma slug_char_not_hyphen: "slug_char c \<Longrightarrow> \<not> is_hyphen c"
  by (auto simp: slug_char_def is_decimal_def)

lemma slug_word_iff:
  "slug_word inside s \<longleftrightarrow>
    (if s = [] then inside
     else (inside \<or> \<not> is_hyphen (hd s)) \<and> \<not> is_hyphen (last s) \<and> no_double s \<and> (\<forall>c \<in> set s. slug_char c \<or> is_hyphen c))"
proof (induction s arbitrary: inside)
  case (Cons c s)
  then show ?case
    by (cases s) (auto simp: slug_char_not_hyphen)
qed simp

lemma slug_parts_chars: "c \<in> set (slug_parts run s) \<Longrightarrow> slug_char c \<or> is_hyphen c"
  by (induction s arbitrary: run) (auto split: if_splits)

lemma slug_parts_no_double: "no_double (slug_parts run s) \<and> (run \<longrightarrow> slug_parts run s = [] \<or> \<not> is_hyphen (hd (slug_parts run s)))"
proof (induction s arbitrary: run)
  case (Cons c s)
  show ?case
    using Cons.IH [of False] Cons.IH [of True] slug_char_not_hyphen [of c]
    by (cases "slug_parts False s"; cases "slug_parts True s") (auto simp: successively_Cons)
qed simp

lemma no_double_drop: "no_double (a @ b) \<Longrightarrow> no_double a \<and> no_double b"
  by (simp add: successively_append_iff)

lemma dropWhile_split: "\<exists>a. s = a @ dropWhile p s"
  by (metis takeWhile_dropWhile_id)

lemma rdropWhile_split: "\<exists>b. s = rev (dropWhile p (rev s)) @ b"
proof -
  obtain a where "rev s = a @ dropWhile p (rev s)" using dropWhile_split by blast
  then have "s = rev (dropWhile p (rev s)) @ rev a" by (metis rev_append rev_rev_ident)
  then show ?thesis by blast
qed

lemma rdropWhile_last: "rev (dropWhile p (rev s)) = [] \<or> \<not> p (last (rev (dropWhile p (rev s))))"
  by (metis hd_dropWhile last_rev rev_is_Nil_conv)

lemma rstrip_hyphen_spec:
  "\<exists>b. s = rstrip_hyphen s @ b" "rstrip_hyphen s = [] \<or> \<not> is_hyphen (last (rstrip_hyphen s))"
  using rdropWhile_split [of s is_hyphen] rdropWhile_last [of is_hyphen s] by (simp_all only: rstrip_hyphen_def)

lemma str_strip_spec:
  "\<exists>a b. s = a @ str_strip p s @ b"
  "str_strip p s = [] \<or> (\<not> p (hd (str_strip p s)) \<and> \<not> p (last (str_strip p s)))"
proof -
  let ?d = "dropWhile p s"
  obtain a where a: "s = a @ ?d" using dropWhile_split by blast
  obtain b where b: "?d = str_strip p s @ b" unfolding str_strip_def using rdropWhile_split by blast
  then show "\<exists>a b. s = a @ str_strip p s @ b" using a by metis
  have l: "str_strip p s = [] \<or> \<not> p (last (str_strip p s))" unfolding str_strip_def by (rule rdropWhile_last)
  have "str_strip p s = [] \<or> hd (str_strip p s) = hd ?d" using b by (metis hd_append2)
  moreover have "?d = [] \<or> \<not> p (hd ?d)" using hd_dropWhile by blast
  moreover have "?d = [] \<Longrightarrow> str_strip p s = []" using b by (metis append_is_Nil_conv)
  ultimately show "str_strip p s = [] \<or> (\<not> p (hd (str_strip p s)) \<and> \<not> p (last (str_strip p s)))" using l by metis
qed

section \<open>Properties\<close>

text \<open>Whatever name the model makes up, the slug generated for it is accepted by the store and has at most 96 characters, provided
  the digest is what a hexadecimal digest is.\<close>

theorem memory_slug_valid:
  assumes "16 \<le> length (name_digest tx name)" "\<forall>c \<in> set (name_digest tx name). slug_char c"
  shows "\<exists>s. memory_slug tx name = Inr s \<and> validate_slug s = Inr () \<and> length s \<le> MAX_SLUG_LENGTH"
proof -
  let ?p = "slug_parts False (ascii_fold tx name)" and ?d = "take 16 (name_digest tx name)"
  let ?b = "str_strip is_hyphen ?p"
  have d: "length ?d = 16" "\<forall>c \<in> set ?d. slug_char c" "?d \<noteq> []" using assms by (auto dest: in_set_takeD)
  have dd: "no_double ?d" "\<not> is_hyphen (last ?d)" "\<not> is_hyphen (hd ?d)"
    using d slug_char_not_hyphen last_in_set [of ?d] hd_in_set [of ?d] by (auto simp: successively_conv_nth)
  have dh: "no_double (CHR ''-'' # ?d)" using dd d(3) by (cases ?d) (auto simp: successively_Cons)
  obtain x y where eq: "?p = x @ ?b @ y" using str_strip_spec(1) by blast
  have "no_double (x @ ?b @ y)" using slug_parts_no_double [of False "ascii_fold tx name"] eq by simp
  then have nd: "no_double ?b" using no_double_drop by blast
  have "set ?b \<subseteq> set ?p" using arg_cong [OF eq, of set] by (metis Un_upper1 Un_upper2 set_append subset_trans)
  then have b: "no_double ?b" "\<forall>c \<in> set ?b. slug_char c \<or> is_hyphen c"
    using nd slug_parts_chars [of _ False "ascii_fold tx name"] by blast+
  have not_index: "validate_slug s = Inr ()" if "slug_word False s" for s
    using that by (auto simp: validate_slug_def slug_char_def is_decimal_def)
  consider (empty) "?b = []" | (long) "?b \<noteq> []" "MAX_SLUG_LENGTH < length ?b" | (short) "?b \<noteq> []" "length ?b \<le> MAX_SLUG_LENGTH"
    by linarith
  then show ?thesis
  proof cases
    case empty
    have "slug_word False (''memory-'' @ ?d)"
      unfolding slug_word_iff using d dd dh by (auto simp: successively_append_iff slug_char_def is_decimal_def)
    then show ?thesis using empty d not_index by (simp add: memory_slug_def Let_def MAX_SLUG_LENGTH_def)
  next
    case short
    have "slug_word False ?b" unfolding slug_word_iff using short b str_strip_spec(2) [of is_hyphen ?p] by simp
    then show ?thesis using short not_index by (simp add: memory_slug_def Let_def)
  next
    case long
    let ?t = "take (MAX_SLUG_LENGTH - 17) ?b"
    obtain r z where r: "rstrip_hyphen ?t = r" "?t = r @ z" using rstrip_hyphen_spec(1) by blast
    have "no_double ?t" using b(1) no_double_drop [of ?t "drop (MAX_SLUG_LENGTH - 17) ?b"] by simp
    then have nr: "no_double r" unfolding r(2) by (rule no_double_drop [THEN conjunct1])
    have "?t \<noteq> [] \<and> hd ?t = hd ?b" using long by (cases ?b) (auto simp: MAX_SLUG_LENGTH_def)
    then have hd: "?t \<noteq> []" "\<not> is_hyphen (hd ?t)" using long str_strip_spec(2) [of is_hyphen ?p] by auto
    have ne: "r \<noteq> []"
    proof
      assume "r = []"
      with r(1) have "\<forall>c \<in> set (rev ?t). is_hyphen c" by (simp only: rstrip_hyphen_def rev_is_Nil_conv dropWhile_eq_Nil_conv)
      then show False using hd by (metis hd_in_set set_rev)
    qed
    have hdr: "\<not> is_hyphen (hd r)" using hd(2) ne unfolding r(2) by simp
    have lst: "\<not> is_hyphen (last r)" using rstrip_hyphen_spec(2) [of ?t] ne by (simp only: r(1)) simp
    have "set r \<subseteq> set ?t" unfolding r(2) by simp
    then have "set r \<subseteq> set ?b" using set_take_subset by fast
    then have "slug_word False (r @ ''-'' @ ?d)"
      unfolding slug_word_iff using nr ne hdr lst d dd dh b(2) by (auto simp: successively_append_iff)
    moreover have "length ?t = length r + length z" unfolding r(2) by simp
    then have "length r \<le> MAX_SLUG_LENGTH - 17" by simp
    moreover have "memory_slug tx name = (if slug_word False (r @ ''-'' @ ?d) then Inr (r @ ''-'' @ ?d) else Inl ValueError)"
      using long by (simp add: memory_slug_def Let_def r(1))
    ultimately show ?thesis using d not_index by (simp add: MAX_SLUG_LENGTH_def)
  qed
qed

definition sample_text_api :: Text_Api where
  "sample_text_api = \<lparr>nfkc_casefold = (\<lambda>s. s), ascii_fold = (\<lambda>s. s), name_digest = (\<lambda>_. ''0123456789abcdef''),
     temporary = (\<lambda>_. False), tool_output = (\<lambda>_. False), assumption_text = (\<lambda>_. False), secret_text = (\<lambda>_. False),
     injection = (\<lambda>_. False)\<rparr>"

theorem memory_slug_valid_witness:
  "\<exists>s. memory_slug sample_text_api ''--'' = Inr s \<and> validate_slug s = Inr () \<and> length s \<le> MAX_SLUG_LENGTH"
  by (rule memory_slug_valid) (simp_all add: sample_text_api_def slug_char_def is_decimal_def)

text \<open>A record that was admitted, seen from the store: a valid slug, one line of name and description, a known type, no blank text.\<close>

definition admissible :: "MemoryRecord \<Rightarrow> bool" where
  "admissible r \<longleftrightarrow> slug_word False (slug r) \<and> \<not> blank (rec_name r) \<and> \<not> blank (description r) \<and> \<not> blank (rec_content r) \<and>
     CHR 0x0A \<notin> set (rec_name r) \<and> CHR 0x0A \<notin> set (description r) \<and> rec_type r \<in> MEMORY_TYPE"

lemma admissible_validate:
  "admissible r \<Longrightarrow> validate_record r = (if MAX_MEMORY_CONTENT_CHARACTER < length (rec_content r) then Inl MemoryCapacityError else Inr ())"
  by (auto simp: admissible_def validate_record_def validate_slug_def slug_char_def is_decimal_def)

lemma strip_not_blank: "py_strip s \<noteq> [] \<Longrightarrow> \<not> blank (py_strip s)"
  using str_strip_spec(2) [of is_unicode_space s] by (auto simp: blank_def py_strip_def list_all_iff)

lemma clean_textD:
  "clean_text one_line v = Some s \<Longrightarrow> \<not> blank s \<and> (one_line \<longrightarrow> CHR 0x0A \<notin> set s)"
  using strip_not_blank by (auto simp: clean_text_def Let_def split: pyval.splits if_splits)

lemma candidateD:
  assumes "candidate raw = Inr c"
  shows "\<not> blank (cand_name c) \<and> \<not> blank (cand_description c) \<and> \<not> blank (cand_content c) \<and> CHR 0x0A \<notin> set (cand_name c) \<and>
    CHR 0x0A \<notin> set (cand_description c) \<and> cand_type c \<in> MEMORY_TYPE"
proof -
  from assms obtain d s n e t x where "raw = PDict d" "clean_text True (dict_get d ''name'') = Some n"
      "clean_text True (dict_get d ''description'') = Some e" "parse_type (dict_get d ''type'') = Some t"
      "clean_text False (dict_get d ''content'') = Some x"
      "c = \<lparr>scope = s, cand_name = n, cand_description = e, cand_type = t, cand_content = x\<rparr>"
    by (auto simp: candidate_def split: pyval.splits if_splits option.splits)
  moreover from this(4) have "t \<in> MEMORY_TYPE" by (auto simp: parse_type_def split: pyval.splits if_splits)
  ultimately show ?thesis using clean_textD by fastforce
qed

lemma admit_candidateD:
  assumes "admit_candidate tx raw existing = Inr (Inr r)"
  shows "admissible r \<and> slug r \<notin> slug ` set existing"
proof -
  from assms obtain c s where c: "candidate raw = Inr c" "memory_slug tx (cand_name c) = Inr s" "\<not> is_duplicate tx s c existing"
      "r = \<lparr>slug = s, rec_name = cand_name c, description = cand_description c, rec_type = cand_type c, rec_content = cand_content c,
        updated_at = None\<rparr>"
    by (auto simp: admit_candidate_def Let_def result_bind_Inr_iff split: sum.splits if_splits)
  moreover from c(2) have "slug_word False s" by (auto simp: memory_slug_def Let_def split: if_splits)
  ultimately show ?thesis using candidateD [OF c(1)] by (auto simp: admissible_def is_duplicate_def)
qed

lemma admit_all_spec:
  assumes "admit_all tx existing i items acc = Inr res" "\<forall>r \<in> set (ex_records acc). admissible r"
    "distinct (map slug (ex_records acc))" "slug ` set (ex_records acc) \<inter> slug ` set existing = {}"
  shows "(\<forall>r \<in> set (ex_records res). admissible r) \<and> distinct (map slug (ex_records res)) \<and>
    slug ` set (ex_records res) \<inter> slug ` set existing = {} \<and>
    length (ex_records res) + length (ex_rejected res) = length (ex_records acc) + length (ex_rejected acc) + length items"
  using assms
proof (induction items arbitrary: i acc)
  case (Cons x xs)
  from Cons.prems(1) obtain decision where d: "admit_candidate tx x (existing @ ex_records acc) = Inr decision"
      "(case decision of Inr r \<Rightarrow> admit_all tx existing (Suc i) xs (acc\<lparr>ex_records := ex_records acc @ [r]\<rparr>)
       | Inl reason \<Rightarrow> admit_all tx existing (Suc i) xs (acc\<lparr>ex_rejected := ex_rejected acc @ [(i, reason)]\<rparr>)) = Inr res"
    by (auto simp: result_bind_Inr_iff)
  show ?case
  proof (cases decision)
    case (Inl reason)
    then show ?thesis using Cons.IH [of "Suc i" "acc\<lparr>ex_rejected := ex_rejected acc @ [(i, reason)]\<rparr>"] d(2) Cons.prems(2-4) by simp
  next
    case (Inr r)
    then have "admissible r" "slug r \<notin> slug ` set existing" "slug r \<notin> slug ` set (ex_records acc)"
      using admit_candidateD d(1) by fastforce+
    then show ?thesis using Cons.IH [of "Suc i" "acc\<lparr>ex_records := ex_records acc @ [r]\<rparr>"] d(2) Cons.prems(2-4) Inr by simp
  qed
qed simp

lemma extract_sound:
  assumes "extract_memory tx m messages existing = (us, Inr res)"
  shows "(\<forall>r \<in> set (ex_records res). admissible r) \<and> distinct (map slug (ex_records res)) \<and>
    slug ` set (ex_records res) \<inter> slug ` set existing = {} \<and> (\<forall>u \<in> set us. valid_tokens u)"
proof -
  have nonneg: "0 \<le> nonneg_int v" for v by (simp add: nonneg_int_def split: option.splits)
  have us: "\<forall>u \<in> set (report_auxiliary_usage md). valid_tokens u" for md
  proof (cases md)
    case (PDict d)
    have "0 \<le> (case dict_get d ''input_token_details'' of PDict d \<Rightarrow> nonneg_int (dict_get d ''cache_read'') | _ \<Rightarrow> 0)"
      using nonneg by (cases "dict_get d ''input_token_details''") simp_all
    then show ?thesis using nonneg PDict by (simp add: report_auxiliary_usage_def valid_tokens_def Let_def)
  qed (simp_all add: report_auxiliary_usage_def)
  let ?none = "\<lparr>ex_records = [], ex_rejected = []\<rparr>"
  from assms consider "us = []" "res = ?none"
    | md items where "us = report_auxiliary_usage md" "admit_all tx existing 0 items ?none = Inr res"
    by (auto simp: extract_memory_def Let_def split: if_splits sum.splits prod.splits option.splits)
  then show ?thesis
  proof cases
    case 2
    from admit_all_spec [OF this(2)] us 2(1) show ?thesis by simp
  qed simp
qed

lemma consolidate_items_spec:
  assumes "consolidate_items tx untouched items acc = Inr res" "\<forall>r \<in> set acc. admissible r" "distinct (map slug (untouched @ acc))"
  shows "(\<forall>r \<in> set res. admissible r) \<and> distinct (map slug (untouched @ res)) \<and> length res = length acc + length items"
  using assms
proof (induction items arbitrary: acc)
  case (Cons x xs)
  from Cons.prems(1) obtain raw decision where a: "admit_candidate tx raw (untouched @ acc) = Inr decision"
      "(case decision of Inl _ \<Rightarrow> invalid | Inr r \<Rightarrow> consolidate_items tx untouched xs (acc @ [r])) = Inr res"
    by (auto simp: result_bind_Inr_iff split: option.splits)
  from a(2) obtain r where "decision = Inr r" by (cases decision) simp_all
  with a have a: "admit_candidate tx raw (untouched @ acc) = Inr (Inr r)" "consolidate_items tx untouched xs (acc @ [r]) = Inr res"
    by simp_all
  from admit_candidateD [OF a(1)] have "admissible r" "slug r \<notin> slug ` set (untouched @ acc)" by simp_all
  then have r: "\<forall>r \<in> set (acc @ [r]). admissible r" "distinct (map slug (untouched @ acc @ [r]))" using Cons.prems(2,3) by auto
  from Cons.IH [OF a(2) r] show ?case by simp
qed simp

lemma distinct_slug_sort: "distinct (map slug rs) \<Longrightarrow> distinct (map slug (sort_key f rs))"
  by (simp add: distinct_map)

text \<open>C32. Consolidation cannot damage the memory: if it returns, every record beyond the twenty it works on is kept as it is, the set has
  no slug twice and is not larger than before, it is not empty unless it was, and every rewritten record
  passes the checks of the store up to the limit on its length.\<close>

theorem consolidate_safe:
  assumes "consolidate tx m threshold rs = (us, Inr res)" "distinct (map slug rs)"
  shows "set (drop CONSOLIDATION_INPUT_LIMIT (sort_key slug rs)) \<subseteq> set res \<and> distinct (map slug res) \<and> length res \<le> length rs \<and>
    (res = [] \<longrightarrow> rs = []) \<and> (\<forall>r \<in> set res - set rs. admissible r)"
proof (cases "length rs < threshold")
  case True
  then have "res = sort_key slug rs" using assms(1) by (simp add: consolidate_def)
  moreover have "sort_key slug rs = [] \<Longrightarrow> rs = []" by (metis set_empty set_sort)
  ultimately show ?thesis using assms(2) distinct_slug_sort by (auto dest: in_set_dropD)
next
  case False
  let ?o = "sort_key slug rs" and ?n = CONSOLIDATION_INPUT_LIMIT
  let ?u = "drop ?n ?o"
  from assms(1) False obtain items done_records where r: "items \<noteq> []" "length items \<le> length (take ?n ?o)"
      "consolidate_items tx ?u items [] = Inr done_records" "res = sort_key slug (?u @ done_records)"
    by (auto simp: consolidate_def Let_def result_bind_Inr_iff not_less split: sum.splits prod.splits option.splits if_splits)
  have "distinct (map slug ?o)" by (rule distinct_slug_sort [OF assms(2)])
  then have "distinct (map slug ?u)" by (simp add: drop_map [symmetric])
  from consolidate_items_spec [OF r(3)] this
  have s: "\<forall>x \<in> set done_records. admissible x" "distinct (map slug (?u @ done_records))" "length done_records = length items" by simp_all
  have "set ?u \<subseteq> set rs" by (metis set_drop_subset set_sort)
  moreover have "length res \<le> length rs" using r(2,4) s(3) by auto
  moreover have "distinct (map slug res)" using distinct_slug_sort [OF s(2)] r(4) by simp
  moreover have "res \<noteq> []" using r(1,4) s(3) by (metis append_is_Nil_conv length_0_conv length_sort)
  ultimately show ?thesis using r(4) s(1) by auto
qed

definition sample_model :: Aux_Model where
  "sample_model = \<lparr>ask_extract = (\<lambda>_ _. Inr (None, PNone)), ask_consolidate = (\<lambda>_. Inr (Some ''x'', PNone)),
     parse_json_array = (\<lambda>_. Some [PDict [(''name'', PStr ''N''), (''description'', PStr ''d''), (''type'', PStr ''user''), (''content'', PStr ''c'')]])\<rparr>"

theorem consolidate_safe_witness:
  "length (projr (snd (consolidate sample_text_api (sample_model\<lparr>ask_extract := \<lambda>_ _. Inl KeyError\<rparr>) 2 [mem_record ''b'' ''x'', mem_record ''a'' ''y'']))) \<le> 2"
proof -
  let ?c = "consolidate sample_text_api (sample_model\<lparr>ask_extract := \<lambda>_ _. Inl KeyError\<rparr>) 2 [mem_record ''b'' ''x'', mem_record ''a'' ''y'']"
  have "case snd ?c of Inl _ \<Rightarrow> False | Inr _ \<Rightarrow> True" by code_simp
  then obtain us res where "?c = (us, Inr res)" by (cases ?c) (auto split: sum.splits)
  from consolidate_safe [OF this] this show ?thesis by (simp add: mem_record_def)
qed

end
