(* ===== verification/Memory_Worker.thy ===== *)
theory Memory_Worker
  imports Memory_Job Memory_Extraction Programs
begin

text \<open>
  The consumer of the memory outbox (\<open>app/memory/worker.py\<close>): one claimed job is extracted, written, consolidated and ended, and
  every stage is billed. Each call to the database, the store or the thread guard may raise (\<open>m_fault\<close>, per call); the
  store, the model and the clock are parameters. Texts in Chinese are given in English.
\<close>

section \<open>The worker and its services\<close>

text \<open>Which call it is; the fault of the \<open>n\<close>-th call of the process is looked up under its kind.\<close>

datatype mem_call = Claim_call | Other_call

record ('s, 'y) MWorld =
  mem_db :: "'y MemDb"
  mem_store :: 's
  calls :: nat
  lv_stage :: string
  lv_accepted :: int
  lv_reasons :: "string list"

record ('s, 'y) MServices =
  m_fault :: "mem_call \<Rightarrow> nat \<Rightarrow> exn option"
  m_now :: "nat \<Rightarrow> datetime"
  m_fresh :: "nat \<Rightarrow> uuid"
  m_locked :: "nat \<Rightarrow> uuid list"
  m_elapsed :: "nat \<Rightarrow> int"
  m_active :: "string \<Rightarrow> string \<Rightarrow> bool"
  m_export :: "string \<Rightarrow> 's \<Rightarrow> MemoryStoreSnapshot result \<times> 's"
  m_write :: "string \<Rightarrow> MemoryRecord \<Rightarrow> 's \<Rightarrow> unit result \<times> 's"
  m_replace :: "string \<Rightarrow> MemoryRecord list \<Rightarrow> string option \<Rightarrow> 's \<Rightarrow> unit result \<times> 's"
  m_text :: Text_Api
  m_aux :: Aux_Model
  m_yuan :: "string \<Rightarrow> TokenUsage \<Rightarrow> 'y"
  m_add :: "'y \<Rightarrow> 'y \<Rightarrow> 'y"
  m_model :: string
  m_max_attempts :: int

type_synonym ('s, 'y, 'a) mprog = "(('s, 'y) MWorld, 'a) program"

definition call :: "('s, 'y) MServices \<Rightarrow> mem_call \<Rightarrow> (nat \<Rightarrow> ('s, 'y, 'a) mprog) \<Rightarrow> ('s, 'y, 'a) mprog" where
  "call sv k m w =
     (let n = calls w; w = w\<lparr>calls := Suc n\<rparr> in
      case m_fault sv k n of Some e \<Rightarrow> (Inl e, w) | None \<Rightarrow> m n w)"

definition db_call :: "('s, 'y) MServices \<Rightarrow> (nat \<Rightarrow> 'y MemDb \<Rightarrow> 'a \<times> 'y MemDb) \<Rightarrow> ('s, 'y, 'a) mprog" where
  "db_call sv f = call sv Other_call (\<lambda>n w. case f n (mem_db w) of (x, d) \<Rightarrow> (Inr x, w\<lparr>mem_db := d\<rparr>))"

definition store_call :: "('s, 'y) MServices \<Rightarrow> ('s \<Rightarrow> 'a result \<times> 's) \<Rightarrow> ('s, 'y, 'a) mprog" where
  "store_call sv f = call sv Other_call (\<lambda>n w. case f (mem_store w) of (x, s) \<Rightarrow> (x, w\<lparr>mem_store := s\<rparr>))"

definition set_stage :: "string \<Rightarrow> ('s, 'y, unit) mprog" where
  "set_stage s w = (Inr (), w\<lparr>lv_stage := s\<rparr>)"

section \<open>Billing\<close>

definition lookup_usage :: "('s, 'y) MServices \<Rightarrow> MemoryJob \<Rightarrow> ('s, 'y, MemoryUsageStage \<rightharpoonup> 'y MemoryUsage) mprog" where
  "lookup_usage sv job = db_call sv (\<lambda>n d. (usage_for_run (job_run_id job) d, d))"

definition put_usage :: "('s, 'y) MServices \<Rightarrow> 'y MemoryUsage \<Rightarrow> ('s, 'y, unit) mprog" where
  "put_usage sv u =
     call sv Other_call (\<lambda>n w. case record_usage (m_fresh sv n) (m_now sv n) u (mem_db w) of
       Inl e \<Rightarrow> (Inl e, w) | Inr d \<Rightarrow> (Inr (), w\<lparr>mem_db := d\<rparr>))"

text \<open>\<open>_record_usage\<close>: the stage's usage is added to what earlier attempts have left.\<close>

definition accumulated ::
    "('s, 'y) MServices \<Rightarrow> MemoryJob \<Rightarrow> MemoryUsageStage \<Rightarrow> TokenUsage \<Rightarrow> int \<Rightarrow> int \<Rightarrow> int \<Rightarrow> string option \<Rightarrow>
     'y MemoryUsage option \<Rightarrow> 'y MemoryUsage" where
  "accumulated sv job st tokens duration hit rejected fallback previous =
     (let u = \<lparr>mu_run_id = job_run_id job, mu_thread_id = job_thread_id job, mu_stage = st, mu_model = m_model sv,
               mu_tokens = tokens, mu_cost = m_yuan sv (m_model sv) tokens, mu_duration = duration, mu_hit = hit,
               mu_rejected = rejected, mu_fallback = fallback, mu_included = False, mu_slugs = [], mu_job_id = Some (job_id job)\<rparr>
      in case previous of
           None \<Rightarrow> u
         | Some p \<Rightarrow>
             u\<lparr>mu_tokens := mu_tokens p + tokens, mu_cost := m_add sv (mu_cost u) (mu_cost p), mu_duration := duration + mu_duration p,
               mu_hit := hit + mu_hit p, mu_rejected := rejected + mu_rejected p,
               mu_fallback := (case fallback of Some (c # cs) \<Rightarrow> fallback | _ \<Rightarrow> mu_fallback p)\<rparr>)"

definition bill ::
    "('s, 'y) MServices \<Rightarrow> MemoryJob \<Rightarrow> MemoryUsageStage \<Rightarrow> TokenUsage \<Rightarrow> bool \<Rightarrow> int \<Rightarrow> int \<Rightarrow> string option \<Rightarrow>
     ('s, 'y, unit) mprog" where
  "bill sv job st tokens clocked hit rejected fallback w =
     (let duration = (if clocked then max 0 (m_elapsed sv (calls w) div 1000000) else 0) in
      seq (lookup_usage sv job) (\<lambda>found.
        put_usage sv (accumulated sv job st tokens duration hit rejected fallback (found st))) w)"

fun zero_stages :: "('s, 'y) MServices \<Rightarrow> MemoryJob \<Rightarrow> string \<Rightarrow> (MemoryUsageStage \<rightharpoonup> 'y MemoryUsage) \<Rightarrow> MemoryUsageStage list \<Rightarrow>
    ('s, 'y, unit) mprog" where
  "zero_stages sv job reason existing [] = ret ()"
| "zero_stages sv job reason existing (st # sts) =
     (if existing st \<noteq> None then zero_stages sv job reason existing sts
      else seq (bill sv job st 0 False 0 0 (Some reason)) (\<lambda>_. zero_stages sv job reason existing sts))"

definition ensure_zero_usage :: "('s, 'y) MServices \<Rightarrow> MemoryJob \<Rightarrow> string \<Rightarrow> ('s, 'y, unit) mprog" where
  "ensure_zero_usage sv job reason =
     seq (lookup_usage sv job) (\<lambda>existing. zero_stages sv job reason existing [EXTRACTOR, CONSOLIDATOR])"

section \<open>The stages\<close>

definition exn_name :: "exn \<Rightarrow> string" where
  "exn_name e =
     (case e of
        ValueError \<Rightarrow> ''ValueError'' | KeyError \<Rightarrow> ''KeyError'' | TypeError \<Rightarrow> ''TypeError'' | IndexError \<Rightarrow> ''IndexError''
      | ValidationError \<Rightarrow> ''ValidationError'' | MemoryStoreError \<Rightarrow> ''MemoryStoreError''
      | MemoryCapacityError \<Rightarrow> ''MemoryCapacityError'' | MemoryVersionConflictError \<Rightarrow> ''MemoryVersionConflictError''
      | FileNotFoundError \<Rightarrow> ''FileNotFoundError'' | OtherError s \<Rightarrow> s | _ \<Rightarrow> ''Exception'')"

text \<open>\<open>_extract\<close>: the model's usage is billed whether it succeeded or not.\<close>

definition run_extract :: "('s, 'y) MServices \<Rightarrow> MemoryJob \<Rightarrow> MemoryRecord list \<Rightarrow> ('s, 'y, ExtractionResult) mprog" where
  "run_extract sv job existing =
     (case extract_memory (m_text sv) (m_aux sv) (job_messages job) existing of
        (used, Inl e) \<Rightarrow> seq (bill sv job EXTRACTOR (sum_list used) True 0 1 (Some (exn_name e))) (\<lambda>_. throw e)
      | (used, Inr res) \<Rightarrow>
          seq (bill sv job EXTRACTOR (sum_list used) True (int (length (ex_records res))) (int (length (ex_rejected res))) None)
            (\<lambda>_. ret res))"

definition run_consolidate :: "('s, 'y) MServices \<Rightarrow> MemoryJob \<Rightarrow> MemoryRecord list \<Rightarrow> ('s, 'y, MemoryRecord list) mprog" where
  "run_consolidate sv job rs =
     (case consolidate (m_text sv) (m_aux sv) CONSOLIDATION_THRESHOLD rs of
        (used, Inl e) \<Rightarrow> seq (bill sv job CONSOLIDATOR (sum_list used) True 0 1 (Some (exn_name e))) (\<lambda>_. throw e)
      | (used, Inr res) \<Rightarrow>
          (let untouched = max 0 (int (length rs) - int CONSOLIDATION_INPUT_LIMIT) in
           seq (bill sv job CONSOLIDATOR (sum_list used) True (max 0 (int (length res) - untouched)) 0 None) (\<lambda>_. ret res)))"

fun write_all :: "('s, 'y) MServices \<Rightarrow> MemoryJob \<Rightarrow> MemoryRecord list \<Rightarrow> ('s, 'y, unit) mprog" where
  "write_all sv job [] = ret ()"
| "write_all sv job (r # rs) =
     seq (store_call sv (m_write sv (job_thread_id job) r)) (\<lambda>_.
     seq (\<lambda>w. (Inr (), w\<lparr>lv_accepted := lv_accepted w + 1\<rparr>)) (\<lambda>_. write_all sv job rs))"

text \<open>\<open>_replace_with_rollback\<close>: on any error but a conflict the snapshot is written back first.\<close>

definition replace_with_rollback :: "('s, 'y) MServices \<Rightarrow> MemoryJob \<Rightarrow> MemoryRecord list \<Rightarrow> MemoryStoreSnapshot \<Rightarrow> ('s, 'y, unit) mprog" where
  "replace_with_rollback sv job rs snapshot =
     try_except (store_call sv (m_replace sv (job_thread_id job) rs (Some (snap_version snapshot)))) (\<lambda>e.
       if e = MemoryVersionConflictError then throw e
       else seq (try_except
                  (store_call sv (m_replace sv (job_thread_id job) (records snapshot) (Some (snap_version snapshot))))
                  (\<lambda>_. throw (OtherError ''MemoryRollbackError'')))
              (\<lambda>_. throw e))"

section \<open>One job\<close>

text \<open>Equality of records leaves the time out (\<open>compare=False\<close>).\<close>

definition same_records :: "MemoryRecord list \<Rightarrow> MemoryRecord list \<Rightarrow> bool" where
  "same_records rs xs \<longleftrightarrow> map (\<lambda>r. r\<lparr>updated_at := None\<rparr>) rs = map (\<lambda>r. r\<lparr>updated_at := None\<rparr>) xs"

definition rejection_value :: "AdmissionRejection \<Rightarrow> string" where
  "rejection_value r =
     (case r of CURRENT_TASK \<Rightarrow> ''current_task'' | INCOMPLETE_FIELDS \<Rightarrow> ''incomplete_fields'' | INVALID_SCHEMA \<Rightarrow> ''invalid_schema''
      | TEMPORARY \<Rightarrow> ''temporary'' | TOOL_OUTPUT \<Rightarrow> ''tool_output'' | ASSISTANT_ASSUMPTION \<Rightarrow> ''assistant_assumption''
      | DUPLICATE \<Rightarrow> ''duplicate'' | SECRET \<Rightarrow> ''secret'' | INSTRUCTION_INJECTION \<Rightarrow> ''instruction_injection'')"

definition consolidate_stage :: "('s, 'y) MServices \<Rightarrow> MemoryJob \<Rightarrow> MemoryStoreSnapshot \<Rightarrow> ('s, 'y, unit) mprog" where
  "consolidate_stage sv job snapshot =
     (let current = records snapshot in
      if CONSOLIDATION_THRESHOLD \<le> length current
      then seq (run_consolidate sv job current) (\<lambda>consolidated.
             if same_records consolidated current then ret ()
             else seq (set_stage ''replace'') (\<lambda>_. replace_with_rollback sv job consolidated snapshot))
      else bill sv job CONSOLIDATOR 0 False 0 0 (Some ''below_threshold''))"

definition complete_job :: "('s, 'y) MServices \<Rightarrow> MemoryJob \<Rightarrow> string list \<Rightarrow> ('s, 'y, bool) mprog" where
  "complete_job sv job extra w = db_call sv (\<lambda>n. complete (job_id job) (lv_accepted w) (lv_reasons w @ extra) (m_now sv n)) w"

definition job_body :: "('s, 'y) MServices \<Rightarrow> MemoryJob \<Rightarrow> ('s, 'y, bool) mprog" where
  "job_body sv job =
     seq (call sv Other_call (\<lambda>n w. (Inr (m_active sv (job_thread_id job) (job_user_id job)), w))) (\<lambda>active.
     if \<not> active
     then seq (ensure_zero_usage sv job ''thread_deleted'') (\<lambda>_.
          db_call sv (\<lambda>n. discard_job (job_id job) ''thread_deleted'' (m_now sv n)))
     else
       seq (set_stage ''read'') (\<lambda>_.
       seq (store_call sv (m_export sv (job_thread_id job))) (\<lambda>existing.
       seq (set_stage ''extractor'') (\<lambda>_.
       seq (run_extract sv job (records existing)) (\<lambda>extracted.
       seq (\<lambda>w. (Inr (), w\<lparr>lv_reasons := map (rejection_value \<circ> snd) (ex_rejected extracted)\<rparr>)) (\<lambda>_.
       seq (set_stage ''write'') (\<lambda>_.
       seq (write_all sv job (ex_records extracted)) (\<lambda>_.
       seq (set_stage ''read'') (\<lambda>_.
       seq (store_call sv (m_export sv (job_thread_id job))) (\<lambda>snapshot.
       seq (set_stage ''consolidator'') (\<lambda>_.
       seq (consolidate_stage sv job snapshot) (\<lambda>_.
       seq (set_stage ''complete'') (\<lambda>_.
       complete_job sv job [])))))))))))))"

definition complete_capacity :: "('s, 'y) MServices \<Rightarrow> MemoryJob \<Rightarrow> ('s, 'y, bool) mprog" where
  "complete_capacity sv job =
     seq (try_except (ensure_zero_usage sv job ''memory_capacity'') (\<lambda>_. ret ())) (\<lambda>_. complete_job sv job [''memory_capacity''])"

definition job_failed :: "('s, 'y) MServices \<Rightarrow> MemoryJob \<Rightarrow> exn \<Rightarrow> ('s, 'y, bool) mprog" where
  "job_failed sv job e w =
     (let st = lv_stage w; err = st @ '' failed: '' @ exn_name e in
      seq (if st \<in> {''guard'', ''read'', ''extractor'', ''write''}
           then try_except (ensure_zero_usage sv job (st @ ''_failed'')) (\<lambda>_. ret ()) else ret ()) (\<lambda>_.
        if job_attempts job < m_max_attempts sv then db_call sv (\<lambda>n. requeue (job_id job) err)
        else db_call sv (\<lambda>n. fail_job (job_id job) err (m_now sv n))) w)"

definition process_job :: "('s, 'y) MServices \<Rightarrow> MemoryJob \<Rightarrow> ('s, 'y, bool) mprog" where
  "process_job sv job =
     try_except (job_body sv job) (\<lambda>e. if e = MemoryCapacityError then complete_capacity sv job else job_failed sv job e)"

definition run_once :: "('s, 'y) MServices \<Rightarrow> ('s, 'y, bool) mprog" where
  "run_once sv =
     seq (call sv Claim_call (\<lambda>n w. case claim_job (m_locked sv n) (m_now sv n) (mem_db w) of
            (j, d) \<Rightarrow> (Inr j, w\<lparr>mem_db := d, lv_stage := ''guard'', lv_accepted := 0, lv_reasons := []\<rparr>)))
       (\<lambda>j. case j of None \<Rightarrow> ret False | Some job \<Rightarrow> seq (process_job sv job) (\<lambda>_. ret True))"

section \<open>The loop\<close>

text \<open>\<open>_recover_stale\<close>, and one round of \<open>run\<close>: \<open>clk\<close> is the monotonic clock, \<open>due\<close> the time of the next sweep. An exception of
  \<open>run_once\<close> counts as an empty round; one of the sweep leaves the loop.\<close>

definition recover_stale :: "('s, 'y) MServices \<Rightarrow> int \<Rightarrow> bool \<Rightarrow> ('s, 'y, nat) mprog" where
  "recover_stale sv stale startup = db_call sv (\<lambda>n. requeue_stale (if startup then m_now sv n else m_now sv n - stale))"

definition memory_round :: "('s, 'y) MServices \<Rightarrow> int \<Rightarrow> int \<Rightarrow> int option \<Rightarrow> ('s, 'y, bool \<times> int option) mprog" where
  "memory_round sv stale clk due =
     seq (case due of
            None \<Rightarrow> ret None
          | Some t \<Rightarrow> if clk < t then ret due else seq (recover_stale sv stale False) (\<lambda>_. ret (Some (clk + stale)))) (\<lambda>due.
     seq (try_except (run_once sv) (\<lambda>_. ret False)) (\<lambda>consumed. ret (consumed, due)))"

section \<open>What the calls do to the job table\<close>

abbreviation job_ids :: "'y MemDb \<Rightarrow> uuid list" where
  "job_ids d \<equiv> map mj_id (jobs d)"

lemma set_job_ids:
  assumes "\<And>r. mj_id (f r) = mj_id r"
  shows "job_ids (snd (set_job u q f d)) = job_ids d"
  using map_pk_update [of mj_id f, OF assms] by (simp add: set_job_def sql_update_def del: map_map)

lemma call_ids:
  "job_ids (snd (finish i s acc rej rs err now d)) = job_ids d"
  "job_ids (snd (requeue i msg d)) = job_ids d"
  "job_ids (snd (claim_job locked now d)) = job_ids d"
  by (auto simp: finish_def requeue_def claim_job_def claimed_row_def set_job_ids split: option.splits list.splits simp del: map_map)

lemma record_usage_jobs: "record_usage fresh now u d = Inr d' \<Longrightarrow> jobs d' = jobs d"
  by (auto simp: record_usage_def Let_def split: option.splits if_splits)

text \<open>The job \<open>u\<close> is held by this worker with the row \<open>r\<close>, and the other rows are those of \<open>d0\<close>; or it is settled.\<close>

definition held :: "uuid \<Rightarrow> MemoryJobRow \<Rightarrow> 'y MemDb \<Rightarrow> ('s, 'y) MWorld \<Rightarrow> bool" where
  "held u r d0 w \<longleftrightarrow> job_ids (mem_db w) = job_ids d0 \<and> job_row (mem_db w) u = Some r \<and>
     (\<forall>v. v \<noteq> u \<longrightarrow> job_row (mem_db w) v = job_row d0 v)"

definition settled_as :: "MemoryJobStatus set \<Rightarrow> uuid \<Rightarrow> MemoryJobRow \<Rightarrow> 'y MemDb \<Rightarrow> ('s, 'y) MWorld \<Rightarrow> bool" where
  "settled_as S u r d0 w \<longleftrightarrow> (\<exists>r'. held u r' d0 w \<and> mj_status r' \<in> S \<and> mj_attempts r' = mj_attempts r)"

lemma held_cong: "jobs (mem_db w) = jobs (mem_db w') \<Longrightarrow> held u r d0 w = held u r d0 w'"
  by (simp add: held_def job_row_def)

lemma held_simps [simp]:
  "held u r d0 (w\<lparr>calls := n\<rparr>) = held u r d0 w" "held u r d0 (w\<lparr>mem_store := s\<rparr>) = held u r d0 w"
  "held u r d0 (w\<lparr>lv_stage := st\<rparr>) = held u r d0 w" "held u r d0 (w\<lparr>lv_accepted := k\<rparr>) = held u r d0 w"
  "held u r d0 (w\<lparr>lv_reasons := rs\<rparr>) = held u r d0 w" "held u r d0 (w\<lparr>mem_db := mem_db w\<rparr>) = held u r d0 w"
  by (simp_all add: held_def)

lemma call_keeps [step_intros]: "(\<And>n. keeps (held u r d0) (m n)) \<Longrightarrow> keeps (held u r d0) (call sv k m)"
  by (auto simp: keeps_def call_def Let_def split: option.split)

lemma call_yields: 
  assumes "\<And>n. yields (held u r d0) Q (m n)"
  shows "yields (held u r d0) Q (call sv k m)"
  unfolding yields_def
proof (intro allI impI)
  fix w :: "('a, 'b) MWorld"
  assume h: "held u r d0 w"
  show "case call sv k m w of (Inl _, w') \<Rightarrow> held u r d0 w' | (Inr _, w') \<Rightarrow> Q w'"
    using assms [of "calls w", unfolded yields_def, rule_format, of "w\<lparr>calls := Suc (calls w)\<rparr>"] h
    by (simp add: call_def Let_def split: option.split)
qed

lemma set_stage_keeps [step_intros]: "keeps (held u r d0) (set_stage s)"
  by (rule keepsI) (simp add: set_stage_def)

lemma local_keeps [step_intros]:
  "keeps (held u r d0) (\<lambda>w. (Inr x, w))"
  "keeps (held u r d0) (\<lambda>w. (Inr (), w\<lparr>lv_accepted := lv_accepted w + 1\<rparr>))"
  "keeps (held u r d0) (\<lambda>w. (Inr (), w\<lparr>lv_reasons := rs\<rparr>))"
  by (rule keepsI, simp)+

lemma store_call_keeps [step_intros]: "keeps (held u r d0) (store_call sv f)"
  unfolding store_call_def by (intro call_keeps keepsI) (simp split: prod.split)

lemma usage_keeps [step_intros]: "keeps (held u r d0) (lookup_usage sv job)" "keeps (held u r d0) (put_usage sv us)"
proof -
  show "keeps (held u r d0) (lookup_usage sv job)"
    unfolding lookup_usage_def db_call_def by (intro call_keeps) (simp add: keeps_def)
  show "keeps (held u r d0) (put_usage sv us)"
    unfolding put_usage_def
  proof (intro call_keeps keepsI)
    fix n and w :: "('a, 'b) MWorld"
    assume h: "held u r d0 w"
    show "held u r d0 (snd (case record_usage (m_fresh sv n) (m_now sv n) us (mem_db w) of Inl e \<Rightarrow> (Inl e, w) | Inr d \<Rightarrow> (Inr (), w\<lparr>mem_db := d\<rparr>)))"
    proof (cases "record_usage (m_fresh sv n) (m_now sv n) us (mem_db w)")
      case (Inr d)
      then have "jobs d = jobs (mem_db w)" by (rule record_usage_jobs)
      then show ?thesis using h Inr by (simp add: held_def job_row_def)
    qed (simp add: h)
  qed
qed

lemma bill_keeps [step_intros]: "keeps (held u r d0) (bill sv job st t b h x f)"
proof (rule keepsI)
  fix w :: "('a, 'b) MWorld"
  assume "held u r d0 w"
  moreover have "keeps (held u r d0) (seq (lookup_usage sv job) (\<lambda>found. put_usage sv (accumulated sv job st t d h x f (found st))))" for d
    by (intro step_intros)
  ultimately show "held u r d0 (snd (bill sv job st t b h x f w))" by (simp add: bill_def Let_def keepsD)
qed

lemma zero_stages_keeps [step_intros]: "keeps (held u r d0) (zero_stages sv job reason ex sts)"
  by (induction sts) (simp_all add: step_intros)

lemma ensure_zero_keeps [step_intros]: "keeps (held u r d0) (ensure_zero_usage sv job reason)"
  unfolding ensure_zero_usage_def by (intro step_intros)

lemma write_all_keeps [step_intros]: "keeps (held u r d0) (write_all sv job rs)"
  by (induction rs) (auto intro!: step_intros)

lemma extract_keeps [step_intros]: "keeps (held u r d0) (run_extract sv job rs)"
  unfolding run_extract_def by (intro step_intros)

lemma consolidate_keeps [step_intros]: "keeps (held u r d0) (run_consolidate sv job rs)"
  unfolding run_consolidate_def Let_def by (intro step_intros)

lemma replace_keeps [step_intros]: "keeps (held u r d0) (replace_with_rollback sv job rs snapshot)"
  unfolding replace_with_rollback_def by (intro step_intros)

lemma consolidate_stage_keeps [step_intros]: "keeps (held u r d0) (consolidate_stage sv job snapshot)"
  unfolding consolidate_stage_def Let_def by (intro step_intros)

section \<open>How a job ends\<close>

lemma settled_asI: "held u r' d0 w \<Longrightarrow> mj_status r' \<in> S \<Longrightarrow> mj_attempts r' = mj_attempts r \<Longrightarrow> settled_as S u r d0 w"
  by (auto simp: settled_as_def)

lemma settled_mono: "settled_as S u r d0 w \<Longrightarrow> S \<subseteq> T \<Longrightarrow> settled_as T u r d0 w"
  by (auto simp: settled_as_def)

lemma yields_mono: "yields P Q m \<Longrightarrow> (\<And>w. Q w \<Longrightarrow> Q' w) \<Longrightarrow> yields P Q' m"
  by (fastforce simp: yields_def split: prod.splits sum.splits)

lemma job_of_row:
  assumes "u < 2 ^ 128" "job = to_job r" "mj_id r = u"
  shows "UUID (job_id job) = Some u"
  using assms by (simp add: to_job_def)

text \<open>The calls that end the job or give it back. They succeed because the row is running.\<close>

lemma finish_settles:
  fixes sv :: "('s, 'y) MServices"
  assumes "UUID i = Some u" "mj_status r = MJ_RUNNING" "distinct (job_ids d0)"
  shows "yields (held u r d0) (settled_as {s} u r d0) (db_call sv (\<lambda>n. finish i s acc rej rs err (m_now sv n)))"
  unfolding db_call_def
proof (intro call_yields yieldsI)
  fix n w x and w' :: "('s, 'y) MWorld"
  assume h: "held u r d0 w"
    and step: "(case finish i s acc rej rs err (m_now sv n) (mem_db w) of (x, d) \<Rightarrow> (Inr x, w\<lparr>mem_db := d\<rparr>)) = (Inr x, w')"
  obtain b d where f: "finish i s acc rej rs err (m_now sv n) (mem_db w) = (b, d)" by fastforce
  have ok: "jobs_ok (mem_db w)" using h assms(3) by (simp add: held_def jobs_ok_def)
  note sp = finish_spec [OF ok f]
  have b using sp(3) assms(1,2) h by (simp add: held_def)
  then have row: "job_row d u = Some (r\<lparr>mj_status := s, mj_accepted_count := acc, mj_rejected_count := rej, mj_rejection_reasons := rs,
      mj_last_error := err, mj_ended_at := Some (m_now sv n)\<rparr>)" using sp(4) [of u] assms(1) h by (simp add: held_def)
  moreover have "job_row d v = job_row (mem_db w) v" if "v \<noteq> u" for v using sp(4) [of v] assms(1) that by auto
  moreover have "job_ids d = job_ids (mem_db w)" using call_ids(1) [of i s acc rej rs err "m_now sv n" "mem_db w"] f by simp
  ultimately have "held u (r\<lparr>mj_status := s, mj_accepted_count := acc, mj_rejected_count := rej, mj_rejection_reasons := rs,
      mj_last_error := err, mj_ended_at := Some (m_now sv n)\<rparr>) d0 (w\<lparr>mem_db := d\<rparr>)"
    using h by (simp add: held_def)
  then have "settled_as {s} u r d0 (w\<lparr>mem_db := d\<rparr>)" by (rule settled_asI) simp_all
  then show "settled_as {s} u r d0 w'" using step f by simp
qed (auto split: prod.splits)

lemma requeue_settles:
  fixes sv :: "('s, 'y) MServices"
  assumes "UUID i = Some u" "mj_status r = MJ_RUNNING" "distinct (job_ids d0)"
  shows "yields (held u r d0) (settled_as {MJ_QUEUED} u r d0) (db_call sv (\<lambda>n. requeue i err))"
  unfolding db_call_def
proof (intro call_yields yieldsI)
  fix n w x and w' :: "('s, 'y) MWorld"
  assume h: "held u r d0 w" and step: "(case requeue i err (mem_db w) of (x, d) \<Rightarrow> (Inr x, w\<lparr>mem_db := d\<rparr>)) = (Inr x, w')"
  obtain b d where f: "requeue i err (mem_db w) = (b, d)" by fastforce
  have ok: "jobs_ok (mem_db w)" using h assms(3) by (simp add: held_def jobs_ok_def)
  note sp = requeue_spec [OF ok f]
  have b using sp(3) assms(1,2) h by (simp add: held_def)
  then have "job_row d u = Some (r\<lparr>mj_status := MJ_QUEUED, mj_started_at := None, mj_ended_at := None, mj_last_error := Some err\<rparr>)"
    using sp(4) [of u] assms(1) h by (simp add: held_def)
  moreover have "job_row d v = job_row (mem_db w) v" if "v \<noteq> u" for v using sp(4) [of v] assms(1) that by auto
  moreover have "job_ids d = job_ids (mem_db w)" using call_ids(2) [of i err "mem_db w"] f by simp
  ultimately have "held u (r\<lparr>mj_status := MJ_QUEUED, mj_started_at := None, mj_ended_at := None, mj_last_error := Some err\<rparr>) d0 (w\<lparr>mem_db := d\<rparr>)"
    using h by (simp add: held_def)
  then have "settled_as {MJ_QUEUED} u r d0 (w\<lparr>mem_db := d\<rparr>)" by (rule settled_asI) simp_all
  then show "settled_as {MJ_QUEUED} u r d0 w'" using step f by simp
qed (auto split: prod.splits)

lemma finish_calls:
  "discard_job i reason now = finish i MJ_DISCARDED 0 0 [reason] None now"
  "fail_job i msg now = finish i MJ_FAILED 0 0 [] (Some msg) now"
  "complete i acc rs now = finish i MJ_SUCCEEDED acc (int (length rs)) rs None now"
  by (simp_all add: fun_eq_iff finish_defs)

definition job_settled :: "int \<Rightarrow> uuid \<Rightarrow> MemoryJobRow \<Rightarrow> 'y MemDb \<Rightarrow> ('s, 'y) MWorld \<Rightarrow> bool" where
  "job_settled max_attempts u r d0 w \<longleftrightarrow>
     settled_as ({MJ_SUCCEEDED, MJ_DISCARDED} \<union> (if mj_attempts r < max_attempts then {MJ_QUEUED} else {MJ_FAILED})) u r d0 w"

lemma process_settles:
  fixes sv :: "('s, 'y) MServices"
  assumes i: "UUID (job_id job) = Some u" and run: "mj_status r = MJ_RUNNING" and d0: "distinct (job_ids d0)"
    and att: "job_attempts job = mj_attempts r"
  shows "yields (held u r d0) (job_settled (m_max_attempts sv) u r d0) (process_job sv job)"
proof -
  let ?Q = "job_settled (m_max_attempts sv) u r d0"
  have fin: "yields (held u r d0) ?Q (db_call sv (\<lambda>n. finish (job_id job) s acc rej rs err (m_now sv n)))"
    if "s \<in> {MJ_SUCCEEDED, MJ_DISCARDED} \<or> (s = MJ_FAILED \<and> \<not> mj_attempts r < m_max_attempts sv)" for s acc rej rs err
    by (rule yields_mono [OF finish_settles [where sv = sv and s = s and acc = acc and rej = rej and rs = rs and err = err, OF i run d0]]) (use that in \<open>auto simp: job_settled_def elim!: settled_mono\<close>)
  have req: "yields (held u r d0) ?Q (db_call sv (\<lambda>n. requeue (job_id job) err))" if "mj_attempts r < m_max_attempts sv" for err
    by (rule yields_mono [OF requeue_settles [where sv = sv and err = err, OF i run d0]]) (use that in \<open>auto simp: job_settled_def elim!: settled_mono\<close>)
  have comp: "yields (held u r d0) ?Q (complete_job sv job extra)" for extra
    unfolding yields_def
  proof (intro allI impI)
    fix w :: "('s, 'y) MWorld"
    assume h: "held u r d0 w"
    show "case complete_job sv job extra w of (Inl _, w') \<Rightarrow> held u r d0 w' | (Inr _, w') \<Rightarrow> ?Q w'"
      using fin [of MJ_SUCCEEDED "lv_accepted w" "int (length (lv_reasons w @ extra))" "lv_reasons w @ extra" None,
          unfolded yields_def, rule_format, OF _ h]
      unfolding complete_job_def finish_calls by simp
  qed
  have body: "yields (held u r d0) ?Q (job_body sv job)"
    unfolding job_body_def
    by (intro yields_intros step_intros comp) (simp_all add: finish_calls fin)
  have cap: "yields (held u r d0) ?Q (complete_capacity sv job)"
    unfolding complete_capacity_def by (intro yields_intros step_intros comp)
  have failed: "yields (held u r d0) ?Q (job_failed sv job e)" for e
    unfolding yields_def
  proof (intro allI impI)
    fix w :: "('s, 'y) MWorld"
    assume h: "held u r d0 w"
    have *: "yields (held u r d0) ?Q (seq (if st \<in> {''guard'', ''read'', ''extractor'', ''write''}
           then try_except (ensure_zero_usage sv job (st @ ''_failed'')) (\<lambda>_. ret ()) else ret ()) (\<lambda>_.
        if job_attempts job < m_max_attempts sv then db_call sv (\<lambda>n. requeue (job_id job) err)
        else db_call sv (\<lambda>n. fail_job (job_id job) err (m_now sv n))))" for st err
      unfolding finish_calls by (intro yields_intros step_intros) (simp_all add: att fin req)
    show "case job_failed sv job e w of (Inl _, w') \<Rightarrow> held u r d0 w' | (Inr _, w') \<Rightarrow> ?Q w'"
      unfolding job_failed_def Let_def by (rule * [unfolded yields_def, rule_format, OF h])
  qed
  show ?thesis
    unfolding process_job_def by (intro yields_intros body cap failed)
qed

section \<open>Properties\<close>

abbreviation ids_ok :: "'y MemDb \<Rightarrow> bool" where
  "ids_ok d \<equiv> \<forall>u \<in> set (job_ids d). u < 2 ^ 128"

text \<open>One call of \<open>run_once\<close>, from the claim on.\<close>

lemma run_once_cases:
  fixes sv :: "('s, 'y) MServices"
  assumes "jobs_ok (mem_db w)" "ids_ok (mem_db w)" "run_once sv w = (res, w')"
  obtains (no_claim) e where "m_fault sv Claim_call (calls w) = Some e" "res = Inl e" "mem_db w' = mem_db w"
  | (idle) "res = Inr False" "mem_db w' = mem_db w" "claimable (m_locked sv (calls w)) (mem_db w) = []"
  | (ended) r rs r1 where "res = Inr True" "claimable (m_locked sv (calls w)) (mem_db w) = r # rs" "mj_status r = MJ_QUEUED"
      "job_row (mem_db w) (mj_id r) = Some r" "mj_attempts r1 = mj_attempts r + 1"
      "job_settled (m_max_attempts sv) (mj_id r) r1 (mem_db w) w'"
  | (raised) e r rs where "res = Inl e" "claimable (m_locked sv (calls w)) (mem_db w) = r # rs" "mj_status r = MJ_QUEUED"
      "job_row (mem_db w) (mj_id r) = Some r" "held (mj_id r) (claimed_row (m_now sv (calls w)) r) (mem_db w) w'"
proof (cases "m_fault sv Claim_call (calls w)")
  case (Some e)
  then have "res = Inl e" "mem_db w' = mem_db w" using assms(3) by (auto simp: run_once_def seq_def call_def Let_def)
  with Some no_claim show ?thesis by blast
next
  case None
  let ?now = "m_now sv (calls w)" and ?locked = "m_locked sv (calls w)"
  obtain j d where c: "claim_job ?locked ?now (mem_db w) = (j, d)" by fastforce
  let ?w = "w\<lparr>calls := Suc (calls w), mem_db := d, lv_stage := ''guard'', lv_accepted := 0, lv_reasons := []\<rparr>"
  have run: "(case j of None \<Rightarrow> ret False | Some job \<Rightarrow> seq (process_job sv job) (\<lambda>_. ret True)) ?w = (res, w')"
    using assms(3) None c by (simp add: run_once_def seq_def [where m = "call _ _ _"] call_def Let_def)
  note sp = claim_job_spec [OF assms(1) c]
  show ?thesis
  proof (cases j)
    case j: None
    then have "res = Inr False" "mem_db w' = mem_db w" using run sp(3) by (auto simp: ret_def)
    then show ?thesis using sp(3) j idle by blast
  next
    case (Some job)
    with sp(4) obtain r rs where r: "claimable ?locked (mem_db w) = r # rs" "mj_status r = MJ_QUEUED" "job_row (mem_db w) (mj_id r) = Some r"
        "job = to_job (claimed_row ?now r)" "\<And>v. job_row d v = (if v = mj_id r then Some (claimed_row ?now r) else job_row (mem_db w) v)"
      by blast
    let ?u = "mj_id r" and ?r = "claimed_row ?now r"
    have u: "?u < 2 ^ 128"
    proof -
      from r(3) have "?u \<in> set (job_ids (mem_db w))" by (auto simp: job_row_def find_Some_iff)
      then show ?thesis using assms(2) by blast
    qed
    have "job_ids d = job_ids (mem_db w)" using call_ids(3) [of ?locked ?now "mem_db w"] c by simp
    then have h: "held ?u ?r (mem_db w) ?w" using r(5) by (simp add: held_def)
    have "UUID (job_id job) = Some ?u" by (rule job_of_row [OF u r(4)]) (simp add: claimed_row_def)
    moreover have "mj_status ?r = MJ_RUNNING" "job_attempts job = mj_attempts ?r" "mj_attempts ?r = mj_attempts r + 1"
      using r(4) by (simp_all add: claimed_row_def to_job_def)
    ultimately have p: "yields (held ?u ?r (mem_db w)) (job_settled (m_max_attempts sv) ?u ?r (mem_db w)) (process_job sv job)"
      using assms(1) by - (rule process_settles, simp_all only: jobs_ok_def)
    obtain x w1 where x: "process_job sv job ?w = (x, w1)" by fastforce
    show ?thesis
    proof (cases x)
      case (Inl e)
      then have "res = Inl e" "w' = w1" using run Some x by (simp_all add: seq_def)
      moreover have "held ?u ?r (mem_db w) w1" by (rule yieldsD(1) [OF p h x [unfolded Inl]])
      ultimately show ?thesis using r(1-3) by (intro raised) simp_all
    next
      case (Inr y)
      then have "res = Inr True" "w' = w1" using run Some x by (simp_all add: seq_def ret_def)
      moreover have "job_settled (m_max_attempts sv) ?u ?r (mem_db w) w1" by (rule yieldsD(2) [OF p h x [unfolded Inr]])
      ultimately show ?thesis using r(1-3) \<open>mj_attempts ?r = mj_attempts r + 1\<close> by (intro ended) simp_all
    qed
  qed
qed

text \<open>C30. What a worker leaves of a job, whatever the model, the store and the database do. A pass that returns has either found no
  job it could take and changed nothing, or it has taken the first one, counted the attempt, left every other job alone and
  brought it to rest: succeeded, discarded, back in the queue while attempts are left, or failed when they are used up. A pass
  that raises leaves the job it took running, for the sweep to find, and the others alone.\<close>

theorem run_once_outcome:
  fixes sv :: "('s, 'y) MServices"
  assumes "jobs_ok (mem_db w)" "ids_ok (mem_db w)"
  shows "case run_once sv w of
      (Inr False, w') \<Rightarrow> mem_db w' = mem_db w \<and> claimable (m_locked sv (calls w)) (mem_db w) = []
    | (Inr True, w') \<Rightarrow> \<exists>r rs r'. claimable (m_locked sv (calls w)) (mem_db w) = r # rs \<and>
        job_row (mem_db w') (mj_id r) = Some r' \<and> mj_attempts r' = mj_attempts r + 1 \<and>
        mj_status r' \<in> {MJ_SUCCEEDED, MJ_DISCARDED} \<union> (if mj_attempts r' < m_max_attempts sv then {MJ_QUEUED} else {MJ_FAILED}) \<and>
        (\<forall>v. v \<noteq> mj_id r \<longrightarrow> job_row (mem_db w') v = job_row (mem_db w) v)
    | (Inl e, w') \<Rightarrow> mem_db w' = mem_db w \<or>
        (\<exists>r rs. claimable (m_locked sv (calls w)) (mem_db w) = r # rs \<and>
          job_row (mem_db w') (mj_id r) = Some (claimed_row (m_now sv (calls w)) r) \<and>
          (\<forall>v. v \<noteq> mj_id r \<longrightarrow> job_row (mem_db w') v = job_row (mem_db w) v))"
proof -
  obtain res w' where run: "run_once sv w = (res, w')" by fastforce
  from assms run show ?thesis
  proof (cases rule: run_once_cases)
    case (no_claim e)
    then show ?thesis using run by simp
  next
    case idle
    then show ?thesis using run by simp
  next
    case (ended r rs r1)
    from ended(6) obtain r' where r': "held (mj_id r) r' (mem_db w) w'" "mj_attempts r' = mj_attempts r1"
        "mj_status r' \<in> {MJ_SUCCEEDED, MJ_DISCARDED} \<union> (if mj_attempts r1 < m_max_attempts sv then {MJ_QUEUED} else {MJ_FAILED})"
      unfolding job_settled_def settled_as_def by blast
    have "\<exists>r rs r'. claimable (m_locked sv (calls w)) (mem_db w) = r # rs \<and>
        job_row (mem_db w') (mj_id r) = Some r' \<and> mj_attempts r' = mj_attempts r + 1 \<and>
        mj_status r' \<in> {MJ_SUCCEEDED, MJ_DISCARDED} \<union> (if mj_attempts r' < m_max_attempts sv then {MJ_QUEUED} else {MJ_FAILED}) \<and>
        (\<forall>v. v \<noteq> mj_id r \<longrightarrow> job_row (mem_db w') v = job_row (mem_db w) v)"
      by (intro exI [of _ r] exI [of _ rs] exI [of _ r'] conjI) (use ended(2,5) r' in \<open>simp_all add: held_def\<close>)
    then show ?thesis unfolding run ended(1) prod.case sum.case bool.case .
  next
    case (raised e r rs)
    then have "\<exists>r rs. claimable (m_locked sv (calls w)) (mem_db w) = r # rs \<and>
          job_row (mem_db w') (mj_id r) = Some (claimed_row (m_now sv (calls w)) r) \<and>
          (\<forall>v. v \<noteq> mj_id r \<longrightarrow> job_row (mem_db w') v = job_row (mem_db w) v)"
      by (intro exI [of _ r] exI [of _ rs]) (simp add: held_def)
    then show ?thesis unfolding run raised(1) prod.case sum.case by blast
  qed
qed

section \<open>The queue empties\<close>

text \<open>The passes a queued job still allows.\<close>

definition passes :: "int \<Rightarrow> MemoryJobRow \<Rightarrow> nat" where
  "passes max_attempts r = (if mj_status r = MJ_QUEUED then Suc (nat (max_attempts - mj_attempts r)) else 0)"

definition total_passes :: "int \<Rightarrow> 'y MemDb \<Rightarrow> nat" where
  "total_passes max_attempts d = sum_list (map (passes max_attempts) (jobs d))"

lemma total_passes_rows:
  assumes "distinct (job_ids d)"
  shows "total_passes k d = sum_list (map (\<lambda>u. case job_row d u of None \<Rightarrow> 0 | Some r \<Rightarrow> passes k r) (job_ids d))"
proof -
  have "job_row d (mj_id r) = Some r" if "r \<in> set (jobs d)" for r
    using find_key [of mj_id, OF assms that] by (simp add: job_row_def)
  then show ?thesis by (simp add: total_passes_def comp_def cong: map_cong)
qed

lemma total_passes_less:
  assumes "distinct (job_ids d)" "job_ids d' = job_ids d" "u \<in> set (job_ids d)" "job_row d u = Some r" "job_row d' u = Some r'"
    "passes k r' < passes k r" "\<forall>v. v \<noteq> u \<longrightarrow> job_row d' v = job_row d v"
  shows "total_passes k d' < total_passes k d"
proof -
  let ?f = "\<lambda>d u. case job_row d u of None \<Rightarrow> 0 | Some r \<Rightarrow> passes k r"
  obtain xs ys where ids: "job_ids d = xs @ u # ys" using assms(3) split_list by metis
  then have "u \<notin> set xs" "u \<notin> set ys" using assms(1) by simp_all
  then have "map (?f d') xs = map (?f d) xs" "map (?f d') ys = map (?f d) ys"
    using assms(7) by (auto intro!: map_cong)
  then have "sum_list (map (?f d') xs) = sum_list (map (?f d) xs)" "sum_list (map (?f d') ys) = sum_list (map (?f d) ys)"
    by (simp_all only:)
  then show ?thesis
    using total_passes_rows [of d k] total_passes_rows [of d' k] assms(1,2,4-6) ids by simp
qed

text \<open>The worker's loop without the waiting: \<open>n\<close> passes, whether they return or raise.\<close>

fun passes_done :: "nat \<Rightarrow> ('s, 'y) MServices \<Rightarrow> ('s, 'y) MWorld \<Rightarrow> ('s, 'y) MWorld" where
  "passes_done 0 sv w = w"
| "passes_done (Suc n) sv w = passes_done n sv (snd (run_once sv w))"

lemma run_once_progress:
  fixes sv :: "('s, 'y) MServices"
  assumes "jobs_ok (mem_db w)" "ids_ok (mem_db w)" "\<forall>n. m_fault sv Claim_call n = None"
  defines "w' \<equiv> snd (run_once sv w)"
  shows "job_ids (mem_db w') = job_ids (mem_db w)"
    and "claimable (m_locked sv (calls w)) (mem_db w) = [] \<or>
      total_passes (m_max_attempts sv) (mem_db w') < total_passes (m_max_attempts sv) (mem_db w)"
proof -
  let ?k = "m_max_attempts sv"
  obtain res w1 where run: "run_once sv w = (res, w1)" by fastforce
  then have w1: "w' = w1" by (simp add: w'_def)
  have less: "total_passes ?k (mem_db w1) < total_passes ?k (mem_db w)"
    if h: "held (mj_id r) r' (mem_db w) w1" "job_row (mem_db w) (mj_id r) = Some r" "passes ?k r' < passes ?k r" for r r'
  proof (rule total_passes_less)
    show "mj_id r \<in> set (job_ids (mem_db w))" using h(2) by (auto simp: job_row_def find_Some_iff)
  qed (use h assms(1) in \<open>simp_all add: held_def jobs_ok_def\<close>)
  from assms(1,2) run have "job_ids (mem_db w1) = job_ids (mem_db w) \<and>
    (claimable (m_locked sv (calls w)) (mem_db w) = [] \<or> total_passes ?k (mem_db w1) < total_passes ?k (mem_db w))"
  proof (cases rule: run_once_cases)
    case (no_claim e)
    then show ?thesis using assms(3) by simp
  next
    case idle
    then show ?thesis by simp
  next
    case (ended r rs r1)
    from ended(6) obtain r' where r': "held (mj_id r) r' (mem_db w) w1" "mj_attempts r' = mj_attempts r1"
        "mj_status r' \<in> {MJ_SUCCEEDED, MJ_DISCARDED} \<union> (if mj_attempts r1 < ?k then {MJ_QUEUED} else {MJ_FAILED})"
      unfolding job_settled_def settled_as_def by blast
    then have "passes ?k r' < passes ?k r" using ended(3,5) by (auto simp: passes_def split: if_splits)
    then show ?thesis using less [OF r'(1) ended(4)] r'(1) by (simp add: held_def)
  next
    case (raised e r rs)
    have "passes ?k (claimed_row (m_now sv (calls w)) r) < passes ?k r" using raised(3) by (simp add: passes_def claimed_row_def)
    then show ?thesis using less [OF raised(5,4)] raised(5) by (simp add: held_def)
  qed
  then show "job_ids (mem_db w') = job_ids (mem_db w)"
    "claimable (m_locked sv (calls w)) (mem_db w) = [] \<or> total_passes ?k (mem_db w') < total_passes ?k (mem_db w)"
    by (simp_all add: w1)
qed

text \<open>C31. The outbox is worked off: as long as the claim itself can reach the database, some number of passes, not more than the
  attempts the queued jobs have left plus one for each, leads to a pass that finds nothing to claim, whatever fails in
  between.\<close>

theorem outbox_drains:
  fixes sv :: "('s, 'y) MServices"
  assumes "jobs_ok (mem_db w)" "ids_ok (mem_db w)" "\<forall>n. m_fault sv Claim_call n = None"
  shows "\<exists>n \<le> total_passes (m_max_attempts sv) (mem_db w).
    claimable (m_locked sv (calls (passes_done n sv w))) (mem_db (passes_done n sv w)) = []"
  using assms
proof (induction "total_passes (m_max_attempts sv) (mem_db w)" arbitrary: w rule: less_induct)
  case less
  let ?w = "snd (run_once sv w)" and ?k = "m_max_attempts sv"
  show ?case
  proof (cases "claimable (m_locked sv (calls w)) (mem_db w) = []")
    case True
    then show ?thesis by (intro exI [of _ 0]) simp
  next
    case False
    note p = run_once_progress [OF less.prems]
    have lt: "total_passes ?k (mem_db ?w) < total_passes ?k (mem_db w)" using p(2) False by simp
    have "jobs_ok (mem_db ?w)" "ids_ok (mem_db ?w)" using p(1) less.prems(1,2) by (simp_all add: jobs_ok_def)
    then obtain n where "n \<le> total_passes ?k (mem_db ?w)" "claimable (m_locked sv (calls (passes_done n sv ?w))) (mem_db (passes_done n sv ?w)) = []"
      using less.hyps [OF lt _ _ less.prems(3)] by blast
    then show ?thesis using lt by (intro exI [of _ "Suc n"]) simp
  qed
qed

definition broken_services :: "(unit, int) MServices" where
  "broken_services = \<lparr>m_fault = (\<lambda>k n. if k = Other_call \<and> n mod 4 \<noteq> 3 then Some KeyError else None), m_now = int, m_fresh = (\<lambda>n. n), m_locked = (\<lambda>_. []),
     m_elapsed = (\<lambda>_. 0), m_active = (\<lambda>_ _. True), m_export = (\<lambda>_ s. (Inr \<lparr>records = [], snap_version = []\<rparr>, s)),
     m_write = (\<lambda>_ _ s. (Inr (), s)), m_replace = (\<lambda>_ _ _ s. (Inr (), s)), m_text = sample_text_api, m_aux = sample_model,
     m_yuan = (\<lambda>_ _. 0), m_add = (+), m_model = ''m'', m_max_attempts = 3\<rparr>"

definition example_mworld :: "(unit, int) MWorld" where
  "example_mworld = \<lparr>mem_db = example_jobs, mem_store = (), calls = 0, lv_stage = [], lv_accepted = 0, lv_reasons = []\<rparr>"

lemma example_mworld_ok: "jobs_ok (mem_db example_mworld)" "ids_ok (mem_db example_mworld)"
  by (simp_all add: example_mworld_def example_jobs_def jobs_ok_def example_job_def enqueued_def)

theorem outbox_drains_witness:
  "\<exists>n. n \<le> 4 \<and> claimable (m_locked broken_services (calls (passes_done n broken_services example_mworld)))
     (mem_db (passes_done n broken_services example_mworld)) = []"
proof -
  have "total_passes (m_max_attempts broken_services) (mem_db example_mworld) = 4"
    by (simp add: total_passes_def passes_def broken_services_def example_mworld_def example_jobs_def example_job_def enqueued_def)
  then show ?thesis
    using outbox_drains [OF example_mworld_ok, of broken_services] by (auto simp: broken_services_def)
qed

theorem run_once_outcome_witness:
  "\<exists>w' r'. run_once broken_services example_mworld = (Inr True, w') \<and> job_row (mem_db w') 3 = Some r' \<and> mj_attempts r' = 1 \<and>
     mj_status r' \<noteq> MJ_RUNNING"
proof -
  let ?r = "run_once broken_services example_mworld"
  have "fst ?r = Inr True"
    by (simp add: run_once_def seq_def call_def broken_services_def example_mworld_def example_job_simps process_job_def try_except_def
        job_body_def ensure_zero_usage_def lookup_usage_def db_call_def job_failed_def ret_def to_job_def requeue_def)
  then obtain w' where w': "?r = (Inr True, w')" by (cases ?r) simp
  have "claimable (m_locked broken_services (calls example_mworld)) (mem_db example_mworld) = [example_job 3]"
    by (simp add: claimable_def broken_services_def example_mworld_def example_jobs_def example_job_def enqueued_def)
  with run_once_outcome [OF example_mworld_ok, of broken_services] w'
  obtain r' where "job_row (mem_db w') 3 = Some r'" "mj_attempts r' = 1" "mj_status r' \<in> {MJ_SUCCEEDED, MJ_DISCARDED, MJ_QUEUED, MJ_FAILED}"
    by (auto simp: example_job_def enqueued_def split: if_splits)
  then show ?thesis using w' by auto
qed

text \<open>A sweep that cannot reach the database ends the loop, and with it the worker process that also runs the analyses: \<open>run\<close> guards
  \<open>run_once\<close> only.\<close>

lemma failing_sweep_ends_loop:
  assumes "m_fault sv Other_call (calls w) = Some e" "t \<le> clk"
  shows "fst (memory_round sv stale clk (Some t) w) = Inl e"
  using assms by (simp add: memory_round_def seq_def recover_stale_def db_call_def call_def Let_def)

end
