(* ===== verification/User_Repository.thy ===== *)
theory User_Repository
  imports Tables Agent_Config
begin

text \<open>
  The \<open>users\<close> table and its repository (\<open>app/user/model.py\<close>, \<open>app/user/repository.py\<close>), the password hasher
  (\<open>app/auth/password.py\<close>) and the first administrator (\<open>app/auth/bootstrap.py\<close>). Argon2 is a parameter: \<open>hash\<close> is the
  encoded hash of a password, \<open>raw_verify\<close> the outcome of the library's check, an exception or an answer. The record of the
  tables is extended by the components that add tables of their own, so every operation works on any extension of it.
\<close>

section \<open>Rows and values\<close>

record User =
  us_id :: string
  us_name :: string
  us_email :: string
  us_dept :: string
  us_role :: UserRole
  us_active :: bool
  us_quota_tokens :: "int option"
  us_quota_runs :: "int option"

record Credential =
  cr_user :: User
  cr_hash :: string

record UserRecord =
  u_pk :: uuid
  u_name :: string
  u_email :: string
  u_dept :: string
  u_hash :: string
  u_role :: UserRole
  u_quota_tokens :: "int option"
  u_quota_runs :: "int option"
  u_active :: bool
  u_created :: datetime

record UserDb =
  users :: "UserRecord list"

definition to_user :: "UserRecord \<Rightarrow> User" where
  "to_user r =
     \<lparr>us_id = uuid_hex (u_pk r), us_name = u_name r, us_email = u_email r, us_dept = u_dept r, us_role = u_role r,
      us_active = u_active r, us_quota_tokens = u_quota_tokens r, us_quota_runs = u_quota_runs r\<rparr>"

definition to_credential :: "UserRecord \<Rightarrow> Credential" where
  "to_credential r = \<lparr>cr_user = to_user r, cr_hash = u_hash r\<rparr>"

section \<open>The repository\<close>

text \<open>\<open>user_clash\<close> is the primary key and the two unique columns, each on its own.\<close>

definition user_clash :: "UserRecord \<Rightarrow> UserRecord \<Rightarrow> bool" where
  "user_clash r x \<longleftrightarrow> u_pk x = u_pk r \<or> u_name x = u_name r \<or> u_email x = u_email r"

definition create_user ::
    "uuid \<Rightarrow> string \<Rightarrow> string \<Rightarrow> string \<Rightarrow> UserRole \<Rightarrow> string \<Rightarrow> bool \<Rightarrow> datetime \<Rightarrow>
     'a UserDb_scheme \<Rightarrow> (User \<times> 'a UserDb_scheme) result" where
  "create_user new_id name email password_hash role dept is_active now db =
     (let r = \<lparr>u_pk = new_id, u_name = name, u_email = email, u_dept = dept, u_hash = password_hash, u_role = role,
               u_quota_tokens = None, u_quota_runs = None, u_active = is_active, u_created = now\<rparr> in
      result_bind (sql_insert user_clash r (users db)) (\<lambda>rows. Inr (to_user r, db\<lparr>users := rows\<rparr>)))"

definition find_by_name :: "string \<Rightarrow> 'a UserDb_scheme \<Rightarrow> Credential option" where
  "find_by_name name db = map_option to_credential (find (\<lambda>r. u_name r = name) (users db))"

definition find_by_identifier :: "string \<Rightarrow> 'a UserDb_scheme \<Rightarrow> Credential option" where
  "find_by_identifier identifier db =
     map_option to_credential (find (\<lambda>r. u_name r = identifier \<or> u_email r = identifier) (users db))"

definition user_row :: "'a UserDb_scheme \<Rightarrow> uuid \<Rightarrow> UserRecord option" where
  "user_row db u = find (\<lambda>r. u_pk r = u) (users db)"

definition get_user :: "string \<Rightarrow> 'a UserDb_scheme \<Rightarrow> User option" where
  "get_user user_id db = Option.bind (UUID user_id) (\<lambda>u. map_option to_user (user_row db u))"

definition user_names :: "string list \<Rightarrow> 'a UserDb_scheme \<Rightarrow> (string \<rightharpoonup> string)" where
  "user_names user_ids db =
     (let wanted = List.map_filter UUID user_ids in
      map_of (map (\<lambda>r. (uuid_hex (u_pk r), u_name r)) (filter (\<lambda>r. u_pk r \<in> set wanted) (users db))))"

definition list_users :: "'a UserDb_scheme \<Rightarrow> User list" where
  "list_users db = map to_user (sort_key (\<lambda>r. - u_created r) (users db))"

text \<open>Reading one row, changing it and writing it back, in one transaction.\<close>

definition change_user :: "string \<Rightarrow> (UserRecord \<Rightarrow> UserRecord) \<Rightarrow> 'a UserDb_scheme \<Rightarrow> bool \<times> 'a UserDb_scheme" where
  "change_user user_id f db =
     (case UUID user_id of
        None \<Rightarrow> (False, db)
      | Some u \<Rightarrow>
          (case user_row db u of
             None \<Rightarrow> (False, db)
           | Some _ \<Rightarrow> (True, db\<lparr>users := fst (sql_update (\<lambda>r. u_pk r = u) f (users db))\<rparr>)))"

definition set_active :: "string \<Rightarrow> bool \<Rightarrow> 'a UserDb_scheme \<Rightarrow> bool \<times> 'a UserDb_scheme" where
  "set_active user_id is_active db = change_user user_id (\<lambda>r. r\<lparr>u_active := is_active\<rparr>) db"

text \<open>An argument that was not passed (\<open>...\<close>) is \<open>None\<close>; a quota that was passed may itself be \<open>None\<close>.\<close>

definition update_profile ::
    "string \<Rightarrow> UserRole option \<Rightarrow> int option option \<Rightarrow> int option option \<Rightarrow> string option \<Rightarrow>
     'a UserDb_scheme \<Rightarrow> bool \<times> 'a UserDb_scheme" where
  "update_profile user_id role quota_tokens quota_runs dept db =
     change_user user_id
       (\<lambda>r. let r = (case role of None \<Rightarrow> r | Some x \<Rightarrow> r\<lparr>u_role := x\<rparr>);
                r = (case quota_tokens of None \<Rightarrow> r | Some q \<Rightarrow> r\<lparr>u_quota_tokens := q\<rparr>);
                r = (case quota_runs of None \<Rightarrow> r | Some q \<Rightarrow> r\<lparr>u_quota_runs := q\<rparr>)
            in case dept of None \<Rightarrow> r | Some d \<Rightarrow> r\<lparr>u_dept := d\<rparr>) db"

definition count_users :: "'a UserDb_scheme \<Rightarrow> nat" where
  "count_users db = length (users db)"

section \<open>Passwords and the first administrator\<close>

datatype VerifyError = VerificationError | InvalidHashError | UnicodeEncodeError | OtherVerifyError

definition verify_password :: "(string \<Rightarrow> string \<Rightarrow> VerifyError + bool) \<Rightarrow> string \<Rightarrow> string \<Rightarrow> bool result" where
  "verify_password raw_verify hashed password =
     (case raw_verify hashed password of
        Inr b \<Rightarrow> Inr b
      | Inl e \<Rightarrow> if e \<in> {VerificationError, InvalidHashError, UnicodeEncodeError} then Inr False
                 else Inl (OtherError ''argon2''))"

definition DEFAULT_EMAIL_DOMAIN :: string where "DEFAULT_EMAIL_DOMAIN = ''zuel.edu.cn''"

definition ensure_first_admin ::
    "(string \<Rightarrow> string) \<Rightarrow> uuid \<Rightarrow> string \<Rightarrow> string \<Rightarrow> string \<Rightarrow> datetime \<Rightarrow> 'a UserDb_scheme \<Rightarrow> bool \<times> 'a UserDb_scheme" where
  "ensure_first_admin hash new_id name password email now db =
     (if 0 < count_users db then (False, db)
      else if name = [] \<or> password = [] then (False, db)
      else case create_user new_id name (if email \<noteq> [] then email else name @ ''@'' @ DEFAULT_EMAIL_DOMAIN) (hash password)
                  ADMIN [] True now db of
             Inl _ \<Rightarrow> (False, db)
           | Inr (_, db') \<Rightarrow> (True, db'))"

section \<open>The keys stay keys\<close>

definition users_ok :: "'a UserDb_scheme \<Rightarrow> bool" where
  "users_ok db \<longleftrightarrow> distinct (map u_pk (users db)) \<and> distinct (map u_name (users db)) \<and> distinct (map u_email (users db)) \<and>
     (\<forall>r\<in>set (users db). u_pk r < 2 ^ 128)"

lemma create_user_Inr:
  assumes "create_user i n e h ro d a now db = Inr (u, db')"
  obtains r where "users db' = users db @ [r]" "u = to_user r" "u_pk r = i" "u_name r = n" "u_email r = e" "u_hash r = h"
    "u_role r = ro" "u_active r = a" "\<forall>x\<in>set (users db). \<not> user_clash r x" "db' = db\<lparr>users := users db @ [r]\<rparr>"
  using assms by (auto simp: create_user_def result_bind_Inr_iff sql_insert_Inr Let_def)

lemma create_user_ok: "\<lbrakk>create_user i n e h ro d a now db = Inr (u, db'); users_ok db; i < 2 ^ 128\<rbrakk> \<Longrightarrow> users_ok db'"
  by (erule create_user_Inr) (auto simp: users_ok_def user_clash_def)

lemma change_user_row:
  assumes "change_user user_id f db = (b, db')" "\<And>r. u_pk (f r) = u_pk r"
  shows "user_row db' v = (if UUID user_id = Some v then map_option f (user_row db v) else user_row db v)"
    and "b \<longleftrightarrow> (\<exists>u r. UUID user_id = Some u \<and> user_row db u = Some r)"
  using assms find_map_update [of u_pk f v _ "\<lambda>_. True" "users db"]
  by (auto simp: change_user_def user_row_def sql_update_def option.map_ident simp del: map_map split: option.splits)

lemma change_user_more:
  assumes "change_user user_id f db = (b, db')"
  shows "db' = db\<lparr>users := users db'\<rparr>"
  using assms by (auto simp: change_user_def split: option.splits)

lemma change_user_ok:
  assumes "change_user user_id f db = (b, db')" "users_ok db"
    and "\<And>r. u_pk (f r) = u_pk r" "\<And>r. u_name (f r) = u_name r" "\<And>r. u_email (f r) = u_email r"
  shows "users_ok db'"
proof -
  have rows: "users db' = users db \<or> (\<exists>u. users db' = map (\<lambda>r. if u_pk r = u then f r else r) (users db))"
    using assms(1) by (auto simp: change_user_def sql_update_def split: option.splits)
  have "users_ok (db'\<lparr>users := map (\<lambda>r. if u_pk r = u then f r else r) (users db)\<rparr>)" for u
    using assms(2-5) map_pk_update [of u_pk f] map_pk_update [of u_name f] map_pk_update [of u_email f]
    by (auto simp: users_ok_def simp del: map_map)
  with rows assms(2) show ?thesis by (auto simp: users_ok_def simp del: map_map)
qed

lemma set_active_ok: "set_active i a db = (b, db') \<Longrightarrow> users_ok db \<Longrightarrow> users_ok db'"
  unfolding set_active_def by (erule change_user_ok) auto

lemma update_profile_ok: "update_profile i ro qt qr d db = (b, db') \<Longrightarrow> users_ok db \<Longrightarrow> users_ok db'"
  unfolding update_profile_def by (erule change_user_ok) (auto simp: Let_def split: option.splits)

lemma user_row_pk: "user_row db u = Some r \<Longrightarrow> r \<in> set (users db) \<and> u_pk r = u"
  unfolding user_row_def by (rule find_in)

lemma user_row_mem: "users_ok db \<Longrightarrow> r \<in> set (users db) \<Longrightarrow> user_row db (u_pk r) = Some r"
  unfolding user_row_def by (rule find_key) (simp add: users_ok_def)

lemma get_user_row: "get_user (uuid_hex u) db = Some x \<Longrightarrow> u < 2 ^ 128 \<Longrightarrow> \<exists>r. user_row db u = Some r \<and> x = to_user r"
  by (auto simp: get_user_def)

text \<open>The bootstrap adds an administrator to an empty table only.\<close>

lemma ensure_first_admin_spec:
  assumes "ensure_first_admin hash i n p e now db = (b, db')"
  shows "if b then users db = [] \<and> (\<exists>r. users db' = [r] \<and> u_role r = ADMIN \<and> u_active r \<and> u_name r = n \<and> u_hash r = hash p \<and> u_pk r = i)
    else db' = db"
  using assms
  by (auto simp: ensure_first_admin_def count_users_def create_user_def Let_def sql_insert_def split: if_splits sum.splits)

text \<open>Two accounts may answer to one identifier: a name and an email are unique each in its own column, so one account can be named
  like the email of another, and a lookup takes whichever row comes first.\<close>

definition taken_by :: "string \<Rightarrow> 'a UserDb_scheme \<Rightarrow> uuid list" where
  "taken_by identifier db = map u_pk (filter (\<lambda>r. u_name r = identifier \<or> u_email r = identifier) (users db))"

lemma identifier_at_most_two: "users_ok db \<Longrightarrow> length (taken_by identifier db) \<le> 2"
proof -
  assume ok: "users_ok db"
  let ?n = "filter (\<lambda>r. u_name r = identifier) (users db)" and ?e = "filter (\<lambda>r. u_email r = identifier) (users db)"
  have "length ?n \<le> 1" "length ?e \<le> 1"
    using filter_keyed [where pk = u_name and rows = "users db" and p = "\<lambda>r. u_name r = identifier" and k = "identifier"]
      filter_keyed [where pk = u_email and rows = "users db" and p = "\<lambda>r. u_email r = identifier" and k = "identifier"] ok
    by (auto simp: users_ok_def split: option.splits)
  moreover have "length (filter (\<lambda>r. u_name r = identifier \<or> u_email r = identifier) rs) \<le>
      length (filter (\<lambda>r. u_name r = identifier) rs) + length (filter (\<lambda>r. u_email r = identifier) rs)" for rs :: "UserRecord list"
    by (induction rs) auto
  from this [of "users db"] calculation show ?thesis by (simp add: taken_by_def)
qed

lemma identifier_not_unique:
  "case create_user 1 ''eve@x'' ''eve@y'' ''h1'' STUDENT [] True 0 \<lparr>users = []\<rparr> of
     Inl _ \<Rightarrow> False
   | Inr (_, d) \<Rightarrow>
       (case create_user 2 ''bob'' ''eve@x'' ''h2'' STUDENT [] True 1 d of
          Inl _ \<Rightarrow> False
        | Inr (_, d) \<Rightarrow> taken_by ''eve@x'' d = [1, 2] \<and> map_option cr_hash (find_by_identifier ''eve@x'' d) = Some ''h1'')"
  by (simp add: create_user_def sql_insert_def user_clash_def taken_by_def find_by_identifier_def to_credential_def Let_def)

end
