(* ===== verification/Group_Repository.thy ===== *)
theory Group_Repository
  imports User_Repository Guarded_Store
begin

text \<open>
  Groups, their rosters and the requests to join (\<open>app/group/model.py\<close>, \<open>app/group/repository.py\<close>). The alphabet index of each
  character of an invite code is the argument of \<open>new_invite_code\<close> (\<open>secrets.choice\<close>); \<open>coll\<close> is the collation the database orders
  names by. A transaction that raises leaves the tables as they were.
\<close>

section \<open>Rows and values\<close>

datatype JoinRequestStatus = JR_PENDING | JR_APPROVED | JR_REJECTED

definition INVITE_CODE_LENGTH :: nat where "INVITE_CODE_LENGTH = 8"
definition INVITE_CODE_ALPHABET :: string where "INVITE_CODE_ALPHABET = ''ABCDEFGHJKLMNPQRSTUVWXYZ23456789''"

definition new_invite_code :: "(nat \<Rightarrow> nat) \<Rightarrow> string" where
  "new_invite_code choice = map (\<lambda>i. INVITE_CODE_ALPHABET ! (choice i mod length INVITE_CODE_ALPHABET)) [0..<INVITE_CODE_LENGTH]"

record GroupRecord =
  g_pk :: uuid
  g_name :: string
  g_owner :: uuid
  g_code :: string
  g_created :: datetime

record JoinRequestRecord =
  j_pk :: uuid
  j_group :: uuid
  j_user :: uuid
  j_status :: JoinRequestStatus
  j_created :: datetime
  j_decided :: "datetime option"

record GroupDb = UserDb +
  groups :: "GroupRecord list"
  members :: "(uuid \<times> uuid) list"
  join_requests :: "JoinRequestRecord list"

record Group =
  gr_id :: string
  gr_name :: string
  gr_owner_id :: string
  gr_code :: string

record GroupSummary =
  gs_id :: string
  gs_name :: string
  gs_owner_name :: string
  gs_count :: nat

record GroupMember =
  gm_user_id :: string
  gm_name :: string
  gm_role :: UserRole

record JoinRequest =
  jr_id :: string
  jr_group_id :: string
  jr_user_id :: string
  jr_status :: JoinRequestStatus
  jr_created_at :: datetime

record JoinRequestDetail =
  jd_id :: string
  jd_group_id :: string
  jd_group_name :: string
  jd_user_id :: string
  jd_user_name :: string
  jd_status :: JoinRequestStatus
  jd_created_at :: datetime

definition to_group :: "GroupRecord \<Rightarrow> Group" where
  "to_group r = \<lparr>gr_id = uuid_hex (g_pk r), gr_name = g_name r, gr_owner_id = uuid_hex (g_owner r), gr_code = g_code r\<rparr>"

definition to_request :: "JoinRequestRecord \<Rightarrow> JoinRequest" where
  "to_request r = \<lparr>jr_id = uuid_hex (j_pk r), jr_group_id = uuid_hex (j_group r), jr_user_id = uuid_hex (j_user r),
     jr_status = j_status r, jr_created_at = j_created r\<rparr>"

section \<open>Groups and rosters\<close>

definition group_clash :: "GroupRecord \<Rightarrow> GroupRecord \<Rightarrow> bool" where
  "group_clash r x \<longleftrightarrow> g_pk x = g_pk r \<or> g_name x = g_name r \<or> g_code x = g_code r"

definition group_row :: "'a GroupDb_scheme \<Rightarrow> uuid \<Rightarrow> GroupRecord option" where
  "group_row db g = find (\<lambda>r. g_pk r = g) (groups db)"

text \<open>A row of \<open>user_groups\<close> refers to a user and to a group that exist.\<close>

definition member_refs :: "uuid \<Rightarrow> uuid \<Rightarrow> 'a GroupDb_scheme \<Rightarrow> bool" where
  "member_refs u g db \<longleftrightarrow> user_row db u \<noteq> None \<and> group_row db g \<noteq> None"

definition create_group ::
    "uuid \<Rightarrow> string \<Rightarrow> string \<Rightarrow> string \<Rightarrow> datetime \<Rightarrow> 'a GroupDb_scheme \<Rightarrow> (Group \<times> 'a GroupDb_scheme) result" where
  "create_group new_id code name owner_id now db =
     (case UUID owner_id of
        None \<Rightarrow> Inl ValueError
      | Some owner \<Rightarrow>
          let r = \<lparr>g_pk = new_id, g_name = name, g_owner = owner, g_code = code, g_created = now\<rparr> in
          if user_row db owner = None then Inl IntegrityError
          else result_bind (sql_insert group_clash r (groups db)) (\<lambda>rows.
                 result_bind (sql_insert (=) (owner, new_id) (members db)) (\<lambda>ms.
                   Inr (to_group r, db\<lparr>groups := rows, members := ms\<rparr>))))"

definition get_group :: "string \<Rightarrow> 'a GroupDb_scheme \<Rightarrow> Group option" where
  "get_group group_id db = Option.bind (UUID group_id) (\<lambda>g. map_option to_group (group_row db g))"

definition find_by_invite_code :: "string \<Rightarrow> 'a GroupDb_scheme \<Rightarrow> Group option" where
  "find_by_invite_code code db = map_option to_group (find (\<lambda>r. g_code r = code) (groups db))"

definition is_member :: "string \<Rightarrow> string \<Rightarrow> 'a GroupDb_scheme \<Rightarrow> bool" where
  "is_member group_id user_id db =
     (case (UUID group_id, UUID user_id) of (Some g, Some u) \<Rightarrow> (u, g) \<in> set (members db) | _ \<Rightarrow> False)"

text \<open>\<open>INSERT ... ON CONFLICT DO NOTHING RETURNING\<close>: a conflict returns no row; a broken reference raises.\<close>

definition insert_member :: "uuid \<Rightarrow> uuid \<Rightarrow> 'a GroupDb_scheme \<Rightarrow> (bool \<times> 'a GroupDb_scheme) result" where
  "insert_member u g db =
     (if (u, g) \<in> set (members db) then Inr (False, db)
      else if \<not> member_refs u g db then Inl IntegrityError
      else Inr (True, db\<lparr>members := members db @ [(u, g)]\<rparr>))"

definition add_member :: "string \<Rightarrow> string \<Rightarrow> 'a GroupDb_scheme \<Rightarrow> (bool \<times> 'a GroupDb_scheme) result" where
  "add_member group_id user_id db =
     (case (UUID group_id, UUID user_id) of (Some g, Some u) \<Rightarrow> insert_member u g db | _ \<Rightarrow> Inr (False, db))"

definition remove_member :: "string \<Rightarrow> string \<Rightarrow> 'a GroupDb_scheme \<Rightarrow> 'a GroupDb_scheme" where
  "remove_member group_id user_id db =
     (case (UUID group_id, UUID user_id) of
        (Some g, Some u) \<Rightarrow> db\<lparr>members := filter (\<lambda>m. m \<noteq> (u, g)) (members db)\<rparr>
      | _ \<Rightarrow> db)"

definition list_member :: "(string \<Rightarrow> 'k::linorder) \<Rightarrow> string \<Rightarrow> 'a GroupDb_scheme \<Rightarrow> GroupMember list" where
  "list_member coll group_id db =
     (case UUID group_id of
        None \<Rightarrow> []
      | Some g \<Rightarrow> map (\<lambda>r. \<lparr>gm_user_id = uuid_hex (u_pk r), gm_name = u_name r, gm_role = u_role r\<rparr>)
          (sort_key (\<lambda>r. coll (u_name r)) (filter (\<lambda>r. (u_pk r, g) \<in> set (members db)) (users db))))"

definition list_groups :: "(string \<Rightarrow> 'k::linorder) \<Rightarrow> 'a GroupDb_scheme \<Rightarrow> GroupSummary list" where
  "list_groups coll db =
     List.map_filter (\<lambda>r. map_option
         (\<lambda>o'. \<lparr>gs_id = uuid_hex (g_pk r), gs_name = g_name r, gs_owner_name = u_name o',
                gs_count = length (filter (\<lambda>m. snd m = g_pk r) (members db))\<rparr>)
         (user_row db (g_owner r)))
       (sort_key (\<lambda>r. coll (g_name r)) (groups db))"

definition groups_of_user :: "(string \<Rightarrow> 'k::linorder) \<Rightarrow> string \<Rightarrow> 'a GroupDb_scheme \<Rightarrow> Group list" where
  "groups_of_user coll user_id db =
     (case UUID user_id of
        None \<Rightarrow> []
      | Some u \<Rightarrow> map to_group
          (sort_key (\<lambda>r. coll (g_name r)) (filter (\<lambda>r. (u, g_pk r) \<in> set (members db)) (groups db))))"

section \<open>Requests to join\<close>

text \<open>The primary key, and the unique index over the pending rows of one user and group.\<close>

definition request_clash :: "JoinRequestRecord \<Rightarrow> JoinRequestRecord \<Rightarrow> bool" where
  "request_clash r x \<longleftrightarrow> j_pk x = j_pk r \<or>
     (j_status x = JR_PENDING \<and> j_status r = JR_PENDING \<and> j_group x = j_group r \<and> j_user x = j_user r)"

text \<open>Any \<open>IntegrityError\<close> of the commit is answered with \<open>None\<close>.\<close>

definition create_request ::
    "uuid \<Rightarrow> string \<Rightarrow> string \<Rightarrow> datetime \<Rightarrow> 'a GroupDb_scheme \<Rightarrow> JoinRequest option \<times> 'a GroupDb_scheme" where
  "create_request new_id group_id user_id now db =
     (case (UUID group_id, UUID user_id) of
        (Some g, Some u) \<Rightarrow>
          (let r = \<lparr>j_pk = new_id, j_group = g, j_user = u, j_status = JR_PENDING, j_created = now, j_decided = None\<rparr> in
           if \<not> member_refs u g db then (None, db)
           else case sql_insert request_clash r (join_requests db) of
                  Inl _ \<Rightarrow> (None, db)
                | Inr rows \<Rightarrow> (Some (to_request r), db\<lparr>join_requests := rows\<rparr>))
      | _ \<Rightarrow> (None, db))"

definition request_row :: "'a GroupDb_scheme \<Rightarrow> uuid \<Rightarrow> JoinRequestRecord option" where
  "request_row db i = find (\<lambda>r. j_pk r = i) (join_requests db)"

definition get_request :: "string \<Rightarrow> 'a GroupDb_scheme \<Rightarrow> JoinRequest option" where
  "get_request request_id db = Option.bind (UUID request_id) (\<lambda>i. map_option to_request (request_row db i))"

text \<open>\<open>decide\<close>: the conditional update, and for an approval the insert of the member, in one transaction.\<close>

definition decided_row :: "bool \<Rightarrow> datetime \<Rightarrow> JoinRequestRecord \<Rightarrow> JoinRequestRecord" where
  "decided_row approved now r = r\<lparr>j_status := if approved then JR_APPROVED else JR_REJECTED, j_decided := Some now\<rparr>"

definition decide_request ::
    "string \<Rightarrow> bool \<Rightarrow> datetime \<Rightarrow> 'a GroupDb_scheme \<Rightarrow> (bool \<times> 'a GroupDb_scheme) result" where
  "decide_request request_id approved now db =
     (case UUID request_id of
        None \<Rightarrow> Inr (False, db)
      | Some i \<Rightarrow>
          (case sql_update_returning (\<lambda>r. j_pk r = i \<and> j_status r = JR_PENDING) (decided_row approved now) (join_requests db) of
             (_, []) \<Rightarrow> Inr (False, db)
           | (rows, r # _) \<Rightarrow>
               let db' = db\<lparr>join_requests := rows\<rparr> in
               if approved then result_bind (insert_member (j_user r) (j_group r) db') (\<lambda>x. Inr (True, snd x))
               else Inr (True, db')))"

text \<open>Requests with the names of both sides; a row whose group or user is missing drops out of the join.\<close>

definition request_detail :: "'a GroupDb_scheme \<Rightarrow> JoinRequestRecord \<Rightarrow> JoinRequestDetail option" where
  "request_detail db r =
     (case (group_row db (j_group r), user_row db (j_user r)) of
        (Some g, Some u) \<Rightarrow> Some \<lparr>jd_id = uuid_hex (j_pk r), jd_group_id = uuid_hex (j_group r), jd_group_name = g_name g,
          jd_user_id = uuid_hex (j_user r), jd_user_name = u_name u, jd_status = j_status r, jd_created_at = j_created r\<rparr>
      | _ \<Rightarrow> None)"

definition list_pending_requests :: "string \<Rightarrow> 'a GroupDb_scheme \<Rightarrow> JoinRequestDetail list" where
  "list_pending_requests group_id db =
     (case UUID group_id of
        None \<Rightarrow> []
      | Some g \<Rightarrow> List.map_filter (request_detail db)
          (sort_key j_created (filter (\<lambda>r. j_group r = g \<and> j_status r = JR_PENDING) (join_requests db))))"

definition requests_of_user :: "string \<Rightarrow> 'a GroupDb_scheme \<Rightarrow> JoinRequestDetail list" where
  "requests_of_user user_id db =
     (case UUID user_id of
        None \<Rightarrow> []
      | Some u \<Rightarrow> List.map_filter (request_detail db)
          (sort_key (\<lambda>r. - j_created r) (filter (\<lambda>r. j_user r = u) (join_requests db))))"

section \<open>The tables stay consistent\<close>

definition groups_ok :: "'a GroupDb_scheme \<Rightarrow> bool" where
  "groups_ok db \<longleftrightarrow> users_ok db \<and> distinct (map g_pk (groups db)) \<and> distinct (map g_name (groups db)) \<and>
     distinct (map g_code (groups db)) \<and> (\<forall>r\<in>set (groups db). g_pk r < 2 ^ 128 \<and> user_row db (g_owner r) \<noteq> None) \<and>
     distinct (members db) \<and> (\<forall>(u, g)\<in>set (members db). member_refs u g db) \<and>
     distinct (map j_pk (join_requests db)) \<and>
     (\<forall>r\<in>set (join_requests db). j_pk r < 2 ^ 128 \<and> member_refs (j_user r) (j_group r) db) \<and>
     (\<forall>r\<in>set (join_requests db). \<forall>x\<in>set (join_requests db).
        j_status r = JR_PENDING \<longrightarrow> j_status x = JR_PENDING \<longrightarrow> j_group x = j_group r \<longrightarrow> j_user x = j_user r \<longrightarrow> x = r)"

lemma insert_member_Inr:
  "insert_member u g db = Inr (b, db') \<longleftrightarrow>
     (if (u, g) \<in> set (members db) then \<not> b \<and> db' = db
      else b \<and> member_refs u g db \<and> db' = db\<lparr>members := members db @ [(u, g)]\<rparr>)"
  by (auto simp: insert_member_def)

lemma refs_simps [simp]:
  "user_row (db\<lparr>members := ms\<rparr>) u = user_row db u" "group_row (db\<lparr>members := ms\<rparr>) g = group_row db g"
  "user_row (db\<lparr>join_requests := js\<rparr>) u = user_row db u" "group_row (db\<lparr>join_requests := js\<rparr>) g = group_row db g"
  "user_row (db\<lparr>groups := gs\<rparr>) u = user_row db u" "users_ok (db\<lparr>groups := gs\<rparr>) = users_ok db"
  "group_row (db\<lparr>users := us\<rparr>) g = group_row db g"
  "member_refs u g (db\<lparr>members := ms\<rparr>) = member_refs u g db" "users_ok (db\<lparr>members := ms\<rparr>) = users_ok db"
  "member_refs u g (db\<lparr>join_requests := js\<rparr>) = member_refs u g db" "users_ok (db\<lparr>join_requests := js\<rparr>) = users_ok db"
  by (auto simp: user_row_def group_row_def users_ok_def member_refs_def)

lemma groups_ok_members:
  assumes "groups_ok db" "distinct ms" "\<And>u g. (u, g) \<in> set ms \<Longrightarrow> member_refs u g db"
  shows "groups_ok (db\<lparr>members := ms\<rparr>)"
  using assms unfolding groups_ok_def by (simp add: split_beta)

lemma insert_member_ok: "insert_member u g db = Inr (b, db') \<Longrightarrow> groups_ok db \<Longrightarrow> groups_ok db'"
  by (auto simp: insert_member_Inr groups_ok_def split: if_splits intro!: groups_ok_members)

lemma create_group_Inr:
  assumes "create_group i c n oid now db = Inr (x, db')"
  obtains r where "UUID oid = Some (g_owner r)" "g_pk r = i" "g_code r = c" "x = to_group r" "user_row db (g_owner r) \<noteq> None"
    "\<forall>y\<in>set (groups db). \<not> group_clash r y" "(g_owner r, i) \<notin> set (members db)"
    "db' = db\<lparr>groups := groups db @ [r], members := members db @ [(g_owner r, i)]\<rparr>"
proof -
  from assms obtain owner where o: "UUID oid = Some owner" by (auto simp: create_group_def split: option.splits)
  define r where "r = \<lparr>g_pk = i, g_name = n, g_owner = owner, g_code = c, g_created = now\<rparr>"
  from assms o show ?thesis
    by (intro that [of r]) (auto simp: create_group_def result_bind_Inr_iff sql_insert_Inr Let_def r_def split: if_splits)
qed

lemma create_group_ok:
  assumes "create_group i c n oid now db = Inr (x, db')" "i < 2 ^ 128" "groups_ok db"
  shows "groups_ok db'"
  using assms(1)
proof (rule create_group_Inr)
  fix r
  assume r: "g_pk r = i" "user_row db (g_owner r) \<noteq> None" "\<forall>y\<in>set (groups db). \<not> group_clash r y" "(g_owner r, i) \<notin> set (members db)"
    "db' = db\<lparr>groups := groups db @ [r], members := members db @ [(g_owner r, i)]\<rparr>"
  have row: "group_row db' h \<noteq> None" if "group_row db h \<noteq> None" for h
    using that by (auto simp: r(5) group_row_def find_append split: option.splits)
  have "group_row db' i \<noteq> None" using r(1) by (auto simp: r(5) group_row_def find_append split: option.splits)
  moreover have "user_row db' v = user_row db v" "users_ok db' = users_ok db" for v
    by (simp_all add: r(5) user_row_def users_ok_def)
  ultimately show ?thesis
    using assms(2,3) r row unfolding groups_ok_def member_refs_def
    by (auto simp: group_clash_def split_beta)
qed

lemma add_member_ok: "add_member g u db = Inr (b, db') \<Longrightarrow> groups_ok db \<Longrightarrow> groups_ok db'"
  by (auto simp: add_member_def split: option.splits dest: insert_member_ok)

lemma remove_member_ok: "groups_ok db \<Longrightarrow> groups_ok (remove_member g u db)"
  by (auto simp: remove_member_def groups_ok_def split: option.splits intro!: groups_ok_members)

section \<open>A request is decided once\<close>

text \<open>Each call of the request repository: whether it took effect, and the tables afterwards. A call that raises takes no effect.\<close>

datatype request_op = ReqCreate uuid string string datetime | ReqDecide string bool datetime

fun request_step :: "request_op \<Rightarrow> 'a GroupDb_scheme \<Rightarrow> bool \<times> 'a GroupDb_scheme" where
  "request_step (ReqCreate i g u now) db = (case create_request i g u now db of (r, db') \<Rightarrow> (r \<noteq> None, db'))"
| "request_step (ReqDecide i a now) db = (case decide_request i a now db of Inl _ \<Rightarrow> (False, db) | Inr r \<Rightarrow> r)"

fun request_key :: "request_op \<Rightarrow> uuid option" where
  "request_key (ReqCreate i _ _ _) = Some i"
| "request_key (ReqDecide i _ _) = UUID i"

fun request_target :: "request_op \<Rightarrow> JoinRequestStatus" where
  "request_target (ReqCreate _ _ _ _) = JR_PENDING"
| "request_target (ReqDecide _ a _) = (if a then JR_APPROVED else JR_REJECTED)"

definition request_status :: "'a GroupDb_scheme \<Rightarrow> uuid \<Rightarrow> JoinRequestStatus option" where
  "request_status db i = map_option j_status (request_row db i)"

lemma decide_request_cases:
  assumes "decide_request i a now db = Inr (b, db')" "distinct (map j_pk (join_requests db))"
  obtains "\<not> b" "db' = db" "\<And>u r. UUID i = Some u \<Longrightarrow> request_row db u = Some r \<Longrightarrow> j_status r \<noteq> JR_PENDING"
  | u r where "b" "UUID i = Some u" "request_row db u = Some r" "j_status r = JR_PENDING"
      "join_requests db' = map (\<lambda>x. if j_pk x = u \<and> j_status x = JR_PENDING then decided_row a now x else x) (join_requests db)"
      "set (members db') = (if a then insert (j_user r, j_group r) (set (members db)) else set (members db))"
      "users db' = users db" "groups db' = groups db"
proof (cases "UUID i")
  case None
  with assms(1) show ?thesis by (intro that(1)) (auto simp: decide_request_def)
next
  case (Some u)
  obtain rows res where s: "sql_update_returning (\<lambda>r. j_pk r = u \<and> j_status r = JR_PENDING) (decided_row a now) (join_requests db) = (rows, res)"
    by fastforce
  note res = sql_update_returning_single [OF assms(2) _ s, of u, simplified]
  note row = find_guarded [OF assms(2), of u "\<lambda>r. j_status r = JR_PENDING"]
  show ?thesis
  proof (cases "find (\<lambda>r. j_pk r = u \<and> j_status r = JR_PENDING) (join_requests db)")
    case None
    with assms(1) Some s res row show ?thesis
      by (intro that(1)) (auto simp: decide_request_def request_row_def split: option.splits)
  next
    case (Some r)
    with row have r: "request_row db u = Some r" "j_status r = JR_PENDING"
      by (auto simp: request_row_def split: option.splits if_splits)
    from assms(1) s res Some \<open>UUID i = Some u\<close> have "b \<and>
        join_requests db' = rows \<and> users db' = users db \<and> groups db' = groups db \<and>
        set (members db') = (if a then insert (j_user r, j_group r) (set (members db)) else set (members db))"
      by (auto simp: decide_request_def decided_row_def result_bind_Inr_iff insert_member_Inr Let_def split: if_splits)
    with r res(2) show ?thesis by (intro that(2) [OF _ \<open>UUID i = Some u\<close> r]) auto
  qed
qed

lemma create_request_cases:
  assumes "create_request i g u now db = (r, db')"
  obtains "r = None" "db' = db"
  | x where "r = Some (to_request x)" "db' = db\<lparr>join_requests := join_requests db @ [x]\<rparr>" "j_pk x = i" "UUID g = Some (j_group x)"
      "UUID u = Some (j_user x)" "j_status x = JR_PENDING" "member_refs (j_user x) (j_group x) db"
      "\<forall>y\<in>set (join_requests db). \<not> request_clash x y"
proof (cases "UUID g")
  case None
  with assms show ?thesis by (intro that(1)) (auto simp: create_request_def)
next
  case g: (Some gid)
  show ?thesis
  proof (cases "UUID u")
    case None
    with assms g show ?thesis by (intro that(1)) (auto simp: create_request_def)
  next
    case u: (Some uid)
    define x where "x = \<lparr>j_pk = i, j_group = gid, j_user = uid, j_status = JR_PENDING, j_created = now, j_decided = None\<rparr>"
    have x: "j_pk x = i" "j_group x = gid" "j_user x = uid" "j_status x = JR_PENDING" by (simp_all add: x_def)
    have r: "(r, db') = (if \<not> member_refs uid gid db then (None, db)
        else case sql_insert request_clash x (join_requests db) of Inl _ \<Rightarrow> (None, db)
          | Inr rows \<Rightarrow> (Some (to_request x), db\<lparr>join_requests := rows\<rparr>))"
      using assms g u by (simp add: create_request_def x_def [symmetric])
    show ?thesis
    proof (cases "r = None")
      case True
      with r show ?thesis by (intro that(1)) (auto split: if_splits sum.splits)
    next
      case False
      with r x g u show ?thesis
        by (intro that(2) [of x]) (auto simp: sql_insert_Inr split: if_splits sum.splits)
    qed
  qed
qed

lemma request_clash_pk: "\<forall>y\<in>set rows. \<not> request_clash x y \<Longrightarrow> j_pk x \<notin> j_pk ` set rows"
  by (auto simp: request_clash_def)

lemma create_request_ok: "create_request i g u now db = (r, db') \<Longrightarrow> i < 2 ^ 128 \<Longrightarrow> groups_ok db \<Longrightarrow> groups_ok db'"
  by (erule create_request_cases) (auto simp: groups_ok_def request_clash_def)

lemma request_row_pk: "request_row db i = Some r \<Longrightarrow> j_pk r = i \<and> r \<in> set (join_requests db)"
  unfolding request_row_def by (auto dest: find_in)

lemma decided_row_simps [simp]:
  "j_pk (decided_row a now r) = j_pk r" "j_group (decided_row a now r) = j_group r" "j_user (decided_row a now r) = j_user r"
  "j_status (decided_row a now r) = (if a then JR_APPROVED else JR_REJECTED)"
  by (simp_all add: decided_row_def)

lemma decide_request_ok:
  assumes "decide_request i a now db = Inr (b, db')" "groups_ok db"
  shows "groups_ok db'"
proof -
  from assms(2) have d: "distinct (map j_pk (join_requests db))" by (simp add: groups_ok_def)
  from assms(1) d show ?thesis
  proof (cases rule: decide_request_cases)
    case 1
    with assms(2) show ?thesis by simp
  next
    case (2 u r)
    have more: "distinct (members db')"
      using assms by (auto simp: decide_request_def groups_ok_def result_bind_Inr_iff insert_member_Inr Let_def
          split: option.splits list.splits prod.splits if_splits)
    have refs: "member_refs v g db' = member_refs v g db" "user_row db' v = user_row db v" "users_ok db' = users_ok db" for v g
      using 2 by (simp_all add: member_refs_def user_row_def group_row_def users_ok_def)
    have "member_refs (j_user r) (j_group r) db"
      using request_row_pk [OF 2(3)] assms(2) by (auto simp: groups_ok_def)
    with assms(2) more refs map_pk_update [of j_pk "decided_row a now"] 2 show ?thesis
      by (auto simp: groups_ok_def simp del: map_map split: if_splits)
  qed
qed

interpretation request_store: guarded_writes request_step request_status request_key request_target "\<lambda>v. v \<noteq> JR_PENDING"
  "\<lambda>db :: 'a GroupDb_scheme. distinct (map j_pk (join_requests db))"
proof
  fix db db' :: "'a GroupDb_scheme" and x b
  assume d: "distinct (map j_pk (join_requests db))" and s: "request_step x db = (b, db')"
  show "distinct (map j_pk (join_requests db'))"
  proof (cases x)
    case (ReqCreate i g u now)
    with s d show ?thesis
      by (cases "create_request i g u now db") (auto elim!: create_request_cases dest: request_clash_pk)
  next
    case (ReqDecide i a now)
    show ?thesis
    proof (cases "decide_request i a now db")
      case (Inr y)
      with s ReqDecide have "decide_request i a now db = Inr (b, db')" by simp
      from this d show ?thesis
        using map_pk_update [of j_pk "decided_row a now"] d
        by (cases rule: decide_request_cases) (simp_all del: map_map)
    qed (use s d ReqDecide in simp)
  qed
next
  have step: "case request_status db k of None \<Rightarrow> True
    | Some v \<Rightarrow> if b \<and> request_key x = Some k \<and> request_target x \<noteq> JR_PENDING
        then v = JR_PENDING \<and> request_status db' k = Some (request_target x) else request_status db' k = Some v"
    if d: "distinct (map j_pk (join_requests db))" and s: "request_step x db = (b, db')"
    for db db' :: "'a GroupDb_scheme" and x b k
  proof (cases x)
    case (ReqCreate i g u now)
    then show ?thesis
      using s by (cases "create_request i g u now db")
        (auto elim!: create_request_cases simp: request_status_def request_row_def find_append split: option.splits)
  next
    case (ReqDecide i a now)
    show ?thesis
    proof (cases "decide_request i a now db")
      case (Inr y)
      with s ReqDecide have "decide_request i a now db = Inr (b, db')" by simp
      from this d show ?thesis
      proof (cases rule: decide_request_cases)
        case 1
        with ReqDecide show ?thesis by (auto split: option.splits)
      next
        case (2 u r)
        have "request_row db' k = map_option (\<lambda>x. if k = u \<and> j_status x = JR_PENDING then decided_row a now x else x) (request_row db k)"
          unfolding request_row_def 2(5) by (rule find_map_update) simp
        with 2 ReqDecide show ?thesis by (auto simp: request_status_def split: option.splits)
      qed
    qed (use s ReqDecide in \<open>auto split: option.splits\<close>)
  qed
  fix db db' :: "'a GroupDb_scheme" and x b k v
  assume d: "distinct (map j_pk (join_requests db))" and s: "request_step x db = (b, db')"
    and v: "request_status db k = Some v"
  from step [OF d s, of k] v
  show "v \<noteq> JR_PENDING \<Longrightarrow> request_status db' k = Some v \<and> \<not> (b \<and> request_key x = Some k \<and> request_target x \<noteq> JR_PENDING)"
    and "\<not> v \<noteq> JR_PENDING \<Longrightarrow> if b \<and> request_key x = Some k \<and> request_target x \<noteq> JR_PENDING then request_status db' k = Some (request_target x)
      else \<exists>v'. request_status db' k = Some v' \<and> \<not> v' \<noteq> JR_PENDING"
    by (auto split: if_splits)
qed

text \<open>What one call does to a request that is in the table: its group and user stay, and an approval puts the user on the roster.\<close>

lemma request_step_row:
  assumes "request_step x db = (b, db')" "distinct (map j_pk (join_requests db))" "request_row db i = Some r"
  shows "\<exists>r'. request_row db' i = Some r' \<and> j_group r' = j_group r \<and> j_user r' = j_user r \<and> set (members db) \<subseteq> set (members db') \<and>
    (j_status r' = JR_APPROVED \<longrightarrow> j_status r = JR_APPROVED \<or> (j_user r, j_group r) \<in> set (members db'))"
proof (cases x)
  case (ReqCreate j g u now)
  then show ?thesis
    using assms by (cases "create_request j g u now db") (auto elim!: create_request_cases simp: request_row_def find_append)
next
  case (ReqDecide j a now)
  show ?thesis
  proof (cases "decide_request j a now db")
    case (Inr y)
    with assms(1) ReqDecide have "decide_request j a now db = Inr (b, db')" by simp
    from this assms(2) show ?thesis
    proof (cases rule: decide_request_cases)
      case (2 u q)
      have "request_row db' i = map_option (\<lambda>x. if i = u \<and> j_status x = JR_PENDING then decided_row a now x else x) (request_row db i)"
        unfolding request_row_def 2(5) by (rule find_map_update) simp
      with 2 assms(3) show ?thesis by auto
    qed (use assms(3) in auto)
  qed (use assms ReqDecide in auto)
qed

lemma request_exec_row:
  assumes "exec_ops request_step ops db = (bs, db')" "distinct (map j_pk (join_requests db))" "request_row db i = Some r"
    and "j_status r \<noteq> JR_APPROVED \<or> (j_user r, j_group r) \<in> set (members db)"
  shows "\<exists>r'. request_row db' i = Some r' \<and> j_group r' = j_group r \<and> j_user r' = j_user r \<and>
    (j_status r' = JR_APPROVED \<longrightarrow> (j_user r, j_group r) \<in> set (members db'))"
  using assms
proof (induction ops arbitrary: db r bs)
  case (Cons x ops)
  obtain b db1 where 1: "request_step x db = (b, db1)" by fastforce
  from Cons.prems(1) 1 obtain bs' where 2: "exec_ops request_step ops db1 = (bs', db')" by (auto split: prod.splits)
  from request_step_row [OF 1 Cons.prems(2,3)] obtain r1 where r1: "request_row db1 i = Some r1" "j_group r1 = j_group r"
      "j_user r1 = j_user r" "set (members db) \<subseteq> set (members db1)"
      "j_status r1 = JR_APPROVED \<longrightarrow> j_status r = JR_APPROVED \<or> (j_user r, j_group r) \<in> set (members db1)" by blast
  have "j_status r1 \<noteq> JR_APPROVED \<or> (j_user r1, j_group r1) \<in> set (members db1)" using r1 Cons.prems(4) by auto
  from Cons.IH [OF 2 request_store.wf_step [OF Cons.prems(2) 1] r1(1) this] r1 show ?case by simp
qed auto

text \<open>A pending request to join is decided at most once, however the creations and decisions of concurrent requests interleave: if
  it is still pending nobody's decision took effect, otherwise exactly one did and the request ends in the state that decision names;
  and a request that ends approved has its user on the roster of its group.\<close>

theorem one_decision:
  assumes "groups_ok db" "request_row db i = Some r" "j_status r = JR_PENDING" "exec_ops request_step ops db = (bs, db')"
  shows "\<exists>r'. request_row db' i = Some r' \<and> j_group r' = j_group r \<and> j_user r' = j_user r \<and>
    (j_status r' = JR_APPROVED \<longrightarrow> (j_user r, j_group r) \<in> set (members db')) \<and>
    map request_target (winners request_key request_target (\<lambda>v. v \<noteq> JR_PENDING) i ops bs) =
      (if j_status r' = JR_PENDING then [] else [j_status r'])"
proof -
  have d: "distinct (map j_pk (join_requests db))" using assms(1) by (simp add: groups_ok_def)
  obtain r' where r': "request_row db' i = Some r'" "j_group r' = j_group r" "j_user r' = j_user r"
      "j_status r' = JR_APPROVED \<longrightarrow> (j_user r, j_group r) \<in> set (members db')"
    using request_exec_row [OF assms(4) d assms(2)] assms(3) by auto
  have "request_status db i = Some JR_PENDING" using assms(2,3) by (simp add: request_status_def)
  from request_store.one_winner [OF d this _ assms(4)] r' show ?thesis by (auto simp: request_status_def)
qed

definition example_groups :: GroupDb where
  "example_groups = \<lparr>users = map (\<lambda>i. \<lparr>u_pk = i, u_name = dec_string i, u_email = dec_string i, u_dept = [], u_hash = [], u_role = TEACHER,
      u_quota_tokens = None, u_quota_runs = None, u_active = True, u_created = 0\<rparr>) [1, 2],
     groups = [\<lparr>g_pk = 3, g_name = ''g'', g_owner = 1, g_code = ''c'', g_created = 0\<rparr>], members = [(1, 3)],
     join_requests = [\<lparr>j_pk = 4, j_group = 3, j_user = 2, j_status = JR_PENDING, j_created = 0, j_decided = None\<rparr>]\<rparr>"

lemma dec_string_inj [simp]: "dec_string a = dec_string b \<longleftrightarrow> a = b"
  by (metis dec_nat_dec_string)

lemma example_groups_ok: "groups_ok example_groups"
  by (simp add: groups_ok_def users_ok_def example_groups_def user_row_def group_row_def member_refs_def)

lemma one_decision_witness:
  "case exec_ops request_step [ReqDecide (uuid_hex 4) False 1, ReqDecide (uuid_hex 4) True 2] example_groups of
     (bs, db) \<Rightarrow> winners request_key request_target (\<lambda>v. v \<noteq> JR_PENDING) 4
        [ReqDecide (uuid_hex 4) False 1, ReqDecide (uuid_hex 4) True 2] bs = [ReqDecide (uuid_hex 4) False 1] \<and>
      map_option j_status (request_row db 4) = Some JR_REJECTED"
  using one_decision [OF example_groups_ok, of 4 _ "[ReqDecide (uuid_hex 4) False 1, ReqDecide (uuid_hex 4) True 2]"]
  by (simp add: example_groups_def request_row_def decide_request_def sql_update_returning_def decided_row_def winners_def)

end
