(* ===== verification/Rate_Limit.thy ===== *)
theory Rate_Limit
  imports Prelude
begin

text \<open>
  The sliding-window rate limiter (\<open>app/quota/rate.py\<close>). Redis keeps one sorted set per key: its members with their scores, and the
  time the key expires. A call is two pipelines, each atomic: \<open>rate_count\<close> trims and counts, \<open>rate_record\<close> adds the hit and renews the
  expiry. Times are integers in one unit, read from one clock; the member of a hit is the fresh \<open>uuid4\<close> of the call.
\<close>

record RateSet =
  hits :: "(uuid \<times> int) list"
  rate_expires :: int

type_synonym RateStore = "string \<Rightarrow> RateSet option"

definition live_hits :: "int \<Rightarrow> RateSet option \<Rightarrow> (uuid \<times> int) list" where
  "live_hits now e = (case e of None \<Rightarrow> [] | Some s \<Rightarrow> if rate_expires s \<le> now then [] else hits s)"

lemma live_hits_Some: "live_hits now (Some e) = (if rate_expires e \<le> now then [] else hits e)"
  by (simp add: live_hits_def)

text \<open>\<open>ZREMRANGEBYSCORE key 0 now-window\<close>, then \<open>ZCARD key\<close>; a set without members is no key.\<close>

definition rate_count :: "int \<Rightarrow> string \<Rightarrow> int \<Rightarrow> RateStore \<Rightarrow> nat \<times> RateStore" where
  "rate_count window target now R =
     (let left = filter (\<lambda>(m, s). \<not> (0 \<le> s \<and> s \<le> now - window)) (live_hits now (R target)) in
      (length left,
       R(target := if left = [] then None else map_option (\<lambda>e. e\<lparr>hits := left\<rparr>) (R target))))"

text \<open>\<open>ZADD key {member: now}\<close>, then \<open>EXPIRE key window\<close>.\<close>

definition rate_record :: "int \<Rightarrow> string \<Rightarrow> uuid \<Rightarrow> int \<Rightarrow> RateStore \<Rightarrow> RateStore" where
  "rate_record window target m now R =
     R(target \<mapsto> \<lparr>hits = (m, now) # filter (\<lambda>h. fst h \<noteq> m) (live_hits now (R target)), rate_expires = now + window\<rparr>)"

definition RATE_KEY_PREFIX :: string where "RATE_KEY_PREFIX = ''zuel:rate:''"

definition rate_allow :: "nat \<Rightarrow> int \<Rightarrow> string \<Rightarrow> uuid \<Rightarrow> int \<Rightarrow> RateStore \<Rightarrow> bool \<times> RateStore" where
  "rate_allow limit window key m now R =
     (let target = RATE_KEY_PREFIX @ key in
      case rate_count window target now R of (current, R) \<Rightarrow>
        if limit \<le> current then (False, R) else (True, rate_record window target m now R))"

section \<open>The reference: a log of what was admitted\<close>

type_synonym rate_call = "string \<times> uuid \<times> int"

fun rate_answers :: "nat \<Rightarrow> int \<Rightarrow> rate_call list \<Rightarrow> RateStore \<Rightarrow> bool list" where
  "rate_answers limit window [] R = []"
| "rate_answers limit window ((k, m, t) # cs) R =
     (case rate_allow limit window k m t R of (b, R') \<Rightarrow> b # rate_answers limit window cs R')"

definition in_window :: "int \<Rightarrow> string \<Rightarrow> int \<Rightarrow> rate_call list \<Rightarrow> rate_call list" where
  "in_window window k now log = filter (\<lambda>(k', m, s). k' = k \<and> now - window < s \<and> s \<le> now) log"

fun window_answers :: "nat \<Rightarrow> int \<Rightarrow> rate_call list \<Rightarrow> rate_call list \<Rightarrow> bool list" where
  "window_answers limit window [] log = []"
| "window_answers limit window ((k, m, t) # cs) log =
     (let b = (length (in_window window k t log) < limit) in
      b # window_answers limit window cs (if b then (k, m, t) # log else log))"

definition admitted :: "rate_call list \<Rightarrow> bool list \<Rightarrow> rate_call list" where
  "admitted cs bs = map fst (filter snd (zip cs bs))"

text \<open>Redis holds the admitted calls of the window, in the order of the log.\<close>

definition tracks :: "int \<Rightarrow> int \<Rightarrow> rate_call list \<Rightarrow> RateStore \<Rightarrow> bool" where
  "tracks window now log R \<longleftrightarrow>
     (\<forall>k t. now \<le> t \<longrightarrow> filter (\<lambda>(m, s). t - window < s) (live_hits t (R (RATE_KEY_PREFIX @ k))) =
        map snd (filter (\<lambda>(k', m, s). k' = k \<and> t - window < s) log)) \<and>
     (\<forall>k e h. R k = Some e \<longrightarrow> h \<in> set (hits e) \<longrightarrow> 0 \<le> snd h) \<and>
     (\<forall>c\<in>set log. snd (snd c) \<le> now)"

lemma tracks_later: "tracks window now log R \<Longrightarrow> now \<le> now' \<Longrightarrow> tracks window now' log R"
  unfolding tracks_def by fastforce

lemma tracks_pos:
  assumes "tracks window now log R" "h \<in> set (live_hits t (R k))"
  shows "0 \<le> snd h"
proof -
  from assms(2) obtain e where "R k = Some e" "h \<in> set (hits e)"
    by (cases "R k") (auto simp: live_hits_def split: if_splits)
  with assms(1) show ?thesis unfolding tracks_def by blast
qed

lemma rate_count_tracks:
  assumes tr: "tracks window now log R" and c: "rate_count window (RATE_KEY_PREFIX @ k) now R = (n, R')"
  shows "n = length (in_window window k now log)" and "tracks window now log R'"
proof -
  let ?t = "RATE_KEY_PREFIX @ k" and ?h = "\<lambda>t. live_hits t (R (RATE_KEY_PREFIX @ k))"
  have pos: "0 \<le> s" if "(m, s) \<in> set (?h now)" for m s
    using tracks_pos [OF tr that] by simp
  define left where "left = filter (\<lambda>(m, s). \<not> (0 \<le> s \<and> s \<le> now - window)) (?h now)"
  have left: "left = filter (\<lambda>(m, s). now - window < s) (?h now)"
    unfolding left_def using pos by (intro filter_cong) auto
  have "left = map snd (filter (\<lambda>(k', m, s). k' = k \<and> now - window < s) log)"
    using tr by (simp add: left tracks_def)
  moreover have "filter (\<lambda>(k', m, s). k' = k \<and> now - window < s) log = in_window window k now log"
    unfolding in_window_def using tr by (intro filter_cong) (auto simp: tracks_def)
  ultimately show "n = length (in_window window k now log)"
    using c by (simp add: rate_count_def left_def Let_def)
  have R': "R' = R(?t := if left = [] then None else map_option (\<lambda>e. e\<lparr>hits := left\<rparr>) (R ?t))"
    using c unfolding rate_count_def left_def [symmetric] Let_def by simp
  have same: "filter (\<lambda>(m, s). t - window < s) (live_hits t (R' ?t)) = filter (\<lambda>(m, s). t - window < s) (?h t)"
    if "now \<le> t" for t
  proof (cases "live_hits t (R ?t) = []")
    case True
    then show ?thesis using that by (auto simp: R' live_hits_def left_def split: option.splits if_splits)
  next
    case False
    then obtain e where e: "R ?t = Some e" "\<not> rate_expires e \<le> t" "?h t = hits e"
      by (auto simp: live_hits_def split: option.splits if_splits)
    with that have "?h now = hits e" by (simp add: live_hits_def)
    then have "filter (\<lambda>(m, s). t - window < s) left = filter (\<lambda>(m, s). t - window < s) (hits e)"
      unfolding left filter_filter using that by (intro filter_cong) auto
    with e show ?thesis by (auto simp: R' live_hits_def)
  qed
  show "tracks window now log R'"
    unfolding tracks_def
  proof (intro conjI allI impI ballI)
    fix k' t assume "now \<le> t"
    with tr same [OF this] show "filter (\<lambda>(m, s). t - window < s) (live_hits t (R' (RATE_KEY_PREFIX @ k'))) =
        map snd (filter (\<lambda>(k'', m, s). k'' = k' \<and> t - window < s) log)"
      by (cases "k' = k") (simp_all add: tracks_def R')
  next
    fix k' e h assume "R' k' = Some e" "h \<in> set (hits e)"
    with tr pos show "0 \<le> snd h"
      by (cases h) (auto simp: tracks_def R' left_def split: if_splits)
  next
    fix c assume "c \<in> set log"
    with tr show "snd (snd c) \<le> now" by (auto simp: tracks_def)
  qed
qed

lemma rate_record_tracks:
  assumes tr: "tracks window now log R" and now: "0 \<le> now" and w: "0 < window" and fresh: "\<forall>k' s. (k', m, s) \<notin> set log"
    and left: "\<forall>h\<in>set (live_hits now (R (RATE_KEY_PREFIX @ k))). now - window < snd h"
  shows "tracks window now ((k, m, now) # log) (rate_record window (RATE_KEY_PREFIX @ k) m now R)"
proof -
  let ?t = "RATE_KEY_PREFIX @ k" and ?R = "rate_record window (RATE_KEY_PREFIX @ k) m now R"
  have log: "filter (\<lambda>(m, s). t - window < s) (live_hits t (R (RATE_KEY_PREFIX @ k'))) =
      map snd (filter (\<lambda>(k'', m, s). k'' = k' \<and> t - window < s) log)" if "now \<le> t" for k' t
    using tr that by (simp add: tracks_def)
  have all: "live_hits now (R ?t) = map snd (filter (\<lambda>(k'', m, s). k'' = k \<and> now - window < s) log)"
    using log [of now k] left by (simp add: filter_id_conv split_def)
  have keep: "filter (\<lambda>h. fst h \<noteq> m) (live_hits now (R ?t)) = live_hits now (R ?t)"
    using fresh by (auto simp: filter_id_conv all)
  show ?thesis
    unfolding tracks_def
  proof (intro conjI allI impI ballI)
    fix k' t assume t: "now \<le> t"
    show "filter (\<lambda>(m, s). t - window < s) (live_hits t (?R (RATE_KEY_PREFIX @ k'))) =
        map snd (filter (\<lambda>(k'', m, s). k'' = k' \<and> t - window < s) ((k, m, now) # log))"
    proof (cases "k' = k")
      case False
      with log [OF t] show ?thesis by (simp add: rate_record_def)
    next
      case True
      have sub: "filter (\<lambda>(m, s). t - window < s) (live_hits now (R ?t)) =
          map snd (filter (\<lambda>(k'', m, s). k'' = k \<and> t - window < s) log)"
        unfolding all filter_map filter_filter using t by (intro arg_cong [where f = "map snd"] filter_cong) auto
      show ?thesis
      proof (cases "now + window \<le> t")
        case False
        then have "live_hits t (?R ?t) = (m, now) # live_hits now (R ?t)"
          by (simp add: rate_record_def keep live_hits_Some)
        with True sub False show ?thesis by (simp del: filter_filter)
      next
        case exp: True
        have "filter (\<lambda>(k'', m, s). k'' = k \<and> t - window < s) log = []"
          using tr exp by (fastforce simp: filter_empty_conv tracks_def)
        with True exp show ?thesis by (simp add: rate_record_def live_hits_def)
      qed
    qed
  next
    fix k' e h assume h: "?R k' = Some e" "h \<in> set (hits e)"
    show "0 \<le> snd h"
    proof (cases "k' = ?t")
      case False
      with h tr show ?thesis by (cases h) (auto simp: rate_record_def tracks_def)
    next
      case True
      have "0 \<le> snd x" if "x \<in> set (live_hits now (R ?t))" for x
        using tracks_pos [OF tr that] .
      with h True now show ?thesis by (cases h) (auto simp: rate_record_def keep)
    qed
  next
    fix c assume "c \<in> set ((k, m, now) # log)"
    with tr show "snd (snd c) \<le> now" by (auto simp: tracks_def)
  qed
qed

lemma in_window_le: "length (in_window window k t log) \<le> length (filter (\<lambda>(k', m, s). k' = k \<and> t - window < s) log)"
  unfolding in_window_def by (induction log) auto

text \<open>One call: the answer is the comparison with the log, and Redis keeps tracking the log.\<close>

lemma rate_allow_step:
  assumes tr: "tracks window now log R" and now: "0 \<le> now" and w: "0 < window" and fresh: "\<forall>k' s. (k', m, s) \<notin> set log"
    and a: "rate_allow limit window k m now R = (b, R')"
  shows "b = (length (in_window window k now log) < limit)"
    and "tracks window now (if b then (k, m, now) # log else log) R'"
proof -
  obtain n R1 where c: "rate_count window (RATE_KEY_PREFIX @ k) now R = (n, R1)" by fastforce
  note t1 = rate_count_tracks [OF tr c]
  have left: "\<forall>h\<in>set (live_hits now (R1 (RATE_KEY_PREFIX @ k))). now - window < snd h"
    using c tracks_pos [OF tr, of _ now "RATE_KEY_PREFIX @ k"]
    by (auto simp: rate_count_def Let_def live_hits_def split: if_splits option.splits)
  from t1 a c rate_record_tracks [OF t1(2) now w fresh left]
  show "b = (length (in_window window k now log) < limit)"
    and "tracks window now (if b then (k, m, now) # log else log) R'"
    by (auto simp: rate_allow_def split: if_splits)
qed

lemma rate_answers_log:
  "\<lbrakk>tracks window now log R; 0 \<le> now; 0 < window; sorted (map (\<lambda>c. snd (snd c)) cs); \<forall>c\<in>set cs. now \<le> snd (snd c);
    distinct (map (\<lambda>c. fst (snd c)) cs); \<forall>c\<in>set cs. \<forall>k s. (k, fst (snd c), s) \<notin> set log\<rbrakk> \<Longrightarrow>
   rate_answers limit window cs R = window_answers limit window cs log"
proof (induction cs arbitrary: now log R)
  case (Cons c cs)
  obtain k m t where c: "c = (k, m, t)" by (cases c)
  obtain b R' where a: "rate_allow limit window k m t R = (b, R')" by fastforce
  have t: "0 \<le> t" "now \<le> t" using Cons.prems c by auto
  have "\<forall>k' s. (k', m, s) \<notin> set log" using Cons.prems(7) c by auto
  note st = rate_allow_step [OF tracks_later [OF Cons.prems(1) t(2)] t(1) Cons.prems(3) this a]
  have "rate_answers limit window cs R' = window_answers limit window cs (if b then (k, m, t) # log else log)"
    using Cons.prems c t by (intro Cons.IH [OF st(2) t(1)]) (auto simp: image_iff)
  with st(1) a c show ?case by simp
qed simp

lemma in_window_shrinks:
  "\<forall>x\<in>set log. snd (snd x) \<le> t \<Longrightarrow> t \<le> t' \<Longrightarrow> length (in_window window k t' log) \<le> length (in_window window k t log)"
  unfolding in_window_def by (induction log) auto

lemma window_answers_bounded:
  "\<lbrakk>sorted (map (\<lambda>c. snd (snd c)) cs); \<forall>c\<in>set cs. \<forall>x\<in>set log. snd (snd x) \<le> snd (snd c);
    \<And>k t. length (in_window window k t log) \<le> limit\<rbrakk> \<Longrightarrow>
   length (in_window window k t (rev (admitted cs (window_answers limit window cs log)) @ log)) \<le> limit"
proof (induction cs arbitrary: log)
  case (Cons c cs)
  obtain k0 m t0 where c: "c = (k0, m, t0)" by (cases c)
  let ?b = "length (in_window window k0 t0 log) < limit"
  let ?log = "if ?b then (k0, m, t0) # log else log"
  have step: "length (in_window window k' t' ?log) \<le> limit" for k' t'
  proof (cases "?b \<and> k' = k0 \<and> t' - window < t0 \<and> t0 \<le> t'")
    case True
    have "length (in_window window k0 t' log) \<le> length (in_window window k0 t0 log)"
      using Cons.prems(2) True c by (intro in_window_shrinks) auto
    with True show ?thesis by (simp add: in_window_def)
  next
    case False
    with Cons.prems(3) [of k' t'] show ?thesis by (auto simp: in_window_def)
  qed
  have "length (in_window window k t (rev (admitted cs (window_answers limit window cs ?log)) @ ?log)) \<le> limit"
    using Cons.prems(1,2) c step by (intro Cons.IH) auto
  then show ?case by (auto simp: c admitted_def Let_def)
qed (simp add: admitted_def)

text \<open>C39. The rate limiter is an exact sliding window: over any sequence of calls in the order of time, its answer to every call is
  whether fewer than the limit were admitted for the key in the window that ends with the call, so refused calls use up nothing, and
  in no window of the length of the limit, wherever it starts, are more than the limit admitted.\<close>

theorem rate_limit_exact:
  assumes "0 < window" "sorted (map (\<lambda>c. snd (snd c)) cs)" "\<forall>c\<in>set cs. 0 \<le> snd (snd c)" "distinct (map (\<lambda>c. fst (snd c)) cs)"
  shows "rate_answers limit window cs (\<lambda>_. None) = window_answers limit window cs [] \<and>
    length (in_window window k t (admitted cs (rate_answers limit window cs (\<lambda>_. None)))) \<le> limit"
proof -
  have "tracks window 0 [] (\<lambda>_. None)" by (simp add: tracks_def live_hits_def)
  with assms have 1: "rate_answers limit window cs (\<lambda>_. None) = window_answers limit window cs []"
    by (intro rate_answers_log [where now = 0]) auto
  have "length (in_window window k t (rev (admitted cs (window_answers limit window cs [])) @ [])) \<le> limit"
    using assms(2) by (intro window_answers_bounded) (auto simp: in_window_def)
  with 1 show ?thesis by (simp add: in_window_def rev_filter [symmetric])
qed

lemma rate_limit_exact_witness:
  "rate_answers 2 60 [(''u'', 1, 0), (''u'', 2, 30), (''u'', 3, 59), (''u'', 4, 60)] (\<lambda>_. None) =
     window_answers 2 60 [(''u'', 1, 0), (''u'', 2, 30), (''u'', 3, 59), (''u'', 4, 60)] [] \<and>
   window_answers 2 60 [(''u'', 1, 0), (''u'', 2, 30), (''u'', 3, 59), (''u'', 4, 60)] [] = [True, True, False, True]"
  using rate_limit_exact [of 60 "[(''u'', 1, 0), (''u'', 2, 30), (''u'', 3, 59), (''u'', 4, 60)]" 2 "''u''" 60]
  by (simp add: in_window_def)

text \<open>The two pipelines of concurrent calls may interleave; every call that counted before the first of them recorded is admitted.\<close>

lemma concurrent_calls_pass:
  "case rate_count 60 ''k'' 0 (\<lambda>_. None) of (n1, R) \<Rightarrow> case rate_count 60 ''k'' 0 R of (n2, R) \<Rightarrow>
     n1 < 1 \<and> n2 < 1 \<and> length (live_hits 0 (rate_record 60 ''k'' 2 0 (rate_record 60 ''k'' 1 0 R) ''k'')) = 2"
  by (simp add: rate_count_def rate_record_def live_hits_def Let_def)

end
