(* ===== verification/Sessions.thy ===== *)
theory Sessions
  imports Group_Repository Rate_Limit Programs Api_Error
begin

text \<open>
  Who a request comes from: the session store (\<open>app/auth/session.py\<close>) and the dependencies every endpoint is mounted behind
  (\<open>app/api/security.py\<close>). Redis keeps for a token the identity and the time it expires. A request brings the time, and the fresh
  values the code would draw during it: identifiers, the session token, the invite code, the member of its rate-limit hit.
\<close>

section \<open>Sessions\<close>

record Session =
  se_user_id :: string
  se_name :: string
  se_role :: UserRole
  se_email :: string

type_synonym SessionMap = "string \<Rightarrow> (Session \<times> int) option"

definition DEFAULT_TTL_SECOND :: int where "DEFAULT_TTL_SECOND = 7 * 24 * 60 * 60"
definition SESSION_KEY_PREFIX :: string where "SESSION_KEY_PREFIX = ''zuel:session:''"

definition session_key :: "string \<Rightarrow> string" where "session_key token = SESSION_KEY_PREFIX @ token"

definition issue :: "int \<Rightarrow> string \<Rightarrow> Session \<Rightarrow> int \<Rightarrow> SessionMap \<Rightarrow> SessionMap" where
  "issue ttl token s now S = S(session_key token \<mapsto> (s, now + ttl))"

text \<open>\<open>GETEX\<close>: reading and renewing in one command.\<close>

definition resolve_session :: "int \<Rightarrow> string \<Rightarrow> int \<Rightarrow> SessionMap \<Rightarrow> Session option \<times> SessionMap" where
  "resolve_session ttl token now S =
     (case S (session_key token) of
        None \<Rightarrow> (None, S)
      | Some (s, expires) \<Rightarrow>
          if expires \<le> now then (None, S(session_key token := None))
          else (Some s, S(session_key token \<mapsto> (s, now + ttl))))"

definition revoke :: "string \<Rightarrow> SessionMap \<Rightarrow> SessionMap" where
  "revoke token S = S(session_key token := None)"

lemma revoked_is_gone: "fst (resolve_session ttl token now (revoke token S)) = None"
  by (simp add: resolve_session_def revoke_def)

lemma session_slides:
  assumes "now < e" "0 < ttl" "S (session_key token) = Some (s, e)"
  shows "resolve_session ttl token now S = (Some s, S(session_key token \<mapsto> (s, now + ttl)))"
  using assms by (simp add: resolve_session_def)

section \<open>The state of the site and a request\<close>

record 'd Site =
  s_db :: 'd
  s_sessions :: SessionMap
  s_rate :: RateStore

record Env =
  e_hash :: "string \<Rightarrow> string"
  e_verify :: "string \<Rightarrow> string \<Rightarrow> VerifyError + bool"
  e_ttl :: int
  e_limit :: nat
  e_window :: int
  e_coll :: "string \<Rightarrow> nat"

record Req =
  q_now :: int
  q_id :: uuid
  q_token :: string
  q_code :: string
  q_hit :: uuid

type_synonym ('d, 'a) handler = "('d Site, 'a) program"

definition on_db :: "('d \<Rightarrow> 'x \<times> 'd) \<Rightarrow> ('d, 'x) handler" where
  "on_db f w = (case f (s_db w) of (x, d) \<Rightarrow> (Inr x, w\<lparr>s_db := d\<rparr>))"

definition try_db :: "('d \<Rightarrow> ('x \<times> 'd) result) \<Rightarrow> ('d, 'x) handler" where
  "try_db f w = (case f (s_db w) of Inl e \<Rightarrow> (Inl e, w) | Inr (x, d) \<Rightarrow> (Inr x, w\<lparr>s_db := d\<rparr>))"

definition read_db :: "('d \<Rightarrow> 'x) \<Rightarrow> ('d, 'x) handler" where
  "read_db f w = (Inr (f (s_db w)), w)"

section \<open>Dependencies of the endpoints\<close>

definition require_user :: "Env \<Rightarrow> Req \<Rightarrow> string option \<Rightarrow> ('d, Session) handler" where
  "require_user env q token w =
     (if token = None \<or> token = Some [] then (Inl unauthenticated, w)
      else case resolve_session (e_ttl env) (the token) (q_now q) (s_sessions w) of
             (None, S) \<Rightarrow> (Inl unauthenticated, w\<lparr>s_sessions := S\<rparr>)
           | (Some s, S) \<Rightarrow> (Inr s, w\<lparr>s_sessions := S\<rparr>))"

definition require_admin :: "Session \<Rightarrow> ('d, Session) handler" where
  "require_admin current = (if se_role current \<noteq> ADMIN then throw forbidden else ret current)"

definition REVIEWER_ROLE :: "UserRole list" where "REVIEWER_ROLE = [ADMIN, REVIEWER]"

definition require_reviewer :: "Session \<Rightarrow> ('d, Session) handler" where
  "require_reviewer current = (if se_role current \<notin> set REVIEWER_ROLE then throw forbidden else ret current)"

definition limit_key :: "Env \<Rightarrow> Req \<Rightarrow> string \<Rightarrow> ('d, unit) handler" where
  "limit_key env q key w =
     (case rate_allow (e_limit env) (e_window env) key (q_hit q) (q_now q) (s_rate w) of
        (b, R) \<Rightarrow> (if b then Inr () else Inl rate_limited, w\<lparr>s_rate := R\<rparr>))"

definition limit_by_user :: "Env \<Rightarrow> Req \<Rightarrow> Session \<Rightarrow> ('d, unit) handler" where
  "limit_by_user env q current = limit_key env q (''user:'' @ se_user_id current)"

definition limit_stream_by_user :: "Env \<Rightarrow> Req \<Rightarrow> Session \<Rightarrow> ('d, unit) handler" where
  "limit_stream_by_user env q current = limit_key env q (''stream:'' @ se_user_id current)"

definition limit_by_address :: "Env \<Rightarrow> Req \<Rightarrow> string option \<Rightarrow> ('d, unit) handler" where
  "limit_by_address env q address =
     limit_key env q (''address:'' @ (case address of None \<Rightarrow> ''unknown'' | Some a \<Rightarrow> a))"

text \<open>What \<open>create_app\<close> mounts every router behind but the one of \<open>/auth\<close>, and the router of the event stream.\<close>

definition protected :: "Env \<Rightarrow> Req \<Rightarrow> string option \<Rightarrow> ('d, Session) handler" where
  "protected env q token = seq (require_user env q token) (\<lambda>s. seq (limit_by_user env q s) (\<lambda>_. ret s))"

definition protected_stream :: "Env \<Rightarrow> Req \<Rightarrow> string option \<Rightarrow> ('d, Session) handler" where
  "protected_stream env q token = seq (require_user env q token) (\<lambda>s. seq (limit_stream_by_user env q s) (\<lambda>_. ret s))"

text \<open>The user a token stands for at a moment.\<close>

definition actor :: "Req \<Rightarrow> string option \<Rightarrow> 'd Site \<Rightarrow> Session option" where
  "actor q token w =
     (if token = None \<or> token = Some [] then None
      else case s_sessions w (session_key (the token)) of
             None \<Rightarrow> None
           | Some (s, expires) \<Rightarrow> if expires \<le> q_now q then None else Some s)"

lemma require_user_actor:
  "fst (require_user env q token w) = (case actor q token w of None \<Rightarrow> Inl unauthenticated | Some s \<Rightarrow> Inr s)"
  by (auto simp: require_user_def actor_def resolve_session_def split: option.splits prod.splits)

text \<open>The dependencies leave the tables alone, and every identity they leave in the store was there before.\<close>

definition identities :: "'d Site \<Rightarrow> Session set" where
  "identities w = {s. \<exists>k e. s_sessions w k = Some (s, e)}"

lemma require_user_state:
  assumes "require_user env q token w = (r, w')"
  shows "s_db w' = s_db w" "identities w' \<subseteq> identities w" "r = (case actor q token w of None \<Rightarrow> Inl unauthenticated | Some s \<Rightarrow> Inr s)"
proof -
  show "s_db w' = s_db w" "identities w' \<subseteq> identities w"
    using assms by (auto simp: require_user_def resolve_session_def identities_def split: if_splits option.splits prod.splits) blast+
  show "r = (case actor q token w of None \<Rightarrow> Inl unauthenticated | Some s \<Rightarrow> Inr s)"
    using assms require_user_actor [of env q token w] by simp
qed

lemma limit_key_state:
  assumes "limit_key env q key w = (r, w')"
  shows "s_db w' = s_db w" "identities w' = identities w"
proof -
  from assms obtain R where "w' = w\<lparr>s_rate := R\<rparr>" by (auto simp: limit_key_def split: prod.splits)
  then show "s_db w' = s_db w" "identities w' = identities w" by (simp_all add: identities_def)
qed

lemma protected_state:
  assumes "protected env q token w = (r, w')"
  shows "s_db w' = s_db w" "identities w' \<subseteq> identities w" "r = Inr s \<Longrightarrow> actor q token w = Some s"
proof -
  obtain r1 w1 where 1: "require_user env q token w = (r1, w1)" by fastforce
  note u = require_user_state [OF 1]
  have "s_db w' = s_db w \<and> identities w' \<subseteq> identities w \<and> (r = Inr s \<longrightarrow> actor q token w = Some s)"
  proof (cases r1)
    case (Inl e)
    with assms 1 have "r = Inl e" "w' = w1" by (auto simp: protected_def seq_def)
    with u show ?thesis by simp
  next
    case (Inr x)
    obtain r2 w2 where 2: "limit_by_user env q x w1 = (r2, w2)" by fastforce
    note l = limit_key_state [OF 2 [unfolded limit_by_user_def]]
    from assms 1 2 Inr have "w' = w2" "r = Inr s \<Longrightarrow> x = s"
      by (auto simp: protected_def seq_def ret_def split: sum.splits)
    moreover from u(3) Inr have "actor q token w = Some x" by (cases "actor q token w") auto
    ultimately show ?thesis using u l by auto
  qed
  then show "s_db w' = s_db w" "identities w' \<subseteq> identities w" "r = Inr s \<Longrightarrow> actor q token w = Some s" by auto
qed

lemma actor_identity: "actor q token w = Some s \<Longrightarrow> s \<in> identities w"
  by (auto simp: actor_def identities_def split: option.splits if_splits)

end
