(* ===== verification/Accounts.thy ===== *)
theory Accounts
  imports Sessions
begin

text \<open>
  The endpoints of accounts and groups (\<open>app/api/route/auth.py\<close>, \<open>app/api/route/admin.py\<close>, \<open>app/api/route/group.py\<close>) as programs
  over the state of the site, behind the dependencies they are mounted with. Messages, logging and the cookie attributes are left
  out; the cookie carries the token of the request. The status page of the sandbox pool is a call to another process and is left out.
\<close>

section \<open>Registering, logging in and out\<close>

record RegisterResponse =
  rg_id :: string
  rg_name :: string
  rg_role :: UserRole
  rg_active :: bool
  rg_group :: "string option"

record MeResponse =
  me_id :: string
  me_name :: string
  me_email :: string
  me_role :: UserRole

definition resolve_invite :: "string option \<Rightarrow> ('a GroupDb_scheme, Group option) handler" where
  "resolve_invite code =
     (if code = None \<or> code = Some [] then ret None
      else seq (read_db (find_by_invite_code (the code))) (\<lambda>g. if g = None then throw invalid else ret g))"

text \<open>An \<open>IntegrityError\<close> of the insert becomes the answer, any other exception goes on.\<close>

definition invalid_if_taken :: "exn \<Rightarrow> ('d, 'x) handler" where
  "invalid_if_taken e = throw (if e = IntegrityError then invalid else e)"

definition register ::
    "Env \<Rightarrow> Req \<Rightarrow> string option \<Rightarrow> string \<Rightarrow> string \<Rightarrow> string \<Rightarrow> string \<Rightarrow> string option \<Rightarrow>
     ('a GroupDb_scheme, RegisterResponse) handler" where
  "register env q address name email password dept invite_code =
     seq (limit_by_address env q address) (\<lambda>_.
     seq (resolve_invite invite_code) (\<lambda>grp.
     seq (try_except (try_db (create_user (q_id q) name email (e_hash env password) STUDENT dept (grp \<noteq> None) (q_now q)))
            invalid_if_taken) (\<lambda>user.
     seq (case grp of None \<Rightarrow> ret False | Some g \<Rightarrow> try_db (add_member (gr_id g) (us_id user))) (\<lambda>_.
       ret \<lparr>rg_id = us_id user, rg_name = us_name user, rg_role = us_role user, rg_active = us_active user,
            rg_group = map_option gr_name grp\<rparr>))))"

definition session_of :: "User \<Rightarrow> Session" where
  "session_of u = \<lparr>se_user_id = us_id u, se_name = us_name u, se_role = us_role u, se_email = us_email u\<rparr>"

definition issue_session :: "Env \<Rightarrow> Req \<Rightarrow> Session \<Rightarrow> ('d, string) handler" where
  "issue_session env q s w = (Inr (q_token q), w\<lparr>s_sessions := issue (e_ttl env) (q_token q) s (q_now q) (s_sessions w)\<rparr>)"

definition check_password :: "Env \<Rightarrow> string \<Rightarrow> string \<Rightarrow> ('d, bool) handler" where
  "check_password env hashed password w = (verify_password (e_verify env) hashed password, w)"

text \<open>\<open>login\<close> answers with the identity and, in the cookie, the token.\<close>

definition login :: "Env \<Rightarrow> Req \<Rightarrow> string option \<Rightarrow> string \<Rightarrow> string \<Rightarrow> ('a GroupDb_scheme, MeResponse \<times> string) handler" where
  "login env q address name password =
     seq (limit_by_address env q address) (\<lambda>_.
     seq (read_db (find_by_identifier name)) (\<lambda>credential.
       case credential of
         None \<Rightarrow> throw unauthenticated
       | Some c \<Rightarrow>
           seq (check_password env (cr_hash c) password) (\<lambda>ok.
             if \<not> ok then throw unauthenticated
             else if \<not> us_active (cr_user c) then throw unauthenticated
             else seq (issue_session env q (session_of (cr_user c))) (\<lambda>t.
               ret (\<lparr>me_id = us_id (cr_user c), me_name = us_name (cr_user c), me_email = us_email (cr_user c),
                     me_role = us_role (cr_user c)\<rparr>, t)))))"

definition revoke_session :: "string \<Rightarrow> ('d, unit) handler" where
  "revoke_session token w = (Inr (), w\<lparr>s_sessions := revoke token (s_sessions w)\<rparr>)"

definition logout :: "Env \<Rightarrow> Req \<Rightarrow> string option \<Rightarrow> ('d, unit) handler" where
  "logout env q token =
     seq (require_user env q token) (\<lambda>_. if token = None \<or> token = Some [] then ret () else revoke_session (the token))"

definition me :: "Env \<Rightarrow> Req \<Rightarrow> string option \<Rightarrow> ('d, MeResponse) handler" where
  "me env q token =
     seq (require_user env q token) (\<lambda>s.
       ret \<lparr>me_id = se_user_id s, me_name = se_name s, me_email = se_email s, me_role = se_role s\<rparr>)"

section \<open>Administration\<close>

definition admin_user :: "Env \<Rightarrow> Req \<Rightarrow> string option \<Rightarrow> ('d, Session) handler" where
  "admin_user env q token = seq (protected env q token) require_admin"

definition admin_create_user ::
    "Env \<Rightarrow> Req \<Rightarrow> string option \<Rightarrow> string \<Rightarrow> string \<Rightarrow> string \<Rightarrow> UserRole \<Rightarrow> string \<Rightarrow> ('a GroupDb_scheme, User) handler" where
  "admin_create_user env q token name email password role dept =
     seq (admin_user env q token) (\<lambda>_.
       try_except (try_db (create_user (q_id q) name email (e_hash env password) role dept True (q_now q))) invalid_if_taken)"

definition admin_list_users :: "Env \<Rightarrow> Req \<Rightarrow> string option \<Rightarrow> ('a GroupDb_scheme, User list) handler" where
  "admin_list_users env q token = seq (admin_user env q token) (\<lambda>_. read_db list_users)"

record UserChange =
  ch_active :: "bool option"
  ch_role :: "UserRole option"
  ch_quota_tokens :: "int option option"
  ch_quota_runs :: "int option option"
  ch_dept :: "string option"

definition admin_update_user ::
    "Env \<Rightarrow> Req \<Rightarrow> string option \<Rightarrow> string \<Rightarrow> UserChange \<Rightarrow> ('a GroupDb_scheme, User) handler" where
  "admin_update_user env q token user_id c =
     seq (admin_user env q token) (\<lambda>_.
     seq (case ch_active c of None \<Rightarrow> ret True | Some a \<Rightarrow> on_db (set_active user_id a)) (\<lambda>found.
     seq (if \<not> found then ret False
          else on_db (update_profile user_id (ch_role c) (ch_quota_tokens c) (ch_quota_runs c) (ch_dept c))) (\<lambda>found.
       if \<not> found then throw not_found
       else seq (read_db (get_user user_id)) (\<lambda>u. case u of None \<Rightarrow> throw not_found | Some u \<Rightarrow> ret u))))"

definition admin_create_group ::
    "Env \<Rightarrow> Req \<Rightarrow> string option \<Rightarrow> string \<Rightarrow> string \<Rightarrow> ('a GroupDb_scheme, Group) handler" where
  "admin_create_group env q token name owner_id =
     seq (admin_user env q token) (\<lambda>_.
     seq (read_db (get_user owner_id)) (\<lambda>u.
       if u = None then throw not_found
       else try_except (try_db (create_group (q_id q) (q_code q) name owner_id (q_now q))) invalid_if_taken))"

section \<open>Groups\<close>

record MyGroupResponse =
  mg_id :: string
  mg_name :: string
  mg_is_owner :: bool
  mg_code :: "string option"

definition browse_groups :: "Env \<Rightarrow> Req \<Rightarrow> string option \<Rightarrow> ('a GroupDb_scheme, GroupSummary list) handler" where
  "browse_groups env q token = seq (protected env q token) (\<lambda>_. read_db (list_groups (e_coll env)))"

definition my_group :: "Env \<Rightarrow> Req \<Rightarrow> string option \<Rightarrow> ('a GroupDb_scheme, MyGroupResponse list) handler" where
  "my_group env q token =
     seq (protected env q token) (\<lambda>current.
     seq (read_db (groups_of_user (e_coll env) (se_user_id current))) (\<lambda>found.
       ret (map (\<lambda>g. \<lparr>mg_id = gr_id g, mg_name = gr_name g, mg_is_owner = (gr_owner_id g = se_user_id current),
                      mg_code = (if gr_owner_id g = se_user_id current then Some (gr_code g) else None)\<rparr>) found)))"

definition my_requests :: "Env \<Rightarrow> Req \<Rightarrow> string option \<Rightarrow> ('a GroupDb_scheme, JoinRequestDetail list) handler" where
  "my_requests env q token = seq (protected env q token) (\<lambda>current. read_db (requests_of_user (se_user_id current)))"

definition owned_group :: "string \<Rightarrow> Session \<Rightarrow> ('a GroupDb_scheme, Group) handler" where
  "owned_group group_id current =
     seq (read_db (get_group group_id)) (\<lambda>g.
       case g of
         None \<Rightarrow> throw not_found
       | Some g \<Rightarrow> if gr_owner_id g \<noteq> se_user_id current then throw not_found else ret g)"

definition group_members :: "Env \<Rightarrow> Req \<Rightarrow> string option \<Rightarrow> string \<Rightarrow> ('a GroupDb_scheme, GroupMember list) handler" where
  "group_members env q token group_id =
     seq (protected env q token) (\<lambda>current.
     seq (owned_group group_id current) (\<lambda>g. read_db (list_member (e_coll env) (gr_id g))))"

definition group_add_member ::
    "Env \<Rightarrow> Req \<Rightarrow> string option \<Rightarrow> string \<Rightarrow> string \<Rightarrow> ('a GroupDb_scheme, GroupMember list) handler" where
  "group_add_member env q token group_id name =
     seq (protected env q token) (\<lambda>current.
     seq (owned_group group_id current) (\<lambda>g.
     seq (read_db (find_by_name name)) (\<lambda>found.
       case found of
         None \<Rightarrow> throw not_found
       | Some c \<Rightarrow> seq (try_db (add_member (gr_id g) (us_id (cr_user c)))) (\<lambda>_.
           read_db (list_member (e_coll env) (gr_id g))))))"

definition group_remove_member ::
    "Env \<Rightarrow> Req \<Rightarrow> string option \<Rightarrow> string \<Rightarrow> string \<Rightarrow> ('a GroupDb_scheme, unit) handler" where
  "group_remove_member env q token group_id user_id =
     seq (protected env q token) (\<lambda>current.
     seq (owned_group group_id current) (\<lambda>g.
       if user_id = gr_owner_id g then throw invalid
       else on_db (\<lambda>d. ((), remove_member (gr_id g) user_id d))))"

definition group_apply :: "Env \<Rightarrow> Req \<Rightarrow> string option \<Rightarrow> string \<Rightarrow> ('a GroupDb_scheme, JoinRequest) handler" where
  "group_apply env q token group_id =
     seq (protected env q token) (\<lambda>current.
     seq (read_db (get_group group_id)) (\<lambda>g.
       case g of
         None \<Rightarrow> throw not_found
       | Some g \<Rightarrow>
           seq (read_db (is_member (gr_id g) (se_user_id current))) (\<lambda>already.
             if already then throw invalid
             else seq (on_db (create_request (q_id q) (gr_id g) (se_user_id current) (q_now q))) (\<lambda>r.
               case r of None \<Rightarrow> throw invalid | Some r \<Rightarrow> ret r))))"

definition group_requests :: "Env \<Rightarrow> Req \<Rightarrow> string option \<Rightarrow> string \<Rightarrow> ('a GroupDb_scheme, JoinRequestDetail list) handler" where
  "group_requests env q token group_id =
     seq (protected env q token) (\<lambda>current.
     seq (owned_group group_id current) (\<lambda>g. read_db (list_pending_requests (gr_id g))))"

definition group_decide ::
    "Env \<Rightarrow> Req \<Rightarrow> string option \<Rightarrow> string \<Rightarrow> string \<Rightarrow> bool \<Rightarrow> ('a GroupDb_scheme, unit) handler" where
  "group_decide env q token group_id request_id approved =
     seq (protected env q token) (\<lambda>current.
     seq (owned_group group_id current) (\<lambda>g.
     seq (read_db (get_request request_id)) (\<lambda>found.
       case found of
         None \<Rightarrow> throw not_found
       | Some r \<Rightarrow>
           if jr_group_id r \<noteq> gr_id g then throw not_found
           else seq (try_db (decide_request (jr_id r) approved (q_now q))) (\<lambda>ok.
             if \<not> ok then throw invalid else ret ()))))"

section \<open>Requests in any order\<close>

datatype api_call =
    Register "string option" string string string string "string option"
  | Login "string option" string string
  | Logout "string option"
  | CreateUser "string option" string string string UserRole string
  | UpdateUser "string option" string UserChange
  | CreateGroup "string option" string string
  | AddMember "string option" string string
  | RemoveMember "string option" string string
  | Apply "string option" string
  | Decide "string option" string string bool
  | AnyRead "string option"

definition run_handler :: "('d, 'x) handler \<Rightarrow> 'd Site \<Rightarrow> 'd Site" where
  "run_handler m w = snd (m w)"

text \<open>The requests that change something; \<open>AnyRead\<close> is a protected endpoint that only reads.\<close>

fun serve :: "Env \<Rightarrow> Req \<times> api_call \<Rightarrow> 'a GroupDb_scheme Site \<Rightarrow> 'a GroupDb_scheme Site" where
  "serve env (q, Register a n e p d c) = run_handler (register env q a n e p d c)"
| "serve env (q, Login a n p) = run_handler (login env q a n p)"
| "serve env (q, Logout t) = run_handler (logout env q t)"
| "serve env (q, CreateUser t n e p r d) = run_handler (admin_create_user env q t n e p r d)"
| "serve env (q, UpdateUser t u c) = run_handler (admin_update_user env q t u c)"
| "serve env (q, CreateGroup t n oid) = run_handler (admin_create_group env q t n oid)"
| "serve env (q, AddMember t g n) = run_handler (group_add_member env q t g n)"
| "serve env (q, RemoveMember t g u) = run_handler (group_remove_member env q t g u)"
| "serve env (q, Apply t g) = run_handler (group_apply env q t g)"
| "serve env (q, Decide t g r a) = run_handler (group_decide env q t g r a)"
| "serve env (q, AnyRead t) = run_handler (protected env q t)"

fun call_token :: "api_call \<Rightarrow> string option" where
  "call_token (Register _ _ _ _ _ _) = None"
| "call_token (Login _ _ _) = None"
| "call_token (Logout t) = t"
| "call_token (CreateUser t _ _ _ _ _) = t"
| "call_token (UpdateUser t _ _) = t"
| "call_token (CreateGroup t _ _) = t"
| "call_token (AddMember t _ _) = t"
| "call_token (RemoveMember t _ _) = t"
| "call_token (Apply t _) = t"
| "call_token (Decide t _ _ _) = t"
| "call_token (AnyRead t) = t"

text \<open>Serving a sequence of requests: who each came from, and the state afterwards.\<close>

fun serve_all :: "Env \<Rightarrow> (Req \<times> api_call) list \<Rightarrow> 'a GroupDb_scheme Site \<Rightarrow> Session option list \<times> 'a GroupDb_scheme Site" where
  "serve_all env [] w = ([], w)"
| "serve_all env ((q, c) # cs) w =
     (case serve_all env cs (serve env (q, c) w) of (as, w') \<Rightarrow> (actor q (call_token c) w # as, w'))"

section \<open>Invariants of the site\<close>

text \<open>\<open>site_inv Q W\<close>: the tables satisfy \<open>Q\<close> and every identity in the session store satisfies \<open>W\<close>.\<close>

definition site_inv :: "('d \<Rightarrow> bool) \<Rightarrow> (Session \<Rightarrow> bool) \<Rightarrow> 'd Site \<Rightarrow> bool" where
  "site_inv Q W w \<longleftrightarrow> Q (s_db w) \<and> (\<forall>s\<in>identities w. W s)"

lemma site_invI: "site_inv Q W w \<Longrightarrow> s_db w' = s_db w \<Longrightarrow> identities w' \<subseteq> identities w \<Longrightarrow> site_inv Q W w'"
  by (auto simp: site_inv_def)

lemma site_keeps [step_intros]:
  "keeps (site_inv Q W) (require_user env q token)" "keeps (site_inv Q W) (limit_key env q key)"
  "keeps (site_inv Q W) (protected env q token)" "keeps (site_inv Q W) (read_db g)"
  "keeps (site_inv Q W) (check_password env h p)" "keeps (site_inv Q W) (revoke_session t)"
proof -
  show "keeps (site_inv Q W) (require_user env q token)"
    by (rule keepsI, case_tac "require_user env q token w") (auto dest: require_user_state elim!: site_invI)
  show "keeps (site_inv Q W) (limit_key env q key)"
    by (rule keepsI, case_tac "limit_key env q key w") (auto dest: limit_key_state elim!: site_invI)
  show "keeps (site_inv Q W) (protected env q token)"
    by (rule keepsI, case_tac "protected env q token w") (auto dest: protected_state(1,2) elim!: site_invI)
  show "keeps (site_inv Q W) (read_db g)" "keeps (site_inv Q W) (check_password env h p)"
    by (simp_all add: keeps_def read_db_def check_password_def)
  show "keeps (site_inv Q W) (revoke_session t)"
    by (rule keepsI, erule site_invI) (auto simp: revoke_session_def revoke_def identities_def split: if_splits)
qed

lemma site_keeps_limits [step_intros]:
  "keeps (site_inv Q W) (limit_by_user env q s)" "keeps (site_inv Q W) (limit_by_address env q a)"
  by (simp_all add: limit_by_user_def limit_by_address_def site_keeps)

lemma site_keeps_on_db [step_intros]: "(\<And>d. Q d \<Longrightarrow> Q (snd (f d))) \<Longrightarrow> keeps (site_inv Q W) (on_db f)"
proof (rule keepsI)
  fix w
  assume q: "\<And>d. Q d \<Longrightarrow> Q (snd (f d))" and w: "site_inv Q W w"
  obtain x d where f: "f (s_db w) = (x, d)" by fastforce
  with q [of "s_db w"] w have "Q d" by (simp add: site_inv_def)
  with f w show "site_inv Q W (snd (on_db f w))" by (simp add: on_db_def site_inv_def identities_def)
qed

lemma site_keeps_try_db [step_intros]: "(\<And>d x d'. Q d \<Longrightarrow> f d = Inr (x, d') \<Longrightarrow> Q d') \<Longrightarrow> keeps (site_inv Q W) (try_db f)"
  by (rule keepsI) (auto simp: try_db_def site_inv_def identities_def split: sum.split)

lemma site_keeps_issue [step_intros]: "W s \<Longrightarrow> keeps (site_inv Q W) (issue_session env q s)"
  by (rule keepsI) (auto simp: issue_session_def issue_def site_inv_def identities_def split: if_splits)

text \<open>What was read is a value of tables that satisfied \<open>Q\<close>.\<close>

lemma site_keeps_read:
  "(\<And>d. Q d \<Longrightarrow> keeps (site_inv Q W) (f (g d))) \<Longrightarrow> keeps (site_inv Q W) (seq (read_db g) f)"
  by (auto simp: keeps_def seq_def read_db_def site_inv_def)

lemma site_keeps_invalid [step_intros]: "keeps (site_inv Q W) (invalid_if_taken e)"
  by (simp add: invalid_if_taken_def)

text \<open>A protected endpoint goes on only as the user its token stands for.\<close>

lemma protected_then:
  assumes "site_inv Q W w" "\<And>s. actor q token w = Some s \<Longrightarrow> keeps (site_inv Q W) (f s)"
  shows "site_inv Q W (snd (seq (protected env q token) f w))"
proof -
  obtain r w1 where 1: "protected env q token w = (r, w1)" by fastforce
  have w1: "site_inv Q W w1" using keepsD [OF site_keeps(3) assms(1), of env q token] 1 by simp
  show ?thesis
  proof (cases r)
    case (Inr s)
    with 1 protected_state(3) [OF 1] assms(2) [of s] w1 show ?thesis by (simp add: seq_def keeps_def)
  qed (use 1 w1 in \<open>simp add: seq_def\<close>)
qed

lemma admin_then:
  assumes "site_inv Q W w" "\<And>s. actor q token w = Some s \<Longrightarrow> se_role s = ADMIN \<Longrightarrow> keeps (site_inv Q W) (f s)"
  shows "site_inv Q W (snd (seq (admin_user env q token) f w))"
proof -
  have "seq (admin_user env q token) f = seq (protected env q token) (\<lambda>s. seq (require_admin s) f)"
    by (rule ext) (simp add: admin_user_def seq_def split: prod.splits sum.splits)
  moreover have "keeps (site_inv Q W) (seq (require_admin s) f)" if "actor q token w = Some s" for s
    using assms(2) [OF that] by (cases "se_role s = ADMIN") (simp_all add: require_admin_def seq_def keeps_def ret_def throw_def)
  ultimately show ?thesis by (simp add: protected_then [OF assms(1)])
qed

lemma keeps_resolve_invite [step_intros]: "keeps (site_inv Q W) (resolve_invite code)"
  unfolding resolve_invite_def by (intro step_intros)

section \<open>Privileges come from administrators\<close>

text \<open>An account is as it was in \<open>db0\<close>, or it is a new student.\<close>

definition as_before :: "'a GroupDb_scheme \<Rightarrow> UserRecord \<Rightarrow> bool" where
  "as_before db0 r \<longleftrightarrow> r \<in> set (users db0) \<or>
     (u_role r = STUDENT \<and> u_quota_tokens r = None \<and> u_quota_runs r = None \<and> u_pk r \<notin> u_pk ` set (users db0))"

definition calm :: "'a GroupDb_scheme \<Rightarrow> 'a GroupDb_scheme \<Rightarrow> bool" where
  "calm db0 db \<longleftrightarrow> users_ok db \<and> set (users db0) \<subseteq> set (users db) \<and> (\<forall>r\<in>set (users db). as_before db0 r)"

lemma calm_users: "users d' = users d \<Longrightarrow> calm db0 d \<Longrightarrow> calm db0 d'"
  by (simp add: calm_def users_ok_def)

lemma calm_register:
  assumes "calm db0 d" "create_user i n e h STUDENT dept a now d = Inr (u, d')" "i < 2 ^ 128"
  shows "calm db0 d'"
  using assms(2)
proof (rule create_user_Inr)
  fix r
  assume r: "users d' = users d @ [r]" "u_role r = STUDENT" "\<forall>x\<in>set (users d). \<not> user_clash r x"
  have "u_quota_tokens r = None \<and> u_quota_runs r = None"
    using assms(2) r(1) by (auto simp: create_user_def result_bind_Inr_iff sql_insert_Inr Let_def)
  moreover have "users_ok d'" using create_user_ok [OF assms(2) _ assms(3)] assms(1) by (simp add: calm_def)
  ultimately show ?thesis using assms(1) r by (auto simp: calm_def as_before_def user_clash_def)
qed

lemma members_users: "add_member g u d = Inr (b, d') \<Longrightarrow> users d' = users d"
  by (auto simp: add_member_def insert_member_Inr split: option.splits if_splits)

lemma decide_users: "decide_request i a now d = Inr (b, d') \<Longrightarrow> users d' = users d"
  by (auto simp: decide_request_def insert_member_Inr result_bind_Inr_iff Let_def split: option.splits list.splits prod.splits if_splits)

lemma request_users: "users (snd (create_request i g u now d)) = users d"
  by (auto simp: create_request_def Let_def split: option.splits sum.splits)

definition admin_ids :: "'a GroupDb_scheme \<Rightarrow> string set" where
  "admin_ids db = set (map (\<lambda>r. uuid_hex (u_pk r)) (filter (\<lambda>r. u_role r = ADMIN) (users db)))"

abbreviation peaceful :: "'a GroupDb_scheme \<Rightarrow> 'a GroupDb_scheme Site \<Rightarrow> bool" where
  "peaceful db0 \<equiv> site_inv (calm db0) (\<lambda>s. se_role s = ADMIN \<longrightarrow> se_user_id s \<in> admin_ids db0)"

lemma register_peaceful: "q_id q < 2 ^ 128 \<Longrightarrow> keeps (peaceful db0) (register env q a n e p d c)"
  unfolding register_def by (intro step_intros) (auto dest: calm_register members_users elim!: calm_users)

lemma login_peaceful: "keeps (peaceful db0) (login env q a n p)"
  unfolding login_def
proof (rule keeps_seq [OF site_keeps_limits(2)], rule site_keeps_read)
  fix d :: "'a GroupDb_scheme"
  assume d: "calm db0 d"
  have "se_role (session_of (cr_user c)) = ADMIN \<longrightarrow> se_user_id (session_of (cr_user c)) \<in> admin_ids db0"
    if c: "find_by_identifier n d = Some c" for c
  proof
    assume a: "se_role (session_of (cr_user c)) = ADMIN"
    from c obtain r where r: "r \<in> set (users d)" "c = to_credential r"
      by (auto simp: find_by_identifier_def dest: find_in)
    with a d have "r \<in> set (users db0)" by (auto simp: calm_def as_before_def session_of_def to_credential_def to_user_def)
    with a r show "se_user_id (session_of (cr_user c)) \<in> admin_ids db0"
      by (auto simp: admin_ids_def session_of_def to_credential_def to_user_def)
  qed
  then have "\<And>c. find_by_identifier n d = Some c \<Longrightarrow> keeps (peaceful db0) (issue_session env q (session_of (cr_user c)))"
    by (intro step_intros)
  then show "keeps (peaceful db0) (case find_by_identifier n d of None \<Rightarrow> throw unauthenticated
      | Some c \<Rightarrow> seq (check_password env (cr_hash c) p) (\<lambda>ok. if \<not> ok then throw unauthenticated
             else if \<not> us_active (cr_user c) then throw unauthenticated
             else seq (issue_session env q (session_of (cr_user c))) (\<lambda>t.
               ret (\<lparr>me_id = us_id (cr_user c), me_name = us_name (cr_user c), me_email = us_email (cr_user c),
                     me_role = us_role (cr_user c)\<rparr>, t))))"
    by (cases "find_by_identifier n d") (simp_all add: keeps_seq keeps_if site_keeps)
qed

definition acts_for :: "string set \<Rightarrow> Session option \<Rightarrow> bool" where
  "acts_for A a \<longleftrightarrow> (case a of None \<Rightarrow> False | Some s \<Rightarrow> se_user_id s \<in> A)"

lemma admin_peaceful:
  assumes "peaceful db0 w" "\<not> acts_for (admin_ids db0) (actor q t w)"
  shows "peaceful db0 (snd (seq (admin_user env q t) f w))"
proof (rule admin_then [OF assms(1)])
  fix s assume s: "actor q t w = Some s" "se_role s = ADMIN"
  with assms(1) actor_identity [OF s(1)] have "se_user_id s \<in> admin_ids db0" by (auto simp: site_inv_def)
  with assms(2) s show "keeps (peaceful db0) (f s)" by (simp add: acts_for_def)
qed

lemma admin_calls_peaceful:
  assumes "peaceful db0 w" "\<not> acts_for (admin_ids db0) (actor q t w)"
  shows "peaceful db0 (snd (admin_create_user env q t n e p r d w))" "peaceful db0 (snd (admin_update_user env q t u c w))"
    "peaceful db0 (snd (admin_create_group env q t n oid w))"
  unfolding admin_create_user_def admin_update_user_def admin_create_group_def by (rule admin_peaceful [OF assms])+

lemma calm_simps [simp]:
  "calm db0 (d\<lparr>members := ms\<rparr>) = calm db0 d" "calm db0 (snd (create_request i g u now d)) = calm db0 d"
  "calm db0 (remove_member g u d) = calm db0 d"
  using calm_users [of "snd (create_request i g u now d)" d db0] calm_users [of d "snd (create_request i g u now d)" db0]
  by (auto simp: calm_def users_ok_def request_users remove_member_def split: option.splits)

lemma owned_keeps [step_intros]: "keeps (site_inv Q W) (owned_group g s)"
  unfolding owned_group_def by (intro step_intros)

lemma group_calls_peaceful:
  "keeps (peaceful db0) (group_add_member env q t g n)" "keeps (peaceful db0) (group_remove_member env q t g u)"
  "keeps (peaceful db0) (group_apply env q t g)" "keeps (peaceful db0) (group_decide env q t g r a)"
  "keeps (peaceful db0) (logout env q t)"
  unfolding group_add_member_def group_remove_member_def group_apply_def group_decide_def logout_def
  by (intro step_intros; auto dest!: members_users decide_users elim!: calm_users)+

lemma serve_peaceful:
  assumes "peaceful db0 w" "q_id q < 2 ^ 128" "\<not> acts_for (admin_ids db0) (actor q (call_token c) w)"
  shows "peaceful db0 (serve env (q, c) w)"
  using assms(3) group_calls_peaceful [of db0 env q, THEN keepsD, OF assms(1)] register_peaceful [OF assms(2), THEN keepsD, OF assms(1)]
    login_peaceful [THEN keepsD, OF assms(1)] admin_calls_peaceful [OF assms(1)] site_keeps(3) [THEN keepsD, OF assms(1)]
  by (cases c) (simp_all add: run_handler_def)

lemma serve_all_peaceful:
  "\<lbrakk>serve_all env cs w = (as, w'); peaceful db0 w; \<forall>(q, c)\<in>set cs. q_id q < 2 ^ 128; \<forall>a\<in>set as. \<not> acts_for (admin_ids db0) a\<rbrakk> \<Longrightarrow>
   peaceful db0 w'"
proof (induction cs arbitrary: w as)
  case (Cons qc cs)
  obtain q c where qc: "qc = (q, c)" by fastforce
  from Cons.prems(1) obtain as' where 1: "serve_all env cs (serve env (q, c) w) = (as', w')" "as = actor q (call_token c) w # as'"
    by (auto simp: qc split: prod.splits)
  have "peaceful db0 (serve env (q, c) w)" using Cons.prems 1 by (intro serve_peaceful) (auto simp: qc)
  from Cons.IH [OF 1(1) this] Cons.prems 1 show ?case by simp
qed simp

text \<open>C11. Privileges come from administrators only: over any sequence of registrations, logins, group operations, administration
  requests and reads in which no request carries a session of an administrator's account, every account keeps its role, password
  hash, quotas and activation, every account that is new is a student's with the default quotas, and no session gets the
  administrator's role but those of the accounts that had it. At the start, every session with the administrator's
  role has to be one of an administrator's account: an account that lost that role keeps its power in the sessions it has open, and
  they can grant the role (\<open>demoted_admin_keeps_power\<close>).\<close>

theorem privileges_from_admins:
  assumes "users_ok (s_db w)" "\<forall>s\<in>identities w. se_role s = ADMIN \<longrightarrow> se_user_id s \<in> admin_ids (s_db w)"
    and "\<forall>(q, c)\<in>set cs. q_id q < 2 ^ 128" "serve_all env cs w = (as, w')"
    and "\<forall>a\<in>set as. \<not> acts_for (admin_ids (s_db w)) a"
  shows "set (users (s_db w)) \<subseteq> set (users (s_db w')) \<and>
    (\<forall>r\<in>set (users (s_db w')). r \<in> set (users (s_db w)) \<or>
       (u_role r = STUDENT \<and> u_quota_tokens r = None \<and> u_quota_runs r = None \<and> u_pk r \<notin> u_pk ` set (users (s_db w)))) \<and>
    (\<forall>s\<in>identities w'. se_role s = ADMIN \<longrightarrow> se_user_id s \<in> admin_ids (s_db w))"
proof -
  have "peaceful (s_db w) w" using assms(1,2) by (simp add: site_inv_def calm_def as_before_def)
  from serve_all_peaceful [OF assms(4) this assms(3,5)] show ?thesis
    by (auto simp: site_inv_def calm_def as_before_def)
qed

section \<open>A roster is its owner's\<close>

text \<open>\<open>held_roster db0 g\<close>: the tables are consistent, the group \<open>g\<close> has the row it has in \<open>db0\<close>, and its roster is the same.\<close>

definition roster :: "'a GroupDb_scheme \<Rightarrow> uuid \<Rightarrow> uuid set" where
  "roster db g = {u. (u, g) \<in> set (members db)}"

definition held_roster :: "'a GroupDb_scheme \<Rightarrow> uuid \<Rightarrow> 'a GroupDb_scheme \<Rightarrow> bool" where
  "held_roster db0 g db \<longleftrightarrow> groups_ok db \<and> group_row db0 g \<noteq> None \<and> group_row db g = group_row db0 g \<and> roster db g = roster db0 g"

lemma groups_ok_pk: "groups_ok db \<Longrightarrow> group_row db g = Some r \<Longrightarrow> g_pk r = g \<and> g < 2 ^ 128 \<and> r \<in> set (groups db)"
  by (auto simp: group_row_def groups_ok_def dest: find_in)

lemma groups_ok_row: "groups_ok db \<Longrightarrow> r \<in> set (groups db) \<Longrightarrow> group_row db (g_pk r) = Some r"
  unfolding group_row_def by (rule find_key) (simp_all add: groups_ok_def)

lemma add_member_held:
  assumes "held_roster db0 g d" "add_member h u d = Inr (b, d')" "UUID h \<noteq> Some g"
  shows "held_roster db0 g d'"
  using assms add_member_ok [OF assms(2)]
  by (auto simp: held_roster_def roster_def add_member_def insert_member_Inr split: option.splits if_splits)

lemma remove_member_held:
  assumes "held_roster db0 g d" "UUID h \<noteq> Some g"
  shows "held_roster db0 g (remove_member h u d)"
  using assms remove_member_ok [of d h u]
  by (auto simp: held_roster_def roster_def remove_member_def group_row_def split: option.splits)

lemma request_held:
  assumes "held_roster db0 g d" "i < 2 ^ 128"
  shows "held_roster db0 g (snd (create_request i h u now d))"
proof -
  obtain r d' where c: "create_request i h u now d = (r, d')" by fastforce
  from c show ?thesis
    by (cases rule: create_request_cases)
      (use assms create_request_ok [OF c assms(2)] c in \<open>auto simp: held_roster_def roster_def\<close>)
qed

lemma decide_held:
  assumes "held_roster db0 g d" "decide_request i a now d = Inr (b, d')"
    and "\<And>u r. UUID i = Some u \<Longrightarrow> request_row d u = Some r \<Longrightarrow> j_group r \<noteq> g"
  shows "held_roster db0 g d'"
proof -
  have "distinct (map j_pk (join_requests d))" using assms(1) by (simp add: held_roster_def groups_ok_def)
  from assms(2) this show ?thesis
    by (cases rule: decide_request_cases)
      (use assms decide_request_ok [OF assms(2)] in \<open>auto simp: held_roster_def roster_def group_row_def\<close>)
qed

lemma new_user_held:
  assumes "held_roster db0 g d" "create_user i n e h ro dept a now d = Inr (u, d')" "i < 2 ^ 128"
  shows "held_roster db0 g d'"
proof -
  from assms(2) obtain r where r: "d' = d\<lparr>users := users d @ [r]\<rparr>" by (rule create_user_Inr)
  have "user_row d' v \<noteq> None" if "user_row d v \<noteq> None" for v
    using that by (auto simp: r user_row_def find_append split: option.splits)
  then have "member_refs v h d \<Longrightarrow> member_refs v h d'" for v h by (auto simp: member_refs_def r)
  with assms(1) create_user_ok [OF assms(2) _ assms(3)] \<open>\<And>v. user_row d v \<noteq> None \<Longrightarrow> user_row d' v \<noteq> None\<close>
  have "groups_ok d'" by (fastforce simp: held_roster_def groups_ok_def r)
  with assms(1) show ?thesis by (simp add: held_roster_def roster_def r)
qed

lemma changed_user_held:
  assumes "held_roster db0 g d" "change_user i f d = (b, d')"
    and "\<And>r. u_pk (f r) = u_pk r" "\<And>r. u_name (f r) = u_name r" "\<And>r. u_email (f r) = u_email r"
  shows "held_roster db0 g d'"
proof -
  note m = change_user_more [OF assms(2)]
  have row: "user_row d' v = None \<longleftrightarrow> user_row d v = None" for v
    using change_user_row(1) [OF assms(2,3), of v] by simp
  have same: "groups d' = groups d" "members d' = members d" "join_requests d' = join_requests d"
    by (subst m, simp)+
  then have refs: "member_refs v h d' = member_refs v h d" "group_row d' h = group_row d h" for v h
    by (auto simp: member_refs_def row group_row_def)
  have "users_ok d'" using change_user_ok [OF assms(2) _ assms(3-5)] assms(1) by (simp add: held_roster_def groups_ok_def)
  with assms(1) have "groups_ok d'" unfolding held_roster_def groups_ok_def by (simp add: same refs row)
  with assms(1) show ?thesis by (simp add: held_roster_def roster_def same refs)
qed

lemma new_group_held:
  assumes "held_roster db0 g d" "create_group i c n oid now d = Inr (x, d')" "i < 2 ^ 128"
  shows "held_roster db0 g d'"
  using assms(2)
proof (rule create_group_Inr)
  fix r
  assume r: "g_pk r = i" "\<forall>y\<in>set (groups d). \<not> group_clash r y"
    "d' = d\<lparr>groups := groups d @ [r], members := members d @ [(g_owner r, i)]\<rparr>"
  from assms(1) obtain y where y: "group_row d g = Some y" by (auto simp: held_roster_def)
  with assms(1) have "i \<noteq> g" using r(1,2) groups_ok_pk [of d g y] by (auto simp: held_roster_def group_clash_def)
  with create_group_ok [OF assms(2,3)] assms(1) y show ?thesis
    by (auto simp: held_roster_def roster_def r(3) group_row_def find_append)
qed

abbreviation steady :: "'a GroupDb_scheme \<Rightarrow> uuid \<Rightarrow> 'a GroupDb_scheme Site \<Rightarrow> bool" where
  "steady db0 g \<equiv> site_inv (held_roster db0 g) (\<lambda>_. True)"

definition group_owner :: "'a GroupDb_scheme \<Rightarrow> uuid \<Rightarrow> string" where
  "group_owner db g = (case group_row db g of None \<Rightarrow> [] | Some r \<Rightarrow> uuid_hex (g_owner r))"

definition invite_code :: "'a GroupDb_scheme \<Rightarrow> uuid \<Rightarrow> string" where
  "invite_code db g = (case group_row db g of None \<Rightarrow> [] | Some r \<Rightarrow> g_code r)"

lemma held_group:
  assumes "held_roster db0 g d" "r \<in> set (groups d)" "UUID (gr_id (to_group r)) = Some g"
  shows "group_row db0 g = Some r"
proof -
  from assms(1) have ok: "groups_ok d" by (simp add: held_roster_def)
  with assms(2) have "g_pk r < 2 ^ 128" by (simp add: groups_ok_def)
  with assms(3) groups_ok_row [OF ok assms(2)] assms(1) show ?thesis by (simp add: to_group_def held_roster_def)
qed

lemma invite_steady:
  assumes "steady db0 g w" "resolve_invite code w = (Inr (Some x), w')" "code \<noteq> Some (invite_code db0 g)"
  shows "UUID (gr_id x) \<noteq> Some g"
proof
  assume g: "UUID (gr_id x) = Some g"
  from assms(2) obtain c r where c: "code = Some c" "g_code r = c" "x = to_group r" "r \<in> set (groups (s_db w))"
    by (auto simp: resolve_invite_def seq_def read_db_def ret_def throw_def find_by_invite_code_def dest: find_in split: if_splits)
  with held_group [of db0 g "s_db w" r] g assms(1,3) show False by (simp add: site_inv_def invite_code_def)
qed

lemma owned_steady:
  assumes "steady db0 g w" "owned_group h s w = (Inr x, w')" "se_user_id s \<noteq> group_owner db0 g"
  shows "UUID (gr_id x) \<noteq> Some g"
proof
  assume g: "UUID (gr_id x) = Some g"
  from assms(2) obtain y where y: "get_group h (s_db w) = Some x" "gr_owner_id x = se_user_id s"
    by (auto simp: owned_group_def seq_def read_db_def ret_def throw_def split: option.splits if_splits)
  then obtain r where r: "x = to_group r" "r \<in> set (groups (s_db w))"
    by (auto simp: get_group_def group_row_def bind_eq_Some_conv dest: find_in)
  with held_group [of db0 g "s_db w" r] g assms(1,3) y show False
    by (simp add: site_inv_def group_owner_def) (simp add: to_group_def)
qed

lemma register_steady:
  assumes "q_id q < 2 ^ 128" "code \<noteq> Some (invite_code db0 g)"
  shows "keeps (steady db0 g) (register env q a n e p d code)"
  unfolding register_def
proof (rule keeps_seq [OF site_keeps_limits(2)],
    rule keeps_seq_value [where V = "\<lambda>v. case v of None \<Rightarrow> True | Some x \<Rightarrow> UUID (gr_id x) \<noteq> Some g", OF keeps_resolve_invite])
  fix w v w' assume "steady db0 g w" "resolve_invite code w = (Inr v, w')"
  then show "case v of None \<Rightarrow> True | Some x \<Rightarrow> UUID (gr_id x) \<noteq> Some g"
    using invite_steady [OF _ _ assms(2)] by (auto split: option.split)
next
  fix v assume "case v of None \<Rightarrow> True | Some x \<Rightarrow> UUID (gr_id x) \<noteq> Some g"
  then show "keeps (steady db0 g) (seq (try_except (try_db (create_user (q_id q) n e (e_hash env p) STUDENT d (v \<noteq> None) (q_now q)))
            invalid_if_taken) (\<lambda>user.
     seq (case v of None \<Rightarrow> ret False | Some g \<Rightarrow> try_db (add_member (gr_id g) (us_id user))) (\<lambda>_.
       ret \<lparr>rg_id = us_id user, rg_name = us_name user, rg_role = us_role user, rg_active = us_active user,
            rg_group = map_option gr_name v\<rparr>)))"
    using assms(1) by (cases v) (auto intro!: step_intros dest: new_user_held add_member_held)
qed

lemma owned_then_steady:
  assumes "se_user_id s \<noteq> group_owner db0 g" "\<And>x. UUID (gr_id x) \<noteq> Some g \<Longrightarrow> keeps (steady db0 g) (f x)"
  shows "keeps (steady db0 g) (seq (owned_group h s) f)"
  by (rule keeps_seq_value [where V = "\<lambda>x. UUID (gr_id x) \<noteq> Some g", OF owned_keeps]) (use owned_steady assms in blast)+

lemma foreign_request:
  assumes "held_roster db0 g d" "get_request r d = Some y" "UUID (jr_group_id y) \<noteq> Some g" "UUID (jr_id y) = Some u" "request_row d u = Some x"
  shows "j_group x \<noteq> g"
proof
  assume x: "j_group x = g"
  from assms(1) have ok: "groups_ok d" and "group_row d g \<noteq> None" by (auto simp: held_roster_def)
  then have "g < 2 ^ 128" using groups_ok_pk [OF ok] by auto
  from assms(2) obtain i z where z: "request_row d i = Some z" "y = to_request z" by (auto simp: get_request_def bind_eq_Some_conv)
  from request_row_pk [OF z(1)] ok have "j_pk z = i" "i < 2 ^ 128" by (auto simp: groups_ok_def)
  with assms(4,5) z have "x = z" by (simp add: to_request_def)
  with z assms(3) x \<open>g < 2 ^ 128\<close> show False by (simp add: to_request_def)
qed

lemma decide_steady:
  assumes "UUID (gr_id x) \<noteq> Some g"
  shows "keeps (steady db0 g) (seq (read_db (get_request r)) (\<lambda>found.
       case found of
         None \<Rightarrow> throw not_found
       | Some r \<Rightarrow>
           if jr_group_id r \<noteq> gr_id x then throw not_found
           else seq (try_db (decide_request (jr_id r) approved now)) (\<lambda>ok. if \<not> ok then throw invalid else ret ())))"
    (is "keeps _ ?m")
proof (rule keepsI)
  fix w assume w: "steady db0 g w"
  then have h: "held_roster db0 g (s_db w)" by (simp add: site_inv_def)
  show "steady db0 g (snd (?m w))"
  proof (cases "\<exists>y b d. get_request r (s_db w) = Some y \<and> jr_group_id y = gr_id x \<and>
      decide_request (jr_id y) approved now (s_db w) = Inr (b, d)")
    case True
    then obtain y b d where y: "get_request r (s_db w) = Some y" "jr_group_id y = gr_id x"
      "decide_request (jr_id y) approved now (s_db w) = Inr (b, d)" by blast
    have "held_roster db0 g d"
      using foreign_request [OF h y(1)] y(2) assms by (intro decide_held [OF h y(3)]) auto
    then have "steady db0 g (w\<lparr>s_db := d\<rparr>)" by (simp add: site_inv_def)
    with y show ?thesis by (simp add: seq_def read_db_def try_db_def throw_def ret_def)
  next
    case False
    then have "snd (?m w) = w"
      by (auto simp: seq_def read_db_def try_db_def throw_def ret_def split: option.splits sum.splits)
    with w show ?thesis by simp
  qed
qed

lemma admin_calls_steady:
  assumes "q_id q < 2 ^ 128"
  shows "keeps (steady db0 g) (admin_create_user env q t n e p ro dep)" "keeps (steady db0 g) (admin_update_user env q t u c)"
    "keeps (steady db0 g) (admin_create_group env q t n oid)"
proof -
  have adm: "keeps (site_inv Q W) (admin_user env q t)" for Q :: "'x \<Rightarrow> bool" and W
    unfolding admin_user_def require_admin_def by (intro step_intros)
  note new_user_held [OF _ _ assms, dest] new_group_held [OF _ _ assms, dest]
  have upd: "held_roster db0 g (snd (set_active u a d))" "held_roster db0 g (snd (update_profile u ro qt qr dp d))"
    if "held_roster db0 g d" for a ro qt qr dp d
    unfolding set_active_def update_profile_def
    by (rule changed_user_held [OF that surjective_pairing]; auto simp: Let_def split: option.splits)+
  show "keeps (steady db0 g) (admin_create_user env q t n e p ro dep)"
    unfolding admin_create_user_def by (intro adm step_intros) auto
  show "keeps (steady db0 g) (admin_update_user env q t u c)"
    unfolding admin_update_user_def by (intro adm step_intros upd) auto
  show "keeps (steady db0 g) (admin_create_group env q t n oid)"
    unfolding admin_create_group_def by (intro adm step_intros) auto
qed

lemma group_calls_steady:
  assumes "steady db0 g w" "\<not> acts_for {group_owner db0 g} (actor q t w)"
  shows "steady db0 g (snd (group_add_member env q t h n w))" "steady db0 g (snd (group_remove_member env q t h u w))"
    "steady db0 g (snd (group_decide env q t h r a w))"
proof -
  have s: "se_user_id s \<noteq> group_owner db0 g" if "actor q t w = Some s" for s
    using assms(2) that by (simp add: acts_for_def)
  note add_member_held [dest] 
  show "steady db0 g (snd (group_add_member env q t h n w))"
    unfolding group_add_member_def
    by (rule protected_then [OF assms(1)], rule owned_then_steady [OF s], assumption) (auto intro!: step_intros)
  show "steady db0 g (snd (group_remove_member env q t h u w))"
    unfolding group_remove_member_def
    by (rule protected_then [OF assms(1)], rule owned_then_steady [OF s], assumption) (auto intro!: step_intros remove_member_held)
  show "steady db0 g (snd (group_decide env q t h r a w))"
    unfolding group_decide_def
    by (rule protected_then [OF assms(1)], rule owned_then_steady [OF s], assumption) (rule decide_steady)
qed

lemma serve_steady:
  assumes "steady db0 g w" "q_id q < 2 ^ 128" "\<not> acts_for {group_owner db0 g} (actor q (call_token c) w)"
    and "\<And>a n e p d. c \<noteq> Register a n e p d (Some (invite_code db0 g))"
  shows "steady db0 g (serve env (q, c) w)"
proof -
  have open_calls: "keeps (steady db0 g) (login env q a n p)" "keeps (steady db0 g) (logout env q t)" "keeps (steady db0 g) (group_apply env q t h)"
    for a n p t h
    unfolding login_def logout_def group_apply_def using assms(2) by (intro step_intros request_held; simp)+
  show ?thesis
    using assms(3,4) group_calls_steady [OF assms(1)] admin_calls_steady [OF assms(2), THEN keepsD, OF assms(1)]
      open_calls [THEN keepsD, OF assms(1)] site_keeps(3) [THEN keepsD, OF assms(1)]
      register_steady [OF assms(2), THEN keepsD, OF _ assms(1)]
    by (cases c) (auto simp: run_handler_def)
qed

lemma serve_all_steady:
  "\<lbrakk>serve_all env cs w = (as, w'); steady db0 g w; \<forall>(q, c)\<in>set cs. q_id q < 2 ^ 128;
    \<forall>a\<in>set as. \<not> acts_for {group_owner db0 g} a;
    \<forall>(q, c)\<in>set cs. \<forall>a n e p d. c \<noteq> Register a n e p d (Some (invite_code db0 g))\<rbrakk> \<Longrightarrow> steady db0 g w'"
proof (induction cs arbitrary: w as)
  case (Cons qc cs)
  obtain q c where qc: "qc = (q, c)" by fastforce
  from Cons.prems(1) obtain as' where 1: "serve_all env cs (serve env (q, c) w) = (as', w')" "as = actor q (call_token c) w # as'"
    by (auto simp: qc split: prod.splits)
  have "steady db0 g (serve env (q, c) w)" using Cons.prems 1 by (intro serve_steady) (auto simp: qc)
  from Cons.IH [OF 1(1) this] Cons.prems 1 show ?case by simp
qed simp

text \<open>C12. Who belongs to a group is decided by its owner and by who holds its invite code: over any sequence of requests of other
  people, administrators and the creation of other groups included, in which nobody registers with the group's invite code, its
  row and its roster stay as they were.\<close>

theorem roster_owned:
  assumes "groups_ok (s_db w)" "group_row (s_db w) g = Some r" "\<forall>(q, c)\<in>set cs. q_id q < 2 ^ 128" "serve_all env cs w = (as, w')"
    and "\<forall>a\<in>set as. \<not> acts_for {uuid_hex (g_owner r)} a"
    and "\<forall>(q, c)\<in>set cs. \<forall>a n e p d. c \<noteq> Register a n e p d (Some (g_code r))"
  shows "group_row (s_db w') g = Some r \<and> roster (s_db w') g = roster (s_db w) g"
proof -
  have "steady (s_db w) g w" using assms(1,2) by (simp add: site_inv_def held_roster_def)
  from serve_all_steady [OF assms(4) this assms(3)] assms(2,5,6) show ?thesis
    by (simp add: group_owner_def invite_code_def site_inv_def held_roster_def)
qed

section \<open>Runs\<close>

definition example_env :: Env where
  "example_env = \<lparr>e_hash = (\<lambda>p. p), e_verify = (\<lambda>h p. Inr (h = p)), e_ttl = 1000, e_limit = 9, e_window = 60, e_coll = length\<rparr>"

definition example_account :: "uuid \<Rightarrow> string \<Rightarrow> UserRole \<Rightarrow> UserRecord" where
  "example_account i n ro = \<lparr>u_pk = i, u_name = n, u_email = n @ ''@x'', u_dept = [], u_hash = ''pw'', u_role = ro,
     u_quota_tokens = None, u_quota_runs = None, u_active = True, u_created = 0\<rparr>"

definition example_session :: "uuid \<Rightarrow> UserRole \<Rightarrow> Session" where
  "example_session i ro = \<lparr>se_user_id = uuid_hex i, se_name = [], se_role = ro, se_email = []\<rparr>"

definition example_site :: "GroupDb Site" where
  "example_site =
     \<lparr>s_db = \<lparr>users = [example_account 1 ''ann'' ADMIN, example_account 2 ''ben'' ADMIN, example_account 3 ''cat'' STUDENT],
               groups = [\<lparr>g_pk = 5, g_name = ''g'', g_owner = 2, g_code = ''c'', g_created = 0\<rparr>], members = [(2, 5)],
               join_requests = []\<rparr>,
      s_sessions = [session_key ''t1'' \<mapsto> (example_session 1 ADMIN, 500), session_key ''t2'' \<mapsto> (example_session 2 ADMIN, 500),
                    session_key ''t3'' \<mapsto> (example_session 3 STUDENT, 500)],
      s_rate = Map.empty\<rparr>"

definition example_req :: "nat \<Rightarrow> Req" where
  "example_req n = \<lparr>q_now = int n, q_id = 100 + n, q_token = ''new'', q_code = ''new'', q_hit = 200 + n\<rparr>"

lemma example_site_ok: "groups_ok (s_db example_site)"
  by (simp add: groups_ok_def users_ok_def example_site_def example_account_def user_row_def group_row_def member_refs_def)

lemma session_key_inj [simp]: "session_key a = session_key b \<longleftrightarrow> a = b"
  by (simp add: session_key_def)

lemma small_hex_inj [simp]: "u < 1000 \<Longrightarrow> v < 1000 \<Longrightarrow> uuid_hex u = uuid_hex v \<longleftrightarrow> u = v"
  by (rule uuid_hex_inj) simp_all

lemma example_identities:
  "s \<in> identities example_site \<Longrightarrow> s \<in> {example_session 1 ADMIN, example_session 2 ADMIN, example_session 3 STUDENT}"
  by (auto simp: identities_def example_site_def split: if_splits)

lemmas example_simps = example_site_def example_env_def example_req_def example_session_def example_account_def
  run_handler_def actor_def protected_def require_user_def resolve_session_def limit_by_user_def limit_by_address_def limit_key_def
  rate_allow_def rate_count_def rate_record_def live_hits_def seq_def ret_def throw_def read_db_def on_db_def try_db_def try_except_def
  admin_user_def require_admin_def Let_def

text \<open>An anonymous registration, a student's request to add a member to a group of somebody else, and a read.\<close>

definition example_run :: "(Req \<times> api_call) list" where
  "example_run = [(example_req 1, Register None ''eve'' ''e@x'' ''pw'' [] None), (example_req 2, AddMember (Some ''t3'') (uuid_hex 5) ''cat''),
     (example_req 3, AnyRead (Some ''t3''))]"

lemma example_calls:
  "fst (serve_all example_env example_run example_site) = [None, Some (example_session 3 STUDENT), Some (example_session 3 STUDENT)]"
  "map u_role (users (s_db (snd (serve_all example_env example_run example_site)))) = [ADMIN, ADMIN, STUDENT, STUDENT]"
  by (simp_all add: example_run_def example_simps register_def resolve_invite_def create_user_def sql_insert_def user_clash_def
      group_add_member_def owned_group_def get_group_def group_row_def to_group_def)

lemma example_run_ok: "\<forall>(q, c)\<in>set example_run. q_id q < 2 ^ 128"
  by (simp add: example_run_def example_req_def)

lemma example_admins: "admin_ids (s_db example_site) = {uuid_hex 1, uuid_hex 2}"
  by (simp add: admin_ids_def example_site_def example_account_def)

lemma privileges_from_admins_witness:
  "set (users (s_db example_site)) \<subseteq> set (users (s_db (snd (serve_all example_env example_run example_site)))) \<and>
   map u_role (users (s_db (snd (serve_all example_env example_run example_site)))) = [ADMIN, ADMIN, STUDENT, STUDENT]"
proof -
  obtain as w' where r: "serve_all example_env example_run example_site = (as, w')" by fastforce
  have "\<forall>a\<in>set as. \<not> acts_for (admin_ids (s_db example_site)) a"
    using example_calls(1) r by (simp add: example_admins acts_for_def example_session_def)
  moreover have "\<forall>s\<in>identities example_site. se_role s = ADMIN \<longrightarrow> se_user_id s \<in> admin_ids (s_db example_site)"
    using example_identities by (fastforce simp: example_admins example_session_def)
  moreover have "users_ok (s_db example_site)" using example_site_ok by (simp add: groups_ok_def)
  ultimately show ?thesis using privileges_from_admins [OF _ _ example_run_ok r] example_calls(2) r by simp
qed

lemma roster_owned_witness: "roster (s_db (snd (serve_all example_env example_run example_site))) 5 = {2}"
proof -
  obtain as w' where r: "serve_all example_env example_run example_site = (as, w')" by fastforce
  let ?g = "\<lparr>g_pk = 5, g_name = ''g'', g_owner = 2, g_code = ''c'', g_created = 0\<rparr>"
  have g: "group_row (s_db example_site) 5 = Some ?g" by (simp add: example_site_def group_row_def)
  have "\<forall>a\<in>set as. \<not> acts_for {uuid_hex (g_owner ?g)} a"
    using example_calls(1) r by (simp add: acts_for_def example_session_def)
  from roster_owned [OF example_site_ok g example_run_ok r this] r show ?thesis
    by (simp add: example_run_def roster_def) (simp add: example_site_def)
qed

text \<open>An administrator takes the role from another one; the session of the other still carries it, is accepted by \<open>require_admin\<close>,
  and gives the role back. The role in a session is only renewed by a new login, and every use moves the end of the session.\<close>

definition set_role :: "UserRole \<Rightarrow> UserChange" where
  "set_role r = \<lparr>ch_active = None, ch_role = Some r, ch_quota_tokens = None, ch_quota_runs = None, ch_dept = None\<rparr>"

lemma demoted_admin_keeps_power:
  "map (map u_role \<circ> users \<circ> s_db)
     [serve example_env (example_req 1, UpdateUser (Some ''t1'') (uuid_hex 2) (set_role STUDENT)) example_site,
      snd (serve_all example_env [(example_req 1, UpdateUser (Some ''t1'') (uuid_hex 2) (set_role STUDENT)),
        (example_req 2, UpdateUser (Some ''t2'') (uuid_hex 2) (set_role ADMIN))] example_site)] =
   [[ADMIN, STUDENT, STUDENT], [ADMIN, ADMIN, STUDENT]]"
  by (simp add: example_simps admin_update_user_def set_role_def update_profile_def change_user_def user_row_def get_user_def
      sql_update_def to_user_def)

text \<open>The endpoint compares the text of the URL with the owner's id, the repository accepts every spelling of an id: the owner can be
  taken off the roster of the own group.\<close>

lemma owner_removed_by_other_spelling:
  "roster (s_db (serve example_env (example_req 1, RemoveMember (Some ''t2'') (uuid_hex 5) (uuid_hex 2)) example_site)) 5 = {2} \<and>
   roster (s_db (serve example_env (example_req 1, RemoveMember (Some ''t2'') (uuid_hex 5) (uuid_str 2)) example_site)) 5 = {}"
  by (simp add: example_simps group_remove_member_def owned_group_def get_group_def group_row_def to_group_def remove_member_def
      roster_def uuid_str_neq_hex)

end
