(* ===== verification/Thread_Repository.thy ===== *)
theory Thread_Repository
  imports Run_Repository
begin

text \<open>
  The \<open>threads\<close> table, the outbox of workspaces to remove and their repository (\<open>app/thread/model.py\<close>, \<open>app/thread/purge.py\<close>,
  \<open>app/thread/repository.py\<close>). \<open>'c\<close> is the stored agent configuration, a JSON value the repository never looks into. The cursor codec
  and the meaning of \<open>ILIKE\<close> are arguments of the query that uses them.
\<close>

record 'c ThreadRecord =
  th_pk :: uuid
  th_user :: uuid
  th_title :: string
  th_config :: 'c
  th_created :: datetime
  th_updated :: datetime
  th_deleted :: "datetime option"

record ThreadPurgeRecord =
  pu_thread :: uuid
  pu_requested :: datetime
  pu_completed :: "datetime option"
  pu_attempts :: nat
  pu_error :: "string option"

record 'c ThreadDb =
  threads :: "'c ThreadRecord list"
  purges :: "ThreadPurgeRecord list"

record 'c Thread =
  t_id :: string
  t_user :: string
  t_title :: string
  t_config :: 'c
  t_created :: datetime
  t_updated :: datetime

record PurgeJob =
  pj_thread_id :: string
  pj_requested_at :: datetime
  pj_attempts :: nat
  pj_last_error :: "string option"

definition to_thread :: "'c ThreadRecord \<Rightarrow> 'c Thread" where
  "to_thread r = \<lparr>t_id = uuid_hex (th_pk r), t_user = uuid_hex (th_user r), t_title = th_title r, t_config = th_config r,
     t_created = th_created r, t_updated = th_updated r\<rparr>"

section \<open>The repository\<close>

definition visible :: "uuid \<Rightarrow> 'c ThreadRecord \<Rightarrow> bool" where
  "visible owner r \<longleftrightarrow> th_user r = owner \<and> th_deleted r = None"

definition find_thread :: "string \<Rightarrow> string \<Rightarrow> 'c ThreadDb \<Rightarrow> 'c ThreadRecord option" where
  "find_thread thread_id user_id db =
     (case (UUID thread_id, UUID user_id) of
        (Some i, Some owner) \<Rightarrow> find (\<lambda>r. th_pk r = i \<and> visible owner r) (threads db)
      | _ \<Rightarrow> None)"

definition create_thread :: "uuid \<Rightarrow> 'c \<Rightarrow> string \<Rightarrow> string \<Rightarrow> datetime \<Rightarrow> 'c ThreadDb \<Rightarrow> ('c Thread \<times> 'c ThreadDb) result" where
  "create_thread new_id blank user_id title now db =
     (case UUID user_id of
        None \<Rightarrow> Inl ValueError
      | Some owner \<Rightarrow>
          let r = \<lparr>th_pk = new_id, th_user = owner, th_title = title, th_config = blank, th_created = now, th_updated = now,
                   th_deleted = None\<rparr> in
          result_bind (sql_insert (\<lambda>r x. th_pk x = th_pk r) r (threads db)) (\<lambda>rows. Inr (to_thread r, db\<lparr>threads := rows\<rparr>)))"

definition get_thread :: "string \<Rightarrow> string \<Rightarrow> 'c ThreadDb \<Rightarrow> 'c Thread option" where
  "get_thread thread_id user_id db = map_option to_thread (find_thread thread_id user_id db)"

definition active_thread :: "string \<Rightarrow> string \<Rightarrow> 'c ThreadDb \<Rightarrow> bool" where
  "active_thread thread_id user_id db \<longleftrightarrow> get_thread thread_id user_id db \<noteq> None"

definition thread_pos :: "'c ThreadRecord \<Rightarrow> datetime \<times> uuid" where
  "thread_pos r = (th_updated r, th_pk r)"

definition list_threads ::
    "(datetime \<times> uuid \<Rightarrow> string) \<Rightarrow> (string \<Rightarrow> (datetime \<times> uuid) result) \<Rightarrow> (string \<Rightarrow> string \<Rightarrow> bool) \<Rightarrow>
     string \<Rightarrow> string option \<Rightarrow> nat \<Rightarrow> string option \<Rightarrow> 'c ThreadDb \<Rightarrow> ('c Thread list \<times> string option) result" where
  "list_threads enc dec ilike user_id cursor limit query db =
     (case UUID user_id of
        None \<Rightarrow> Inr ([], None)
      | Some owner \<Rightarrow>
          result_bind (case cursor of None \<Rightarrow> Inr None | Some c \<Rightarrow> result_bind (dec c) (\<lambda>p. Inr (Some p))) (\<lambda>after.
            let selected = filter (\<lambda>r. visible owner r \<and>
                  (case query of None \<Rightarrow> True | Some s \<Rightarrow> s = [] \<or> ilike (''%'' @ s @ ''%'') (th_title r)) \<and>
                  (case after of None \<Rightarrow> True | Some p \<Rightarrow> thread_pos r < p)) (threads db);
                found = take (limit + 1) (rev (sort_key thread_pos selected))
            in case split_page found limit of
                 (page, has_more) \<Rightarrow>
                   if \<not> has_more then Inr (map to_thread page, None)
                   else if page = [] then Inl IndexError
                   else Inr (map to_thread page, Some (enc (thread_pos (last page))))))"

definition set_row :: "uuid \<Rightarrow> ('c ThreadRecord \<Rightarrow> 'c ThreadRecord) \<Rightarrow> 'c ThreadDb \<Rightarrow> 'c ThreadDb" where
  "set_row i f db = db\<lparr>threads := map (\<lambda>r. if th_pk r = i then f r else r) (threads db)\<rparr>"

definition updated_row :: "string option \<Rightarrow> 'c option \<Rightarrow> datetime \<Rightarrow> 'c ThreadRecord \<Rightarrow> 'c ThreadRecord" where
  "updated_row title config now r =
     (let r = (case title of None \<Rightarrow> r | Some s \<Rightarrow> r\<lparr>th_title := s\<rparr>);
          r = (case config of None \<Rightarrow> r | Some c \<Rightarrow> r\<lparr>th_config := c\<rparr>)
      in r\<lparr>th_updated := now\<rparr>)"

definition update_thread ::
    "string \<Rightarrow> string \<Rightarrow> string option \<Rightarrow> 'c option \<Rightarrow> datetime \<Rightarrow> 'c ThreadDb \<Rightarrow> 'c Thread option \<times> 'c ThreadDb" where
  "update_thread thread_id user_id title config now db =
     (case find_thread thread_id user_id db of
        None \<Rightarrow> (None, db)
      | Some r \<Rightarrow> (Some (to_thread (updated_row title config now r)), set_row (th_pk r) (updated_row title config now) db))"

definition touch_thread :: "string \<Rightarrow> string \<Rightarrow> datetime \<Rightarrow> 'c ThreadDb \<Rightarrow> 'c ThreadDb" where
  "touch_thread thread_id user_id now db = snd (update_thread thread_id user_id None None now db)"

text \<open>The mark and the entry of the outbox are one transaction.\<close>

definition delete_thread :: "string \<Rightarrow> string \<Rightarrow> datetime \<Rightarrow> 'c ThreadDb \<Rightarrow> (bool \<times> 'c ThreadDb) result" where
  "delete_thread thread_id user_id now db =
     (case find_thread thread_id user_id db of
        None \<Rightarrow> Inr (False, db)
      | Some r \<Rightarrow>
          result_bind (sql_insert (\<lambda>p x. pu_thread x = pu_thread p)
              \<lparr>pu_thread = th_pk r, pu_requested = now, pu_completed = None, pu_attempts = 0, pu_error = None\<rparr> (purges db))
            (\<lambda>ps. Inr (True, (set_row (th_pk r) (\<lambda>r. r\<lparr>th_deleted := Some now\<rparr>) db)\<lparr>purges := ps\<rparr>)))"

definition pending_purge :: "nat \<Rightarrow> 'c ThreadDb \<Rightarrow> PurgeJob list" where
  "pending_purge limit db =
     map (\<lambda>p. \<lparr>pj_thread_id = uuid_hex (pu_thread p), pj_requested_at = pu_requested p, pj_attempts = pu_attempts p,
               pj_last_error = pu_error p\<rparr>)
       (take limit (sort_key pu_requested (filter (\<lambda>p. pu_completed p = None) (purges db))))"

definition change_purge :: "string \<Rightarrow> (ThreadPurgeRecord \<Rightarrow> ThreadPurgeRecord) \<Rightarrow> 'c ThreadDb \<Rightarrow> 'c ThreadDb" where
  "change_purge thread_id f db =
     (case UUID thread_id of
        None \<Rightarrow> db
      | Some i \<Rightarrow> db\<lparr>purges := map (\<lambda>p. if pu_thread p = i \<and> pu_completed p = None then f p else p) (purges db)\<rparr>)"

definition fail_purge :: "string \<Rightarrow> string \<Rightarrow> 'c ThreadDb \<Rightarrow> 'c ThreadDb" where
  "fail_purge thread_id err = change_purge thread_id (\<lambda>p. p\<lparr>pu_attempts := pu_attempts p + 1, pu_error := Some err\<rparr>)"

definition complete_purge :: "string \<Rightarrow> datetime \<Rightarrow> 'c ThreadDb \<Rightarrow> 'c ThreadDb" where
  "complete_purge thread_id now = change_purge thread_id (\<lambda>p. p\<lparr>pu_completed := Some now, pu_error := None\<rparr>)"

definition purge_thread :: "string \<Rightarrow> string \<Rightarrow> 'c ThreadDb \<Rightarrow> 'c ThreadDb" where
  "purge_thread thread_id user_id db =
     (case find_thread thread_id user_id db of
        None \<Rightarrow> db
      | Some r \<Rightarrow> db\<lparr>threads := filter (\<lambda>x. th_pk x \<noteq> th_pk r) (threads db)\<rparr>)"

section \<open>A user only meets the own threads\<close>

text \<open>The rows of one owner that are not deleted, in the order of the table.\<close>

definition own :: "string \<Rightarrow> 'c ThreadDb \<Rightarrow> 'c ThreadDb" where
  "own user_id db = db\<lparr>threads := (case UUID user_id of None \<Rightarrow> [] | Some u \<Rightarrow> filter (visible u) (threads db))\<rparr>"

definition others :: "string \<Rightarrow> 'c ThreadDb \<Rightarrow> 'c ThreadRecord list" where
  "others user_id db = filter (\<lambda>r. UUID user_id \<noteq> Some (th_user r)) (threads db)"

definition threads_ok :: "'c ThreadDb \<Rightarrow> bool" where
  "threads_ok db \<longleftrightarrow> distinct (map th_pk (threads db)) \<and> (\<forall>r\<in>set (threads db). th_pk r < 2 ^ 128)"

lemma find_filter: "find p (filter q xs) = find (\<lambda>x. q x \<and> p x) xs"
  by (induction xs) auto

lemma find_thread_own: "find_thread i u (own u db) = find_thread i u db"
  by (auto simp: find_thread_def own_def find_filter conj_commute conj_left_commute split: option.split intro!: arg_cong [where f = "\<lambda>p. find p (threads db)"])

lemma find_thread_row:
  "find_thread i u db = Some r \<Longrightarrow> r \<in> set (threads db) \<and> UUID i = Some (th_pk r) \<and> UUID u = Some (th_user r) \<and> th_deleted r = None"
  by (auto simp: find_thread_def visible_def split: option.splits dest: find_in)

lemma filter_same_key:
  assumes "distinct (map th_pk rs)" "r \<in> set rs" "\<not> q r" "\<And>x. th_pk (f x) = th_pk x" "\<not> q (f r)"
  shows "filter q (map (\<lambda>x. if th_pk x = th_pk r then f x else x) rs) = filter q rs"
  using assms(1,2)
proof (induction rs)
  case (Cons a rs)
  show ?case
  proof (cases "a = r")
    case True
    with Cons.prems have "map (\<lambda>x. if th_pk x = th_pk r then f x else x) rs = rs"
      by (intro map_idI) (auto simp: image_iff)
    with True assms(3,5) show ?thesis by simp
  next
    case False
    with Cons have "th_pk a \<noteq> th_pk r" by (auto simp: image_iff)
    with Cons False show ?thesis by auto
  qed
qed simp

text \<open>C40. Threads of different users are isolated: what any call answers depends on the caller's own threads that are not deleted
  and on nothing else in the table, and a call changes no row of another user.\<close>

theorem thread_isolation:
  fixes db :: "'c ThreadDb"
  assumes "threads_ok db"
  shows "get_thread i u (own u db) = get_thread i u db \<and>
    list_threads enc dec ilike u c limit query (own u db) = list_threads enc dec ilike u c limit query db \<and>
    fst (update_thread i u title cfg now (own u db)) = fst (update_thread i u title cfg now db) \<and>
    others u (snd (update_thread i u title cfg now db)) = others u db \<and>
    (\<forall>b d. delete_thread i u now db = Inr (b, d) \<longrightarrow> b = (get_thread i u (own u db) \<noteq> None) \<and> others u d = others u db) \<and>
    others u (purge_thread i u db) = others u db"
proof (intro conjI allI impI)
  show "get_thread i u (own u db) = get_thread i u db" by (simp add: get_thread_def find_thread_own)
  show "list_threads enc dec ilike u c limit query (own u db) = list_threads enc dec ilike u c limit query db"
    by (simp add: list_threads_def own_def conj_ac split: option.split)
  show "fst (update_thread i u title cfg now (own u db)) = fst (update_thread i u title cfg now db)"
    by (simp add: update_thread_def find_thread_own split: option.split)
  have set_row: "others u (set_row (th_pk r) f db) = others u db"
    if "find_thread i u db = Some r" "\<And>x. th_pk (f x) = th_pk x" "\<And>x. th_user (f x) = th_user x" for r f
    using find_thread_row [OF that(1)] assms that(2,3)
    by (auto simp: others_def set_row_def threads_ok_def intro!: filter_same_key)
  show "others u (snd (update_thread i u title cfg now db)) = others u db"
    by (auto simp: update_thread_def updated_row_def Let_def split: option.split intro!: set_row)
  fix b d assume d: "delete_thread i u now db = Inr (b, d)"
  show "b = (get_thread i u (own u db) \<noteq> None)"
    using d by (auto simp: delete_thread_def result_bind_Inr_iff get_thread_def find_thread_own split: option.splits)
  have "others u d = others u (set_row (th_pk r) (\<lambda>r. r\<lparr>th_deleted := Some now\<rparr>) db)" if "find_thread i u db = Some r" for r
    using d that by (auto simp: delete_thread_def result_bind_Inr_iff others_def)
  then show "others u d = others u db"
    using d set_row by (cases "find_thread i u db") (auto simp: delete_thread_def)
next
  have "filter (\<lambda>r. UUID u \<noteq> Some (th_user r)) (filter (\<lambda>x. th_pk x \<noteq> th_pk r) (threads db)) =
      filter (\<lambda>r. UUID u \<noteq> Some (th_user r)) (threads db)" if "find_thread i u db = Some r" for r
    unfolding filter_filter using find_thread_row [OF that] assms
    by (intro filter_cong) (auto simp: threads_ok_def distinct_map inj_on_def)
  then show "others u (purge_thread i u db) = others u db"
    by (auto simp: others_def purge_thread_def split: option.split)
qed

definition example_threads :: "string ThreadDb" where
  "example_threads = \<lparr>threads =
     [\<lparr>th_pk = 1, th_user = 7, th_title = ''a'', th_config = ''{}'', th_created = 1, th_updated = 5, th_deleted = None\<rparr>,
      \<lparr>th_pk = 2, th_user = 8, th_title = ''b'', th_config = ''{}'', th_created = 2, th_updated = 6, th_deleted = None\<rparr>],
     purges = []\<rparr>"

theorem thread_isolation_witness:
  "others (uuid_hex 7) (snd (update_thread (uuid_hex 2) (uuid_hex 7) (Some ''x'') None 9 example_threads)) =
   [\<lparr>th_pk = 2, th_user = 8, th_title = ''b'', th_config = ''{}'', th_created = 2, th_updated = 6, th_deleted = None\<rparr>]"
proof -
  have "threads_ok example_threads" by (simp add: threads_ok_def example_threads_def)
  from thread_isolation [OF this]
  have "others (uuid_hex 7) (snd (update_thread (uuid_hex 2) (uuid_hex 7) (Some ''x'') None 9 example_threads)) =
      others (uuid_hex 7) example_threads" by blast
  also have "\<dots> = [\<lparr>th_pk = 2, th_user = 8, th_title = ''b'', th_config = ''{}'', th_created = 2, th_updated = 6, th_deleted = None\<rparr>]"
    by (simp add: others_def example_threads_def)
  finally show ?thesis .
qed

end
