(* ===== verification/Path_Resolve.thy ===== *)
theory Path_Resolve
  imports Prelude "HOL-Library.Sublist"
begin

text \<open>
  Host paths and symbolic links. A file system is an association list from paths to nodes, a path the list of its components from
  the root. \<open>real\<close> is what \<open>Path.resolve\<close> computes in its lenient mode: links are expanded, a component that does not exist is kept as
  it is, and so is a link met again while it is being expanded (\<open>os.path.realpath\<close> also keeps the links it has expanded in a cache,
  which changes nothing but the path it reports for a loop). \<open>kernel_walk\<close> is what a system call does with a path, up to the last
  component: it fails on a missing directory and after forty links. The main lemma relates the two: what \<open>real\<close> returns is a path
  that a system call follows literally, unless it fails.
\<close>

section \<open>Nodes and paths\<close>

type_synonym path = "string list"

datatype 'b node = Directory | Regular 'b | Link string

type_synonym 'b fs = "(path \<times> 'b node) list"

abbreviation PathEscapeError :: exn where "PathEscapeError \<equiv> OtherError ''PathEscapeError''"
abbreviation NotADirectoryError :: exn where "NotADirectoryError \<equiv> OtherError ''NotADirectoryError''"
abbreviation IsADirectoryError :: exn where "IsADirectoryError \<equiv> OtherError ''IsADirectoryError''"
abbreviation FileExistsError :: exn where "FileExistsError \<equiv> OtherError ''FileExistsError''"
abbreviation LinkLoopError :: exn where "LinkLoopError \<equiv> OtherError ''OSError: ELOOP''"

fun split_sep :: "string \<Rightarrow> string list" where
  "split_sep [] = [[]]"
| "split_sep (c # s) = (if c = CHR ''/'' then [] # split_sep s else (c # hd (split_sep s)) # tl (split_sep s))"

definition is_absolute :: "string \<Rightarrow> bool" where
  "is_absolute s \<longleftrightarrow> s \<noteq> [] \<and> hd s = CHR ''/''"

text \<open>The parts of a \<open>pathlib\<close> path: empty components and single dots are dropped, \<open>..\<close> is kept.\<close>

definition path_parts :: "string \<Rightarrow> string list" where
  "path_parts s = filter (\<lambda>c. c \<noteq> [] \<and> c \<noteq> ''.'') (split_sep s)"

definition joinpath :: "path \<Rightarrow> string \<Rightarrow> path" where
  "joinpath base s = (if is_absolute s then path_parts s else base @ path_parts s)"

definition path_name :: "string \<Rightarrow> string" where
  "path_name s = (if path_parts s = [] then [] else last (path_parts s))"

definition links :: "'b fs \<Rightarrow> path set" where
  "links fs = {p. \<exists>t. map_of fs p = Some (Link t)}"

lemma finite_links: "finite (links fs)"
  by (rule finite_subset [OF _ finite_dom_map_of [of fs]]) (auto simp: links_def dom_def)

section \<open>Resolving\<close>

function expand :: "'b fs \<Rightarrow> path list \<Rightarrow> path \<Rightarrow> string list \<Rightarrow> path" where
  "expand fs active p [] = p"
| "expand fs active p (c # cs) =
     (if c = [] \<or> c = ''.'' then expand fs active p cs
      else if c = ''..'' then expand fs active (butlast p) cs
      else case map_of fs (p @ [c]) of
             Some (Link t) \<Rightarrow>
               if p @ [c] \<in> set active then expand fs active (p @ [c]) cs
               else expand fs active (expand fs ((p @ [c]) # active) (if is_absolute t then [] else p) (split_sep t)) cs
           | _ \<Rightarrow> expand fs active (p @ [c]) cs)"
  by pat_completeness auto

lemma unexpanded_decreases:
  assumes "map_of fs q = Some (Link t)" "q \<notin> set active"
  shows "card (links fs - insert q (set active)) < card (links fs - set active)"
proof -
  have "links fs - insert q (set active) = (links fs - set active) - {q}" by auto
  moreover have "q \<in> links fs - set active" using assms by (simp add: links_def)
  ultimately show ?thesis using finite_links [of fs] by (metis card_Diff1_less finite_Diff)
qed

termination expand
  by (relation "measures [\<lambda>(fs, active, p, cs). card (links fs - set active), \<lambda>(fs, active, p, cs). length cs]")
    (simp_all add: unexpanded_decreases)

definition real :: "'b fs \<Rightarrow> path \<Rightarrow> path" where
  "real fs p = expand fs [] [] p"

text \<open>A NUL character makes every system call on the path fail before it starts.\<close>

definition resolve_path :: "'b fs \<Rightarrow> path \<Rightarrow> string \<Rightarrow> path result" where
  "resolve_path fs base s = (if CHR 0x00 \<in> set s then Inl ValueError else Inr (real fs (joinpath base s)))"

section \<open>System calls\<close>

definition MAXSYMLINKS :: nat where "MAXSYMLINKS = 40"

function kernel_walk :: "'b fs \<Rightarrow> nat \<Rightarrow> path \<Rightarrow> string list \<Rightarrow> path result" where
  "kernel_walk fs n p [] = Inr p"
| "kernel_walk fs n p (c # cs) =
     (if map_of fs p \<noteq> Some Directory then Inl (if map_of fs p = None then FileNotFoundError else NotADirectoryError)
      else if c = [] \<or> c = ''.'' then kernel_walk fs n p cs
      else if c = ''..'' then kernel_walk fs n (butlast p) cs
      else case map_of fs (p @ [c]) of
             Some (Link t) \<Rightarrow>
               if n = 0 then Inl LinkLoopError
               else kernel_walk fs (n - 1) (if is_absolute t then [] else p) (split_sep t @ cs)
           | _ \<Rightarrow> kernel_walk fs n (p @ [c]) cs)"
  by pat_completeness auto

termination kernel_walk
  by (relation "measures [\<lambda>(fs, n, p, cs). n, \<lambda>(fs, n, p, cs). length cs]") auto

definition follow_path :: "'b fs \<Rightarrow> path \<Rightarrow> path result" where
  "follow_path fs p = kernel_walk fs MAXSYMLINKS [] p"

definition is_dir :: "'b fs \<Rightarrow> path \<Rightarrow> bool" where
  "is_dir fs p \<longleftrightarrow> (case follow_path fs p of Inl _ \<Rightarrow> False | Inr t \<Rightarrow> map_of fs t = Some Directory)"

definition is_file :: "'b fs \<Rightarrow> path \<Rightarrow> bool" where
  "is_file fs p \<longleftrightarrow> (case follow_path fs p of Inl _ \<Rightarrow> False | Inr t \<Rightarrow> (\<exists>b. map_of fs t = Some (Regular b)))"

text \<open>A tree: everything stands in a directory, and no name is one of those a walk treats specially.\<close>

definition proper :: "string \<Rightarrow> bool" where
  "proper c \<longleftrightarrow> c \<noteq> [] \<and> c \<noteq> ''.'' \<and> c \<noteq> ''..''"

definition fs_ok :: "'b fs \<Rightarrow> bool" where
  "fs_ok fs \<longleftrightarrow> map_of fs [] = Some Directory \<and>
     (\<forall>p c. map_of fs (p @ [c]) \<noteq> None \<longrightarrow> map_of fs p = Some Directory \<and> proper c)"

section \<open>A resolved path is followed literally\<close>

text \<open>\<open>leads\<close>: whatever comes after, a walk along the first components fails or goes on like one along the second, after \<open>j\<close> links.\<close>

definition leads :: "'b fs \<Rightarrow> path \<Rightarrow> string list \<Rightarrow> nat \<Rightarrow> path \<Rightarrow> string list \<Rightarrow> bool" where
  "leads fs p cs j p' cs' \<longleftrightarrow>
     (\<forall>n X. isl (kernel_walk fs n p (cs @ X)) \<or>
        j \<le> n \<and> kernel_walk fs n p (cs @ X) = kernel_walk fs (n - j) p' (cs' @ X))"

definition stuck :: "'b fs \<Rightarrow> path \<Rightarrow> bool" where
  "stuck fs q \<longleftrightarrow> (\<forall>n X. isl (kernel_walk fs n (butlast q) (last q # X)))"

definition clean :: "'b fs \<Rightarrow> path \<Rightarrow> bool" where
  "clean fs p \<longleftrightarrow> (\<forall>q t. prefix q p \<longrightarrow> map_of fs q = Some (Link t) \<longrightarrow> stuck fs q)"

lemma leads_refl: "leads fs p cs 0 p cs"
  by (simp add: leads_def)

lemma leads_append: "leads fs p cs j p' cs' \<Longrightarrow> leads fs p (cs @ Y) j p' (cs' @ Y)"
  by (simp add: leads_def)

lemma leads_trans:
  assumes 1: "leads fs p cs j p' cs'" and 2: "leads fs p' cs' k p'' cs''"
  shows "leads fs p cs (j + k) p'' cs''"
  unfolding leads_def
proof (intro allI)
  fix n X
  consider "isl (kernel_walk fs n p (cs @ X))" | "j \<le> n" "kernel_walk fs n p (cs @ X) = kernel_walk fs (n - j) p' (cs' @ X)"
    using 1 by (auto simp: leads_def)
  then show "isl (kernel_walk fs n p (cs @ X)) \<or>
      j + k \<le> n \<and> kernel_walk fs n p (cs @ X) = kernel_walk fs (n - (j + k)) p'' (cs'' @ X)"
  proof cases
    case 2
    then show ?thesis using assms(2) [unfolded leads_def, rule_format, of "n - j" X] by auto
  qed simp
qed

lemma leads_stuck: "stuck fs (p @ [c]) \<Longrightarrow> leads fs p (c # cs) j p' cs'"
  by (simp add: leads_def stuck_def)

lemma leads_dot: "c = [] \<or> c = ''.'' \<Longrightarrow> leads fs p (c # cs) 0 p cs"
  by (auto simp: leads_def)

lemma leads_dotdot: "c = ''..'' \<Longrightarrow> leads fs p (c # cs) 0 (butlast p) cs"
  by (auto simp: leads_def)

lemma leads_step:
  "c \<noteq> [] \<Longrightarrow> c \<noteq> ''.'' \<Longrightarrow> c \<noteq> ''..'' \<Longrightarrow> map_of fs (p @ [c]) \<notin> range (\<lambda>t. Some (Link t)) \<Longrightarrow> leads fs p (c # cs) 0 (p @ [c]) cs"
  by (auto simp: leads_def split: option.splits node.splits)

lemma leads_link:
  "c \<noteq> [] \<Longrightarrow> c \<noteq> ''.'' \<Longrightarrow> c \<noteq> ''..'' \<Longrightarrow> map_of fs (p @ [c]) = Some (Link t) \<Longrightarrow>
   leads fs p (c # cs) 1 (if is_absolute t then [] else p) (split_sep t @ cs)"
  by (auto simp: leads_def)

text \<open>A link that leads back to itself can never be walked through.\<close>

lemma loop_stuck:
  assumes "leads fs p [c] j p (c # cs)" "0 < j"
  shows "stuck fs (p @ [c])"
proof -
  have "isl (kernel_walk fs n p (c # X))" for n X
  proof (induction n arbitrary: X rule: less_induct)
    case (less n)
    show ?case
    proof (cases "isl (kernel_walk fs n p (c # X))")
      case False
      with assms(1) [unfolded leads_def, rule_format, of n X]
      have "j \<le> n" "kernel_walk fs n p (c # X) = kernel_walk fs (n - j) p (c # cs @ X)" by (simp_all del: kernel_walk.simps)
      then show ?thesis using less.IH [of "n - j" "cs @ X"] assms(2) by simp
    qed simp
  qed
  then show ?thesis by (simp add: stuck_def)
qed

lemma clean_butlast: "clean fs p \<Longrightarrow> clean fs (butlast p)"
  by (auto simp: clean_def intro: prefix_order.trans [OF _ prefixeq_butlast])

lemma clean_snoc: "clean fs p \<Longrightarrow> (\<And>t. map_of fs (p @ [c]) = Some (Link t) \<Longrightarrow> stuck fs (p @ [c])) \<Longrightarrow> clean fs (p @ [c])"
  by (auto simp: clean_def)

definition pending :: "'b fs \<Rightarrow> path list \<Rightarrow> path \<Rightarrow> string list \<Rightarrow> bool" where
  "pending fs active p cs \<longleftrightarrow>
     (\<forall>q\<in>set active. q \<noteq> [] \<and> (\<exists>j>0. \<exists>X. leads fs (butlast q) [last q] j p (cs @ X)))"

lemma pending_step:
  assumes "pending fs active p cs" "leads fs p cs j p' cs'"
  shows "pending fs active p' cs'"
  unfolding pending_def
proof (intro ballI conjI)
  fix q assume q: "q \<in> set active"
  then obtain i X where i: "0 < i" "leads fs (butlast q) [last q] i p (cs @ X)" using assms(1) by (auto simp: pending_def)
  from leads_trans [OF this(2) leads_append [OF assms(2)]] i(1)
  show "\<exists>j>0. \<exists>X. leads fs (butlast q) [last q] j p' (cs' @ X)" by (intro exI [of _ "i + j"]) auto
qed (use assms(1) in \<open>auto simp: pending_def\<close>)

lemma pending_inner:
  assumes "pending fs active p (ts @ cs)" "leads fs (butlast q) [last q] j p ts" "0 < j" "q \<noteq> []"
  shows "pending fs (q # active) p ts"
  unfolding pending_def
proof (intro ballI conjI)
  fix x assume x: "x \<in> set (q # active)"
  show "x \<noteq> []" using x assms(1,4) by (auto simp: pending_def)
  show "\<exists>j>0. \<exists>X. leads fs (butlast x) [last x] j p (ts @ X)"
  proof (cases "x = q")
    case True
    with assms(2,3) show ?thesis by (metis append_Nil2)
  next
    case False
    with x assms(1) obtain i X where "0 < i" "leads fs (butlast x) [last x] i p ((ts @ cs) @ X)" by (auto simp: pending_def)
    then show ?thesis by (metis append_assoc)
  qed
qed

lemma expand_leads:
  "pending fs active p cs \<Longrightarrow> clean fs p \<Longrightarrow>
   (\<exists>j. leads fs p cs j (expand fs active p cs) []) \<and> clean fs (expand fs active p cs)"
proof (induction fs active p cs rule: expand.induct)
  case (1 fs active p)
  then show ?case using leads_refl by auto
next
  case (2 fs active p c cs)
  let ?q = "p @ [c]"
  consider (dot) "c = [] \<or> c = ''.''" | (up) "c = ''..''"
    | (step) "c \<noteq> []" "c \<noteq> ''.''" "c \<noteq> ''..''" "map_of fs ?q \<notin> range (\<lambda>t. Some (Link t))"
    | (link) t where "c \<noteq> []" "c \<noteq> ''.''" "c \<noteq> ''..''" "map_of fs ?q = Some (Link t)"
    by blast
  then show ?case
  proof cases
    case dot
    note l = leads_dot [OF this, of fs p cs]
    then have e: "expand fs active p (c # cs) = expand fs active p cs" using dot by auto
    from "2.IH"(1) [OF dot pending_step [OF "2.prems"(1) l] "2.prems"(2)]
    show ?thesis unfolding e using leads_trans [OF l] by blast
  next
    case up
    note l = leads_dotdot [OF this, of fs p cs]
    have n: "\<not> (c = [] \<or> c = ''.'')" using up by simp
    then have e: "expand fs active p (c # cs) = expand fs active (butlast p) cs" using up by simp
    from "2.IH"(2) [OF n up pending_step [OF "2.prems"(1) l] clean_butlast [OF "2.prems"(2)]]
    show ?thesis unfolding e using leads_trans [OF l] by blast
  next
    case step
    note l = leads_step [OF step, of cs]
    have cl: "clean fs ?q" using step(4) "2.prems"(2) by (auto intro: clean_snoc)
    have e: "expand fs active p (c # cs) = expand fs active ?q cs"
      using step by (auto split: option.splits node.splits)
    have "(\<exists>j. leads fs ?q cs j (expand fs active ?q cs) []) \<and> clean fs (expand fs active ?q cs)"
    proof -
      note pre = pending_step [OF "2.prems"(1) l] cl
      have n: "\<not> (c = [] \<or> c = ''.'')" using step by simp
      show ?thesis
      proof (cases "map_of fs ?q")
        case None
        from "2.IH"(3) [OF n step(3) None pre] show ?thesis .
      next
        case (Some x)
        then show ?thesis using "2.IH"(4) [OF n step(3) Some _ pre] "2.IH"(5) [OF n step(3) Some _ pre] step(4)
          by (cases x) auto
      qed
    qed
    then show ?thesis unfolding e using leads_trans [OF l] by blast
  next
    case link
    show ?thesis
    proof (cases "?q \<in> set active")
      case True
      then obtain j X where "0 < j" "leads fs p [c] j p (c # cs @ X)"
        using "2.prems"(1) [unfolded pending_def, rule_format, OF True] by auto
      then have s: "stuck fs ?q" by (blast intro: loop_stuck)
      note l = leads_stuck [OF this, of cs 0 ?q cs]
      have e: "expand fs active p (c # cs) = expand fs active ?q cs" using link True by simp
      have n: "\<not> (c = [] \<or> c = ''.'')" using link by simp
      from "2.IH"(6) [OF n link(3,4) refl True pending_step [OF "2.prems"(1) l] clean_snoc [OF "2.prems"(2) s]]
      show ?thesis unfolding e using leads_trans [OF l] by blast
    next
      case False
      let ?s = "if is_absolute t then [] else p"
      let ?r = "expand fs (?q # active) ?s (split_sep t)"
      note l = leads_link [OF link, of cs]
      have n: "\<not> (c = [] \<or> c = ''.'')" using link by simp
      have "clean fs []" if "is_absolute t" using "2.prems"(2) by (auto simp: clean_def)
      then have cl: "clean fs ?s" using "2.prems"(2) by simp
      have "pending fs (?q # active) ?s (split_sep t)"
        using pending_inner [OF pending_step [OF "2.prems"(1) l], of ?q 1] leads_link [OF link, of "[]"] by simp
      from "2.IH"(7) [OF n link(3,4) refl False this cl]
      obtain j where j: "leads fs ?s (split_sep t) j ?r []" and r: "clean fs ?r" by blast
      have l2: "leads fs p (c # cs) (1 + j) ?r cs" using leads_trans [OF l leads_append [OF j]] by simp
      have e: "expand fs active p (c # cs) = expand fs active ?r cs" using link False by simp
      from "2.IH"(8) [OF n link(3,4) refl False pending_step [OF "2.prems"(1) l2] r]
      show ?thesis unfolding e using leads_trans [OF l2] by blast
    qed
  qed
qed

lemma real_clean:
  assumes "fs_ok fs"
  shows "clean fs (real fs p)"
proof -
  have "clean fs []" using assms by (simp add: clean_def fs_ok_def)
  then show ?thesis using expand_leads [of fs "[]" "[]" p] by (simp add: real_def pending_def)
qed

text \<open>So a system call on a path that was resolved acts on that very path, or fails.\<close>

lemma walk_literally:
  assumes "clean fs (p @ cs)" "\<forall>c\<in>set cs. proper c" "kernel_walk fs n p cs = Inr t"
  shows "t = p @ cs \<and> (cs \<noteq> [] \<longrightarrow> map_of fs (butlast (p @ cs)) = Some Directory \<and> (\<forall>l. map_of fs (p @ cs) \<noteq> Some (Link l)))"
  using assms
proof (induction cs arbitrary: p)
  case (Cons c cs)
  have dir: "map_of fs p = Some Directory" and c: "proper c" using Cons.prems by (auto split: if_splits)
  have nolink: "map_of fs (p @ [c]) \<noteq> Some (Link l)" for l
  proof
    assume "map_of fs (p @ [c]) = Some (Link l)"
    moreover have "prefix (p @ [c]) (p @ c # cs)" by simp
    ultimately have "stuck fs (p @ [c])" using Cons.prems(1) unfolding clean_def by blast
    then have "isl (kernel_walk fs n p (c # cs))" by (simp add: stuck_def)
    with Cons.prems(3) show False by (simp del: kernel_walk.simps)
  qed
  with dir c Cons.prems(3) have "kernel_walk fs n (p @ [c]) cs = Inr t"
    by (cases "map_of fs (p @ [c])") (auto simp: proper_def split: node.splits)
  with Cons.IH [of "p @ [c]"] Cons.prems show ?case using dir nolink by (cases cs) auto
qed simp

lemma expand_proper: "\<forall>c\<in>set p. proper c \<Longrightarrow> \<forall>c\<in>set (expand fs active p cs). proper c"
proof (induction fs active p cs rule: expand.induct)
  case (2 fs active p c cs)
  have b: "\<forall>c\<in>set (butlast p). proper c" using "2.prems" by (auto dest: in_set_butlastD)
  show ?case
  proof (cases "c = [] \<or> c = ''.'' \<or> c = ''..''")
    case True
    then show ?thesis using "2.IH"(1,2) "2.prems" b by auto
  next
    case False
    then have n: "\<not> (c = [] \<or> c = ''.'')" "c \<noteq> ''..''" and q: "\<forall>d\<in>set (p @ [c]). proper d"
      using "2.prems" by (auto simp: proper_def)
    show ?thesis
    proof (cases "map_of fs (p @ [c])")
      case None
      with "2.IH"(3) [OF n None q] n show ?thesis by simp
    next
      case (Some x)
      show ?thesis
      proof (cases x)
        case (Link t)
        show ?thesis
        proof (cases "p @ [c] \<in> set active")
          case True
          with "2.IH"(6) [OF n Some Link True q] n Some Link show ?thesis by simp
        next
          case False
          have "\<forall>c\<in>set (if is_absolute t then [] else p). proper c" using "2.prems" by simp
          from "2.IH"(8) [OF n Some Link False "2.IH"(7) [OF n Some Link False this]]
          show ?thesis using n Some Link False by simp
        qed
      qed (use "2.IH"(4,5) [OF n Some _ q] n Some in auto)
    qed
  qed
qed simp

lemma real_proper: "\<forall>c\<in>set (real fs p). proper c"
  unfolding real_def by (rule expand_proper) simp

lemma follow_real:
  assumes "fs_ok fs" "follow_path fs (real fs p) = Inr t"
  shows "t = real fs p" "real fs p \<noteq> [] \<Longrightarrow> map_of fs (butlast (real fs p)) = Some Directory"
    "real fs p \<noteq> [] \<Longrightarrow> map_of fs (real fs p) \<noteq> Some (Link l)"
  using walk_literally [of fs "[]" "real fs p" MAXSYMLINKS t, OF _ real_proper] assms real_clean [OF assms(1)]
  by (simp_all add: follow_path_def)

lemma is_dir_real: "fs_ok fs \<Longrightarrow> is_dir fs (real fs p) \<Longrightarrow> map_of fs (real fs p) = Some Directory"
  using follow_real(1) [of fs p] by (auto simp: is_dir_def split: sum.splits)

text \<open>A path without links, and a directory in particular, resolves to itself and can be walked.\<close>

lemma fs_ok_prefix:
  assumes "fs_ok fs" "map_of fs (p @ cs) \<noteq> None" "cs \<noteq> []"
  shows "map_of fs p = Some Directory"
  using assms(2,3)
proof (induction cs rule: rev_induct)
  case (snoc c cs)
  then have "map_of fs (p @ cs) = Some Directory" using assms(1) unfolding fs_ok_def by (metis append_assoc)
  with snoc.IH show ?case by (cases cs) auto
qed simp

lemma walk_plain:
  assumes "fs_ok fs" "map_of fs (p @ cs) = Some x" "\<forall>t. x \<noteq> Link t"
  shows "expand fs active p cs = p @ cs \<and> kernel_walk fs n p cs = Inr (p @ cs)"
  using assms(2)
proof (induction cs arbitrary: p)
  case (Cons c cs)
  have dir: "map_of fs p = Some Directory" using fs_ok_prefix [of fs p "c # cs"] assms(1) Cons.prems by simp
  have "map_of fs (p @ [c]) \<noteq> None" using fs_ok_prefix [of fs "p @ [c]" cs] assms(1) Cons.prems by (cases cs) auto
  then have c: "proper c" using assms(1) by (auto simp: fs_ok_def)
  have q: "\<exists>y. map_of fs (p @ [c]) = Some y \<and> (\<forall>t. y \<noteq> Link t)"
    using fs_ok_prefix [of fs "p @ [c]" cs] assms(1,3) Cons.prems by (cases cs) auto
  from Cons.IH [of "p @ [c]"] Cons.prems dir c q show ?case by (auto simp: proper_def split: node.splits)
qed simp

lemma real_plain: "fs_ok fs \<Longrightarrow> map_of fs p = Some x \<Longrightarrow> \<forall>t. x \<noteq> Link t \<Longrightarrow> real fs p = p"
  using walk_plain [of fs "[]" p x] by (simp add: real_def)

lemma follow_plain: "fs_ok fs \<Longrightarrow> map_of fs p = Some x \<Longrightarrow> \<forall>t. x \<noteq> Link t \<Longrightarrow> follow_path fs p = Inr p"
  using walk_plain [of fs "[]" p x] by (simp add: follow_path_def)

lemma expand_append: "expand fs active p (cs @ ds) = expand fs active (expand fs active p cs) ds"
  by (induction fs active p cs rule: expand.induct) (auto split: option.splits node.splits)

text \<open>An entry of a directory that is not a link, there or not, resolves to itself.\<close>

lemma real_entry:
  assumes "fs_ok fs" "map_of fs d = Some Directory" "proper c" "\<forall>t. map_of fs (d @ [c]) \<noteq> Some (Link t)"
  shows "real fs (d @ [c]) = d @ [c]"
proof -
  have "expand fs [] [] d = d" using walk_plain [of fs "[]" d Directory] assms by simp
  with assms(3,4) show ?thesis by (auto simp: real_def expand_append proper_def split: option.splits node.splits)
qed

lemma follow_entry:
  assumes "fs_ok fs" "map_of fs d = Some Directory" "proper c" "\<forall>t. map_of fs (d @ [c]) \<noteq> Some (Link t)"
  shows "follow_path fs (d @ [c]) = Inr (d @ [c])"
proof -
  have "kernel_walk fs n p (cs @ [c]) = Inr (p @ cs @ [c])" if "p @ cs = d" for n p cs
    using that
  proof (induction cs arbitrary: p)
    case Nil
    then show ?case using assms by (auto simp: proper_def split: option.splits node.splits)
  next
    case (Cons x cs)
    have dir: "map_of fs p = Some Directory" using fs_ok_prefix [of fs p "x # cs"] assms(1,2) Cons.prems by auto
    have "map_of fs (p @ [x]) = Some Directory"
      using fs_ok_prefix [of fs "p @ [x]" cs] assms(1,2) Cons.prems by (cases cs) auto
    moreover from this have "proper x" using assms(1) by (auto simp: fs_ok_def)
    ultimately show ?case using Cons.IH [of "p @ [x]"] Cons.prems dir by (simp add: proper_def)
  qed
  from this [of "[]" d] show ?thesis by (simp add: follow_path_def)
qed

text \<open>Adding, replacing and removing entries keeps the tree a tree.\<close>

lemma fs_ok_put:
  assumes "fs_ok fs" "map_of fs d = Some Directory" "proper c" "map_of fs (d @ [c]) \<noteq> Some Directory"
  shows "fs_ok ((d @ [c], x) # fs)"
  unfolding fs_ok_def
proof (intro conjI allI impI)
  show "map_of ((d @ [c], x) # fs) [] = Some Directory" using assms(1) by (simp add: fs_ok_def)
  fix p a assume a: "map_of ((d @ [c], x) # fs) (p @ [a]) \<noteq> None"
  show "map_of ((d @ [c], x) # fs) p = Some Directory"
  proof (cases "p = d \<and> a = c")
    case False
    with a assms(1) have "map_of fs p = Some Directory" by (auto simp: fs_ok_def split: if_splits)
    with assms(4) show ?thesis by auto
  qed (use assms(2) in simp)
  show "proper a" using a assms(1,3) by (auto simp: fs_ok_def split: if_splits)
qed

lemma map_of_filter_key: "map_of (filter (\<lambda>(q, _). P q) fs) p = (if P p then map_of fs p else None)"
  by (induction fs) auto

lemma fs_ok_remove:
  assumes "fs_ok fs" and closed: "\<And>q c. P (q @ [c]) \<Longrightarrow> \<not> P q \<Longrightarrow> map_of fs (q @ [c]) = None" and root: "P []"
  shows "fs_ok (filter (\<lambda>(q, _). P q) fs)"
  using assms(1) closed root unfolding fs_ok_def map_of_filter_key by (metis (full_types))

end
