(* ===== verification/Workspace.thy ===== *)
theory Workspace
  imports Path_Resolve Programs
begin

text \<open>
  The file space of the threads on the host (\<open>app/sandbox/path.py\<close>, \<open>app/sandbox/workspace.py\<close>, \<open>app/sandbox/quota.py\<close>). The state
  of a program is the file system of the broker; \<open>'b\<close> is the content of a file. The code that runs in a sandbox writes into the
  directory of its thread and may leave links there, so nothing is assumed of the links. Owners, modes and full disks are not
  modelled; setting a disk quota is an argument that may fail. The lock of a thread orders operations and is only checked for
  the identifier it is taken with.
\<close>

section \<open>Paths of the agent and of the host\<close>

definition SANDBOX_ROOT :: string where "SANDBOX_ROOT = ''/workspace''"
definition VIRTUAL_ROOT :: string where "VIRTUAL_ROOT = ''/''"
definition SKILL_DIR :: string where "SKILL_DIR = ''skill''"
definition MEMORY_DIR :: string where "MEMORY_DIR = ''.memory''"

definition lstrip_sep :: "string \<Rightarrow> string" where
  "lstrip_sep s = dropWhile (\<lambda>c. c = CHR ''/'') s"

definition to_virtual_path :: "string \<Rightarrow> string result" where
  "to_virtual_path s =
     (if s \<noteq> SANDBOX_ROOT \<and> \<not> prefix (SANDBOX_ROOT @ ''/'') s then Inl PathEscapeError
      else Inr (VIRTUAL_ROOT @ lstrip_sep (drop (length SANDBOX_ROOT) s)))"

definition to_sandbox_path :: "string \<Rightarrow> string" where
  "to_sandbox_path v =
     (let relative = lstrip_sep v in if relative \<noteq> [] then SANDBOX_ROOT @ VIRTUAL_ROOT @ relative else SANDBOX_ROOT)"

type_synonym ('b, 'a) wsprog = "('b fs, 'a) program"

definition ask :: "('s \<Rightarrow> 'a result) \<Rightarrow> ('s, 'a) program" where
  "ask f s = (f s, s)"

definition test :: "('s \<Rightarrow> 'a) \<Rightarrow> ('s, 'a) program" where
  "test f s = (Inr (f s), s)"

definition thread_workspace :: "path \<Rightarrow> string \<Rightarrow> 'b fs \<Rightarrow> path result" where
  "thread_workspace root thread_id fs =
     (if thread_id = [] then Inl PathEscapeError
      else let base = real fs root in
           result_bind (resolve_path fs base thread_id) (\<lambda>resolved.
             if butlast resolved \<noteq> base then Inl PathEscapeError else Inr resolved))"

definition is_memory_path :: "path \<Rightarrow> path \<Rightarrow> 'b fs \<Rightarrow> bool" where
  "is_memory_path root target fs \<longleftrightarrow>
     (let workspace = real fs root in
      prefix (workspace @ [MEMORY_DIR]) target \<or> prefix (real fs (workspace @ [MEMORY_DIR])) (real fs target))"

definition within :: "path \<Rightarrow> string \<Rightarrow> 'b fs \<Rightarrow> path result" where
  "within base s fs =
     result_bind (resolve_path fs base s) (\<lambda>target. if prefix base target then Inr target else Inl PathEscapeError)"

section \<open>System calls\<close>

definition write_bytes :: "path \<Rightarrow> 'b \<Rightarrow> ('b, unit) wsprog" where
  "write_bytes p b fs =
     (case follow_path fs p of
        Inl e \<Rightarrow> (Inl e, fs)
      | Inr t \<Rightarrow> if map_of fs t = Some Directory then (Inl IsADirectoryError, fs) else (Inr (), (t, Regular b) # fs))"

text \<open>The directory an entry is made in or taken from is followed, the entry itself is not.\<close>

definition entry :: "'b fs \<Rightarrow> path \<Rightarrow> path result" where
  "entry fs p =
     result_bind (follow_path fs (butlast p)) (\<lambda>d.
       if map_of fs d = Some Directory then Inr (d @ [last p])
       else Inl (if map_of fs d = None then FileNotFoundError else NotADirectoryError))"

definition make_dir :: "path \<Rightarrow> ('b, unit) wsprog" where
  "make_dir p fs =
     (if p = [] then (Inl FileExistsError, fs)
      else case entry fs p of
             Inl e \<Rightarrow> (Inl e, fs)
           | Inr t \<Rightarrow> if map_of fs t \<noteq> None then (Inl FileExistsError, fs) else (Inr (), (t, Directory) # fs))"

definition unlink :: "path \<Rightarrow> ('b, unit) wsprog" where
  "unlink p fs =
     (if p = [] then (Inl IsADirectoryError, fs)
      else case entry fs p of
             Inl e \<Rightarrow> (Inl e, fs)
           | Inr t \<Rightarrow> if map_of fs t = None then (Inl FileNotFoundError, fs)
                      else if map_of fs t = Some Directory then (Inl IsADirectoryError, fs)
                      else (Inr (), filter (\<lambda>(q, _). q \<noteq> t) fs))"

definition make_dirs :: "path \<Rightarrow> ('b, unit) wsprog" where
  "make_dirs p fs =
     (if list_all (\<lambda>q. map_of fs q = None \<or> map_of fs q = Some Directory) (prefixes p)
      then (Inr (), map (\<lambda>q. (q, Directory)) (filter (\<lambda>q. map_of fs q = None) (prefixes p)) @ fs)
      else (Inl FileExistsError, fs))"

definition rmtree :: "path \<Rightarrow> ('b, unit) wsprog" where
  "rmtree p fs = (Inr (), filter (\<lambda>(q, _). \<not> prefix p q) fs)"

section \<open>The workspace\<close>

definition thread_lock :: "path \<Rightarrow> string \<Rightarrow> ('b, 'a) wsprog \<Rightarrow> ('b, 'a) wsprog" where
  "thread_lock root thread_id body = seq (ask (thread_workspace root thread_id)) (\<lambda>_. body)"

definition ws_path :: "(string \<Rightarrow> path \<Rightarrow> exn option) \<Rightarrow> path \<Rightarrow> string \<Rightarrow> ('b, path) wsprog" where
  "ws_path assign root thread_id =
     thread_lock root thread_id
       (seq (ask (thread_workspace root thread_id)) (\<lambda>w.
        seq (test (\<lambda>fs. is_dir fs w)) (\<lambda>there.
          if there then ret w
          else seq (make_dirs w) (\<lambda>_. case assign thread_id w of None \<Rightarrow> ret w | Some e \<Rightarrow> throw e))))"

definition ws_create :: "(string \<Rightarrow> path \<Rightarrow> exn option) \<Rightarrow> path \<Rightarrow> string \<Rightarrow> ('b, string) wsprog" where
  "ws_create assign root thread_id = seq (ws_path assign root thread_id) (\<lambda>_. ret thread_id)"

definition ws_exists :: "path \<Rightarrow> string \<Rightarrow> 'b fs \<Rightarrow> bool" where
  "ws_exists root thread_id fs = (case thread_workspace root thread_id fs of Inl _ \<Rightarrow> False | Inr w \<Rightarrow> is_dir fs w)"

definition ws_lookup :: "path \<Rightarrow> string \<Rightarrow> ('b, path) wsprog" where
  "ws_lookup root thread_id =
     thread_lock root thread_id
       (seq (ask (thread_workspace root thread_id)) (\<lambda>w.
        seq (test (\<lambda>fs. is_dir fs w)) (\<lambda>there. if there then ret w else throw FileNotFoundError)))"

definition resolve_existing :: "path \<Rightarrow> string \<Rightarrow> string \<Rightarrow> ('b, path) wsprog" where
  "resolve_existing root thread_id relative_path =
     thread_lock root thread_id
       (seq (ws_lookup root thread_id) (\<lambda>w. seq (test (\<lambda>fs. real fs w)) (\<lambda>base. ask (within base relative_path))))"

definition ws_resolve :: "path \<Rightarrow> string \<Rightarrow> string \<Rightarrow> ('b, path) wsprog" where
  "ws_resolve root thread_id relative_path =
     seq (resolve_existing root thread_id relative_path) (\<lambda>target.
     seq (ws_lookup root thread_id) (\<lambda>w.
     seq (test (is_memory_path w target)) (\<lambda>memory. if memory then throw PathEscapeError else ret target)))"

definition reserved_dir :: "path \<Rightarrow> path \<Rightarrow> bool" where
  "reserved_dir workspace p \<longleftrightarrow>
     (case drop (length workspace) p of [] \<Rightarrow> False | c # _ \<Rightarrow> c \<in> {SKILL_DIR, MEMORY_DIR})"

definition check_user_path :: "path \<Rightarrow> string \<Rightarrow> path \<Rightarrow> ('b, unit) wsprog" where
  "check_user_path root thread_id target =
     seq (ws_lookup root thread_id) (\<lambda>w. seq (test (\<lambda>fs. real fs w)) (\<lambda>workspace.
       if reserved_dir workspace target then throw PathEscapeError else ret ()))"

definition ws_save :: "path \<Rightarrow> string \<Rightarrow> string \<Rightarrow> 'b \<Rightarrow> string \<Rightarrow> ('b, path) wsprog" where
  "ws_save root thread_id filename content directory =
     (let name = path_name filename in
      if name = [] \<or> name = ''.'' \<or> name = ''..'' then throw PathEscapeError
      else thread_lock root thread_id
        (seq (ws_lookup root thread_id) (\<lambda>w.
         seq (test (\<lambda>fs. real fs w)) (\<lambda>workspace.
         seq (if directory \<noteq> [] then ws_resolve root thread_id directory else ret workspace) (\<lambda>parent.
           if reserved_dir workspace parent then throw PathEscapeError
           else seq (test (\<lambda>fs. is_dir fs parent)) (\<lambda>there.
             if \<not> there then throw PathEscapeError
             else let target = parent @ [name] in
               seq (if CHR 0x00 \<in> set name then throw ValueError else test (is_memory_path workspace target)) (\<lambda>memory.
                 if memory then throw PathEscapeError
                 else seq (write_bytes target content) (\<lambda>_. ret target))))))))"

definition ws_write :: "path \<Rightarrow> string \<Rightarrow> string \<Rightarrow> 'b \<Rightarrow> ('b, path) wsprog" where
  "ws_write root thread_id relative_path content =
     thread_lock root thread_id
       (seq (ws_resolve root thread_id relative_path) (\<lambda>target.
        seq (check_user_path root thread_id target) (\<lambda>_.
        seq (test (\<lambda>fs. is_dir fs target)) (\<lambda>dir.
          if dir then throw IsADirectoryError
          else seq (test (\<lambda>fs. is_dir fs (butlast target))) (\<lambda>there.
            if \<not> there then throw PathEscapeError
            else seq (write_bytes target content) (\<lambda>_. ret target))))))"

definition ws_mkdir :: "path \<Rightarrow> string \<Rightarrow> string \<Rightarrow> ('b, path) wsprog" where
  "ws_mkdir root thread_id relative_path =
     thread_lock root thread_id
       (seq (ws_resolve root thread_id relative_path) (\<lambda>target.
        seq (check_user_path root thread_id target) (\<lambda>_.
        seq (if relative_path = [] then ret True
             else seq (ws_lookup root thread_id) (\<lambda>w. test (\<lambda>fs. target = real fs w))) (\<lambda>unusable.
          if unusable then throw PathEscapeError
          else seq (test (\<lambda>fs. is_dir fs (butlast target))) (\<lambda>there.
            if \<not> there then throw PathEscapeError
            else seq (make_dir target) (\<lambda>_. ret target))))))"

definition ws_remove :: "path \<Rightarrow> string \<Rightarrow> string \<Rightarrow> ('b, unit) wsprog" where
  "ws_remove root thread_id relative_path =
     thread_lock root thread_id
       (seq (ws_resolve root thread_id relative_path) (\<lambda>target.
        seq (test (\<lambda>fs. is_dir fs target)) (\<lambda>dir. if dir then throw IsADirectoryError else unlink target)))"

definition ws_destroy :: "path \<Rightarrow> string \<Rightarrow> ('b, unit) wsprog" where
  "ws_destroy root thread_id =
     thread_lock root thread_id
       (seq (ask (thread_workspace root thread_id)) (\<lambda>target.
        seq (test (\<lambda>fs. is_dir fs target)) (\<lambda>there. if \<not> there then ret () else rmtree target)))"

section \<open>What the operations do\<close>

named_theorems ws_simps \<open>programs over the file system as functions\<close>

lemmas [ws_simps] = seq_def ret_def throw_def ask_def test_def thread_lock_def

lemma ws_lookup_eq:
  "ws_lookup root tid fs =
     (case thread_workspace root tid fs of
        Inl e \<Rightarrow> (Inl e, fs)
      | Inr w \<Rightarrow> (if is_dir fs w then Inr w else Inl FileNotFoundError, fs))"
  by (simp add: ws_lookup_def ws_simps split: sum.split)

lemma resolve_existing_eq:
  "resolve_existing root tid s fs =
     (case thread_workspace root tid fs of
        Inl e \<Rightarrow> (Inl e, fs)
      | Inr w \<Rightarrow> if is_dir fs w then (within (real fs w) s fs, fs) else (Inl FileNotFoundError, fs))"
  by (simp add: resolve_existing_def ws_simps ws_lookup_eq split: sum.split)

lemma ws_resolve_eq:
  "ws_resolve root tid s fs =
     (case thread_workspace root tid fs of
        Inl e \<Rightarrow> (Inl e, fs)
      | Inr w \<Rightarrow>
          if \<not> is_dir fs w then (Inl FileNotFoundError, fs)
          else case within (real fs w) s fs of
                 Inl e \<Rightarrow> (Inl e, fs)
               | Inr t \<Rightarrow> (if is_memory_path w t fs then Inl PathEscapeError else Inr t, fs))"
  by (simp add: ws_resolve_def resolve_existing_eq ws_lookup_eq seq_def test_def ret_def throw_def split: sum.split)

lemma thread_workspace_Inr:
  assumes "fs_ok fs" "thread_workspace root tid fs = Inr w" "is_dir fs w"
  shows "map_of fs w = Some Directory" "real fs w = w"
proof -
  from assms(2) obtain p where p: "w = real fs p"
    by (auto simp: thread_workspace_def resolve_path_def Let_def result_bind_Inr_iff split: if_splits)
  with is_dir_real [of fs p] assms show d: "map_of fs w = Some Directory" by simp
  then show "real fs w = w" using real_plain [of fs w] assms(1) by simp
qed

text \<open>A target that \<open>resolve\<close> returned.\<close>

definition target_of :: "path \<Rightarrow> path \<Rightarrow> 'b fs \<Rightarrow> bool" where
  "target_of w t fs \<longleftrightarrow> prefix w t \<and> (\<exists>p. t = real fs p) \<and> \<not> is_memory_path w t fs"

lemma ws_resolve_cases:
  assumes "fs_ok fs" "thread_workspace root tid fs = Inr w"
  obtains e where "ws_resolve root tid s fs = (Inl e, fs)"
  | t where "ws_resolve root tid s fs = (Inr t, fs)" "is_dir fs w" "target_of w t fs"
proof (cases "ws_resolve root tid s fs")
  case (Pair r fs')
  have fs': "fs' = fs" using Pair by (auto simp: ws_resolve_eq assms(2) split: if_splits sum.splits)
  show ?thesis
  proof (cases r)
    case (Inl e)
    with Pair fs' that(1) show ?thesis by simp
  next
    case (Inr t)
    with Pair have d: "is_dir fs w" and t: "within (real fs w) s fs = Inr t" "\<not> is_memory_path w t fs"
      by (auto simp: ws_resolve_eq assms(2) split: if_splits sum.splits)
    with thread_workspace_Inr [OF assms d] have "target_of w t fs"
      by (auto simp: target_of_def within_def resolve_path_def result_bind_Inr_iff split: if_splits)
    with that(2) Pair Inr fs' d show ?thesis by simp
  qed
qed

text \<open>A path of thread \<open>w\<close> that the user may change: below the directory of the thread and outside its memory.\<close>

definition user_path :: "path \<Rightarrow> path \<Rightarrow> bool" where
  "user_path w p \<longleftrightarrow> prefix w p \<and> p \<noteq> w \<and> \<not> prefix (w @ [MEMORY_DIR]) p"

text \<open>The one entry an operation changes. \<open>touches\<close> also says that the tree stays a tree.\<close>

definition touches :: "'b fs \<Rightarrow> path \<Rightarrow> 'b fs \<Rightarrow> bool" where
  "touches fs t fs' \<longleftrightarrow> fs_ok fs' \<and> (\<forall>p. p \<noteq> t \<longrightarrow> map_of fs' p = map_of fs p)"

lemma touches_same: "fs_ok fs \<Longrightarrow> touches fs t fs"
  by (simp add: touches_def)

lemma proper_last: "\<exists>p. t = real fs p \<Longrightarrow> t \<noteq> [] \<Longrightarrow> proper (last t)"
  using real_proper by (metis last_in_set)

lemma write_touches:
  assumes ok: "fs_ok fs" and t: "\<exists>p. t = real fs p" and run: "write_bytes t b fs = (r, fs')"
  shows "touches fs t fs'"
proof (cases "follow_path fs t")
  case (Inl e)
  with run ok show ?thesis by (auto simp: write_bytes_def touches_same)
next
  case (Inr u)
  with t follow_real [OF ok] have u: "u = t" "t \<noteq> [] \<Longrightarrow> map_of fs (butlast t) = Some Directory" by auto
  show ?thesis
  proof (cases "map_of fs t = Some Directory")
    case True
    with run ok Inr u show ?thesis by (auto simp: write_bytes_def touches_same)
  next
    case False
    then have "t \<noteq> []" using ok by (auto simp: fs_ok_def)
    then obtain d c where d: "t = d @ [c]" by (metis append_butlast_last_id)
    then have "map_of fs d = Some Directory" "proper c" using u proper_last [OF t] by auto
    with fs_ok_put [OF ok this(1,2)] False d have "fs_ok ((t, Regular b) # fs)" by simp
    then show ?thesis using run Inr u False by (auto simp: write_bytes_def touches_def)
  qed
qed

lemma entry_real:
  assumes ok: "fs_ok fs" and t: "\<exists>p. t = real fs p" "t \<noteq> []" and e: "entry fs t = Inr u"
  shows "u = t" "map_of fs (butlast t) = Some Directory"
proof -
  from e obtain d where d: "follow_path fs (butlast t) = Inr d" "map_of fs d = Some Directory" "u = d @ [last t]"
    by (auto simp: entry_def result_bind_Inr_iff split: if_splits)
  have "clean fs (butlast t)" "\<forall>c\<in>set (butlast t). proper c"
    using t(1) real_clean [OF ok] by (auto intro: clean_butlast dest!: in_set_butlastD bspec [OF real_proper])
  then have "d = butlast t" using walk_literally [of fs "[]" "butlast t"] d(1) by (simp add: follow_path_def)
  then show "u = t" "map_of fs (butlast t) = Some Directory" using d t(2) by simp_all
qed

lemma make_dir_touches:
  assumes ok: "fs_ok fs" and t: "\<exists>p. t = real fs p" and run: "make_dir t fs = (r, fs')"
  shows "touches fs t fs'"
proof (cases "fs' = fs")
  case False
  with run have n: "t \<noteq> []" and e: "entry fs t = Inr t" and new: "map_of fs t = None" "fs' = (t, Directory) # fs"
    using entry_real(1) [OF ok t] by (auto simp: make_dir_def split: if_splits sum.splits)
  have "fs_ok ((butlast t @ [last t], Directory) # fs)"
    using fs_ok_put [OF ok entry_real(2) [OF ok t n e] proper_last [OF t n]] n new by simp
  with n new show ?thesis by (simp add: touches_def)
qed (simp add: touches_same ok)

lemma unlink_touches:
  assumes ok: "fs_ok fs" and t: "\<exists>p. t = real fs p" and run: "unlink t fs = (r, fs')"
  shows "touches fs t fs'"
proof (cases "fs' = fs")
  case False
  with run have n: "t \<noteq> []" and e: "entry fs t = Inr t" and new: "map_of fs t \<noteq> Some Directory" "fs' = filter (\<lambda>(q, _). q \<noteq> t) fs"
    using entry_real(1) [OF ok t] by (auto simp: unlink_def split: if_splits sum.splits)
  have "map_of fs (q @ [c]) = None" if "\<not> q \<noteq> t" for q c
    using that new(1) ok unfolding fs_ok_def by metis
  with fs_ok_remove [OF ok, of "\<lambda>q. q \<noteq> t"] n new(2) show ?thesis by (auto simp: touches_def map_of_filter_key)
qed (simp add: touches_same ok)

section \<open>A user changes nothing outside the own thread\<close>

datatype 'b user_op = Save string 'b string | Write string 'b | Mkdir string | Remove string

fun user_step :: "path \<Rightarrow> string \<Rightarrow> 'b user_op \<Rightarrow> ('b, unit) wsprog" where
  "user_step root tid (Save filename b directory) = seq (ws_save root tid filename b directory) (\<lambda>_. ret ())"
| "user_step root tid (Write p b) = seq (ws_write root tid p b) (\<lambda>_. ret ())"
| "user_step root tid (Mkdir p) = seq (ws_mkdir root tid p) (\<lambda>_. ret ())"
| "user_step root tid (Remove p) = ws_remove root tid p"

lemma target_user_path:
  assumes "fs_ok fs" "thread_workspace root tid fs = Inr w" "is_dir fs w" "target_of w t fs" "t \<noteq> w"
  shows "user_path w t"
  using assms(4,5) thread_workspace_Inr [OF assms(1-3)] by (auto simp: target_of_def user_path_def is_memory_path_def)

definition harmless :: "path \<Rightarrow> 'b fs \<Rightarrow> 'b fs \<Rightarrow> bool" where
  "harmless w fs fs' \<longleftrightarrow> fs' = fs \<or> (\<exists>t. user_path w t \<and> touches fs t fs')"

lemma write_harmless:
  assumes ok: "fs_ok fs" and w: "thread_workspace root tid fs = Inr w" and run: "ws_write root tid s b fs = (r, fs')"
  shows "harmless w fs fs'" "fs' \<noteq> fs \<Longrightarrow> \<exists>t. fs' = (t, Regular b) # fs \<and> user_path w t \<and> \<not> reserved_dir w t"
proof -
  have "harmless w fs fs' \<and> (fs' \<noteq> fs \<longrightarrow> (\<exists>t. fs' = (t, Regular b) # fs \<and> user_path w t \<and> \<not> reserved_dir w t))"
  proof (cases rule: ws_resolve_cases [OF ok w, of s])
    case (1 e)
    with run w show ?thesis by (simp add: ws_write_def ws_simps harmless_def)
  next
    case (2 t)
    note W = thread_workspace_Inr [OF ok w 2(2)]
    have d: "is_dir fs w" by (rule 2(2))
    show ?thesis
    proof (cases "fs' = fs")
      case False
      with run w 2(1) d W have "\<not> is_dir fs t" "\<not> reserved_dir w t" and b: "write_bytes t b fs = (Inr (), fs') \<or> (\<exists>e. write_bytes t b fs = (Inl e, fs'))"
        by (auto simp: ws_write_def ws_simps check_user_path_def ws_lookup_eq split: if_splits sum.splits prod.splits)
      then have t: "t \<noteq> w" using d by auto
      obtain x where x: "write_bytes t b fs = (x, fs')" using b by auto
      have r: "\<exists>p. t = real fs p" using 2(3) by (auto simp: target_of_def)
      note u = target_user_path [OF ok w d 2(3) t]
      have "fs' = (t, Regular b) # fs"
        using x False follow_real(1) [OF ok] r by (auto simp: write_bytes_def split: sum.splits if_splits)
      then show ?thesis using u write_touches [OF ok r x] \<open>\<not> reserved_dir w t\<close> by (auto simp: harmless_def)
    qed (simp add: harmless_def)
  qed
  then show "harmless w fs fs'" "fs' \<noteq> fs \<Longrightarrow> \<exists>t. fs' = (t, Regular b) # fs \<and> user_path w t \<and> \<not> reserved_dir w t" by auto
qed

lemma mkdir_harmless:
  assumes ok: "fs_ok fs" and w: "thread_workspace root tid fs = Inr w" and run: "ws_mkdir root tid s fs = (r, fs')"
  shows "harmless w fs fs'" "fs' \<noteq> fs \<Longrightarrow> \<exists>t. fs' = (t, Directory) # fs \<and> user_path w t \<and> \<not> reserved_dir w t"
proof -
  have "harmless w fs fs' \<and> (fs' \<noteq> fs \<longrightarrow> (\<exists>t. fs' = (t, Directory) # fs \<and> user_path w t \<and> \<not> reserved_dir w t))"
  proof (cases rule: ws_resolve_cases [OF ok w, of s])
    case (1 e)
    with run w show ?thesis by (simp add: ws_mkdir_def ws_simps harmless_def)
  next
    case (2 t)
    note W = thread_workspace_Inr [OF ok w 2(2)]
    have r: "\<exists>p. t = real fs p" using 2(3) by (auto simp: target_of_def)
    show ?thesis
    proof (cases "fs' = fs")
      case False
      with run w 2(1,2) W have t: "t \<noteq> w" "\<not> reserved_dir w t" and b: "\<exists>x. make_dir t fs = (x, fs')"
        by (auto simp: ws_mkdir_def ws_simps check_user_path_def ws_lookup_eq split: if_splits sum.splits prod.splits)
      then obtain x where x: "make_dir t fs = (x, fs')" by blast
      have "fs' = (t, Directory) # fs"
        using x False entry_real(1) [OF ok r] by (auto simp: make_dir_def split: sum.splits if_splits)
      then show ?thesis using target_user_path [OF ok w 2(2,3) t(1)] make_dir_touches [OF ok r x] t(2) by (auto simp: harmless_def)
    qed (simp add: harmless_def)
  qed
  then show "harmless w fs fs'" "fs' \<noteq> fs \<Longrightarrow> \<exists>t. fs' = (t, Directory) # fs \<and> user_path w t \<and> \<not> reserved_dir w t" by auto
qed

lemma remove_harmless:
  assumes ok: "fs_ok fs" and w: "thread_workspace root tid fs = Inr w" and run: "ws_remove root tid s fs = (r, fs')"
  shows "harmless w fs fs'"
proof (cases rule: ws_resolve_cases [OF ok w, of s])
  case (1 e)
  with run w show ?thesis by (simp add: ws_remove_def ws_simps harmless_def)
next
  case (2 t)
  show ?thesis
  proof (cases "fs' = fs")
    case False
    with run w 2 have "t \<noteq> w" and x: "unlink t fs = (r, fs')"
      by (auto simp: ws_remove_def ws_simps split: if_splits)
    with target_user_path [OF ok w 2(2,3)] unlink_touches [OF ok _ x] 2(3) show ?thesis
      by (auto simp: harmless_def target_of_def)
  qed (simp add: harmless_def)
qed

text \<open>The destination of an upload is the only path that is not resolved before the broker writes to it.\<close>

definition no_links_below :: "path \<Rightarrow> 'b fs \<Rightarrow> bool" where
  "no_links_below w fs \<longleftrightarrow> (\<forall>p t. prefix w p \<longrightarrow> map_of fs p \<noteq> Some (Link t))"

lemma save_harmless:
  assumes ok: "fs_ok fs" and w: "thread_workspace root tid fs = Inr w" and run: "ws_save root tid f b d fs = (r, fs')"
    and nl: "no_links_below w fs"
  shows "harmless w fs fs'"
proof (cases "fs' = fs")
  case False
  let ?n = "path_name f"
  have n: "proper ?n" using run False by (auto simp: ws_save_def proper_def throw_def Let_def split: if_splits)
  have W: "is_dir fs w" using run False w by (auto simp: ws_save_def Let_def ws_simps ws_lookup_eq split: if_splits)
  note W' = thread_workspace_Inr [OF ok w W]
  have "\<exists>p x. is_dir fs p \<and> prefix w p \<and> (\<exists>q. p = real fs q) \<and> write_bytes (p @ [?n]) b fs = (x, fs') \<and> \<not> is_memory_path w (p @ [?n]) fs"
  proof (cases "d = []")
    case True
    have "\<exists>q. w = real fs q" using W'(2) by metis
    then show ?thesis
      using run False True w W W' n by (auto simp: ws_save_def Let_def ws_simps ws_lookup_eq proper_def split: if_splits sum.splits prod.splits)
  next
    case d: False
    show ?thesis
    proof (cases rule: ws_resolve_cases [OF ok w, of d])
      case (1 e)
      with run False d w W W' n show ?thesis by (auto simp: ws_save_def Let_def ws_simps ws_lookup_eq split: if_splits)
    next
      case (2 t)
      with run False d w W W' n show ?thesis
        by (auto simp: ws_save_def Let_def ws_simps ws_lookup_eq target_of_def split: if_splits sum.splits prod.splits)
    qed
  qed
  then obtain p x where p: "is_dir fs p" "prefix w p" "\<exists>q. p = real fs q" and x: "write_bytes (p @ [?n]) b fs = (x, fs')"
    and m: "\<not> is_memory_path w (p @ [?n]) fs" by blast
  have dir: "map_of fs p = Some Directory" using is_dir_real [OF ok] p by blast
  have "\<forall>t. map_of fs (p @ [?n]) \<noteq> Some (Link t)" using nl p(2) by (simp add: no_links_below_def)
  then have "real fs (p @ [?n]) = p @ [?n]" using real_entry [OF ok dir n] by simp
  then have "touches fs (p @ [?n]) fs'" by (metis write_touches [OF ok _ x])
  moreover have "user_path w (p @ [?n])" using p(2) m W'(2) by (auto simp: user_path_def is_memory_path_def)
  ultimately show ?thesis by (auto simp: harmless_def)
qed (simp add: harmless_def)

lemma reserved_dir_iff:
  "prefix w p \<Longrightarrow> reserved_dir w p \<longleftrightarrow> prefix (w @ [SKILL_DIR]) p \<or> prefix (w @ [MEMORY_DIR]) p"
  by (auto simp: reserved_dir_def prefix_def split: list.split)

lemma harmless_fact: "fs_ok fs \<Longrightarrow> harmless w fs fs' \<Longrightarrow> fs_ok fs' \<and> (map_of fs' p \<noteq> map_of fs p \<longrightarrow> user_path w p)"
  unfolding harmless_def touches_def by metis

lemma user_step_harmless:
  assumes ok: "fs_ok fs" and w: "thread_workspace root tid fs = Inr w" and run: "user_step root tid op fs = (r, fs')"
    and nl: "\<And>f b d. op = Save f b d \<Longrightarrow> no_links_below w fs"
  shows "harmless w fs fs'"
proof (cases op)
  case (Save f b d)
  with run have "\<exists>x. ws_save root tid f b d fs = (x, fs')" by (auto simp: seq_def ret_def split: prod.splits sum.splits)
  with save_harmless [OF ok w] nl Save show ?thesis by blast
next
  case (Write p b)
  with run have "\<exists>x. ws_write root tid p b fs = (x, fs')" by (auto simp: seq_def ret_def split: prod.splits sum.splits)
  with write_harmless(1) [OF ok w] show ?thesis by blast
next
  case (Mkdir p)
  with run have "\<exists>x. ws_mkdir root tid p fs = (x, fs')" by (auto simp: seq_def ret_def split: prod.splits sum.splits)
  with mkdir_harmless(1) [OF ok w] show ?thesis by blast
next
  case (Remove p)
  with run remove_harmless [OF ok w] show ?thesis by simp
qed

text \<open>C10. Whatever links the code of a sandbox leaves behind, a file operation of a user changes only entries strictly below the
  directory of the thread and outside its memory; writing a file and making a directory also keep out of the directory of the skills.
  For an upload this needs that there is no link in the directory, because its destination is not resolved.\<close>

theorem files_confined:
  assumes "fs_ok fs" "thread_workspace root tid fs = Inr w" "user_step root tid op fs = (r, fs')" "map_of fs' p \<noteq> map_of fs p"
    and "\<forall>f b d. op = Save f b d \<longrightarrow> no_links_below w fs"
  shows "fs_ok fs' \<and> prefix w p \<and> p \<noteq> w \<and> \<not> prefix (w @ [MEMORY_DIR]) p \<and>
    (\<forall>s b. op = Write s b \<or> op = Mkdir s \<longrightarrow> \<not> prefix (w @ [SKILL_DIR]) p)"
proof -
  have h: "harmless w fs fs'" using user_step_harmless [OF assms(1-3)] assms(5) by blast
  have u: "fs_ok fs'" "user_path w p" using harmless_fact [OF assms(1) h] assms(4) by auto
  moreover have "\<not> prefix (w @ [SKILL_DIR]) p" if o: "op = Write s b \<or> op = Mkdir s" for s b
  proof -
    have n: "fs' \<noteq> fs" using assms(4) by auto
    consider x where "ws_write root tid s b fs = (x, fs')" | x where "ws_mkdir root tid s fs = (x, fs')"
      using o assms(3) by (auto simp: seq_def ret_def split: prod.splits sum.splits)
    then show ?thesis
    proof cases
      case 1
      with write_harmless(2) [OF assms(1,2) 1 n] assms(4) u(2) reserved_dir_iff [of w p] show ?thesis
        by (auto simp: user_path_def split: if_splits)
    next
      case 2
      with mkdir_harmless(2) [OF assms(1,2) 2 n] assms(4) u(2) reserved_dir_iff [of w p] show ?thesis
        by (auto simp: user_path_def split: if_splits)
    qed
  qed
  ultimately show ?thesis by (auto simp: user_path_def)
qed

text \<open>A tree in which the agent left a link to a file of the host, and the directory of a second thread.\<close>

definition example_fs :: "string fs" where
  "example_fs =
     [([], Directory), ([''etc''], Directory), ([''etc'', ''passwd''], Regular ''root''), ([''ws''], Directory),
      ([''ws'', ''t1''], Directory), ([''ws'', ''t1'', ''data.csv''], Link ''/etc/passwd''), ([''ws'', ''t1'', ''out''], Link ''../t2''),
      ([''ws'', ''t2''], Directory)]"

lemma example_fs_ok: "fs_ok example_fs"
  unfolding fs_ok_def
proof (intro conjI allI impI)
  fix p c assume "map_of example_fs (p @ [c]) \<noteq> None"
  then have "p @ [c] \<in> fst ` set example_fs" by (metis map_of_eq_None_iff)
  then have "(p, c) \<in> (\<lambda>q. (butlast q, last q)) ` (fst ` set example_fs - {[]})" by force
  then show "map_of example_fs p = Some Directory" "proper c" by (auto simp: example_fs_def proper_def)
qed (simp add: example_fs_def)

theorem files_confined_witness:
  "fs_ok (snd (user_step [''ws''] ''t1'' (Write ''a.txt'' ''x'') example_fs)) \<and>
   map_of (snd (user_step [''ws''] ''t1'' (Write ''a.txt'' ''x'') example_fs)) [''ws'', ''t1'', ''a.txt''] = Some (Regular ''x'')"
proof -
  have w: "thread_workspace [''ws''] ''t1'' example_fs = Inr [''ws'', ''t1'']" by code_simp
  have m: "map_of (snd (user_step [''ws''] ''t1'' (Write ''a.txt'' ''x'') example_fs)) [''ws'', ''t1'', ''a.txt''] = Some (Regular ''x'')"
    by code_simp
  then have n: "map_of (snd (user_step [''ws''] ''t1'' (Write ''a.txt'' ''x'') example_fs)) [''ws'', ''t1'', ''a.txt''] \<noteq>
      map_of example_fs [''ws'', ''t1'', ''a.txt'']" by (simp add: example_fs_def)
  from files_confined [OF example_fs_ok w prod.collapse [symmetric] n] m show ?thesis by blast
qed

text \<open>\<open>save\<close> does not resolve its destination: an upload named like a link that the agent left in its directory is written by the
  broker to wherever the link points.\<close>

lemma upload_follows_link:
  "map_of (snd (user_step [''ws''] ''t1'' (Save ''data.csv'' ''x'' []) example_fs)) [''etc'', ''passwd''] = Some (Regular ''x'')"
  by code_simp

lemma write_refuses_link:
  "user_step [''ws''] ''t1'' (Write ''data.csv'' ''x'') example_fs = (Inl PathEscapeError, example_fs)"
  by code_simp

text \<open>Only the directory an upload goes to is checked against the reserved names: a file may take the name of the skill directory.\<close>

lemma upload_takes_skill_name:
  "map_of (snd (user_step [''ws''] ''t2'' (Save ''skill'' ''x'' []) example_fs)) [''ws'', ''t2'', SKILL_DIR] = Some (Regular ''x'')"
  by code_simp

text \<open>When the quota could not be set the directory stays, and the next call takes it as it is, without a quota.\<close>

lemma directory_without_quota:
  "let assign = (\<lambda>_ _. Some (OtherError ''QuotaError''));
       first = ws_path assign [''ws''] ''t3'' example_fs
   in fst first = Inl (OtherError ''QuotaError'') \<and> fst (ws_path assign [''ws''] ''t3'' (snd first)) = Inr [''ws'', ''t3'']"
  by code_simp

section \<open>Round trips of the paths\<close>

lemma lstrip_sep_simps [simp]: "lstrip_sep [] = []" "lstrip_sep (c # s) = (if c = CHR ''/'' then lstrip_sep s else c # s)"
  by (simp_all add: lstrip_sep_def)

lemma lstrip_sep_idem [simp]: "lstrip_sep (lstrip_sep s) = lstrip_sep s"
  by (induction s) auto

text \<open>Translating a path to the agent's view and back gives the path with a single leading slash; translating a path of the
  agent to the host's view and back gives the path itself unless slashes follow the mount point or end it.\<close>

theorem paths_roundtrip:
  "to_virtual_path (to_sandbox_path v) = Inr (CHR ''/'' # lstrip_sep v) \<and>
   (case to_virtual_path s of
      Inl e \<Rightarrow> e = PathEscapeError \<and> s \<noteq> SANDBOX_ROOT \<and> \<not> prefix (SANDBOX_ROOT @ ''/'') s
    | Inr t \<Rightarrow> to_sandbox_path t = (if lstrip_sep (drop (length SANDBOX_ROOT) s) = [] then SANDBOX_ROOT else SANDBOX_ROOT @ ''/'' @ lstrip_sep (drop (length SANDBOX_ROOT) s)))"
  by (auto simp: to_virtual_path_def to_sandbox_path_def VIRTUAL_ROOT_def Let_def)

end
