(* ===== verification/Thread_Api.thy ===== *)
theory Thread_Api
  imports Thread_Repository Workspace Sandbox_Pool Sessions
begin

text \<open>
  The endpoints of threads and of their files (\<open>app/api/route/thread.py\<close>, \<open>app/api/route/file.py\<close>), the sweep that removes the
  directories of deleted threads (\<open>app/thread/reaper.py\<close>), the titles (\<open>app/thread/title.py\<close>), and the calls to the broker they
  make (\<open>app/sandbox/remote.py\<close>, \<open>app/broker/route.py\<close>). The platform is the tables, the host's file system and the pool of
  sandboxes. A call to the broker meets a fault: it arrives, it is lost on the way, or its answer is cut off after it took effect.
\<close>

section \<open>Calls to the broker\<close>

datatype Fault = Reached | Lost | Cut

record ('c, 'b) Platform =
  p_db :: "'c ThreadDb"
  p_runs :: Db
  p_fs :: "'b fs"
  p_pool :: Pool
  p_faults :: "Fault list"

text \<open>The settings of the broker, what runs at the awaits of the pool, the text of an exception, and whether that text, cut to
  200 characters, contains the digits of the status 400.\<close>

record Host =
  h_root :: path
  h_assign :: "string \<Rightarrow> path \<Rightarrow> exn option"
  h_awaits :: "unlocked list list"
  h_text :: "exn \<Rightarrow> string"
  h_says_400 :: "exn \<Rightarrow> bool"
  h_upload_max :: nat

type_synonym ('c, 'b, 'a) pprog = "(('c, 'b) Platform, 'a) program"

abbreviation BrokerError :: exn where "BrokerError \<equiv> OtherError ''BrokerError''"
abbreviation FileMissingError :: exn where "FileMissingError \<equiv> OtherError ''FileMissingError''"

definition on_fs :: "('b, 'a) wsprog \<Rightarrow> ('c, 'b, 'a) pprog" where
  "on_fs m pf = (case m (p_fs pf) of (r, fs) \<Rightarrow> (r, pf\<lparr>p_fs := fs\<rparr>))"

definition pool_discard :: "Host \<Rightarrow> string \<Rightarrow> ('c, 'b, unit) pprog" where
  "pool_discard host thread_id pf =
     (case discard (h_awaits host) thread_id (p_pool pf) of
        (None, p) \<Rightarrow> (Inr (), pf\<lparr>p_pool := p\<rparr>)
      | (Some e, p) \<Rightarrow> (Inl e, pf\<lparr>p_pool := p\<rparr>))"

text \<open>\<open>destroy_thread\<close> of the broker: the container first, then the directory.\<close>

definition broker_destroy :: "Host \<Rightarrow> string \<Rightarrow> ('c, 'b, unit) pprog" where
  "broker_destroy host thread_id =
     seq (pool_discard host thread_id) (\<lambda>_. on_fs (ws_destroy (h_root host) thread_id))"

text \<open>A request over HTTP; the client sees an exception of the broker as a status, which \<open>f\<close> turns back into an exception.\<close>

definition next_call :: "('c, 'b) Platform \<Rightarrow> ('c, 'b) Platform" where
  "next_call pf = pf\<lparr>p_faults := tl (p_faults pf)\<rparr>"

definition http :: "(exn \<Rightarrow> exn) \<Rightarrow> ('c, 'b, 'a) pprog \<Rightarrow> ('c, 'b, 'a) pprog" where
  "http f m pf =
     (let rest = next_call pf in
      case (if p_faults pf = [] then Reached else hd (p_faults pf)) of
        Lost \<Rightarrow> (Inl (f BrokerError), rest)
      | Cut \<Rightarrow> (Inl (f BrokerError), snd (m rest))
      | Reached \<Rightarrow> (case m rest of (Inl e, pf) \<Rightarrow> (Inl (f e), pf) | (Inr x, pf) \<Rightarrow> (Inr x, pf)))"

definition any_failure :: "exn \<Rightarrow> exn" where
  "any_failure e = BrokerError"

definition remote_create :: "Host \<Rightarrow> string \<Rightarrow> ('c, 'b, string) pprog" where
  "remote_create host thread_id = http any_failure (on_fs (ws_create (h_assign host) (h_root host) thread_id))"

definition remote_destroy :: "Host \<Rightarrow> string \<Rightarrow> ('c, 'b, unit) pprog" where
  "remote_destroy host thread_id = http any_failure (broker_destroy host thread_id)"

definition save_failure :: "Host \<Rightarrow> exn \<Rightarrow> exn" where
  "save_failure host e = (if e = PathEscapeError \<or> h_says_400 host e then PathEscapeError else BrokerError)"

definition write_failure :: "exn \<Rightarrow> exn" where
  "write_failure e =
     (if e = PathEscapeError then PathEscapeError else if e = FileNotFoundError then FileMissingError
      else if e = IsADirectoryError then IsADirectoryError else BrokerError)"

definition mkdir_failure :: "exn \<Rightarrow> exn" where
  "mkdir_failure e =
     (if e = PathEscapeError then PathEscapeError else if e = FileNotFoundError then FileMissingError
      else if e = FileExistsError then FileExistsError else BrokerError)"

definition file_failure :: "exn \<Rightarrow> exn" where
  "file_failure e =
     (if e = PathEscapeError \<or> e = FileNotFoundError then FileMissingError
      else if e = IsADirectoryError then IsADirectoryError else BrokerError)"

section \<open>Threads\<close>

definition via :: "('d, 'a) program \<Rightarrow> ('d, 'a) handler" where
  "via m w = (case m (s_db w) of (r, d) \<Rightarrow> (r, w\<lparr>s_db := d\<rparr>))"

definition on_threads :: "('c ThreadDb \<Rightarrow> 'x \<times> 'c ThreadDb) \<Rightarrow> ('c, 'b, 'x) pprog" where
  "on_threads f pf = (case f (p_db pf) of (x, d) \<Rightarrow> (Inr x, pf\<lparr>p_db := d\<rparr>))"

definition try_threads :: "('c ThreadDb \<Rightarrow> ('x \<times> 'c ThreadDb) result) \<Rightarrow> ('c, 'b, 'x) pprog" where
  "try_threads f pf = (case f (p_db pf) of Inl e \<Rightarrow> (Inl e, pf) | Inr (x, d) \<Rightarrow> (Inr x, pf\<lparr>p_db := d\<rparr>))"

record ThreadResponse =
  tr_id :: string
  tr_title :: string
  tr_created :: datetime
  tr_updated :: datetime
  tr_live :: "RunStatus option"

record 'c ThreadDetailResponse = ThreadResponse +
  td_config :: 'c

definition thread_response :: "'c Thread \<Rightarrow> RunStatus option \<Rightarrow> ThreadResponse" where
  "thread_response t live = \<lparr>tr_id = t_id t, tr_title = t_title t, tr_created = t_created t, tr_updated = t_updated t, tr_live = live\<rparr>"

definition thread_detail :: "'c Thread \<Rightarrow> RunStatus option \<Rightarrow> 'c ThreadDetailResponse" where
  "thread_detail t live =
     \<lparr>tr_id = t_id t, tr_title = t_title t, tr_created = t_created t, tr_updated = t_updated t, tr_live = live, td_config = t_config t\<rparr>"

definition require_thread :: "string \<Rightarrow> string \<Rightarrow> (('c, 'b) Platform, 'c Thread) handler" where
  "require_thread thread_id user_id =
     seq (read_db (\<lambda>pf. get_thread thread_id user_id (p_db pf))) (\<lambda>found.
       case found of None \<Rightarrow> throw not_found | Some t \<Rightarrow> ret t)"

text \<open>The row first, then the directory; when the broker fails the row is taken back and the exception goes on.\<close>

definition open_thread :: "Host \<Rightarrow> uuid \<Rightarrow> 'c \<Rightarrow> string \<Rightarrow> datetime \<Rightarrow> ('c, 'b, 'c Thread) pprog" where
  "open_thread host new_id blank user_id now =
     seq (try_threads (create_thread new_id blank user_id [] now)) (\<lambda>t.
     seq (try_except (remote_create host (t_id t)) (\<lambda>e.
            seq (on_threads (\<lambda>d. ((), purge_thread (t_id t) user_id d))) (\<lambda>_. throw e))) (\<lambda>_.
       ret t))"

definition api_create_thread :: "Host \<Rightarrow> Env \<Rightarrow> Req \<Rightarrow> 'c \<Rightarrow> string option \<Rightarrow> (('c, 'b) Platform, ThreadResponse) handler" where
  "api_create_thread host env q blank token =
     seq (protected env q token) (\<lambda>current.
     seq (via (open_thread host (q_id q) blank (se_user_id current) (q_now q))) (\<lambda>t. ret (thread_response t None)))"

definition paged :: "('d, 'x) handler \<Rightarrow> ('d, 'x) handler" where
  "paged m = try_except m (\<lambda>e. throw (if e = CursorError then invalid else e))"

definition api_list_threads ::
    "(datetime \<times> uuid \<Rightarrow> string) \<Rightarrow> (string \<Rightarrow> (datetime \<times> uuid) result) \<Rightarrow> (string \<Rightarrow> string \<Rightarrow> bool) \<Rightarrow> Env \<Rightarrow> Req \<Rightarrow>
     string option \<Rightarrow> string option \<Rightarrow> nat \<Rightarrow> string option \<Rightarrow>
     (('c, 'b) Platform, ThreadResponse list \<times> string option) handler" where
  "api_list_threads enc dec ilike env q token cursor limit query =
     seq (protected env q token) (\<lambda>current.
     seq (paged (\<lambda>w. (list_threads enc dec ilike (se_user_id current) cursor limit query (p_db (s_db w)), w))) (\<lambda>(page, next_cursor).
     seq (read_db (\<lambda>pf. live_statuses (map t_id page) (se_user_id current) (p_runs pf))) (\<lambda>live.
       ret (map (\<lambda>t. thread_response t (live (t_id t))) page, next_cursor))))"

definition api_get_thread :: "Env \<Rightarrow> Req \<Rightarrow> string option \<Rightarrow> string \<Rightarrow> (('c, 'b) Platform, 'c ThreadDetailResponse) handler" where
  "api_get_thread env q token thread_id =
     seq (protected env q token) (\<lambda>current.
     seq (require_thread thread_id (se_user_id current)) (\<lambda>t.
     seq (read_db (\<lambda>pf. live_statuses [t_id t] (se_user_id current) (p_runs pf))) (\<lambda>live.
       ret (thread_detail t (live (t_id t))))))"

definition api_update_thread ::
    "Env \<Rightarrow> Req \<Rightarrow> string option \<Rightarrow> string \<Rightarrow> string option \<Rightarrow> 'c option \<Rightarrow>
     (('c, 'b) Platform, 'c ThreadDetailResponse) handler" where
  "api_update_thread env q token thread_id title config =
     seq (protected env q token) (\<lambda>current.
     seq (via (on_threads (update_thread thread_id (se_user_id current) title config (q_now q)))) (\<lambda>changed.
       case changed of None \<Rightarrow> throw not_found | Some t \<Rightarrow> ret (thread_detail t None)))"

text \<open>What \<open>delete_thread\<close> and \<open>sweep\<close> both do with a directory to remove; the result tells whether it is gone.\<close>

definition settle :: "Host \<Rightarrow> datetime \<Rightarrow> string \<Rightarrow> ('c, 'b, bool) pprog" where
  "settle host now thread_id pf =
     (case remote_destroy host thread_id pf of
        (Inl e, pf) \<Rightarrow> (Inr False, pf\<lparr>p_db := fail_purge thread_id (take 2000 (h_text host e)) (p_db pf)\<rparr>)
      | (Inr _, pf) \<Rightarrow> (Inr True, pf\<lparr>p_db := complete_purge thread_id now (p_db pf)\<rparr>))"

definition api_delete_thread :: "Host \<Rightarrow> Env \<Rightarrow> Req \<Rightarrow> string option \<Rightarrow> string \<Rightarrow> (('c, 'b) Platform, unit) handler" where
  "api_delete_thread host env q token thread_id =
     seq (protected env q token) (\<lambda>current.
     seq (require_thread thread_id (se_user_id current)) (\<lambda>_.
     seq (via (try_threads (delete_thread thread_id (se_user_id current) (q_now q)))) (\<lambda>_.
     seq (via (settle host (q_now q) thread_id)) (\<lambda>_. ret ()))))"

fun sweep_jobs :: "Host \<Rightarrow> datetime \<Rightarrow> PurgeJob list \<Rightarrow> nat \<Rightarrow> nat \<Rightarrow> ('c, 'b, nat \<times> nat) pprog" where
  "sweep_jobs host now [] completed failed = ret (completed, failed)"
| "sweep_jobs host now (job # jobs) completed failed =
     seq (settle host now (pj_thread_id job)) (\<lambda>ok.
       if ok then sweep_jobs host now jobs (completed + 1) failed else sweep_jobs host now jobs completed (failed + 1))"

definition purge_sweep :: "Host \<Rightarrow> datetime \<Rightarrow> nat \<Rightarrow> ('c, 'b, nat \<times> nat) pprog" where
  "purge_sweep host now limit pf = sweep_jobs host now (pending_purge limit (p_db pf)) 0 0 pf"

section \<open>Files\<close>

definition catching :: "(exn \<Rightarrow> exn) \<Rightarrow> ('s, 'a) program \<Rightarrow> ('s, 'a) program" where
  "catching f m = try_except m (\<lambda>e. throw (f e))"

definition api_upload_file ::
    "Host \<Rightarrow> Env \<Rightarrow> Req \<Rightarrow> string option \<Rightarrow> string \<Rightarrow> string \<Rightarrow> nat option \<Rightarrow> 'b \<Rightarrow> string \<Rightarrow> (('c, 'b) Platform, unit) handler" where
  "api_upload_file host env q token thread_id filename nbyte body directory =
     seq (protected env q token) (\<lambda>current.
     seq (require_thread thread_id (se_user_id current)) (\<lambda>_.
       if h_upload_max host < (case nbyte of None \<Rightarrow> 0 | Some n \<Rightarrow> n) then throw too_large
       else catching (\<lambda>e. if e = PathEscapeError then not_found else e)
              (via (http (save_failure host) (on_fs (user_step (h_root host) thread_id (Save filename body directory)))))))"

definition api_write_file :: "Host \<Rightarrow> Env \<Rightarrow> Req \<Rightarrow> string option \<Rightarrow> string \<Rightarrow> string \<Rightarrow> 'b \<Rightarrow> (('c, 'b) Platform, unit) handler" where
  "api_write_file host env q token thread_id rel body =
     seq (protected env q token) (\<lambda>current.
     seq (require_thread thread_id (se_user_id current)) (\<lambda>_.
       catching (\<lambda>e. if e = PathEscapeError \<or> e = FileMissingError then not_found else if e = IsADirectoryError then invalid else e)
         (via (http write_failure (on_fs (user_step (h_root host) thread_id (Write rel body)))))))"

definition api_create_directory :: "Host \<Rightarrow> Env \<Rightarrow> Req \<Rightarrow> string option \<Rightarrow> string \<Rightarrow> string \<Rightarrow> (('c, 'b) Platform, unit) handler" where
  "api_create_directory host env q token thread_id rel =
     seq (protected env q token) (\<lambda>current.
     seq (require_thread thread_id (se_user_id current)) (\<lambda>_.
       catching (\<lambda>e. if e = PathEscapeError \<or> e = FileMissingError then not_found else if e = FileExistsError then invalid else e)
         (via (http mkdir_failure (on_fs (user_step (h_root host) thread_id (Mkdir rel)))))))"

definition guard_file :: "exn \<Rightarrow> exn" where
  "guard_file e = (if e = FileMissingError then not_found else if e = IsADirectoryError then invalid else e)"

definition api_delete_file :: "Host \<Rightarrow> Env \<Rightarrow> Req \<Rightarrow> string option \<Rightarrow> string \<Rightarrow> string \<Rightarrow> (('c, 'b) Platform, unit) handler" where
  "api_delete_file host env q token thread_id rel =
     seq (protected env q token) (\<lambda>current.
     seq (require_thread thread_id (se_user_id current)) (\<lambda>_.
       catching guard_file (via (http file_failure (on_fs (user_step (h_root host) thread_id (Remove rel)))))))"

section \<open>Titles\<close>

definition MAX_TITLE_LENGTH :: nat where "MAX_TITLE_LENGTH = 20"

text \<open>The quotation marks beyond Latin-1 have no character of the model.\<close>

definition STRIPPED :: "char list" where
  "STRIPPED = [CHR 0x22, CHR 0x27, CHR '' '', CHR 0x09, CHR 0x0A]"

definition is_line_end :: "char \<Rightarrow> bool" where
  "is_line_end c \<longleftrightarrow> (of_char c :: nat) \<in> {10, 11, 12, 13, 28, 29, 30, 133}"

definition tidy :: "string \<Rightarrow> nat \<Rightarrow> string" where
  "tidy raw max_length =
     (let first = takeWhile (\<lambda>c. \<not> is_line_end c) (str_strip is_unicode_space raw)
      in take max_length (str_strip (\<lambda>c. c \<in> set STRIPPED) first))"

text \<open>\<open>compose\<close> in two parts: looking the thread up, and, when the model has answered, writing the title. \<open>None\<close> is a failed call.\<close>

definition compose_wanted :: "string \<Rightarrow> string \<Rightarrow> 'c ThreadDb \<Rightarrow> bool" where
  "compose_wanted thread_id user_id db =
     (case get_thread thread_id user_id db of None \<Rightarrow> False | Some t \<Rightarrow> t_title t = [])"

definition compose_write :: "string \<Rightarrow> string \<Rightarrow> string option \<Rightarrow> datetime \<Rightarrow> 'c ThreadDb \<Rightarrow> 'c ThreadDb" where
  "compose_write thread_id user_id answer now db =
     (let title = (case answer of None \<Rightarrow> [] | Some raw \<Rightarrow> tidy raw MAX_TITLE_LENGTH)
      in if title = [] then db else snd (update_thread thread_id user_id (Some title) None now db))"

section \<open>No directory is forgotten\<close>

text \<open>\<open>kept db n\<close>: the directory \<open>n\<close> belongs to a thread that is alive, or whose removal is still to be done.\<close>

definition is_live :: "'c ThreadDb \<Rightarrow> string \<Rightarrow> bool" where
  "is_live db n \<longleftrightarrow> (\<exists>r\<in>set (threads db). n = uuid_hex (th_pk r) \<and> th_deleted r = None)"

definition is_due :: "'c ThreadDb \<Rightarrow> string \<Rightarrow> bool" where
  "is_due db n \<longleftrightarrow> (\<exists>p\<in>set (purges db). n = uuid_hex (pu_thread p) \<and> pu_completed p = None)"

definition purges_ok :: "'c ThreadDb \<Rightarrow> bool" where
  "purges_ok db \<longleftrightarrow> threads_ok db \<and> distinct (map pu_thread (purges db)) \<and>
     (\<forall>k\<in>set (map pu_thread (purges db)). \<exists>r\<in>set (threads db). th_pk r = k \<and> th_deleted r \<noteq> None)"

definition tree_ok :: "path \<Rightarrow> 'b fs \<Rightarrow> bool" where
  "tree_ok root fs \<longleftrightarrow> root \<noteq> [] \<and> fs_ok fs \<and> map_of fs root = Some Directory \<and> (\<forall>n x. map_of fs (root @ [n]) = Some x \<longrightarrow> x = Directory)"

definition directories :: "path \<Rightarrow> 'b fs \<Rightarrow> string set" where
  "directories root fs = {n. map_of fs (root @ [n]) \<noteq> None}"

definition nothing_lost :: "Host \<Rightarrow> ('c, 'b) Platform \<Rightarrow> bool" where
  "nothing_lost host pf \<longleftrightarrow>
     purges_ok (p_db pf) \<and> tree_ok (h_root host) (p_fs pf) \<and>
     (\<forall>n\<in>directories (h_root host) (p_fs pf). is_live (p_db pf) n \<or> is_due (p_db pf) n)"

lemma thread_workspace_name:
  assumes ok: "tree_ok root fs" and n: "proper n" "CHR ''/'' \<notin> set n" "CHR 0x00 \<notin> set n"
  shows "thread_workspace root n fs = Inr (root @ [n])"
proof -
  have fs: "fs_ok fs" and root: "map_of fs root = Some Directory" using ok by (simp_all add: tree_ok_def)
  have split: "split_sep s = [s]" if "CHR ''/'' \<notin> set s" for s using that by (induction s) auto
  have "joinpath root n = root @ [n]" using n(1,2) by (cases n) (auto simp: joinpath_def is_absolute_def path_parts_def split proper_def)
  moreover have "real fs (root @ [n]) = root @ [n]"
    using real_entry [OF fs root n(1)] ok by (auto simp: tree_ok_def)
  moreover have "real fs root = root" using real_plain [OF fs root] by simp
  ultimately show ?thesis using n by (simp add: thread_workspace_def resolve_path_def proper_def)
qed

lemma proper_uuid_hex: "proper (uuid_hex u)" "CHR ''/'' \<notin> set (uuid_hex u)" "CHR 0x00 \<notin> set (uuid_hex u)"
proof -
  have "length (uuid_hex u) = 32" by (simp add: uuid_hex_def)
  then show "proper (uuid_hex u)" by (auto simp: proper_def)
  show "CHR ''/'' \<notin> set (uuid_hex u)" "CHR 0x00 \<notin> set (uuid_hex u)" by (simp_all add: uuid_hex_def hex_pad_avoids)
qed

lemma workspace_of: "tree_ok root fs \<Longrightarrow> thread_workspace root (uuid_hex u) fs = Inr (root @ [uuid_hex u])"
  by (intro thread_workspace_name proper_uuid_hex)

lemma is_dir_child:
  assumes "tree_ok root fs" "proper n"
  shows "is_dir fs (root @ [n]) \<longleftrightarrow> n \<in> directories root fs"
proof
  assume "n \<in> directories root fs"
  then have "map_of fs (root @ [n]) = Some Directory" using assms by (auto simp: directories_def tree_ok_def)
  then show "is_dir fs (root @ [n])" using assms follow_plain [of fs "root @ [n]"] by (simp add: tree_ok_def is_dir_def)
next
  assume d: "is_dir fs (root @ [n])"
  have "real fs (root @ [n]) = root @ [n]" using assms real_entry [of fs root n] by (auto simp: tree_ok_def)
  with d is_dir_real [of fs "root @ [n]"] assms show "n \<in> directories root fs" by (simp add: tree_ok_def directories_def)
qed

lemma tree_ok_rmtree:
  assumes ok: "tree_ok root fs"
  shows "tree_ok root (filter (\<lambda>(q, _). \<not> prefix (root @ [n]) q) fs)"
    "directories root (filter (\<lambda>(q, _). \<not> prefix (root @ [n]) q) fs) = directories root fs - {n}"
proof -
  have np: "\<not> prefix (root @ [n]) root" using prefix_length_le by fastforce
  have "fs_ok (filter (\<lambda>(q, _). \<not> prefix (root @ [n]) q) fs)"
  proof (rule fs_ok_remove)
    show "map_of fs (q @ [c]) = None" if "\<not> prefix (root @ [n]) (q @ [c])" "\<not> \<not> prefix (root @ [n]) q" for q c
      using that by (auto intro: prefix_order.trans)
  qed (use ok in \<open>simp_all add: tree_ok_def\<close>)
  then show "tree_ok root (filter (\<lambda>(q, _). \<not> prefix (root @ [n]) q) fs)"
    using ok np by (auto simp: tree_ok_def map_of_filter_key)
  show "directories root (filter (\<lambda>(q, _). \<not> prefix (root @ [n]) q) fs) = directories root fs - {n}"
    using np by (auto simp: directories_def map_of_filter_key)
qed

lemma destroy_directory:
  assumes ok: "tree_ok root fs"
  obtains fs' where "ws_destroy root (uuid_hex u) fs = (Inr (), fs')" "tree_ok root fs'"
    "directories root fs' = directories root fs - {uuid_hex u}"
proof (cases "uuid_hex u \<in> directories root fs")
  case True
  with is_dir_child [OF ok proper_uuid_hex(1)] workspace_of [OF ok] that tree_ok_rmtree [OF ok] show ?thesis
    by (simp add: ws_destroy_def ws_simps rmtree_def)
next
  case False
  with is_dir_child [OF ok proper_uuid_hex(1)] workspace_of [OF ok] that ok show ?thesis
    by (simp add: ws_destroy_def ws_simps)
qed

lemma new_directory:
  assumes ok: "tree_ok root fs" and new: "uuid_hex u \<notin> directories root fs"
  obtains fs' where "make_dirs (root @ [uuid_hex u]) fs = (Inr (), fs')" "tree_ok root fs'"
    "directories root fs' = insert (uuid_hex u) (directories root fs)"
proof -
  let ?p = "root @ [uuid_hex u]"
  have none: "map_of fs ?p = None" using new by (simp add: directories_def)
  have fs: "fs_ok fs" and root: "map_of fs root = Some Directory" using ok by (simp_all add: tree_ok_def)
  have above: "map_of fs q = Some Directory" if "prefix q root" for q
    using that root fs_ok_prefix [OF fs] by (cases "q = root") (auto simp: prefix_def)
  have "prefixes ?p = prefixes root @ [?p]" by (simp add: prefixes_snoc)
  moreover have "filter (\<lambda>q. map_of fs q = None) (prefixes root) = []" using above by (auto simp: filter_empty_conv)
  ultimately have mk: "make_dirs ?p fs = (Inr (), (?p, Directory) # fs)"
    using none above by (auto simp: make_dirs_def list_all_iff)
  have "tree_ok root ((?p, Directory) # fs)"
    using ok fs_ok_put [OF fs root proper_uuid_hex(1)] none by (auto simp: tree_ok_def)
  moreover have "directories root ((?p, Directory) # fs) = insert (uuid_hex u) (directories root fs)"
    by (auto simp: directories_def)
  ultimately show ?thesis using that mk by blast
qed

lemma create_directory:
  assumes ok: "tree_ok root fs" and assign: "assign = (\<lambda>_ _. None)"
  obtains fs' where "ws_create assign root (uuid_hex u) fs = (Inr (uuid_hex u), fs')" "tree_ok root fs'"
    "directories root fs' = insert (uuid_hex u) (directories root fs)"
proof (cases "uuid_hex u \<in> directories root fs")
  case True
  with is_dir_child [OF ok proper_uuid_hex(1)] workspace_of [OF ok] that ok show ?thesis
    by (simp add: ws_create_def ws_path_def ws_simps insert_absorb)
next
  case False
  obtain fs' where "make_dirs (root @ [uuid_hex u]) fs = (Inr (), fs')" "tree_ok root fs'"
    "directories root fs' = insert (uuid_hex u) (directories root fs)"
    using new_directory [OF ok False] by blast
  then show ?thesis
    using that is_dir_child [OF ok proper_uuid_hex(1)] workspace_of [OF ok] False assign
    by (simp add: ws_create_def ws_path_def ws_simps)
qed

text \<open>The directory is made before its quota is set, and stays when that fails.\<close>

lemma create_unlimited_directory:
  assumes ok: "tree_ok root fs" and assign: "assign = (\<lambda>_ _. Some e)" and new: "uuid_hex u \<notin> directories root fs"
  obtains fs' where "ws_create assign root (uuid_hex u) fs = (Inl e, fs')"
    "directories root fs' = insert (uuid_hex u) (directories root fs)"
proof -
  obtain fs' where "make_dirs (root @ [uuid_hex u]) fs = (Inr (), fs')"
    "directories root fs' = insert (uuid_hex u) (directories root fs)"
    using new_directory [OF ok new] by blast
  then show ?thesis
    using that is_dir_child [OF ok proper_uuid_hex(1)] workspace_of [OF ok] new assign
    by (simp add: ws_create_def ws_path_def ws_simps)
qed

lemma next_call_sels [simp]: "p_db (next_call pf) = p_db pf" "p_fs (next_call pf) = p_fs pf" "p_pool (next_call pf) = p_pool pf"
  by (simp_all add: next_call_def)

lemma http_cases:
  assumes "http f m pf = (r, pf')"
  obtains (lost) "isl r" "pf' = next_call pf"
  | (cut) x where "p_faults pf \<noteq> []" "hd (p_faults pf) = Cut" "isl r" "m (next_call pf) = (x, pf')"
  | (failed) e where "r = Inl (f e)" "m (next_call pf) = (Inl e, pf')"
  | (ok) x where "r = Inr x" "m (next_call pf) = (Inr x, pf')"
proof -
  let ?q = "next_call pf"
  obtain x q' where m: "m ?q = (x, q')" by fastforce
  show ?thesis
  proof (cases "if p_faults pf = [] then Reached else hd (p_faults pf)")
    case Reached
    with assms m show ?thesis using failed ok by (cases x) (auto simp: http_def Let_def)
  next
    case Lost
    with assms show ?thesis using lost by (auto simp: http_def Let_def)
  next
    case Cut
    with assms m show ?thesis using cut by (auto simp: http_def Let_def split: if_splits)
  qed
qed

lemma remote_destroy_cases:
  assumes ok: "tree_ok (h_root host) (p_fs pf)" and run: "remote_destroy host (uuid_hex u) pf = (r, pf')"
  shows "p_db pf' = p_db pf \<and> tree_ok (h_root host) (p_fs pf') \<and>
    (directories (h_root host) (p_fs pf') = directories (h_root host) (p_fs pf) - {uuid_hex u} \<or>
     isl r \<and> directories (h_root host) (p_fs pf') = directories (h_root host) (p_fs pf))"
proof -
  obtain fs' where fs': "ws_destroy (h_root host) (uuid_hex u) (p_fs pf) = (Inr (), fs')" "tree_ok (h_root host) fs'"
    "directories (h_root host) fs' = directories (h_root host) (p_fs pf) - {uuid_hex u}"
    using destroy_directory [OF ok] by blast
  have b: "case broker_destroy host (uuid_hex u) q of
      (Inl e, pf2) \<Rightarrow> p_db pf2 = p_db q \<and> p_fs pf2 = p_fs q
    | (Inr _, pf2) \<Rightarrow> p_db pf2 = p_db q \<and> p_fs pf2 = fs'" if "p_fs q = p_fs pf" for q
    using that fs'(1) by (auto simp: broker_destroy_def seq_def pool_discard_def on_fs_def split: prod.splits option.splits sum.splits)
  let ?q = "next_call pf"
  obtain x q' where x: "broker_destroy host (uuid_hex u) ?q = (x, q')" by fastforce
  have q': "p_db q' = p_db pf" "p_fs q' = (case x of Inl _ \<Rightarrow> p_fs pf | Inr _ \<Rightarrow> fs')"
    using b [of ?q] x by (simp_all split: sum.splits)
  show ?thesis
  proof (cases rule: http_cases [OF run [unfolded remote_destroy_def]])
    case 1
    with ok show ?thesis by simp
  next
    case (2 y)
    with x q' fs' ok show ?thesis by (cases x) simp_all
  next
    case (3 e)
    with x q' ok show ?thesis by auto
  next
    case (4 y)
    then have "x = Inr ()" "pf' = q'" using x by simp_all
    with q' fs' show ?thesis by simp
  qed
qed

lemma purges_ok_change:
  assumes "\<And>p. pu_thread (f p) = pu_thread p"
  shows "purges_ok (change_purge t f db) = purges_ok db" "threads (change_purge t f db) = threads db"
proof -
  show t: "threads (change_purge t f db) = threads db" by (simp add: change_purge_def split: option.split)
  have m: "map pu_thread (purges (change_purge t f db)) = map pu_thread (purges db)"
    using assms by (auto simp: change_purge_def split: option.split)
  with t show "purges_ok (change_purge t f db) = purges_ok db" by (simp only: purges_ok_def threads_ok_def)
qed

lemma fail_purge_keeps:
  shows "purges_ok (fail_purge t e db) = purges_ok db" "is_live (fail_purge t e db) n = is_live db n" "is_due (fail_purge t e db) n = is_due db n"
proof -
  show "purges_ok (fail_purge t e db) = purges_ok db" "is_live (fail_purge t e db) n = is_live db n"
    by (simp_all add: fail_purge_def purges_ok_change is_live_def)
  show "is_due (fail_purge t e db) n = is_due db n"
  proof (cases "UUID t")
    case (Some i)
    have l: "map (uuid_hex \<circ> pu_thread) (filter (\<lambda>p. pu_completed p = None)
        (map (\<lambda>p. if pu_thread p = i \<and> pu_completed p = None then p\<lparr>pu_attempts := pu_attempts p + 1, pu_error := Some e\<rparr> else p) ps)) =
        map (uuid_hex \<circ> pu_thread) (filter (\<lambda>p. pu_completed p = None) ps)" for ps
      by (induction ps) auto
    have d: "is_due d n \<longleftrightarrow> n \<in> set (map (uuid_hex \<circ> pu_thread) (filter (\<lambda>p. pu_completed p = None) (purges d)))" for d :: "'a ThreadDb"
      by (auto simp: is_due_def)
    have "purges (fail_purge t e db) = map (\<lambda>p. if pu_thread p = i \<and> pu_completed p = None
        then p\<lparr>pu_attempts := pu_attempts p + 1, pu_error := Some e\<rparr> else p) (purges db)"
      using Some by (simp add: fail_purge_def change_purge_def)
    then show ?thesis unfolding d by (simp only: l)
  qed (simp add: fail_purge_def change_purge_def)
qed

lemma complete_purge_keeps:
  assumes "u < 2 ^ 128"
  shows "purges_ok (complete_purge (uuid_hex u) now db) = purges_ok db" "is_live (complete_purge (uuid_hex u) now db) n = is_live db n"
    "n \<noteq> uuid_hex u \<Longrightarrow> is_due db n \<Longrightarrow> is_due (complete_purge (uuid_hex u) now db) n"
proof -
  show "purges_ok (complete_purge (uuid_hex u) now db) = purges_ok db" "is_live (complete_purge (uuid_hex u) now db) n = is_live db n"
    by (simp_all add: complete_purge_def purges_ok_change is_live_def)
  assume n: "n \<noteq> uuid_hex u" and "is_due db n"
  then obtain p where p: "p \<in> set (purges db)" "n = uuid_hex (pu_thread p)" "pu_completed p = None" by (auto simp: is_due_def)
  with n have "pu_thread p \<noteq> u" by auto
  with p assms show "is_due (complete_purge (uuid_hex u) now db) n"
    by (auto simp: is_due_def complete_purge_def change_purge_def intro!: bexI [of _ p] image_eqI [of _ _ p])
qed

lemma settle_keeps [step_intros]:
  assumes u: "u < 2 ^ 128"
  shows "keeps (nothing_lost host) (settle host now (uuid_hex u))"
proof (rule keepsI)
  fix pf :: "('c, 'b) Platform" assume pf: "nothing_lost host pf"
  obtain r pf' where run: "remote_destroy host (uuid_hex u) pf = (r, pf')" by fastforce
  have c: "p_db pf' = p_db pf" "tree_ok (h_root host) (p_fs pf')"
    "directories (h_root host) (p_fs pf') = directories (h_root host) (p_fs pf) - {uuid_hex u} \<or>
     isl r \<and> directories (h_root host) (p_fs pf') = directories (h_root host) (p_fs pf)"
    using remote_destroy_cases [OF _ run] pf by (auto simp: nothing_lost_def)
  show "nothing_lost host (snd (settle host now (uuid_hex u) pf))"
  proof (cases r)
    case (Inl e)
    with run c pf show ?thesis by (auto simp: settle_def nothing_lost_def fail_purge_keeps)
  next
    case (Inr x)
    with run c pf show ?thesis by (auto simp: settle_def nothing_lost_def complete_purge_keeps [OF u])
  qed
qed

lemma sweep_jobs_keeps:
  "\<forall>j\<in>set jobs. \<exists>u<2 ^ 128. pj_thread_id j = uuid_hex u \<Longrightarrow> keeps (nothing_lost host) (sweep_jobs host now jobs done_n failed)"
proof (induction jobs arbitrary: done_n failed)
  case (Cons j jobs)
  then obtain u where "u < 2 ^ 128" "pj_thread_id j = uuid_hex u" by auto
  with Cons show ?case by (auto intro!: step_intros)
qed simp

lemma pending_ids:
  assumes "purges_ok db" "j \<in> set (pending_purge limit db)"
  shows "\<exists>p\<in>set (purges db). pj_thread_id j = uuid_hex (pu_thread p) \<and> pu_thread p < 2 ^ 128 \<and> pu_completed p = None"
proof -
  from assms(2) obtain p where "p \<in> set (purges db)" "pu_completed p = None" "pj_thread_id j = uuid_hex (pu_thread p)"
    by (auto simp: pending_purge_def dest!: in_set_takeD)
  with assms(1) show ?thesis by (force simp: purges_ok_def threads_ok_def)
qed

lemma purge_sweep_keeps: "keeps (nothing_lost host) (purge_sweep host now limit)"
  unfolding purge_sweep_def
proof (rule keepsI)
  fix pf :: "('c, 'b) Platform" assume pf: "nothing_lost host pf"
  have "\<forall>j\<in>set (pending_purge limit (p_db pf)). \<exists>u<2 ^ 128. pj_thread_id j = uuid_hex u"
    using pending_ids pf by (fastforce simp: nothing_lost_def)
  from keepsD [OF sweep_jobs_keeps [OF this] pf]
  show "nothing_lost host (snd (sweep_jobs host now (pending_purge limit (p_db pf)) 0 0 pf))" .
qed

lemma remote_create_cases:
  assumes ok: "tree_ok (h_root host) (p_fs pf)" and assign: "h_assign host = (\<lambda>_ _. None)"
    and tame: "p_faults pf = [] \<or> hd (p_faults pf) \<noteq> Cut" and run: "remote_create host (uuid_hex u) pf = (r, pf')"
  shows "p_db pf' = p_db pf \<and> tree_ok (h_root host) (p_fs pf') \<and>
    directories (h_root host) (p_fs pf') =
      (if isl r then directories (h_root host) (p_fs pf) else insert (uuid_hex u) (directories (h_root host) (p_fs pf)))"
proof -
  obtain fs' where fs': "ws_create (h_assign host) (h_root host) (uuid_hex u) (p_fs pf) = (Inr (uuid_hex u), fs')"
    "tree_ok (h_root host) fs'" "directories (h_root host) fs' = insert (uuid_hex u) (directories (h_root host) (p_fs pf))"
    using create_directory [OF ok assign] by blast
  have c: "on_fs (ws_create (h_assign host) (h_root host) (uuid_hex u)) (next_call pf) = (Inr (uuid_hex u), (next_call pf)\<lparr>p_fs := fs'\<rparr>)"
    using fs'(1) by (simp add: on_fs_def)
  show ?thesis
  proof (cases rule: http_cases [OF run [unfolded remote_create_def]])
    case 1
    with ok show ?thesis by simp
  next
    case (2 y)
    with tame show ?thesis by simp
  next
    case (3 e)
    with c show ?thesis by simp
  next
    case (4 y)
    then have "pf' = (next_call pf)\<lparr>p_fs := fs'\<rparr>" using c by simp
    with 4(1) fs' show ?thesis by simp
  qed
qed

lemma create_then_purge:
  assumes "purges_ok db" "create_thread i blank user_id [] now db = Inr (t, d)" "i < 2 ^ 128"
  shows "t_id t = uuid_hex i" "purges_ok d" "is_live d (uuid_hex i)" "is_live db n \<Longrightarrow> is_live d n" "is_due d n = is_due db n"
    "purge_thread (t_id t) user_id d = db"
proof -
  from assms(2) obtain owner where u: "UUID user_id = Some owner" by (auto simp: create_thread_def split: option.splits)
  let ?r = "\<lparr>th_pk = i, th_user = owner, th_title = [], th_config = blank, th_created = now, th_updated = now, th_deleted = None\<rparr>"
  from assms(2) u have new: "\<forall>x\<in>set (threads db). th_pk x \<noteq> i" and t: "t = to_thread ?r" and d: "d = db\<lparr>threads := threads db @ [?r]\<rparr>"
    by (auto simp: create_thread_def sql_insert_def list_ex_iff Let_def split: if_splits)
  show "t_id t = uuid_hex i" using t by (simp add: to_thread_def)
  show "purges_ok d" using assms(1,3) new by (auto simp: purges_ok_def threads_ok_def d)
  show "is_live d (uuid_hex i)" by (auto simp: is_live_def d)
  show "is_live db n \<Longrightarrow> is_live d n" by (auto simp: is_live_def d)
  show "is_due d n = is_due db n" by (simp add: is_due_def d)
  have old: "filter (\<lambda>x. th_pk x \<noteq> i) (threads db) = threads db" "\<not> (\<exists>x\<in>set (threads db). th_pk x = i)"
    using new by (auto simp: filter_id_conv)
  have "find (\<lambda>r. th_pk r = i \<and> visible owner r) (threads db @ [?r]) = Some ?r"
    using old(2) by (auto simp: visible_def find_append find_None_iff split: option.split dest!: find_in)
  then show "purge_thread (t_id t) user_id d = db"
    using u assms(3) old(1) by (simp add: purge_thread_def find_thread_def t to_thread_def d)
qed

lemma open_thread_keeps:
  assumes pf: "nothing_lost host pf" and i: "i < 2 ^ 128" and assign: "h_assign host = (\<lambda>_ _. None)"
    and tame: "p_faults pf = [] \<or> hd (p_faults pf) \<noteq> Cut"
  shows "nothing_lost host (snd (open_thread host i blank user_id now pf))"
proof (cases "create_thread i blank user_id [] now (p_db pf)")
  case (Inl e)
  with pf show ?thesis by (simp add: open_thread_def seq_def try_threads_def)
next
  case (Inr td)
  then obtain t d where td: "create_thread i blank user_id [] now (p_db pf) = Inr (t, d)" by (cases td) auto
  have ok: "purges_ok (p_db pf)" using pf by (simp add: nothing_lost_def)
  note c = create_then_purge [OF ok td i]
  let ?q = "pf\<lparr>p_db := d\<rparr>"
  obtain r q' where run: "remote_create host (uuid_hex i) ?q = (r, q')" by fastforce
  have "tree_ok (h_root host) (p_fs ?q)" using pf by (simp add: nothing_lost_def)
  from remote_create_cases [OF this assign _ run] tame
  have q': "p_db q' = d" "tree_ok (h_root host) (p_fs q')" "directories (h_root host) (p_fs q') =
      (if isl r then directories (h_root host) (p_fs pf) else insert (uuid_hex i) (directories (h_root host) (p_fs pf)))"
    by simp_all
  show ?thesis
  proof (cases r)
    case (Inl e)
    then have "snd (open_thread host i blank user_id now pf) = q'\<lparr>p_db := p_db pf\<rparr>"
      using td run c(1,6) q'(1)
      by (simp add: open_thread_def seq_def try_threads_def try_except_def on_threads_def throw_def)
    then show ?thesis using pf q' Inl by (simp add: nothing_lost_def)
  next
    case (Inr x)
    then have "snd (open_thread host i blank user_id now pf) = q'"
      using td run c(1) by (simp add: open_thread_def seq_def try_threads_def try_except_def ret_def)
    then show ?thesis using pf q' Inr c(2-5) by (auto simp: nothing_lost_def)
  qed
qed

lemma delete_keeps:
  assumes "nothing_lost host pf"
  shows "nothing_lost host (snd (try_threads (delete_thread thread_id user_id now) pf))"
proof (cases "delete_thread thread_id user_id now (p_db pf)")
  case (Inr bd)
  obtain b d where bd: "bd = (b, d)" by fastforce
  show ?thesis
  proof (cases "find_thread thread_id user_id (p_db pf)")
    case None
    with Inr assms show ?thesis by (auto simp: try_threads_def delete_thread_def)
  next
    case (Some r)
    let ?db = "p_db pf"
    let ?p = "\<lparr>pu_thread = th_pk r, pu_requested = now, pu_completed = None, pu_attempts = 0, pu_error = None\<rparr>"
    let ?f = "\<lambda>x. if th_pk x = th_pk r then x\<lparr>th_deleted := Some now\<rparr> else x"
    from Inr bd Some have new: "th_pk r \<notin> pu_thread ` set (purges ?db)"
      and d: "threads d = map ?f (threads ?db)" "purges d = purges ?db @ [?p]"
      by (auto simp: delete_thread_def sql_insert_def list_ex_iff set_row_def result_bind_Inr_iff split: if_splits)
    have ok: "purges_ok ?db" using assms by (simp add: nothing_lost_def)
    have r: "r \<in> set (threads ?db)" using find_thread_row [OF Some] by simp
    have pk: "map th_pk (threads d) = map th_pk (threads ?db)" by (auto simp: d)
    have rows: "\<exists>y\<in>set (threads d). th_pk y = th_pk x \<and> (th_deleted x \<noteq> None \<or> th_pk x = th_pk r \<longrightarrow> th_deleted y \<noteq> None)"
      if "x \<in> set (threads ?db)" for x using that by (intro bexI [of _ "?f x"]) (simp_all add: d)
    have "\<forall>k\<in>set (map pu_thread (purges d)). \<exists>y\<in>set (threads d). th_pk y = k \<and> th_deleted y \<noteq> None"
      using ok rows rows [OF r] unfolding purges_ok_def d(2) by fastforce
    moreover have "\<forall>y\<in>set (threads d). th_pk y < 2 ^ 128" using ok by (auto simp: d purges_ok_def threads_ok_def)
    ultimately have "purges_ok d" using ok new pk by (simp add: purges_ok_def threads_ok_def d(2))
    moreover have "is_live d n \<or> is_due d n" if "is_live ?db n \<or> is_due ?db n" for n
      using that by (auto simp: is_live_def is_due_def d)
    ultimately show ?thesis using assms Inr bd by (auto simp: try_threads_def nothing_lost_def)
  qed
qed (use assms in \<open>simp add: try_threads_def\<close>)

lemma update_keeps:
  "nothing_lost host pf \<Longrightarrow> nothing_lost host (snd (on_threads (update_thread thread_id user_id title config now) pf))"
proof (cases "find_thread thread_id user_id (p_db pf)")
  case (Some r)
  assume pf: "nothing_lost host pf"
  let ?db = "p_db pf" and ?f = "\<lambda>x. if th_pk x = th_pk r then updated_row title config now x else x"
  let ?d = "set_row (th_pk r) (updated_row title config now) ?db"
  have u: "th_pk (updated_row title config now x) = th_pk x" "th_deleted (updated_row title config now x) = th_deleted x" for x
    by (simp_all add: updated_row_def Let_def split: option.split)
  have "map th_pk (threads ?d) = map th_pk (threads ?db)" "\<forall>y\<in>set (threads ?d). th_pk y < 2 ^ 128" if "purges_ok ?db"
    using that by (auto simp: set_row_def u purges_ok_def threads_ok_def)
  moreover have "(\<exists>y\<in>set (threads ?d). th_pk y = k \<and> th_deleted y \<noteq> None) = (\<exists>y\<in>set (threads ?db). th_pk y = k \<and> th_deleted y \<noteq> None)" for k
  proof -
    have "th_pk (?f y) = th_pk y \<and> th_deleted (?f y) = th_deleted y" for y by (simp add: u)
    then show ?thesis unfolding set_row_def by (simp del: if_image_distrib)
  qed
  moreover have "purges ?d = purges ?db" by (simp add: set_row_def)
  ultimately have "purges_ok ?d" if "purges_ok ?db" using that unfolding purges_ok_def threads_ok_def by simp
  moreover have "is_live ?d n = is_live ?db n" "is_due ?d n = is_due ?db n" for n
  proof -
    have "th_pk (?f y) = th_pk y \<and> th_deleted (?f y) = th_deleted y" for y by (simp add: u)
    then show "is_live ?d n = is_live ?db n" unfolding is_live_def set_row_def by (simp del: if_image_distrib)
  qed (simp add: is_due_def set_row_def)
  ultimately show ?thesis using pf Some by (simp add: on_threads_def update_thread_def nothing_lost_def)
qed (simp add: on_threads_def update_thread_def)

lemma file_step_keeps:
  assumes pf: "nothing_lost host pf" and nl: "\<And>f b d. op = Save f b d \<Longrightarrow> \<forall>w. no_links_below w (p_fs pf)"
  shows "nothing_lost host (snd (http f (on_fs (user_step (h_root host) thread_id op)) pf))"
proof -
  let ?root = "h_root host" and ?fs = "p_fs pf"
  have ok: "fs_ok ?fs" "map_of ?fs ?root = Some Directory" using pf by (simp_all add: nothing_lost_def tree_ok_def)
  obtain r fs' where run: "user_step ?root thread_id op ?fs = (r, fs')" by fastforce
  have "fs_ok fs' \<and> (\<forall>p. map_of fs' p \<noteq> map_of ?fs p \<longrightarrow> length ?root + 1 < length p)"
  proof (cases "thread_workspace ?root thread_id ?fs")
    case (Inl e)
    then have "fs' = ?fs"
      using run by (cases op) (auto simp: ws_save_def ws_write_def ws_mkdir_def ws_remove_def ws_simps Let_def split: if_splits)
    with ok show ?thesis by simp
  next
    case (Inr w)
    then have "butlast w = ?root" using real_plain [OF ok]
      by (auto simp: thread_workspace_def Let_def result_bind_Inr_iff split: if_splits)
    moreover have "?root \<noteq> []" using pf by (simp add: nothing_lost_def tree_ok_def)
    ultimately have w: "length w = length ?root + 1" by (cases w rule: rev_cases) auto
    have "harmless w ?fs fs'" by (rule user_step_harmless [OF ok(1) Inr run]) (use nl in blast)
    from harmless_fact [OF ok(1) this] have "fs_ok fs'" "map_of fs' p \<noteq> map_of ?fs p \<Longrightarrow> user_path w p" for p by auto
    moreover have "length w < length p" if "user_path w p" for p
      using that by (auto simp: user_path_def prefix_def)
    ultimately show ?thesis using w by auto
  qed
  then have fs': "fs_ok fs'" "map_of fs' (?root @ [n]) = map_of ?fs (?root @ [n])" "map_of fs' ?root = map_of ?fs ?root" for n
    by fastforce+
  have "tree_ok ?root fs'" using pf fs' by (simp add: nothing_lost_def tree_ok_def)
  moreover have "directories ?root fs' = directories ?root ?fs" using fs' by (simp add: directories_def)
  ultimately have kept: "nothing_lost host q" if "p_db q = p_db pf" "p_fs q = ?fs \<or> p_fs q = fs'" for q :: "('a, 'b) Platform"
    using pf that(2) by (elim disjE) (simp_all add: nothing_lost_def that(1))
  obtain r' pf' where h: "http f (on_fs (user_step ?root thread_id op)) pf = (r', pf')" by fastforce
  have m: "on_fs (user_step ?root thread_id op) (next_call pf) = (r, (next_call pf)\<lparr>p_fs := fs'\<rparr>)"
    using run by (simp add: on_fs_def)
  from h have "pf' = next_call pf \<or> pf' = (next_call pf)\<lparr>p_fs := fs'\<rparr>"
    by (cases rule: http_cases) (use m in auto)
  then show ?thesis unfolding h using kept by auto
qed

section \<open>Requests and sweeps\<close>

datatype ('c, 'b) thread_call =
    CreateThread "string option"
  | UpdateThread "string option" string "string option" "'c option"
  | DeleteThread "string option" string
  | UploadFile "string option" string string "nat option" 'b string
  | WriteFile "string option" string string 'b
  | CreateDirectory "string option" string string
  | DeleteFile "string option" string string
  | ComposeTitle string string "string option"
  | PurgeSweep nat

fun serve_thread :: "Host \<Rightarrow> Env \<Rightarrow> 'c \<Rightarrow> Req \<times> ('c, 'b) thread_call \<Rightarrow> ('c, 'b) Platform Site \<Rightarrow> ('c, 'b) Platform Site" where
  "serve_thread host env blank (q, CreateThread token) w = snd (api_create_thread host env q blank token w)"
| "serve_thread host env blank (q, UpdateThread token t title config) w = snd (api_update_thread env q token t title config w)"
| "serve_thread host env blank (q, DeleteThread token t) w = snd (api_delete_thread host env q token t w)"
| "serve_thread host env blank (q, UploadFile token t f n b d) w = snd (api_upload_file host env q token t f n b d w)"
| "serve_thread host env blank (q, WriteFile token t p b) w = snd (api_write_file host env q token t p b w)"
| "serve_thread host env blank (q, CreateDirectory token t p) w = snd (api_create_directory host env q token t p w)"
| "serve_thread host env blank (q, DeleteFile token t p) w = snd (api_delete_file host env q token t p w)"
| "serve_thread host env blank (q, ComposeTitle t u answer) w =
     snd (via (on_threads (\<lambda>d. ((), compose_write t u answer (q_now q) d))) w)"
| "serve_thread host env blank (q, PurgeSweep limit) w = snd (via (purge_sweep host (q_now q) limit) w)"

text \<open>What the model has to exclude: an answer of the broker cut off after it made a directory, a thread deleted by another spelling
  of its identifier, and an upload into a directory with links.\<close>

fun tame :: "Req \<times> ('c, 'b) thread_call \<Rightarrow> ('c, 'b) Platform Site \<Rightarrow> bool" where
  "tame (q, CreateThread token) w \<longleftrightarrow> q_id q < 2 ^ 128 \<and> (p_faults (s_db w) = [] \<or> hd (p_faults (s_db w)) \<noteq> Cut)"
| "tame (q, DeleteThread token t) w \<longleftrightarrow> (\<exists>u<2 ^ 128. t = uuid_hex u)"
| "tame (q, UploadFile token t f n b d) w \<longleftrightarrow> (\<forall>x. no_links_below x (p_fs (s_db w)))"
| "tame (q, c) w \<longleftrightarrow> True"

fun tame_run :: "Host \<Rightarrow> Env \<Rightarrow> 'c \<Rightarrow> (Req \<times> ('c, 'b) thread_call) list \<Rightarrow> ('c, 'b) Platform Site \<Rightarrow> bool" where
  "tame_run host env blank [] w \<longleftrightarrow> True"
| "tame_run host env blank (c # cs) w \<longleftrightarrow> tame c w \<and> tame_run host env blank cs (serve_thread host env blank c w)"

definition serve_threads :: "Host \<Rightarrow> Env \<Rightarrow> 'c \<Rightarrow> (Req \<times> ('c, 'b) thread_call) list \<Rightarrow> ('c, 'b) Platform Site \<Rightarrow> ('c, 'b) Platform Site" where
  "serve_threads host env blank cs w = foldl (\<lambda>w c. serve_thread host env blank c w) w cs"

text \<open>Invariants of the platform through the dependencies of an endpoint.\<close>

lemma protected_then_db:
  assumes "P (s_db w)" "\<And>s w'. s_db w' = s_db w \<Longrightarrow> P (s_db (snd (f s w')))"
  shows "P (s_db (snd (seq (protected env q token) f w)))"
proof -
  obtain r w' where p: "protected env q token w = (r, w')" by fastforce
  from protected_state(1) [OF p] assms show ?thesis by (cases r) (simp_all add: seq_def p)
qed

lemma require_then_db:
  assumes "P (s_db w)" "\<And>t. P (s_db (snd (f t w)))"
  shows "P (s_db (snd (seq (require_thread thread_id user_id) f w)))"
  using assms by (cases "get_thread thread_id user_id (p_db (s_db w))") (simp_all add: require_thread_def seq_def read_db_def ret_def throw_def)

lemma via_then_db:
  assumes "P (snd (m (s_db w)))" "\<And>x w'. P (s_db w') \<Longrightarrow> P (s_db (snd (f x w')))"
  shows "P (s_db (snd (seq (via m) f w)))"
  using assms by (cases "m (s_db w)"; cases "fst (m (s_db w))") (auto simp: via_def seq_def)

lemma via_db: "s_db (snd (via m w)) = snd (m (s_db w))"
  by (simp add: via_def split: prod.split)

lemma catching_state: "snd (catching f m w) = snd (m w)"
  by (simp add: catching_def try_except_def throw_def split: prod.split sum.split)

definition on_site :: "('d \<Rightarrow> bool) \<Rightarrow> 'd Site \<Rightarrow> bool" where
  "on_site P w \<longleftrightarrow> P (s_db w)"

lemma keeps_on_site: "keeps (on_site P) m \<Longrightarrow> P (s_db w) \<Longrightarrow> P (s_db (snd (m w)))"
  by (auto simp: keeps_def on_site_def)

lemma keeps_via: "keeps P m \<Longrightarrow> keeps (on_site P) (via m)"
  by (auto simp: keeps_def on_site_def via_def split: prod.splits)

lemma keeps_protected: "keeps (on_site P) (protected env q token)"
  by (rule keepsI) (metis on_site_def protected_state(1) prod.collapse)

lemma keeps_require_thread: "keeps (on_site P) (require_thread thread_id user_id)"
  by (rule keepsI) (simp add: require_thread_def seq_def read_db_def ret_def throw_def on_site_def split: option.split)

lemma keeps_delete: "keeps (nothing_lost host) (try_threads (delete_thread thread_id user_id now))"
  by (rule keepsI) (rule delete_keeps)

lemma keeps_update: "keeps (nothing_lost host) (on_threads (update_thread thread_id user_id title config now))"
  by (rule keepsI) (rule update_keeps)

lemmas site_intros = keeps_seq keeps_protected keeps_require_thread keeps_via keeps_ret keeps_throw keeps_case_option

lemma serve_thread_keeps:
  assumes pf: "nothing_lost host (s_db w)" and assign: "h_assign host = (\<lambda>_ _. None)" and t: "tame c w"
  shows "nothing_lost host (s_db (serve_thread host env blank c w))"
proof -
  obtain q k where c: "c = (q, k)" by fastforce
  note p = protected_then_db [where P = "nothing_lost host", OF pf]
  have fileop: "nothing_lost host (s_db (snd (seq (protected env q token) (\<lambda>current. seq (require_thread thread_id (se_user_id current))
      (\<lambda>_. if b then throw e else catching f (via (http g (on_fs (user_step (h_root host) thread_id op)))))) w)))"
    if "\<And>f b d. op = Save f b d \<Longrightarrow> \<forall>x. no_links_below x (p_fs (s_db w))" for token thread_id b e f g op
  proof (rule p, rule require_then_db)
    fix s :: Session and w' :: "('a, 'b) Platform Site" and x
    assume w': "s_db w' = s_db w"
    then show "nothing_lost host (s_db w')" using pf by simp
    have "nothing_lost host (snd (http g (on_fs (user_step (h_root host) thread_id op)) (s_db w')))"
      unfolding w' by (rule file_step_keeps [OF pf that])
    then show "nothing_lost host (s_db (snd ((if b then throw e
        else catching f (via (http g (on_fs (user_step (h_root host) thread_id op))))) w')))"
      using pf w' by (cases b) (simp_all add: throw_def catching_state via_db)
  qed
  have fileops: "nothing_lost host (s_db (snd (seq (protected env q token) (\<lambda>current. seq (require_thread thread_id (se_user_id current))
      (\<lambda>_. catching f (via (http g (on_fs (user_step (h_root host) thread_id op)))))) w)))"
    if "\<And>f b d. op \<noteq> Save f b d" for token thread_id f g op
    using fileop [where b = False and op = op] that by (simp del: user_step.simps)
  show ?thesis
  proof (cases k)
    case (CreateThread token)
    have "nothing_lost host (s_db (snd (api_create_thread host env q blank token w)))"
      unfolding api_create_thread_def
    proof (rule p, rule via_then_db [where P = "nothing_lost host"])
      fix s :: Session and w' :: "('a, 'b) Platform Site" assume w': "s_db w' = s_db w"
      show "nothing_lost host (snd (open_thread host (q_id q) blank (se_user_id s) (q_now q) (s_db w')))"
        unfolding w' by (rule open_thread_keeps [OF pf _ assign]) (use t c CreateThread in simp_all)
    qed (simp add: ret_def)
    with c CreateThread show ?thesis by simp
  next
    case (UpdateThread token i title config)
    have "keeps (on_site (nothing_lost host)) (api_update_thread env q token i title config)"
      unfolding api_update_thread_def by (intro site_intros keeps_update)
    from keeps_on_site [OF this pf] c UpdateThread show ?thesis by simp
  next
    case (DeleteThread token i)
    with t c obtain u where u: "u < 2 ^ 128" "i = uuid_hex u" by auto
    have "keeps (on_site (nothing_lost host)) (api_delete_thread host env q token i)"
      unfolding api_delete_thread_def u(2) by (intro site_intros keeps_delete settle_keeps [OF u(1)])
    from keeps_on_site [OF this pf] c DeleteThread show ?thesis by simp
  next
    case (UploadFile token i f n b d)
    with c t show ?thesis by (simp add: api_upload_file_def fileop del: user_step.simps)
  next
    case (WriteFile token i s b)
    with c show ?thesis by (simp add: api_write_file_def fileops del: user_step.simps)
  next
    case (CreateDirectory token i s)
    with c show ?thesis by (simp add: api_create_directory_def fileops del: user_step.simps)
  next
    case (DeleteFile token i s)
    with c show ?thesis by (simp add: api_delete_file_def fileops del: user_step.simps)
  next
    case (ComposeTitle i u answer)
    have "nothing_lost host (snd (on_threads (\<lambda>d. ((), compose_write i u answer (q_now q) d)) (s_db w)))"
    proof -
      have "nothing_lost host ((s_db w)\<lparr>p_db := snd (update_thread i u title None (q_now q) (p_db (s_db w)))\<rparr>)" for title
        using update_keeps [OF pf, of i u title None "q_now q"] by (simp add: on_threads_def case_prod_beta)
      then show ?thesis using pf by (simp add: on_threads_def compose_write_def Let_def)
    qed
    with c ComposeTitle show ?thesis by (simp add: via_db)
  next
    case (PurgeSweep limit)
    with c show ?thesis using purge_sweep_keeps [THEN keepsD, OF pf] by (simp add: via_db)
  qed
qed

lemma serve_threads_keeps:
  "nothing_lost host (s_db w) \<Longrightarrow> h_assign host = (\<lambda>_ _. None) \<Longrightarrow> tame_run host env blank cs w \<Longrightarrow>
   nothing_lost host (s_db (serve_threads host env blank cs w))"
  by (induction cs arbitrary: w) (simp_all add: serve_threads_def serve_thread_keeps)

text \<open>A sweep that reports no failure and had room for every pending entry.\<close>

lemma settle_result:
  assumes pf: "nothing_lost host pf" and u: "u < 2 ^ 128" and run: "settle host now (uuid_hex u) pf = (r, pf')"
  shows "threads (p_db pf') = threads (p_db pf) \<and> directories (h_root host) (p_fs pf') \<subseteq> directories (h_root host) (p_fs pf) \<and>
    (\<exists>b. r = Inr b \<and> (b \<longrightarrow> uuid_hex u \<notin> directories (h_root host) (p_fs pf')))"
proof -
  obtain x q where x: "remote_destroy host (uuid_hex u) pf = (x, q)" by fastforce
  from pf have "tree_ok (h_root host) (p_fs pf)" by (simp add: nothing_lost_def)
  note c = remote_destroy_cases [OF this x]
  have t: "threads (fail_purge i e d) = threads d" "threads (complete_purge i now d) = threads d" for i e d
    by (simp_all add: fail_purge_def complete_purge_def purges_ok_change)
  show ?thesis
  proof (cases x)
    case (Inl e)
    with run x have "r = Inr False" "pf' = q\<lparr>p_db := fail_purge (uuid_hex u) (take 2000 (h_text host e)) (p_db q)\<rparr>"
      by (simp_all add: settle_def)
    with c t show ?thesis by auto
  next
    case (Inr y)
    with run x have "r = Inr True" "pf' = q\<lparr>p_db := complete_purge (uuid_hex u) now (p_db q)\<rparr>"
      by (simp_all add: settle_def)
    with c t Inr show ?thesis by auto
  qed
qed

lemma sweep_jobs_result:
  "nothing_lost host pf \<Longrightarrow> \<forall>j\<in>set jobs. \<exists>u<2 ^ 128. pj_thread_id j = uuid_hex u \<Longrightarrow>
   sweep_jobs host now jobs n failed pf = (r, pf') \<Longrightarrow>
   threads (p_db pf') = threads (p_db pf) \<and> directories (h_root host) (p_fs pf') \<subseteq> directories (h_root host) (p_fs pf) \<and>
   (\<exists>c f. r = Inr (c, f) \<and> failed \<le> f \<and> (f = failed \<longrightarrow> pj_thread_id ` set jobs \<inter> directories (h_root host) (p_fs pf') = {}))"
proof (induction jobs arbitrary: n failed pf)
  case Nil
  then show ?case by (auto simp: ret_def)
next
  case (Cons j jobs)
  from Cons.prems(2) obtain u where u: "u < 2 ^ 128" "pj_thread_id j = uuid_hex u" by auto
  obtain x q where x: "settle host now (uuid_hex u) pf = (x, q)" by fastforce
  note s = settle_result [OF Cons.prems(1) u(1) x]
  then obtain b where b: "x = Inr b" "b \<longrightarrow> uuid_hex u \<notin> directories (h_root host) (p_fs q)" by blast
  have q: "nothing_lost host q" using keepsD [OF settle_keeps [OF u(1)] Cons.prems(1), of now] x by simp
  have rest: "sweep_jobs host now jobs (if b then n + 1 else n) (if b then failed else failed + 1) q = (r, pf')"
    using Cons.prems(3) x u b by (cases b) (simp_all add: seq_def)
  from Cons.IH [OF q _ rest] Cons.prems(2) obtain c f where
    t: "threads (p_db pf') = threads (p_db q)" and d: "directories (h_root host) (p_fs pf') \<subseteq> directories (h_root host) (p_fs q)"
    and f: "r = Inr (c, f)" "(if b then failed else failed + 1) \<le> f"
      "f = (if b then failed else failed + 1) \<longrightarrow> pj_thread_id ` set jobs \<inter> directories (h_root host) (p_fs pf') = {}"
    by auto
  have "failed \<le> f" "f = failed \<Longrightarrow> b" using f(2) by (auto split: if_splits)
  moreover have "uuid_hex u \<notin> directories (h_root host) (p_fs pf')" if b using that b(2) d by blast
  ultimately show ?case using t d s f u by auto
qed

text \<open>C9. No directory is forgotten. From a state in which none is, over any sequence of requests and sweeps, with calls to the
  broker failing before they arrive or
  after they took effect, every directory under the workspace root belongs to a thread that is not deleted or to one whose removal is
  still recorded as to be done; and a sweep that has room for all recorded removals and reports no failure leaves only the directories
  of threads that are not deleted. Four things are excluded. In three the code does leave directories behind: a create request whose
  answer is cut off after the directory was made, one for whose new directory the disk quota cannot be set (the directory stays
  and the row is taken back), and a delete request that spells the identifier differently. The fourth is an upload
  while the workspaces hold symbolic links, which can write outside of the directory it names.\<close>

theorem workspace_reclaimed:
  assumes "nothing_lost host (s_db w)" "h_assign host = (\<lambda>_ _. None)" "tame_run host env blank cs w"
  shows "nothing_lost host (s_db (serve_threads host env blank cs w)) \<and>
    (\<forall>limit now c pf. purge_sweep host now limit (s_db (serve_threads host env blank cs w)) = (Inr (c, 0), pf) \<and>
       length (filter (\<lambda>p. pu_completed p = None) (purges (p_db (s_db (serve_threads host env blank cs w))))) \<le> limit \<longrightarrow>
       (\<forall>n\<in>directories (h_root host) (p_fs pf). is_live (p_db pf) n))"
proof (intro conjI allI impI ballI)
  let ?pf = "s_db (serve_threads host env blank cs w)"
  show ok: "nothing_lost host ?pf" by (rule serve_threads_keeps [OF assms])
  fix limit now c pf n
  assume a: "purge_sweep host now limit ?pf = (Inr (c, 0), pf) \<and>
      length (filter (\<lambda>p. pu_completed p = None) (purges (p_db ?pf))) \<le> limit"
    and n: "n \<in> directories (h_root host) (p_fs pf)"
  let ?jobs = "pending_purge limit (p_db ?pf)"
  have ids: "\<forall>j\<in>set ?jobs. \<exists>u<2 ^ 128. pj_thread_id j = uuid_hex u"
    using pending_ids ok by (fastforce simp: nothing_lost_def)
  from a have "sweep_jobs host now ?jobs 0 0 ?pf = (Inr (c, 0), pf)" by (simp add: purge_sweep_def)
  from sweep_jobs_result [OF ok ids this] have t: "threads (p_db pf) = threads (p_db ?pf)"
    and d: "directories (h_root host) (p_fs pf) \<subseteq> directories (h_root host) (p_fs ?pf)"
    and gone: "pj_thread_id ` set ?jobs \<inter> directories (h_root host) (p_fs pf) = {}" by auto
  have "set ?jobs = (\<lambda>p. \<lparr>pj_thread_id = uuid_hex (pu_thread p), pj_requested_at = pu_requested p, pj_attempts = pu_attempts p,
      pj_last_error = pu_error p\<rparr>) ` {p \<in> set (purges (p_db ?pf)). pu_completed p = None}"
    using a by (simp add: pending_purge_def)
  then have "pj_thread_id ` set ?jobs = {n. is_due (p_db ?pf) n}" by (force simp: is_due_def)
  with gone n have "\<not> is_due (p_db ?pf) n" by auto
  moreover have "is_live (p_db ?pf) n \<or> is_due (p_db ?pf) n" using ok d n by (auto simp: nothing_lost_def)
  ultimately show "is_live (p_db pf) n" using t by (simp add: is_live_def)
qed

definition example_host :: Host where
  "example_host = \<lparr>h_root = [''ws''], h_assign = (\<lambda>_ _. None), h_awaits = [], h_text = (\<lambda>_. []), h_says_400 = (\<lambda>_. False),
     h_upload_max = 1000\<rparr>"

definition example_settings :: Env where
  "example_settings = \<lparr>e_hash = (\<lambda>p. p), e_verify = (\<lambda>h p. Inr (h = p)), e_ttl = 100, e_limit = 10, e_window = 60, e_coll = length\<rparr>"

definition example_platform :: "(string, string) Platform" where
  "example_platform = \<lparr>p_db = \<lparr>threads = [], purges = []\<rparr>, p_runs = \<lparr>runs = [], memory_jobs = []\<rparr>,
     p_fs = [([], Directory), ([''ws''], Directory)],
     p_pool = \<lparr>max_container = 2, idle_timeout = 1, lease_timeout = 1, slot = [], queue = [], granted = [], cancelled = [], reserved = 0,
       running = [], notices = []\<rparr>, p_faults = [Reached, Lost]\<rparr>"

definition example_thread_site :: "(string, string) Platform Site" where
  "example_thread_site = \<lparr>s_db = example_platform,
     s_sessions = [''zuel:session:t1'' \<mapsto> (\<lparr>se_user_id = uuid_hex 7, se_name = ''ann'', se_role = STUDENT, se_email = ''ann''\<rparr>, 1000)],
     s_rate = (\<lambda>_. None)\<rparr>"

definition example_thread_calls :: "(Req \<times> (string, string) thread_call) list" where
  "example_thread_calls =
     [(\<lparr>q_now = 1, q_id = 9, q_token = [], q_code = [], q_hit = 1\<rparr>, CreateThread (Some ''t1'')),
      (\<lparr>q_now = 2, q_id = 10, q_token = [], q_code = [], q_hit = 2\<rparr>, DeleteThread (Some ''t1'') (uuid_hex 9)),
      (\<lparr>q_now = 3, q_id = 11, q_token = [], q_code = [], q_hit = 3\<rparr>, PurgeSweep 10)]"

lemma example_nothing_lost: "nothing_lost example_host (s_db example_thread_site)"
proof -
  let ?fs = "[([], Directory), ([''ws''], Directory)] :: string fs"
  have m: "map_of ?fs (p @ [c]) = (if p = [] \<and> c = ''ws'' then Some Directory else None)" for p :: path and c
    by (auto simp: append_eq_Cons_conv)
  have d: "directories [''ws''] ?fs = {}"
    using m [of "[''ws'']"] by (auto simp: directories_def)
  have t: "tree_ok [''ws''] ?fs"
    using m [of "[''ws'']"] by (auto simp: tree_ok_def fs_ok_def proper_def m simp del: map_of.simps split: if_splits)
  show ?thesis using d t by (simp add: nothing_lost_def example_host_def example_thread_site_def example_platform_def purges_ok_def threads_ok_def)
qed

theorem workspace_reclaimed_witness:
  "nothing_lost example_host (s_db (serve_threads example_host example_settings [] example_thread_calls example_thread_site))"
proof -
  have "tame_run example_host example_settings [] example_thread_calls example_thread_site"
    unfolding example_thread_calls_def tame_run.simps tame.simps
    by (intro conjI exI [of _ 9]) (simp_all add: example_thread_site_def example_platform_def)
  from workspace_reclaimed [OF example_nothing_lost _ this] show ?thesis by (simp add: example_host_def)
qed

section \<open>Where a directory is left behind\<close>

text \<open>The disk quota of a new directory cannot be set: the row is taken back, the directory stays, and nothing records it.\<close>

lemma quota_failure_leaves_directory:
  assumes pf: "nothing_lost host pf" and assign: "h_assign host = (\<lambda>_ _. Some e)" and i: "i < 2 ^ 128"
    and calm: "p_faults pf = []" and new: "create_thread i blank user_id [] now (p_db pf) = Inr (t, d)"
    and fresh: "uuid_hex i \<notin> directories (h_root host) (p_fs pf)"
  obtains pf' where "open_thread host i blank user_id now pf = (Inl BrokerError, pf')" "p_db pf' = p_db pf"
    "uuid_hex i \<in> directories (h_root host) (p_fs pf')"
proof -
  have ok: "purges_ok (p_db pf)" "tree_ok (h_root host) (p_fs pf)" using pf by (simp_all add: nothing_lost_def)
  note c = create_then_purge [OF ok(1) new i]
  obtain fs' where fs': "ws_create (h_assign host) (h_root host) (uuid_hex i) (p_fs pf) = (Inl e, fs')"
    "directories (h_root host) fs' = insert (uuid_hex i) (directories (h_root host) (p_fs pf))"
    using create_unlimited_directory [OF ok(2) assign fresh] by blast
  have "open_thread host i blank user_id now pf = (Inl BrokerError, pf\<lparr>p_db := p_db pf, p_faults := [], p_fs := fs'\<rparr>)"
    using new c(1,6) fs'(1) calm
    by (simp add: open_thread_def seq_def try_threads_def try_except_def remote_create_def http_def next_call_def any_failure_def
        on_fs_def on_threads_def throw_def Let_def)
  then show ?thesis by (rule that) (simp_all add: fs'(2))
qed

text \<open>The broker makes the directory and the answer is cut off: the row is taken back, the directory stays, and nothing records it.\<close>

lemma create_cut_off_leaves_directory:
  assumes pf: "nothing_lost host pf" and assign: "h_assign host = (\<lambda>_ _. None)" and i: "i < 2 ^ 128"
    and fault: "p_faults pf = Cut # rest" and new: "create_thread i blank user_id [] now (p_db pf) = Inr (t, d)"
  obtains pf' where "open_thread host i blank user_id now pf = (Inl BrokerError, pf')" "p_db pf' = p_db pf"
    "uuid_hex i \<in> directories (h_root host) (p_fs pf')"
proof -
  have ok: "purges_ok (p_db pf)" "tree_ok (h_root host) (p_fs pf)" using pf by (simp_all add: nothing_lost_def)
  note c = create_then_purge [OF ok(1) new i]
  obtain fs' where fs': "ws_create (h_assign host) (h_root host) (uuid_hex i) (p_fs pf) = (Inr (uuid_hex i), fs')"
    "directories (h_root host) fs' = insert (uuid_hex i) (directories (h_root host) (p_fs pf))"
    using create_directory [OF ok(2) assign] by blast
  have "open_thread host i blank user_id now pf = (Inl BrokerError, pf\<lparr>p_db := p_db pf, p_faults := rest, p_fs := fs'\<rparr>)"
    using new c(1,6) fs'(1) fault
    by (simp add: open_thread_def seq_def try_threads_def try_except_def remote_create_def http_def next_call_def any_failure_def
        on_fs_def on_threads_def throw_def Let_def)
  then show ?thesis by (rule that) (simp_all add: fs'(2))
qed

text \<open>The table accepts every spelling of an identifier, the directory has one: deleting a thread by the hyphenated spelling marks the
  removal as done while the directory stays.\<close>

lemma other_spelling_leaves_directory:
  assumes pf: "nothing_lost host pf" and u: "u < 2 ^ 128" and there: "uuid_hex u \<in> directories (h_root host) (p_fs pf)"
    and calm: "p_faults pf = []" "\<And>t. fst (discard (h_awaits host) t (p_pool pf)) = None"
  obtains pf' where "settle host now (uuid_str u) pf = (Inr True, pf')" "uuid_hex u \<in> directories (h_root host) (p_fs pf')"
    "\<not> is_due (p_db pf') (uuid_hex u)"
proof -
  have ok: "tree_ok (h_root host) (p_fs pf)" using pf by (simp add: nothing_lost_def)
  have n: "proper (uuid_str u)" "CHR ''/'' \<notin> set (uuid_str u)" "CHR 0x00 \<notin> set (uuid_str u)"
    using set_uuid_str [of u] proper_uuid_hex [of u] length_uuid_str [of u] by (auto simp: proper_def)
  have "uuid_str u \<notin> directories (h_root host) (p_fs pf)"
    using pf uuid_str_neq_hex [of u] by (auto simp: nothing_lost_def is_live_def is_due_def)
  with is_dir_child [OF ok n(1)] thread_workspace_name [OF ok n]
  have d: "ws_destroy (h_root host) (uuid_str u) (p_fs pf) = (Inr (), p_fs pf)" by (simp add: ws_destroy_def ws_simps)
  obtain p where p: "discard (h_awaits host) (uuid_str u) (p_pool pf) = (None, p)" using calm(2) by (metis prod.collapse)
  let ?q = "pf\<lparr>p_faults := [], p_pool := p, p_fs := p_fs pf\<rparr>"
  have s: "settle host now (uuid_str u) pf = (Inr True, ?q\<lparr>p_db := complete_purge (uuid_str u) now (p_db pf)\<rparr>)"
    using calm(1) p d by (simp add: settle_def remote_destroy_def http_def next_call_def broker_destroy_def pool_discard_def on_fs_def
        seq_def Let_def)
  have key: "pu_thread x = u" if "x \<in> set (purges (p_db pf))" "uuid_hex (pu_thread x) = uuid_hex u" for x
  proof -
    from that(1) pf have "pu_thread x < 2 ^ 128" by (force simp: nothing_lost_def purges_ok_def threads_ok_def)
    with that(2) u show ?thesis by (simp add: uuid_hex_inj)
  qed
  let ?f = "\<lambda>p. if pu_thread p = u \<and> pu_completed p = None then p\<lparr>pu_completed := Some now, pu_error := None\<rparr> else p"
  have ps: "purges (complete_purge (uuid_str u) now (p_db pf)) = map ?f (purges (p_db pf))"
    using u by (simp add: complete_purge_def change_purge_def)
  have "\<not> (uuid_hex (pu_thread (?f x)) = uuid_hex u \<and> pu_completed (?f x) = None)" if "x \<in> set (purges (p_db pf))" for x
    using key [OF that] by (cases "pu_thread x = u \<and> pu_completed x = None") auto
  then have "\<not> is_due (complete_purge (uuid_str u) now (p_db pf)) (uuid_hex u)"
    unfolding is_due_def ps by (metis (no_types, lifting) imageE set_map)
  then show ?thesis by (intro that [OF s]) (simp_all add: there)
qed

text \<open>A title is looked at before the model is asked and written after it answered: a name the user gave meanwhile is overwritten.\<close>

lemma find_updated:
  assumes "find_thread i u db = Some r"
  shows "get_thread i u (snd (update_thread i u title config now db)) = Some (to_thread (updated_row title config now r))"
proof -
  obtain pk owner where ids: "UUID i = Some pk" "UUID u = Some owner" "find (\<lambda>r. th_pk r = pk \<and> visible owner r) (threads db) = Some r"
    using assms by (auto simp: find_thread_def split: option.splits)
  have up: "th_pk (updated_row title config now x) = th_pk x" "visible owner (updated_row title config now x) = visible owner x" for x
    by (simp_all add: updated_row_def visible_def Let_def split: option.split)
  have "find (\<lambda>r. th_pk r = pk \<and> visible owner r) (map (\<lambda>x. if th_pk x = pk then updated_row title config now x else x) rs) =
      map_option (updated_row title config now) (find (\<lambda>r. th_pk r = pk \<and> visible owner r) rs)" for rs
    by (induction rs) (auto simp: up)
  with ids assms find_thread_row [OF assms] show ?thesis
    by (simp add: get_thread_def update_thread_def find_thread_def set_row_def)
qed

lemma title_overwrites_rename:
  assumes "compose_wanted i u db" "tidy raw MAX_TITLE_LENGTH \<noteq> []" "renamed = snd (update_thread i u (Some mine) None t1 db)"
  shows "map_option t_title (get_thread i u renamed) = Some mine \<and>
    map_option t_title (get_thread i u (compose_write i u (Some raw) t2 renamed)) = Some (tidy raw MAX_TITLE_LENGTH)"
proof -
  from assms(1) obtain r where r: "find_thread i u db = Some r" by (auto simp: compose_wanted_def get_thread_def split: option.splits)
  from find_updated [OF r, of "Some mine" None t1] obtain r' where r': "find_thread i u renamed = Some r'" "to_thread r' = to_thread (updated_row (Some mine) None t1 r)"
    by (auto simp: assms(3) get_thread_def)
  with find_updated [OF r, of "Some mine" None t1] find_updated [OF r'(1), of "Some (tidy raw MAX_TITLE_LENGTH)" None t2] assms(2) show ?thesis
    by (simp add: assms(3) compose_write_def to_thread_def updated_row_def Let_def)
qed

end
