(* ===== verification/Quota.thy ===== *)
theory Quota
  imports Sessions Run_Control Memory_Job
begin

text \<open>
  What a user may still start: the allowance of a role and its overrides (\<open>app/quota/policy.py\<close>), the usage that counts against
  it (\<open>app/quota/usage.py\<close>) and the gate in front of a submission (\<open>_require_quota\<close> in \<open>app/api/route/thread.py\<close>), which freezes
  what it saw into the context of the run (\<open>app/agent/user_context.py\<close>). Times are milliseconds since the epoch; a time zone is
  the pair of its conversions to and from the clock on the wall.
\<close>

section \<open>The allowance of a user\<close>

record Allowance =
  al_tokens :: "int option"
  al_runs :: int

record QuotaPolicy =
  qp_tokens :: "UserRole \<rightharpoonup> int option"
  qp_runs :: "UserRole \<rightharpoonup> int"
  qp_weight :: int

definition DEFAULT_TOKEN_DAILY :: "UserRole \<rightharpoonup> int option" where
  "DEFAULT_TOKEN_DAILY = [ADMIN \<mapsto> None, REVIEWER \<mapsto> Some 1000000, TEACHER \<mapsto> Some 1000000, STUDENT \<mapsto> Some 400000]"

definition DEFAULT_CONCURRENT_RUN :: "UserRole \<rightharpoonup> int" where
  "DEFAULT_CONCURRENT_RUN = [ADMIN \<mapsto> 3, REVIEWER \<mapsto> 3, TEACHER \<mapsto> 3, STUDENT \<mapsto> 2]"

definition DEFAULT_OUTPUT_WEIGHT :: int where "DEFAULT_OUTPUT_WEIGHT = 1"

definition default_policy :: QuotaPolicy where
  "default_policy = \<lparr>qp_tokens = DEFAULT_TOKEN_DAILY, qp_runs = DEFAULT_CONCURRENT_RUN, qp_weight = DEFAULT_OUTPUT_WEIGHT\<rparr>"

text \<open>An override wins; without one the table of the role is asked, and a role that is not in it raises.\<close>

definition allow :: "QuotaPolicy \<Rightarrow> UserRole \<Rightarrow> int option \<Rightarrow> int option \<Rightarrow> Allowance result" where
  "allow pol role token_daily concurrent_run =
     result_bind (case token_daily of Some t \<Rightarrow> Inr (Some t) | None \<Rightarrow>
         (case qp_tokens pol role of None \<Rightarrow> Inl KeyError | Some t \<Rightarrow> Inr t)) (\<lambda>tokens.
     result_bind (case concurrent_run of Some c \<Rightarrow> Inr c | None \<Rightarrow>
         (case qp_runs pol role of None \<Rightarrow> Inl KeyError | Some c \<Rightarrow> Inr c)) (\<lambda>r.
       Inr \<lparr>al_tokens = tokens, al_runs = r\<rparr>))"

section \<open>What counts\<close>

type_synonym zone = "(int \<Rightarrow> int) \<times> (int \<Rightarrow> int)"

definition DAY :: int where "DAY = 24 * 60 * 60 * 1000"

definition day_start :: "zone \<Rightarrow> datetime \<Rightarrow> datetime" where
  "day_start zone now = snd zone (fst zone now div DAY * DAY)"

definition next_reset :: "zone \<Rightarrow> datetime \<Rightarrow> datetime" where
  "next_reset zone now = snd zone ((fst zone now div DAY + 1) * DAY)"

text \<open>A zone without a change of its clocks, such as \<open>Asia/Shanghai\<close>, the default.\<close>

definition fixed_zone :: "int \<Rightarrow> zone" where
  "fixed_zone offset = ((\<lambda>t. t + offset), (\<lambda>w. w - offset))"

definition ACTIVE_STATUS :: "RunStatus list" where "ACTIVE_STATUS = [QUEUED, RUNNING]"

record 'y QuotaDb = UserDb +
  run_db :: Db
  mem_db :: "'y MemDb"

text \<open>\<open>token_today\<close>: the runs of the user since the start of the day, and the memory calls since then that no run includes,
  joined to the runs they belong to. The equivalent of a row is its uncached input and its weighted output.\<close>

definition run_equivalent :: "int \<Rightarrow> RunRecord \<Rightarrow> int" where
  "run_equivalent weight r = tokens_uncached r + tokens_output r * weight"

definition memory_equivalent :: "int \<Rightarrow> 'y MemoryUsageRecord \<Rightarrow> int" where
  "memory_equivalent weight u = ur_tokens_uncached u + ur_tokens_output u * weight"

definition runs_since :: "uuid \<Rightarrow> datetime \<Rightarrow> Db \<Rightarrow> RunRecord list" where
  "runs_since owner since d = filter (\<lambda>r. user_fk r = Some owner \<and> since \<le> started_at r) (runs d)"

definition memory_since :: "uuid \<Rightarrow> datetime \<Rightarrow> Db \<Rightarrow> 'y MemDb \<Rightarrow> 'y MemoryUsageRecord list" where
  "memory_since owner since d m =
     [u. u \<leftarrow> usages m, r \<leftarrow> runs d, run_pk r = ur_run u \<and> user_fk r = Some owner \<and> since \<le> ur_created_at u \<and> \<not> ur_included u]"

definition token_today :: "int \<Rightarrow> zone \<Rightarrow> string \<Rightarrow> datetime \<Rightarrow> ('y, 'z) QuotaDb_scheme \<Rightarrow> int" where
  "token_today weight zone user_id now d =
     (case UUID user_id of
        None \<Rightarrow> 0
      | Some owner \<Rightarrow>
          sum_list (map (run_equivalent weight) (runs_since owner (day_start zone now) (run_db d))) +
          sum_list (map (memory_equivalent weight) (memory_since owner (day_start zone now) (run_db d) (mem_db d))))"

definition active_run :: "string \<Rightarrow> ('y, 'z) QuotaDb_scheme \<Rightarrow> nat" where
  "active_run user_id d =
     (case UUID user_id of
        None \<Rightarrow> 0
      | Some owner \<Rightarrow> length (filter (\<lambda>r. user_fk r = Some owner \<and> status r \<in> set ACTIVE_STATUS) (runs (run_db d))))"

section \<open>The gate\<close>

text \<open>The constraints of \<open>UserContext\<close>.\<close>

definition validate_context :: "UserContext \<Rightarrow> UserContext result" where
  "validate_context c =
     (if uc_name c = [] \<or> token_used_today c < 0 \<or> (case token_limit_daily c of None \<Rightarrow> False | Some l \<Rightarrow> l < 0) \<or>
         active_runs c < 0 \<or> concurrent_run_limit c < 1
      then Inl ValidationError else Inr c)"

text \<open>The four things \<open>_require_quota\<close> reads, each in a transaction of its own, and what it decides on each.\<close>

definition check_user :: "QuotaPolicy \<Rightarrow> string \<Rightarrow> ('y, 'z) QuotaDb_scheme \<Rightarrow> (User \<times> Allowance) result" where
  "check_user pol user_id d =
     (case get_user user_id d of
        None \<Rightarrow> Inl unauthenticated
      | Some user \<Rightarrow>
          result_bind (allow pol (us_role user) (us_quota_tokens user) (us_quota_runs user)) (\<lambda>al. Inr (user, al)))"

definition check_tokens ::
    "QuotaPolicy \<Rightarrow> zone \<Rightarrow> string \<Rightarrow> Allowance \<Rightarrow> datetime \<Rightarrow> ('y, 'z) QuotaDb_scheme \<Rightarrow> int result" where
  "check_tokens pol zone user_id al now d =
     (let used = token_today (qp_weight pol) zone user_id now d in
      if (case al_tokens al of None \<Rightarrow> False | Some l \<Rightarrow> l \<le> used) then Inl quota_exceeded else Inr used)"

definition check_active :: "string \<Rightarrow> Allowance \<Rightarrow> ('y, 'z) QuotaDb_scheme \<Rightarrow> nat result" where
  "check_active user_id al d =
     (let active = active_run user_id d in if al_runs al \<le> int active then Inl concurrency_limit else Inr active)"

definition check_pending :: "string \<Rightarrow> ('y, 'z) QuotaDb_scheme \<Rightarrow> unit result" where
  "check_pending user_id d =
     (if DEFAULT_PENDING_LIMIT \<le> approval_pending_count user_id (run_db d) then Inl concurrency_limit else Inr ())"

definition frozen_context :: "User \<Rightarrow> Allowance \<Rightarrow> int \<Rightarrow> nat \<Rightarrow> UserContext result" where
  "frozen_context user al used active =
     validate_context
       \<lparr>uc_name = us_name user, uc_role = us_role user, uc_dept = us_dept user, token_used_today = used,
        token_limit_daily = al_tokens al, active_runs = int active, concurrent_run_limit = al_runs al\<rparr>"

text \<open>The gate as it runs when nothing happens between its reads.\<close>

definition require_quota :: "QuotaPolicy \<Rightarrow> zone \<Rightarrow> string \<Rightarrow> datetime \<Rightarrow> ('y, 'z) QuotaDb_scheme \<Rightarrow> UserContext result" where
  "require_quota pol zone user_id now d =
     result_bind (check_user pol user_id d) (\<lambda>(user, al).
     result_bind (check_tokens pol zone user_id al now d) (\<lambda>used.
     result_bind (check_active user_id al d) (\<lambda>active.
     result_bind (check_pending user_id d) (\<lambda>_. frozen_context user al used active))))"

section \<open>Submissions in progress\<close>

text \<open>How far a submission has come through the gate. After it, other awaits follow (the references are resolved and their calls
  counted) before the row of the run is inserted.\<close>

datatype gate_state =
    Known User Allowance
  | Paying User Allowance int
  | Placed User Allowance int nat
  | Admitted UserContext

fun gate_step ::
    "QuotaPolicy \<Rightarrow> zone \<Rightarrow> string \<Rightarrow> datetime \<Rightarrow> ('y, 'z) QuotaDb_scheme \<Rightarrow> gate_state \<Rightarrow> gate_state result" where
  "gate_step pol zone user_id now d (Known user al) =
     result_bind (check_tokens pol zone user_id al now d) (\<lambda>used. Inr (Paying user al used))"
| "gate_step pol zone user_id now d (Paying user al used) =
     result_bind (check_active user_id al d) (\<lambda>active. Inr (Placed user al used active))"
| "gate_step pol zone user_id now d (Placed user al used active) =
     result_bind (check_pending user_id d) (\<lambda>_.
     result_bind (frozen_context user al used active) (\<lambda>uc. Inr (Admitted uc)))"
| "gate_step pol zone user_id now d (Admitted uc) = Inr (Admitted uc)"

record 'y QuotaSite =
  q_db :: "'y QuotaDb"
  submissions :: "(string \<times> gate_state) list"

text \<open>Steps: a submission begins by reading its user; one submission makes its next read, and ends when that refuses it; one that
  has been admitted inserts its row (the identifier of the run is fresh); one ends for another reason; a process that
  executes, approves or cancels runs makes a call of the repository.\<close>

datatype quota_op =
    Ask string
  | Read nat datetime
  | Insert nat string string "string option" "AgentConfig option" datetime
  | Drop nat
  | OnRun repo_op

definition remove_at :: "nat \<Rightarrow> 'a list \<Rightarrow> 'a list" where
  "remove_at j xs = take j xs @ drop (Suc j) xs"

definition insert_run ::
    "nat \<Rightarrow> string \<Rightarrow> string \<Rightarrow> string option \<Rightarrow> AgentConfig option \<Rightarrow> datetime \<Rightarrow> 'y QuotaSite \<Rightarrow> 'y QuotaSite" where
  "insert_run j run_id thread_id c cfg now w =
     (case submissions w ! j of
        (user_id, Admitted uc) \<Rightarrow>
          (let w' = w\<lparr>submissions := remove_at j (submissions w)\<rparr> in
           case create run_id thread_id user_id c cfg (Some uc) now (run_db (q_db w)) of
             Inl _ \<Rightarrow> w'
           | Inr rd \<Rightarrow> w'\<lparr>q_db := (q_db w)\<lparr>run_db := rd\<rparr>\<rparr>)
      | _ \<Rightarrow> w)"

fun quota_step :: "QuotaPolicy \<Rightarrow> zone \<Rightarrow> quota_op \<Rightarrow> 'y QuotaSite \<Rightarrow> 'y QuotaSite" where
  "quota_step pol zone (Ask user_id) w =
     (case check_user pol user_id (q_db w) of
        Inl _ \<Rightarrow> w
      | Inr (user, al) \<Rightarrow> w\<lparr>submissions := submissions w @ [(user_id, Known user al)]\<rparr>)"
| "quota_step pol zone (Read j now) w =
     (if j < length (submissions w) then
        case submissions w ! j of (user_id, g) \<Rightarrow>
          (case gate_step pol zone user_id now (q_db w) g of
             Inl _ \<Rightarrow> w\<lparr>submissions := remove_at j (submissions w)\<rparr>
           | Inr g' \<Rightarrow> w\<lparr>submissions := (submissions w)[j := (user_id, g')]\<rparr>)
      else w)"
| "quota_step pol zone (Insert j run_id thread_id c cfg now) w =
     (if j < length (submissions w) then insert_run j run_id thread_id c cfg now w else w)"
| "quota_step pol zone (Drop j) w = w\<lparr>submissions := remove_at j (submissions w)\<rparr>"
| "quota_step pol zone (OnRun x) w = w\<lparr>q_db := (q_db w)\<lparr>run_db := snd (repo_step x (run_db (q_db w)))\<rparr>\<rparr>"

definition quota_run :: "QuotaPolicy \<Rightarrow> zone \<Rightarrow> quota_op list \<Rightarrow> 'y QuotaSite \<Rightarrow> 'y QuotaSite" where
  "quota_run pol zone xs w = fold (quota_step pol zone) xs w"

lemma gate_alone:
  "result_bind (check_user pol user_id d) (\<lambda>(user, al).
   result_bind (gate_step pol zone user_id now d (Known user al)) (\<lambda>g.
   result_bind (gate_step pol zone user_id now d g) (gate_step pol zone user_id now d))) =
   result_bind (require_quota pol zone user_id now d) (\<lambda>uc. Inr (Admitted uc))"
proof (cases "check_user pol user_id d")
  case (Inr ua)
  obtain user al where ua: "ua = (user, al)" by fastforce
  show ?thesis
  proof (cases "check_tokens pol zone user_id al now d")
    case paid: (Inr used)
    show ?thesis
    proof (cases "check_active user_id al d")
      case placed: (Inr active)
      show ?thesis by (cases "check_pending user_id d") (simp_all add: require_quota_def Inr ua paid placed)
    qed (simp add: require_quota_def Inr ua paid)
  qed (simp add: require_quota_def Inr ua)
qed (simp add: require_quota_def)

text \<open>The runs of a user that are queued or running, and those that are not over.\<close>

definition active_rows :: "uuid \<Rightarrow> Db \<Rightarrow> RunRecord list" where
  "active_rows owner d = filter (\<lambda>r. user_fk r = Some owner \<and> status r \<in> set ACTIVE_STATUS) (runs d)"

definition live_rows :: "uuid \<Rightarrow> Db \<Rightarrow> RunRecord list" where
  "live_rows owner d = filter (\<lambda>r. user_fk r = Some owner \<and> status r \<in> set LIVE_STATUS) (runs d)"

text \<open>The submissions of a user by how far they have come.\<close>

definition count_of :: "uuid \<Rightarrow> (gate_state \<Rightarrow> bool) \<Rightarrow> 'y QuotaSite \<Rightarrow> nat" where
  "count_of owner P w = length (filter (\<lambda>(i, g). UUID i = Some owner \<and> P g) (submissions w))"

fun is_placed :: "gate_state \<Rightarrow> bool" where
  "is_placed (Placed _ _ _ _) = True"
| "is_placed _ = False"

fun is_admitted :: "gate_state \<Rightarrow> bool" where
  "is_admitted (Admitted _) = True"
| "is_admitted _ = False"

definition in_flight :: "uuid \<Rightarrow> 'y QuotaSite \<Rightarrow> nat" where
  "in_flight owner w = count_of owner (\<lambda>g. is_placed g \<or> is_admitted g) w"

text \<open>The most submissions of a user that are in flight at one time.\<close>

fun peak :: "QuotaPolicy \<Rightarrow> zone \<Rightarrow> uuid \<Rightarrow> quota_op list \<Rightarrow> 'y QuotaSite \<Rightarrow> nat" where
  "peak pol zone owner [] w = in_flight owner w"
| "peak pol zone owner (x # xs) w = max (in_flight owner w) (peak pol zone owner xs (quota_step pol zone x w))"

text \<open>How often a run of the user becomes active again, because an approval comes in, just when a submission of the user has
  counted the active runs and not yet the waiting ones.\<close>

definition slips :: "QuotaPolicy \<Rightarrow> zone \<Rightarrow> uuid \<Rightarrow> quota_op \<Rightarrow> 'y QuotaSite \<Rightarrow> bool" where
  "slips pol zone owner x w \<longleftrightarrow>
     (case x of OnRun _ \<Rightarrow> True | _ \<Rightarrow> False) \<and> 0 < count_of owner is_placed w \<and>
     length (active_rows owner (run_db (q_db w))) < length (active_rows owner (run_db (q_db (quota_step pol zone x w))))"

fun slipped :: "QuotaPolicy \<Rightarrow> zone \<Rightarrow> uuid \<Rightarrow> quota_op list \<Rightarrow> 'y QuotaSite \<Rightarrow> nat" where
  "slipped pol zone owner [] w = 0"
| "slipped pol zone owner (x # xs) w =
     (if slips pol zone owner x w then 1 else 0) + slipped pol zone owner xs (quota_step pol zone x w)"

section \<open>The day of the quota\<close>

lemma div_DAY: "DAY * (a div DAY) \<le> b \<longleftrightarrow> a < DAY * (b div DAY + 1)"
proof -
  have p: "0 < DAY" by (simp add: DAY_def)
  have "a div DAY \<le> b div DAY" if "DAY * (a div DAY) \<le> b"
    using zdiv_mono1 [OF that p] p by simp
  moreover have "a < DAY * (b div DAY + 1)" if "a div DAY \<le> b div DAY"
  proof -
    have "a = DAY * (a div DAY) + a mod DAY" by simp
    also have "\<dots> < DAY * (a div DAY) + DAY" using pos_mod_bound [OF p, of a] by (simp only: add_less_cancel_left)
    also have "\<dots> \<le> DAY * (b div DAY + 1)" using mult_left_mono [OF that, of DAY] p by (simp add: algebra_simps)
    finally show ?thesis .
  qed
  moreover have "DAY * (a div DAY) \<le> b" if "a < DAY * (b div DAY + 1)"
  proof -
    have "a div DAY < b div DAY + 1"
    proof (rule ccontr)
      assume "\<not> a div DAY < b div DAY + 1"
      then have "DAY * (b div DAY + 1) \<le> DAY * (a div DAY)" using p by simp
      also have "\<dots> \<le> a" using mult_div_mod_eq [of DAY a] pos_mod_sign [OF p, of a] by linarith
      finally show False using that by simp
    qed
    then have "DAY * (a div DAY) \<le> DAY * (b div DAY)" using p by simp
    also have "\<dots> \<le> b" using mult_div_mod_eq [of DAY b] pos_mod_sign [OF p, of b] by linarith
    finally show ?thesis .
  qed
  ultimately show ?thesis by blast
qed

lemma day_counts: "day_start (fixed_zone off) now \<le> t \<longleftrightarrow> now < next_reset (fixed_zone off) t"
proof -
  have "day_start (fixed_zone off) now \<le> t \<longleftrightarrow> DAY * ((now + off) div DAY) \<le> t + off"
    by (simp add: day_start_def fixed_zone_def algebra_simps)
  also have "\<dots> \<longleftrightarrow> now + off < DAY * ((t + off) div DAY + 1)" by (rule div_DAY)
  also have "\<dots> \<longleftrightarrow> now < next_reset (fixed_zone off) t"
    unfolding next_reset_def fixed_zone_def by (simp only: fst_conv snd_conv mult.commute less_diff_eq)
  finally show ?thesis .
qed

text \<open>The message of a refusal names the moment the quota starts anew, and it does: under a zone without a change of its clocks, a run
  counts against the tokens of its user exactly until the reset that follows its start, and a memory call that no run includes exactly
  until the reset that follows it.\<close>

theorem quota_resets:
  "(r \<in> set (runs_since owner (day_start (fixed_zone off) now) d) \<longleftrightarrow>
      r \<in> set (runs d) \<and> user_fk r = Some owner \<and> now < next_reset (fixed_zone off) (started_at r)) \<and>
   (u \<in> set (memory_since owner (day_start (fixed_zone off) now) d m) \<longleftrightarrow>
      u \<in> set (usages m) \<and> \<not> ur_included u \<and> (\<exists>r. r \<in> set (runs d) \<and> run_pk r = ur_run u \<and> user_fk r = Some owner) \<and>
      now < next_reset (fixed_zone off) (ur_created_at u)) \<and>
   now < next_reset (fixed_zone off) now \<and> next_reset (fixed_zone off) now \<le> now + DAY"
proof (intro conjI)
  show "r \<in> set (runs_since owner (day_start (fixed_zone off) now) d) \<longleftrightarrow>
      r \<in> set (runs d) \<and> user_fk r = Some owner \<and> now < next_reset (fixed_zone off) (started_at r)"
    by (simp add: runs_since_def day_counts)
  show "u \<in> set (memory_since owner (day_start (fixed_zone off) now) d m) \<longleftrightarrow>
      u \<in> set (usages m) \<and> \<not> ur_included u \<and> (\<exists>r. r \<in> set (runs d) \<and> run_pk r = ur_run u \<and> user_fk r = Some owner) \<and>
      now < next_reset (fixed_zone off) (ur_created_at u)"
    by (auto simp: memory_since_def day_counts)
  have l: "DAY * ((now + off) div DAY) \<le> now + off"
    using mult_div_mod_eq [of DAY "now + off"] pos_mod_sign [of DAY "now + off"] by (simp add: DAY_def)
  then show "now < next_reset (fixed_zone off) now"
    using day_counts [of off now now] by (simp add: day_start_def fixed_zone_def algebra_simps)
  from l show "next_reset (fixed_zone off) now \<le> now + DAY"
    by (simp add: next_reset_def fixed_zone_def algebra_simps)
qed

section \<open>Runs that are not over stay bounded\<close>

definition keys_in :: "RunStatus set \<Rightarrow> uuid \<Rightarrow> Db \<Rightarrow> uuid set" where
  "keys_in S owner d = {k. \<exists>r. run_row d k = Some r \<and> user_fk r = Some owner \<and> status r \<in> S}"

lemma keys_in_rows:
  fixes owner :: uuid and S :: "RunStatus set" and d :: Db
  assumes "db_ok d"
  defines "rows \<equiv> filter (\<lambda>r. user_fk r = Some owner \<and> status r \<in> S) (runs d)"
  shows "keys_in S owner d = run_pk ` set rows" "length rows = card (keys_in S owner d)"
proof -
  show eq: "keys_in S owner d = run_pk ` set rows"
  proof (intro set_eqI iffI)
    fix k
    show "k \<in> run_pk ` set rows" if "k \<in> keys_in S owner d"
      using that by (auto simp: keys_in_def rows_def run_row_def dest!: find_in)
    assume "k \<in> run_pk ` set rows"
    then obtain r where "k = run_pk r" "r \<in> set (runs d)" "user_fk r = Some owner" "status r \<in> S"
      by (auto simp: rows_def)
    then show "k \<in> keys_in S owner d"
      using assms(1) find_key [of run_pk "runs d" r] by (auto simp: keys_in_def run_row_def db_ok_def)
  qed
  have "distinct (map run_pk rows)" using assms(1) by (simp add: rows_def db_ok_def distinct_map_filter)
  then show "length rows = card (keys_in S owner d)"
    using distinct_card [of "map run_pk rows"] by (simp add: eq)
qed

lemma live_parts:
  "UUID user_id = Some owner \<Longrightarrow> active_run user_id d = length (active_rows owner (run_db d)) \<and>
     length (active_rows owner (run_db d)) + approval_pending_count user_id (run_db d) = length (live_rows owner (run_db d))"
proof -
  have "length (filter (\<lambda>r. user_fk r = Some owner \<and> status r \<in> set ACTIVE_STATUS) rows) +
      length (filter (\<lambda>r. user_fk r = Some owner \<and> status r = WAITING_APPROVAL) rows) =
      length (filter (\<lambda>r. user_fk r = Some owner \<and> status r \<in> set LIVE_STATUS) rows)" for rows
    by (induction rows) (auto simp: ACTIVE_STATUS_def LIVE_STATUS_def)
  then show ?thesis if "UUID user_id = Some owner"
    using that by (simp add: active_run_def active_rows_def approval_pending_count_def live_rows_def)
qed

text \<open>A step of the processes that execute runs makes none of them live again, and at most one active.\<close>

lemma run_step_live:
  assumes "db_ok d" "repo_step x d = (b, d')"
  shows "db_ok d'" "length (live_rows owner d') \<le> length (live_rows owner d)"
    "length (active_rows owner d') \<le> Suc (length (active_rows owner d))"
proof -
  have o: "op_outcome x d b d'" using repo_step_outcome [OF assms] .
  then show ok: "db_ok d'" by (simp add: op_outcome_def)
  have "keys_in (set LIVE_STATUS) owner d' \<subseteq> keys_in (set LIVE_STATUS) owner d \<and>
      (\<exists>k. keys_in (set ACTIVE_STATUS) owner d' \<subseteq> insert k (keys_in (set ACTIVE_STATUS) owner d))"
  proof (cases b)
    case True
    with o obtain u r r' where r: "run_row d u = Some r" "op_effect x r r'" "run_row d' = (run_row d)(u \<mapsto> r')"
      by (auto simp: op_outcome_def)
    from r(2) have "user_fk r' = user_fk r" "status r \<in> set LIVE_STATUS"
      by (auto simp: op_effect_def dest!: run_edge_live) (cases "status r"; simp add: LIVE_STATUS_def TERMINAL_STATUS_def)
    with r show ?thesis by (intro conjI exI [of _ u]) (auto simp: keys_in_def split: if_splits)
  next
    case False
    with o show ?thesis by (auto simp: op_outcome_def keys_in_def)
  qed
  then obtain k where sub: "keys_in (set LIVE_STATUS) owner d' \<subseteq> keys_in (set LIVE_STATUS) owner d"
    "keys_in (set ACTIVE_STATUS) owner d' \<subseteq> insert k (keys_in (set ACTIVE_STATUS) owner d)" by blast
  have fin: "finite (keys_in S owner d)" for S by (simp add: keys_in_rows(1) [OF assms(1)])
  show "length (live_rows owner d') \<le> length (live_rows owner d)"
    using card_mono [OF fin sub(1)] by (simp add: live_rows_def keys_in_rows(2) ok assms(1))
  have "card (keys_in (set ACTIVE_STATUS) owner d') \<le> card (insert k (keys_in (set ACTIVE_STATUS) owner d))"
    using card_mono [OF _ sub(2)] fin by simp
  also have "\<dots> \<le> Suc (card (keys_in (set ACTIVE_STATUS) owner d))" using fin by (simp add: card_insert_if)
  finally show "length (active_rows owner d') \<le> Suc (length (active_rows owner d))"
    by (simp add: active_rows_def keys_in_rows(2) ok assms(1))
qed

text \<open>Counting submissions.\<close>

lemma length_filter_at:
  assumes "j < length xs"
  shows "length (filter P xs) = length (filter P (remove_at j xs)) + (if P (xs ! j) then 1 else 0)"
    "length (filter P (xs[j := y])) = length (filter P (remove_at j xs)) + (if P y then 1 else 0)"
proof -
  have "xs = take j xs @ xs ! j # drop (Suc j) xs" using assms by (rule id_take_nth_drop)
  then have "filter P xs = filter P (take j xs) @ filter P (xs ! j # drop (Suc j) xs)" by (metis filter_append)
  then show "length (filter P xs) = length (filter P (remove_at j xs)) + (if P (xs ! j) then 1 else 0)"
    by (simp add: remove_at_def)
  show "length (filter P (xs[j := y])) = length (filter P (remove_at j xs)) + (if P y then 1 else 0)"
    using assms by (simp add: upd_conv_take_nth_drop remove_at_def)
qed

lemma set_remove_at: "set (remove_at j xs) \<subseteq> set xs"
  unfolding remove_at_def by (auto dest: in_set_takeD in_set_dropD)

fun gate_allowance :: "gate_state \<Rightarrow> Allowance option" where
  "gate_allowance (Known _ al) = Some al"
| "gate_allowance (Paying _ al _) = Some al"
| "gate_allowance (Placed _ al _ _) = Some al"
| "gate_allowance (Admitted _) = None"

lemma gate_step_allowance:
  "gate_step pol zone user_id now d g = Inr g' \<Longrightarrow> gate_allowance g' = gate_allowance g \<or> gate_allowance g' = None"
  by (cases g) (auto simp: result_bind_Inr_iff)

lemma count_parts: "in_flight owner w = count_of owner is_placed w + count_of owner is_admitted w"
proof -
  have "length (filter (\<lambda>(i, g). UUID i = Some owner \<and> (is_placed g \<or> is_admitted g)) xs) =
      length (filter (\<lambda>(i, g). UUID i = Some owner \<and> is_placed g) xs) +
      length (filter (\<lambda>(i, g). UUID i = Some owner \<and> is_admitted g) xs)" for xs
  proof (induction xs)
    case (Cons x xs)
    then show ?case by (cases x; cases "snd x") auto
  qed simp
  then show ?thesis by (simp add: in_flight_def count_of_def)
qed

text \<open>What holds of the user with the allowance \<open>al\<close>: once a submission has counted the active runs, they and the
  submissions in flight stay within the limit, the number \<open>k\<close> of submissions in flight and the number \<open>a\<close> of approvals
  that slipped in; and the runs that are not over, with the rows still to come, within four more.\<close>

definition within :: "uuid \<Rightarrow> Allowance \<Rightarrow> nat \<Rightarrow> nat \<Rightarrow> nat \<Rightarrow> 'y QuotaSite \<Rightarrow> bool" where
  "within owner al n k a w \<longleftrightarrow>
     db_ok (run_db (q_db w)) \<and> in_flight owner w \<le> k \<and>
     (\<forall>(i, g) \<in> set (submissions w). UUID i = Some owner \<longrightarrow> gate_allowance g \<in> {None, Some al}) \<and>
     (0 < count_of owner is_placed w \<longrightarrow>
        length (active_rows owner (run_db (q_db w))) + in_flight owner w < nat (al_runs al) + k + a) \<and>
     length (live_rows owner (run_db (q_db w))) + count_of owner is_admitted w \<le> max n (nat (al_runs al) + 3 + k + a)"

lemma within_fewer:
  assumes "within owner al n k a w" "q_db w' = q_db w" "submissions w' = remove_at j (submissions w)"
  shows "within owner al n k a w'"
proof (cases "j < length (submissions w)")
  case True
  have "count_of owner P w' \<le> count_of owner P w" for P
    using length_filter_at(1) [OF True] assms(3) by (simp add: count_of_def)
  from this [of is_placed] this [of is_admitted] assms set_remove_at [of j "submissions w"] count_parts [of owner w] count_parts [of owner w']
  show ?thesis by (fastforce simp: within_def)
next
  case False
  then have "submissions w' = submissions w" using assms(3) by (simp add: remove_at_def)
  with assms(1,2) show ?thesis by (simp add: within_def in_flight_def count_of_def)
qed

lemma same_user: "UUID s = UUID t \<Longrightarrow> get_user s d = get_user t d \<and> active_run s d = active_run t d \<and>
    approval_pending_count s (run_db d) = approval_pending_count t (run_db d)"
  by (simp add: get_user_def active_run_def approval_pending_count_def)

text \<open>The next read of a submission of the user.\<close>

lemma within_read:
  assumes w: "within owner al n k a w" and j: "j < length (submissions w)" and x: "submissions w ! j = (s, g)"
    and step: "gate_step pol zone s now (q_db w) g = Inr g'"
    and w': "w' = w\<lparr>submissions := (submissions w)[j := (s, g')]\<rparr>" and k: "in_flight owner w' \<le> k"
  shows "within owner al n k a w'"
proof -
  have allowances: "\<forall>(i, g) \<in> set (submissions w'). UUID i = Some owner \<longrightarrow> gate_allowance g \<in> {None, Some al}"
    and g: "UUID s = Some owner \<Longrightarrow> gate_allowance g \<in> {None, Some al}"
  proof -
    have "(s, g) \<in> set (submissions w)" using j x nth_mem by metis
    then show g: "gate_allowance g \<in> {None, Some al}" if "UUID s = Some owner" using w that by (auto simp: within_def)
    have "y \<in> set (submissions w)" if "y \<in> set (submissions w')" "y \<noteq> (s, g')" for y
      using that set_update_subset_insert [of "submissions w" j "(s, g')"] w' by auto
    then show "\<forall>(i, g) \<in> set (submissions w'). UUID i = Some owner \<longrightarrow> gate_allowance g \<in> {None, Some al}"
      using w g gate_step_allowance [OF step] by (fastforce simp: within_def)
  qed
  have count: "count_of owner P w' + (if UUID s = Some owner \<and> P g then 1 else 0) =
      count_of owner P w + (if UUID s = Some owner \<and> P g' then 1 else 0)" for P
    using length_filter_at [OF j] x w' by (simp add: count_of_def)
  note placed = count [of is_placed] and admitted = count [of is_admitted]
  have db: "q_db w' = q_db w" by (simp add: w')
  show ?thesis
  proof (cases "UUID s = Some owner \<and> is_placed g' \<and> \<not> is_placed g")
    case True
    then obtain user al' used active where g: "g = Paying user al' used"
      using step by (cases g) (auto simp: result_bind_Inr_iff)
    with True \<open>UUID s = Some owner \<Longrightarrow> _\<close> have "al' = al" by simp
    with step g have "int (active_run s (q_db w)) < al_runs al"
      by (auto simp: result_bind_Inr_iff check_active_def Let_def split: if_splits)
    then have "length (active_rows owner (run_db (q_db w))) < nat (al_runs al)"
      using live_parts [of s owner "q_db w"] True by simp
    moreover have "count_of owner is_admitted w' = count_of owner is_admitted w"
      using admitted g True by (cases g') auto
    ultimately show ?thesis using w k allowances by (auto simp: within_def db)
  next
    case False
    show ?thesis
    proof (cases "UUID s = Some owner \<and> is_admitted g' \<and> \<not> is_admitted g")
      case True
      then obtain user al' used active where g: "g = Placed user al' used active"
        using step by (cases g) (auto simp: result_bind_Inr_iff)
      with step have "approval_pending_count s (run_db (q_db w)) \<le> 4"
        by (auto simp: result_bind_Inr_iff check_pending_def DEFAULT_PENDING_LIMIT_def split: if_splits)
      moreover have "0 < count_of owner is_placed w" "count_of owner is_placed w = Suc (count_of owner is_placed w')"
        "count_of owner is_admitted w' = Suc (count_of owner is_admitted w)"
        using placed admitted g True by (cases g'; simp)+
      ultimately show ?thesis
        using w k allowances live_parts [of s owner "q_db w"] True count_parts [of owner w] count_parts [of owner w']
        by (auto simp: within_def db)
    next
      case stays: False
      have "count_of owner is_placed w' \<le> count_of owner is_placed w" "count_of owner is_admitted w' = count_of owner is_admitted w"
        using placed admitted False stays step by (cases g; cases g'; auto simp: result_bind_Inr_iff split: if_splits)+
      then show ?thesis using w k allowances count_parts [of owner w] count_parts [of owner w'] by (auto simp: within_def db)
    qed
  qed
qed

text \<open>The row of an admitted submission.\<close>

lemma create_Inr:
  assumes "create i t user_id c cfg uc now d = Inr d'"
  obtains u owner r where "UUID user_id = Some owner" "u \<notin> set (map run_pk (runs d))" "d' = d\<lparr>runs := runs d @ [r]\<rparr>"
    "run_pk r = u" "user_fk r = Some owner" "status r = QUEUED"
proof -
  from assms obtain u tid owner where u: "UUID i = Some u" "UUID t = Some tid" "UUID user_id = Some owner"
    by (auto simp: create_def split: option.splits)
  with assms have "u \<notin> set (map run_pk (runs d))" by (auto simp: create_def split: if_splits)
  with assms u show ?thesis by (intro that [of owner u "last (runs d')"]) (auto simp: create_def)
qed

lemma within_insert:
  assumes w: "within owner al n k a w" and j: "j < length (submissions w)"
  shows "within owner al n k a (insert_run j run_id thread_id c cfg now w) \<and>
    users (q_db (insert_run j run_id thread_id c cfg now w)) = users (q_db w)"
proof -
  obtain s g where x: "submissions w ! j = (s, g)" by fastforce
  let ?w = "w\<lparr>submissions := remove_at j (submissions w)\<rparr>"
  have rm: "within owner al n k a ?w" using within_fewer [OF w, of ?w j] by simp
  show ?thesis
  proof (cases g)
    case (Admitted uc)
    show ?thesis
    proof (cases "create run_id thread_id s c cfg (Some uc) now (run_db (q_db w))")
      case (Inl e)
      then show ?thesis using rm x Admitted by (simp add: insert_run_def)
    next
      case (Inr rd)
      from create_Inr [OF this] obtain u o' r where r: "UUID s = Some o'" "u \<notin> set (map run_pk (runs (run_db (q_db w))))"
        "rd = (run_db (q_db w))\<lparr>runs := runs (run_db (q_db w)) @ [r]\<rparr>" "run_pk r = u" "user_fk r = Some o'" "status r = QUEUED" .
      let ?v = "?w\<lparr>q_db := (q_db w)\<lparr>run_db := rd\<rparr>\<rparr>"
      have v: "insert_run j run_id thread_id c cfg now w = ?v" using x Admitted Inr by (simp add: insert_run_def)
      have count: "count_of owner P w = count_of owner P ?v + (if UUID s = Some owner \<and> P g then 1 else 0)" for P
        using length_filter_at(1) [OF j] x by (simp add: count_of_def)
      have rows: "length (active_rows owner rd) = length (active_rows owner (run_db (q_db w))) + (if o' = owner then 1 else 0)"
        "length (live_rows owner rd) = length (live_rows owner (run_db (q_db w))) + (if o' = owner then 1 else 0)"
        using r by (simp_all add: active_rows_def live_rows_def ACTIVE_STATUS_def LIVE_STATUS_def)
      have ok: "db_ok rd" using w r by (auto simp: within_def db_ok_def)
      have "\<forall>(i, g) \<in> set (submissions ?v). UUID i = Some owner \<longrightarrow> gate_allowance g \<in> {None, Some al}"
        using rm by (auto simp: within_def)
      with ok rows w count [of is_placed] count [of is_admitted] count_parts [of owner w] count_parts [of owner ?v] r(1) Admitted
      have "within owner al n k a ?v" by (auto simp: within_def split: if_splits)
      then show ?thesis by (simp add: v)
    qed
  qed (use w x in \<open>simp_all add: insert_run_def\<close>)
qed

lemma within_step:
  assumes w: "within owner al n k a w" and u: "UUID user_id = Some owner" "get_user user_id (q_db w) = Some us"
      "allow pol (us_role us) (us_quota_tokens us) (us_quota_runs us) = Inr al"
    and k: "in_flight owner (quota_step pol zone x w) \<le> k"
  shows "within owner al n k (a + (if slips pol zone owner x w then 1 else 0)) (quota_step pol zone x w) \<and>
    users (q_db (quota_step pol zone x w)) = users (q_db w)"
proof (cases x)
  case (Ask s)
  show ?thesis
  proof (cases "check_user pol s (q_db w)")
    case (Inl e)
    then show ?thesis using w Ask by (simp add: slips_def)
  next
    case (Inr y)
    obtain user al' where y: "y = (user, al')" by fastforce
    have "al' = al" if "UUID s = Some owner"
      using Inr y u same_user [of s user_id "q_db w"] that
      by (auto simp: check_user_def result_bind_Inr_iff split: option.splits)
    then show ?thesis using w Ask Inr y by (auto simp: slips_def within_def in_flight_def count_of_def)
  qed
next
  case (Read j now)
  show ?thesis
  proof (cases "j < length (submissions w)")
    case True
    obtain s g where x: "submissions w ! j = (s, g)" by fastforce
    show ?thesis
    proof (cases "gate_step pol zone s now (q_db w) g")
      case (Inl e)
      then show ?thesis
        using within_fewer [OF w, of "w\<lparr>submissions := remove_at j (submissions w)\<rparr>" j] True x Read by (simp add: slips_def)
    next
      case (Inr g')
      then show ?thesis using within_read [OF w True x Inr refl] k True x Read by (simp add: slips_def)
    qed
  qed (use w Read in \<open>simp add: slips_def\<close>)
next
  case (Insert j run_id thread_id c cfg now)
  then show ?thesis using within_insert [OF w] w by (simp add: slips_def)
next
  case (Drop j)
  then show ?thesis
    using within_fewer [OF w, of "w\<lparr>submissions := remove_at j (submissions w)\<rparr>" j] by (simp add: slips_def)
next
  case (OnRun y)
  let ?d = "run_db (q_db w)" and ?d' = "snd (repo_step y (run_db (q_db w)))"
  have ok: "db_ok ?d" using w by (simp add: within_def)
  have "repo_step y ?d = (fst (repo_step y ?d), ?d')" by simp
  note step = run_step_live [OF ok this]
  have same: "count_of owner P (quota_step pol zone x w) = count_of owner P w" for P by (simp add: OnRun count_of_def)
  show ?thesis
    using w step(1) step(2,3) [of owner] same OnRun by (auto simp: within_def in_flight_def slips_def)
qed

text \<open>C17. The runs of a user that are not over stay bounded although the gate and the row of a run are separate steps. Start with no submission under
  way and take any interleaving of the reads of the gate by any number of submissions, of the rows that admitted ones insert, of submissions that
  end otherwise, and of the steps of workers, reapers and approvals, while nobody changes the role or the overrides of
  the user. Then the runs of the user that are queued, running or waiting for a decision are never more than the
  largest of what they were and \<open>l + 3 + k + a\<close>: \<open>l\<close> is the allowance of running runs, \<open>k\<close> the most submissions of the user that were at
  one time between their count of the active runs and their row, and \<open>a\<close> the number of approvals that made a run of the user
  active just between the count of the active and the count of the waiting runs of a submission. For one submission at a time that no
  approval meets, this is four more than the allowance, because five runs may wait for a decision; two at a time can exceed it
  (\<open>concurrent_submissions_pass\<close>).\<close>

theorem live_runs_bounded:
  assumes "UUID user_id = Some owner" "db_ok (run_db (q_db w))" "get_user user_id (q_db w) = Some us"
    "allow pol (us_role us) (us_quota_tokens us) (us_quota_runs us) = Inr al" "submissions w = []"
  shows "length (live_rows owner (run_db (q_db (quota_run pol zone xs w)))) \<le>
    max (length (live_rows owner (run_db (q_db w))))
      (nat (al_runs al) + 3 + peak pol zone owner xs w + slipped pol zone owner xs w)"
proof -
  let ?n = "length (live_rows owner (run_db (q_db w)))"
  have run: "within owner al n k a w \<Longrightarrow> get_user user_id (q_db w) = Some us \<Longrightarrow> peak pol zone owner xs w \<le> k \<Longrightarrow>
      within owner al n k (a + slipped pol zone owner xs w) (quota_run pol zone xs w)" for n k a and w :: "'a QuotaSite"
  proof (induction xs arbitrary: a w)
    case Nil
    then show ?case by (simp add: quota_run_def)
  next
    case (Cons x xs)
    let ?w = "quota_step pol zone x w"
    have k: "peak pol zone owner xs ?w \<le> k" "in_flight owner ?w \<le> peak pol zone owner xs ?w"
      using Cons.prems(3) by simp (cases xs; simp)
    from within_step [OF Cons.prems(1) assms(1) Cons.prems(2) assms(4) order_trans [OF k(2,1)]]
    have "within owner al n k (a + (if slips pol zone owner x w then 1 else 0)) ?w" "get_user user_id (q_db ?w) = Some us"
      using Cons.prems(2) by (simp_all add: get_user_def user_row_def)
    from Cons.IH [OF this k(1)] show ?case by (simp add: quota_run_def add.assoc)
  qed
  have "within owner al ?n (peak pol zone owner xs w) 0 w"
    using assms(2,5) by (simp add: within_def in_flight_def count_of_def)
  from run [OF this assms(3)] show ?thesis by (simp add: within_def)
qed

section \<open>A student at the limit\<close>

definition example_quota_run :: "uuid \<Rightarrow> RunStatus \<Rightarrow> RunRecord" where
  "example_quota_run k s =
     \<lparr>run_pk = k, thread_fk = 9, content = None, agent_config = None, user_context = None, user_fk = Some 1, status = s,
      error_code = None, error_message = None, tokens_cache_read = 0, tokens_uncached = 100, tokens_output = 20,
      started_at = 1000, ended_at = None\<rparr>"

definition example_quota :: "RunStatus list \<Rightarrow> int QuotaDb" where
  "example_quota ss =
     \<lparr>users = [\<lparr>u_pk = 1, u_name = ''s'', u_email = ''s'', u_dept = [], u_hash = [], u_role = STUDENT, u_quota_tokens = None,
                u_quota_runs = None, u_active = True, u_created = 0\<rparr>],
      run_db = \<lparr>runs = map (\<lambda>(k, s). example_quota_run k s) (enumerate 10 ss), memory_jobs = []\<rparr>,
      mem_db = \<lparr>jobs = [], usages = []\<rparr>\<rparr>"

definition example_student :: User where
  "example_student = \<lparr>us_id = uuid_hex 1, us_name = ''s'', us_email = ''s'', us_dept = [], us_role = STUDENT, us_active = True,
     us_quota_tokens = None, us_quota_runs = None\<rparr>"

lemma example_student_row: "get_user (uuid_hex 1) (example_quota ss) = Some example_student"
  by (simp add: get_user_def user_row_def to_user_def example_quota_def example_student_def)

lemma example_allowance: "allow default_policy STUDENT None None = Inr \<lparr>al_tokens = Some 400000, al_runs = 2\<rparr>"
  by (simp add: allow_def default_policy_def DEFAULT_TOKEN_DAILY_def DEFAULT_CONCURRENT_RUN_def)

definition example_site_at :: "RunStatus list \<Rightarrow> int QuotaSite" where
  "example_site_at ss = \<lparr>q_db = example_quota ss, submissions = []\<rparr>"

text \<open>A submission that meets no other while one run of the student runs, and while a second one is approved after it was inserted.\<close>

definition one_submission :: "quota_op list" where
  "one_submission = [Ask (uuid_hex 1), Read 0 2000, Read 0 2000, Read 0 2000, Insert 0 (uuid_hex 30) (uuid_hex 9) None None 2000,
     OnRun (OpResume (uuid_hex 11))]"

text \<open>Two submissions whose reads and rows alternate.\<close>

definition two_submissions :: "quota_op list" where
  "two_submissions = [Ask (uuid_hex 1), Ask (uuid_hex 1), Read 0 2000, Read 1 2000, Read 0 2000, Read 1 2000, Read 0 2000, Read 1 2000,
     Insert 0 (uuid_hex 30) (uuid_hex 9) None None 2000, Insert 0 (uuid_hex 31) (uuid_hex 9) None None 2000]"

lemmas example_gate_eval = quota_run_def example_site_at_def check_user_def get_user_def user_row_def to_user_def
  check_tokens_def check_active_def check_pending_def frozen_context_def validate_context_def remove_at_def insert_run_def
  token_today_def runs_since_def memory_since_def day_start_def fixed_zone_def DAY_def run_equivalent_def default_policy_def
  DEFAULT_OUTPUT_WEIGHT_def allow_def DEFAULT_TOKEN_DAILY_def DEFAULT_CONCURRENT_RUN_def approval_pending_count_def
  DEFAULT_PENDING_LIMIT_def active_run_def ACTIVE_STATUS_def create_def example_quota_def example_quota_run_def
  resume_def sql_update_def active_rows_def in_flight_def count_of_def slips_def

lemma example_one_submission:
  "peak default_policy (fixed_zone 28800000) 1 one_submission (example_site_at [RUNNING, WAITING_APPROVAL]) = 1"
  "slipped default_policy (fixed_zone 28800000) 1 one_submission (example_site_at [RUNNING, WAITING_APPROVAL]) = 0"
  "length (live_rows 1 (run_db (q_db (quota_run default_policy (fixed_zone 28800000) one_submission
     (example_site_at [RUNNING, WAITING_APPROVAL]))))) = 3"
  by (simp_all add: one_submission_def example_gate_eval live_rows_def LIVE_STATUS_def del: One_nat_def)

theorem live_runs_bounded_witness:
  "length (live_rows 1 (run_db (q_db (quota_run default_policy (fixed_zone 28800000) one_submission
      (example_site_at [RUNNING, WAITING_APPROVAL]))))) \<le>
   max (length (live_rows 1 (run_db (q_db (example_site_at [RUNNING, WAITING_APPROVAL]))))) (nat 2 + 3 + 1 + 0)"
proof -
  have "get_user (uuid_hex 1) (q_db (example_site_at [RUNNING, WAITING_APPROVAL])) = Some example_student"
    by (simp add: example_site_at_def example_student_row del: One_nat_def)
  from live_runs_bounded [of "uuid_hex 1" 1 "example_site_at [RUNNING, WAITING_APPROVAL]", OF _ _ this, of default_policy
      "\<lparr>al_tokens = Some 400000, al_runs = 2\<rparr>" "fixed_zone 28800000" one_submission]
  show ?thesis
    using example_allowance example_one_submission(1,2)
    by (simp add: example_student_def db_ok_def example_site_at_def example_quota_def example_quota_run_def)
qed

text \<open>Findings. The limit of running runs is only asked when a run is submitted: a student whose limit is two has four active runs after
  approving two that waited, and nothing was refused.\<close>

lemma approvals_exceed_limit:
  "active_run (uuid_hex 1) (q_db (quota_run default_policy z
      [OnRun (OpResume (uuid_hex 12)), OnRun (OpResume (uuid_hex 13))]
      (example_site_at [RUNNING, RUNNING, WAITING_APPROVAL, WAITING_APPROVAL]))) = 4"
  by (simp add: example_gate_eval del: One_nat_def)

text \<open>The gate and the row of the run are separate statements: two submissions that are both checked before either writes its row both
  pass, with one place left.\<close>

lemma concurrent_submissions_pass:
  "active_run (uuid_hex 1) (q_db (quota_run default_policy (fixed_zone 28800000) two_submissions (example_site_at [RUNNING]))) = 3"
  by (simp add: two_submissions_def example_gate_eval)

lemma two_submissions_in_flight:
  "peak default_policy (fixed_zone 28800000) 1 two_submissions (example_site_at [RUNNING]) = 2"
  by (simp add: two_submissions_def example_gate_eval)

text \<open>The active and the waiting runs are counted one after the other: an approval in between is counted as neither, and a submission
  passes although the student has six runs that are not over, the most the two limits allow together.\<close>

lemma approval_slips_through:
  "length (live_rows 1 (run_db (q_db (quota_run default_policy (fixed_zone 28800000)
      [Ask (uuid_hex 1), Read 0 2000, Read 0 2000, OnRun (OpResume (uuid_hex 11)), Read 0 2000,
       Insert 0 (uuid_hex 30) (uuid_hex 9) None None 2000]
      (example_site_at [RUNNING, WAITING_APPROVAL, WAITING_APPROVAL, WAITING_APPROVAL, WAITING_APPROVAL, WAITING_APPROVAL]))))) = 7"
  by (simp add: example_gate_eval live_rows_def LIVE_STATUS_def del: One_nat_def)

text \<open>The tokens of a run count on the day it started: what a run that began before midnight burns afterwards is charged to no day that
  is still asked about.\<close>

lemma yesterdays_run_is_free:
  "token_today 1 (fixed_zone 0) (uuid_hex 1) DAY (example_quota [RUNNING]) = 0"
  "token_today 1 (fixed_zone 0) (uuid_hex 1) (DAY - 1) (example_quota [RUNNING]) = 120"
  by (simp_all add: token_today_def runs_since_def memory_since_def day_start_def fixed_zone_def DAY_def run_equivalent_def
      example_quota_def example_quota_run_def)

end
