(* ===== verification/Preset_Model.thy ===== *)
theory Preset_Model
  imports Group_Repository "HOL-Library.Option_ord" "HOL-Library.Product_Lexorder"
begin

text \<open>
  The tables of the catalogue (\<open>app/preset/model.py\<close>, and the row types of \<open>app/preset/skill.py\<close> and \<open>app/preset/mcp.py\<close>): agents and
  Skills with their versions, servers of external tools, reviews, and what is shared with which group. A JSON column is the list of
  references it stores. The contract of a table of versions is the locale \<open>version_history\<close>: rows are only appended, and a version that
  is final is never written again; the repositories of agents and of Skills are its instances.
\<close>

section \<open>Rows\<close>

datatype Visibility = PRIVATE | GROUP

datatype VersionStatus = DRAFT | RELEASED

datatype ReviewStatus = RV_PENDING | RV_APPROVED | RV_REJECTED

datatype ResourceKind = KIND_AGENT | KIND_SKILL | KIND_MCP

definition FIRST_VERSION :: nat where "FIRST_VERSION = 1"

record AgentRecord =
  a_pk :: uuid
  a_owner :: uuid
  a_name :: string
  a_description :: string
  a_subject :: string
  a_visibility :: Visibility
  a_calls :: int
  a_deleted :: bool
  a_enabled :: bool
  a_reason :: "string option"
  a_disabled_by :: "uuid option"
  a_disabled_at :: "datetime option"
  a_created :: datetime
  a_updated :: datetime

record AgentVersionRecord =
  v_pk :: uuid
  v_agent :: uuid
  v_number :: nat
  v_status :: VersionStatus
  v_prompt :: string
  v_skills :: "SkillReference list option"
  v_subagents :: "SubagentReference list option"
  v_mcps :: "McpReference list option"
  v_created :: datetime
  v_released :: "datetime option"

record ReviewRecord =
  rv_pk :: uuid
  rv_kind :: ResourceKind
  rv_target :: uuid
  rv_status :: ReviewStatus
  rv_confirmed :: bool
  rv_reason :: "string option"
  rv_by :: uuid
  rv_reviewer :: "uuid option"
  rv_created :: datetime
  rv_decided :: "datetime option"

record ResourceGroupRecord =
  rg_kind :: ResourceKind
  rg_resource :: uuid
  rg_group_fk :: uuid

record SkillRecord =
  k_pk :: uuid
  k_owner :: uuid
  k_name :: string
  k_subject :: string
  k_visibility :: Visibility
  k_calls :: int
  k_deleted :: bool
  k_enabled :: bool
  k_reason :: "string option"
  k_disabled_by :: "uuid option"
  k_disabled_at :: "datetime option"
  k_created :: datetime
  k_updated :: datetime

record SkillVersionRecord =
  w_pk :: uuid
  w_skill :: uuid
  w_number :: nat
  w_status :: VersionStatus
  w_description :: string
  w_files :: nat
  w_bytes :: nat
  w_created :: datetime
  w_released :: "datetime option"

datatype McpTransport = STREAMABLE_HTTP | SSE

datatype McpStatus = MCP_PENDING | MCP_ENABLED | MCP_DISABLED | MCP_REJECTED

record McpServerRecord =
  m_pk :: uuid
  m_name :: string
  m_description :: string
  m_url :: string
  m_transport :: McpTransport
  m_credential :: "string option"
  m_tools :: "string list"
  m_latency :: string
  m_stores :: bool
  m_sends :: bool
  m_writes :: bool
  m_status :: McpStatus
  m_reason :: "string option"
  m_by :: uuid
  m_reviewer :: "uuid option"
  m_created :: datetime
  m_updated :: datetime

record PresetDb = GroupDb +
  agents :: "AgentRecord list"
  agent_versions :: "AgentVersionRecord list"
  skill_rows :: "SkillRecord list"
  skill_versions :: "SkillVersionRecord list"
  mcp_servers :: "McpServerRecord list"
  reviews :: "ReviewRecord list"
  shares :: "ResourceGroupRecord list"

section \<open>Keys and unique indexes\<close>

definition agent_clash :: "AgentRecord \<Rightarrow> AgentRecord \<Rightarrow> bool" where
  "agent_clash r x \<longleftrightarrow> a_pk x = a_pk r \<or>
     (\<not> a_deleted x \<and> \<not> a_deleted r \<and> a_owner x = a_owner r \<and> a_name x = a_name r)"

definition version_clash :: "AgentVersionRecord \<Rightarrow> AgentVersionRecord \<Rightarrow> bool" where
  "version_clash r x \<longleftrightarrow> v_pk x = v_pk r \<or>
     (v_agent x = v_agent r \<and> (v_number x = v_number r \<or> v_status x = DRAFT \<and> v_status r = DRAFT))"

definition skill_clash :: "SkillRecord \<Rightarrow> SkillRecord \<Rightarrow> bool" where
  "skill_clash r x \<longleftrightarrow> k_pk x = k_pk r \<or>
     (\<not> k_deleted x \<and> \<not> k_deleted r \<and> k_owner x = k_owner r \<and> k_name x = k_name r)"

definition skill_version_clash :: "SkillVersionRecord \<Rightarrow> SkillVersionRecord \<Rightarrow> bool" where
  "skill_version_clash r x \<longleftrightarrow> w_pk x = w_pk r \<or>
     (w_skill x = w_skill r \<and> (w_number x = w_number r \<or> w_status x = DRAFT \<and> w_status r = DRAFT))"

definition mcp_clash :: "McpServerRecord \<Rightarrow> McpServerRecord \<Rightarrow> bool" where
  "mcp_clash r x \<longleftrightarrow> m_pk x = m_pk r \<or>
     (m_status x \<noteq> MCP_REJECTED \<and> m_status r \<noteq> MCP_REJECTED \<and> m_name x = m_name r)"

definition review_clash :: "ReviewRecord \<Rightarrow> ReviewRecord \<Rightarrow> bool" where
  "review_clash r x \<longleftrightarrow> rv_pk x = rv_pk r \<or>
     (rv_status x = RV_PENDING \<and> rv_status r = RV_PENDING \<and> rv_kind x = rv_kind r \<and> rv_target x = rv_target r)"

text \<open>Is a resource shared with a group the user is in (\<open>_shared_with\<close>)?\<close>

definition shared_with :: "ResourceKind \<Rightarrow> uuid \<Rightarrow> 'a PresetDb_scheme \<Rightarrow> uuid \<Rightarrow> bool" where
  "shared_with kind user db i \<longleftrightarrow>
     (\<exists>s\<in>set (shares db). rg_kind s = kind \<and> rg_resource s = i \<and> (user, rg_group_fk s) \<in> set (members db))"

text \<open>An approved review of a version.\<close>

definition approved_target :: "ResourceKind \<Rightarrow> 'a PresetDb_scheme \<Rightarrow> uuid \<Rightarrow> bool" where
  "approved_target kind db i \<longleftrightarrow> (\<exists>r\<in>set (reviews db). rv_kind r = kind \<and> rv_target r = i \<and> rv_status r = RV_APPROVED)"

text \<open>\<open>DISTINCT ON (parent) ... ORDER BY parent, version DESC\<close>, for one parent: the row with the greatest number.\<close>

definition latest :: "('v \<Rightarrow> nat) \<Rightarrow> 'v list \<Rightarrow> 'v option" where
  "latest number vs = (case sort_key number vs of [] \<Rightarrow> None | x # xs \<Rightarrow> Some (last (x # xs)))"

lemma latest_None [simp]: "latest number vs = None \<longleftrightarrow> vs = []"
proof -
  have "sort_key number vs = [] \<longleftrightarrow> vs = []" using length_sort [of number vs] by (metis length_0_conv)
  then show ?thesis by (cases "sort_key number vs") (simp_all add: latest_def)
qed

lemma latest_in: "latest number vs = Some v \<Longrightarrow> v \<in> set vs \<and> (\<forall>w\<in>set vs. number w \<le> number v)"
proof -
  assume l: "latest number vs = Some v"
  define ys where "ys = sort_key number vs"
  have ys: "set ys = set vs" "sorted (map number ys)" by (simp_all add: ys_def)
  from l have ne: "ys \<noteq> []" and v: "v = last ys" by (auto simp: latest_def ys_def split: list.splits)
  have "number w \<le> number v" if "w \<in> set vs" for w
  proof -
    from that ys(1) obtain i where "i < length ys" "w = ys ! i" by (metis in_set_conv_nth)
    then show ?thesis using ys(2) ne v by (simp add: last_conv_nth sorted_iff_nth_mono)
  qed
  with ys(1) ne v show ?thesis using last_in_set [OF ne] by auto
qed

lemma latest_unique:
  assumes "\<And>v w. v \<in> set vs \<Longrightarrow> w \<in> set vs \<Longrightarrow> p v \<Longrightarrow> p w \<Longrightarrow> number v = number w \<Longrightarrow> v = w"
  shows "latest number (filter p vs) = Some v \<longleftrightarrow> v \<in> set vs \<and> p v \<and> (\<forall>w\<in>set vs. p w \<longrightarrow> number w \<le> number v)"
proof
  assume "latest number (filter p vs) = Some v"
  then show "v \<in> set vs \<and> p v \<and> (\<forall>w\<in>set vs. p w \<longrightarrow> number w \<le> number v)" by (auto dest: latest_in)
next
  assume v: "v \<in> set vs \<and> p v \<and> (\<forall>w\<in>set vs. p w \<longrightarrow> number w \<le> number v)"
  then obtain w where w: "latest number (filter p vs) = Some w"
    by (cases "latest number (filter p vs)") (auto simp: filter_empty_conv)
  with v have "w \<in> set vs" "p w" "number w = number v" by (auto dest!: latest_in intro: antisym)
  with v assms [of w v] w show "latest number (filter p vs) = Some v" by simp
qed

section \<open>Lists\<close>

lemma fold_max_start: "a \<le> fold max ys (a::nat)"
  by (induction ys arbitrary: a) (simp, metis fold_simps(2) max.cobounded2 order_trans)

lemma le_fold_max: "y \<in> set ys \<Longrightarrow> y \<le> fold max ys (a::nat)"
proof (induction ys arbitrary: a)
  case (Cons z ys)
  show ?case
  proof (cases "y = z")
    case True
    have "y \<le> max z a" using True by simp
    also have "\<dots> \<le> fold max ys (max z a)" by (rule fold_max_start)
    finally show ?thesis by simp
  next
    case False
    with Cons show ?thesis by simp
  qed
qed simp

lemma find_map_filter:
  "(\<And>x y. x \<in> set xs \<Longrightarrow> f x = Some y \<Longrightarrow> q y = p x) \<Longrightarrow>
   find q (List.map_filter f xs) = Option.bind (find (\<lambda>x. p x \<and> f x \<noteq> None) xs) f"
proof (induction xs)
  case (Cons x xs)
  from Cons.IH [OF Cons.prems] Cons.prems [of x] show ?case
    by (cases "f x") (auto simp: map_filter_simps)
qed (simp add: map_filter_simps)

lemma find_perm:
  assumes "distinct (map pk xs)" "set ys = set xs"
  shows "find (\<lambda>r. pk r = i \<and> q r) ys = find (\<lambda>r. pk r = i \<and> q r) xs"
proof (cases "find (\<lambda>r. pk r = i \<and> q r) xs")
  case None
  with assms(2) have "find (\<lambda>r. pk r = i \<and> q r) ys = None" by (auto simp: find_None_iff)
  with None show ?thesis by simp
next
  case (Some x)
  have "find (\<lambda>r. pk r = i \<and> q r) ys = Some x"
    by (rule find_unique) (use find_in [OF Some] assms in \<open>auto simp: distinct_map dest: inj_onD\<close>)
  with Some show ?thesis by simp
qed

section \<open>Tables without clashing rows\<close>

text \<open>No row clashes with an earlier one.\<close>

definition unclashed :: "('r \<Rightarrow> 'r \<Rightarrow> bool) \<Rightarrow> 'r list \<Rightarrow> bool" where
  "unclashed clash rows = sorted_wrt (\<lambda>x y. \<not> clash y x) rows"

lemma unclashed_insert: "sql_insert clash r rows = Inr rows' \<Longrightarrow> unclashed clash rows \<Longrightarrow> unclashed clash rows'"
  by (auto simp: unclashed_def sql_insert_Inr sorted_wrt_append)

lemma unclashed_map:
  "unclashed clash rows \<Longrightarrow> (\<And>x y. x \<in> set rows \<Longrightarrow> y \<in> set rows \<Longrightarrow> clash (f y) (f x) \<Longrightarrow> clash y x) \<Longrightarrow>
   unclashed clash (map f rows)"
  by (induction rows) (auto simp: unclashed_def)

lemma unclashed_distinct: "unclashed clash rows \<Longrightarrow> (\<And>x y. pk x = pk y \<Longrightarrow> clash y x) \<Longrightarrow> distinct (map pk rows)"
  by (induction rows) (auto simp: unclashed_def)

lemma unclashedD:
  "unclashed clash rows \<Longrightarrow> x \<in> set rows \<Longrightarrow> y \<in> set rows \<Longrightarrow> clash x y \<Longrightarrow> (\<And>x y. clash x y \<Longrightarrow> clash y x) \<Longrightarrow> x = y"
  by (induction rows) (auto simp: unclashed_def)

lemma clash_sym:
  "agent_clash x y \<Longrightarrow> agent_clash y x" "version_clash v w \<Longrightarrow> version_clash w v" "skill_clash s t \<Longrightarrow> skill_clash t s"
  "skill_version_clash k l \<Longrightarrow> skill_version_clash l k" "mcp_clash m n \<Longrightarrow> mcp_clash n m" "review_clash p q \<Longrightarrow> review_clash q p"
  by (auto simp: agent_clash_def version_clash_def skill_clash_def skill_version_clash_def mcp_clash_def review_clash_def)

section \<open>The contract of a table of versions\<close>

text \<open>The calls of a history are good in the state each of them meets.\<close>

fun all_good :: "('op \<Rightarrow> 'd \<Rightarrow> bool) \<Rightarrow> ('op \<Rightarrow> 'd \<Rightarrow> 'd) \<Rightarrow> 'op list \<Rightarrow> 'd \<Rightarrow> bool" where
  "all_good good step [] d \<longleftrightarrow> True"
| "all_good good step (x # xs) d \<longleftrightarrow> good x d \<and> all_good good step xs (step x d)"

text \<open>How a call may change a table of versions: final rows stay as they are, every row keeps its parent and number, and a new row has a
  greater number than the rows of its parent.\<close>

definition grows :: "('v \<Rightarrow> bool) \<Rightarrow> ('v \<Rightarrow> uuid) \<Rightarrow> ('v \<Rightarrow> nat) \<Rightarrow> 'v list \<Rightarrow> 'v list \<Rightarrow> bool" where
  "grows frozen parent number vs ws \<longleftrightarrow> (\<exists>f new. ws = map f vs @ new \<and>
     (\<forall>v\<in>set vs. (frozen v \<longrightarrow> f v = v) \<and> parent (f v) = parent v \<and> number (f v) = number v) \<and>
     (\<forall>w\<in>set new. \<forall>v\<in>set vs. parent v = parent w \<longrightarrow> number v < number w))"

lemma grows_refl [simp]: "grows frozen parent number vs vs"
  unfolding grows_def by (rule exI [of _ id], rule exI [of _ "[]"]) simp

lemma grows_map:
  "(\<And>v. v \<in> set vs \<Longrightarrow> (frozen v \<longrightarrow> f v = v) \<and> parent (f v) = parent v \<and> number (f v) = number v) \<Longrightarrow>
   grows frozen parent number vs (map f vs)"
  unfolding grows_def by (rule exI [of _ f], rule exI [of _ "[]"]) simp

lemma grows_snoc:
  "(\<And>v. v \<in> set vs \<Longrightarrow> parent v = parent w \<Longrightarrow> number v < number w) \<Longrightarrow> grows frozen parent number vs (vs @ [w])"
  unfolding grows_def by (rule exI [of _ id], rule exI [of _ "[w]"]) simp

text \<open>An update that keeps the keys, and the insertion of a version with a new number.\<close>

lemma update_grows:
  assumes "unclashed clash vs" "\<And>x y. clash (f y) (f x) \<Longrightarrow> clash y x"
    "\<And>v. v \<in> set vs \<Longrightarrow> (frozen v \<longrightarrow> f v = v) \<and> parent (f v) = parent v \<and> number (f v) = number v"
  shows "unclashed clash (map f vs) \<and> grows frozen parent number vs (map f vs)"
  using unclashed_map [OF assms(1), of f] assms(2) grows_map [OF assms(3)] by blast

lemma insert_grows:
  assumes "unclashed clash vs" "sql_insert clash w vs = Inr ws"
    "\<And>v. v \<in> set vs \<Longrightarrow> parent v = parent w \<Longrightarrow> number v < number w"
  shows "unclashed clash ws \<and> grows frozen parent number vs ws \<and> ws = vs @ [w]"
proof -
  have "ws = vs @ [w]" using assms(2) by (simp add: sql_insert_Inr)
  with unclashed_insert [OF assms(2,1)] grows_snoc [of vs parent w number frozen, OF assms(3)] show ?thesis by simp
qed

locale version_history =
  fixes step :: "'op \<Rightarrow> 'd \<Rightarrow> 'd"
    and versions :: "'d \<Rightarrow> 'v list"
    and parent :: "'v \<Rightarrow> uuid"
    and number :: "'v \<Rightarrow> nat"
    and frozen :: "'v \<Rightarrow> bool"
    and wf :: "'d \<Rightarrow> bool"
    and good :: "'op \<Rightarrow> 'd \<Rightarrow> bool"
  assumes wf_step: "wf d \<Longrightarrow> good x d \<Longrightarrow> wf (step x d)"
    and appended: "wf d \<Longrightarrow> good x d \<Longrightarrow> grows frozen parent number (versions d) (versions (step x d))"
begin

lemma wf_run: "wf d \<Longrightarrow> all_good good step xs d \<Longrightarrow> wf (fold step xs d)"
  by (induction xs arbitrary: d) (auto intro: wf_step)

text \<open>A final version stays as it is, and a version that was not there has a greater number than every version its parent had.\<close>

lemma frozen_step:
  assumes "wf d" "good x d" "v \<in> set (versions d)" "frozen v"
  shows "v \<in> set (versions (step x d))"
proof -
  from appended [OF assms(1,2), unfolded grows_def] obtain f new where f: "versions (step x d) = map f (versions d) @ new"
      "\<forall>v\<in>set (versions d). (frozen v \<longrightarrow> f v = v) \<and> parent (f v) = parent v \<and> number (f v) = number v" by blast
  from f(2) assms(3,4) have "f v = v" by blast
  with f(1) assms(3) show ?thesis by (auto intro: rev_image_eqI)
qed

lemma frozen_kept:
  "wf d \<Longrightarrow> all_good good step xs d \<Longrightarrow> v \<in> set (versions d) \<Longrightarrow> frozen v \<Longrightarrow> v \<in> set (versions (fold step xs d))"
  by (induction xs arbitrary: d) (auto intro: wf_step frozen_step)

lemma numbers_kept:
  "wf d \<Longrightarrow> all_good good step xs d \<Longrightarrow> w \<in> set (versions (fold step xs d)) \<Longrightarrow>
   (\<exists>v\<in>set (versions d). parent v = parent w \<and> number v = number w) \<or>
   (\<forall>v\<in>set (versions d). parent v = parent w \<longrightarrow> number v < number w)"
proof (induction xs arbitrary: d)
  case Nil
  then show ?case by auto
next
  case (Cons x xs)
  then have w: "wf d" "good x d" "wf (step x d)" "all_good good step xs (step x d)" by (auto intro: wf_step)
  from appended [OF w(1,2), unfolded grows_def] obtain f new where f: "versions (step x d) = map f (versions d) @ new"
      "\<forall>v\<in>set (versions d). (frozen v \<longrightarrow> f v = v) \<and> parent (f v) = parent v \<and> number (f v) = number v"
      "\<forall>w\<in>set new. \<forall>v\<in>set (versions d). parent v = parent w \<longrightarrow> number v < number w" by blast
  from Cons.IH [OF w(3,4)] Cons.prems(3)
  consider (old) u where "u \<in> set (versions (step x d))" "parent u = parent w" "number u = number w"
    | (new) "\<forall>v\<in>set (versions (step x d)). parent v = parent w \<longrightarrow> number v < number w" by auto
  then show ?case
  proof cases
    case old
    from old(1) f(1) consider v where "v \<in> set (versions d)" "u = f v" | "u \<in> set new" by auto
    then show ?thesis
      by cases (use old f in \<open>metis, metis\<close>)
  next
    case new
    have "number v < number w" if "v \<in> set (versions d)" "parent v = parent w" for v
      using new f that by (metis UnCI image_eqI list.set_map set_append)
    then show ?thesis by blast
  qed
qed

end

end
