(* ===== verification/Agent_Catalog.thy ===== *)
theory Agent_Catalog
  imports Preset_Model
begin

text \<open>
  The repository of agents (\<open>app/preset/repository.py\<close>): identities, the sequence of versions, sharing, and the one statement that
  decides what a user may refer to. Writing a draft is a read and a later commit in one session, so both phases are operations of their
  own beside their composition; every other call is one statement or one transaction that only it can disturb. The collation of names
  and the fresh identifiers are arguments.
\<close>

section \<open>Values\<close>

datatype AgentSource = OWNED | FROM_GROUP | CATALOG

record AgentVersion =
  av_id :: string
  av_number :: nat
  av_status :: VersionStatus
  av_prompt :: string
  av_skills :: "SkillReference list option"
  av_subagents :: "SubagentReference list option"
  av_mcps :: "McpReference list option"
  av_created :: datetime
  av_released :: "datetime option"

record Agent =
  ag_id :: string
  ag_owner :: string
  ag_name :: string
  ag_description :: string
  ag_subject :: string
  ag_visibility :: Visibility
  ag_calls :: int
  ag_deleted :: bool
  ag_enabled :: bool
  ag_reason :: "string option"
  ag_disabled_by :: "string option"
  ag_disabled_at :: "datetime option"
  ag_created :: datetime
  ag_updated :: datetime

record AgentDetail =
  ad_agent :: Agent
  ad_owner_name :: string
  ad_versions :: "AgentVersion list"
  ad_groups :: "string list"

record AgentListing =
  al_id :: string
  al_owner :: string
  al_owner_name :: string
  al_name :: string
  al_description :: string
  al_subject :: string
  al_visibility :: Visibility
  al_calls :: int
  al_version :: nat
  al_prompt :: string
  al_skills :: "SkillReference list option"
  al_subagents :: "SubagentReference list option"
  al_mcps :: "McpReference list option"
  al_source :: AgentSource
  al_updated :: datetime

record ResolvedAgent =
  ra_id :: string
  ra_name :: string
  ra_version :: nat
  ra_prompt :: string
  ra_skills :: "SkillReference list option"
  ra_subagents :: "SubagentReference list option"
  ra_mcps :: "McpReference list option"

record SubagentDefinition =
  sd_description :: string
  sd_prompt :: string

text \<open>An empty list of references is stored as \<open>NULL\<close> and read as none.\<close>

definition dump_refs :: "'r list option \<Rightarrow> 'r list option" where
  "dump_refs refs = (if refs = Some [] then None else refs)"

definition load_refs :: "'r list option \<Rightarrow> 'r list option" where
  "load_refs raw = (if raw = Some [] then None else raw)"

definition to_agent :: "AgentRecord \<Rightarrow> Agent" where
  "to_agent r =
     \<lparr>ag_id = uuid_hex (a_pk r), ag_owner = uuid_hex (a_owner r), ag_name = a_name r, ag_description = a_description r,
      ag_subject = a_subject r, ag_visibility = a_visibility r, ag_calls = a_calls r, ag_deleted = a_deleted r,
      ag_enabled = a_enabled r, ag_reason = a_reason r, ag_disabled_by = map_option uuid_hex (a_disabled_by r),
      ag_disabled_at = a_disabled_at r, ag_created = a_created r, ag_updated = a_updated r\<rparr>"

definition to_version :: "AgentVersionRecord \<Rightarrow> AgentVersion" where
  "to_version r =
     \<lparr>av_id = uuid_hex (v_pk r), av_number = v_number r, av_status = v_status r, av_prompt = v_prompt r,
      av_skills = load_refs (v_skills r), av_subagents = load_refs (v_subagents r), av_mcps = load_refs (v_mcps r),
      av_created = v_created r, av_released = v_released r\<rparr>"

section \<open>Writing\<close>

text \<open>The content of a version as the calls take it.\<close>

record AgentContent =
  ac_prompt :: string
  ac_skills :: "SkillReference list option"
  ac_subagents :: "SubagentReference list option"
  ac_mcps :: "McpReference list option"

definition agent_row :: "'a PresetDb_scheme \<Rightarrow> uuid \<Rightarrow> AgentRecord option" where
  "agent_row db i = find (\<lambda>r. a_pk r = i) (agents db)"

definition new_version :: "uuid \<Rightarrow> uuid \<Rightarrow> nat \<Rightarrow> AgentContent \<Rightarrow> datetime \<Rightarrow> AgentVersionRecord" where
  "new_version new_id agent number c now =
     \<lparr>v_pk = new_id, v_agent = agent, v_number = number, v_status = DRAFT, v_prompt = ac_prompt c,
      v_skills = dump_refs (ac_skills c), v_subagents = dump_refs (ac_subagents c), v_mcps = dump_refs (ac_mcps c),
      v_created = now, v_released = None\<rparr>"

text \<open>\<open>create\<close>: a malformed owner raises; any \<open>IntegrityError\<close> of the two inserts is answered with \<open>None\<close>.\<close>

definition create_agent ::
    "uuid \<Rightarrow> uuid \<Rightarrow> string \<Rightarrow> string \<Rightarrow> string \<Rightarrow> string \<Rightarrow> AgentContent \<Rightarrow> datetime \<Rightarrow> 'a PresetDb_scheme \<Rightarrow>
     (Agent option \<times> 'a PresetDb_scheme) result" where
  "create_agent new_id version_id owner_id name description subject c now db =
     (case UUID owner_id of
        None \<Rightarrow> Inl ValueError
      | Some owner \<Rightarrow>
          let r = \<lparr>a_pk = new_id, a_owner = owner, a_name = name, a_description = description, a_subject = subject,
                   a_visibility = PRIVATE, a_calls = 0, a_deleted = False, a_enabled = True, a_reason = None,
                   a_disabled_by = None, a_disabled_at = None, a_created = now, a_updated = now\<rparr> in
          if user_row db owner = None then Inr (None, db)
          else case sql_insert agent_clash r (agents db) of
                 Inl _ \<Rightarrow> Inr (None, db)
               | Inr rows \<Rightarrow>
                   (case sql_insert version_clash (new_version version_id new_id FIRST_VERSION c now) (agent_versions db) of
                      Inl _ \<Rightarrow> Inr (None, db)
                    | Inr vs \<Rightarrow> Inr (Some (to_agent r), db\<lparr>agents := rows, agent_versions := vs\<rparr>)))"

definition get_agent :: "string \<Rightarrow> string \<Rightarrow> 'a PresetDb_scheme \<Rightarrow> Agent option" where
  "get_agent ident owner_id db =
     (case (UUID ident, UUID owner_id) of
        (Some i, Some owner) \<Rightarrow>
          (case agent_row db i of
             None \<Rightarrow> None
           | Some r \<Rightarrow> if a_owner r \<noteq> owner then None else Some (to_agent r))
      | _ \<Rightarrow> None)"

text \<open>The row a writing call may change.\<close>

definition writable :: "string \<Rightarrow> string \<Rightarrow> 'a PresetDb_scheme \<Rightarrow> AgentRecord option" where
  "writable ident owner_id db =
     (case (UUID ident, UUID owner_id) of
        (Some i, Some owner) \<Rightarrow>
          (case agent_row db i of
             None \<Rightarrow> None
           | Some r \<Rightarrow> if a_owner r \<noteq> owner \<or> a_deleted r then None else Some r)
      | _ \<Rightarrow> None)"

definition put_agent :: "uuid \<Rightarrow> (AgentRecord \<Rightarrow> AgentRecord) \<Rightarrow> 'a PresetDb_scheme \<Rightarrow> 'a PresetDb_scheme" where
  "put_agent i f db = db\<lparr>agents := map (\<lambda>x. if a_pk x = i then f x else x) (agents db)\<rparr>"

definition update_meta ::
    "string \<Rightarrow> string \<Rightarrow> string \<Rightarrow> string \<Rightarrow> string \<Rightarrow> datetime \<Rightarrow> 'a PresetDb_scheme \<Rightarrow> Agent option \<times> 'a PresetDb_scheme" where
  "update_meta ident owner_id name description subject now db =
     (case writable ident owner_id db of
        None \<Rightarrow> (None, db)
      | Some r \<Rightarrow>
          let f = (\<lambda>x. x\<lparr>a_name := name, a_description := description, a_subject := subject, a_updated := now\<rparr>) in
          if \<exists>x\<in>set (agents db). a_pk x \<noteq> a_pk r \<and> agent_clash (f r) x then (None, db)
          else (Some (to_agent (f r)), put_agent (a_pk r) f db))"

text \<open>\<open>write_draft\<close>, first phase: the draft it found, or the number of the version it will add. The second phase writes the row it
  found by its key, or inserts the new one; \<open>IntegrityError\<close> is not caught.\<close>

datatype draft_plan = EditDraft AgentVersionRecord | AddDraft nat

definition draft_read :: "string \<Rightarrow> string \<Rightarrow> 'a PresetDb_scheme \<Rightarrow> (uuid \<times> draft_plan) option" where
  "draft_read ident owner_id db =
     (case writable ident owner_id db of
        None \<Rightarrow> None
      | Some r \<Rightarrow>
          let own = filter (\<lambda>v. v_agent v = a_pk r) (agent_versions db) in
          Some (a_pk r,
            case find (\<lambda>v. v_status v = DRAFT) own of
              Some v \<Rightarrow> EditDraft v
            | None \<Rightarrow> AddDraft (fold max (map v_number own) 0 + 1)))"

definition edited :: "AgentContent \<Rightarrow> AgentVersionRecord \<Rightarrow> AgentVersionRecord" where
  "edited c v = v\<lparr>v_prompt := ac_prompt c, v_skills := dump_refs (ac_skills c), v_subagents := dump_refs (ac_subagents c),
     v_mcps := dump_refs (ac_mcps c)\<rparr>"

definition draft_commit ::
    "uuid \<Rightarrow> uuid \<Rightarrow> draft_plan \<Rightarrow> AgentContent \<Rightarrow> datetime \<Rightarrow> 'a PresetDb_scheme \<Rightarrow> (AgentVersion \<times> 'a PresetDb_scheme) result" where
  "draft_commit new_id i plan c now db =
     (case plan of
        EditDraft v \<Rightarrow>
          Inr (to_version (edited c v), put_agent i (\<lambda>x. x\<lparr>a_updated := now\<rparr>)
            (db\<lparr>agent_versions := map (\<lambda>x. if v_pk x = v_pk v then edited c x else x) (agent_versions db)\<rparr>))
      | AddDraft number \<Rightarrow>
          let v = new_version new_id i number c now in
          result_bind (sql_insert version_clash v (agent_versions db)) (\<lambda>vs.
            Inr (to_version v, put_agent i (\<lambda>x. x\<lparr>a_updated := now\<rparr>) (db\<lparr>agent_versions := vs\<rparr>))))"

definition write_draft ::
    "uuid \<Rightarrow> string \<Rightarrow> string \<Rightarrow> AgentContent \<Rightarrow> datetime \<Rightarrow> 'a PresetDb_scheme \<Rightarrow> (AgentVersion option \<times> 'a PresetDb_scheme) result" where
  "write_draft new_id ident owner_id c now db =
     (case draft_read ident owner_id db of
        None \<Rightarrow> Inr (None, db)
      | Some (i, plan) \<Rightarrow> result_bind (draft_commit new_id i plan c now db) (\<lambda>(v, db'). Inr (Some v, db')))"

definition release ::
    "string \<Rightarrow> string \<Rightarrow> datetime \<Rightarrow> 'a PresetDb_scheme \<Rightarrow> AgentVersion option \<times> 'a PresetDb_scheme" where
  "release ident owner_id now db =
     (case (UUID ident, UUID owner_id) of
        (Some i, Some owner) \<Rightarrow>
          (case sql_update_returning
                  (\<lambda>v. v_agent v = i \<and> v_status v = DRAFT \<and>
                       (\<exists>r\<in>set (agents db). a_pk r = i \<and> a_owner r = owner \<and> \<not> a_deleted r))
                  (\<lambda>v. v\<lparr>v_status := RELEASED, v_released := Some now\<rparr>) (agent_versions db) of
             (_, []) \<Rightarrow> (None, db)
           | (vs, v # _) \<Rightarrow> (Some (to_version v), put_agent i (\<lambda>x. x\<lparr>a_updated := now\<rparr>) (db\<lparr>agent_versions := vs\<rparr>)))
      | _ \<Rightarrow> (None, db))"

text \<open>\<open>set_sharing\<close>: one transaction of three statements; a group that does not exist breaks it.\<close>

definition set_sharing ::
    "string \<Rightarrow> string \<Rightarrow> Visibility \<Rightarrow> string list \<Rightarrow> datetime \<Rightarrow> 'a PresetDb_scheme \<Rightarrow> (Agent option \<times> 'a PresetDb_scheme) result" where
  "set_sharing ident owner_id visibility group_ids now db =
     (case writable ident owner_id db of
        None \<Rightarrow> Inr (None, db)
      | Some r \<Rightarrow>
          let wanted = sort (remdups (List.map_filter UUID group_ids));
              db' = put_agent (a_pk r) (\<lambda>x. x\<lparr>a_visibility := visibility, a_updated := now\<rparr>) db;
              kept = filter (\<lambda>s. \<not> (rg_kind s = KIND_AGENT \<and> rg_resource s = a_pk r)) (shares db)
          in if \<exists>g\<in>set wanted. group_row db g = None then Inl IntegrityError
             else let db'' = db'\<lparr>shares := kept @
                    map (\<lambda>g. \<lparr>rg_kind = KIND_AGENT, rg_resource = a_pk r, rg_group_fk = g\<rparr>) wanted\<rparr>
                  in Inr (get_agent ident owner_id db'', db''))"

definition soft_delete :: "string \<Rightarrow> string \<Rightarrow> datetime \<Rightarrow> 'a PresetDb_scheme \<Rightarrow> bool \<times> 'a PresetDb_scheme" where
  "soft_delete ident owner_id now db =
     (case writable ident owner_id db of
        None \<Rightarrow> (False, db)
      | Some r \<Rightarrow> (True, put_agent (a_pk r) (\<lambda>x. x\<lparr>a_deleted := True, a_updated := now\<rparr>) db))"

text \<open>The columns a catalogue switch sets.\<close>

definition set_catalog_enabled ::
    "string \<Rightarrow> bool \<Rightarrow> string option \<Rightarrow> string \<Rightarrow> datetime \<Rightarrow> 'a PresetDb_scheme \<Rightarrow> (bool \<times> 'a PresetDb_scheme) result" where
  "set_catalog_enabled ident enabled reason actor_id now db =
     (case (UUID ident, UUID actor_id) of
        (Some i, Some actor) \<Rightarrow>
          (case agent_row db i of
             None \<Rightarrow> Inr (False, db)
           | Some r \<Rightarrow>
               if a_deleted r then Inr (False, db)
               else if \<not> enabled \<and> user_row db actor = None then Inl IntegrityError
               else Inr (True, put_agent i
                 (\<lambda>x. x\<lparr>a_enabled := enabled, a_reason := (if enabled then None else reason),
                        a_disabled_by := (if enabled then None else Some actor),
                        a_disabled_at := (if enabled then None else Some now), a_updated := now\<rparr>) db))
      | _ \<Rightarrow> Inr (False, db))"

definition count_call :: "string \<Rightarrow> 'a PresetDb_scheme \<Rightarrow> 'a PresetDb_scheme" where
  "count_call ident db =
     (case UUID ident of None \<Rightarrow> db | Some i \<Rightarrow> put_agent i (\<lambda>x. x\<lparr>a_calls := a_calls x + 1\<rparr>) db)"

section \<open>What a user sees\<close>

definition latest_released :: "'a PresetDb_scheme \<Rightarrow> uuid \<Rightarrow> AgentVersionRecord option" where
  "latest_released db i = latest v_number (filter (\<lambda>v. v_agent v = i \<and> v_status v = RELEASED) (agent_versions db))"

definition latest_approved :: "'a PresetDb_scheme \<Rightarrow> uuid \<Rightarrow> AgentVersionRecord option" where
  "latest_approved db i =
     latest v_number (filter (\<lambda>v. v_agent v = i \<and> approved_target KIND_AGENT db (v_pk v)) (agent_versions db))"

text \<open>\<open>_available_statement\<close>, for one row of \<open>agents\<close>: the version and the reason it is shown for. The join with \<open>users\<close> drops a row
  without an owner.\<close>

definition available :: "uuid \<Rightarrow> 'a PresetDb_scheme \<Rightarrow> AgentRecord \<Rightarrow> (AgentVersionRecord \<times> AgentSource) option" where
  "available user db a =
     (let released = latest_released db (a_pk a);
          approved = latest_approved db (a_pk a);
          mine = a_owner a = user;
          group_shared = a_visibility a = GROUP \<and> shared_with KIND_AGENT user db (a_pk a);
          first_hand = (mine \<or> group_shared) \<and> released \<noteq> None;
          in_catalog = approved \<noteq> None \<and> a_enabled a;
          use_first_hand = first_hand \<and> \<not> in_catalog
      in if user_row db (a_owner a) = None \<or> a_deleted a \<or> \<not> (first_hand \<or> in_catalog) then None
         else map_option (\<lambda>v. (v, if in_catalog then CATALOG else if group_shared then FROM_GROUP else OWNED))
                (if use_first_hand then released else approved))"

definition to_listing :: "'a PresetDb_scheme \<Rightarrow> AgentRecord \<Rightarrow> AgentVersionRecord \<times> AgentSource \<Rightarrow> AgentListing" where
  "to_listing db a = (\<lambda>(v, source).
     \<lparr>al_id = uuid_hex (a_pk a), al_owner = uuid_hex (a_owner a),
      al_owner_name = (case user_row db (a_owner a) of None \<Rightarrow> [] | Some u \<Rightarrow> u_name u), al_name = a_name a,
      al_description = a_description a, al_subject = a_subject a, al_visibility = a_visibility a, al_calls = a_calls a,
      al_version = v_number v, al_prompt = v_prompt v, al_skills = load_refs (v_skills v), al_subagents = load_refs (v_subagents v),
      al_mcps = load_refs (v_mcps v), al_source = source, al_updated = a_updated a\<rparr>)"

definition list_available :: "(string \<Rightarrow> 'k::linorder) \<Rightarrow> string \<Rightarrow> 'a PresetDb_scheme \<Rightarrow> AgentListing list" where
  "list_available coll user_id db =
     (case UUID user_id of
        None \<Rightarrow> []
      | Some user \<Rightarrow> List.map_filter (\<lambda>a. map_option (to_listing db a) (available user db a))
          (sort_key (\<lambda>a. (- a_calls a, coll (a_name a))) (agents db)))"

definition list_subagent_candidates :: "(string \<Rightarrow> 'k::linorder) \<Rightarrow> string \<Rightarrow> 'a PresetDb_scheme \<Rightarrow> AgentListing list" where
  "list_subagent_candidates coll user_id db =
     filter (\<lambda>l. al_subagents l = None \<or> al_subagents l = Some []) (list_available coll user_id db)"

text \<open>\<open>ORDER BY call_count DESC, released_at DESC\<close>; \<open>NULL\<close> comes first in descending order.\<close>

definition list_catalog :: "'a PresetDb_scheme \<Rightarrow> AgentListing list" where
  "list_catalog db =
     map (\<lambda>(a, v). to_listing db a (v, CATALOG))
       (sort_key (\<lambda>(a, v). (- a_calls a, map_option uminus (v_released v)))
         (List.map_filter (\<lambda>a. if user_row db (a_owner a) = None \<or> a_deleted a \<or> \<not> a_enabled a then None
                               else map_option (Pair a) (latest_approved db (a_pk a))) (agents db)))"

text \<open>\<open>_assemble\<close> for one row; hexadecimal texts of one length are ordered as the numbers they stand for.\<close>

definition assemble :: "'a PresetDb_scheme \<Rightarrow> AgentRecord \<Rightarrow> AgentDetail" where
  "assemble db a =
     \<lparr>ad_agent = to_agent a,
      ad_owner_name = (case user_row db (a_owner a) of None \<Rightarrow> [] | Some u \<Rightarrow> u_name u),
      ad_versions = map to_version (sort_key v_number (filter (\<lambda>v. v_agent v = a_pk a) (agent_versions db))),
      ad_groups = map uuid_hex (sort (map rg_group_fk (filter (\<lambda>s. rg_kind s = KIND_AGENT \<and> rg_resource s = a_pk a) (shares db))))\<rparr>"

definition detail :: "string \<Rightarrow> string \<Rightarrow> 'a PresetDb_scheme \<Rightarrow> AgentDetail option" where
  "detail ident owner_id db =
     (case (UUID ident, UUID owner_id) of
        (Some i, Some owner) \<Rightarrow>
          (case agent_row db i of
             None \<Rightarrow> None
           | Some r \<Rightarrow> if a_owner r \<noteq> owner then None else Some (assemble db r))
      | _ \<Rightarrow> None)"

definition list_owned :: "string \<Rightarrow> 'a PresetDb_scheme \<Rightarrow> AgentDetail list" where
  "list_owned user_id db =
     (case UUID user_id of
        None \<Rightarrow> []
      | Some owner \<Rightarrow> map (assemble db) (sort_key (\<lambda>a. - a_updated a) (filter (\<lambda>a. a_owner a = owner) (agents db))))"

definition resolve :: "string \<Rightarrow> string \<Rightarrow> 'a PresetDb_scheme \<Rightarrow> ResolvedAgent option" where
  "resolve ident user_id db =
     (case (UUID ident, UUID user_id) of
        (Some i, Some user) \<Rightarrow>
          Option.bind (find (\<lambda>a. a_pk a = i \<and> available user db a \<noteq> None) (agents db)) (\<lambda>a.
            map_option (\<lambda>(v, _).
              \<lparr>ra_id = uuid_hex (a_pk a), ra_name = a_name a, ra_version = v_number v, ra_prompt = v_prompt v,
               ra_skills = load_refs (v_skills v), ra_subagents = load_refs (v_subagents v), ra_mcps = load_refs (v_mcps v)\<rparr>)
            (available user db a))
      | _ \<Rightarrow> None)"

definition load_subagent :: "string \<Rightarrow> nat \<Rightarrow> 'a PresetDb_scheme \<Rightarrow> SubagentDefinition option" where
  "load_subagent ident version db =
     Option.bind (UUID ident) (\<lambda>i.
     Option.bind (agent_row db i) (\<lambda>a.
     map_option (\<lambda>v. \<lparr>sd_description = a_description a, sd_prompt = v_prompt v\<rparr>)
       (find (\<lambda>v. v_agent v = i \<and> v_number v = version) (agent_versions db))))"


section \<open>The tables stay consistent\<close>

definition agents_ok :: "'a PresetDb_scheme \<Rightarrow> bool" where
  "agents_ok db \<longleftrightarrow> unclashed agent_clash (agents db) \<and> unclashed version_clash (agent_versions db) \<and>
     (\<forall>a\<in>set (agents db). a_pk a < 2 ^ 128 \<and> user_row db (a_owner a) \<noteq> None) \<and>
     (\<forall>v\<in>set (agent_versions db). v_agent v \<in> a_pk ` set (agents db))"

lemma agents_distinct: "agents_ok db \<Longrightarrow> distinct (map a_pk (agents db))"
  unfolding agents_ok_def by (rule unclashed_distinct [of agent_clash]) (auto simp: agent_clash_def)

lemma agent_row_in: "agent_row db i = Some r \<Longrightarrow> r \<in> set (agents db) \<and> a_pk r = i"
  unfolding agent_row_def by (auto dest: find_in)

lemma writable_row: "writable ident owner_id db = Some r \<Longrightarrow>
    r \<in> set (agents db) \<and> \<not> a_deleted r \<and> UUID ident = Some (a_pk r) \<and> UUID owner_id = Some (a_owner r) \<and> agent_row db (a_pk r) = Some r"
  unfolding writable_def by (auto split: option.splits if_splits dest: agent_row_in)

lemma user_row_agents [simp]:
  "user_row (db\<lparr>agents := x\<rparr>) u = user_row db u" "user_row (db\<lparr>agent_versions := y\<rparr>) u = user_row db u"
  "user_row (db\<lparr>shares := z\<rparr>) u = user_row db u" "user_row (put_agent i f db) u = user_row db u"
  by (simp_all add: user_row_def put_agent_def)

lemma put_agent_sels [simp]:
  "agent_versions (put_agent i f db) = agent_versions db" "reviews (put_agent i f db) = reviews db"
  "shares (put_agent i f db) = shares db" "users (put_agent i f db) = users db"
  "agents (put_agent i f db) = map (\<lambda>x. if a_pk x = i then f x else x) (agents db)"
  by (simp_all add: put_agent_def)

text \<open>A change of identity rows keeps the tables consistent when keys and owners stay and no new name arises, or the new name is free.\<close>

lemma put_agent_ok:
  assumes "agents_ok db" "\<And>x. a_pk (f x) = a_pk x" "\<And>x. a_owner (f x) = a_owner x"
    "\<And>x y. x \<in> set (agents db) \<Longrightarrow> y \<in> set (agents db) \<Longrightarrow> a_pk x = i \<Longrightarrow> a_pk y \<noteq> i \<Longrightarrow> agent_clash (f x) y \<Longrightarrow> agent_clash x y"
  shows "agents_ok (put_agent i f db)"
proof -
  let ?f = "\<lambda>x. if a_pk x = i then f x else x"
  have pk: "a_pk (?f x) = a_pk x" "a_owner (?f x) = a_owner x" for x using assms(2,3) by simp_all
  have "unclashed agent_clash (map ?f (agents db))"
  proof (rule unclashed_map)
    show "unclashed agent_clash (agents db)" using assms(1) by (simp add: agents_ok_def)
    fix x y
    assume xy: "x \<in> set (agents db)" "y \<in> set (agents db)" "agent_clash (?f y) (?f x)"
    consider "a_pk x = i" "a_pk y = i" | "a_pk x \<noteq> i" "a_pk y \<noteq> i" | "a_pk x = i" "a_pk y \<noteq> i" | "a_pk x \<noteq> i" "a_pk y = i" by blast
    then show "agent_clash y x"
    proof cases
      case 1
      then show ?thesis by (simp add: agent_clash_def)
    next
      case 2
      with xy show ?thesis by simp
    next
      case 3
      with xy assms(4) [of x y] show ?thesis by (auto dest: clash_sym)
    next
      case 4
      with xy assms(4) [of y x] show ?thesis by auto
    qed
  qed
  moreover have "a_pk ` ?f ` set (agents db) = a_pk ` set (agents db)" by (simp only: image_image pk)
  ultimately show ?thesis using assms(1-3) by (auto simp: agents_ok_def simp del: if_image_distrib)
qed

lemma touch_agent_ok: "agents_ok db \<Longrightarrow> agents_ok (put_agent i (\<lambda>x. x\<lparr>a_updated := now\<rparr>) db)"
  by (rule put_agent_ok) (auto simp: agent_clash_def)

lemma versions_changed_ok:
  "agents_ok db \<Longrightarrow> unclashed version_clash vs \<Longrightarrow> v_agent ` set vs \<subseteq> a_pk ` set (agents db) \<Longrightarrow> agents_ok (db\<lparr>agent_versions := vs\<rparr>)"
  by (auto simp: agents_ok_def)

lemma shares_changed_ok: "agents_ok db \<Longrightarrow> agents_ok (db\<lparr>shares := s\<rparr>)"
  by (auto simp: agents_ok_def)


section \<open>Released versions stay\<close>

text \<open>The calls that write, each as one step; a call that raises changes nothing. \<open>CommitDraft\<close> is the second phase of a draft that
  was read earlier.\<close>

datatype agent_op =
    NewAgent uuid uuid string string string string AgentContent datetime
  | Meta string string string string string datetime
  | WriteDraft uuid string string AgentContent datetime
  | CommitDraft uuid uuid draft_plan AgentContent datetime
  | Release string string datetime
  | Share string string Visibility "string list" datetime
  | Delete string string datetime
  | Switch string bool "string option" string datetime
  | Count string

fun agent_step :: "agent_op \<Rightarrow> 'a PresetDb_scheme \<Rightarrow> 'a PresetDb_scheme" where
  "agent_step (NewAgent i j oid n d s c now) db = (case create_agent i j oid n d s c now db of Inl _ \<Rightarrow> db | Inr r \<Rightarrow> snd r)"
| "agent_step (Meta i oid n d s now) db = snd (update_meta i oid n d s now db)"
| "agent_step (WriteDraft j i oid c now) db = (case write_draft j i oid c now db of Inl _ \<Rightarrow> db | Inr r \<Rightarrow> snd r)"
| "agent_step (CommitDraft j i plan c now) db = (case draft_commit j i plan c now db of Inl _ \<Rightarrow> db | Inr r \<Rightarrow> snd r)"
| "agent_step (Release i oid now) db = snd (release i oid now db)"
| "agent_step (Share i oid v gs now) db = (case set_sharing i oid v gs now db of Inl _ \<Rightarrow> db | Inr r \<Rightarrow> snd r)"
| "agent_step (Delete i oid now) db = snd (soft_delete i oid now db)"
| "agent_step (Switch i e r aid now) db = (case set_catalog_enabled i e r aid now db of Inl _ \<Rightarrow> db | Inr r \<Rightarrow> snd r)"
| "agent_step (Count i) db = count_call i db"

text \<open>A plan the table still agrees with: the row it edits is still a draft, the number it adds is still the next or already taken, and
  the agent it was made for is there. A new identifier is one of 128 bits.\<close>

fun plan_fresh :: "agent_op \<Rightarrow> 'a PresetDb_scheme \<Rightarrow> bool" where
  "plan_fresh (CommitDraft j i plan c now) db \<longleftrightarrow> i \<in> a_pk ` set (agents db) \<and>
     (case plan of
        EditDraft v \<Rightarrow> \<forall>x\<in>set (agent_versions db). v_pk x = v_pk v \<longrightarrow> v_status x = DRAFT
      | AddDraft n \<Rightarrow> \<forall>x\<in>set (agent_versions db). v_agent x = i \<longrightarrow>
          v_number x < n \<or> (\<exists>y\<in>set (agent_versions db). v_agent y = i \<and> v_number y = n))"
| "plan_fresh (NewAgent i j oid n d s c now) db \<longleftrightarrow> i < 2 ^ 128"
| "plan_fresh _ db \<longleftrightarrow> True"

abbreviation versions_grow :: "AgentVersionRecord list \<Rightarrow> AgentVersionRecord list \<Rightarrow> bool" where
  "versions_grow \<equiv> grows (\<lambda>v. v_status v = RELEASED) v_agent v_number"

lemma new_version_sels [simp]:
  "v_pk (new_version j i n c now) = j" "v_agent (new_version j i n c now) = i" "v_number (new_version j i n c now) = n"
  "v_status (new_version j i n c now) = DRAFT"
  by (simp_all add: new_version_def)

lemma edited_sels [simp]:
  "v_pk (edited c v) = v_pk v" "v_agent (edited c v) = v_agent v" "v_number (edited c v) = v_number v" "v_status (edited c v) = v_status v"
  by (simp_all add: edited_def)

lemma commit_grows:
  assumes "agents_ok db" "plan_fresh (CommitDraft j i plan c now) db" "draft_commit j i plan c now db = Inr (x, db')"
  shows "agents_ok db' \<and> versions_grow (agent_versions db) (agent_versions db')"
proof (cases plan)
  case (EditDraft v)
  let ?f = "\<lambda>x. if v_pk x = v_pk v then edited c x else x"
  have db': "db' = put_agent i (\<lambda>x. x\<lparr>a_updated := now\<rparr>) (db\<lparr>agent_versions := map ?f (agent_versions db)\<rparr>)"
    using assms(3) EditDraft by (auto simp: draft_commit_def)
  have u: "unclashed version_clash (map ?f (agent_versions db))"
    by (rule unclashed_map) (use assms(1) in \<open>auto simp: agents_ok_def version_clash_def split: if_splits\<close>)
  have "agents_ok db'" unfolding db'
    by (rule touch_agent_ok, rule versions_changed_ok [OF assms(1) u]) (use assms(1) in \<open>auto simp: agents_ok_def\<close>)
  moreover have "versions_grow (agent_versions db) (map ?f (agent_versions db))"
    by (rule grows_map) (use assms(2) EditDraft in auto)
  ultimately show ?thesis by (simp add: db')
next
  case (AddDraft n)
  let ?v = "new_version j i n c now"
  from assms(3) AddDraft obtain vs where vs: "sql_insert version_clash ?v (agent_versions db) = Inr vs"
      and db': "db' = put_agent i (\<lambda>x. x\<lparr>a_updated := now\<rparr>) (db\<lparr>agent_versions := vs\<rparr>)"
    by (auto simp: draft_commit_def Let_def result_bind_Inr_iff)
  have snoc: "vs = agent_versions db @ [?v]" "\<And>x. x \<in> set (agent_versions db) \<Longrightarrow> \<not> version_clash ?v x"
    using vs by (auto simp: sql_insert_Inr)
  have "agents_ok db'" unfolding db'
    by (rule touch_agent_ok, rule versions_changed_ok [OF assms(1) unclashed_insert [OF vs]])
      (use assms(1,2) snoc in \<open>auto simp: agents_ok_def\<close>)
  moreover have "versions_grow (agent_versions db) vs" unfolding snoc(1)
    by (rule grows_snoc) (use assms(2) AddDraft snoc(2) in \<open>fastforce simp: version_clash_def\<close>)
  ultimately show ?thesis by (simp add: db')
qed

lemma draft_read_fresh:
  assumes "agents_ok db" "draft_read ident oid db = Some (i, plan)"
  shows "plan_fresh (CommitDraft j i plan c now) db"
proof -
  from assms(2) obtain r where r: "writable ident oid db = Some r" "i = a_pk r"
    by (auto simp: draft_read_def Let_def split: option.splits)
  let ?own = "filter (\<lambda>v. v_agent v = a_pk r) (agent_versions db)"
  have d: "distinct (map v_pk (agent_versions db))"
    using assms(1) unfolding agents_ok_def by (intro unclashed_distinct [of version_clash]) (auto simp: version_clash_def)
  have le: "v_number v \<le> fold max (map v_number ?own) 0" if "v \<in> set ?own" for v
    by (rule le_fold_max) (use that in simp)
  from r assms(2) consider v where "find (\<lambda>v. v_status v = DRAFT) ?own = Some v" "plan = EditDraft v"
    | "plan = AddDraft (fold max (map v_number ?own) 0 + 1)"
    by (auto simp: draft_read_def Let_def split: option.splits)
  then show ?thesis
  proof cases
    case 1
    then have "v \<in> set (agent_versions db)" "v_status v = DRAFT" by (auto dest: find_in)
    with d have "v_status x = DRAFT" if "x \<in> set (agent_versions db)" "v_pk x = v_pk v" for x
      using that by (metis distinct_map inj_onD)
    with 1 r writable_row [OF r(1)] show ?thesis by auto
  next
    case 2
    with le r writable_row [OF r(1)] show ?thesis by (fastforce simp: less_Suc_eq_le)
  qed
qed


lemma create_agent_grows:
  assumes "agents_ok db" "i < 2 ^ 128" "create_agent i j oid n d s c now db = Inr (x, db')"
  shows "agents_ok db' \<and> versions_grow (agent_versions db) (agent_versions db')"
proof (cases "x = None")
  case True
  with assms(1,3) show ?thesis
    by (auto simp: create_agent_def Let_def split: option.splits if_splits sum.splits)
next
  case False
  from assms(3) obtain owner where o: "UUID oid = Some owner" by (auto simp: create_agent_def split: option.splits)
  define r where "r = \<lparr>a_pk = i, a_owner = owner, a_name = n, a_description = d, a_subject = s,
      a_visibility = PRIVATE, a_calls = 0, a_deleted = False, a_enabled = True, a_reason = None,
      a_disabled_by = None, a_disabled_at = None, a_created = now, a_updated = now\<rparr>"
  have r: "a_pk r = i" "a_owner r = owner" by (simp_all add: r_def)
  let ?v = "new_version j i FIRST_VERSION c now"
  from assms(3) False o obtain rows vs where u: "user_row db owner \<noteq> None" and rows: "sql_insert agent_clash r (agents db) = Inr rows"
      and vs: "sql_insert version_clash ?v (agent_versions db) = Inr vs" and db': "db' = db\<lparr>agents := rows, agent_versions := vs\<rparr>"
    by (auto simp: create_agent_def Let_def simp flip: r_def split: if_splits sum.splits)
  have sn: "rows = agents db @ [r]" "vs = agent_versions db @ [?v]" "\<And>a. a \<in> set (agents db) \<Longrightarrow> a_pk a \<noteq> i"
    using rows vs r by (auto simp: sql_insert_Inr agent_clash_def)
  have "agents_ok db'"
    using assms(1,2) u r unclashed_insert [OF rows] unclashed_insert [OF vs] by (auto simp: agents_ok_def db' sn)
  moreover have "versions_grow (agent_versions db) vs" unfolding sn(2)
    by (rule grows_snoc) (use assms(1) sn(3) in \<open>fastforce simp: agents_ok_def\<close>)
  ultimately show ?thesis by (simp add: db')
qed

lemma release_grows:
  assumes "agents_ok db" "release ident oid now db = (x, db')"
  shows "agents_ok db' \<and> versions_grow (agent_versions db) (agent_versions db')"
proof (cases "x = None")
  case True
  with assms show ?thesis by (auto simp: release_def split: option.splits prod.splits list.splits)
next
  case False
  define p where "p i owner = (\<lambda>v::AgentVersionRecord. v_agent v = i \<and> v_status v = DRAFT \<and> (\<exists>r\<in>set (agents db). a_pk r = i \<and> a_owner r = owner \<and> \<not> a_deleted r))" for i owner
  let ?f = "\<lambda>v::AgentVersionRecord. v\<lparr>v_status := RELEASED, v_released := Some now\<rparr>"
  from assms(2) False obtain i owner where io: "UUID ident = Some i" "UUID oid = Some owner"
    by (auto simp: release_def split: option.splits)
  have db': "db' = put_agent i (\<lambda>x. x\<lparr>a_updated := now\<rparr>) (db\<lparr>agent_versions := map (\<lambda>v. if p i owner v then ?f v else v) (agent_versions db)\<rparr>)"
    using assms(2) False io
    by (simp add: release_def sql_update_returning_def p_def [abs_def] split: list.splits prod.splits)
  have u: "unclashed version_clash (map (\<lambda>v. if p i owner v then ?f v else v) (agent_versions db))"
    by (rule unclashed_map) (use assms(1) in \<open>auto simp: agents_ok_def version_clash_def split: if_splits\<close>)
  have "agents_ok db'" unfolding db'
    by (rule touch_agent_ok, rule versions_changed_ok [OF assms(1) u]) (use assms(1) in \<open>auto simp: agents_ok_def\<close>)
  moreover have "versions_grow (agent_versions db) (map (\<lambda>v. if p i owner v then ?f v else v) (agent_versions db))"
    by (rule grows_map) (auto simp: p_def)
  ultimately show ?thesis by (simp add: db')
qed

lemma agent_step_grows:
  assumes ok: "agents_ok db" and good: "plan_fresh x db"
  shows "agents_ok (agent_step x db) \<and> versions_grow (agent_versions db) (agent_versions (agent_step x db))"
proof (cases x)
  case (NewAgent i j oid n d s c now)
  with good create_agent_grows [OF ok, of i] ok show ?thesis
    by (cases "create_agent i j oid n d s c now db") auto
next
  case (Meta i oid n d s now)
  show ?thesis
  proof (cases "writable i oid db")
    case None
    with ok Meta show ?thesis by (simp add: update_meta_def)
  next
    case (Some r)
    define f where "f = (\<lambda>x::AgentRecord. x\<lparr>a_name := n, a_description := d, a_subject := s, a_updated := now\<rparr>)"
    show ?thesis
    proof (cases "\<exists>x\<in>set (agents db). a_pk x \<noteq> a_pk r \<and> agent_clash (f r) x")
      case True
      with ok Meta Some show ?thesis by (simp add: update_meta_def f_def)
    next
      case False
      have r: "r \<in> set (agents db)" using writable_row [OF Some] by simp
      have "x = r" if "x \<in> set (agents db)" "a_pk x = a_pk r" for x
        using agents_distinct [OF ok] r that by (metis distinct_map inj_onD)
      with False have "agents_ok (put_agent (a_pk r) f db)"
        by (intro put_agent_ok [OF ok]) (auto simp: f_def)
      moreover have "agent_step x db = put_agent (a_pk r) f db" using False Meta Some by (auto simp: update_meta_def f_def)
      ultimately show ?thesis by simp
    qed
  qed
next
  case (WriteDraft j i oid c now)
  show ?thesis
  proof (cases "draft_read i oid db")
    case None
    with ok WriteDraft show ?thesis by (simp add: write_draft_def)
  next
    case (Some pr)
    obtain k plan where pr: "pr = (k, plan)" by fastforce
    note fr = draft_read_fresh [OF ok Some [unfolded pr], of j c now]
    show ?thesis
      using commit_grows [OF ok fr] Some pr ok WriteDraft
      by (cases "draft_commit j k plan c now db") (auto simp: write_draft_def)
  qed
next
  case (CommitDraft j i plan c now)
  then show ?thesis
    using commit_grows [OF ok, of j i plan c now] good ok by (cases "draft_commit j i plan c now db") auto
next
  case (Release i oid now)
  then show ?thesis using release_grows [OF ok, of i oid now] by (metis agent_step.simps(5) prod.collapse)
next
  case (Share i oid v gs now)
  have "agents_ok (put_agent k (\<lambda>x. x\<lparr>a_visibility := v, a_updated := now\<rparr>) db)" for k
    by (rule put_agent_ok [OF ok]) (auto simp: agent_clash_def)
  then show ?thesis using ok Share
    by (auto simp: set_sharing_def Let_def split: option.splits intro!: shares_changed_ok)
next
  case (Delete i oid now)
  have "agents_ok (put_agent k (\<lambda>x. x\<lparr>a_deleted := True, a_updated := now\<rparr>) db)" for k
    by (rule put_agent_ok [OF ok]) (auto simp: agent_clash_def)
  then show ?thesis using ok Delete by (auto simp: soft_delete_def split: option.splits)
next
  case (Switch i e r aid now)
  have "agents_ok (put_agent k (\<lambda>x. x\<lparr>a_enabled := e, a_reason := q1, a_disabled_by := q2, a_disabled_at := q3, a_updated := now\<rparr>) db)" for k q1 q2 q3
    by (rule put_agent_ok [OF ok]) (auto simp: agent_clash_def)
  then show ?thesis using ok Switch by (auto simp: set_catalog_enabled_def split: option.splits)
next
  case (Count i)
  have "agents_ok (put_agent k (\<lambda>x. x\<lparr>a_calls := a_calls x + 1\<rparr>) db)" for k
    by (rule put_agent_ok [OF ok]) (auto simp: agent_clash_def)
  then show ?thesis using ok Count by (auto simp: count_call_def split: option.splits)
qed

interpretation agent_history: version_history agent_step agent_versions v_agent v_number "\<lambda>v. v_status v = RELEASED" agents_ok plan_fresh
proof
  fix db :: "'a PresetDb_scheme" and x
  assume a: "agents_ok db" "plan_fresh x db"
  show "agents_ok (agent_step x db)" using agent_step_grows [OF a] by simp
  show "versions_grow (agent_versions db) (agent_versions (agent_step x db))" using agent_step_grows [OF a] by simp
qed

lemma version_unique:
  assumes "agents_ok db" "v \<in> set (agent_versions db)" "w \<in> set (agent_versions db)" "v_agent v = v_agent w" "v_number v = v_number w"
  shows "v = w"
  using assms unclashedD [of version_clash "agent_versions db" v w] clash_sym(2) by (auto simp: agents_ok_def version_clash_def)

lemma load_subagent_version:
  assumes "agents_ok db" "v \<in> set (agent_versions db)"
  shows "\<exists>d. load_subagent (uuid_hex (v_agent v)) (v_number v) db = Some \<lparr>sd_description = d, sd_prompt = v_prompt v\<rparr>"
proof -
  from assms obtain a where a: "a \<in> set (agents db)" "v_agent v = a_pk a" "a_pk a < 2 ^ 128" by (auto simp: agents_ok_def)
  have "agent_row db (a_pk a) = Some a"
    unfolding agent_row_def by (rule find_key [OF agents_distinct [OF assms(1)] a(1)])
  moreover have "find (\<lambda>w. v_agent w = a_pk a \<and> v_number w = v_number v) (agent_versions db) = Some v"
    by (rule find_unique) (use assms a(2) version_unique [OF assms(1)] in auto)
  ultimately show ?thesis using a by (simp add: load_subagent_def)
qed

text \<open>C13. Whatever the authors, reviewers and administrators do next, a released version stays word for word: its row is kept, and a run that
  refers to it by identifier and number reads the prompt it was submitted with. A version that appears later has a greater number than
  every version its agent had. The second phase of writing a draft is only assumed to find the draft it read still a draft.\<close>

theorem released_frozen:
  assumes "agents_ok db" "all_good plan_fresh agent_step xs db" "v \<in> set (agent_versions db)" "v_status v = RELEASED"
  shows "v \<in> set (agent_versions (fold agent_step xs db)) \<and>
    (\<exists>d. load_subagent (uuid_hex (v_agent v)) (v_number v) (fold agent_step xs db) = Some \<lparr>sd_description = d, sd_prompt = v_prompt v\<rparr>) \<and>
    (\<forall>w\<in>set (agent_versions (fold agent_step xs db)).
       (\<exists>u\<in>set (agent_versions db). v_agent u = v_agent w \<and> v_number u = v_number w) \<or>
       (\<forall>u\<in>set (agent_versions db). v_agent u = v_agent w \<longrightarrow> v_number u < v_number w))"
proof (intro conjI ballI)
  show k: "v \<in> set (agent_versions (fold agent_step xs db))" by (rule agent_history.frozen_kept [OF assms])
  show "\<exists>d. load_subagent (uuid_hex (v_agent v)) (v_number v) (fold agent_step xs db) = Some \<lparr>sd_description = d, sd_prompt = v_prompt v\<rparr>"
    by (rule load_subagent_version [OF agent_history.wf_run [OF assms(1,2)] k])
qed (rule agent_history.numbers_kept [OF assms(1,2)])

section \<open>What a reference means\<close>

definition resolved :: "AgentRecord \<Rightarrow> AgentVersionRecord \<Rightarrow> ResolvedAgent" where
  "resolved a v =
     \<lparr>ra_id = uuid_hex (a_pk a), ra_name = a_name a, ra_version = v_number v, ra_prompt = v_prompt v,
      ra_skills = load_refs (v_skills v), ra_subagents = load_refs (v_subagents v), ra_mcps = load_refs (v_mcps v)\<rparr>"

lemma resolve_row:
  assumes "agents_ok db" "UUID ident = Some i" "UUID user_id = Some u"
  shows "resolve ident user_id db =
    Option.bind (agent_row db i) (\<lambda>a. map_option (\<lambda>(v, _). resolved a v) (available u db a))"
proof -
  have f: "find (\<lambda>a. a_pk a = i \<and> available u db a \<noteq> None) (agents db) =
      (case agent_row db i of None \<Rightarrow> None | Some a \<Rightarrow> if available u db a \<noteq> None then Some a else None)"
    unfolding agent_row_def by (rule find_guarded [OF agents_distinct [OF assms(1)]])
  show ?thesis
  proof (cases "agent_row db i")
    case None
    with f assms(2,3) show ?thesis by (simp add: resolve_def)
  next
    case (Some a)
    with f assms(2,3) show ?thesis
      by (cases "available u db a") (simp_all add: resolve_def resolved_def split_beta)
  qed
qed

lemma latest_version:
  assumes "agents_ok db" "\<And>v. p v \<Longrightarrow> v_agent v = i"
  shows "latest v_number (filter p (agent_versions db)) = Some v \<longleftrightarrow>
    v \<in> set (agent_versions db) \<and> p v \<and> (\<forall>w\<in>set (agent_versions db). p w \<longrightarrow> v_number w \<le> v_number v)"
  by (rule latest_unique) (metis assms version_unique [OF assms(1)])

text \<open>The two facts a visible row rests on.\<close>

definition reachable :: "uuid \<Rightarrow> 'a PresetDb_scheme \<Rightarrow> AgentRecord \<Rightarrow> bool" where
  "reachable u db a \<longleftrightarrow> a_owner a = u \<or> (a_visibility a = GROUP \<and> shared_with KIND_AGENT u db (a_pk a))"

text \<open>The version of an agent a user may refer to, as the rule reads: the latest approved one when the agent is on the platform's
  catalogue, and otherwise, for the owner and the groups it is shared with, the latest released one.\<close>

definition visible_version :: "uuid \<Rightarrow> 'a PresetDb_scheme \<Rightarrow> AgentRecord \<Rightarrow> AgentVersionRecord \<Rightarrow> bool" where
  "visible_version u db a v \<longleftrightarrow> v \<in> set (agent_versions db) \<and> v_agent v = a_pk a \<and>
     (let approved = (\<lambda>w. v_agent w = a_pk a \<and> approved_target KIND_AGENT db (v_pk w));
          released = (\<lambda>w. v_agent w = a_pk a \<and> v_status w = RELEASED) in
      if a_enabled a \<and> (\<exists>w\<in>set (agent_versions db). approved w)
      then approved v \<and> (\<forall>w\<in>set (agent_versions db). approved w \<longrightarrow> v_number w \<le> v_number v)
      else reachable u db a \<and> released v \<and> (\<forall>w\<in>set (agent_versions db). released w \<longrightarrow> v_number w \<le> v_number v))"

lemma available_visible:
  assumes ok: "agents_ok db" and a: "a \<in> set (agents db)"
  shows "map_option fst (available u db a) = Some v \<longleftrightarrow> \<not> a_deleted a \<and> visible_version u db a v"
proof -
  let ?approved = "\<lambda>w. v_agent w = a_pk a \<and> approved_target KIND_AGENT db (v_pk w)"
  let ?released = "\<lambda>w. v_agent w = a_pk a \<and> v_status w = RELEASED"
  have A: "latest_approved db (a_pk a) = Some w \<longleftrightarrow> w \<in> set (agent_versions db) \<and> ?approved w \<and>
      (\<forall>x\<in>set (agent_versions db). ?approved x \<longrightarrow> v_number x \<le> v_number w)" for w
    unfolding latest_approved_def by (rule latest_version [OF ok, of ?approved "a_pk a"]) simp
  have R: "latest_released db (a_pk a) = Some w \<longleftrightarrow> w \<in> set (agent_versions db) \<and> ?released w \<and>
      (\<forall>x\<in>set (agent_versions db). ?released x \<longrightarrow> v_number x \<le> v_number w)" for w
    unfolding latest_released_def by (rule latest_version [OF ok, of ?released "a_pk a"]) simp
  have A0: "latest_approved db (a_pk a) = None \<longleftrightarrow> \<not> (\<exists>w\<in>set (agent_versions db). ?approved w)"
    by (auto simp: latest_approved_def filter_empty_conv)
  obtain ur where u: "user_row db (a_owner a) = Some ur" using ok a by (auto simp: agents_ok_def)
  show ?thesis
  proof (cases "a_enabled a \<and> (\<exists>w\<in>set (agent_versions db). ?approved w)")
    case True
    then obtain w where w: "latest_approved db (a_pk a) = Some w" using A0 by auto
    then have "map_option fst (available u db a) = (if a_deleted a then None else latest_approved db (a_pk a))"
      using u True by (simp add: available_def Let_def)
    then show ?thesis unfolding visible_version_def Let_def if_P [OF True] by (simp add: A conj_assoc)
  next
    case False
    then have c: "\<not> a_enabled a \<or> latest_approved db (a_pk a) = None" unfolding A0 by blast
    have "map_option fst (available u db a) =
        (if a_deleted a \<or> \<not> reachable u db a then None else latest_released db (a_pk a))"
    proof (cases "latest_released db (a_pk a)")
      case None
      from c None u show ?thesis by (elim disjE) (simp_all add: available_def Let_def)
    next
      case (Some w)
      from c Some u show ?thesis by (elim disjE) (simp_all add: available_def reachable_def Let_def)
    qed
    then show ?thesis unfolding visible_version_def Let_def if_not_P [OF False] by (simp add: R conj_ac)
  qed
qed

text \<open>C14. What a reference resolves to is exactly the rule of visibility: the agent is not deleted, and the version is the latest approved one
  of an agent on the catalogue, or else the latest released one of an agent the user owns or shares a group with. Nobody resolves
  anything else, and no draft is ever resolved but one a reviewer approved.\<close>

theorem resolve_visible:
  assumes "agents_ok db" "UUID ident = Some i" "UUID user_id = Some u"
  shows "resolve ident user_id db = Some r \<longleftrightarrow>
    (\<exists>a\<in>set (agents db). \<exists>v. a_pk a = i \<and> \<not> a_deleted a \<and> visible_version u db a v \<and> r = resolved a v)"
proof
  assume "resolve ident user_id db = Some r"
  then obtain a v s where a: "agent_row db i = Some a" "available u db a = Some (v, s)" "r = resolved a v"
    by (auto simp: resolve_row [OF assms] Option.bind_eq_Some_conv)
  with available_visible [OF assms(1), of a u v] agent_row_in [OF a(1)]
  show "\<exists>a\<in>set (agents db). \<exists>v. a_pk a = i \<and> \<not> a_deleted a \<and> visible_version u db a v \<and> r = resolved a v" by auto
next
  assume "\<exists>a\<in>set (agents db). \<exists>v. a_pk a = i \<and> \<not> a_deleted a \<and> visible_version u db a v \<and> r = resolved a v"
  then obtain a v where a: "a \<in> set (agents db)" "a_pk a = i" "\<not> a_deleted a" "visible_version u db a v" "r = resolved a v" by blast
  then have "agent_row db i = Some a"
    using find_key [OF agents_distinct [OF assms(1)] a(1)] by (simp add: agent_row_def)
  moreover from available_visible [OF assms(1) a(1), of u v] a obtain s where "available u db a = Some (v, s)" by auto
  ultimately show "resolve ident user_id db = Some r" using a by (simp add: resolve_row [OF assms])
qed

definition resolved_listing :: "AgentListing \<Rightarrow> ResolvedAgent" where
  "resolved_listing l =
     \<lparr>ra_id = al_id l, ra_name = al_name l, ra_version = al_version l, ra_prompt = al_prompt l, ra_skills = al_skills l,
      ra_subagents = al_subagents l, ra_mcps = al_mcps l\<rparr>"

text \<open>C15. The list a user chooses from and the resolution of what was chosen are one rule: a submission resolves an agent exactly when the
  list of that moment shows it, and to the version, prompt and references shown there.\<close>

theorem resolve_is_listing:
  assumes "agents_ok db" "UUID ident = Some i"
  shows "resolve ident user_id db =
    map_option resolved_listing (find (\<lambda>l. UUID (al_id l) = Some i) (list_available coll user_id db))"
proof (cases "UUID user_id")
  case None
  with assms(2) show ?thesis by (simp add: resolve_def list_available_def)
next
  case (Some u)
  let ?rows = "sort_key (\<lambda>a. (- a_calls a, coll (a_name a))) (agents db)"
  let ?f = "\<lambda>a. map_option (to_listing db a) (available u db a)"
  have key: "UUID (al_id l) = Some i \<longleftrightarrow> a_pk a = i" if "a \<in> set ?rows" "?f a = Some l" for a l
    using that assms(1) by (auto simp: to_listing_def split_beta agents_ok_def)
  have "find (\<lambda>l. UUID (al_id l) = Some i) (List.map_filter ?f ?rows) = Option.bind (find (\<lambda>a. a_pk a = i \<and> ?f a \<noteq> None) ?rows) ?f"
    by (rule find_map_filter [OF key])
  also have "find (\<lambda>a. a_pk a = i \<and> ?f a \<noteq> None) ?rows = find (\<lambda>a. a_pk a = i \<and> available u db a \<noteq> None) (agents db)"
    using find_perm [OF agents_distinct [OF assms(1)], of ?rows i "\<lambda>a. available u db a \<noteq> None"] by simp
  finally have l: "find (\<lambda>l. UUID (al_id l) = Some i) (list_available coll user_id db) =
      Option.bind (find (\<lambda>a. a_pk a = i \<and> available u db a \<noteq> None) (agents db)) ?f"
    using Some by (simp add: list_available_def)
  show ?thesis
  proof (cases "find (\<lambda>a. a_pk a = i \<and> available u db a \<noteq> None) (agents db)")
    case None
    with l assms(2) Some show ?thesis by (simp add: resolve_def)
  next
    case a: (Some a)
    from find_in [OF a] obtain v s where "available u db a = Some (v, s)" by auto
    with l a assms(2) Some show ?thesis by (simp add: resolve_def resolved_listing_def to_listing_def)
  qed
qed

section \<open>An agent in three versions\<close>

definition example_catalogue :: PresetDb where
  "example_catalogue =
     \<lparr>users = map (\<lambda>k. \<lparr>u_pk = k, u_name = dec_string k, u_email = dec_string k, u_dept = [], u_hash = [], u_role = TEACHER,
                u_quota_tokens = None, u_quota_runs = None, u_active = True, u_created = 0\<rparr>) [1, 2, 3],
      groups = [\<lparr>g_pk = 5, g_name = ''g'', g_owner = 1, g_code = ''c'', g_created = 0\<rparr>],
      members = [(1, 5), (2, 5)], join_requests = [],
      agents = [\<lparr>a_pk = 10, a_owner = 1, a_name = ''n'', a_description = ''d'', a_subject = [], a_visibility = GROUP, a_calls = 0,
                 a_deleted = False, a_enabled = True, a_reason = None, a_disabled_by = None, a_disabled_at = None, a_created = 0, a_updated = 0\<rparr>],
      agent_versions = map (\<lambda>(k, s, p). \<lparr>v_pk = 20 + k, v_agent = 10, v_number = k, v_status = s, v_prompt = p, v_skills = None,
                 v_subagents = None, v_mcps = None, v_created = 0, v_released = None\<rparr>)
         [(1, RELEASED, ''one''), (2, RELEASED, ''two''), (3, DRAFT, ''three'')],
      skill_rows = [], skill_versions = [], mcp_servers = [],
      reviews = [\<lparr>rv_pk = 30, rv_kind = KIND_AGENT, rv_target = 21, rv_status = RV_APPROVED, rv_confirmed = True, rv_reason = None,
                  rv_by = 1, rv_reviewer = Some 3, rv_created = 0, rv_decided = Some 1\<rparr>],
      shares = [\<lparr>rg_kind = KIND_AGENT, rg_resource = 10, rg_group_fk = 5\<rparr>]\<rparr>"

definition example_content :: AgentContent where
  "example_content = \<lparr>ac_prompt = ''new'', ac_skills = None, ac_subagents = None, ac_mcps = None\<rparr>"

lemma example_agents_ok: "agents_ok example_catalogue"
  by (simp add: agents_ok_def example_catalogue_def unclashed_def agent_clash_def version_clash_def user_row_def)

theorem released_frozen_witness:
  "\<exists>d. load_subagent (uuid_hex 10) 2
     (fold agent_step [Release (uuid_hex 10) (uuid_hex 1) 5, WriteDraft 40 (uuid_hex 10) (uuid_hex 1) example_content 6] example_catalogue) =
     Some \<lparr>sd_description = d, sd_prompt = ''two''\<rparr>"
  using released_frozen [OF example_agents_ok, of "[Release (uuid_hex 10) (uuid_hex 1) 5, WriteDraft 40 (uuid_hex 10) (uuid_hex 1) example_content 6]"
      "agent_versions example_catalogue ! 1"]
  by (simp add: example_catalogue_def)

theorem resolve_visible_witness:
  "resolve (uuid_hex 10) (uuid_hex 3) example_catalogue =
     Some \<lparr>ra_id = uuid_hex 10, ra_name = ''n'', ra_version = 1, ra_prompt = ''one'', ra_skills = None, ra_subagents = None, ra_mcps = None\<rparr>"
proof (rule iffD2 [OF resolve_visible [OF example_agents_ok, of "uuid_hex 10" 10 "uuid_hex 3" 3]])
  show "\<exists>a\<in>set (agents example_catalogue). \<exists>v. a_pk a = 10 \<and> \<not> a_deleted a \<and> visible_version 3 example_catalogue a v \<and>
      \<lparr>ra_id = uuid_hex 10, ra_name = ''n'', ra_version = 1, ra_prompt = ''one'', ra_skills = None, ra_subagents = None, ra_mcps = None\<rparr> =
      resolved a v"
    by (rule bexI [of _ "agents example_catalogue ! 0"], rule exI [of _ "agent_versions example_catalogue ! 0"])
      (simp_all add: example_catalogue_def visible_version_def approved_target_def resolved_def load_refs_def)
qed simp_all

theorem resolve_is_listing_witness:
  "resolve (uuid_hex 10) (uuid_hex 2) example_catalogue =
     map_option resolved_listing (find (\<lambda>l. UUID (al_id l) = Some 10) (list_available length (uuid_hex 2) example_catalogue))"
  using resolve_is_listing [OF example_agents_ok, of "uuid_hex 10" 10] by simp

text \<open>Finding. The second phase of \<open>write_draft\<close> writes the row it read by its key: when the draft is released in between, the released
  version gets the new prompt, against the rule that not a word of it changes.\<close>

lemma draft_write_races_release:
  assumes "draft_read (uuid_hex 10) (uuid_hex 1) example_catalogue = Some (i, plan)"
    and "release (uuid_hex 10) (uuid_hex 1) 5 example_catalogue = (Some v, db1)"
    and "draft_commit 40 i plan example_content 6 db1 = Inr (w, db2)"
  shows "av_prompt v = ''three''" and "\<exists>x\<in>set (agent_versions db2). v_status x = RELEASED \<and> v_number x = av_number v \<and> v_prompt x = ''new''"
    and "av_status w = DRAFT"
  using assms
  by (auto simp: draft_read_def writable_def agent_row_def release_def sql_update_returning_def draft_commit_def edited_def
      to_version_def example_catalogue_def example_content_def)

end
