(* ===== verification/Skill_Catalog.thy ===== *)
theory Skill_Catalog
  imports Agent_Catalog
begin

text \<open>
  The repository of Skills (\<open>app/preset/skill.py\<close>). It has the shape of the repository of agents with its own decisions: a name cannot be
  changed, sharing takes the list of groups as it comes, and an own or shared version is preferred to the approved one. The bytes of a
  version are kept elsewhere; a row holds their count.
\<close>

section \<open>Values\<close>

record Skill =
  sk_id :: string
  sk_owner :: string
  sk_title :: string
  sk_subject :: string
  sk_visibility :: Visibility
  sk_calls :: int
  sk_deleted :: bool
  sk_enabled :: bool
  sk_reason :: "string option"
  sk_disabled_by :: "string option"
  sk_disabled_at :: "datetime option"
  sk_created :: datetime
  sk_updated :: datetime

record SkillVersion =
  sv_id :: string
  sv_number :: nat
  sv_status :: VersionStatus
  sv_description :: string
  sv_files :: nat
  sv_bytes :: nat
  sv_created :: datetime
  sv_released :: "datetime option"

record SkillDetail =
  sd_skill :: Skill
  sd_owner_name :: string
  sd_versions :: "SkillVersion list"
  sd_groups :: "string list"

record SkillListing =
  sl_id :: string
  sl_owner :: string
  sl_owner_name :: string
  sl_name :: string
  sl_description :: string
  sl_subject :: string
  sl_visibility :: Visibility
  sl_calls :: int
  sl_version :: nat
  sl_files :: nat
  sl_bytes :: nat
  sl_source :: AgentSource
  sl_updated :: datetime

record ResolvedSkill =
  rs_id :: string
  rs_name :: string
  rs_version :: nat

definition to_skill :: "SkillRecord \<Rightarrow> Skill" where
  "to_skill r =
     \<lparr>sk_id = uuid_hex (k_pk r), sk_owner = uuid_hex (k_owner r), sk_title = k_name r, sk_subject = k_subject r,
      sk_visibility = k_visibility r, sk_calls = k_calls r, sk_deleted = k_deleted r, sk_enabled = k_enabled r, sk_reason = k_reason r,
      sk_disabled_by = map_option uuid_hex (k_disabled_by r), sk_disabled_at = k_disabled_at r, sk_created = k_created r,
      sk_updated = k_updated r\<rparr>"

definition to_skill_version :: "SkillVersionRecord \<Rightarrow> SkillVersion" where
  "to_skill_version r =
     \<lparr>sv_id = uuid_hex (w_pk r), sv_number = w_number r, sv_status = w_status r, sv_description = w_description r,
      sv_files = w_files r, sv_bytes = w_bytes r, sv_created = w_created r, sv_released = w_released r\<rparr>"

section \<open>Writing\<close>

text \<open>What an upload says of a version.\<close>

record SkillContent =
  sc_description :: string
  sc_files :: nat
  sc_bytes :: nat

definition skill_row :: "'a PresetDb_scheme \<Rightarrow> uuid \<Rightarrow> SkillRecord option" where
  "skill_row db i = find (\<lambda>r. k_pk r = i) (skill_rows db)"

definition new_skill_version :: "uuid \<Rightarrow> uuid \<Rightarrow> nat \<Rightarrow> SkillContent \<Rightarrow> datetime \<Rightarrow> SkillVersionRecord" where
  "new_skill_version new_id skill number c now =
     \<lparr>w_pk = new_id, w_skill = skill, w_number = number, w_status = DRAFT, w_description = sc_description c,
      w_files = sc_files c, w_bytes = sc_bytes c, w_created = now, w_released = None\<rparr>"

definition create_skill ::
    "uuid \<Rightarrow> uuid \<Rightarrow> string \<Rightarrow> string \<Rightarrow> string \<Rightarrow> SkillContent \<Rightarrow> datetime \<Rightarrow> 'a PresetDb_scheme \<Rightarrow> Skill option \<times> 'a PresetDb_scheme" where
  "create_skill new_id version_id owner_id name subject c now db =
     (case UUID owner_id of
        None \<Rightarrow> (None, db)
      | Some owner \<Rightarrow>
          let r = \<lparr>k_pk = new_id, k_owner = owner, k_name = name, k_subject = subject, k_visibility = PRIVATE, k_calls = 0,
                   k_deleted = False, k_enabled = True, k_reason = None, k_disabled_by = None, k_disabled_at = None,
                   k_created = now, k_updated = now\<rparr> in
          if user_row db owner = None then (None, db)
          else case sql_insert skill_clash r (skill_rows db) of
                 Inl _ \<Rightarrow> (None, db)
               | Inr rows \<Rightarrow>
                   (case sql_insert skill_version_clash (new_skill_version version_id new_id FIRST_VERSION c now) (skill_versions db) of
                      Inl _ \<Rightarrow> (None, db)
                    | Inr vs \<Rightarrow> (Some (to_skill r), db\<lparr>skill_rows := rows, skill_versions := vs\<rparr>)))"

definition get_skill :: "string \<Rightarrow> string \<Rightarrow> 'a PresetDb_scheme \<Rightarrow> Skill option" where
  "get_skill skill_ident owner_id db =
     (case (UUID skill_ident, UUID owner_id) of
        (Some i, Some owner) \<Rightarrow>
          (case skill_row db i of
             None \<Rightarrow> None
           | Some r \<Rightarrow> if k_owner r \<noteq> owner then None else Some (to_skill r))
      | _ \<Rightarrow> None)"

definition writable_skill :: "string \<Rightarrow> string \<Rightarrow> 'a PresetDb_scheme \<Rightarrow> SkillRecord option" where
  "writable_skill skill_ident owner_id db =
     (case (UUID skill_ident, UUID owner_id) of
        (Some i, Some owner) \<Rightarrow>
          (case skill_row db i of
             None \<Rightarrow> None
           | Some r \<Rightarrow> if k_owner r \<noteq> owner \<or> k_deleted r then None else Some r)
      | _ \<Rightarrow> None)"

definition put_skill :: "uuid \<Rightarrow> (SkillRecord \<Rightarrow> SkillRecord) \<Rightarrow> 'a PresetDb_scheme \<Rightarrow> 'a PresetDb_scheme" where
  "put_skill i f db = db\<lparr>skill_rows := map (\<lambda>x. if k_pk x = i then f x else x) (skill_rows db)\<rparr>"

definition skill_update_meta :: "string \<Rightarrow> string \<Rightarrow> string \<Rightarrow> datetime \<Rightarrow> 'a PresetDb_scheme \<Rightarrow> Skill option \<times> 'a PresetDb_scheme" where
  "skill_update_meta skill_ident owner_id subject now db =
     (case writable_skill skill_ident owner_id db of
        None \<Rightarrow> (None, db)
      | Some r \<Rightarrow>
          let f = (\<lambda>x. x\<lparr>k_subject := subject, k_updated := now\<rparr>) in
          (Some (to_skill (f r)), put_skill (k_pk r) f db))"

text \<open>The two phases of \<open>write_draft\<close>, as for agents.\<close>

datatype skill_plan = EditSkill SkillVersionRecord | AddSkill nat

definition skill_draft_read :: "string \<Rightarrow> string \<Rightarrow> 'a PresetDb_scheme \<Rightarrow> (uuid \<times> skill_plan) option" where
  "skill_draft_read skill_ident owner_id db =
     (case writable_skill skill_ident owner_id db of
        None \<Rightarrow> None
      | Some r \<Rightarrow>
          let own = filter (\<lambda>v. w_skill v = k_pk r) (skill_versions db) in
          Some (k_pk r,
            case find (\<lambda>v. w_status v = DRAFT) own of
              Some v \<Rightarrow> EditSkill v
            | None \<Rightarrow> AddSkill (fold max (map w_number own) 0 + 1)))"

definition skill_edited :: "SkillContent \<Rightarrow> SkillVersionRecord \<Rightarrow> SkillVersionRecord" where
  "skill_edited c v = v\<lparr>w_description := sc_description c, w_files := sc_files c, w_bytes := sc_bytes c\<rparr>"

definition skill_draft_commit ::
    "uuid \<Rightarrow> uuid \<Rightarrow> skill_plan \<Rightarrow> SkillContent \<Rightarrow> datetime \<Rightarrow> 'a PresetDb_scheme \<Rightarrow> (SkillVersion \<times> 'a PresetDb_scheme) result" where
  "skill_draft_commit new_id i plan c now db =
     (case plan of
        EditSkill v \<Rightarrow>
          Inr (to_skill_version (skill_edited c v), put_skill i (\<lambda>x. x\<lparr>k_updated := now\<rparr>)
            (db\<lparr>skill_versions := map (\<lambda>x. if w_pk x = w_pk v then skill_edited c x else x) (skill_versions db)\<rparr>))
      | AddSkill number \<Rightarrow>
          let v = new_skill_version new_id i number c now in
          result_bind (sql_insert skill_version_clash v (skill_versions db)) (\<lambda>vs.
            Inr (to_skill_version v, put_skill i (\<lambda>x. x\<lparr>k_updated := now\<rparr>) (db\<lparr>skill_versions := vs\<rparr>))))"

definition skill_write_draft ::
    "uuid \<Rightarrow> string \<Rightarrow> string \<Rightarrow> SkillContent \<Rightarrow> datetime \<Rightarrow> 'a PresetDb_scheme \<Rightarrow> (SkillVersion option \<times> 'a PresetDb_scheme) result" where
  "skill_write_draft new_id skill_ident owner_id c now db =
     (case skill_draft_read skill_ident owner_id db of
        None \<Rightarrow> Inr (None, db)
      | Some (i, plan) \<Rightarrow> result_bind (skill_draft_commit new_id i plan c now db) (\<lambda>(v, db'). Inr (Some v, db')))"

definition skill_release :: "string \<Rightarrow> string \<Rightarrow> datetime \<Rightarrow> 'a PresetDb_scheme \<Rightarrow> SkillVersion option \<times> 'a PresetDb_scheme" where
  "skill_release skill_ident owner_id now db =
     (case (UUID skill_ident, UUID owner_id) of
        (Some i, Some owner) \<Rightarrow>
          (case sql_update_returning
                  (\<lambda>v. w_skill v = i \<and> w_status v = DRAFT \<and>
                       (\<exists>r\<in>set (skill_rows db). k_pk r = i \<and> k_owner r = owner \<and> \<not> k_deleted r))
                  (\<lambda>v. v\<lparr>w_status := RELEASED, w_released := Some now\<rparr>) (skill_versions db) of
             (_, []) \<Rightarrow> (None, db)
           | (vs, v # _) \<Rightarrow> (Some (to_skill_version v), put_skill i (\<lambda>x. x\<lparr>k_updated := now\<rparr>) (db\<lparr>skill_versions := vs\<rparr>)))
      | _ \<Rightarrow> (None, db))"

definition own_latest_released :: "string \<Rightarrow> string \<Rightarrow> 'a PresetDb_scheme \<Rightarrow> SkillVersion option" where
  "own_latest_released skill_ident owner_id db =
     (case (UUID skill_ident, UUID owner_id) of
        (Some i, Some owner) \<Rightarrow>
          map_option to_skill_version (latest w_number
            (filter (\<lambda>v. w_skill v = i \<and> w_status v = RELEASED \<and>
                         (\<exists>r\<in>set (skill_rows db). k_pk r = i \<and> k_owner r = owner \<and> \<not> k_deleted r)) (skill_versions db)))
      | _ \<Rightarrow> None)"

text \<open>\<open>set_sharing\<close>: every group identifier must parse; a private Skill keeps none of them. The rows are inserted as the list has them,
  so a group that is named twice breaks the primary key, like one that does not exist.\<close>

definition skill_set_sharing ::
    "string \<Rightarrow> string \<Rightarrow> Visibility \<Rightarrow> string list \<Rightarrow> datetime \<Rightarrow> 'a PresetDb_scheme \<Rightarrow> (bool \<times> 'a PresetDb_scheme) result" where
  "skill_set_sharing skill_ident owner_id visibility group_ids now db =
     (case writable_skill skill_ident owner_id db of
        None \<Rightarrow> Inr (False, db)
      | Some r \<Rightarrow>
          if \<exists>g\<in>set group_ids. UUID g = None then Inr (False, db)
          else
          let wanted = (if visibility = GROUP then List.map_filter UUID group_ids else []);
              db' = put_skill (k_pk r) (\<lambda>x. x\<lparr>k_visibility := visibility, k_updated := now\<rparr>) db;
              kept = filter (\<lambda>s. \<not> (rg_kind s = KIND_SKILL \<and> rg_resource s = k_pk r)) (shares db)
          in if \<not> distinct wanted \<or> (\<exists>g\<in>set wanted. group_row db g = None) then Inl IntegrityError
             else Inr (True, db'\<lparr>shares := kept @
                    map (\<lambda>g. \<lparr>rg_kind = KIND_SKILL, rg_resource = k_pk r, rg_group_fk = g\<rparr>) wanted\<rparr>))"

definition skill_delete :: "string \<Rightarrow> string \<Rightarrow> datetime \<Rightarrow> 'a PresetDb_scheme \<Rightarrow> bool \<times> 'a PresetDb_scheme" where
  "skill_delete skill_ident owner_id now db =
     (case writable_skill skill_ident owner_id db of
        None \<Rightarrow> (False, db)
      | Some r \<Rightarrow> (True, put_skill (k_pk r) (\<lambda>x. x\<lparr>k_deleted := True, k_updated := now\<rparr>) db))"

definition skill_set_catalog_enabled ::
    "string \<Rightarrow> bool \<Rightarrow> string option \<Rightarrow> string \<Rightarrow> datetime \<Rightarrow> 'a PresetDb_scheme \<Rightarrow> (bool \<times> 'a PresetDb_scheme) result" where
  "skill_set_catalog_enabled skill_ident enabled reason actor_id now db =
     (case (UUID skill_ident, UUID actor_id) of
        (Some i, Some actor) \<Rightarrow>
          (case skill_row db i of
             None \<Rightarrow> Inr (False, db)
           | Some r \<Rightarrow>
               if k_deleted r then Inr (False, db)
               else if \<not> enabled \<and> user_row db actor = None then Inl IntegrityError
               else Inr (True, put_skill i
                 (\<lambda>x. x\<lparr>k_enabled := enabled, k_reason := (if enabled then None else reason),
                        k_disabled_by := (if enabled then None else Some actor),
                        k_disabled_at := (if enabled then None else Some now), k_updated := now\<rparr>) db))
      | _ \<Rightarrow> Inr (False, db))"

definition skill_count_call :: "string \<Rightarrow> 'a PresetDb_scheme \<Rightarrow> 'a PresetDb_scheme" where
  "skill_count_call skill_ident db =
     (case UUID skill_ident of None \<Rightarrow> db | Some i \<Rightarrow> put_skill i (\<lambda>x. x\<lparr>k_calls := k_calls x + 1\<rparr>) db)"

section \<open>What a user sees\<close>

definition skill_latest_released :: "'a PresetDb_scheme \<Rightarrow> uuid \<Rightarrow> SkillVersionRecord option" where
  "skill_latest_released db i = latest w_number (filter (\<lambda>v. w_skill v = i \<and> w_status v = RELEASED) (skill_versions db))"

definition skill_latest_approved :: "'a PresetDb_scheme \<Rightarrow> uuid \<Rightarrow> SkillVersionRecord option" where
  "skill_latest_approved db i =
     latest w_number (filter (\<lambda>v. w_skill v = i \<and> approved_target KIND_SKILL db (w_pk v)) (skill_versions db))"

definition skill_available :: "uuid \<Rightarrow> 'a PresetDb_scheme \<Rightarrow> SkillRecord \<Rightarrow> (SkillVersionRecord \<times> AgentSource) option" where
  "skill_available user db k =
     (let released = skill_latest_released db (k_pk k);
          approved = skill_latest_approved db (k_pk k);
          mine = k_owner k = user;
          group_shared = k_visibility k = GROUP \<and> shared_with KIND_SKILL user db (k_pk k);
          first_hand = (mine \<or> group_shared) \<and> released \<noteq> None;
          in_catalog = approved \<noteq> None \<and> k_enabled k
      in if user_row db (k_owner k) = None \<or> k_deleted k \<or> \<not> (first_hand \<or> in_catalog) then None
         else map_option (\<lambda>v. (v, if mine then OWNED else if group_shared then FROM_GROUP else CATALOG))
                (if first_hand then released else approved))"

definition to_skill_listing :: "'a PresetDb_scheme \<Rightarrow> SkillRecord \<Rightarrow> SkillVersionRecord \<times> AgentSource \<Rightarrow> SkillListing" where
  "to_skill_listing db k = (\<lambda>(v, source).
     \<lparr>sl_id = uuid_hex (k_pk k), sl_owner = uuid_hex (k_owner k),
      sl_owner_name = (case user_row db (k_owner k) of None \<Rightarrow> [] | Some u \<Rightarrow> u_name u), sl_name = k_name k,
      sl_description = w_description v, sl_subject = k_subject k, sl_visibility = k_visibility k, sl_calls = k_calls k,
      sl_version = w_number v, sl_files = w_files v, sl_bytes = w_bytes v, sl_source = source, sl_updated = k_updated k\<rparr>)"

definition skill_list_available :: "(string \<Rightarrow> 'k::linorder) \<Rightarrow> string \<Rightarrow> 'a PresetDb_scheme \<Rightarrow> SkillListing list" where
  "skill_list_available coll user_id db =
     (case UUID user_id of
        None \<Rightarrow> []
      | Some user \<Rightarrow> List.map_filter (\<lambda>k. map_option (to_skill_listing db k) (skill_available user db k))
          (sort_key (\<lambda>k. coll (k_name k)) (skill_rows db)))"

definition skill_list_catalog :: "'a PresetDb_scheme \<Rightarrow> SkillListing list" where
  "skill_list_catalog db =
     map (\<lambda>(k, v). to_skill_listing db k (v, CATALOG))
       (sort_key (\<lambda>(k, v). (- k_calls k, map_option uminus (w_released v)))
         (List.map_filter (\<lambda>k. if user_row db (k_owner k) = None \<or> k_deleted k \<or> \<not> k_enabled k then None
                               else map_option (Pair k) (skill_latest_approved db (k_pk k))) (skill_rows db)))"

definition skill_assemble :: "'a PresetDb_scheme \<Rightarrow> SkillRecord \<Rightarrow> SkillDetail" where
  "skill_assemble db k =
     \<lparr>sd_skill = to_skill k,
      sd_owner_name = (case user_row db (k_owner k) of None \<Rightarrow> [] | Some u \<Rightarrow> u_name u),
      sd_versions = map to_skill_version (sort_key w_number (filter (\<lambda>v. w_skill v = k_pk k) (skill_versions db))),
      sd_groups = map uuid_hex (sort (map rg_group_fk (filter (\<lambda>s. rg_kind s = KIND_SKILL \<and> rg_resource s = k_pk k) (shares db))))\<rparr>"

definition skill_detail :: "string \<Rightarrow> string \<Rightarrow> 'a PresetDb_scheme \<Rightarrow> SkillDetail option" where
  "skill_detail skill_ident owner_id db =
     (case (UUID skill_ident, UUID owner_id) of
        (Some i, Some owner) \<Rightarrow>
          (case skill_row db i of
             None \<Rightarrow> None
           | Some r \<Rightarrow> if k_owner r \<noteq> owner then None else Some (skill_assemble db r))
      | _ \<Rightarrow> None)"

definition skill_list_owned :: "string \<Rightarrow> 'a PresetDb_scheme \<Rightarrow> SkillDetail list" where
  "skill_list_owned user_id db =
     (case UUID user_id of
        None \<Rightarrow> []
      | Some owner \<Rightarrow> map (skill_assemble db) (sort_key (\<lambda>k. - k_updated k) (filter (\<lambda>k. k_owner k = owner) (skill_rows db))))"

definition skill_resolve :: "string \<Rightarrow> string \<Rightarrow> 'a PresetDb_scheme \<Rightarrow> ResolvedSkill option" where
  "skill_resolve skill_ident user_id db =
     (case (UUID skill_ident, UUID user_id) of
        (Some i, Some user) \<Rightarrow>
          Option.bind (find (\<lambda>k. k_pk k = i \<and> skill_available user db k \<noteq> None) (skill_rows db)) (\<lambda>k.
            map_option (\<lambda>(v, _). \<lparr>rs_id = uuid_hex (k_pk k), rs_name = k_name k, rs_version = w_number v\<rparr>) (skill_available user db k))
      | _ \<Rightarrow> None)"

section \<open>Released versions stay\<close>

definition skills_ok :: "'a PresetDb_scheme \<Rightarrow> bool" where
  "skills_ok db \<longleftrightarrow> distinct (map k_pk (skill_rows db)) \<and> unclashed skill_version_clash (skill_versions db) \<and>
     (\<forall>k\<in>set (skill_rows db). k_pk k < 2 ^ 128 \<and> user_row db (k_owner k) \<noteq> None) \<and>
     w_skill ` set (skill_versions db) \<subseteq> k_pk ` set (skill_rows db)"

abbreviation skill_versions_grow :: "SkillVersionRecord list \<Rightarrow> SkillVersionRecord list \<Rightarrow> bool" where
  "skill_versions_grow \<equiv> grows (\<lambda>v. w_status v = RELEASED) w_skill w_number"

datatype skill_op =
    NewSkill uuid uuid string string string SkillContent datetime
  | SkillMeta string string string datetime
  | SkillWrite uuid string string SkillContent datetime
  | SkillCommit uuid uuid skill_plan SkillContent datetime
  | SkillRelease string string datetime
  | SkillShare string string Visibility "string list" datetime
  | SkillDelete string string datetime
  | SkillSwitch string bool "string option" string datetime
  | SkillCount string

fun skill_step :: "skill_op \<Rightarrow> 'a PresetDb_scheme \<Rightarrow> 'a PresetDb_scheme" where
  "skill_step (NewSkill i j oid n s c now) db = snd (create_skill i j oid n s c now db)"
| "skill_step (SkillMeta i oid s now) db = snd (skill_update_meta i oid s now db)"
| "skill_step (SkillWrite j i oid c now) db = (case skill_write_draft j i oid c now db of Inl _ \<Rightarrow> db | Inr r \<Rightarrow> snd r)"
| "skill_step (SkillCommit j i plan c now) db = (case skill_draft_commit j i plan c now db of Inl _ \<Rightarrow> db | Inr r \<Rightarrow> snd r)"
| "skill_step (SkillRelease i oid now) db = snd (skill_release i oid now db)"
| "skill_step (SkillShare i oid v gs now) db = (case skill_set_sharing i oid v gs now db of Inl _ \<Rightarrow> db | Inr r \<Rightarrow> snd r)"
| "skill_step (SkillDelete i oid now) db = snd (skill_delete i oid now db)"
| "skill_step (SkillSwitch i e r aid now) db = (case skill_set_catalog_enabled i e r aid now db of Inl _ \<Rightarrow> db | Inr r \<Rightarrow> snd r)"
| "skill_step (SkillCount i) db = skill_count_call i db"

fun skill_plan_fresh :: "skill_op \<Rightarrow> 'a PresetDb_scheme \<Rightarrow> bool" where
  "skill_plan_fresh (SkillCommit j i plan c now) db \<longleftrightarrow> i \<in> k_pk ` set (skill_rows db) \<and>
     (case plan of
        EditSkill v \<Rightarrow> \<forall>x\<in>set (skill_versions db). w_pk x = w_pk v \<longrightarrow> w_status x = DRAFT
      | AddSkill n \<Rightarrow> \<forall>x\<in>set (skill_versions db). w_skill x = i \<longrightarrow>
          w_number x < n \<or> (\<exists>y\<in>set (skill_versions db). w_skill y = i \<and> w_number y = n))"
| "skill_plan_fresh (NewSkill i j oid n s c now) db \<longleftrightarrow> i < 2 ^ 128"
| "skill_plan_fresh _ db \<longleftrightarrow> True"

lemma skill_row_in: "skill_row db i = Some r \<Longrightarrow> r \<in> set (skill_rows db) \<and> k_pk r = i"
  unfolding skill_row_def by (auto dest: find_in)

lemma writable_skill_row: "writable_skill skill_ident owner_id db = Some r \<Longrightarrow>
    r \<in> set (skill_rows db) \<and> \<not> k_deleted r \<and> UUID skill_ident = Some (k_pk r) \<and> UUID owner_id = Some (k_owner r)"
  unfolding writable_skill_def by (auto split: option.splits if_splits dest: skill_row_in)

text \<open>The three ways a call changes the tables: an identity row that keeps its key and owner, the sharing, and the versions.\<close>

lemma put_skill_versions [simp]: "skill_versions (put_skill i f db) = skill_versions db"
  by (simp add: put_skill_def)

lemma put_skill_ok:
  assumes "skills_ok db" "\<And>x. k_pk (f x) = k_pk x" "\<And>x. k_owner (f x) = k_owner x"
  shows "skills_ok (put_skill i f db)"
proof -
  let ?f = "\<lambda>x. if k_pk x = i then f x else x"
  have "map k_pk (map ?f (skill_rows db)) = map k_pk (skill_rows db)" by (rule map_pk_update) (rule assms(2))
  note m = this arg_cong [OF this, of set, unfolded set_map [of k_pk]]
  have r: "skill_rows (put_skill i f db) = map ?f (skill_rows db)" "user_row (put_skill i f db) = user_row db"
    by (simp_all add: put_skill_def user_row_def fun_eq_iff)
  have "\<forall>k\<in>set (map ?f (skill_rows db)). k_pk k < 2 ^ 128 \<and> user_row db (k_owner k) \<noteq> None"
    using assms by (auto simp: skills_ok_def simp del: if_image_distrib)
  with assms(1) show ?thesis unfolding skills_ok_def r put_skill_versions m by blast
qed

lemma skill_shares_ok: "skills_ok db \<Longrightarrow> skills_ok (db\<lparr>shares := s\<rparr>)"
  by (simp add: skills_ok_def user_row_def)

lemma skill_versions_ok:
  "skills_ok db \<Longrightarrow> unclashed skill_version_clash vs \<Longrightarrow> w_skill ` set vs \<subseteq> k_pk ` set (skill_rows db) \<Longrightarrow> skills_ok (db\<lparr>skill_versions := vs\<rparr>)"
  by (simp add: skills_ok_def user_row_def)

lemma skill_edited_sels [simp]:
  "w_pk (skill_edited c v) = w_pk v" "w_skill (skill_edited c v) = w_skill v" "w_number (skill_edited c v) = w_number v"
  "w_status (skill_edited c v) = w_status v"
  by (simp_all add: skill_edited_def)

lemma new_skill_version_sels [simp]:
  "w_pk (new_skill_version j i n c now) = j" "w_skill (new_skill_version j i n c now) = i" "w_number (new_skill_version j i n c now) = n"
  "w_status (new_skill_version j i n c now) = DRAFT"
  by (simp_all add: new_skill_version_def)

lemma skill_update_ok:
  assumes "skills_ok db" "\<And>v. w_pk (f v) = w_pk v \<and> w_skill (f v) = w_skill v \<and> w_number (f v) = w_number v"
    "\<And>v. w_status (f v) = DRAFT \<Longrightarrow> w_status v = DRAFT" "\<And>v. v \<in> set (skill_versions db) \<Longrightarrow> w_status v = RELEASED \<Longrightarrow> f v = v"
  shows "skills_ok (put_skill i (\<lambda>x. x\<lparr>k_updated := now\<rparr>) (db\<lparr>skill_versions := map f (skill_versions db)\<rparr>)) \<and>
    skill_versions_grow (skill_versions db) (map f (skill_versions db))"
proof -
  from assms(1) have u: "unclashed skill_version_clash (skill_versions db)" by (simp add: skills_ok_def)
  have "unclashed skill_version_clash (map f (skill_versions db)) \<and> skill_versions_grow (skill_versions db) (map f (skill_versions db))"
  proof (rule update_grows [OF u])
    show "skill_version_clash y x" if "skill_version_clash (f y) (f x)" for x y
      using that assms(3) [of x] assms(3) [of y] unfolding skill_version_clash_def by (simp only: assms(2)) blast
    show "(w_status v = RELEASED \<longrightarrow> f v = v) \<and> w_skill (f v) = w_skill v \<and> w_number (f v) = w_number v"
      if "v \<in> set (skill_versions db)" for v
      using assms(2) [of v] assms(4) [OF that] by simp
  qed
  moreover from assms(1,2) have "w_skill ` set (map f (skill_versions db)) \<subseteq> k_pk ` set (skill_rows db)"
    by (auto simp: skills_ok_def)
  ultimately show ?thesis using skill_versions_ok [OF assms(1)] by (intro conjI put_skill_ok) auto
qed

lemma skill_insert_ok:
  assumes "skills_ok db" "sql_insert skill_version_clash (new_skill_version j i n c now) (skill_versions db) = Inr vs"
    "i \<in> k_pk ` set (skill_rows db)" "\<And>x. x \<in> set (skill_versions db) \<Longrightarrow> w_skill x = i \<Longrightarrow>
      w_number x < n \<or> (\<exists>y\<in>set (skill_versions db). w_skill y = i \<and> w_number y = n)"
  shows "skills_ok (db\<lparr>skill_versions := vs\<rparr>) \<and> skill_versions_grow (skill_versions db) vs"
proof -
  let ?v = "new_skill_version j i n c now"
  have nc: "\<not> skill_version_clash ?v x" if "x \<in> set (skill_versions db)" for x
    using assms(2) that by (simp add: sql_insert_Inr)
  then have lt: "w_number x < n" if "x \<in> set (skill_versions db)" "w_skill x = i" for x
    using that assms(4) [of x] by (auto simp: skill_version_clash_def)
  have "unclashed skill_version_clash vs \<and> skill_versions_grow (skill_versions db) vs \<and> vs = skill_versions db @ [?v]"
    by (rule insert_grows [OF _ assms(2)]) (use assms(1) lt in \<open>auto simp: skills_ok_def\<close>)
  with assms(1,3) show ?thesis by (auto simp: skills_ok_def user_row_def)
qed

lemma skill_commit_grows:
  assumes "skills_ok db" "skill_plan_fresh (SkillCommit j i plan c now) db" "skill_draft_commit j i plan c now db = Inr (x, db')"
  shows "skills_ok db' \<and> skill_versions_grow (skill_versions db) (skill_versions db')"
proof (cases plan)
  case (EditSkill v)
  with assms(3) have "db' = put_skill i (\<lambda>x. x\<lparr>k_updated := now\<rparr>)
      (db\<lparr>skill_versions := map (\<lambda>x. if w_pk x = w_pk v then skill_edited c x else x) (skill_versions db)\<rparr>)"
    by (auto simp: skill_draft_commit_def)
  moreover have "skills_ok (put_skill i (\<lambda>x. x\<lparr>k_updated := now\<rparr>)
        (db\<lparr>skill_versions := map (\<lambda>x. if w_pk x = w_pk v then skill_edited c x else x) (skill_versions db)\<rparr>)) \<and>
      skill_versions_grow (skill_versions db) (map (\<lambda>x. if w_pk x = w_pk v then skill_edited c x else x) (skill_versions db))"
    by (rule skill_update_ok [OF assms(1)]) (use assms(2) EditSkill in \<open>auto split: if_splits\<close>)
  ultimately show ?thesis by simp
next
  case (AddSkill n)
  with assms(3) obtain vs where vs: "sql_insert skill_version_clash (new_skill_version j i n c now) (skill_versions db) = Inr vs"
      and db': "db' = put_skill i (\<lambda>x. x\<lparr>k_updated := now\<rparr>) (db\<lparr>skill_versions := vs\<rparr>)"
    by (auto simp: skill_draft_commit_def Let_def result_bind_Inr_iff)
  have "skills_ok (db\<lparr>skill_versions := vs\<rparr>) \<and> skill_versions_grow (skill_versions db) vs"
    by (rule skill_insert_ok [OF assms(1) vs]) (use assms(2) AddSkill in auto)
  then show ?thesis by (auto simp: db' intro: put_skill_ok)
qed

lemma skill_draft_read_fresh:
  assumes "skills_ok db" "skill_draft_read ident oid db = Some (i, plan)"
  shows "skill_plan_fresh (SkillCommit j i plan c now) db"
proof -
  from assms(2) obtain r where r: "writable_skill ident oid db = Some r" "i = k_pk r"
    by (auto simp: skill_draft_read_def Let_def split: option.splits)
  let ?own = "filter (\<lambda>v. w_skill v = k_pk r) (skill_versions db)"
  have d: "distinct (map w_pk (skill_versions db))"
    using assms(1) unfolding skills_ok_def by (intro unclashed_distinct [of skill_version_clash]) (auto simp: skill_version_clash_def)
  have le: "w_number v \<le> fold max (map w_number ?own) 0" if "v \<in> set ?own" for v
    by (rule le_fold_max) (use that in simp)
  from r assms(2) consider v where "find (\<lambda>v. w_status v = DRAFT) ?own = Some v" "plan = EditSkill v"
    | "plan = AddSkill (fold max (map w_number ?own) 0 + 1)"
    by (auto simp: skill_draft_read_def Let_def split: option.splits)
  then show ?thesis
  proof cases
    case 1
    then have "v \<in> set (skill_versions db)" "w_status v = DRAFT" by (auto dest: find_in)
    with d have "w_status x = DRAFT" if "x \<in> set (skill_versions db)" "w_pk x = w_pk v" for x
      using that by (metis distinct_map inj_onD)
    with 1 r writable_skill_row [OF r(1)] show ?thesis by auto
  next
    case 2
    with le r writable_skill_row [OF r(1)] show ?thesis by (fastforce simp: less_Suc_eq_le)
  qed
qed

lemma create_skill_grows:
  assumes "skills_ok db" "i < 2 ^ 128"
  shows "skills_ok (snd (create_skill i j oid n s c now db)) \<and>
    skill_versions_grow (skill_versions db) (skill_versions (snd (create_skill i j oid n s c now db)))"
proof (cases "fst (create_skill i j oid n s c now db) = None")
  case True
  then have "snd (create_skill i j oid n s c now db) = db"
    by (auto simp: create_skill_def Let_def split: option.splits if_splits sum.splits)
  with assms(1) show ?thesis by simp
next
  case False
  then obtain owner where o: "UUID oid = Some owner" by (auto simp: create_skill_def split: option.splits)
  define r where "r = \<lparr>k_pk = i, k_owner = owner, k_name = n, k_subject = s, k_visibility = PRIVATE, k_calls = 0,
      k_deleted = False, k_enabled = True, k_reason = None, k_disabled_by = None, k_disabled_at = None,
      k_created = now, k_updated = now\<rparr>"
  have r: "k_pk r = i" "k_owner r = owner" by (simp_all add: r_def)
  from False o obtain rows vs where u: "user_row db owner \<noteq> None" and rows: "sql_insert skill_clash r (skill_rows db) = Inr rows"
      and vs: "sql_insert skill_version_clash (new_skill_version j i FIRST_VERSION c now) (skill_versions db) = Inr vs"
      and db': "snd (create_skill i j oid n s c now db) = db\<lparr>skill_rows := rows, skill_versions := vs\<rparr>"
    by (auto simp: create_skill_def Let_def simp flip: r_def split: if_splits sum.splits)
  have sn: "rows = skill_rows db @ [r]" "\<And>k. k \<in> set (skill_rows db) \<Longrightarrow> k_pk k \<noteq> i"
    using rows r by (auto simp: sql_insert_Inr skill_clash_def)
  have ok: "skills_ok (db\<lparr>skill_rows := rows\<rparr>)"
  proof -
    have i: "i \<notin> k_pk ` set (skill_rows db)" using sn(2) by blast
    have us: "user_row (db\<lparr>skill_rows := rows\<rparr>) = user_row db" by (simp add: user_row_def fun_eq_iff)
    show ?thesis unfolding skills_ok_def us using assms u i
      by (intro conjI) (simp_all add: skills_ok_def sn(1) r subset_insertI2)
  qed
  have "skills_ok (db\<lparr>skill_rows := rows, skill_versions := vs\<rparr>) \<and> skill_versions_grow (skill_versions db) vs"
  proof -
    have "w_skill x \<noteq> i" if "x \<in> set (skill_versions db)" for x
    proof -
      have "w_skill ` set (skill_versions db) \<subseteq> k_pk ` set (skill_rows db)" using assms(1) by (simp add: skills_ok_def)
      with that obtain k where "k \<in> set (skill_rows db)" "w_skill x = k_pk k" by (auto simp: subset_iff image_iff)
      with sn(2) show ?thesis by simp
    qed
    moreover have "i \<in> k_pk ` set rows" by (simp add: sn(1) r)
    ultimately show ?thesis using skill_insert_ok [OF ok, of j i FIRST_VERSION c now vs] vs by simp
  qed
  then show ?thesis by (simp add: db')
qed

lemma skill_step_grows:
  assumes ok: "skills_ok db" and good: "skill_plan_fresh x db"
  shows "skills_ok (skill_step x db) \<and> skill_versions_grow (skill_versions db) (skill_versions (skill_step x db))"
proof (cases x)
  case (NewSkill i j oid n s c now)
  with good create_skill_grows [OF ok, of i] show ?thesis by simp
next
  case (SkillWrite j i oid c now)
  show ?thesis
  proof (cases "skill_draft_read i oid db")
    case None
    with ok SkillWrite show ?thesis by (simp add: skill_write_draft_def)
  next
    case (Some pr)
    obtain k plan where pr: "pr = (k, plan)" by fastforce
    note fr = skill_draft_read_fresh [OF ok Some [unfolded pr], of j c now]
    show ?thesis
      using skill_commit_grows [OF ok fr] Some pr ok SkillWrite
      by (cases "skill_draft_commit j k plan c now db") (auto simp: skill_write_draft_def)
  qed
next
  case (SkillCommit j i plan c now)
  then show ?thesis
    using skill_commit_grows [OF ok, of j i plan c now] good ok by (cases "skill_draft_commit j i plan c now db") auto
next
  case (SkillRelease i oid now)
  have "skills_ok (snd (skill_release i oid now db)) \<and> skill_versions_grow (skill_versions db) (skill_versions (snd (skill_release i oid now db)))"
  proof (cases "fst (skill_release i oid now db) = None")
    case True
    then have "snd (skill_release i oid now db) = db" by (auto simp: skill_release_def split: option.splits prod.splits list.splits)
    with ok show ?thesis by simp
  next
    case False
    then obtain u owner where io: "UUID i = Some u" "UUID oid = Some owner" by (auto simp: skill_release_def split: option.splits)
    define p where "p = (\<lambda>v::SkillVersionRecord. w_skill v = u \<and> w_status v = DRAFT \<and>
        (\<exists>r\<in>set (skill_rows db). k_pk r = u \<and> k_owner r = owner \<and> \<not> k_deleted r))"
    let ?f = "\<lambda>v::SkillVersionRecord. if p v then v\<lparr>w_status := RELEASED, w_released := Some now\<rparr> else v"
    have "snd (skill_release i oid now db) = put_skill u (\<lambda>x. x\<lparr>k_updated := now\<rparr>) (db\<lparr>skill_versions := map ?f (skill_versions db)\<rparr>)"
      using False io by (auto simp: skill_release_def sql_update_returning_def p_def split: list.splits)
    moreover have "skills_ok (put_skill u (\<lambda>x. x\<lparr>k_updated := now\<rparr>) (db\<lparr>skill_versions := map ?f (skill_versions db)\<rparr>)) \<and>
        skill_versions_grow (skill_versions db) (map ?f (skill_versions db))"
      by (rule skill_update_ok [OF ok]) (auto simp: p_def split: if_splits)
    ultimately show ?thesis by simp
  qed
  with SkillRelease show ?thesis by simp
next
  case (SkillMeta i oid s now)
  with ok show ?thesis by (auto simp: skill_update_meta_def Let_def split: option.splits intro!: put_skill_ok)
next
  case (SkillShare i oid v gs now)
  with ok show ?thesis
    by (auto simp: skill_set_sharing_def Let_def split: option.splits intro!: skill_shares_ok put_skill_ok)
next
  case (SkillDelete i oid now)
  with ok show ?thesis by (auto simp: skill_delete_def split: option.splits intro!: put_skill_ok)
next
  case (SkillSwitch i e r aid now)
  with ok show ?thesis by (auto simp: skill_set_catalog_enabled_def split: option.splits intro!: put_skill_ok)
next
  case (SkillCount i)
  with ok show ?thesis by (auto simp: skill_count_call_def split: option.splits intro!: put_skill_ok)
qed

interpretation skill_history: version_history skill_step skill_versions w_skill w_number "\<lambda>v. w_status v = RELEASED" skills_ok skill_plan_fresh
  by unfold_locales (simp_all add: skill_step_grows)


text \<open>The same promise for Skills: whatever is called next, the row of a released version stays as it is, and a version that appears later
  has a greater number than every version its Skill had.\<close>

theorem skill_released_frozen:
  assumes "skills_ok db" "all_good skill_plan_fresh skill_step xs db" "v \<in> set (skill_versions db)" "w_status v = RELEASED"
  shows "v \<in> set (skill_versions (fold skill_step xs db)) \<and>
    (\<forall>w\<in>set (skill_versions (fold skill_step xs db)).
       (\<exists>u\<in>set (skill_versions db). w_skill u = w_skill w \<and> w_number u = w_number w) \<or>
       (\<forall>u\<in>set (skill_versions db). w_skill u = w_skill w \<longrightarrow> w_number u < w_number w))"
proof (intro conjI ballI)
  show "v \<in> set (skill_versions (fold skill_step xs db))" by (rule skill_history.frozen_kept [OF assms])
qed (rule skill_history.numbers_kept [OF assms(1,2)])

section \<open>What a reference means\<close>

text \<open>The version of a Skill a user may refer to: for the owner and the groups it is shared with, the latest released one; for everybody
  else the latest approved one of a Skill on the catalogue.\<close>

definition skill_visible_version :: "uuid \<Rightarrow> 'a PresetDb_scheme \<Rightarrow> SkillRecord \<Rightarrow> SkillVersionRecord \<Rightarrow> bool" where
  "skill_visible_version u db k v \<longleftrightarrow> v \<in> set (skill_versions db) \<and> w_skill v = k_pk k \<and>
     (let approved = (\<lambda>w. w_skill w = k_pk k \<and> approved_target KIND_SKILL db (w_pk w));
          released = (\<lambda>w. w_skill w = k_pk k \<and> w_status w = RELEASED) in
      if (k_owner k = u \<or> k_visibility k = GROUP \<and> shared_with KIND_SKILL u db (k_pk k)) \<and> (\<exists>w\<in>set (skill_versions db). released w)
      then released v \<and> (\<forall>w\<in>set (skill_versions db). released w \<longrightarrow> w_number w \<le> w_number v)
      else k_enabled k \<and> approved v \<and> (\<forall>w\<in>set (skill_versions db). approved w \<longrightarrow> w_number w \<le> w_number v))"

lemma skill_latest:
  assumes "skills_ok db" "\<And>v. p v \<Longrightarrow> w_skill v = i"
  shows "latest w_number (filter p (skill_versions db)) = Some v \<longleftrightarrow>
    v \<in> set (skill_versions db) \<and> p v \<and> (\<forall>w\<in>set (skill_versions db). p w \<longrightarrow> w_number w \<le> w_number v)"
proof (rule latest_unique)
  fix v w
  assume vw: "v \<in> set (skill_versions db)" "w \<in> set (skill_versions db)" "p v" "p w" "w_number v = w_number w"
  have "unclashed skill_version_clash (skill_versions db)" using assms(1) by (simp add: skills_ok_def)
  from unclashedD [OF this vw(1,2)] assms(2) [OF vw(3)] assms(2) [OF vw(4)] vw(5) clash_sym(4)
  show "v = w" by (auto simp: skill_version_clash_def)
qed

lemma skill_available_visible:
  assumes ok: "skills_ok db" and k: "k \<in> set (skill_rows db)"
  shows "map_option fst (skill_available u db k) = Some v \<longleftrightarrow> \<not> k_deleted k \<and> skill_visible_version u db k v"
proof -
  let ?approved = "\<lambda>w. w_skill w = k_pk k \<and> approved_target KIND_SKILL db (w_pk w)"
  let ?released = "\<lambda>w. w_skill w = k_pk k \<and> w_status w = RELEASED"
  let ?near = "k_owner k = u \<or> k_visibility k = GROUP \<and> shared_with KIND_SKILL u db (k_pk k)"
  have A: "skill_latest_approved db (k_pk k) = Some w \<longleftrightarrow> w \<in> set (skill_versions db) \<and> ?approved w \<and>
      (\<forall>x\<in>set (skill_versions db). ?approved x \<longrightarrow> w_number x \<le> w_number w)" for w
    unfolding skill_latest_approved_def by (rule skill_latest [OF ok, of ?approved "k_pk k"]) simp
  have R: "skill_latest_released db (k_pk k) = Some w \<longleftrightarrow> w \<in> set (skill_versions db) \<and> ?released w \<and>
      (\<forall>x\<in>set (skill_versions db). ?released x \<longrightarrow> w_number x \<le> w_number w)" for w
    unfolding skill_latest_released_def by (rule skill_latest [OF ok, of ?released "k_pk k"]) simp
  have R0: "skill_latest_released db (k_pk k) = None \<longleftrightarrow> \<not> (\<exists>w\<in>set (skill_versions db). ?released w)"
    by (auto simp: skill_latest_released_def filter_empty_conv)
  obtain ur where u: "user_row db (k_owner k) = Some ur" using ok k by (auto simp: skills_ok_def)
  show ?thesis
  proof (cases "?near \<and> (\<exists>w\<in>set (skill_versions db). ?released w)")
    case True
    then obtain w where w: "skill_latest_released db (k_pk k) = Some w" using R0 by auto
    then have "map_option fst (skill_available u db k) = (if k_deleted k then None else skill_latest_released db (k_pk k))"
      using u True by (auto simp: skill_available_def Let_def)
    then show ?thesis unfolding skill_visible_version_def Let_def if_P [OF True] by (simp add: R conj_assoc)
  next
    case False
    then have c: "\<not> ?near \<or> skill_latest_released db (k_pk k) = None" unfolding R0 by blast
    have "map_option fst (skill_available u db k) =
        (if k_deleted k \<or> \<not> k_enabled k then None else skill_latest_approved db (k_pk k))"
    proof (cases "skill_latest_approved db (k_pk k)")
      case None
      from c None u show ?thesis by (elim disjE) (simp_all add: skill_available_def Let_def)
    next
      case (Some w)
      from c Some u show ?thesis by (elim disjE) (auto simp add: skill_available_def Let_def)
    qed
    then show ?thesis unfolding skill_visible_version_def Let_def if_not_P [OF False] by (simp add: A conj_ac)
  qed
qed

text \<open>What a reference to a Skill resolves to is exactly its rule of visibility; unlike for agents, the owner and the groups see the latest
  released version even when an older one is on the catalogue.\<close>

theorem skill_resolve_visible:
  assumes "skills_ok db" "UUID ident = Some i" "UUID user_id = Some u"
  shows "skill_resolve ident user_id db = Some r \<longleftrightarrow>
    (\<exists>k\<in>set (skill_rows db). \<exists>v. k_pk k = i \<and> \<not> k_deleted k \<and> skill_visible_version u db k v \<and>
       r = \<lparr>rs_id = uuid_hex i, rs_name = k_name k, rs_version = w_number v\<rparr>)"
proof -
  from assms(1) have d: "distinct (map k_pk (skill_rows db))" by (simp add: skills_ok_def)
  have f: "find (\<lambda>k. k_pk k = i \<and> skill_available u db k \<noteq> None) (skill_rows db) =
      (case skill_row db i of None \<Rightarrow> None | Some k \<Rightarrow> if skill_available u db k \<noteq> None then Some k else None)"
    unfolding skill_row_def by (rule find_guarded [OF d])
  show ?thesis
  proof (cases "skill_row db i")
    case None
    then have "k_pk k \<noteq> i" if "k \<in> set (skill_rows db)" for k using that by (auto simp: skill_row_def find_None_iff)
    with None f assms(2,3) show ?thesis by (auto simp: skill_resolve_def)
  next
    case (Some k)
    note k = skill_row_in [OF Some]
    have only: "x = k" if "x \<in> set (skill_rows db)" "k_pk x = i" for x using that k d by (metis distinct_map inj_onD)
    have "skill_resolve ident user_id db = map_option (\<lambda>v. \<lparr>rs_id = uuid_hex i, rs_name = k_name k, rs_version = w_number v\<rparr>)
        (map_option fst (skill_available u db k))"
      using Some f assms(2,3) k by (cases "skill_available u db k") (auto simp: skill_resolve_def)
    then have "skill_resolve ident user_id db = Some r \<longleftrightarrow>
        (\<exists>v. map_option fst (skill_available u db k) = Some v \<and> r = \<lparr>rs_id = uuid_hex i, rs_name = k_name k, rs_version = w_number v\<rparr>)"
      by (cases "skill_available u db k") auto
    also have "\<dots> \<longleftrightarrow> (\<exists>v. (\<not> k_deleted k \<and> skill_visible_version u db k v) \<and>
        r = \<lparr>rs_id = uuid_hex i, rs_name = k_name k, rs_version = w_number v\<rparr>)"
      using skill_available_visible [OF assms(1), of k u] k by simp
    finally show ?thesis using k only by blast
  qed
qed

section \<open>A Skill on the catalogue\<close>

definition example_skills :: PresetDb where
  "example_skills = example_catalogue
     \<lparr>skill_rows := [\<lparr>k_pk = 50, k_owner = 1, k_name = ''k'', k_subject = [], k_visibility = GROUP, k_calls = 0, k_deleted = False,
                      k_enabled = True, k_reason = None, k_disabled_by = None, k_disabled_at = None, k_created = 0, k_updated = 0\<rparr>],
      skill_versions := map (\<lambda>n. \<lparr>w_pk = 60 + n, w_skill = 50, w_number = n, w_status = RELEASED, w_description = [], w_files = 1,
                      w_bytes = 1, w_created = 0, w_released = Some 0\<rparr>) [1, 2],
      reviews := [\<lparr>rv_pk = 31, rv_kind = KIND_SKILL, rv_target = 61, rv_status = RV_APPROVED, rv_confirmed = True, rv_reason = None,
                  rv_by = 1, rv_reviewer = Some 3, rv_created = 0, rv_decided = Some 1\<rparr>]\<rparr>"

lemma example_skills_ok: "skills_ok example_skills"
  by (simp add: skills_ok_def example_skills_def example_catalogue_def unclashed_def skill_version_clash_def user_row_def)

theorem skill_released_frozen_witness:
  "skill_versions example_skills ! 0 \<in>
     set (skill_versions (fold skill_step [SkillDelete (uuid_hex 50) (uuid_hex 1) 5, SkillCount (uuid_hex 50)] example_skills))"
  using skill_released_frozen [OF example_skills_ok, of "[SkillDelete (uuid_hex 50) (uuid_hex 1) 5, SkillCount (uuid_hex 50)]"
      "skill_versions example_skills ! 0"]
  by (simp add: example_skills_def)

theorem skill_resolve_visible_witness:
  "skill_resolve (uuid_hex 50) (uuid_hex 3) example_skills = Some \<lparr>rs_id = uuid_hex 50, rs_name = ''k'', rs_version = 1\<rparr>"
proof (rule iffD2 [OF skill_resolve_visible [OF example_skills_ok, of "uuid_hex 50" 50 "uuid_hex 3" 3]])
  show "\<exists>k\<in>set (skill_rows example_skills). \<exists>v. k_pk k = 50 \<and> \<not> k_deleted k \<and> skill_visible_version 3 example_skills k v \<and>
      \<lparr>rs_id = uuid_hex 50, rs_name = ''k'', rs_version = 1\<rparr> = \<lparr>rs_id = uuid_hex 50, rs_name = k_name k, rs_version = w_number v\<rparr>"
    by (rule bexI [of _ "skill_rows example_skills ! 0"], rule exI [of _ "skill_versions example_skills ! 0"])
      (simp_all add: example_skills_def example_catalogue_def skill_visible_version_def approved_target_def shared_with_def)
qed simp_all

text \<open>Finding. Naming a group twice is harmless for an agent and an unhandled database error for a Skill.\<close>

lemma sharing_twice_fails:
  "skill_set_sharing (uuid_hex 50) (uuid_hex 1) GROUP [uuid_hex 5, uuid_hex 5] 9 example_skills = Inl IntegrityError"
  "set_sharing (uuid_hex 10) (uuid_hex 1) GROUP [uuid_hex 5, uuid_hex 5] 9 example_skills \<noteq> Inl IntegrityError"
  by (simp_all add: skill_set_sharing_def writable_skill_def skill_row_def set_sharing_def writable_def agent_row_def group_row_def
      List.map_filter_def example_skills_def example_catalogue_def Let_def)

end
