(* ===== verification/Review_Repository.thy ===== *)
theory Review_Repository
  imports Skill_Catalog
begin

text \<open>
  The reviews of versions (\<open>app/preset/review.py\<close>): submitting, deciding once, and the queue of a reviewer with the content to review.
  The queue joins a review with the version, the resource and its owner; a missing one drops the row.
\<close>

section \<open>Values\<close>

record Review =
  re_id :: string
  re_kind :: ResourceKind
  re_target :: string
  re_status :: ReviewStatus
  re_confirmed :: bool
  re_reason :: "string option"
  re_by :: string
  re_reviewer :: "string option"
  re_created :: datetime
  re_decided :: "datetime option"

record ReviewItem =
  ri_review :: Review
  ri_owner_name :: string
  ri_description :: string
  ri_subject :: string
  ri_version :: nat
  ri_enabled :: bool
  ri_disabled_reason :: "string option"
  ri_disabled_by :: "string option"
  ri_disabled_at :: "datetime option"
  ri_agent :: "(string \<times> string) option"
  ri_content :: "(string \<times> SkillReference list option \<times> SubagentReference list option \<times> McpReference list option) option"
  ri_skill :: "(string \<times> string) option"
  ri_files :: "(nat \<times> nat) option"

definition to_review :: "ReviewRecord \<Rightarrow> Review" where
  "to_review r =
     \<lparr>re_id = uuid_hex (rv_pk r), re_kind = rv_kind r, re_target = uuid_hex (rv_target r), re_status = rv_status r,
      re_confirmed = rv_confirmed r, re_reason = rv_reason r, re_by = uuid_hex (rv_by r),
      re_reviewer = map_option uuid_hex (rv_reviewer r), re_created = rv_created r, re_decided = rv_decided r\<rparr>"

definition REVIEWABLE_KIND :: "ResourceKind list" where "REVIEWABLE_KIND = [KIND_AGENT, KIND_SKILL]"

section \<open>Operations\<close>

definition submit_review ::
    "uuid \<Rightarrow> string \<Rightarrow> string \<Rightarrow> bool \<Rightarrow> ResourceKind \<Rightarrow> datetime \<Rightarrow> 'a PresetDb_scheme \<Rightarrow> Review option \<times> 'a PresetDb_scheme" where
  "submit_review new_id target_id submitted_by confirmed kind now db =
     (case (UUID target_id, UUID submitted_by) of
        (Some version, Some submitter) \<Rightarrow>
          let r = \<lparr>rv_pk = new_id, rv_kind = kind, rv_target = version, rv_status = RV_PENDING, rv_confirmed = confirmed,
                   rv_reason = None, rv_by = submitter, rv_reviewer = None, rv_created = now, rv_decided = None\<rparr> in
          if user_row db submitter = None then (None, db)
          else (case sql_insert review_clash r (reviews db) of
                  Inl _ \<Rightarrow> (None, db)
                | Inr rows \<Rightarrow> (Some (to_review r), db\<lparr>reviews := rows\<rparr>))
      | _ \<Rightarrow> (None, db))"

definition review_row :: "'a PresetDb_scheme \<Rightarrow> uuid \<Rightarrow> ReviewRecord option" where
  "review_row db i = find (\<lambda>r. rv_pk r = i) (reviews db)"

definition get_review :: "string \<Rightarrow> 'a PresetDb_scheme \<Rightarrow> Review option" where
  "get_review review_id db = Option.bind (UUID review_id) (\<lambda>i. map_option to_review (review_row db i))"

definition decided_review :: "bool \<Rightarrow> string option \<Rightarrow> uuid \<Rightarrow> datetime \<Rightarrow> ReviewRecord \<Rightarrow> ReviewRecord" where
  "decided_review approved reason reviewer now r =
     r\<lparr>rv_status := if approved then RV_APPROVED else RV_REJECTED, rv_reason := reason, rv_reviewer := Some reviewer, rv_decided := Some now\<rparr>"

definition decide_review ::
    "string \<Rightarrow> string \<Rightarrow> bool \<Rightarrow> string option \<Rightarrow> datetime \<Rightarrow> 'a PresetDb_scheme \<Rightarrow> (bool \<times> 'a PresetDb_scheme) result" where
  "decide_review review_id reviewer_id approved reason now db =
     (case (UUID review_id, UUID reviewer_id) of
        (Some i, Some reviewer) \<Rightarrow>
          (case sql_update_returning (\<lambda>r. rv_pk r = i \<and> rv_status r = RV_PENDING) (decided_review approved reason reviewer now) (reviews db) of
             (_, []) \<Rightarrow> Inr (False, db)
           | (rows, _ # _) \<Rightarrow> if user_row db reviewer = None then Inl IntegrityError else Inr (True, db\<lparr>reviews := rows\<rparr>))
      | _ \<Rightarrow> Inr (False, db))"

text \<open>\<open>_item_select\<close> and \<open>_to_item\<close>: one branch for each kind of resource, and none for the servers of tools, which raises.\<close>

definition agent_item :: "'a PresetDb_scheme \<Rightarrow> ReviewRecord \<Rightarrow> ReviewItem option" where
  "agent_item db r =
     Option.bind (find (\<lambda>v. v_pk v = rv_target r) (agent_versions db)) (\<lambda>v.
     Option.bind (agent_row db (v_agent v)) (\<lambda>a.
     map_option (\<lambda>u.
       \<lparr>ri_review = to_review r, ri_owner_name = u_name u, ri_description = a_description a, ri_subject = a_subject a,
        ri_version = v_number v, ri_enabled = a_enabled a, ri_disabled_reason = a_reason a,
        ri_disabled_by = map_option uuid_hex (a_disabled_by a), ri_disabled_at = a_disabled_at a,
        ri_agent = Some (uuid_hex (a_pk a), a_name a), ri_content = Some (v_prompt v, v_skills v, v_subagents v, v_mcps v),
        ri_skill = None, ri_files = None\<rparr>)
     (user_row db (a_owner a))))"

definition skill_item :: "'a PresetDb_scheme \<Rightarrow> ReviewRecord \<Rightarrow> ReviewItem option" where
  "skill_item db r =
     Option.bind (find (\<lambda>v. w_pk v = rv_target r) (skill_versions db)) (\<lambda>v.
     Option.bind (skill_row db (w_skill v)) (\<lambda>k.
     map_option (\<lambda>u.
       \<lparr>ri_review = to_review r, ri_owner_name = u_name u, ri_description = w_description v, ri_subject = k_subject k,
        ri_version = w_number v, ri_enabled = k_enabled k, ri_disabled_reason = k_reason k,
        ri_disabled_by = map_option uuid_hex (k_disabled_by k), ri_disabled_at = k_disabled_at k,
        ri_agent = None, ri_content = None, ri_skill = Some (uuid_hex (k_pk k), k_name k), ri_files = Some (w_files v, w_bytes v)\<rparr>)
     (user_row db (k_owner k))))"

definition review_items :: "ResourceKind \<Rightarrow> (ReviewRecord \<Rightarrow> bool) \<Rightarrow> 'a PresetDb_scheme \<Rightarrow> ReviewItem list result" where
  "review_items kind p db =
     (case kind of
        KIND_AGENT \<Rightarrow> Inr (List.map_filter (agent_item db) (filter (\<lambda>r. rv_kind r = KIND_AGENT \<and> p r) (reviews db)))
      | KIND_MCP \<Rightarrow> Inl ValueError
      | KIND_SKILL \<Rightarrow> Inr (List.map_filter (skill_item db) (filter (\<lambda>r. rv_kind r = KIND_SKILL \<and> p r) (reviews db))))"

definition get_item :: "string \<Rightarrow> 'a PresetDb_scheme \<Rightarrow> ReviewItem option result" where
  "get_item review_id db =
     (case get_review review_id db of
        None \<Rightarrow> Inr None
      | Some r \<Rightarrow> result_bind (review_items (re_kind r) (\<lambda>x. Some (rv_pk x) = UUID (re_id r)) db)
          (\<lambda>items. Inr (case items of [] \<Rightarrow> None | i # _ \<Rightarrow> Some i)))"

definition list_pending :: "'a PresetDb_scheme \<Rightarrow> ReviewItem list result" where
  "list_pending db =
     result_bind (result_list (map (\<lambda>kind. review_items kind (\<lambda>r. rv_status r = RV_PENDING) db) REVIEWABLE_KIND))
       (\<lambda>iss. Inr (sort_key (\<lambda>i. re_created (ri_review i)) (concat iss)))"

text \<open>The \<open>LIMIT\<close> of each kind comes after its \<open>ORDER BY decided_at DESC\<close>.\<close>

definition list_decided :: "nat \<Rightarrow> 'a PresetDb_scheme \<Rightarrow> ReviewItem list result" where
  "list_decided limit db =
     (if limit = 0 then Inr []
      else result_bind (result_list (map (\<lambda>kind.
               result_bind (review_items kind (\<lambda>r. rv_status r \<noteq> RV_PENDING) db)
                 (\<lambda>items. Inr (take limit (sort_key (\<lambda>i. map_option uminus (re_decided (ri_review i))) items)))) REVIEWABLE_KIND))
             (\<lambda>iss. Inr (take limit (sort_key (\<lambda>i. map_option uminus (re_decided (ri_review i))) (concat iss)))))"

definition list_for_target :: "string list \<Rightarrow> ResourceKind \<Rightarrow> 'a PresetDb_scheme \<Rightarrow> Review list" where
  "list_for_target target_ids kind db =
     (let wanted = List.map_filter UUID target_ids in
      map to_review (sort_key (\<lambda>r. - rv_created r) (filter (\<lambda>r. rv_kind r = kind \<and> rv_target r \<in> set wanted) (reviews db))))"

section \<open>A review is decided once\<close>

definition reviews_ok :: "'a PresetDb_scheme \<Rightarrow> bool" where
  "reviews_ok db \<longleftrightarrow> unclashed review_clash (reviews db) \<and> (\<forall>r\<in>set (reviews db). rv_pk r < 2 ^ 128)"

datatype review_op =
    RvSubmit uuid string string bool ResourceKind datetime
  | RvDecide string string bool "string option" datetime

fun review_step :: "review_op \<Rightarrow> 'a PresetDb_scheme \<Rightarrow> bool \<times> 'a PresetDb_scheme" where
  "review_step (RvSubmit i t u c k now) db = (case submit_review i t u c k now db of (r, db') \<Rightarrow> (r \<noteq> None, db'))"
| "review_step (RvDecide i u a reason now) db = (case decide_review i u a reason now db of Inl _ \<Rightarrow> (False, db) | Inr r \<Rightarrow> r)"

fun review_key :: "review_op \<Rightarrow> uuid option" where
  "review_key (RvSubmit i _ _ _ _ _) = Some i"
| "review_key (RvDecide i _ _ _ _) = UUID i"

fun review_target :: "review_op \<Rightarrow> ReviewStatus" where
  "review_target (RvSubmit _ _ _ _ _ _) = RV_PENDING"
| "review_target (RvDecide _ _ a _ _) = (if a then RV_APPROVED else RV_REJECTED)"

definition review_status :: "'a PresetDb_scheme \<Rightarrow> uuid \<Rightarrow> ReviewStatus option" where
  "review_status db i = map_option rv_status (review_row db i)"

definition review_final :: "ReviewStatus \<Rightarrow> bool" where "review_final s \<longleftrightarrow> s \<noteq> RV_PENDING"

lemma decided_review_sels [simp]:
  "rv_pk (decided_review a r u now x) = rv_pk x" "rv_kind (decided_review a r u now x) = rv_kind x"
  "rv_target (decided_review a r u now x) = rv_target x" "rv_status (decided_review a r u now x) = (if a then RV_APPROVED else RV_REJECTED)"
  by (simp_all add: decided_review_def)

text \<open>The two calls in closed form.\<close>

lemma decide_review_cases:
  assumes "decide_review i u a reason now db = Inr (b, db')" "unclashed review_clash (reviews db)"
  obtains "\<not> b" "db' = db"
  | k v r where "b" "UUID i = Some k" "UUID u = Some v" "review_row db k = Some r" "rv_status r = RV_PENDING" "user_row db v \<noteq> None"
      "db' = db\<lparr>reviews := map (\<lambda>x. if rv_pk x = k \<and> rv_status x = RV_PENDING then decided_review a reason v now x else x) (reviews db)\<rparr>"
proof (cases "UUID i")
  case None
  with assms(1) show ?thesis by (intro that(1)) (auto simp: decide_review_def)
next
  case i: (Some k)
  show ?thesis
  proof (cases "UUID u")
    case None
    with assms(1) i show ?thesis by (intro that(1)) (auto simp: decide_review_def)
  next
    case u: (Some v)
    have d: "distinct (map rv_pk (reviews db))"
      using assms(2) by (rule unclashed_distinct) (simp add: review_clash_def)
    obtain rows res where s: "sql_update_returning (\<lambda>r. rv_pk r = k \<and> rv_status r = RV_PENDING) (decided_review a reason v now) (reviews db) = (rows, res)"
      by fastforce
    note res = sql_update_returning_single [OF d _ s, of k, simplified]
    note row = find_guarded [OF d, of k "\<lambda>r. rv_status r = RV_PENDING"]
    show ?thesis
    proof (cases "find (\<lambda>r. rv_pk r = k \<and> rv_status r = RV_PENDING) (reviews db)")
      case None
      with assms(1) i u s res show ?thesis by (intro that(1)) (auto simp: decide_review_def)
    next
      case (Some r)
      with row have r: "review_row db k = Some r" "rv_status r = RV_PENDING"
        by (auto simp: review_row_def split: option.splits if_splits)
      from assms(1) s res Some i u have "b" "user_row db v \<noteq> None" "db' = db\<lparr>reviews := rows\<rparr>"
        by (auto simp: decide_review_def split: if_splits)
      with r res(2) i u show ?thesis by (intro that(2)) auto
    qed
  qed
qed

lemma submit_review_cases:
  assumes "submit_review i t u c k now db = (x, db')"
  obtains "x = None" "db' = db"
  | r where "x = Some (to_review r)" "rv_pk r = i" "rv_kind r = k" "UUID t = Some (rv_target r)" "UUID u = Some (rv_by r)" "rv_status r = RV_PENDING"
      "user_row db (rv_by r) \<noteq> None" "sql_insert review_clash r (reviews db) = Inr (reviews db')" "db' = db\<lparr>reviews := reviews db @ [r]\<rparr>"
proof (cases "x = None")
  case True
  with assms show ?thesis
    by (intro that(1)) (auto simp: submit_review_def Let_def split: option.splits if_splits sum.splits)
next
  case False
  with assms obtain tv uv where tu: "UUID t = Some tv" "UUID u = Some uv" by (auto simp: submit_review_def split: option.splits)
  define r where "r = \<lparr>rv_pk = i, rv_kind = k, rv_target = tv, rv_status = RV_PENDING, rv_confirmed = c,
      rv_reason = None, rv_by = uv, rv_reviewer = None, rv_created = now, rv_decided = None\<rparr>"
  from False assms tu show ?thesis
    by (intro that(2) [of r])
      (auto simp: submit_review_def Let_def sql_insert_Inr r_def [symmetric] split: if_splits sum.splits, auto simp: r_def)
qed

lemma decided_clash:
  "review_clash (if p y then decided_review a r u now y else y) (if p x then decided_review a r u now x else x) \<Longrightarrow> review_clash y x"
  by (auto simp: review_clash_def split: if_splits)

text \<open>A decided review keeps its status: the reviews are a guarded store.\<close>

interpretation review_store: guarded_writes review_step review_status review_key review_target review_final
  "\<lambda>db :: 'a PresetDb_scheme. unclashed review_clash (reviews db)"
proof
  fix db db' :: "'a PresetDb_scheme" and x b
  assume d: "unclashed review_clash (reviews db)" and s: "review_step x db = (b, db')"
  show "unclashed review_clash (reviews db')"
  proof (cases x)
    case (RvSubmit i t u c k now)
    obtain y db1 where "submit_review i t u c k now db = (y, db1)" by fastforce
    from submit_review_cases [OF this] d s RvSubmit this show ?thesis by cases (auto simp: unclashed_insert)
  next
    case (RvDecide i u a reason now)
    show ?thesis
    proof (cases "decide_review i u a reason now db")
      case (Inr y)
      with s RvDecide have "decide_review i u a reason now db = Inr (b, db')" by simp
      from this d show ?thesis
      proof (cases rule: decide_review_cases)
        case (2 k v r)
        show ?thesis unfolding 2(7) by (simp, rule unclashed_map [OF d], rule decided_clash)
      qed (simp add: d)
    qed (use s d RvDecide in simp)
  qed
next
  have step: "case review_status db k of None \<Rightarrow> True
    | Some v \<Rightarrow> if b \<and> review_key x = Some k \<and> review_final (review_target x)
        then \<not> review_final v \<and> review_status db' k = Some (review_target x) else review_status db' k = Some v"
    if d: "unclashed review_clash (reviews db)" and s: "review_step x db = (b, db')"
    for db db' :: "'a PresetDb_scheme" and x b k
  proof (cases x)
    case (RvSubmit i t u c kind now)
    obtain y db1 where sub: "submit_review i t u c kind now db = (y, db1)" by fastforce
    from submit_review_cases [OF sub] show ?thesis
      using s RvSubmit sub by cases (auto simp: review_status_def review_row_def find_append review_final_def split: option.splits)
  next
    case (RvDecide i u a reason now)
    show ?thesis
    proof (cases "decide_review i u a reason now db")
      case (Inr y)
      with s RvDecide have "decide_review i u a reason now db = Inr (b, db')" by simp
      from this d show ?thesis
      proof (cases rule: decide_review_cases)
        case 1
        with RvDecide show ?thesis by (auto split: option.splits)
      next
        case (2 j v r)
        have "review_row db' k = map_option (\<lambda>x. if k = j \<and> rv_status x = RV_PENDING then decided_review a reason v now x else x) (review_row db k)"
          unfolding review_row_def 2(7) by (simp, rule find_map_update) simp
        with 2 RvDecide show ?thesis by (auto simp: review_status_def review_final_def split: option.splits)
      qed
    qed (use s RvDecide in \<open>auto split: option.splits\<close>)
  qed
  fix db db' :: "'a PresetDb_scheme" and x b k v
  assume d: "unclashed review_clash (reviews db)" and s: "review_step x db = (b, db')" and v: "review_status db k = Some v"
  from step [OF d s, of k] v
  show "review_final v \<Longrightarrow> review_status db' k = Some v \<and> \<not> (b \<and> review_key x = Some k \<and> review_final (review_target x))"
    and "\<not> review_final v \<Longrightarrow> if b \<and> review_key x = Some k \<and> review_final (review_target x) then review_status db' k = Some (review_target x)
      else \<exists>v'. review_status db' k = Some v' \<and> \<not> review_final v'"
    by (auto split: if_splits)
qed

text \<open>A pending review is decided at most once, however the submissions and the decisions of several reviewers interleave: if it is
  still pending nobody's decision took effect, otherwise exactly one did and the review ends with the answer that decision gave.\<close>

theorem one_review_decision:
  assumes "unclashed review_clash (reviews db)" "review_row db i = Some r" "rv_status r = RV_PENDING" "exec_ops review_step ops db = (bs, db')"
  shows "\<exists>r'. review_row db' i = Some r' \<and>
    map review_target (winners review_key review_target review_final i ops bs) = (if rv_status r' = RV_PENDING then [] else [rv_status r'])"
proof -
  have "review_status db i = Some RV_PENDING" "\<not> review_final RV_PENDING" using assms(2,3) by (simp_all add: review_status_def review_final_def)
  from review_store.one_winner [OF assms(1) this assms(4)] show ?thesis by (auto simp: review_status_def review_final_def)
qed

definition example_reviews :: PresetDb where
  "example_reviews = example_catalogue\<lparr>reviews := [\<lparr>rv_pk = 30, rv_kind = KIND_AGENT, rv_target = 21, rv_status = RV_PENDING,
     rv_confirmed = True, rv_reason = None, rv_by = 1, rv_reviewer = None, rv_created = 0, rv_decided = None\<rparr>]\<rparr>"

lemma example_decisions:
  "exec_ops review_step [RvDecide (uuid_hex 30) (uuid_hex 2) False (Some ''no'') 5, RvDecide (uuid_hex 30) (uuid_hex 3) True None 6] example_reviews =
     ([True, False], example_reviews\<lparr>reviews := map (decided_review False (Some ''no'') 2 5) (reviews example_reviews)\<rparr>)"
  by (simp add: example_reviews_def example_catalogue_def decide_review_def sql_update_returning_def decided_review_def user_row_def)

theorem one_review_decision_witness:
  "map review_target (winners review_key review_target review_final 30
     [RvDecide (uuid_hex 30) (uuid_hex 2) False (Some ''no'') 5, RvDecide (uuid_hex 30) (uuid_hex 3) True None 6] [True, False]) = [RV_REJECTED]"
  using one_review_decision [OF _ _ _ example_decisions, of 30 "hd (reviews example_reviews)"]
  by (simp add: example_reviews_def example_catalogue_def unclashed_def review_row_def decided_review_def)

text \<open>Finding. The queue knows two kinds of resources. Reading an item of the third kind raises, and the endpoint that decides a review
  reads the item without asking for its kind first: a reviewer who posts the id of the review of a server gets an internal error.\<close>

lemma server_review_item_raises:
  assumes "get_review review_id db = Some r" "re_kind r = KIND_MCP"
  shows "get_item review_id db = Inl ValueError"
  using assms by (simp add: get_item_def review_items_def)

end
