(* ===== verification/Mcp_Catalog.thy ===== *)
theory Mcp_Catalog
  imports Preset_Model Programs
begin

text \<open>
  The catalogue of servers of external tools (\<open>app/preset/mcp.py\<close>), the breaker that takes a failing one off it
  (\<open>app/agent/circuit.py\<close>), and what an analysis gets of the servers it refers to (\<open>app/agent/mcp.py\<close>). What a server answers is an
  argument; the texts of the messages are functions. Redis keeps for a key the count and the time it expires.
\<close>

section \<open>The repository\<close>

record McpServer =
  ms_id :: string
  ms_name :: string
  ms_description :: string
  ms_url :: string
  ms_transport :: McpTransport
  ms_credential :: "string option"
  ms_tools :: "string list"
  ms_latency :: string
  ms_stores :: bool
  ms_sends :: bool
  ms_writes :: bool
  ms_status :: McpStatus
  ms_reason :: "string option"
  ms_by :: string
  ms_reviewer :: "string option"
  ms_created :: datetime
  ms_updated :: datetime

record McpApplication =
  ma_name :: string
  ma_description :: string
  ma_url :: string
  ma_transport :: McpTransport
  ma_credential :: "string option"
  ma_tools :: "string list"
  ma_latency :: string
  ma_stores :: bool
  ma_sends :: bool
  ma_writes :: bool

definition to_server :: "McpServerRecord \<Rightarrow> McpServer" where
  "to_server r =
     \<lparr>ms_id = uuid_hex (m_pk r), ms_name = m_name r, ms_description = m_description r, ms_url = m_url r, ms_transport = m_transport r,
      ms_credential = m_credential r, ms_tools = m_tools r, ms_latency = m_latency r, ms_stores = m_stores r, ms_sends = m_sends r,
      ms_writes = m_writes r, ms_status = m_status r, ms_reason = m_reason r, ms_by = uuid_hex (m_by r),
      ms_reviewer = map_option uuid_hex (m_reviewer r), ms_created = m_created r, ms_updated = m_updated r\<rparr>"

definition apply_mcp :: "uuid \<Rightarrow> McpApplication \<Rightarrow> string \<Rightarrow> datetime \<Rightarrow> 'a PresetDb_scheme \<Rightarrow> McpServer option \<times> 'a PresetDb_scheme" where
  "apply_mcp new_id a submitted_by now db =
     (case UUID submitted_by of
        None \<Rightarrow> (None, db)
      | Some submitter \<Rightarrow>
          let r = \<lparr>m_pk = new_id, m_name = ma_name a, m_description = ma_description a, m_url = ma_url a, m_transport = ma_transport a,
                   m_credential = ma_credential a, m_tools = ma_tools a, m_latency = ma_latency a, m_stores = ma_stores a,
                   m_sends = ma_sends a, m_writes = ma_writes a, m_status = MCP_PENDING, m_reason = None, m_by = submitter,
                   m_reviewer = None, m_created = now, m_updated = now\<rparr> in
          if user_row db submitter = None then (None, db)
          else (case sql_insert mcp_clash r (mcp_servers db) of
                  Inl _ \<Rightarrow> (None, db)
                | Inr rows \<Rightarrow> (Some (to_server r), db\<lparr>mcp_servers := rows\<rparr>)))"

definition mcp_row :: "'a PresetDb_scheme \<Rightarrow> uuid \<Rightarrow> McpServerRecord option" where
  "mcp_row db i = find (\<lambda>r. m_pk r = i) (mcp_servers db)"

definition get_mcp :: "string \<Rightarrow> 'a PresetDb_scheme \<Rightarrow> McpServer option" where
  "get_mcp sid db = Option.bind (UUID sid) (\<lambda>i. map_option to_server (mcp_row db i))"

definition list_mcp :: "(string \<Rightarrow> 'k::linorder) \<Rightarrow> McpStatus option \<Rightarrow> 'a PresetDb_scheme \<Rightarrow> McpServer list" where
  "list_mcp coll status db =
     map to_server (sort_key (\<lambda>r. coll (m_name r)) (filter (\<lambda>r. status = None \<or> status = Some (m_status r)) (mcp_servers db)))"

text \<open>The three conditional updates of the status: one row, by its key and the statuses it may be in.\<close>

definition mcp_transit ::
    "string \<Rightarrow> McpStatus list \<Rightarrow> (McpServerRecord \<Rightarrow> McpServerRecord) \<Rightarrow> 'a PresetDb_scheme \<Rightarrow> bool \<times> 'a PresetDb_scheme" where
  "mcp_transit sid allowed f db =
     (case UUID sid of
        None \<Rightarrow> (False, db)
      | Some i \<Rightarrow>
          (case sql_update_returning (\<lambda>r. m_pk r = i \<and> m_status r \<in> set allowed) f (mcp_servers db) of
             (rows, found) \<Rightarrow> (found \<noteq> [], db\<lparr>mcp_servers := rows\<rparr>)))"

definition decide_mcp ::
    "string \<Rightarrow> string \<Rightarrow> bool \<Rightarrow> string option \<Rightarrow> datetime \<Rightarrow> 'a PresetDb_scheme \<Rightarrow> bool \<times> 'a PresetDb_scheme" where
  "decide_mcp sid reviewer_id approved reason now db =
     (case UUID reviewer_id of
        None \<Rightarrow> (False, db)
      | Some reviewer \<Rightarrow> mcp_transit sid [MCP_PENDING]
          (\<lambda>r. r\<lparr>m_status := (if approved then MCP_ENABLED else MCP_REJECTED), m_reason := (if approved then None else reason),
                 m_reviewer := Some reviewer, m_updated := now\<rparr>) db)"

definition set_mcp_enabled :: "string \<Rightarrow> bool \<Rightarrow> string option \<Rightarrow> datetime \<Rightarrow> 'a PresetDb_scheme \<Rightarrow> bool \<times> 'a PresetDb_scheme" where
  "set_mcp_enabled sid enabled reason now db =
     mcp_transit sid [MCP_ENABLED, MCP_DISABLED]
       (\<lambda>r. r\<lparr>m_status := (if enabled then MCP_ENABLED else MCP_DISABLED), m_reason := (if enabled then None else reason), m_updated := now\<rparr>) db"

definition disable_for_failure :: "string \<Rightarrow> string \<Rightarrow> datetime \<Rightarrow> 'a PresetDb_scheme \<Rightarrow> bool \<times> 'a PresetDb_scheme" where
  "disable_for_failure sid reason now db =
     mcp_transit sid [MCP_ENABLED] (\<lambda>r. r\<lparr>m_status := MCP_DISABLED, m_reason := Some reason, m_updated := now\<rparr>) db"

record McpTarget =
  mt_id :: string
  mt_name :: string
  mt_url :: string
  mt_transport :: McpTransport
  mt_credential :: "string option"
  mt_declared :: "string list"
  mt_enabled :: bool
  mt_reason :: "string option"

definition load_mcp_target :: "(string \<rightharpoonup> string) \<Rightarrow> string \<Rightarrow> 'a PresetDb_scheme \<Rightarrow> McpTarget option" where
  "load_mcp_target credentials sid db =
     map_option (\<lambda>r. \<lparr>mt_id = ms_id r, mt_name = ms_name r, mt_url = ms_url r, mt_transport = ms_transport r,
         mt_credential = Option.bind (ms_credential r) credentials, mt_declared = ms_tools r,
         mt_enabled = (ms_status r = MCP_ENABLED), mt_reason = ms_reason r\<rparr>) (get_mcp sid db)"

section \<open>The breaker\<close>

definition MCP_FAILURE_THRESHOLD :: nat where "MCP_FAILURE_THRESHOLD = 5"
definition FAILURE_TTL_SECOND :: int where "FAILURE_TTL_SECOND = 7 * 24 * 3600"

text \<open>The keys of the counters without the prefix they all have.\<close>

type_synonym FailureStore = "string \<Rightarrow> (nat \<times> int) option"

record 'd McpWorld =
  mw_failures :: FailureStore
  mw_db :: 'd

definition failure_count :: "string \<Rightarrow> int \<Rightarrow> FailureStore \<Rightarrow> nat" where
  "failure_count sid now F = (case F sid of None \<Rightarrow> 0 | Some (n, expires) \<Rightarrow> if expires \<le> now then 0 else n)"

text \<open>\<open>INCR\<close> and \<open>EXPIRE\<close> in one pipeline.\<close>

definition record_failure ::
    "nat \<Rightarrow> (nat \<Rightarrow> string \<Rightarrow> string) \<Rightarrow> string \<Rightarrow> string \<Rightarrow> int \<Rightarrow> 'a PresetDb_scheme McpWorld \<Rightarrow> 'a PresetDb_scheme McpWorld" where
  "record_failure threshold say sid reason now w =
     (let count = failure_count sid now (mw_failures w) + 1;
          w = w\<lparr>mw_failures := (mw_failures w)(sid \<mapsto> (count, now + FAILURE_TTL_SECOND))\<rparr> in
      if count < threshold then w
      else w\<lparr>mw_db := snd (disable_for_failure sid (say count reason) now (mw_db w))\<rparr>)"

definition record_success :: "string \<Rightarrow> 'd McpWorld \<Rightarrow> 'd McpWorld" where
  "record_success sid w = w\<lparr>mw_failures := (mw_failures w)(sid := None)\<rparr>"

definition reset_failures :: "string \<Rightarrow> 'd McpWorld \<Rightarrow> 'd McpWorld" where
  "reset_failures sid w = w\<lparr>mw_failures := (mw_failures w)(sid := None)\<rparr>"

section \<open>The tools of an analysis\<close>

definition MAX_MCP_SERVER :: nat where "MAX_MCP_SERVER = 3"

definition RESERVED_TOOL_NAME :: "string list" where
  "RESERVED_TOOL_NAME =
     [''ls'', ''read_file'', ''write_file'', ''edit_file'', ''delete'', ''glob'', ''grep'', ''execute'', ''task'', ''write_todos'',
      ''ask_user_question'']"

text \<open>What asking a server for its tools may come to.\<close>

datatype McpAnswer = Tools "string list" | ConnectTimeout | ConnectError string

definition load_one ::
    "nat \<Rightarrow> (nat \<Rightarrow> string \<Rightarrow> string) \<Rightarrow> (McpAnswer \<Rightarrow> string) \<Rightarrow> McpTarget \<Rightarrow> McpAnswer \<Rightarrow> int \<Rightarrow> 'a PresetDb_scheme McpWorld \<Rightarrow>
     string list option \<times> 'a PresetDb_scheme McpWorld" where
  "load_one threshold say why target answer now w =
     (case answer of
        Tools names \<Rightarrow> (Some names, record_success (mt_id target) w)
      | _ \<Rightarrow> (None, record_failure threshold say (mt_id target) (why answer) now w))"

text \<open>\<open>_usable\<close>: the kept names, and the names taken so far.\<close>

fun usable :: "string list \<Rightarrow> string list \<Rightarrow> string list \<times> string list" where
  "usable [] taken = ([], taken)"
| "usable (name # names) taken =
     (if name \<in> set RESERVED_TOOL_NAME \<or> name \<in> set taken then usable names taken
      else case usable names (name # taken) of (kept, taken') \<Rightarrow> (name # kept, taken'))"

text \<open>\<open>load_mcp_tools\<close>: the tools as pairs of the server and the name, in the order of the references. Server \<open>k\<close> of the list answers
  \<open>answers k\<close> when it is asked.\<close>

fun load_mcp_tools ::
    "nat \<Rightarrow> (nat \<Rightarrow> string \<Rightarrow> string) \<Rightarrow> (McpAnswer \<Rightarrow> string) \<Rightarrow> (string \<rightharpoonup> string) \<Rightarrow> (nat \<Rightarrow> McpAnswer) \<Rightarrow> int \<Rightarrow> nat \<Rightarrow>
     McpReference list \<Rightarrow> string list \<Rightarrow> 'a PresetDb_scheme McpWorld \<Rightarrow> (string \<times> string) list \<times> 'a PresetDb_scheme McpWorld" where
  "load_mcp_tools threshold say why credentials answers now k [] taken w = ([], w)"
| "load_mcp_tools threshold say why credentials answers now k (r # rs) taken w =
     (case load_mcp_target credentials (server_id r) (mw_db w) of
        None \<Rightarrow> load_mcp_tools threshold say why credentials answers now (k + 1) rs taken w
      | Some target \<Rightarrow>
          if \<not> mt_enabled target then load_mcp_tools threshold say why credentials answers now (k + 1) rs taken w
          else (case load_one threshold say why target (answers k) now w of
                  (None, w) \<Rightarrow> load_mcp_tools threshold say why credentials answers now (k + 1) rs taken w
                | (Some names, w) \<Rightarrow>
                    (case usable names taken of
                       (kept, taken) \<Rightarrow>
                         (case load_mcp_tools threshold say why credentials answers now (k + 1) rs taken w of
                            (rest, w) \<Rightarrow> (map (Pair (mt_id target)) kept @ rest, w)))))"

text \<open>\<open>_CallGuard\<close>: only a timeout counts as a failure and only a result as a success; any other exception passes through.\<close>

datatype 'x McpCall = CallResult 'x | CallTimeout | CallRaises exn

definition call_guard ::
    "nat \<Rightarrow> (nat \<Rightarrow> string \<Rightarrow> string) \<Rightarrow> 'x \<Rightarrow> string \<Rightarrow> string \<Rightarrow> 'x McpCall \<Rightarrow> int \<Rightarrow> 'a PresetDb_scheme McpWorld \<Rightarrow>
     'x result \<times> 'a PresetDb_scheme McpWorld" where
  "call_guard threshold say timeout_answer sid reason call now w =
     (case call of
        CallTimeout \<Rightarrow> (Inr timeout_answer, record_failure threshold say sid reason now w)
      | CallRaises e \<Rightarrow> (Inl e, w)
      | CallResult x \<Rightarrow> (Inr x, record_success sid w))"

section \<open>Tools never take a reserved name\<close>

lemma usable_spec:
  "usable names taken = (kept, taken') \<Longrightarrow> set taken' = set taken \<union> set kept \<and> distinct kept \<and> set kept \<subseteq> set names \<and>
     set kept \<inter> set taken = {} \<and> set kept \<inter> set RESERVED_TOOL_NAME = {}"
proof (induction names arbitrary: taken kept)
  case (Cons name names)
  show ?case
  proof (cases "name \<in> set RESERVED_TOOL_NAME \<or> name \<in> set taken")
    case True
    with Cons.prems have "usable names taken = (kept, taken')" by simp
    from Cons.IH [OF this] show ?thesis by auto
  next
    case False
    obtain kept1 where u: "usable names (name # taken) = (kept1, taken')" "kept = name # kept1"
      using Cons.prems False by (auto split: prod.splits)
    from Cons.IH [OF u(1)] False u(2) show ?thesis by auto
  qed
qed simp

lemma load_mcp_tools_names:
  "load_mcp_tools th say why cr ans now k rs taken w = (out, w') \<Longrightarrow>
   distinct (map snd out) \<and> snd ` set out \<inter> set taken = {} \<and> snd ` set out \<inter> set RESERVED_TOOL_NAME = {}"
proof (induction rs arbitrary: k taken w w' out)
  case (Cons r rs)
  show ?case
  proof (cases "load_mcp_target cr (server_id r) (mw_db w)")
    case None
    with Cons show ?thesis by simp
  next
    case (Some target)
    show ?thesis
    proof (cases "mt_enabled target")
      case False
      with Cons Some show ?thesis by simp
    next
      case True
      obtain o' w1 where l: "load_one th say why target (ans k) now w = (o', w1)" by fastforce
      show ?thesis
      proof (cases o')
        case None
        with Cons Some True l show ?thesis by simp
      next
        case names: (Some names)
        obtain kept taken' where u: "usable names taken = (kept, taken')" by fastforce
        obtain rest w2 where r: "load_mcp_tools th say why cr ans now (k + 1) rs taken' w1 = (rest, w2)" by fastforce
        from Cons.prems Some True l names u r have out: "out = map (Pair (mt_id target)) kept @ rest" by simp
        from usable_spec [OF u] Cons.IH [OF r] show ?thesis
          by (auto simp: out comp_def image_iff disjoint_iff)
      qed
    qed
  qed
qed simp

text \<open>C19. What an analysis gets from the servers it refers to never shadows a tool of the platform and never holds two tools of one name,
  whatever the servers declare or answer.\<close>

theorem tools_never_shadow:
  "case load_mcp_tools threshold say why credentials answers now 0 references [] w of
     (tools, w') \<Rightarrow> distinct (map snd tools) \<and> snd ` set tools \<inter> set RESERVED_TOOL_NAME = {}"
proof (cases "load_mcp_tools threshold say why credentials answers now 0 references [] w")
  case (Pair tools w')
  from load_mcp_tools_names [OF Pair] show ?thesis by (simp add: Pair)
qed

section \<open>The breaker trips exactly on a run of failures\<close>

datatype breaker_event = Failed string int | Succeeded

fun breaker_step ::
    "(nat \<Rightarrow> string \<Rightarrow> string) \<Rightarrow> string \<Rightarrow> breaker_event \<Rightarrow> 'a PresetDb_scheme McpWorld \<Rightarrow> 'a PresetDb_scheme McpWorld" where
  "breaker_step say sid (Failed reason now) w = record_failure MCP_FAILURE_THRESHOLD say sid reason now w"
| "breaker_step say sid Succeeded w = record_success sid w"

text \<open>Failures without a success between them, none of them so long after the one before that the counter has expired.\<close>

fun failed_at :: "breaker_event \<Rightarrow> int" where
  "failed_at (Failed _ now) = now"
| "failed_at Succeeded = 0"

definition failing :: "breaker_event list \<Rightarrow> bool" where
  "failing es \<longleftrightarrow> Succeeded \<notin> set es \<and> successively (\<lambda>a b. failed_at b < failed_at a + FAILURE_TTL_SECOND) es"

lemma failing_snoc:
  "failing (es @ [Failed r t]) \<longleftrightarrow> failing es \<and> (es = [] \<or> t < failed_at (last es) + FAILURE_TTL_SECOND)"
  by (auto simp: failing_def successively_append_iff)

text \<open>The runs at the end of a history, by their length.\<close>

definition run_at_end :: "breaker_event list \<Rightarrow> nat \<Rightarrow> bool" where
  "run_at_end es m \<longleftrightarrow> (\<exists>pre fs. es = pre @ fs \<and> length fs = m \<and> failing fs)"

lemma run_at_end_0 [simp]: "run_at_end es 0"
  by (simp add: run_at_end_def failing_def)

lemma run_at_end_success [simp]: "run_at_end (es @ [Succeeded]) m \<longleftrightarrow> m = 0"
proof
  assume "run_at_end (es @ [Succeeded]) m"
  then obtain pre fs where f: "es @ [Succeeded] = pre @ fs" "length fs = m" "failing fs" by (auto simp: run_at_end_def)
  show "m = 0"
  proof (rule ccontr)
    assume "m \<noteq> 0"
    with f(1,2) have "last fs = Succeeded" "fs \<noteq> []" by (auto, metis last_appendR last_snoc)
    with f(3) show False by (auto simp: failing_def) (metis last_in_set)
  qed
qed simp

lemma run_at_end_failed:
  "run_at_end (es @ [Failed r t]) (Suc m) \<longleftrightarrow>
     m = 0 \<or> (run_at_end es m \<and> es \<noteq> [] \<and> t < failed_at (last es) + FAILURE_TTL_SECOND)"
proof
  assume "run_at_end (es @ [Failed r t]) (Suc m)"
  then obtain pre fs where f: "es @ [Failed r t] = pre @ fs" "length fs = Suc m" "failing fs" by (auto simp: run_at_end_def)
  then obtain fs' where fs: "fs = fs' @ [Failed r t]" "es = pre @ fs'" by (cases fs rule: rev_cases) auto
  with f show "m = 0 \<or> (run_at_end es m \<and> es \<noteq> [] \<and> t < failed_at (last es) + FAILURE_TTL_SECOND)"
    by (auto simp: failing_snoc run_at_end_def)
next
  assume a: "m = 0 \<or> (run_at_end es m \<and> es \<noteq> [] \<and> t < failed_at (last es) + FAILURE_TTL_SECOND)"
  show "run_at_end (es @ [Failed r t]) (Suc m)"
  proof (cases "m = 0")
    case True
    then show ?thesis
      unfolding run_at_end_def by (intro exI [of _ es] exI [of _ "[Failed r t]"]) (simp add: failing_def)
  next
    case False
    with a obtain pre fs where "es = pre @ fs" "length fs = m" "failing fs" "t < failed_at (last es) + FAILURE_TTL_SECOND"
      by (auto simp: run_at_end_def)
    with False show ?thesis
      unfolding run_at_end_def by (intro exI [of _ pre] exI [of _ "fs @ [Failed r t]"]) (auto simp: failing_snoc)
  qed
qed


text \<open>The counter is the length of the longest such run.\<close>

definition counted :: "breaker_event list \<Rightarrow> (nat \<times> int) option \<Rightarrow> bool" where
  "counted es c \<longleftrightarrow> (case c of
       None \<Rightarrow> \<forall>m. run_at_end es m \<longrightarrow> m = 0
     | Some (n, x) \<Rightarrow> es \<noteq> [] \<and> x = failed_at (last es) + FAILURE_TTL_SECOND \<and> (\<forall>m. run_at_end es m \<longleftrightarrow> m \<le> n))"

lemma counted_failed:
  assumes "counted es (F sid)"
  shows "run_at_end (es @ [Failed r t]) m \<longleftrightarrow> m \<le> failure_count sid t F + 1"
proof (cases m)
  case (Suc k)
  show ?thesis
  proof (cases "F sid")
    case None
    with assms Suc show ?thesis by (auto simp: run_at_end_failed counted_def failure_count_def)
  next
    case (Some nx)
    with assms Suc show ?thesis by (auto simp: run_at_end_failed counted_def failure_count_def split: prod.splits)
  qed
qed simp

definition breaker_run :: "(nat \<Rightarrow> string \<Rightarrow> string) \<Rightarrow> string \<Rightarrow> breaker_event list \<Rightarrow> 'a PresetDb_scheme McpWorld \<Rightarrow> 'a PresetDb_scheme McpWorld" where
  "breaker_run say sid es w = fold (breaker_step say sid) es w"

definition mcp_status :: "'a PresetDb_scheme \<Rightarrow> uuid \<Rightarrow> McpStatus option" where
  "mcp_status db i = map_option m_status (mcp_row db i)"

lemma disable_status:
  assumes "UUID sid = Some i"
  shows "mcp_status (snd (disable_for_failure sid reason now db)) i =
    (if mcp_status db i = Some MCP_ENABLED then Some MCP_DISABLED else mcp_status db i)"
proof -
  let ?f = "\<lambda>r::McpServerRecord. r\<lparr>m_status := MCP_DISABLED, m_reason := Some reason, m_updated := now\<rparr>"
  have "mcp_row (snd (disable_for_failure sid reason now db)) i =
      map_option (\<lambda>r. if i = i \<and> m_status r = MCP_ENABLED then ?f r else r) (mcp_row db i)"
    using assms find_map_update [of m_pk ?f i i "\<lambda>r. m_status r = MCP_ENABLED" "mcp_servers db"]
    by (simp add: disable_for_failure_def mcp_transit_def mcp_row_def sql_update_returning_def)
  then show ?thesis by (cases "mcp_row db i") (auto simp: mcp_status_def)
qed

lemma breaker_state:
  assumes "UUID sid = Some i" "mcp_status (mw_db w) i = Some MCP_ENABLED" "mw_failures w sid = None"
  shows "counted es (mw_failures (breaker_run say sid es w) sid) \<and>
    mcp_status (mw_db (breaker_run say sid es w)) i =
      (if \<exists>xs ys. es = xs @ ys \<and> run_at_end xs MCP_FAILURE_THRESHOLD then Some MCP_DISABLED else Some MCP_ENABLED)"
proof (induction es rule: rev_induct)
  case Nil
  have "\<not> run_at_end [] MCP_FAILURE_THRESHOLD" by (simp add: run_at_end_def MCP_FAILURE_THRESHOLD_def)
  with assms show ?case by (simp add: breaker_run_def counted_def run_at_end_def)
next
  case (snoc e es)
  let ?w = "breaker_run say sid es w"
  have run: "breaker_run say sid (es @ [e]) w = breaker_step say sid e ?w" by (simp add: breaker_run_def)
  have split: "(\<exists>xs ys. es @ [e] = xs @ ys \<and> run_at_end xs MCP_FAILURE_THRESHOLD) \<longleftrightarrow>
      (\<exists>xs ys. es = xs @ ys \<and> run_at_end xs MCP_FAILURE_THRESHOLD) \<or> run_at_end (es @ [e]) MCP_FAILURE_THRESHOLD"
  proof
    assume "\<exists>xs ys. es @ [e] = xs @ ys \<and> run_at_end xs MCP_FAILURE_THRESHOLD"
    then obtain xs ys where x: "es @ [e] = xs @ ys" "run_at_end xs MCP_FAILURE_THRESHOLD" by blast
    then show "(\<exists>xs ys. es = xs @ ys \<and> run_at_end xs MCP_FAILURE_THRESHOLD) \<or> run_at_end (es @ [e]) MCP_FAILURE_THRESHOLD"
      by (cases ys rule: rev_cases) auto
  qed (metis append.assoc append_Nil2)
  show ?case
  proof (cases e)
    case Succeeded
    have "\<not> run_at_end (es @ [e]) MCP_FAILURE_THRESHOLD" by (simp add: Succeeded MCP_FAILURE_THRESHOLD_def)
    with snoc.IH Succeeded show ?thesis unfolding run split by (simp add: record_success_def counted_def)
  next
    case (Failed r t)
    let ?c = "failure_count sid t (mw_failures ?w) + 1"
    note c = counted_failed [of es "mw_failures ?w" sid r t, OF conjunct1 [OF snoc.IH]]
    have k: "counted (es @ [e]) (mw_failures (breaker_step say sid e ?w) sid)"
      using c by (auto simp: Failed record_failure_def Let_def counted_def)
    have s: "mcp_status (mw_db (breaker_step say sid e ?w)) i =
        (if ?c < MCP_FAILURE_THRESHOLD then mcp_status (mw_db ?w) i
         else if mcp_status (mw_db ?w) i = Some MCP_ENABLED then Some MCP_DISABLED else mcp_status (mw_db ?w) i)"
      by (simp add: Failed record_failure_def Let_def disable_status [OF assms(1)])
    have "run_at_end (es @ [e]) MCP_FAILURE_THRESHOLD \<longleftrightarrow> \<not> ?c < MCP_FAILURE_THRESHOLD"
      using c [of MCP_FAILURE_THRESHOLD] Failed by auto
    with k s snoc.IH show ?thesis unfolding run split by simp
  qed
qed

text \<open>C18. A server that works is taken off the catalogue exactly when five failures of it have come in a row: no success between them and
  none so long after the one before that its counter had expired. Fewer never disable it, and whatever comes afterwards, only an
  administrator enables it again.\<close>

theorem breaker_exact:
  assumes "UUID sid = Some i" "mcp_status (mw_db w) i = Some MCP_ENABLED" "mw_failures w sid = None"
  shows "mcp_status (mw_db (breaker_run say sid es w)) i =
    (if \<exists>before fs after. es = before @ fs @ after \<and> length fs = MCP_FAILURE_THRESHOLD \<and> failing fs
     then Some MCP_DISABLED else Some MCP_ENABLED)"
proof -
  have "(\<exists>xs ys. es = xs @ ys \<and> run_at_end xs MCP_FAILURE_THRESHOLD) \<longleftrightarrow>
      (\<exists>before fs after. es = before @ fs @ after \<and> length fs = MCP_FAILURE_THRESHOLD \<and> failing fs)"
    unfolding run_at_end_def by (metis append.assoc)
  with breaker_state [OF assms] show ?thesis by simp
qed

definition example_mcp :: "McpStatus \<Rightarrow> bool \<Rightarrow> PresetDb McpWorld" where
  "example_mcp s writes =
     \<lparr>mw_failures = Map.empty,
      mw_db = \<lparr>users = [\<lparr>u_pk = 1, u_name = ''s'', u_email = ''s'', u_dept = [], u_hash = [], u_role = ADMIN, u_quota_tokens = None,
                u_quota_runs = None, u_active = True, u_created = 0\<rparr>],
        groups = [], members = [], join_requests = [], agents = [], agent_versions = [], skill_rows = [], skill_versions = [],
        mcp_servers = [\<lparr>m_pk = 7, m_name = ''m'', m_description = [], m_url = [], m_transport = SSE, m_credential = None,
          m_tools = [''search'', ''grep''], m_latency = [], m_stores = False, m_sends = False, m_writes = writes, m_status = s,
          m_reason = None, m_by = 1, m_reviewer = None, m_created = 0, m_updated = 0\<rparr>],
        reviews = [], shares = []\<rparr>\<rparr>"

lemma breaker_exact_witness:
  "mcp_status (mw_db (breaker_run (\<lambda>n r. r) (uuid_hex 7)
      (Succeeded # map (Failed ''timeout'') [10, 20, 30, 40, 50] @ [Succeeded]) (example_mcp MCP_ENABLED False))) 7 = Some MCP_DISABLED"
proof -
  have "\<exists>before fs after. Succeeded # map (Failed ''timeout'') [10, 20, 30, 40, 50] @ [Succeeded] = before @ fs @ after \<and>
      length fs = MCP_FAILURE_THRESHOLD \<and> failing fs"
    by (intro exI [of _ "[Succeeded]"] exI [of _ "map (Failed ''timeout'') [10, 20, 30, 40, 50]"])
      (simp add: failing_def MCP_FAILURE_THRESHOLD_def FAILURE_TTL_SECOND_def)
  with breaker_exact [of "uuid_hex 7" 7 "example_mcp MCP_ENABLED False" "\<lambda>n r. r"
      "Succeeded # map (Failed ''timeout'') [10, 20, 30, 40, 50] @ [Succeeded]"]
  show ?thesis by (simp add: example_mcp_def mcp_status_def mcp_row_def)
qed

text \<open>Findings. A call of a tool that fails in the transport is not a timeout: nothing is counted, and the exception goes on. Enabling a
  server by another spelling of its identifier leaves the counter of the failures, so the next failure takes it off again.\<close>

lemma transport_error_not_counted:
  "call_guard MCP_FAILURE_THRESHOLD say answer sid reason (CallRaises e) now w = (Inl e, w)"
  by (simp add: call_guard_def)

lemma reset_other_spelling:
  assumes "i < 2 ^ 128"
  shows "set_mcp_enabled (uuid_str i) True reason now db = set_mcp_enabled (uuid_hex i) True reason now db"
    and "failure_count (uuid_hex i) now (mw_failures (reset_failures (uuid_str i) w)) = failure_count (uuid_hex i) now (mw_failures w)"
  using assms uuid_str_neq_hex [of i i]
  by (simp_all add: set_mcp_enabled_def mcp_transit_def failure_count_def reset_failures_def)

end
