(* ===== verification/References.thy ===== *)
theory References
  imports Skill_Catalog Mcp_Catalog
begin

text \<open>
  Freezing what a configuration refers to (\<open>app/preset/reference.py\<close>, \<open>skill_reference.py\<close>, \<open>subagent_reference.py\<close>,
  \<open>mcp_reference.py\<close>): an agent becomes its version and prompt, every chosen Skill, helper agent and server becomes a reference, and a
  submission that names something the user cannot use is refused. Each lookup of one resolution asks the same state of the catalogue.
\<close>

section \<open>Errors and references\<close>

text \<open>Why a resolution fails; \<open>Malformed\<close> is a value the model of a reference rejects.\<close>

datatype reference_error = Unavailable | Nested | TooMany | SameName string | ReservedTool string | Malformed

definition MAX_SKILLS_PER_RUN :: nat where "MAX_SKILLS_PER_RUN = 10"
definition MAX_SUBAGENT :: nat where "MAX_SUBAGENT = 5"

definition skill_reference :: "ResolvedSkill \<Rightarrow> reference_error + SkillReference" where
  "skill_reference r =
     (if rs_id r = [] \<or> rs_version r < 1 \<or> rs_name r = [] then Inl Malformed
      else Inr \<lparr>skill_id = rs_id r, sk_version = rs_version r, sk_name = rs_name r\<rparr>)"

definition subagent_reference :: "ResolvedAgent \<Rightarrow> reference_error + SubagentReference" where
  "subagent_reference r =
     (if ra_id r = [] \<or> ra_version r < 1 \<or> ra_name r = [] then Inl Malformed
      else Inr \<lparr>sub_agent_id = ra_id r, sub_version = ra_version r, sub_name = ra_name r\<rparr>)"

definition mcp_reference :: "McpServer \<Rightarrow> reference_error + McpReference" where
  "mcp_reference s =
     (if ms_id s = [] \<or> ms_name s = [] then Inl Malformed else Inr \<lparr>server_id = ms_id s, mcp_name = ms_name s\<rparr>)"

text \<open>The first error of a list of lookups, or all values.\<close>

fun all_or_error :: "('e + 'x) list \<Rightarrow> 'e + 'x list" where
  "all_or_error [] = Inr []"
| "all_or_error (Inl e # xs) = Inl e"
| "all_or_error (Inr x # xs) = (case all_or_error xs of Inl e \<Rightarrow> Inl e | Inr ys \<Rightarrow> Inr (x # ys))"

fun unique_references :: "'r list \<Rightarrow> 'r list \<Rightarrow> 'r list" where
  "unique_references [] seen = []"
| "unique_references (r # rs) seen =
     (if r \<in> set seen then unique_references rs seen else r # unique_references rs (r # seen))"

fun duplicate_name :: "('r \<Rightarrow> string) \<Rightarrow> 'r list \<Rightarrow> string list \<Rightarrow> string option" where
  "duplicate_name name [] seen = None"
| "duplicate_name name (r # rs) seen =
     (if name r \<in> set seen then Some (name r) else duplicate_name name rs (name r # seen))"

section \<open>The four resolutions\<close>

text \<open>\<open>AgentConfig(...)\<close> checks the length of the prompt and the version.\<close>

definition resolve_reference ::
    "(string \<Rightarrow> ResolvedAgent option) \<Rightarrow> AgentConfigRequest \<Rightarrow> reference_error + AgentConfig" where
  "resolve_reference resolver config =
     (case rq_agent_id config of
        None \<Rightarrow> Inr (default_config\<lparr>system_prompt := rq_system_prompt config\<rparr>)
      | Some i \<Rightarrow>
          (case resolver i of
             None \<Rightarrow> Inl Unavailable
           | Some r \<Rightarrow>
               if MAX_SYSTEM_PROMPT_LENGTH < length (ra_prompt r) \<or> ra_version r < 1 then Inl Malformed
               else Inr (default_config
                 \<lparr>agent_id := Some (ra_id r), agent_version := Some (ra_version r), system_prompt := Some (ra_prompt r),
                  skills := ra_skills r, subagents := (case ra_subagents r of None \<Rightarrow> [] | Some s \<Rightarrow> s)\<rparr>)))"

definition resolve_skill_references ::
    "(string \<Rightarrow> ResolvedSkill option) \<Rightarrow> string list option \<Rightarrow> AgentConfig \<Rightarrow> reference_error + AgentConfig" where
  "resolve_skill_references resolver skill_ids config =
     (let bundled = (case skills config of None \<Rightarrow> [] | Some s \<Rightarrow> s) in
      case skill_ids of
        None \<Rightarrow> Inr config
      | Some [] \<Rightarrow> Inr config
      | Some (i # is) \<Rightarrow>
          if MAX_SKILLS_PER_RUN < length (i # is) then Inl TooMany
          else case all_or_error (map (\<lambda>i. case resolver i of None \<Rightarrow> Inl Unavailable | Some r \<Rightarrow> Inr r) (i # is)) of
                 Inl e \<Rightarrow> Inl e
               | Inr found \<Rightarrow>
                   (case all_or_error (map skill_reference found) of
                      Inl e \<Rightarrow> Inl e
                    | Inr temporary \<Rightarrow>
                        let references = unique_references (bundled @ temporary) [] in
                        if MAX_SKILLS_PER_RUN < length references then Inl TooMany
                        else case duplicate_name sk_name references [] of
                               Some n \<Rightarrow> Inl (SameName n)
                             | None \<Rightarrow> Inr (config\<lparr>skills := Some references\<rparr>)))"

definition resolve_subagent_references ::
    "(string \<Rightarrow> ResolvedAgent option) \<Rightarrow> string list \<Rightarrow> AgentConfig \<Rightarrow> reference_error + AgentConfig" where
  "resolve_subagent_references resolver subagent_ids config =
     (if subagent_ids = [] then Inr config
      else if MAX_SUBAGENT < length subagent_ids then Inl TooMany
      else case all_or_error (map (\<lambda>i. case resolver i of
                    None \<Rightarrow> Inl Unavailable
                  | Some r \<Rightarrow> if ra_subagents r \<noteq> None \<and> ra_subagents r \<noteq> Some [] then Inl Nested else Inr r) subagent_ids) of
             Inl e \<Rightarrow> Inl e
           | Inr found \<Rightarrow>
               (case all_or_error (map subagent_reference found) of
                  Inl e \<Rightarrow> Inl e
                | Inr temporary \<Rightarrow>
                    let references = unique_references (subagents config @ temporary) [] in
                    if MAX_SUBAGENT < length references then Inl TooMany
                    else case duplicate_name sub_name references [] of
                           Some n \<Rightarrow> Inl (SameName n)
                         | None \<Rightarrow> Inr (config\<lparr>subagents := references\<rparr>)))"

definition reserved_collision :: "McpServer list \<Rightarrow> string option" where
  "reserved_collision servers = find (\<lambda>n. n \<in> set RESERVED_TOOL_NAME) (concat (map ms_tools servers))"

definition resolve_mcp_references ::
    "(string \<Rightarrow> McpServer option) \<Rightarrow> string list \<Rightarrow> AgentConfig \<Rightarrow> reference_error + AgentConfig" where
  "resolve_mcp_references resolver server_ids config =
     (if server_ids = [] then Inr config
      else if MAX_MCP_SERVER < length server_ids then Inl TooMany
      else case all_or_error (map (\<lambda>i. case resolver i of
                    None \<Rightarrow> Inl Unavailable
                  | Some s \<Rightarrow> if ms_status s \<noteq> MCP_ENABLED then Inl Unavailable else Inr s) server_ids) of
             Inl e \<Rightarrow> Inl e
           | Inr found \<Rightarrow>
               (case all_or_error (map mcp_reference found) of
                  Inl e \<Rightarrow> Inl e
                | Inr temporary \<Rightarrow>
                    let references = unique_references (mcps config @ temporary) [] in
                    if MAX_MCP_SERVER < length references then Inl TooMany
                    else case reserved_collision found of
                           Some n \<Rightarrow> Inl (ReservedTool n)
                         | None \<Rightarrow> Inr (config\<lparr>mcps := references\<rparr>)))"

text \<open>The four in the order of a submission.\<close>

definition resolve_config :: "string \<Rightarrow> 'a PresetDb_scheme \<Rightarrow> AgentConfigRequest \<Rightarrow> reference_error + AgentConfig" where
  "resolve_config user_id db effective =
     (case resolve_reference (\<lambda>i. resolve i user_id db) effective of
        Inl e \<Rightarrow> Inl e
      | Inr c \<Rightarrow>
     (case resolve_skill_references (\<lambda>i. skill_resolve i user_id db) (rq_skills effective) c of
        Inl e \<Rightarrow> Inl e
      | Inr c \<Rightarrow>
     (case resolve_subagent_references (\<lambda>i. resolve i user_id db) (rq_subagents effective) c of
        Inl e \<Rightarrow> Inl e
      | Inr c \<Rightarrow> resolve_mcp_references (\<lambda>i. get_mcp i db) (rq_mcps effective) c)))"

section \<open>What a frozen configuration holds\<close>

lemma all_or_error_map [simp]: "all_or_error (map Inr ys) = Inr ys"
  by (induction ys) auto

lemma all_or_error_Inr: "all_or_error xs = Inr ys \<longleftrightarrow> xs = map Inr ys"
proof
  show "all_or_error xs = Inr ys \<Longrightarrow> xs = map Inr ys"
    by (induction xs arbitrary: ys rule: all_or_error.induct) (auto split: sum.splits)
qed simp

lemma all_or_error_lookup:
  assumes "all_or_error (map (\<lambda>i. case f i of None \<Rightarrow> Inl e | Some r \<Rightarrow> if p r then Inl e' else Inr r) xs) = Inr ys"
  shows "map f xs = map Some ys \<and> (\<forall>r\<in>set ys. \<not> p r)"
  using assms unfolding all_or_error_Inr
  by (induction xs arbitrary: ys) (auto split: option.splits if_splits simp: Cons_eq_map_conv)

lemma all_or_error_lookup_any:
  assumes "all_or_error (map (\<lambda>i. case f i of None \<Rightarrow> Inl e | Some r \<Rightarrow> Inr r) xs) = Inr ys"
  shows "map f xs = map Some ys"
  using assms unfolding all_or_error_Inr by (induction xs arbitrary: ys) (auto split: option.splits simp: Cons_eq_map_conv)

lemma unique_references_spec:
  "set (unique_references rs seen) = set rs - set seen \<and> distinct (unique_references rs seen)"
  by (induction rs arbitrary: seen) auto

lemma duplicate_name_None: "duplicate_name name rs seen = None \<longleftrightarrow> distinct (map name rs) \<and> name ` set rs \<inter> set seen = {}"
  by (induction rs arbitrary: seen) auto

lemma resolve_skill_spec:
  assumes "resolve_skill_references resolver (Some ids) config = Inr c" "ids \<noteq> []"
  obtains found refs ss where "map resolver ids = map Some found" "map skill_reference found = map Inr refs" "c = config\<lparr>skills := Some ss\<rparr>"
    "set ss = set (case skills config of None \<Rightarrow> [] | Some s \<Rightarrow> s) \<union> set refs" "length ss \<le> MAX_SKILLS_PER_RUN" "distinct (map sk_name ss)"
proof -
  let ?old = "case skills config of None \<Rightarrow> [] | Some s \<Rightarrow> s"
  from assms obtain found refs where f: "all_or_error (map (\<lambda>i. case resolver i of None \<Rightarrow> Inl Unavailable | Some r \<Rightarrow> Inr r) ids) = Inr found"
      and r: "all_or_error (map skill_reference found) = Inr refs"
      and rest: "\<not> MAX_SKILLS_PER_RUN < length (unique_references (?old @ refs) [])"
        "duplicate_name sk_name (unique_references (?old @ refs) []) [] = None"
        "c = config\<lparr>skills := Some (unique_references (?old @ refs) [])\<rparr>"
    by (cases ids) (auto simp: resolve_skill_references_def Let_def split: if_splits sum.splits option.splits)
  have "map resolver ids = map Some found" by (rule all_or_error_lookup_any [OF f])
  with r rest unique_references_spec [of "?old @ refs" "[]"] show ?thesis
    by (intro that [of found refs "unique_references (?old @ refs) []"]) (auto simp: all_or_error_Inr duplicate_name_None)
qed

lemma resolve_subagent_spec:
  assumes "resolve_subagent_references resolver ids config = Inr c" "ids \<noteq> []"
  obtains found refs ss where "map resolver ids = map Some found" "map subagent_reference found = map Inr refs" "c = config\<lparr>subagents := ss\<rparr>"
    "\<forall>r\<in>set found. ra_subagents r = None \<or> ra_subagents r = Some []"
    "set ss = set (subagents config) \<union> set refs" "length ss \<le> MAX_SUBAGENT" "distinct (map sub_name ss)"
proof -
  from assms obtain found refs where f: "all_or_error (map (\<lambda>i. case resolver i of
                    None \<Rightarrow> Inl Unavailable
                  | Some r \<Rightarrow> if ra_subagents r \<noteq> None \<and> ra_subagents r \<noteq> Some [] then Inl Nested else Inr r) ids) = Inr found"
      and r: "all_or_error (map subagent_reference found) = Inr refs"
      and rest: "\<not> MAX_SUBAGENT < length (unique_references (subagents config @ refs) [])"
        "duplicate_name sub_name (unique_references (subagents config @ refs) []) [] = None"
        "c = config\<lparr>subagents := unique_references (subagents config @ refs) []\<rparr>"
    by (auto simp: resolve_subagent_references_def Let_def split: if_splits sum.splits option.splits)
  from all_or_error_lookup [OF f] r rest unique_references_spec [of "subagents config @ refs" "[]"] show ?thesis
    by (intro that [of found refs "unique_references (subagents config @ refs) []"]) (auto simp: all_or_error_Inr duplicate_name_None)
qed

lemma resolve_mcp_spec:
  assumes "resolve_mcp_references resolver ids config = Inr c" "ids \<noteq> []"
  obtains found refs ss where "map resolver ids = map Some found" "map mcp_reference found = map Inr refs" "c = config\<lparr>mcps := ss\<rparr>"
    "\<forall>s\<in>set found. ms_status s = MCP_ENABLED \<and> set (ms_tools s) \<inter> set RESERVED_TOOL_NAME = {}"
    "set ss = set (mcps config) \<union> set refs" "length ss \<le> MAX_MCP_SERVER"
proof -
  from assms obtain found refs where f: "all_or_error (map (\<lambda>i. case resolver i of
                    None \<Rightarrow> Inl Unavailable
                  | Some s \<Rightarrow> if ms_status s \<noteq> MCP_ENABLED then Inl Unavailable else Inr s) ids) = Inr found"
      and r: "all_or_error (map mcp_reference found) = Inr refs"
      and rest: "\<not> MAX_MCP_SERVER < length (unique_references (mcps config @ refs) [])" "reserved_collision found = None"
        "c = config\<lparr>mcps := unique_references (mcps config @ refs) []\<rparr>"
    by (auto simp: resolve_mcp_references_def Let_def split: if_splits sum.splits option.splits)
  from all_or_error_lookup [OF f] r rest unique_references_spec [of "mcps config @ refs" "[]"] show ?thesis
    by (intro that [of found refs "unique_references (mcps config @ refs) []"])
      (auto simp: all_or_error_Inr reserved_collision_def find_None_iff disjoint_iff)
qed

text \<open>Steps of a submission that leave the other fields alone.\<close>

lemma resolve_reference_spec:
  assumes "resolve_reference resolver config = Inr c"
  shows "mcps c = []"
    and "rq_agent_id config = None \<Longrightarrow> agent_id c = None \<and> system_prompt c = rq_system_prompt config \<and> skills c = None \<and> subagents c = []"
    and "rq_agent_id config = Some i \<Longrightarrow> \<exists>r. resolver i = Some r \<and> agent_id c = Some (ra_id r) \<and> agent_version c = Some (ra_version r) \<and>
      system_prompt c = Some (ra_prompt r) \<and> skills c = ra_skills r \<and> subagents c = (case ra_subagents r of None \<Rightarrow> [] | Some s \<Rightarrow> s)"
  using assms by (auto simp: resolve_reference_def default_config_def split: option.splits if_splits)

lemma map_Some_refs:
  assumes "map f is = map Some found" "map g found = map Inr refs"
  shows "set refs = {r. \<exists>i\<in>set is. \<exists>x. f i = Some x \<and> g x = Inr r}" and "\<forall>i\<in>set is. \<exists>x\<in>set found. f i = Some x"
proof -
  from assms(1) have f: "list_all2 (\<lambda>i x. f i = Some x) is found"
    by (simp add: list_all2_conv_all_nth list_eq_iff_nth_eq)
  from assms(2) have g: "list_all2 (\<lambda>x r. g x = Inr r) found refs"
    by (simp add: list_all2_conv_all_nth list_eq_iff_nth_eq)
  show "\<forall>i\<in>set is. \<exists>x\<in>set found. f i = Some x" proof
    fix i assume "i \<in> set is"
    then have "f i \<in> Some ` set found" using assms(1) by (metis image_eqI image_set)
    then show "\<exists>x\<in>set found. f i = Some x" by auto
  qed
  have "list_all2 (\<lambda>i r. \<exists>x. f i = Some x \<and> g x = Inr r) is refs"
    using list_all2_trans [OF _ f g, of "\<lambda>i r. \<exists>x. f i = Some x \<and> g x = Inr r"] by blast
  then show "set refs = {r. \<exists>i\<in>set is. \<exists>x. f i = Some x \<and> g x = Inr r}"
    unfolding list_all2_conv_all_nth by (fastforce simp: set_conv_nth)
qed

text \<open>The three sets of references, from the request and from the agent that was named.\<close>

definition chosen :: "('i \<Rightarrow> 'x option) \<Rightarrow> ('x \<Rightarrow> 'e + 'r) \<Rightarrow> 'i list \<Rightarrow> 'r set" where
  "chosen f g is = {r. \<exists>i\<in>set is. \<exists>x. f i = Some x \<and> g x = Inr r}"

lemma resolve_skills_chosen:
  assumes "resolve_skill_references resolver ids config = Inr c"
  shows "case ids of None \<Rightarrow> c = config | Some is \<Rightarrow> (\<forall>i\<in>set is. resolver i \<noteq> None) \<and>
    (\<exists>ss. c = config\<lparr>skills := ss\<rparr> \<and> set (case ss of None \<Rightarrow> [] | Some s \<Rightarrow> s) =
        set (case skills config of None \<Rightarrow> [] | Some s \<Rightarrow> s) \<union> chosen resolver skill_reference is) \<and>
    (is \<noteq> [] \<longrightarrow> (\<exists>s. skills c = Some s \<and> length s \<le> MAX_SKILLS_PER_RUN \<and> distinct (map sk_name s)))"
proof (cases ids)
  case (Some js)
  show ?thesis
  proof (cases "js = []")
    case True
    with assms Some show ?thesis by (auto simp: resolve_skill_references_def chosen_def intro!: exI [of _ "skills config"])
  next
    case False
    from resolve_skill_spec [OF assms [unfolded Some] False] obtain found refs ss where
      f: "map resolver js = map Some found" "map skill_reference found = map Inr refs" and c: "c = config\<lparr>skills := Some ss\<rparr>"
        "set ss = set (case skills config of None \<Rightarrow> [] | Some s \<Rightarrow> s) \<union> set refs" "length ss \<le> MAX_SKILLS_PER_RUN" "distinct (map sk_name ss)" .
    have "set refs = chosen resolver skill_reference js" "\<forall>i\<in>set js. resolver i \<noteq> None"
      using map_Some_refs [OF f] unfolding chosen_def by auto
    with c Some show ?thesis by auto
  qed
qed (use assms in \<open>simp add: resolve_skill_references_def\<close>)

lemma resolve_subagents_chosen:
  assumes "resolve_subagent_references resolver ids config = Inr c"
  shows "(\<forall>i\<in>set ids. \<exists>r. resolver i = Some r \<and> (ra_subagents r = None \<or> ra_subagents r = Some [])) \<and>
    (\<exists>ss. c = config\<lparr>subagents := ss\<rparr> \<and> set ss = set (subagents config) \<union> chosen resolver subagent_reference ids \<and>
      (ids \<noteq> [] \<longrightarrow> length ss \<le> MAX_SUBAGENT \<and> distinct (map sub_name ss)))"
proof (cases "ids = []")
  case True
  with assms show ?thesis by (auto simp: resolve_subagent_references_def chosen_def intro!: exI [of _ "subagents config"])
next
  case False
  from resolve_subagent_spec [OF assms False] obtain found refs ss where
    f: "map resolver ids = map Some found" "map subagent_reference found = map Inr refs" and c: "c = config\<lparr>subagents := ss\<rparr>"
      "\<forall>r\<in>set found. ra_subagents r = None \<or> ra_subagents r = Some []"
      "set ss = set (subagents config) \<union> set refs" "length ss \<le> MAX_SUBAGENT" "distinct (map sub_name ss)" .
  have "set refs = chosen resolver subagent_reference ids"
    using map_Some_refs(1) [OF f] unfolding chosen_def .
  moreover have "\<exists>r. resolver i = Some r \<and> (ra_subagents r = None \<or> ra_subagents r = Some [])" if "i \<in> set ids" for i
    using map_Some_refs(2) [OF f] c(2) that by blast
  ultimately show ?thesis using c by (intro conjI ballI exI [of _ ss]) simp_all
qed

lemma resolve_mcps_chosen:
  assumes "resolve_mcp_references resolver ids config = Inr c"
  shows "(\<forall>i\<in>set ids. \<exists>s. resolver i = Some s \<and> ms_status s = MCP_ENABLED \<and> set (ms_tools s) \<inter> set RESERVED_TOOL_NAME = {}) \<and>
    (\<exists>ss. c = config\<lparr>mcps := ss\<rparr> \<and> set ss = set (mcps config) \<union> chosen resolver mcp_reference ids \<and>
      (ids \<noteq> [] \<longrightarrow> length ss \<le> MAX_MCP_SERVER))"
proof (cases "ids = []")
  case True
  with assms show ?thesis by (auto simp: resolve_mcp_references_def chosen_def intro!: exI [of _ "mcps config"])
next
  case False
  from resolve_mcp_spec [OF assms False] obtain found refs ss where
    f: "map resolver ids = map Some found" "map mcp_reference found = map Inr refs" and c: "c = config\<lparr>mcps := ss\<rparr>"
      "\<forall>s\<in>set found. ms_status s = MCP_ENABLED \<and> set (ms_tools s) \<inter> set RESERVED_TOOL_NAME = {}"
      "set ss = set (mcps config) \<union> set refs" "length ss \<le> MAX_MCP_SERVER" .
  have "set refs = chosen resolver mcp_reference ids"
    using map_Some_refs(1) [OF f] unfolding chosen_def .
  moreover have "\<exists>s. resolver i = Some s \<and> ms_status s = MCP_ENABLED \<and> set (ms_tools s) \<inter> set RESERVED_TOOL_NAME = {}" if "i \<in> set ids" for i
    using map_Some_refs(2) [OF f] c(2) that by blast
  ultimately show ?thesis using c by (intro conjI ballI exI [of _ ss]) simp_all
qed

section \<open>The frozen configuration of a submission\<close>

text \<open>C16. A submission that resolves freezes the agent at the version and prompt its submitter resolves now, the
  agent's own Skills and helpers together with the chosen ones, and the chosen servers alone. The servers the agent itself brings are not
  among them unless they are chosen, although \<open>mcp_reference.py\<close> documents the union of both and although Skills and helpers are
  joined in that way: here the code does less than its documentation says (\<open>agent_servers_dropped\<close>). Every chosen Skill is usable
  by the submitter, every
  chosen helper is usable and has no helpers of its own, every chosen server is enabled and declares no name of the platform's tools.\<close>

theorem resolved_config_sound:
  assumes "resolve_config user_id db effective = Inr c"
  shows "\<exists>bundle.
    (case rq_agent_id effective of
       None \<Rightarrow> bundle = ([], []) \<and> agent_id c = None \<and> system_prompt c = rq_system_prompt effective
     | Some i \<Rightarrow> \<exists>r. resolve i user_id db = Some r \<and> bundle = (case ra_skills r of None \<Rightarrow> [] | Some s \<Rightarrow> s, case ra_subagents r of None \<Rightarrow> [] | Some s \<Rightarrow> s) \<and>
         agent_id c = Some (ra_id r) \<and> agent_version c = Some (ra_version r) \<and> system_prompt c = Some (ra_prompt r)) \<and>
    set (case skills c of None \<Rightarrow> [] | Some s \<Rightarrow> s) = set (fst bundle) \<union>
      chosen (\<lambda>i. skill_resolve i user_id db) skill_reference (case rq_skills effective of None \<Rightarrow> [] | Some is \<Rightarrow> is) \<and>
    set (subagents c) = set (snd bundle) \<union> chosen (\<lambda>i. resolve i user_id db) subagent_reference (rq_subagents effective) \<and>
    set (mcps c) = chosen (\<lambda>i. get_mcp i db) mcp_reference (rq_mcps effective) \<and>
    (\<forall>i\<in>set (case rq_skills effective of None \<Rightarrow> [] | Some is \<Rightarrow> is). skill_resolve i user_id db \<noteq> None) \<and>
    (\<forall>i\<in>set (rq_subagents effective). \<exists>r. resolve i user_id db = Some r \<and> (ra_subagents r = None \<or> ra_subagents r = Some [])) \<and>
    (\<forall>i\<in>set (rq_mcps effective). \<exists>s. get_mcp i db = Some s \<and> ms_status s = MCP_ENABLED \<and> set (ms_tools s) \<inter> set RESERVED_TOOL_NAME = {})"
proof -
  from assms obtain c1 c2 c3 where
    1: "resolve_reference (\<lambda>i. resolve i user_id db) effective = Inr c1" and
    2: "resolve_skill_references (\<lambda>i. skill_resolve i user_id db) (rq_skills effective) c1 = Inr c2" and
    3: "resolve_subagent_references (\<lambda>i. resolve i user_id db) (rq_subagents effective) c2 = Inr c3" and
    4: "resolve_mcp_references (\<lambda>i. get_mcp i db) (rq_mcps effective) c3 = Inr c"
    by (auto simp: resolve_config_def split: sum.splits)
  let ?old = "case skills c1 of None \<Rightarrow> [] | Some s \<Rightarrow> s" and ?ids = "case rq_skills effective of None \<Rightarrow> [] | Some is \<Rightarrow> is"
  from resolve_skills_chosen [OF 2] obtain ss where c2: "c2 = c1\<lparr>skills := ss\<rparr>" and
    ss: "set (case ss of None \<Rightarrow> [] | Some s \<Rightarrow> s) = set ?old \<union> chosen (\<lambda>i. skill_resolve i user_id db) skill_reference ?ids"
    and s_ok: "\<forall>i\<in>set ?ids. skill_resolve i user_id db \<noteq> None"
  proof (cases "rq_skills effective")
    case None
    with resolve_skills_chosen [OF 2] show ?thesis by (intro that [of "skills c1"]) (auto simp: chosen_def)
  next
    case (Some js)
    with resolve_skills_chosen [OF 2] show ?thesis by (auto intro: that)
  qed
  from resolve_subagents_chosen [OF 3] obtain as where c3: "c3 = c2\<lparr>subagents := as\<rparr>"
    and as: "set as = set (subagents c2) \<union> chosen (\<lambda>i. resolve i user_id db) subagent_reference (rq_subagents effective)"
    and a_ok: "\<forall>i\<in>set (rq_subagents effective). \<exists>r. resolve i user_id db = Some r \<and> (ra_subagents r = None \<or> ra_subagents r = Some [])"
    by blast
  from resolve_mcps_chosen [OF 4] obtain ms where c: "c = c3\<lparr>mcps := ms\<rparr>"
    and ms: "set ms = set (mcps c3) \<union> chosen (\<lambda>i. get_mcp i db) mcp_reference (rq_mcps effective)"
    and m_ok: "\<forall>i\<in>set (rq_mcps effective). \<exists>s. get_mcp i db = Some s \<and> ms_status s = MCP_ENABLED \<and> set (ms_tools s) \<inter> set RESERVED_TOOL_NAME = {}"
    by blast
  have fields: "skills c = ss" "subagents c = as" "mcps c = ms" "subagents c2 = subagents c1" "mcps c3 = []"
      "agent_id c = agent_id c1" "agent_version c = agent_version c1" "system_prompt c = system_prompt c1"
    using resolve_reference_spec(1) [OF 1] by (simp_all add: c c3 c2)
  have "case rq_agent_id effective of
       None \<Rightarrow> (?old, subagents c1) = ([], []) \<and> agent_id c = None \<and> system_prompt c = rq_system_prompt effective
     | Some i \<Rightarrow> \<exists>r. resolve i user_id db = Some r \<and>
         (?old, subagents c1) = (case ra_skills r of None \<Rightarrow> [] | Some s \<Rightarrow> s, case ra_subagents r of None \<Rightarrow> [] | Some s \<Rightarrow> s) \<and>
         agent_id c = Some (ra_id r) \<and> agent_version c = Some (ra_version r) \<and> system_prompt c = Some (ra_prompt r)"
  proof (cases "rq_agent_id effective")
    case (Some i)
    with resolve_reference_spec(3) [OF 1 Some] show ?thesis by (clarsimp simp: fields)
  qed (use resolve_reference_spec(2) [OF 1] in \<open>simp add: fields\<close>)
  then show ?thesis
    by (intro exI [of _ "(?old, subagents c1)"] conjI s_ok a_ok m_ok) (simp_all add: fields ss as ms)
qed

text \<open>A submission with the shared agent, the shared Skill and a server: user 2 is in the group the owner shared with.\<close>

definition example_presets :: PresetDb where
  "example_presets = example_skills\<lparr>mcp_servers := mcp_servers (mw_db (example_mcp MCP_ENABLED False)),
     agent_versions := map (\<lambda>v. v\<lparr>v_mcps := Some [\<lparr>server_id = uuid_hex 7, mcp_name = ''m''\<rparr>]\<rparr>) (agent_versions example_skills)\<rparr>"

definition example_choice :: "string list \<Rightarrow> AgentConfigRequest" where
  "example_choice servers = \<lparr>rq_system_prompt = None, rq_agent_id = Some (uuid_hex 10), rq_skills = Some [uuid_hex 50], rq_subagents = [],
     rq_mcps = servers\<rparr>"

lemma example_resolved:
  "resolve (uuid_hex 10) (uuid_hex 2) example_presets =
     Some \<lparr>ra_id = uuid_hex 10, ra_name = ''n'', ra_version = 2, ra_prompt = ''two'', ra_skills = None, ra_subagents = None,
           ra_mcps = Some [\<lparr>server_id = uuid_hex 7, mcp_name = ''m''\<rparr>]\<rparr>"
  by (simp add: resolve_def example_presets_def example_skills_def example_catalogue_def available_def latest_released_def latest_approved_def
      approved_target_def shared_with_def latest_def user_row_def load_refs_def Let_def)

lemma example_resolved_skill:
  "skill_resolve (uuid_hex 50) (uuid_hex 2) example_presets = Some \<lparr>rs_id = uuid_hex 50, rs_name = ''k'', rs_version = 1\<rparr>"
  by (simp add: skill_resolve_def example_presets_def example_skills_def example_catalogue_def skill_available_def skill_latest_released_def
      skill_latest_approved_def approved_target_def shared_with_def latest_def user_row_def Let_def)

lemma uuid_hex_not_Nil [simp]: "uuid_hex u \<noteq> []"
  by (rule notI, drule arg_cong [where f = length]) (simp add: uuid_hex_def)

lemma example_server: "get_mcp (uuid_hex 7) example_presets = Some (to_server (hd (mcp_servers (mw_db (example_mcp MCP_ENABLED False)))))"
  by (simp add: get_mcp_def mcp_row_def example_presets_def example_mcp_def)

lemma example_frozen:
  "resolve_config (uuid_hex 2) example_presets (example_choice []) =
     Inr \<lparr>system_prompt = Some ''two'', agent_id = Some (uuid_hex 10), agent_version = Some 2,
          skills = Some [\<lparr>skill_id = uuid_hex 50, sk_version = 1, sk_name = ''k''\<rparr>], subagents = [], mcps = []\<rparr>"
  by (simp add: resolve_config_def resolve_reference_def example_choice_def example_resolved resolve_skill_references_def
      example_resolved_skill skill_reference_def resolve_subagent_references_def resolve_mcp_references_def default_config_def
      MAX_SYSTEM_PROMPT_LENGTH_def MAX_SKILLS_PER_RUN_def)

theorem resolved_config_sound_witness:
  "\<exists>c r. resolve_config (uuid_hex 2) example_presets (example_choice []) = Inr c \<and>
     resolve (uuid_hex 10) (uuid_hex 2) example_presets = Some r \<and> agent_version c = Some (ra_version r) \<and>
     system_prompt c = Some (ra_prompt r) \<and> ra_prompt r = ''two'' \<and>
     set (case skills c of None \<Rightarrow> [] | Some s \<Rightarrow> s) =
       chosen (\<lambda>i. skill_resolve i (uuid_hex 2) example_presets) skill_reference [uuid_hex 50] \<and>
     skills c = Some [\<lparr>skill_id = uuid_hex 50, sk_version = 1, sk_name = ''k''\<rparr>] \<and>
     set (mcps c) = chosen (\<lambda>i. get_mcp i example_presets) mcp_reference []"
  using resolved_config_sound [OF example_frozen] example_frozen by (auto simp: example_choice_def example_resolved)

text \<open>Finding. The servers an agent brings are stored, released and reviewed with it, and dropped when the agent is resolved: the same
  version keeps its Skills and helpers but runs without them.\<close>

lemma agent_servers_dropped:
  "\<exists>r m c. resolve (uuid_hex 10) (uuid_hex 2) example_presets = Some r \<and> ra_mcps r = Some [m] \<and>
     resolve_config (uuid_hex 2) example_presets (example_choice []) = Inr c \<and> mcps c = []"
  by (simp add: example_resolved example_frozen)

text \<open>A server whose own list of tools holds a name of the platform is refused with that name.\<close>

lemma reserved_server_refused:
  "resolve_config (uuid_hex 2) example_presets (example_choice [uuid_hex 7]) = Inl (ReservedTool ''grep'')"
  by (simp add: resolve_config_def resolve_reference_def example_choice_def example_resolved resolve_skill_references_def
      example_resolved_skill skill_reference_def resolve_subagent_references_def resolve_mcp_references_def default_config_def
      MAX_SYSTEM_PROMPT_LENGTH_def MAX_SKILLS_PER_RUN_def example_server mcp_reference_def reserved_collision_def RESERVED_TOOL_NAME_def
      MAX_MCP_SERVER_def to_server_def example_mcp_def)

end
