(* ===== verification/Preset_Api.thy ===== *)
theory Preset_Api
  imports Accounts Review_Repository References "HOL-Library.List_Lexorder"
begin

text \<open>
  The endpoints of the catalogues (\<open>app/api/route/agent.py\<close>, \<open>app/api/route/review.py\<close>, \<open>app/api/route/mcp.py\<close>): programs behind the
  dependencies of \<open>Sessions\<close>, over the tables and the counters of failures. Texts for people, logging and the files of a Skill
  under review are left out. A request is served as one step.
\<close>

section \<open>Reading and writing the tables\<close>

type_synonym ('a, 'x) preset_handler = "('a PresetDb_scheme McpWorld, 'x) handler"

definition ask :: "('a PresetDb_scheme \<Rightarrow> 'x) \<Rightarrow> ('a, 'x) preset_handler" where
  "ask g = read_db (\<lambda>m. g (mw_db m))"

definition ask_result :: "('a PresetDb_scheme \<Rightarrow> 'x result) \<Rightarrow> ('a, 'x) preset_handler" where
  "ask_result g w = (g (mw_db (s_db w)), w)"

definition change :: "('a PresetDb_scheme \<Rightarrow> 'x \<times> 'a PresetDb_scheme) \<Rightarrow> ('a, 'x) preset_handler" where
  "change f = on_db (\<lambda>m. case f (mw_db m) of (x, d) \<Rightarrow> (x, m\<lparr>mw_db := d\<rparr>))"

definition attempt :: "('a PresetDb_scheme \<Rightarrow> ('x \<times> 'a PresetDb_scheme) result) \<Rightarrow> ('a, 'x) preset_handler" where
  "attempt f = try_db (\<lambda>m. case f (mw_db m) of Inl e \<Rightarrow> Inl e | Inr (x, d) \<Rightarrow> Inr (x, m\<lparr>mw_db := d\<rparr>))"

text \<open>\<open>None\<close> becomes an answer.\<close>

definition or_error :: "exn \<Rightarrow> 'x option \<Rightarrow> ('d, 'x) handler" where
  "or_error e v = (case v of None \<Rightarrow> throw e | Some x \<Rightarrow> ret x)"

definition reviewer_user :: "Env \<Rightarrow> Req \<Rightarrow> string option \<Rightarrow> ('d, Session) handler" where
  "reviewer_user env q token = seq (protected env q token) require_reviewer"

text \<open>A reason as it is stored, and whether it is missing.\<close>

definition stripped :: "string option \<Rightarrow> string option" where
  "stripped reason = map_option (str_strip is_unicode_space) reason"

definition missing :: "string option \<Rightarrow> bool" where
  "missing reason \<longleftrightarrow> reason = None \<or> reason = Some []"

section \<open>What the author chose\<close>

text \<open>\<open>_resolve_skills\<close>, \<open>_resolve_subagents\<close>, \<open>_resolve_mcps\<close>: the choices of a draft, against an empty configuration. A refused choice is
  an invalid request; a value the model of a reference rejects is not caught.\<close>

definition frozen_or_invalid :: "reference_error + AgentConfig \<Rightarrow> AgentConfig result" where
  "frozen_or_invalid r =
     (case r of Inl Malformed \<Rightarrow> Inl ValidationError | Inl _ \<Rightarrow> Inl invalid | Inr c \<Rightarrow> Inr c)"

definition author_skills :: "string list option \<Rightarrow> string \<Rightarrow> ('a, SkillReference list option) preset_handler" where
  "author_skills ids user_id =
     seq (ask_result (\<lambda>db. frozen_or_invalid (resolve_skill_references (\<lambda>i. skill_resolve i user_id db) ids default_config)))
       (\<lambda>c. ret (skills c))"

definition none_if_empty :: "'x list \<Rightarrow> 'x list option" where
  "none_if_empty xs = (if xs = [] then None else Some xs)"

definition author_subagents :: "string list option \<Rightarrow> string \<Rightarrow> ('a, SubagentReference list option) preset_handler" where
  "author_subagents ids user_id =
     seq (ask_result (\<lambda>db. frozen_or_invalid
            (resolve_subagent_references (\<lambda>i. resolve i user_id db) (case ids of None \<Rightarrow> [] | Some x \<Rightarrow> x) default_config)))
       (\<lambda>c. ret (none_if_empty (subagents c)))"

definition author_mcps :: "string list option \<Rightarrow> ('a, McpReference list option) preset_handler" where
  "author_mcps ids =
     seq (ask_result (\<lambda>db. frozen_or_invalid
            (resolve_mcp_references (\<lambda>i. get_mcp i db) (case ids of None \<Rightarrow> [] | Some x \<Rightarrow> x) default_config)))
       (\<lambda>c. ret (none_if_empty (mcps c)))"

record UpdateDraftRequest =
  ud_prompt :: string
  ud_skills :: "string list option"
  ud_subagents :: "string list option"
  ud_mcps :: "string list option"

record CreateAgentRequest = UpdateDraftRequest +
  ca_name :: string
  ca_description :: string
  ca_subject :: string

definition author_content :: "'z UpdateDraftRequest_scheme \<Rightarrow> string \<Rightarrow> ('a, AgentContent) preset_handler" where
  "author_content r user_id =
     seq (author_skills (ud_skills r) user_id) (\<lambda>ks.
     seq (author_subagents (ud_subagents r) user_id) (\<lambda>ss.
     seq (author_mcps (ud_mcps r)) (\<lambda>ms.
       ret \<lparr>ac_prompt = ud_prompt r, ac_skills = ks, ac_subagents = ss, ac_mcps = ms\<rparr>)))"

section \<open>The author's view\<close>

record AgentVersionResponse =
  vr_version :: AgentVersion
  vr_review_id :: "string option"
  vr_review_status :: "ReviewStatus option"
  vr_review_reason :: "string option"

record MyAgentResponse =
  my_agent :: Agent
  my_in_catalog :: bool
  my_groups :: "string list"
  my_versions :: "AgentVersionResponse list"

text \<open>\<open>_to_mine\<close>: the reviews come latest first; the first of a version is the one shown.\<close>

definition latest_review :: "Review list \<Rightarrow> string \<Rightarrow> Review option" where
  "latest_review rs i = find (\<lambda>r. re_target r = i) rs"

definition approved_targets :: "Review list \<Rightarrow> string set" where
  "approved_targets rs = re_target ` set (filter (\<lambda>r. re_status r = RV_APPROVED) rs)"

definition to_my_agent :: "Review list \<Rightarrow> AgentDetail \<Rightarrow> MyAgentResponse" where
  "to_my_agent rs d =
     \<lparr>my_agent = ad_agent d,
      my_in_catalog = (ag_enabled (ad_agent d) \<and> (\<exists>v\<in>set (ad_versions d). av_id v \<in> approved_targets rs)),
      my_groups = ad_groups d,
      my_versions = map (\<lambda>v. \<lparr>vr_version = v, vr_review_id = map_option re_id (latest_review rs (av_id v)),
        vr_review_status = map_option re_status (latest_review rs (av_id v)),
        vr_review_reason = Option.bind (latest_review rs (av_id v)) re_reason\<rparr>) (ad_versions d)\<rparr>"

definition to_mine :: "AgentDetail list \<Rightarrow> 'a PresetDb_scheme \<Rightarrow> MyAgentResponse list" where
  "to_mine details db =
     map (to_my_agent (list_for_target (concat (map (\<lambda>d. map av_id (ad_versions d)) details)) KIND_AGENT db)) details"

definition require_owned :: "string \<Rightarrow> string \<Rightarrow> ('a, Agent) preset_handler" where
  "require_owned ident user_id = seq (ask (get_agent ident user_id)) (or_error not_found)"

definition require_mine :: "string \<Rightarrow> string \<Rightarrow> ('a, MyAgentResponse) preset_handler" where
  "require_mine ident user_id =
     seq (ask (detail ident user_id)) (\<lambda>d.
     seq (or_error not_found d) (\<lambda>d. ask (\<lambda>db. hd (to_mine [d] db))))"

section \<open>The endpoints of the agents\<close>

record PublicAgentListing =
  pa_id :: string
  pa_owner_name :: string
  pa_name :: string
  pa_description :: string
  pa_subject :: string
  pa_calls :: int
  pa_version :: nat
  pa_skills :: "SkillReference list option"
  pa_subagents :: "SubagentReference list option"
  pa_updated :: datetime

definition to_public_listing :: "AgentListing \<Rightarrow> PublicAgentListing" where
  "to_public_listing l =
     \<lparr>pa_id = al_id l, pa_owner_name = al_owner_name l, pa_name = al_name l, pa_description = al_description l, pa_subject = al_subject l,
      pa_calls = al_calls l, pa_version = al_version l, pa_skills = al_skills l, pa_subagents = al_subagents l, pa_updated = al_updated l\<rparr>"

definition agents_browse :: "Env \<Rightarrow> Req \<Rightarrow> string option \<Rightarrow> ('a, AgentListing list) preset_handler" where
  "agents_browse env q token = seq (protected env q token) (\<lambda>_. ask list_catalog)"

definition agents_public :: "('a, PublicAgentListing list) preset_handler" where
  "agents_public = seq (ask list_catalog) (\<lambda>ls. ret (map to_public_listing ls))"

definition agents_available :: "Env \<Rightarrow> Req \<Rightarrow> string option \<Rightarrow> ('a, AgentListing list) preset_handler" where
  "agents_available env q token = seq (protected env q token) (\<lambda>s. ask (list_available (e_coll env) (se_user_id s)))"

definition agents_candidates :: "Env \<Rightarrow> Req \<Rightarrow> string option \<Rightarrow> ('a, AgentListing list) preset_handler" where
  "agents_candidates env q token = seq (protected env q token) (\<lambda>s. ask (list_subagent_candidates (e_coll env) (se_user_id s)))"

definition agents_mine :: "Env \<Rightarrow> Req \<Rightarrow> string option \<Rightarrow> ('a, MyAgentResponse list) preset_handler" where
  "agents_mine env q token =
     seq (protected env q token) (\<lambda>s. seq (ask (list_owned (se_user_id s))) (\<lambda>ds. ask (to_mine ds)))"

definition agents_get_mine :: "Env \<Rightarrow> Req \<Rightarrow> string option \<Rightarrow> string \<Rightarrow> ('a, MyAgentResponse) preset_handler" where
  "agents_get_mine env q token ident = seq (protected env q token) (\<lambda>s. require_mine ident (se_user_id s))"

definition agents_create ::
    "Env \<Rightarrow> Req \<Rightarrow> uuid \<Rightarrow> string option \<Rightarrow> CreateAgentRequest \<Rightarrow> ('a, MyAgentResponse) preset_handler" where
  "agents_create env q version_id token r =
     seq (protected env q token) (\<lambda>s.
     seq (author_content r (se_user_id s)) (\<lambda>c.
     seq (attempt (create_agent (q_id q) version_id (se_user_id s) (ca_name r) (ca_description r) (ca_subject r) c (q_now q))) (\<lambda>a.
     seq (or_error invalid a) (\<lambda>a. require_mine (ag_id a) (se_user_id s)))))"

definition agents_update ::
    "Env \<Rightarrow> Req \<Rightarrow> string option \<Rightarrow> string \<Rightarrow> string \<Rightarrow> string \<Rightarrow> string \<Rightarrow> ('a, MyAgentResponse) preset_handler" where
  "agents_update env q token ident name description subject =
     seq (protected env q token) (\<lambda>s.
     seq (require_owned ident (se_user_id s)) (\<lambda>_.
     seq (change (update_meta ident (se_user_id s) name description subject (q_now q))) (\<lambda>a.
     seq (or_error invalid a) (\<lambda>_. require_mine ident (se_user_id s)))))"

definition agents_draft ::
    "Env \<Rightarrow> Req \<Rightarrow> string option \<Rightarrow> string \<Rightarrow> UpdateDraftRequest \<Rightarrow> ('a, MyAgentResponse) preset_handler" where
  "agents_draft env q token ident r =
     seq (protected env q token) (\<lambda>s.
     seq (require_owned ident (se_user_id s)) (\<lambda>_.
     seq (author_content r (se_user_id s)) (\<lambda>c.
     seq (attempt (write_draft (q_id q) ident (se_user_id s) c (q_now q))) (\<lambda>v.
     seq (or_error not_found v) (\<lambda>_. require_mine ident (se_user_id s))))))"

definition agents_release :: "Env \<Rightarrow> Req \<Rightarrow> string option \<Rightarrow> string \<Rightarrow> ('a, MyAgentResponse) preset_handler" where
  "agents_release env q token ident =
     seq (protected env q token) (\<lambda>s.
     seq (require_owned ident (se_user_id s)) (\<lambda>_.
     seq (change (Agent_Catalog.release ident (se_user_id s) (q_now q))) (\<lambda>v.
     seq (or_error invalid v) (\<lambda>_. require_mine ident (se_user_id s)))))"

definition agents_sharing ::
    "Env \<Rightarrow> Req \<Rightarrow> string option \<Rightarrow> string \<Rightarrow> Visibility \<Rightarrow> string list \<Rightarrow> ('a, MyAgentResponse) preset_handler" where
  "agents_sharing env q token ident visibility group_ids =
     seq (protected env q token) (\<lambda>s.
     seq (require_owned ident (se_user_id s)) (\<lambda>_.
     seq (ask (groups_of_user (e_coll env) (se_user_id s))) (\<lambda>mine.
       if \<not> set group_ids \<subseteq> gr_id ` set mine then throw invalid
       else seq (attempt (set_sharing ident (se_user_id s) visibility group_ids (q_now q))) (\<lambda>a.
            seq (or_error not_found a) (\<lambda>_. require_mine ident (se_user_id s))))))"

definition agents_submit :: "Env \<Rightarrow> Req \<Rightarrow> string option \<Rightarrow> string \<Rightarrow> bool \<Rightarrow> ('a, MyAgentResponse) preset_handler" where
  "agents_submit env q token ident confirmed =
     seq (protected env q token) (\<lambda>s.
       if \<not> confirmed then throw invalid
       else seq (ask (detail ident (se_user_id s))) (\<lambda>d.
         case d of
           None \<Rightarrow> throw not_found
         | Some d \<Rightarrow>
             if ag_deleted (ad_agent d) then throw not_found
             else let released = filter (\<lambda>v. av_status v = RELEASED) (ad_versions d) in
               if released = [] then throw invalid
               else seq (change (submit_review (q_id q) (av_id (last released)) (se_user_id s) True KIND_AGENT (q_now q))) (\<lambda>r.
                    seq (or_error invalid r) (\<lambda>_. require_mine ident (se_user_id s)))))"

definition agents_delete :: "Env \<Rightarrow> Req \<Rightarrow> string option \<Rightarrow> string \<Rightarrow> ('a, unit) preset_handler" where
  "agents_delete env q token ident =
     seq (protected env q token) (\<lambda>s.
     seq (require_owned ident (se_user_id s)) (\<lambda>_.
     seq (change (soft_delete ident (se_user_id s) (q_now q))) (\<lambda>_. ret ())))"

section \<open>The endpoints of the reviews\<close>

definition require_item :: "string \<Rightarrow> ('a, ReviewItem) preset_handler" where
  "require_item review_id =
     seq (ask (get_review review_id)) (\<lambda>r.
       if r = None \<or> re_kind (the r) \<notin> {KIND_AGENT, KIND_SKILL} then throw not_found
       else seq (ask_result (get_item review_id)) (or_error not_found))"

definition reviews_list :: "Env \<Rightarrow> Req \<Rightarrow> string option \<Rightarrow> nat \<Rightarrow> ('a, ReviewItem list) preset_handler" where
  "reviews_list env q token decided_limit =
     seq (reviewer_user env q token) (\<lambda>_.
     seq (ask_result list_pending) (\<lambda>pending.
     seq (ask_result (list_decided decided_limit)) (\<lambda>decided. ret (pending @ decided))))"

definition reviews_get :: "Env \<Rightarrow> Req \<Rightarrow> string option \<Rightarrow> string \<Rightarrow> ('a, ReviewItem) preset_handler" where
  "reviews_get env q token review_id = seq (reviewer_user env q token) (\<lambda>_. require_item review_id)"

definition reviews_decide ::
    "Env \<Rightarrow> Req \<Rightarrow> string option \<Rightarrow> string \<Rightarrow> bool \<Rightarrow> string option \<Rightarrow> ('a, ReviewItem) preset_handler" where
  "reviews_decide env q token review_id approved reason =
     seq (reviewer_user env q token) (\<lambda>s.
       if \<not> approved \<and> missing (stripped reason) then throw invalid
       else
         seq (ask_result (get_item review_id)) (\<lambda>item.
         seq (or_error not_found item) (\<lambda>_.
         seq (attempt (decide_review review_id (se_user_id s) approved (if approved then None else stripped reason) (q_now q))) (\<lambda>ok.
           if \<not> ok then throw invalid
           else seq (ask_result (get_item review_id)) (or_error not_found)))))"

definition reviews_catalog ::
    "Env \<Rightarrow> Req \<Rightarrow> string option \<Rightarrow> string \<Rightarrow> bool \<Rightarrow> string option \<Rightarrow> ('a, ReviewItem) preset_handler" where
  "reviews_catalog env q token review_id enabled reason =
     seq (admin_user env q token) (\<lambda>s.
       if \<not> enabled \<and> missing (stripped reason) then throw invalid
       else
         seq (require_item review_id) (\<lambda>item.
           if re_status (ri_review item) \<noteq> RV_APPROVED then throw invalid
           else
             seq (if re_kind (ri_review item) = KIND_AGENT
                  then attempt (set_catalog_enabled (case ri_agent item of None \<Rightarrow> [] | Some (i, _) \<Rightarrow> i) enabled
                         (if enabled then None else stripped reason) (se_user_id s) (q_now q))
                  else attempt (skill_set_catalog_enabled (case ri_skill item of None \<Rightarrow> [] | Some (i, _) \<Rightarrow> i) enabled
                         (if enabled then None else stripped reason) (se_user_id s) (q_now q))) (\<lambda>changed.
               if \<not> changed then throw not_found else require_item review_id)))"

section \<open>The endpoints of the servers of tools\<close>

record McpServerResponse =
  mr_id :: string
  mr_name :: string
  mr_description :: string
  mr_url :: string
  mr_transport :: McpTransport
  mr_has_credential :: bool
  mr_tools :: "string list"
  mr_latency :: string
  mr_stores :: bool
  mr_sends :: bool
  mr_writes :: bool
  mr_status :: McpStatus
  mr_reason :: "string option"
  mr_created :: datetime
  mr_updated :: datetime

record AdminMcpServerResponse = McpServerResponse +
  mr_by :: string
  mr_submitter :: string
  mr_failures :: nat

record McpProbeResponse =
  mp_reachable :: bool
  mp_tools :: "string list"
  mp_declared_only :: "string list"
  mp_undeclared :: "string list"
  mp_failures :: nat

definition to_mcp_response :: "McpServer \<Rightarrow> McpServerResponse" where
  "to_mcp_response s =
     \<lparr>mr_id = ms_id s, mr_name = ms_name s, mr_description = ms_description s, mr_url = ms_url s, mr_transport = ms_transport s,
      mr_has_credential = (ms_credential s \<noteq> None), mr_tools = ms_tools s, mr_latency = ms_latency s, mr_stores = ms_stores s,
      mr_sends = ms_sends s, mr_writes = ms_writes s, mr_status = ms_status s, mr_reason = ms_reason s, mr_created = ms_created s,
      mr_updated = ms_updated s\<rparr>"

definition admin_view :: "(string \<rightharpoonup> string) \<Rightarrow> nat \<Rightarrow> McpServer \<Rightarrow> AdminMcpServerResponse" where
  "admin_view names failures s =
     McpServerResponse.extend (to_mcp_response s)
       (AdminMcpServerResponse.fields (ms_by s) (case names (ms_by s) of None \<Rightarrow> [] | Some n \<Rightarrow> n) failures)"

definition require_admin_view :: "Req \<Rightarrow> string \<Rightarrow> ('a, AdminMcpServerResponse) preset_handler" where
  "require_admin_view q sid =
     seq (ask (get_mcp sid)) (\<lambda>found.
     seq (or_error not_found found) (\<lambda>s.
     seq (ask (user_names [ms_by s])) (\<lambda>names.
     seq (read_db (\<lambda>m. failure_count sid (q_now q) (mw_failures m))) (\<lambda>n. ret (admin_view names n s)))))"

definition mcp_browse :: "Env \<Rightarrow> Req \<Rightarrow> string option \<Rightarrow> ('a, McpServerResponse list) preset_handler" where
  "mcp_browse env q token =
     seq (protected env q token) (\<lambda>_. seq (ask (list_mcp (e_coll env) (Some MCP_ENABLED))) (\<lambda>ss. ret (map to_mcp_response ss)))"

definition ALLOWED_SCHEME :: "string list" where "ALLOWED_SCHEME = [''http://'', ''https://'']"

definition mcp_apply :: "Env \<Rightarrow> Req \<Rightarrow> uuid \<Rightarrow> string option \<Rightarrow> McpApplication \<Rightarrow> ('a, McpServerResponse) preset_handler" where
  "mcp_apply env q review_id token a =
     seq (protected env q token) (\<lambda>s.
       if \<not> (\<exists>p\<in>set ALLOWED_SCHEME. prefix p (ma_url a)) then throw invalid
       else
         seq (change (apply_mcp (q_id q) a (se_user_id s) (q_now q))) (\<lambda>created.
         seq (or_error invalid created) (\<lambda>server.
         seq (change (submit_review review_id (ms_id server) (se_user_id s) True KIND_MCP (q_now q))) (\<lambda>_.
           ret (to_mcp_response server)))))"

definition mcp_admin_list :: "Env \<Rightarrow> Req \<Rightarrow> string option \<Rightarrow> ('a, AdminMcpServerResponse list) preset_handler" where
  "mcp_admin_list env q token =
     seq (reviewer_user env q token) (\<lambda>_.
     seq (ask (list_mcp (e_coll env) None)) (\<lambda>ss.
     seq (ask (user_names (map ms_by ss))) (\<lambda>names.
       read_db (\<lambda>m. map (\<lambda>s. admin_view names (failure_count (ms_id s) (q_now q) (mw_failures m)) s) ss))))"

text \<open>\<open>_close_review\<close>: every pending review of the server gets the decision; an answer that another one came first is ignored.\<close>

fun decide_each :: "string list \<Rightarrow> string \<Rightarrow> bool \<Rightarrow> string option \<Rightarrow> datetime \<Rightarrow> ('a, unit) preset_handler" where
  "decide_each [] reviewer_id approved reason now = ret ()"
| "decide_each (i # is) reviewer_id approved reason now =
     seq (attempt (decide_review i reviewer_id approved reason now)) (\<lambda>_. decide_each is reviewer_id approved reason now)"

definition close_review :: "string \<Rightarrow> bool \<Rightarrow> string option \<Rightarrow> string \<Rightarrow> datetime \<Rightarrow> ('a, unit) preset_handler" where
  "close_review sid approved reason reviewer_id now =
     seq (ask (list_for_target [sid] KIND_MCP)) (\<lambda>rs.
       decide_each (map re_id (filter (\<lambda>r. re_status r = RV_PENDING) rs)) reviewer_id approved reason now)"

definition mcp_decide ::
    "Env \<Rightarrow> Req \<Rightarrow> string option \<Rightarrow> string \<Rightarrow> bool \<Rightarrow> string option \<Rightarrow> ('a, AdminMcpServerResponse) preset_handler" where
  "mcp_decide env q token sid approved reason =
     seq (reviewer_user env q token) (\<lambda>s.
       if \<not> approved \<and> missing (stripped reason) then throw invalid
       else
         seq (ask (get_mcp sid)) (\<lambda>found.
           case found of
             None \<Rightarrow> throw not_found
           | Some server \<Rightarrow>
               if approved \<and> ms_writes server then throw invalid
               else
                 seq (change (decide_mcp sid (se_user_id s) approved (stripped reason) (q_now q))) (\<lambda>ok.
                   if \<not> ok then throw invalid
                   else seq (close_review sid approved (stripped reason) (se_user_id s) (q_now q)) (\<lambda>_. require_admin_view q sid))))"

definition mcp_set_enabled ::
    "Env \<Rightarrow> Req \<Rightarrow> string option \<Rightarrow> string \<Rightarrow> bool \<Rightarrow> string option \<Rightarrow> ('a, AdminMcpServerResponse) preset_handler" where
  "mcp_set_enabled env q token sid enabled reason =
     seq (admin_user env q token) (\<lambda>s.
     seq (ask (get_mcp sid)) (\<lambda>found.
       if found = None then throw not_found
       else if \<not> enabled \<and> missing (stripped reason) then throw invalid
       else
         seq (change (set_mcp_enabled sid enabled (stripped reason) (q_now q))) (\<lambda>ok.
           if \<not> ok then throw invalid
           else seq (if enabled then on_db (\<lambda>m. ((), reset_failures sid m)) else ret ()) (\<lambda>_. require_admin_view q sid))))"

text \<open>\<open>probe\<close>: \<open>answer\<close> is what the server said; the names come sorted.\<close>

definition mcp_probe ::
    "Env \<Rightarrow> (nat \<Rightarrow> string \<Rightarrow> string) \<Rightarrow> (McpAnswer \<Rightarrow> string) \<Rightarrow> (string \<rightharpoonup> string) \<Rightarrow> Req \<Rightarrow> string option \<Rightarrow> string \<Rightarrow> McpAnswer \<Rightarrow>
     ('a, McpProbeResponse) preset_handler" where
  "mcp_probe env say why credentials q token sid answer =
     seq (admin_user env q token) (\<lambda>_.
     seq (ask (get_mcp sid)) (\<lambda>found.
     seq (or_error not_found found) (\<lambda>server.
     seq (ask (load_mcp_target credentials sid)) (\<lambda>target.
     seq (or_error not_found target) (\<lambda>target.
     seq (on_db (load_one MCP_FAILURE_THRESHOLD say why target answer (q_now q))) (\<lambda>names.
     seq (read_db (\<lambda>m. failure_count sid (q_now q) (mw_failures m))) (\<lambda>n.
       let actual = (case names of None \<Rightarrow> [] | Some ns \<Rightarrow> ns);
           ordered = (\<lambda>xs. sort_key (map (of_char :: char \<Rightarrow> nat)) (remdups xs))
       in ret \<lparr>mp_reachable = (names \<noteq> None), mp_tools = ordered actual,
               mp_declared_only = (if names \<noteq> None then ordered (filter (\<lambda>n. n \<notin> set actual) (ms_tools server)) else []),
               mp_undeclared = ordered (filter (\<lambda>n. n \<notin> set (ms_tools server)) actual), mp_failures = n\<rparr>)))))))"

section \<open>Requests in any order\<close>

text \<open>The requests that write, and \<open>PcRead\<close> for the ones that only read; behind them what the workers do to the catalogue: they count the
  use of an agent and report to the breaker.\<close>

datatype preset_call =
    PcCreate "string option" uuid CreateAgentRequest
  | PcUpdate "string option" string string string string
  | PcDraft "string option" string UpdateDraftRequest
  | PcRelease "string option" string
  | PcShare "string option" string Visibility "string list"
  | PcSubmit "string option" string bool
  | PcDelete "string option" string
  | PcDecide "string option" string bool "string option"
  | PcCatalog "string option" string bool "string option"
  | PcApply "string option" uuid McpApplication
  | PcMcpDecide "string option" string bool "string option"
  | PcMcpEnabled "string option" string bool "string option"
  | PcProbe "string option" string McpAnswer
  | PcRead "string option"
  | WkCount string
  | WkFailure string string
  | WkSuccess string

record PresetEnv =
  pe_env :: Env
  pe_say :: "nat \<Rightarrow> string \<Rightarrow> string"
  pe_why :: "McpAnswer \<Rightarrow> string"
  pe_credentials :: "string \<rightharpoonup> string"

fun serve_preset :: "PresetEnv \<Rightarrow> Req \<times> preset_call \<Rightarrow> 'a PresetDb_scheme McpWorld Site \<Rightarrow> 'a PresetDb_scheme McpWorld Site" where
  "serve_preset e (q, PcCreate t j r) = run_handler (agents_create (pe_env e) q j t r)"
| "serve_preset e (q, PcUpdate t i n d s) = run_handler (agents_update (pe_env e) q t i n d s)"
| "serve_preset e (q, PcDraft t i r) = run_handler (agents_draft (pe_env e) q t i r)"
| "serve_preset e (q, PcRelease t i) = run_handler (agents_release (pe_env e) q t i)"
| "serve_preset e (q, PcShare t i v gs) = run_handler (agents_sharing (pe_env e) q t i v gs)"
| "serve_preset e (q, PcSubmit t i b) = run_handler (agents_submit (pe_env e) q t i b)"
| "serve_preset e (q, PcDelete t i) = run_handler (agents_delete (pe_env e) q t i)"
| "serve_preset e (q, PcDecide t i b r) = run_handler (reviews_decide (pe_env e) q t i b r)"
| "serve_preset e (q, PcCatalog t i b r) = run_handler (reviews_catalog (pe_env e) q t i b r)"
| "serve_preset e (q, PcApply t j a) = run_handler (mcp_apply (pe_env e) q j t a)"
| "serve_preset e (q, PcMcpDecide t i b r) = run_handler (mcp_decide (pe_env e) q t i b r)"
| "serve_preset e (q, PcMcpEnabled t i b r) = run_handler (mcp_set_enabled (pe_env e) q t i b r)"
| "serve_preset e (q, PcProbe t i a) = run_handler (mcp_probe (pe_env e) (pe_say e) (pe_why e) (pe_credentials e) q t i a)"
| "serve_preset e (q, PcRead t) = run_handler (protected (pe_env e) q t)"
| "serve_preset e (q, WkCount i) = run_handler (change (\<lambda>db. ((), count_call i db)))"
| "serve_preset e (q, WkFailure i r) =
     run_handler (on_db (\<lambda>m. ((), record_failure MCP_FAILURE_THRESHOLD (pe_say e) i r (q_now q) m)))"
| "serve_preset e (q, WkSuccess i) = run_handler (on_db (\<lambda>m. ((), record_success i m)))"

fun preset_token :: "preset_call \<Rightarrow> string option" where
  "preset_token (PcCreate t _ _) = t" | "preset_token (PcUpdate t _ _ _ _) = t" | "preset_token (PcDraft t _ _) = t"
| "preset_token (PcRelease t _) = t" | "preset_token (PcShare t _ _ _) = t" | "preset_token (PcSubmit t _ _) = t"
| "preset_token (PcDelete t _) = t" | "preset_token (PcDecide t _ _ _) = t" | "preset_token (PcCatalog t _ _ _) = t"
| "preset_token (PcApply t _ _) = t" | "preset_token (PcMcpDecide t _ _ _) = t" | "preset_token (PcMcpEnabled t _ _ _) = t"
| "preset_token (PcProbe t _ _) = t" | "preset_token (PcRead t) = t" | "preset_token _ = None"

text \<open>The fresh identifiers a request draws.\<close>

fun fresh_ids :: "Req \<times> preset_call \<Rightarrow> bool" where
  "fresh_ids (q, PcCreate t j r) \<longleftrightarrow> q_id q < 2 ^ 128 \<and> j < 2 ^ 128"
| "fresh_ids (q, _) \<longleftrightarrow> q_id q < 2 ^ 128"

fun serve_presets ::
    "PresetEnv \<Rightarrow> (Req \<times> preset_call) list \<Rightarrow> 'a PresetDb_scheme McpWorld Site \<Rightarrow> Session option list \<times> 'a PresetDb_scheme McpWorld Site" where
  "serve_presets e [] w = ([], w)"
| "serve_presets e ((q, c) # cs) w =
     (case serve_presets e cs (serve_preset e (q, c) w) of (as, w') \<Rightarrow> (actor q (preset_token c) w # as, w'))"

section \<open>What holds of the catalogue\<close>

text \<open>Every version with a review is released, and no server that writes has been let in.\<close>

definition reviewed_ok :: "'a PresetDb_scheme \<Rightarrow> bool" where
  "reviewed_ok db \<longleftrightarrow> agents_ok db \<and> unclashed review_clash (reviews db) \<and> (\<forall>v\<in>set (agent_versions db). v_pk v < 2 ^ 128) \<and>
     (\<forall>r\<in>set (reviews db). rv_kind r = KIND_AGENT \<longrightarrow> (\<exists>v\<in>set (agent_versions db). v_pk v = rv_target r \<and> v_status v = RELEASED)) \<and>
     distinct (map m_pk (mcp_servers db)) \<and>
     (\<forall>s\<in>set (mcp_servers db). m_writes s \<longrightarrow> m_status s = MCP_PENDING \<or> m_status s = MCP_REJECTED)"

text \<open>Every approval was there at the start, or it was given by one of the sessions of \<open>A\<close>, a reviewer's.\<close>

definition approved_by :: "Session set \<Rightarrow> 'a PresetDb_scheme \<Rightarrow> 'a PresetDb_scheme \<Rightarrow> bool" where
  "approved_by A db0 db \<longleftrightarrow> (\<forall>r\<in>set (reviews db). rv_status r = RV_APPROVED \<longrightarrow> r \<in> set (reviews db0) \<or>
     (\<exists>s\<in>A. se_role s \<in> set REVIEWER_ROLE \<and> rv_reviewer r \<noteq> None \<and> UUID (se_user_id s) = rv_reviewer r))"

definition catalogue_inv :: "Session set \<Rightarrow> 'a PresetDb_scheme \<Rightarrow> 'a PresetDb_scheme \<Rightarrow> bool" where
  "catalogue_inv A db0 db \<longleftrightarrow> reviewed_ok db \<and> approved_by A db0 db"

abbreviation preset_inv :: "('a PresetDb_scheme \<Rightarrow> bool) \<Rightarrow> 'a PresetDb_scheme McpWorld Site \<Rightarrow> bool" where
  "preset_inv P \<equiv> site_inv (\<lambda>m. P (mw_db m)) (\<lambda>_. True)"

lemma keeps_ask [step_intros]: "keeps (preset_inv P) (ask g)"
  unfolding ask_def by (rule step_intros)

lemma keeps_ask_result [step_intros]: "keeps P (ask_result g)"
  by (simp add: keeps_def ask_result_def)

lemma keeps_or_error [step_intros]: "keeps P (or_error e v)"
  by (cases v) (simp_all add: or_error_def)

lemma keeps_change [step_intros]: "(\<And>d. P d \<Longrightarrow> P (snd (f d))) \<Longrightarrow> keeps (preset_inv P) (change f)"
  unfolding change_def by (rule site_keeps_on_db) (simp add: split_beta)

lemma keeps_attempt [step_intros]: "(\<And>d x d'. P d \<Longrightarrow> f d = Inr (x, d') \<Longrightarrow> P d') \<Longrightarrow> keeps (preset_inv P) (attempt f)"
  unfolding attempt_def by (rule site_keeps_try_db) (auto split: sum.splits prod.splits)

lemma reviewer_then:
  assumes "site_inv Q W w" "\<And>s. actor q token w = Some s \<Longrightarrow> se_role s \<in> set REVIEWER_ROLE \<Longrightarrow> keeps (site_inv Q W) (f s)"
  shows "site_inv Q W (snd (seq (reviewer_user env q token) f w))"
proof -
  have "seq (reviewer_user env q token) f = seq (protected env q token) (\<lambda>s. seq (require_reviewer s) f)"
    by (rule ext) (simp add: reviewer_user_def seq_def split: prod.splits sum.splits)
  moreover have "keeps (site_inv Q W) (seq (require_reviewer s) f)" if "actor q token w = Some s" for s
    using assms(2) [OF that] by (cases "se_role s \<in> set REVIEWER_ROLE") (simp_all add: require_reviewer_def seq_def keeps_def ret_def throw_def)
  ultimately show ?thesis by (simp add: protected_then [OF assms(1)])
qed

section \<open>The calls of the repositories keep it\<close>

text \<open>Keys of versions are the ones there were, or the fresh one of the call; the other tables stay.\<close>

fun version_keys :: "agent_op \<Rightarrow> uuid set" where
  "version_keys (NewAgent i j oid n d s c now) = {j}"
| "version_keys (WriteDraft j i oid c now) = {j}"
| "version_keys (CommitDraft j i plan c now) = {j}"
| "version_keys _ = {}"

lemma draft_commit_tables:
  assumes "draft_commit j i plan c now db = Inr (x, db')"
  shows "v_pk ` set (agent_versions db') \<subseteq> v_pk ` set (agent_versions db) \<union> {j} \<and> reviews db' = reviews db \<and> mcp_servers db' = mcp_servers db"
proof (cases plan)
  case (EditDraft v)
  let ?f = "\<lambda>x. if v_pk x = v_pk v then edited c x else x"
  have "v_pk ` ?f ` set (agent_versions db) = v_pk ` set (agent_versions db)"
    unfolding image_image by (rule image_cong) simp_all
  with EditDraft assms show ?thesis
    by (simp add: draft_commit_def put_agent_def del: if_image_distrib) auto
next
  case (AddDraft n)
  with assms show ?thesis
    by (auto simp: draft_commit_def put_agent_def Let_def sql_insert_Inr result_bind_Inr_iff)
qed

lemma agent_step_tables:
  "v_pk ` set (agent_versions (agent_step x db)) \<subseteq> v_pk ` set (agent_versions db) \<union> version_keys x \<and>
   reviews (agent_step x db) = reviews db \<and> mcp_servers (agent_step x db) = mcp_servers db"
proof (cases x)
  case (NewAgent i j oid n d s c now)
  then show ?thesis
    by (auto simp: create_agent_def Let_def sql_insert_Inr split: option.splits sum.splits if_splits)
next
  case (WriteDraft j i oid c now)
  show ?thesis
  proof (cases "draft_read i oid db")
    case None
    with WriteDraft show ?thesis by (simp add: write_draft_def subset_insertI)
  next
    case (Some kp)
    obtain k plan where kp: "kp = (k, plan)" by fastforce
    show ?thesis
      using draft_commit_tables [of j k plan c now db] WriteDraft Some kp
      by (cases "draft_commit j k plan c now db") (simp_all add: write_draft_def subset_insertI split_beta prod_eq_iff)
  qed
next
  case (CommitDraft j i plan c now)
  then show ?thesis
    using draft_commit_tables [of j i plan c now db]
    by (cases "draft_commit j i plan c now db") (simp_all add: subset_insertI split_beta prod_eq_iff)
next
  case (Release i oid now)
  then show ?thesis
    by (auto simp: release_def sql_update_returning_def put_agent_def split: option.splits list.splits)
qed (auto simp: update_meta_def put_agent_def Let_def set_sharing_def soft_delete_def set_catalog_enabled_def count_call_def
    split: option.splits sum.splits)

lemma agent_step_inv:
  assumes "catalogue_inv A db0 db" "plan_fresh x db" "\<forall>j\<in>version_keys x. j < 2 ^ 128"
  shows "catalogue_inv A db0 (agent_step x db)"
proof -
  let ?d = "agent_step x db"
  have ok: "agents_ok db" and inv: "reviewed_ok db" "approved_by A db0 db"
    using assms(1) by (simp_all add: catalogue_inv_def reviewed_ok_def)
  note t = agent_step_tables [of x db] and g = agent_step_grows [OF ok assms(2)]
  have r: "reviews ?d = reviews db" "mcp_servers ?d = mcp_servers db" using t by simp_all
  have pk: "\<forall>v\<in>set (agent_versions ?d). v_pk v < 2 ^ 128"
  proof
    fix v assume "v \<in> set (agent_versions ?d)"
    then have "v_pk v \<in> v_pk ` set (agent_versions db) \<union> version_keys x" using t by blast
    then show "v_pk v < 2 ^ 128" using inv(1) assms(3) by (auto simp: reviewed_ok_def)
  qed
  have kept: "v \<in> set (agent_versions ?d)" if "v \<in> set (agent_versions db)" "v_status v = RELEASED" for v
  proof -
    from g obtain f new where f: "agent_versions ?d = map f (agent_versions db) @ new" "\<forall>v\<in>set (agent_versions db). v_status v = RELEASED \<longrightarrow> f v = v"
      unfolding grows_def by blast
    then have "f v = v" using that by blast
    with f(1) that(1) show ?thesis by (metis UnI1 image_eqI image_set set_append)
  qed
  have "\<forall>y\<in>set (reviews ?d). rv_kind y = KIND_AGENT \<longrightarrow> (\<exists>v\<in>set (agent_versions ?d). v_pk v = rv_target y \<and> v_status v = RELEASED)"
    using inv(1) kept unfolding r reviewed_ok_def by blast
  then have "reviewed_ok ?d" using g pk inv(1) by (simp add: reviewed_ok_def r)
  moreover have "approved_by A db0 ?d" using inv(2) by (simp add: approved_by_def r)
  ultimately show ?thesis by (simp add: catalogue_inv_def)
qed

text \<open>Submitting a review of a released version, or of a server.\<close>

lemma submit_review_inv:
  assumes "catalogue_inv A db0 db" "submit_review i t u c k now db = (x, db')"
    and "k = KIND_AGENT \<Longrightarrow> \<exists>v\<in>set (agent_versions db). t = uuid_hex (v_pk v) \<and> v_status v = RELEASED"
  shows "catalogue_inv A db0 db'"
  using assms(2)
proof (rule submit_review_cases)
  assume "db' = db"
  with assms(1) show ?thesis by simp
next
  fix r
  assume r: "rv_kind r = k" "UUID t = Some (rv_target r)" "rv_status r = RV_PENDING" "sql_insert review_clash r (reviews db) = Inr (reviews db')"
      "db' = db\<lparr>reviews := reviews db @ [r]\<rparr>"
  have ok: "reviewed_ok db" "approved_by A db0 db" using assms(1) by (simp_all add: catalogue_inv_def)
  have "\<exists>v\<in>set (agent_versions db). v_pk v = rv_target r \<and> v_status v = RELEASED" if "rv_kind r = KIND_AGENT"
  proof -
    from assms(3) that r(1) obtain v where v: "v \<in> set (agent_versions db)" "t = uuid_hex (v_pk v)" "v_status v = RELEASED" by auto
    with ok(1) have "v_pk v < 2 ^ 128" by (simp add: reviewed_ok_def)
    with v r(2) have "rv_target r = v_pk v" by simp
    with v show ?thesis by auto
  qed
  moreover have "unclashed review_clash (reviews db')" using unclashed_insert [OF r(4)] ok(1) by (simp add: reviewed_ok_def)
  moreover have "agents_ok db'" using ok(1) by (simp add: r(5) reviewed_ok_def agents_ok_def user_row_def)
  ultimately show ?thesis using ok r(3) unfolding catalogue_inv_def
    by (simp add: r(5) reviewed_ok_def approved_by_def)
qed

lemma decide_review_inv:
  assumes "catalogue_inv A db0 db" "decide_review i u a reason now db = Inr (b, db')"
    and "s \<in> A" "se_role s \<in> set REVIEWER_ROLE" "u = se_user_id s"
  shows "catalogue_inv A db0 db'"
proof -
  have ok: "reviewed_ok db" "approved_by A db0 db" using assms(1) by (simp_all add: catalogue_inv_def)
  have un: "unclashed review_clash (reviews db)" using ok(1) by (simp add: reviewed_ok_def)
  from assms(2) un show ?thesis
  proof (cases rule: decide_review_cases)
    case 1
    with assms(1) show ?thesis by simp
  next
    case (2 k v r)
    let ?f = "\<lambda>x. if rv_pk x = k \<and> rv_status x = RV_PENDING then decided_review a reason v now x else x"
    have u: "unclashed review_clash (map ?f (reviews db))" by (rule unclashed_map [OF un], rule decided_clash)
    have kt: "rv_kind (?f x) = rv_kind x" "rv_target (?f x) = rv_target x" for x by simp_all
    have "\<exists>v\<in>set (agent_versions db). v_pk v = rv_target y \<and> v_status v = RELEASED" if y: "y \<in> set (reviews db')" "rv_kind y = KIND_AGENT" for y
    proof -
      from y(1) obtain x where "x \<in> set (reviews db)" "y = ?f x" by (auto simp: 2(7))
      with kt [of x] y(2) ok(1) show ?thesis by (auto simp: reviewed_ok_def simp del: decided_review_sels)
    qed
    moreover have "agents_ok db'" using ok(1) by (simp add: 2(7) reviewed_ok_def agents_ok_def user_row_def)
    ultimately have "reviewed_ok db'" using ok(1) u by (simp add: 2(7) reviewed_ok_def)
    moreover have "approved_by A db0 db'" unfolding approved_by_def
    proof (intro ballI impI)
      fix y
      assume y: "y \<in> set (reviews db')" "rv_status y = RV_APPROVED"
      then obtain x where x: "x \<in> set (reviews db)" "y = ?f x" by (auto simp: 2(7))
      show "y \<in> set (reviews db0) \<or> (\<exists>s\<in>A. se_role s \<in> set REVIEWER_ROLE \<and> rv_reviewer y \<noteq> None \<and> UUID (se_user_id s) = rv_reviewer y)"
      proof (cases "rv_pk x = k \<and> rv_status x = RV_PENDING")
        case True
        with x have "rv_reviewer y = Some v" by (simp add: decided_review_def)
        with 2(3) assms(3-5) show ?thesis by auto
      next
        case False
        with x y(2) have "y \<in> set (reviews db)" "rv_status y = RV_APPROVED" by auto
        with ok(2) show ?thesis by (simp add: approved_by_def)
      qed
    qed
    ultimately show ?thesis by (simp add: catalogue_inv_def)
  qed
qed

text \<open>The table of servers: a change of status never lets a server in that writes.\<close>

lemma servers_inv:
  assumes "catalogue_inv A db0 db" "\<forall>s\<in>set rows. m_writes s \<longrightarrow> m_status s = MCP_PENDING \<or> m_status s = MCP_REJECTED"
    and "distinct (map m_pk rows)"
  shows "catalogue_inv A db0 (db\<lparr>mcp_servers := rows\<rparr>)"
  using assms by (simp add: catalogue_inv_def reviewed_ok_def approved_by_def agents_ok_def user_row_def)

lemma serversD:
  assumes "catalogue_inv A db0 db"
  shows "s \<in> set (mcp_servers db) \<Longrightarrow> m_writes s \<Longrightarrow> m_status s = MCP_PENDING \<or> m_status s = MCP_REJECTED"
    "distinct (map m_pk (mcp_servers db))"
  using assms by (simp_all add: catalogue_inv_def reviewed_ok_def)

lemma mcp_transit_inv:
  assumes "catalogue_inv A db0 db" "\<And>r. m_writes (f r) = m_writes r" "\<And>r. m_pk (f r) = m_pk r"
    and "\<And>r. r \<in> set (mcp_servers db) \<Longrightarrow> UUID sid = Some (m_pk r) \<Longrightarrow> m_status r \<in> set allowed \<Longrightarrow> m_writes r \<Longrightarrow>
      m_status (f r) = MCP_PENDING \<or> m_status (f r) = MCP_REJECTED"
  shows "catalogue_inv A db0 (snd (mcp_transit sid allowed f db))"
proof (cases "UUID sid")
  case None
  with assms(1) show ?thesis by (simp add: mcp_transit_def)
next
  case (Some i)
  let ?f = "\<lambda>r. if m_pk r = i \<and> m_status r \<in> set allowed then f r else r"
  have "m_status (?f r) = MCP_PENDING \<or> m_status (?f r) = MCP_REJECTED" if "r \<in> set (mcp_servers db)" "m_writes (?f r)" for r
    using that assms(2,4) [of r] serversD(1) [OF assms(1), of r] Some by (auto split: if_splits)
  then have "\<forall>s\<in>set (map ?f (mcp_servers db)). m_writes s \<longrightarrow> m_status s = MCP_PENDING \<or> m_status s = MCP_REJECTED"
    unfolding set_map by blast
  moreover have "map m_pk (map ?f (mcp_servers db)) = map m_pk (mcp_servers db)" by (simp add: assms(3))
  then have "distinct (map m_pk (map ?f (mcp_servers db)))" by (simp only: serversD(2) [OF assms(1)])
  ultimately have "catalogue_inv A db0 (db\<lparr>mcp_servers := map ?f (mcp_servers db)\<rparr>)"
    by (rule servers_inv [OF assms(1)])
  with Some show ?thesis by (simp add: mcp_transit_def sql_update_returning_def)
qed

lemma set_mcp_enabled_inv:
  assumes "catalogue_inv A db0 db"
  shows "catalogue_inv A db0 (snd (set_mcp_enabled sid b reason now db))" "catalogue_inv A db0 (snd (disable_for_failure sid why now db))"
  unfolding set_mcp_enabled_def disable_for_failure_def
  by (intro mcp_transit_inv [OF assms]; use serversD(1) [OF assms] in fastforce)+

lemma apply_mcp_inv:
  assumes "catalogue_inv A db0 db" "apply_mcp i a u now db = (x, db')"
  shows "catalogue_inv A db0 db'"
proof (cases "x = None")
  case True
  with assms show ?thesis by (auto simp: apply_mcp_def Let_def split: option.splits if_splits sum.splits)
next
  case False
  with assms(2) obtain r where r: "db' = db\<lparr>mcp_servers := mcp_servers db @ [r]\<rparr>" "m_status r = MCP_PENDING"
      "\<forall>x\<in>set (mcp_servers db). \<not> mcp_clash r x"
    by (auto simp: apply_mcp_def Let_def sql_insert_Inr split: option.splits if_splits sum.splits)
  have "m_pk r \<notin> m_pk ` set (mcp_servers db)" using r(3) by (auto simp: mcp_clash_def)
  with r(2) serversD [OF assms(1)] show ?thesis unfolding r(1) by (intro servers_inv [OF assms(1)]) auto
qed

lemma decide_mcp_inv:
  assumes "catalogue_inv A db0 db" "get_mcp sid db = Some server" "\<not> (approved \<and> ms_writes server)"
  shows "catalogue_inv A db0 (snd (decide_mcp sid u approved reason now db))"
proof (cases "UUID u")
  case None
  with assms(1) show ?thesis by (simp add: decide_mcp_def)
next
  case (Some v)
  have "\<not> approved" if r: "r \<in> set (mcp_servers db)" "UUID sid = Some (m_pk r)" "m_writes r" for r
  proof -
    have "mcp_row db (m_pk r) = Some r" unfolding mcp_row_def by (rule find_key [OF serversD(2) [OF assms(1)] r(1)])
    with r(2,3) assms(2,3) show ?thesis by (auto simp: get_mcp_def to_server_def)
  qed
  then have "catalogue_inv A db0 (snd (mcp_transit sid [MCP_PENDING]
    (\<lambda>r. r\<lparr>m_status := (if approved then MCP_ENABLED else MCP_REJECTED), m_reason := (if approved then None else reason),
           m_reviewer := Some v, m_updated := now\<rparr>) db))"
    by (intro mcp_transit_inv [OF assms(1)]) auto
  with Some show ?thesis by (simp add: decide_mcp_def)
qed

text \<open>Each call of the agents as a step, and the calls on Skills, which touch neither table.\<close>

lemma agent_calls_inv:
  assumes "catalogue_inv A db0 d"
  shows "create_agent i j oid n ds s c now d = Inr (x, d1) \<Longrightarrow> i < 2 ^ 128 \<Longrightarrow> j < 2 ^ 128 \<Longrightarrow> catalogue_inv A db0 d1"
    and "write_draft j ident oid c now d = Inr (y, d2) \<Longrightarrow> j < 2 ^ 128 \<Longrightarrow> catalogue_inv A db0 d2"
    and "set_sharing ident oid v gs now d = Inr (z, d3) \<Longrightarrow> catalogue_inv A db0 d3"
    and "set_catalog_enabled ident b r aid now d = Inr (t, d4) \<Longrightarrow> catalogue_inv A db0 d4"
    and "catalogue_inv A db0 (snd (update_meta ident oid n ds s now d))" "catalogue_inv A db0 (snd (release ident oid now d))"
    and "catalogue_inv A db0 (snd (soft_delete ident oid now d))" "catalogue_inv A db0 (count_call ident d)"
  using agent_step_inv [OF assms, of "NewAgent i j oid n ds s c now"] agent_step_inv [OF assms, of "WriteDraft j ident oid c now"]
    agent_step_inv [OF assms, of "Share ident oid v gs now"] agent_step_inv [OF assms, of "Switch ident b r aid now"]
    agent_step_inv [OF assms, of "Meta ident oid n ds s now"] agent_step_inv [OF assms, of "Release ident oid now"]
    agent_step_inv [OF assms, of "Delete ident oid now"] agent_step_inv [OF assms, of "Count ident"]
  by simp_all

lemma skill_switch_inv:
  assumes "skill_set_catalog_enabled ident b r aid now d = Inr (t, d')" "catalogue_inv A db0 d"
  shows "catalogue_inv A db0 d'"
  using assms
  by (auto simp: skill_set_catalog_enabled_def put_skill_def catalogue_inv_def reviewed_ok_def approved_by_def agents_ok_def user_row_def
      split: option.splits if_splits)

section \<open>The endpoints keep it\<close>

abbreviation sound_site :: "Session set \<Rightarrow> 'a PresetDb_scheme \<Rightarrow> 'a PresetDb_scheme McpWorld Site \<Rightarrow> bool" where
  "sound_site A db0 \<equiv> preset_inv (catalogue_inv A db0)"

lemma seq_ask: "seq (ask g) f w = f (g (mw_db (s_db w))) w"
  by (simp add: seq_def ask_def read_db_def)

lemma seq_from: "P (snd (m w)) \<Longrightarrow> (\<And>x. keeps P (f x)) \<Longrightarrow> P (snd (seq m f w))"
  by (cases "m w") (auto simp: seq_def keeps_def split: sum.splits)

lemma keeps_views [step_intros]:
  "keeps (preset_inv P) (require_owned ident u)" "keeps (preset_inv P) (require_mine ident u)" "keeps (preset_inv P) (author_content r u)"
  "keeps (preset_inv P) (require_item i)" "keeps (preset_inv P) (require_admin_view q sid)"
  unfolding require_owned_def require_mine_def author_content_def author_skills_def author_subagents_def author_mcps_def
    require_item_def require_admin_view_def
  by (intro step_intros)+

lemma author_calls_sound:
  assumes "q_id q < 2 ^ 128"
  shows "j < 2 ^ 128 \<Longrightarrow> keeps (sound_site A db0) (agents_create env q j t r)" "keeps (sound_site A db0) (agents_update env q t i n d s)"
    "keeps (sound_site A db0) (agents_draft env q t i c)" "keeps (sound_site A db0) (agents_release env q t i)"
    "keeps (sound_site A db0) (agents_sharing env q t i v gs)" "keeps (sound_site A db0) (agents_delete env q t i)"
  unfolding agents_create_def agents_update_def agents_draft_def agents_release_def agents_sharing_def agents_delete_def
  using assms by (intro step_intros; (blast intro: agent_calls_inv)?)+

lemma agents_submit_sound: "keeps (sound_site A db0) (agents_submit env q t i b)"
proof -
  have "keeps (sound_site A db0) (seq (ask (detail i u)) (\<lambda>d. case d of None \<Rightarrow> throw not_found | Some d \<Rightarrow>
      if ag_deleted (ad_agent d) then throw not_found
      else let released = filter (\<lambda>v. av_status v = RELEASED) (ad_versions d) in
        if released = [] then throw invalid
        else seq (change (submit_review (q_id q) (av_id (last released)) u True KIND_AGENT (q_now q))) (\<lambda>r.
             seq (or_error invalid r) (\<lambda>_. require_mine i u))))" for u
  proof (rule keepsI, unfold seq_ask)
    fix w :: "'a PresetDb_scheme McpWorld Site"
    assume w: "sound_site A db0 w"
    let ?db = "mw_db (s_db w)"
    show "sound_site A db0 (snd ((case detail i u ?db of None \<Rightarrow> throw not_found | Some d \<Rightarrow>
      if ag_deleted (ad_agent d) then throw not_found
      else let released = filter (\<lambda>v. av_status v = RELEASED) (ad_versions d) in
        if released = [] then throw invalid
        else seq (change (submit_review (q_id q) (av_id (last released)) u True KIND_AGENT (q_now q))) (\<lambda>r.
             seq (or_error invalid r) (\<lambda>_. require_mine i u))) w))"
    proof (cases "detail i u ?db")
      case None
      with w show ?thesis by (simp add: throw_def)
    next
      case (Some d)
      let ?rel = "filter (\<lambda>v. av_status v = RELEASED) (ad_versions d)"
      show ?thesis
      proof (cases "ag_deleted (ad_agent d) \<or> ?rel = []")
        case True
        with Some w show ?thesis by (auto simp: throw_def Let_def)
      next
        case False
        then have "last ?rel \<in> set ?rel" by (intro last_in_set) simp
        with Some obtain v where v: "v \<in> set (agent_versions ?db)" "av_id (last ?rel) = uuid_hex (v_pk v)" "v_status v = RELEASED"
          by (auto simp: detail_def assemble_def to_version_def split: option.splits if_splits)
        obtain x db' where s: "submit_review (q_id q) (av_id (last ?rel)) u True KIND_AGENT (q_now q) ?db = (x, db')" by fastforce
        have inv: "catalogue_inv A db0 ?db" using w by (simp add: site_inv_def)
        have "catalogue_inv A db0 db'" by (rule submit_review_inv [OF inv s]) (use v in blast)
        then have "sound_site A db0 (snd (change (submit_review (q_id q) (av_id (last ?rel)) u True KIND_AGENT (q_now q)) w))"
          using w s by (simp add: change_def on_db_def site_inv_def identities_def)
        then have "sound_site A db0 (snd (seq (change (submit_review (q_id q) (av_id (last ?rel)) u True KIND_AGENT (q_now q)))
            (\<lambda>r. seq (or_error invalid r) (\<lambda>_. require_mine i u)) w))"
          by (rule seq_from) (intro step_intros)
        with Some False show ?thesis by (simp add: Let_def)
      qed
    qed
  qed
  note core = this
  show ?thesis unfolding agents_submit_def
    by (rule keeps_seq [OF site_keeps(3)], rule keeps_if [OF keeps_throw], rule core)
qed

text \<open>The endpoints of reviewers: the session that decides is one of \<open>A\<close>.\<close>

lemma reviews_decide_sound:
  assumes "sound_site A db0 w" "\<And>s. actor q t w = Some s \<Longrightarrow> s \<in> A"
  shows "sound_site A db0 (snd (reviews_decide env q t i b r w))"
  unfolding reviews_decide_def
proof (rule reviewer_then [OF assms(1)])
  fix s assume s: "actor q t w = Some s" "se_role s \<in> set REVIEWER_ROLE"
  have "catalogue_inv A db0 d'" if "catalogue_inv A db0 d" "decide_review i (se_user_id s) b why now d = Inr (x, d')" for why now d x d'
    by (rule decide_review_inv [OF that assms(2) [OF s(1)] s(2) refl])
  then show "keeps (sound_site A db0) (if \<not> b \<and> missing (stripped r) then throw invalid
       else seq (ask_result (get_item i)) (\<lambda>item.
         seq (or_error not_found item) (\<lambda>_.
         seq (attempt (decide_review i (se_user_id s) b (if b then None else stripped r) (q_now q))) (\<lambda>ok.
           if \<not> ok then throw invalid else seq (ask_result (get_item i)) (or_error not_found)))))"
    by (intro step_intros)
qed

lemma decide_each_sound:
  assumes "s \<in> A" "se_role s \<in> set REVIEWER_ROLE"
  shows "keeps (sound_site A db0) (decide_each is (se_user_id s) b r now)"
proof (induction "is")
  case Nil
  show ?case by simp
next
  case (Cons i "is")
  have "catalogue_inv A db0 d'" if "catalogue_inv A db0 d" "decide_review i (se_user_id s) b r now d = Inr (x, d')" for d x d'
    by (rule decide_review_inv [OF that assms refl])
  then have "keeps (sound_site A db0) (attempt (decide_review i (se_user_id s) b r now))" by (rule keeps_attempt)
  with Cons.IH show ?case by (simp add: keeps_seq)
qed

lemma mcp_decide_sound:
  assumes "sound_site A db0 w" "\<And>s. actor q t w = Some s \<Longrightarrow> s \<in> A"
  shows "sound_site A db0 (snd (mcp_decide env q t sid b r w))"
  unfolding mcp_decide_def
proof (rule reviewer_then [OF assms(1)], rule keeps_if [OF keeps_throw], rule keepsI, unfold seq_ask)
  fix s and w' :: "'a PresetDb_scheme McpWorld Site"
  assume s: "actor q t w = Some s" "se_role s \<in> set REVIEWER_ROLE" and w': "sound_site A db0 w'"
  let ?db = "mw_db (s_db w')"
  show "sound_site A db0 (snd ((case get_mcp sid ?db of None \<Rightarrow> throw not_found
    | Some server \<Rightarrow> if b \<and> ms_writes server then throw invalid
        else seq (change (decide_mcp sid (se_user_id s) b (stripped r) (q_now q))) (\<lambda>ok.
          if \<not> ok then throw invalid
          else seq (close_review sid b (stripped r) (se_user_id s) (q_now q)) (\<lambda>_. require_admin_view q sid))) w'))"
  proof (cases "get_mcp sid ?db")
    case None
    with w' show ?thesis by (simp add: throw_def)
  next
    case (Some server)
    show ?thesis
    proof (cases "b \<and> ms_writes server")
      case True
      with Some w' show ?thesis by (simp add: throw_def)
    next
      case False
      obtain x db' where d: "decide_mcp sid (se_user_id s) b (stripped r) (q_now q) ?db = (x, db')" by fastforce
      have "catalogue_inv A db0 ?db" using w' by (simp add: site_inv_def)
      from decide_mcp_inv [OF this Some False, of "se_user_id s" "stripped r" "q_now q"] d have "catalogue_inv A db0 db'" by simp
      then have "sound_site A db0 (snd (change (decide_mcp sid (se_user_id s) b (stripped r) (q_now q)) w'))"
        using w' d by (simp add: change_def on_db_def site_inv_def identities_def)
      moreover have "keeps (sound_site A db0) (close_review sid b (stripped r) (se_user_id s) (q_now q))"
        unfolding close_review_def by (intro keeps_seq keeps_ask decide_each_sound assms(2) s)
      moreover have "keeps (sound_site A db0) (if \<not> ok then throw invalid else seq m (\<lambda>_. require_admin_view q sid))"
        if "keeps (sound_site A db0) m" for ok and m :: "('a, unit) preset_handler"
        using that by (intro keeps_if keeps_throw keeps_seq keeps_views)
      ultimately have "sound_site A db0 (snd (seq (change (decide_mcp sid (se_user_id s) b (stripped r) (q_now q))) (\<lambda>ok.
          if \<not> ok then throw invalid
          else seq (close_review sid b (stripped r) (se_user_id s) (q_now q)) (\<lambda>_. require_admin_view q sid)) w'))"
        by (intro seq_from [where P = "sound_site A db0"])
      then show ?thesis unfolding Some option.case if_not_P [OF False] .
    qed
  qed
qed

lemma keeps_admin [step_intros]: "keeps (site_inv Q W) (admin_user env q t)"
  unfolding admin_user_def require_admin_def by (intro step_intros)

lemma record_failure_inv:
  "catalogue_inv A db0 (mw_db m) \<Longrightarrow> catalogue_inv A db0 (mw_db (record_failure n say i r now m))"
  by (simp add: record_failure_def Let_def set_mcp_enabled_inv(2))

lemma load_one_inv:
  "catalogue_inv A db0 (mw_db m) \<Longrightarrow> catalogue_inv A db0 (mw_db (snd (load_one n say why target answer now m)))"
  by (cases answer) (simp_all add: load_one_def record_failure_inv record_success_def)

lemma other_calls_sound:
  "keeps (sound_site A db0) (reviews_catalog env q t i b r)" "keeps (sound_site A db0) (mcp_apply env q j t a)"
  "keeps (sound_site A db0) (mcp_set_enabled env q t sid b r)" "keeps (sound_site A db0) (mcp_probe env say why cr q t sid answer)"
proof -
  show "keeps (sound_site A db0) (reviews_catalog env q t i b r)" unfolding reviews_catalog_def
    by (intro step_intros; (blast intro: agent_calls_inv skill_switch_inv)?)
  have sub: "catalogue_inv A db0 (snd (submit_review j k u c KIND_MCP now d))" if "catalogue_inv A db0 d" for j k u c now d
    by (cases "submit_review j k u c KIND_MCP now d") (simp, erule submit_review_inv [OF that], simp)
  have app: "catalogue_inv A db0 (snd (apply_mcp k a u now d))" if "catalogue_inv A db0 d" for k u now d
    by (cases "apply_mcp k a u now d") (simp add: apply_mcp_inv [OF that])
  show "keeps (sound_site A db0) (mcp_apply env q j t a)" unfolding mcp_apply_def
    by (intro step_intros sub app)
  show "keeps (sound_site A db0) (mcp_set_enabled env q t sid b r)" unfolding mcp_set_enabled_def
    by (intro step_intros set_mcp_enabled_inv) (simp_all add: reset_failures_def)
  show "keeps (sound_site A db0) (mcp_probe env say why cr q t sid answer)" unfolding mcp_probe_def Let_def
    by (intro step_intros load_one_inv)
qed

lemma serve_preset_sound:
  assumes "sound_site A db0 w" "fresh_ids (q, c)" "\<And>s. actor q (preset_token c) w = Some s \<Longrightarrow> s \<in> A"
  shows "sound_site A db0 (serve_preset e (q, c) w)"
proof -
  have f: "keeps (sound_site A db0) (on_db (\<lambda>m. ((), record_failure n say i r now m)))" for n say i r now
    by (rule site_keeps_on_db) (simp add: record_failure_inv)
  have g: "keeps (sound_site A db0) (on_db (\<lambda>m. ((), record_success i m)))" for i
    by (rule site_keeps_on_db) (simp add: record_success_def)
  have h: "keeps (sound_site A db0) (change (\<lambda>db. ((), count_call i db)))" for i
    by (rule keeps_change) (simp add: agent_calls_inv(8))
  have q: "q_id q < 2 ^ 128" using assms(2) by (cases c) simp_all
  note ks = author_calls_sound(2-) [OF q] agents_submit_sound other_calls_sound f g h site_keeps(3)
  show ?thesis
  proof (cases c)
    case (PcCreate t j r)
    with assms(2) have "j < 2 ^ 128" by simp
    from author_calls_sound(1) [OF q this, THEN keepsD, OF assms(1)] show ?thesis by (simp only: PcCreate serve_preset.simps run_handler_def)
  next
    case (PcDecide t i b r)
    with assms(3) have "\<And>s. actor q t w = Some s \<Longrightarrow> s \<in> A" by simp
    from reviews_decide_sound [OF assms(1) this] show ?thesis by (simp only: PcDecide serve_preset.simps run_handler_def)
  next
    case (PcMcpDecide t i b r)
    with assms(3) have "\<And>s. actor q t w = Some s \<Longrightarrow> s \<in> A" by simp
    from mcp_decide_sound [OF assms(1) this] show ?thesis by (simp only: PcMcpDecide serve_preset.simps run_handler_def)
  qed (simp_all only: serve_preset.simps run_handler_def ks [THEN keepsD, OF assms(1)])
qed

lemma serve_presets_sound:
  "\<lbrakk>serve_presets e cs w = (as, w'); sound_site A db0 w; \<forall>c\<in>set cs. fresh_ids c; \<forall>s. Some s \<in> set as \<longrightarrow> s \<in> A\<rbrakk> \<Longrightarrow> sound_site A db0 w'"
proof (induction cs arbitrary: w as)
  case (Cons qc cs)
  obtain q c where qc: "qc = (q, c)" by fastforce
  from Cons.prems(1) obtain as' where 1: "serve_presets e cs (serve_preset e (q, c) w) = (as', w')" "as = actor q (preset_token c) w # as'"
    by (auto simp: qc split: prod.splits)
  have "sound_site A db0 (serve_preset e (q, c) w)"
    by (rule serve_preset_sound [OF Cons.prems(2)]) (use Cons.prems(3,4) 1 qc in auto)
  from Cons.IH [OF 1(1) this] Cons.prems(3,4) 1(2) show ?case by simp
qed simp

lemma served_inv:
  assumes "reviewed_ok (mw_db (s_db w))" "\<forall>c\<in>set cs. fresh_ids c" "serve_presets e cs w = (as, w')"
  shows "catalogue_inv {s. Some s \<in> set as} (mw_db (s_db w)) (mw_db (s_db w'))"
proof -
  have "sound_site {s. Some s \<in> set as} (mw_db (s_db w)) w"
    using assms(1) by (simp add: site_inv_def catalogue_inv_def approved_by_def)
  from serve_presets_sound [OF assms(3) this assms(2)] show ?thesis by (simp add: site_inv_def)
qed

text \<open>The rows behind the catalogue.\<close>

lemma list_catalog_rows:
  assumes "agents_ok db"
  shows "l \<in> set (list_catalog db) \<longleftrightarrow> (\<exists>a\<in>set (agents db). \<exists>v. \<not> a_deleted a \<and> a_enabled a \<and> latest_approved db (a_pk a) = Some v \<and>
    l = to_listing db a (v, CATALOG))"
proof -
  have "user_row db (a_owner a) \<noteq> None" if "a \<in> set (agents db)" for a using assms that by (simp add: agents_ok_def)
  then show ?thesis by (fastforce simp: list_catalog_def List.map_filter_def image_iff split_beta split: if_splits)
qed

lemma reviewed_version:
  assumes "reviewed_ok db" "v \<in> set (agent_versions db)" "r \<in> set (reviews db)" "rv_kind r = KIND_AGENT" "rv_target r = v_pk v"
  shows "v_status v = RELEASED"
proof -
  from assms obtain u where u: "u \<in> set (agent_versions db)" "v_pk u = v_pk v" "v_status u = RELEASED" by (auto simp: reviewed_ok_def)
  have "u = v"
    using assms(1) unclashedD [of version_clash "agent_versions db" u v] clash_sym(2) u(1,2) assms(2)
    by (auto simp: reviewed_ok_def agents_ok_def version_clash_def)
  with u(3) show ?thesis by simp
qed

text \<open>C20. What the platform offers to everybody has been reviewed: whatever requests of authors, reviewers and administrators and reports of
  the workers are served, in any order, every entry of the catalogue shows a released version, with its prompt word for word, of an agent
  that is neither deleted nor taken off, and an approved review of exactly that version, which was there at the start or was decided by
  the session of a reviewer or administrator that sent one of the requests.\<close>

theorem catalogue_reviewed:
  assumes "reviewed_ok (mw_db (s_db w))" "\<forall>c\<in>set cs. fresh_ids c" "serve_presets e cs w = (as, w')"
    and "l \<in> set (list_catalog (mw_db (s_db w')))"
  shows "\<exists>a\<in>set (agents (mw_db (s_db w'))). \<exists>v\<in>set (agent_versions (mw_db (s_db w'))). \<exists>r\<in>set (reviews (mw_db (s_db w'))).
    al_id l = uuid_hex (a_pk a) \<and> \<not> a_deleted a \<and> a_enabled a \<and>
    v_agent v = a_pk a \<and> v_number v = al_version l \<and> v_prompt v = al_prompt l \<and> v_status v = RELEASED \<and>
    rv_kind r = KIND_AGENT \<and> rv_target r = v_pk v \<and> rv_status r = RV_APPROVED \<and>
    (r \<in> set (reviews (mw_db (s_db w))) \<or>
     (\<exists>s. Some s \<in> set as \<and> se_role s \<in> set REVIEWER_ROLE \<and> rv_reviewer r \<noteq> None \<and> UUID (se_user_id s) = rv_reviewer r))"
proof -
  let ?db = "mw_db (s_db w')"
  have ok: "reviewed_ok ?db" and ap: "approved_by {s. Some s \<in> set as} (mw_db (s_db w)) ?db"
    using served_inv [OF assms(1-3)] by (simp_all add: catalogue_inv_def)
  have aok: "agents_ok ?db" using ok by (simp add: reviewed_ok_def)
  from assms(4) obtain a v where a: "a \<in> set (agents ?db)" "\<not> a_deleted a" "a_enabled a" "latest_approved ?db (a_pk a) = Some v"
      and l: "l = to_listing ?db a (v, CATALOG)"
    by (auto simp: list_catalog_rows [OF aok])
  have v: "v \<in> set (agent_versions ?db)" "v_agent v = a_pk a" "approved_target KIND_AGENT ?db (v_pk v)"
    using latest_in [OF a(4) [unfolded latest_approved_def]] by simp_all
  from v(3) obtain r where r: "r \<in> set (reviews ?db)" "rv_kind r = KIND_AGENT" "rv_target r = v_pk v" "rv_status r = RV_APPROVED"
    by (auto simp: approved_target_def)
  have "v_status v = RELEASED" by (rule reviewed_version [OF ok v(1) r(1-3)])
  moreover have "r \<in> set (reviews (mw_db (s_db w))) \<or>
     (\<exists>s. Some s \<in> set as \<and> se_role s \<in> set REVIEWER_ROLE \<and> rv_reviewer r \<noteq> None \<and> UUID (se_user_id s) = rv_reviewer r)"
    using ap r(1,4) by (auto simp: approved_by_def)
  ultimately show ?thesis using a v r l by (intro bexI [of _ a] bexI [of _ v] bexI [of _ r]) (simp_all add: to_listing_def)
qed

text \<open>C21. No server that writes is ever let in: whatever is served, a server that declares writing operations is waiting or refused, so the
  catalogue of servers does not list it and no configuration can be frozen with it.\<close>

theorem writing_server_kept_out:
  assumes "reviewed_ok (mw_db (s_db w))" "\<forall>c\<in>set cs. fresh_ids c" "serve_presets e cs w = (as, w')"
    and "get_mcp sid (mw_db (s_db w')) = Some s" "ms_writes s"
  shows "(ms_status s = MCP_PENDING \<or> ms_status s = MCP_REJECTED) \<and>
    s \<notin> set (list_mcp coll (Some MCP_ENABLED) (mw_db (s_db w'))) \<and>
    resolve_mcp_references (\<lambda>i. get_mcp i (mw_db (s_db w'))) [sid] c = Inl Unavailable"
proof -
  have inv: "catalogue_inv {s. Some s \<in> set as} (mw_db (s_db w)) (mw_db (s_db w'))" by (rule served_inv [OF assms(1-3)])
  from assms(4) obtain r where "r \<in> set (mcp_servers (mw_db (s_db w')))" "s = to_server r"
    by (auto simp: get_mcp_def mcp_row_def bind_eq_Some_conv dest: find_in)
  with serversD(1) [OF inv, of r] assms(5) have st: "ms_status s = MCP_PENDING \<or> ms_status s = MCP_REJECTED" by (simp add: to_server_def)
  then have "s \<notin> set (list_mcp coll (Some MCP_ENABLED) (mw_db (s_db w')))" by (auto simp: list_mcp_def to_server_def)
  moreover have "resolve_mcp_references (\<lambda>i. get_mcp i (mw_db (s_db w'))) [sid] c = Inl Unavailable"
    using st assms(4) by (auto simp: resolve_mcp_references_def MAX_MCP_SERVER_def)
  ultimately show ?thesis using st by simp
qed

section \<open>The author's view and the catalogue\<close>

lemma approved_targets_rows:
  assumes "reviewed_ok db" "v \<in> set (agent_versions db)" "av_id x = uuid_hex (v_pk v)" "uuid_hex (v_pk v) \<in> set ids"
  shows "av_id x \<in> approved_targets (list_for_target ids KIND_AGENT db) \<longleftrightarrow> approved_target KIND_AGENT db (v_pk v)"
proof -
  have pk: "v_pk v < 2 ^ 128" using assms(1,2) by (simp add: reviewed_ok_def)
  have t: "rv_target r < 2 ^ 128" if "r \<in> set (reviews db)" "rv_kind r = KIND_AGENT" for r
    using assms(1) that by (force simp: reviewed_ok_def)
  have w: "v_pk v \<in> set (List.map_filter UUID ids)" using assms(4) pk by (force simp: List.map_filter_def)
  have "av_id x \<in> approved_targets (list_for_target ids KIND_AGENT db) \<longleftrightarrow>
      (\<exists>r\<in>set (reviews db). rv_kind r = KIND_AGENT \<and> rv_target r \<in> set (List.map_filter UUID ids) \<and> rv_status r = RV_APPROVED \<and>
        uuid_hex (rv_target r) = uuid_hex (v_pk v))"
    by (auto simp: approved_targets_def list_for_target_def Let_def to_review_def assms(3) image_iff)
  also have "\<dots> \<longleftrightarrow> approved_target KIND_AGENT db (v_pk v)"
    using w t uuid_hex_inj [OF _ pk] by (auto simp: approved_target_def)
  finally show ?thesis .
qed

text \<open>C22. What an author is told about the own agents agrees with the catalogue: the view marks an agent that is not deleted as being in the
  catalogue exactly when the catalogue lists it, and the catalogue never lists a deleted one.\<close>

theorem mine_shows_catalogue:
  assumes "reviewed_ok db" "m \<in> set (to_mine (list_owned user_id db) db)"
  shows "my_in_catalog m \<and> \<not> ag_deleted (my_agent m) \<longleftrightarrow> (\<exists>l\<in>set (list_catalog db). al_id l = ag_id (my_agent m))"
proof -
  let ?ids = "concat (map (\<lambda>d. map av_id (ad_versions d)) (list_owned user_id db))"
  have aok: "agents_ok db" using assms(1) by (simp add: reviewed_ok_def)
  from assms(2) obtain a where a: "a \<in> set (agents db)" "assemble db a \<in> set (list_owned user_id db)"
      and m: "m = to_my_agent (list_for_target ?ids KIND_AGENT db) (assemble db a)"
    by (auto simp: to_mine_def list_owned_def split: option.splits)
  let ?vs = "filter (\<lambda>v. v_agent v = a_pk a) (agent_versions db)"
  have ids: "uuid_hex (v_pk v) \<in> set ?ids" if "v \<in> set ?vs" for v
    using a(2) that by (force simp: assemble_def to_version_def)
  have "my_in_catalog m \<longleftrightarrow> a_enabled a \<and> (\<exists>v\<in>set ?vs. av_id (to_version v) \<in> approved_targets (list_for_target ?ids KIND_AGENT db))"
    by (auto simp: m to_my_agent_def assemble_def to_agent_def)
  also have "\<dots> \<longleftrightarrow> a_enabled a \<and> (\<exists>v\<in>set ?vs. approved_target KIND_AGENT db (v_pk v))"
    by (intro conj_cong refl bex_cong approved_targets_rows [OF assms(1)] ids) (simp_all add: to_version_def)
  also have "\<dots> \<longleftrightarrow> a_enabled a \<and> latest_approved db (a_pk a) \<noteq> None"
    by (auto simp: latest_approved_def latest_None filter_empty_conv)
  finally have mine: "my_in_catalog m \<longleftrightarrow> a_enabled a \<and> latest_approved db (a_pk a) \<noteq> None" .
  have same: "b = a" if "b \<in> set (agents db)" "uuid_hex (a_pk b) = uuid_hex (a_pk a)" for b
  proof -
    have "a_pk b = a_pk a" using that a(1) aok uuid_hex_inj [of "a_pk b" "a_pk a"] by (simp add: agents_ok_def)
    with that(1) a(1) agents_distinct [OF aok] show ?thesis by (metis distinct_map inj_onD)
  qed
  have "(\<exists>l\<in>set (list_catalog db). al_id l = uuid_hex (a_pk a)) \<longleftrightarrow> \<not> a_deleted a \<and> a_enabled a \<and> latest_approved db (a_pk a) \<noteq> None"
  proof
    assume "\<exists>l\<in>set (list_catalog db). al_id l = uuid_hex (a_pk a)"
    then obtain b v where "b \<in> set (agents db)" "\<not> a_deleted b" "a_enabled b" "latest_approved db (a_pk b) = Some v"
        "uuid_hex (a_pk b) = uuid_hex (a_pk a)"
      by (auto simp: list_catalog_rows [OF aok] to_listing_def)
    with same [of b] show "\<not> a_deleted a \<and> a_enabled a \<and> latest_approved db (a_pk a) \<noteq> None" by auto
  next
    assume r: "\<not> a_deleted a \<and> a_enabled a \<and> latest_approved db (a_pk a) \<noteq> None"
    then obtain v where "latest_approved db (a_pk a) = Some v" by auto
    with r a(1) have "to_listing db a (v, CATALOG) \<in> set (list_catalog db)" by (auto simp: list_catalog_rows [OF aok])
    then show "\<exists>l\<in>set (list_catalog db). al_id l = uuid_hex (a_pk a)" by (rule rev_bexI) (simp add: to_listing_def)
  qed
  with mine show ?thesis by (auto simp: m to_my_agent_def assemble_def to_agent_def)
qed

section \<open>Runs of the endpoints\<close>

text \<open>User 3 is a reviewer; a review of version 1 of the agent and a server that writes are waiting.\<close>

definition example_presets_site :: "PresetDb McpWorld Site" where
  "example_presets_site =
     \<lparr>s_db = \<lparr>mw_failures = Map.empty, mw_db = example_reviews\<lparr>mcp_servers := mcp_servers (mw_db (example_mcp MCP_PENDING True))\<rparr>\<rparr>,
      s_sessions = [session_key ''t3'' \<mapsto> (example_session 3 REVIEWER, 500)], s_rate = Map.empty\<rparr>"

definition example_preset_env :: PresetEnv where
  "example_preset_env = \<lparr>pe_env = example_env, pe_say = (\<lambda>n r. r), pe_why = (\<lambda>_. []), pe_credentials = Map.empty\<rparr>"

definition example_requests :: "(Req \<times> preset_call) list" where
  "example_requests =
     [(example_req 1, PcMcpDecide (Some ''t3'') (uuid_hex 7) True None), (example_req 2, PcDecide (Some ''t3'') (uuid_hex 30) True None)]"

lemma example_reviewed_ok: "reviewed_ok (mw_db (s_db example_presets_site))"
  by (simp add: reviewed_ok_def example_presets_site_def example_reviews_def example_mcp_def example_catalogue_def agents_ok_def
      unclashed_def agent_clash_def version_clash_def user_row_def)

lemma example_served:
  "\<exists>w'. serve_presets example_preset_env example_requests example_presets_site =
     ([Some (example_session 3 REVIEWER), Some (example_session 3 REVIEWER)], w') \<and>
     mw_db (s_db w') = (mw_db (s_db example_presets_site))\<lparr>reviews := map (decided_review True None 3 2) (reviews example_reviews)\<rparr>"
  by (simp add: example_simps example_requests_def example_preset_env_def example_presets_site_def reviewer_user_def require_reviewer_def REVIEWER_ROLE_def mcp_decide_def reviews_decide_def seq_ask ask_def ask_result_def or_error_def attempt_def change_def missing_def stripped_def
      get_mcp_def mcp_row_def example_mcp_def to_server_def get_item_def get_review_def review_row_def to_review_def review_items_def agent_item_def
      agent_row_def example_reviews_def example_catalogue_def user_row_def decide_review_def sql_update_returning_def decided_review_def
      List.map_filter_def)

lemma example_listed:
  assumes "mw_db (s_db w') = (mw_db (s_db example_presets_site))\<lparr>reviews := map (decided_review True None 3 2) (reviews example_reviews)\<rparr>"
  shows "\<exists>l\<in>set (list_catalog (mw_db (s_db w'))). al_version l = 1 \<and> al_prompt l = ''one''"
  unfolding assms
  by (simp add: list_catalog_def example_presets_site_def example_reviews_def example_catalogue_def decided_review_def latest_approved_def
      approved_target_def latest_def user_row_def to_listing_def List.map_filter_def)

lemma example_fresh: "\<forall>c\<in>set example_requests. fresh_ids c"
  by (simp add: example_requests_def example_req_def)

theorem catalogue_reviewed_witness:
  "\<exists>v\<in>set (agent_versions (mw_db (s_db (snd (serve_presets example_preset_env example_requests example_presets_site))))).
     v_number v = 1 \<and> v_prompt v = ''one'' \<and> v_status v = RELEASED"
proof -
  from example_served obtain w' where r: "serve_presets example_preset_env example_requests example_presets_site =
      ([Some (example_session 3 REVIEWER), Some (example_session 3 REVIEWER)], w')"
    and d: "mw_db (s_db w') = (mw_db (s_db example_presets_site))\<lparr>reviews := map (decided_review True None 3 2) (reviews example_reviews)\<rparr>"
    by auto
  from example_listed [OF d] obtain l where l: "l \<in> set (list_catalog (mw_db (s_db w')))" "al_version l = 1" "al_prompt l = ''one''" by auto
  from catalogue_reviewed [OF example_reviewed_ok example_fresh r l(1)] l(2,3) r show ?thesis by auto
qed

theorem writing_server_kept_out_witness:
  "resolve_mcp_references (\<lambda>i. get_mcp i (mw_db (s_db (snd (serve_presets example_preset_env example_requests example_presets_site)))))
     [uuid_hex 7] default_config = Inl Unavailable"
proof -
  from example_served obtain w' where r: "serve_presets example_preset_env example_requests example_presets_site =
      ([Some (example_session 3 REVIEWER), Some (example_session 3 REVIEWER)], w')"
    and d: "mw_db (s_db w') = (mw_db (s_db example_presets_site))\<lparr>reviews := map (decided_review True None 3 2) (reviews example_reviews)\<rparr>"
    by auto
  let ?s = "to_server (hd (mcp_servers (mw_db (example_mcp MCP_PENDING True))))"
  have s: "get_mcp (uuid_hex 7) (mw_db (s_db w')) = Some ?s" "ms_writes ?s"
    unfolding d by (simp_all add: get_mcp_def mcp_row_def example_presets_site_def example_mcp_def to_server_def)
  show ?thesis using writing_server_kept_out [OF example_reviewed_ok example_fresh r s, where coll = length and c = default_config] r by simp
qed

theorem mine_shows_catalogue_witness:
  "my_in_catalog (hd (to_mine (list_owned (uuid_hex 1) (mw_db (s_db example_presets_site))) (mw_db (s_db example_presets_site)))) \<and>
     \<not> ag_deleted (my_agent (hd (to_mine (list_owned (uuid_hex 1) (mw_db (s_db example_presets_site))) (mw_db (s_db example_presets_site))))) \<longleftrightarrow>
   (\<exists>l\<in>set (list_catalog (mw_db (s_db example_presets_site))). al_id l =
      ag_id (my_agent (hd (to_mine (list_owned (uuid_hex 1) (mw_db (s_db example_presets_site))) (mw_db (s_db example_presets_site))))))"
  by (rule mine_shows_catalogue [OF example_reviewed_ok, of _ "uuid_hex 1"])
    (simp add: to_mine_def list_owned_def example_presets_site_def example_reviews_def example_catalogue_def)

text \<open>Finding. The mark itself leaves the deletion out: a deleted agent with an approved version is shown to its author as being in the
  catalogue, which does not list it.\<close>

definition example_deleted :: PresetDb where
  "example_deleted = snd (soft_delete (uuid_hex 10) (uuid_hex 1) 5
     (example_reviews\<lparr>reviews := map (decided_review True None 3 2) (reviews example_reviews)\<rparr>))"

lemma deleted_agent_marked:
  "map my_in_catalog (to_mine (list_owned (uuid_hex 1) example_deleted) example_deleted) = [True]" "list_catalog example_deleted = []"
  by (simp_all add: example_deleted_def sql_update_returning_def example_reviews_def example_catalogue_def decided_review_def user_row_def
      soft_delete_def writable_def agent_row_def put_agent_def to_mine_def list_owned_def list_catalog_def List.map_filter_def to_my_agent_def
      assemble_def to_agent_def to_version_def approved_targets_def list_for_target_def Let_def to_review_def)

text \<open>Finding. The review of a server cannot be decided where the other reviews are: the endpoint raises instead of answering that it
  does not know it.\<close>

lemma server_review_answers_500:
  assumes "get_review i (mw_db (s_db w)) = Some r" "re_kind r = KIND_MCP"
  shows "fst (seq (ask_result (get_item i)) f w) = Inl ValueError" "fst (require_item i w) = Inl not_found"
  using assms server_review_item_raises [OF assms] by (simp_all add: seq_def ask_result_def require_item_def ask_def read_db_def throw_def)

end
