(* ===== verification/Spec2Isabelle.thy ===== *)
theory Spec2Isabelle
  imports Run_Control Sandbox_Pool Event_Log Replay Worker_Loop Memory_Worker Accounts Thread_Api Quota Preset_Api
begin

text \<open>
  A verification library of the backend of FinAgentPlatform (\<open>src/src/app\<close>): a platform on which teachers run analyses by agents. An
  analysis is a \<^emph>\<open>run\<close> of a \<^emph>\<open>thread\<close>: the api stores a row and publishes a task, a worker reserves the task, acquires a
  container, executes the agent and writes events, and the browser follows the events. The processes share a database and Redis and take
  no locks; what keeps them consistent is that every write is one conditional statement.

  \<^bold>\<open>How code becomes definitions.\<close> A class with fields is a \<open>record\<close>, an enumeration a \<open>datatype\<close>, a table a list of records with its unique
  indexes as a relation between rows (\<open>sql_insert\<close>, \<open>sql_update_returning\<close> of \<open>Tables\<close>). A call that may raise returns \<open>Inl\<close> of an
  exception or \<open>Inr\<close> of a value; code that raises and changes a state is a program (\<open>Programs\<close>: \<open>seq\<close>, \<open>throw\<close>, \<open>try_except\<close>,
  \<open>try_finally\<close>), so an exception keeps the changes made before it. The time, fresh identifiers, hashes, collations, models and agents
  are arguments. Each transaction of the database and each script or pipeline of Redis is atomic, as both are documented; where the
  code makes two of them, the model keeps two steps and the theorems hold for any interleaving, unless the text of a theorem says that
  requests are served one after the other.

  \<^bold>\<open>Foundations.\<close> \<open>Prelude\<close> has the Python values and library functions the code calls (integers from text, UUIDs, stripping),
  \<open>Tables\<close> the statements of SQL, \<open>Programs\<close> the combinators with the rules \<open>keeps\<close> (an invariant survives return and exception)
  and \<open>yields\<close>, \<open>Guarded_Store\<close> the contract of a store that many processes write by conditional steps: the locale
  \<open>guarded_writes\<close>, interpreted by the runs, the memory jobs, the requests to join a group and the reviews.

  \<^bold>\<open>Runs.\<close>
  \<^item> \<open>Event_Model\<close>, \<open>Event_Id\<close>, \<open>Event_Archive\<close>, \<open>Event_Log\<close>, \<open>Replay\<close>, \<open>Event_Mapper\<close> (\<open>app/event\<close>, \<open>app/run/log.py\<close>, \<open>archive.py\<close>,
    \<open>replay.py\<close>): events, the log over a Redis stream and the archive table, following it, and the translation of the chunks of the agent.
    The commands of Redis are a record of functions with what Redis documents of them as the hypothesis \<open>stream_laws\<close>; the log uses the
    archive through the locale \<open>event_archive\<close>. Reading a log is complete and free of duplicates, following it ends with the terminal
    event, a replay keeps the text, identifiers keep their order when packed.
  \<^item> \<open>Agent_Config\<close>, \<open>Run_Decision\<close>, \<open>Run_Repository\<close> (\<open>app/agent/config.py\<close>, \<open>app/run/decision.py\<close>, \<open>repository.py\<close>, \<open>cursor.py\<close>): the rows
    of runs and their state machine. At most one process ends a run, whatever the calls and their order.
  \<^item> \<open>Run_Task\<close>, \<open>Run_Executor\<close>, \<open>Run_Outcome\<close> (\<open>app/run/executor.py\<close>): the execution with a fault at any await. One terminal event,
    equal to the stored state; a container that was acquired is released once. The pool is a parameter here, with what each call of
    it came to noted, also of an acquire that raised although the broker granted the container.
  \<^item> \<open>Task_Queue\<close>, \<open>Worker_Loop\<close>, \<open>Run_Control\<close> (\<open>app/task/queue.py\<close>, \<open>app/worker/loop.py\<close>, \<open>app/run/submitter.py\<close>, \<open>cancel.py\<close>,
    \<open>approval.py\<close>, \<open>reaper.py\<close>, \<open>app/api/route/run.py\<close>): delivery at least once with kills and restarts, submission, cancelling,
    approval and the sweeps.
  \<^item> \<open>Sandbox_Pool\<close> (\<open>app/sandbox/pool.py\<close>): the pool of containers with its queue, split at every await. Its slots
    never exceed its cap, and neither do the containers that run, as long as no start is cut off and no thread asks twice at once.

  \<^bold>\<open>Memory.\<close> \<open>Memory_Files\<close>, \<open>Memory_Store\<close>, \<open>Memory_Extraction\<close>, \<open>Memory_Job\<close>, \<open>Memory_Worker\<close> (\<open>app/memory\<close>): the records of a thread as
  files replaced in a crash-safe way, their extraction and consolidation, and the outbox of jobs. The store refines a map from slugs to
  records; a crash at any system call is invisible to the next reader; the outbox is worked off. YAML is a parameter with its round
  trip as the hypothesis \<open>yaml_laws\<close>, which leaves out names and descriptions with U+0085, because YAML does not keep that
  character.

  \<^bold>\<open>Accounts and threads.\<close>
  \<^item> \<open>User_Repository\<close>, \<open>Group_Repository\<close>, \<open>Rate_Limit\<close>, \<open>Sessions\<close>, \<open>Api_Error\<close>, \<open>Accounts\<close> (\<open>app/user\<close>, \<open>app/group\<close>, \<open>app/auth\<close>,
    \<open>app/quota/rate.py\<close>, \<open>app/api/security.py\<close>, \<open>route/auth.py\<close>, \<open>admin.py\<close>, \<open>group.py\<close>): privileges come from administrators and a
    roster is its owner's, over any sequence of requests; the limiter is an exact sliding window.
  \<^item> \<open>Thread_Repository\<close>, \<open>Path_Resolve\<close>, \<open>Workspace\<close>, \<open>Thread_Api\<close> (\<open>app/thread\<close>, \<open>app/sandbox/path.py\<close>, \<open>workspace.py\<close>,
    \<open>route/thread.py\<close>, \<open>file.py\<close>): threads, the directories behind them on a file system with symbolic links, and the outbox that
    removes directories when the link to the broker fails.
  \<^item> \<open>Quota\<close> (\<open>app/quota/policy.py\<close>, \<open>usage.py\<close>, \<open>_require_quota\<close> in \<open>route/thread.py\<close>): the gate of a submission, its four reads and the
    row of the run as separate steps of any number of submissions; the bound on the runs of a user counts what overlaps.

  \<^bold>\<open>Catalogues.\<close>
  \<^item> \<open>Preset_Model\<close>, \<open>Agent_Catalog\<close>, \<open>Skill_Catalog\<close> (\<open>app/preset/model.py\<close>, \<open>repository.py\<close>, \<open>skill.py\<close>): versions of agents and Skills,
    sharing and visibility. A released version stays word for word (locale \<open>version_history\<close>, interpreted for both); resolving a reference
    is the rule of visibility and agrees with the list the user chose from.
  \<^item> \<open>Review_Repository\<close> (\<open>app/preset/review.py\<close>) and \<open>Mcp_Catalog\<close> (\<open>app/preset/mcp.py\<close>, \<open>app/agent/mcp.py\<close>, \<open>circuit.py\<close>): a review is
    decided once; the breaker takes a server off exactly after five failures in a row; tools never shadow each other.
  \<^item> \<open>References\<close> (\<open>app/preset/reference.py\<close>, \<open>skill_reference.py\<close>, \<open>subagent_reference.py\<close>, \<open>mcp_reference.py\<close>): what a submission
    freezes.
  \<^item> \<open>Preset_Api\<close> (\<open>app/api/route/agent.py\<close>, \<open>review.py\<close>, \<open>mcp.py\<close>): the endpoints; the catalogue only shows released versions a
    reviewer approved, and no server that writes is let in.

  \<^bold>\<open>Bounds and fuel.\<close> The loops of \<open>reserve\<close> and \<open>claim\<close> take fuel; the theorems give an amount, from the messages pending, that is enough.
  Following a log recurses on the list of the states in which it looks, one pair a round; the theorem on it says what it has delivered and
  whether it has ended after any number of rounds, and it ends in the round that finds the terminal event. The loop of a worker and the pool are step relations without fuel. Path resolution recurses on the components and the links not yet expanded.
  A \<open>char\<close> is a code point below 256, so text is Latin-1; identifiers are naturals below \<open>2^128\<close>, which the hypotheses state.

  \<^bold>\<open>Findings.\<close> Where the code does not do what it means to, a lemma shows it on a concrete state: the text before it starts with
  \<open>Finding\<close> or names the fault.

  \<^bold>\<open>Not modelled.\<close>
  \<^item> The agent itself (\<open>app/agent/factory.py\<close>, \<open>prompt.py\<close>, \<open>tail.py\<close>, \<open>context.py\<close>, \<open>todo.py\<close>, \<open>question.py\<close>, \<open>interrupt.py\<close>): middleware
    of an agent framework and of a language model, which are not in the repository; the executor takes the stream of the agent as a
    parameter.
  \<^item> The containers (\<open>app/sandbox/container.py\<close>, \<open>backend.py\<close>, \<open>browse.py\<close>, \<open>quota.py\<close>) and the broker around them (\<open>app/broker\<close> but
    the removal of a directory, most of \<open>app/sandbox/remote.py\<close>): calls of Docker, of the operating system and HTTP transport; starting
    and stopping a container is a parameter of the pool.
  \<^item> The packages of Skills (\<open>app/preset/skill_package.py\<close>, \<open>skill_remote.py\<close>, \<open>app/broker/skill.py\<close>, \<open>route/skill.py\<close>): archives and
    YAML read by libraries.
  \<^item> Recall and selection of memory (\<open>app/memory/recall.py\<close>, \<open>selector.py\<close>) and \<open>route/memory.py\<close>: what they select is the choice of a
    model, and what they send is a prompt.
  \<^item> Usage reports, tracing and retention (\<open>app/usage\<close>, \<open>route/usage.py\<close>, \<open>app/agent/trace.py\<close>, \<open>app/store/retention.py\<close>), the wiring of
    processes (\<open>app/api/app.py\<close>, \<open>platform.py\<close>, \<open>worker/main.py\<close>, \<open>runtime.py\<close>, \<open>config.py\<close>, \<open>log.py\<close>), migrations, and the evaluation
    scripts (\<open>src/script\<close>).
  \<^item> Texts for people, logging, and the bounds on lengths of request fields that the web framework checks before a handler runs.
\<close>

end
